(* ===== verification/Prelude.thy ===== *)
theory Prelude
  imports Main "HOL-Library.Word" "HOL-Library.Monad_Syntax"
begin

text \<open>
  Shared vocabulary of the development: the fixed-width integer types of the C code, the
  result conventions, the \<open>named_theorems\<close> collections, and generic lemmas on options, lists
  and words.

  Result conventions.  A C function of the library returns \<open>bool\<close> and changes what its
  pointer arguments point to, also when it returns \<open>false\<close>.  Its model is a total HOL
  function that returns \<open>Some (ok, stream', mem')\<close> when the C function returns, and \<open>None\<close>
  when the C function has no defined result: an access outside every valid object, a call
  through a null function pointer, or (for definitions with a fuel argument) a recursion that
  does not stop.  A statement \<open>f x = Some r\<close> therefore says that the call returns and that
  it had no undefined behaviour on the way.  Where a C function has a scalar output parameter
  that it writes only on success, its model returns \<open>Some v\<close> in place of \<open>true\<close> and
  \<open>None\<close> in place of \<open>false\<close>.
\<close>

unbundle bit_operations_syntax

type_synonym u8 = "8 word"
type_synonym u16 = "16 word"
type_synonym u32 = "32 word"
type_synonym u64 = "64 word"

text \<open>\<open>codec_simps\<close>: equations that evaluate the primitive encoders and decoders;
  \<open>frame_intros\<close>: introduction rules for "this step changes memory only there".\<close>

named_theorems codec_simps
named_theorems frame_intros

subsection \<open>Checked list access\<close>

definition nth_opt :: "'a list \<Rightarrow> nat \<Rightarrow> 'a option" where
  "nth_opt xs i = (if i < length xs then Some (xs ! i) else None)"

lemma nth_opt_Some [simp]: "nth_opt xs i = Some x \<longleftrightarrow> i < length xs \<and> xs ! i = x"
  by (simp add: nth_opt_def)

lemma nth_opt_None [simp]: "nth_opt xs i = None \<longleftrightarrow> length xs \<le> i"
  by (simp add: nth_opt_def)

lemma nth_opt_less: "i < length xs \<Longrightarrow> nth_opt xs i = Some (xs ! i)"
  by simp

subsection \<open>Options\<close>

lemma bind_SomeE:
  assumes "Option.bind x f = Some y"
  obtains z where "x = Some z" "f z = Some y"
  using assms by (cases x) auto

lemma ex_Some_if:
  "(c \<Longrightarrow> \<exists>b. x = Some b) \<Longrightarrow> (\<not> c \<Longrightarrow> \<exists>b. y = Some b) \<Longrightarrow> \<exists>b. (if c then x else y) = Some b"
  by simp

lemma ex_bool [simp]: "\<exists>b. b" "\<exists>b. \<not> b"
  by blast+

subsection \<open>Words\<close>

lemma unat_diff_less:
  fixes a b :: "'a::len word"
  assumes "b \<le> a" "0 < b"
  shows "unat (a - b) < unat a"
proof -
  from assms(2) have "0 < unat b" by (simp add: word_less_nat_alt)
  moreover from assms(1) have "unat b \<le> unat a" by (simp add: word_le_nat_alt)
  moreover from assms(1) have "unat (a - b) = unat a - unat b" by (rule unat_sub)
  ultimately show ?thesis by simp
qed

lemma unat_u64_less [simp]: "unat (w :: u64) < 18446744073709551616"
  using unsigned_less [of w, where 'a = nat] by simp

lemma unat_u32_less [simp]: "unat (w :: u32) < 4294967296"
  using unsigned_less [of w, where 'a = nat] by simp

lemma unat_u8_less [simp]: "unat (w :: u8) < 256"
  using unsigned_less [of w, where 'a = nat] by simp

lemma unat_of_nat_u64: "n < 2 ^ 64 \<Longrightarrow> unat (of_nat n :: u64) = n"
  by (simp add: unat_of_nat)

lemma unat_of_nat_u32: "n < 2 ^ 32 \<Longrightarrow> unat (of_nat n :: u32) = n"
  by (simp add: unat_of_nat)

lemma unat_u32_u64 [simp]: "unat (ucast (w :: u32) :: u64) = unat w"
proof -
  have "unat w < 2 ^ 64" by (rule less_trans [OF unat_u32_less]) simp
  then show ?thesis by (simp only: unsigned_ucast_eq) (simp add: take_bit_eq_mod)
qed

end
