(* ===== verification/CMemory.thy ===== *)
theory CMemory
  imports Prelude
begin

text \<open>
  The C memory the library reads and writes message structures in: byte addressed, little
  endian, 8-byte pointers (the 64-bit iOS targets the pod is built for), with a heap of
  allocated blocks for \<open>realloc\<close> and \<open>free\<close>.  An address that belongs to no object has no
  byte; reading or writing it has no defined result (\<open>None\<close>).  Address \<open>0\<close> is \<open>NULL\<close>.
\<close>

record mem =
  bytes :: "nat \<Rightarrow> u8 option"
  blocks :: "nat \<Rightarrow> nat option"

subsection \<open>Byte ranges\<close>

primrec load_bytes :: "mem \<Rightarrow> nat \<Rightarrow> nat \<Rightarrow> u8 list option" where
  "load_bytes m a 0 = Some []"
| "load_bytes m a (Suc n) =
     do { b \<leftarrow> bytes m a; bs \<leftarrow> load_bytes m (Suc a) n; Some (b # bs) }"

primrec store_bytes :: "mem \<Rightarrow> nat \<Rightarrow> u8 list \<Rightarrow> mem option" where
  "store_bytes m a [] = Some m"
| "store_bytes m a (b # bs) =
     (case bytes m a of
        None \<Rightarrow> None
      | Some _ \<Rightarrow> store_bytes (m\<lparr>bytes := (bytes m)(a := Some b)\<rparr>) (Suc a) bs)"

definition valid_range :: "mem \<Rightarrow> nat \<Rightarrow> nat \<Rightarrow> bool" where
  "valid_range m a n \<longleftrightarrow> (\<forall>i<n. bytes m (a + i) \<noteq> None)"

definition overwrite :: "(nat \<Rightarrow> u8 option) \<Rightarrow> nat \<Rightarrow> u8 list \<Rightarrow> nat \<Rightarrow> u8 option" where
  "overwrite f a bs x =
     (if a \<le> x \<and> x < a + length bs then Some (bs ! (x - a)) else f x)"

lemma valid_range_0 [simp]: "valid_range m a 0"
  by (simp add: valid_range_def)

lemma valid_range_Suc:
  "valid_range m a (Suc n) \<longleftrightarrow> bytes m a \<noteq> None \<and> valid_range m (Suc a) n"
proof
  assume v: "valid_range m a (Suc n)"
  from v have "bytes m (a + 0) \<noteq> None" unfolding valid_range_def by blast
  moreover have "bytes m (Suc a + i) \<noteq> None" if "i < n" for i
    using v that unfolding valid_range_def by (metis Suc_less_eq add_Suc add_Suc_right)
  ultimately show "bytes m a \<noteq> None \<and> valid_range m (Suc a) n"
    unfolding valid_range_def by simp
next
  assume v: "bytes m a \<noteq> None \<and> valid_range m (Suc a) n"
  show "valid_range m a (Suc n)"
    unfolding valid_range_def
  proof (intro allI impI)
    fix i assume "i < Suc n"
    with v show "bytes m (a + i) \<noteq> None" unfolding valid_range_def by (cases i) auto
  qed
qed

lemma valid_range_mono: "valid_range m a n \<Longrightarrow> a \<le> b \<Longrightarrow> b + k \<le> a + n \<Longrightarrow> valid_range m b k"
  unfolding valid_range_def
  by (metis (no_types, lifting) add.assoc add_le_cancel_left le_iff_add less_le_trans nat_add_left_cancel_less)

lemma overwrite_Nil [simp]: "overwrite f a [] = f"
  by (rule ext) (auto simp: overwrite_def)

lemma overwrite_Cons: "overwrite f a (b # bs) = overwrite (f(a := Some b)) (Suc a) bs"
  by (rule ext) (auto simp: overwrite_def nth_Cons' Suc_diff_Suc)

lemma overwrite_outside: "x < a \<or> a + length bs \<le> x \<Longrightarrow> overwrite f a bs x = f x"
  by (auto simp: overwrite_def)

lemma store_bytes_eq:
  "valid_range m a (length bs) \<Longrightarrow>
   store_bytes m a bs = Some (m\<lparr>bytes := overwrite (bytes m) a bs\<rparr>)"
proof (induction bs arbitrary: m a)
  case Nil
  then show ?case by simp
next
  case (Cons b bs)
  from Cons.prems obtain c where c: "bytes m a = Some c"
    by (auto simp: valid_range_Suc)
  have "valid_range (m\<lparr>bytes := (bytes m)(a := Some b)\<rparr>) (Suc a) (length bs)"
    using Cons.prems by (auto simp: valid_range_Suc valid_range_def)
  from Cons.IH [OF this] c show ?case by (simp add: overwrite_Cons fun_upd_def)
qed

lemma store_bytes_Some_iff:
  "store_bytes m a bs \<noteq> None \<longleftrightarrow> valid_range m a (length bs)"
proof (induction bs arbitrary: m a)
  case Nil
  then show ?case by simp
next
  case (Cons b bs)
  have "valid_range (m\<lparr>bytes := (bytes m)(a := Some b)\<rparr>) (Suc a) (length bs) =
        valid_range m (Suc a) (length bs)"
    by (auto simp: valid_range_def)
  then show ?case
    using Cons.IH by (auto simp: valid_range_Suc split: option.splits)
qed

lemma store_bytes_bytes:
  "store_bytes m a bs = Some m' \<Longrightarrow> m' = m\<lparr>bytes := overwrite (bytes m) a bs\<rparr>"
  using store_bytes_Some_iff [of m a bs] store_bytes_eq [of m a bs] by auto

lemma load_bytes_length: "load_bytes m a n = Some bs \<Longrightarrow> length bs = n"
  by (induction n arbitrary: a bs) (auto elim!: bind_SomeE)

lemma load_bytes_Some_iff: "load_bytes m a n \<noteq> None \<longleftrightarrow> valid_range m a n"
proof (induction n arbitrary: a)
  case 0
  then show ?case by simp
next
  case (Suc n)
  have "load_bytes m a (Suc n) \<noteq> None \<longleftrightarrow>
        bytes m a \<noteq> None \<and> load_bytes m (Suc a) n \<noteq> None"
    by (cases "bytes m a"; cases "load_bytes m (Suc a) n") simp_all
  then show ?case by (simp only: Suc.IH valid_range_Suc)
qed

lemma load_bytes_valid: "valid_range m a n \<Longrightarrow> \<exists>bs. load_bytes m a n = Some bs \<and> length bs = n"
  using load_bytes_Some_iff [of m a n] load_bytes_length [of m a n] by auto

lemma load_bytes_cong:
  "(\<And>i. i < n \<Longrightarrow> bytes m' (a + i) = bytes m (a + i)) \<Longrightarrow> load_bytes m' a n = load_bytes m a n"
proof (induction n arbitrary: a)
  case 0
  then show ?case by simp
next
  case (Suc n)
  from Suc.prems [of 0] have "bytes m' a = bytes m a" by simp
  moreover have "load_bytes m' (Suc a) n = load_bytes m (Suc a) n"
    using Suc.prems [of "Suc i" for i] by (intro Suc.IH) simp
  ultimately show ?case by simp
qed

lemma load_overwrite:
  "load_bytes (m\<lparr>bytes := overwrite (bytes m) a bs\<rparr>) a (length bs) = Some bs"
proof (induction bs arbitrary: m a)
  case Nil
  then show ?case by simp
next
  case (Cons b bs)
  let ?m = "m\<lparr>bytes := (bytes m)(a := Some b)\<rparr>"
  have "bytes (m\<lparr>bytes := overwrite (bytes m) a (b # bs)\<rparr>) a = Some b"
    by (simp add: overwrite_def)
  moreover have "m\<lparr>bytes := overwrite (bytes m) a (b # bs)\<rparr> =
      ?m\<lparr>bytes := overwrite (bytes ?m) (Suc a) bs\<rparr>"
    by (simp add: overwrite_Cons fun_upd_def)
  moreover note Cons.IH [of ?m "Suc a"]
  ultimately show ?case by (simp add: fun_upd_def)
qed

lemma load_store_bytes: "store_bytes m a bs = Some m' \<Longrightarrow> load_bytes m' a (length bs) = Some bs"
  by (drule store_bytes_bytes) (simp add: load_overwrite)


lemma overwrite_None:
  "valid_range m a (length bs) \<Longrightarrow> overwrite (bytes m) a bs x = None \<longleftrightarrow> bytes m x = None"
  unfolding valid_range_def overwrite_def
  by (metis le_add_diff_inverse nat_add_left_cancel_less option.distinct(1))

lemma store_bytes_valid: "store_bytes m a bs = Some m' \<Longrightarrow> valid_range m' b n = valid_range m b n"
  using store_bytes_Some_iff [of m a bs] store_bytes_bytes [of m a bs m']
  by (auto simp: valid_range_def [of _ b n] overwrite_None)

subsection \<open>Frames\<close>

text \<open>\<open>frame_only m m' a n\<close>: from \<open>m\<close> to \<open>m'\<close> at most the \<open>n\<close> bytes at \<open>a\<close>
  changed, no object appeared or vanished, and the heap's blocks are the same.\<close>

definition frame_only :: "mem \<Rightarrow> mem \<Rightarrow> nat \<Rightarrow> nat \<Rightarrow> bool" where
  "frame_only m m' a n \<longleftrightarrow>
     (\<forall>x. x < a \<or> a + n \<le> x \<longrightarrow> bytes m' x = bytes m x) \<and>
     (\<forall>x. bytes m' x = None \<longleftrightarrow> bytes m x = None) \<and> blocks m' = blocks m"

lemma frame_only_refl [simp, frame_intros]: "frame_only m m a n"
  by (simp add: frame_only_def)

lemma frame_only_trans:
  "frame_only m1 m2 a n \<Longrightarrow> frame_only m2 m3 a n \<Longrightarrow> frame_only m1 m3 a n"
  by (simp add: frame_only_def)

lemma frame_only_mono:
  "frame_only m m' a n \<Longrightarrow> b \<le> a \<Longrightarrow> a + n \<le> b + k \<Longrightarrow> frame_only m m' b k"
  unfolding frame_only_def by (meson le_less_trans le_trans less_le_trans not_le)

lemma frame_only_valid: "frame_only m m' a n \<Longrightarrow> valid_range m' b k = valid_range m b k"
  by (simp add: frame_only_def valid_range_def)

lemma frame_only_load:
  assumes "frame_only m m' a n" "b + k \<le> a \<or> a + n \<le> b"
  shows "load_bytes m' b k = load_bytes m b k"
proof (rule load_bytes_cong)
  fix i assume "i < k"
  with assms(2) have "b + i < a \<or> a + n \<le> b + i" by auto
  with assms(1) show "bytes m' (b + i) = bytes m (b + i)" unfolding frame_only_def by blast
qed

lemma store_bytes_frame: "store_bytes m a bs = Some m' \<Longrightarrow> frame_only m m' a (length bs)"
proof -
  assume s: "store_bytes m a bs = Some m'"
  have "valid_range m' x 1 = valid_range m x 1" for x using s by (rule store_bytes_valid)
  then have "\<forall>x. bytes m' x = None \<longleftrightarrow> bytes m x = None"
    unfolding valid_range_def by (metis add_0_right less_one)
  moreover from s have "m' = m\<lparr>bytes := overwrite (bytes m) a bs\<rparr>" by (rule store_bytes_bytes)
  ultimately show ?thesis by (auto simp: frame_only_def overwrite_outside)
qed

lemma store_bytes_ok:
  assumes "valid_range m a (length bs)"
  obtains m' where "store_bytes m a bs = Some m'" "frame_only m m' a (length bs)"
  using assms store_bytes_Some_iff [of m a bs] store_bytes_frame [of m a bs] by auto

subsection \<open>Little-endian integers\<close>

definition le_bytes :: "nat \<Rightarrow> u64 \<Rightarrow> u8 list" where
  "le_bytes n w = map (\<lambda>i. ucast (drop_bit (8 * i) w)) [0..<n]"

primrec of_le_bytes :: "u8 list \<Rightarrow> u64" where
  "of_le_bytes [] = 0"
| "of_le_bytes (b # bs) = ucast b OR push_bit 8 (of_le_bytes bs)"

lemma length_le_bytes [simp]: "length (le_bytes n w) = n"
  by (simp add: le_bytes_def)

lemma le_bytes_0 [simp]: "le_bytes 0 w = []"
  by (simp add: le_bytes_def)

lemma le_bytes_Suc: "le_bytes (Suc n) w = ucast w # le_bytes n (drop_bit 8 w)"
  by (simp add: le_bytes_def upt_conv_Cons map_Suc_upt [symmetric] drop_bit_drop_bit comp_def
      add.commute del: upt_Suc)

lemma take_bit_u64 [simp]: "take_bit 64 (w :: u64) = w"
  by (rule bit_word_eqI) (simp add: bit_simps)

lemma u64_split8: "ucast (ucast w :: u8) OR push_bit 8 (drop_bit 8 w) = (w :: u64)"
  by (rule bit_word_eqI) (auto simp: bit_simps, metis le_add_diff_inverse not_less)

lemma of_le_bytes_le_bytes: "of_le_bytes (le_bytes n w) = take_bit (8 * n) w"
proof (induction n arbitrary: w)
  case 0
  then show ?case by simp
next
  case (Suc n)
  show ?case
    by (rule bit_word_eqI) (auto simp: le_bytes_Suc Suc bit_simps not_less)
qed

lemma of_le_bytes_8 [simp]: "of_le_bytes (le_bytes 8 w) = w"
  by (simp add: of_le_bytes_le_bytes)

definition load_uint :: "mem \<Rightarrow> nat \<Rightarrow> nat \<Rightarrow> u64 option" where
  "load_uint m a n = map_option of_le_bytes (load_bytes m a n)"

definition store_uint :: "mem \<Rightarrow> nat \<Rightarrow> nat \<Rightarrow> u64 \<Rightarrow> mem option" where
  "store_uint m a n w = store_bytes m a (le_bytes n w)"

definition load_ptr :: "mem \<Rightarrow> nat \<Rightarrow> nat option" where
  "load_ptr m a = map_option unat (load_uint m a 8)"

definition store_ptr :: "mem \<Rightarrow> nat \<Rightarrow> nat \<Rightarrow> mem option" where
  "store_ptr m a p = store_uint m a 8 (of_nat p)"

lemma load_store_uint:
  "store_uint m a n w = Some m' \<Longrightarrow> load_uint m' a n = Some (take_bit (8 * n) w)"
  using load_store_bytes [of m a "le_bytes n w" m']
  by (simp add: store_uint_def load_uint_def of_le_bytes_le_bytes)

lemma store_uint_frame: "store_uint m a n w = Some m' \<Longrightarrow> frame_only m m' a n"
  using store_bytes_frame [of m a "le_bytes n w" m'] by (simp add: store_uint_def)

lemma store_uint_ok:
  assumes "valid_range m a n"
  obtains m' where "store_uint m a n w = Some m'" "frame_only m m' a n"
  using assms store_bytes_ok [of m a "le_bytes n w"] by (auto simp: store_uint_def)

lemma load_uint_valid: "valid_range m a n \<Longrightarrow> \<exists>w. load_uint m a n = Some w"
  using load_bytes_valid [of m a n] by (auto simp: load_uint_def)

lemma load_store_ptr: "store_ptr m a p = Some m' \<Longrightarrow> p < 2 ^ 64 \<Longrightarrow> load_ptr m' a = Some p"
  by (auto simp: store_ptr_def load_ptr_def unat_of_nat dest!: load_store_uint)

lemma frame_only_load_uint:
  "frame_only m m' a n \<Longrightarrow> b + k \<le> a \<or> a + n \<le> b \<Longrightarrow> load_uint m' b k = load_uint m b k"
  by (simp add: load_uint_def frame_only_load)

subsection \<open>The C library's memory functions the code uses\<close>

definition memset_zero :: "mem \<Rightarrow> nat \<Rightarrow> nat \<Rightarrow> mem option" where
  "memset_zero m a n = store_bytes m a (replicate n 0)"

lemma memset_zero_ok:
  assumes "valid_range m a n"
  obtains m' where "memset_zero m a n = Some m'" "frame_only m m' a n"
  using assms store_bytes_ok [of m a "replicate n 0"] by (auto simp: memset_zero_def)

text \<open>\<open>free\<close> and \<open>realloc\<close>.  Where a new block goes, or that there is no room, is the
  allocator's choice, the argument \<open>alloc\<close>: from the memory and a size to a base address.
  \<open>heap_free\<close> of \<open>NULL\<close> does nothing, of anything but a block's base is undefined.  A new
  block's bytes beyond the copied ones are indeterminate in C; here they read as \<open>0xAA\<close>.\<close>

definition heap_free :: "mem \<Rightarrow> nat \<Rightarrow> mem option" where
  "heap_free m p =
     (if p = 0 then Some m
      else case blocks m p of
        None \<Rightarrow> None
      | Some n \<Rightarrow> Some \<lparr>bytes = (\<lambda>x. if p \<le> x \<and> x < p + n then None else bytes m x),
                      blocks = (blocks m)(p := None)\<rparr>)"

definition heap_new :: "mem \<Rightarrow> nat \<Rightarrow> u8 list \<Rightarrow> nat \<Rightarrow> mem" where
  "heap_new m p old n =
     \<lparr>bytes = (\<lambda>x. if p \<le> x \<and> x < p + n
                  then Some (if x - p < length old then old ! (x - p) else 0xAA)
                  else bytes m x),
      blocks = (blocks m)(p := Some n)\<rparr>"

definition heap_realloc :: "(mem \<Rightarrow> nat \<Rightarrow> nat option) \<Rightarrow> mem \<Rightarrow> nat \<Rightarrow> nat \<Rightarrow> (nat \<times> mem) option" where
  "heap_realloc alloc m p n =
     (case alloc m n of
        None \<Rightarrow> (if p \<noteq> 0 \<and> blocks m p = None then None else Some (0, m))
      | Some q \<Rightarrow>
          (if p = 0 then Some (q, heap_new m q [] n)
           else do {
             k \<leftarrow> blocks m p;
             old \<leftarrow> load_bytes m p (min k n);
             m' \<leftarrow> heap_free m p;
             Some (q, heap_new m' q old n) }))"

end
