(* ===== verification/PbTypes.thy ===== *)
theory PbTypes
  imports CMemory
begin

text \<open>
  The types and constants of \<open>pb.h\<close>, in the configuration the pod is built with
  (\<open>nanopb.xcconfig\<close>: \<open>PB_FIELD_32BIT\<close>, \<open>PB_NO_PACKED_STRUCTS\<close>, \<open>PB_ENABLE_MALLOC\<close>;
  \<open>PB_NO_ERRMSG\<close>, \<open>PB_BUFFER_ONLY\<close>, \<open>PB_OLD_CALLBACK_STYLE\<close> and \<open>PB_WITHOUT_64BIT\<close> are
  not set): \<open>pb_size_t\<close> is \<open>uint32_t\<close>, \<open>pb_ssize_t\<close> is \<open>int32_t\<close>.
\<close>

subsection \<open>Field types\<close>

type_synonym pb_type = u8

definition PB_LTYPE_VARINT :: pb_type where "PB_LTYPE_VARINT = 0x00"
definition PB_LTYPE_UVARINT :: pb_type where "PB_LTYPE_UVARINT = 0x01"
definition PB_LTYPE_SVARINT :: pb_type where "PB_LTYPE_SVARINT = 0x02"
definition PB_LTYPE_FIXED32 :: pb_type where "PB_LTYPE_FIXED32 = 0x03"
definition PB_LTYPE_FIXED64 :: pb_type where "PB_LTYPE_FIXED64 = 0x04"
definition PB_LTYPE_LAST_PACKABLE :: pb_type where "PB_LTYPE_LAST_PACKABLE = 0x04"
definition PB_LTYPE_BYTES :: pb_type where "PB_LTYPE_BYTES = 0x05"
definition PB_LTYPE_STRING :: pb_type where "PB_LTYPE_STRING = 0x06"
definition PB_LTYPE_SUBMESSAGE :: pb_type where "PB_LTYPE_SUBMESSAGE = 0x07"
definition PB_LTYPE_EXTENSION :: pb_type where "PB_LTYPE_EXTENSION = 0x08"
definition PB_LTYPE_FIXED_LENGTH_BYTES :: pb_type where "PB_LTYPE_FIXED_LENGTH_BYTES = 0x09"
definition PB_LTYPES_COUNT :: pb_type where "PB_LTYPES_COUNT = 0x0A"
definition PB_LTYPE_MASK :: pb_type where "PB_LTYPE_MASK = 0x0F"

definition PB_HTYPE_REQUIRED :: pb_type where "PB_HTYPE_REQUIRED = 0x00"
definition PB_HTYPE_OPTIONAL :: pb_type where "PB_HTYPE_OPTIONAL = 0x10"
definition PB_HTYPE_REPEATED :: pb_type where "PB_HTYPE_REPEATED = 0x20"
definition PB_HTYPE_ONEOF :: pb_type where "PB_HTYPE_ONEOF = 0x30"
definition PB_HTYPE_MASK :: pb_type where "PB_HTYPE_MASK = 0x30"

definition PB_ATYPE_STATIC :: pb_type where "PB_ATYPE_STATIC = 0x00"
definition PB_ATYPE_POINTER :: pb_type where "PB_ATYPE_POINTER = 0x80"
definition PB_ATYPE_CALLBACK :: pb_type where "PB_ATYPE_CALLBACK = 0x40"
definition PB_ATYPE_MASK :: pb_type where "PB_ATYPE_MASK = 0xC0"

definition PB_ATYPE :: "pb_type \<Rightarrow> pb_type" where
  "PB_ATYPE x = x AND PB_ATYPE_MASK"

definition PB_HTYPE :: "pb_type \<Rightarrow> pb_type" where
  "PB_HTYPE x = x AND PB_HTYPE_MASK"

definition PB_LTYPE :: "pb_type \<Rightarrow> pb_type" where
  "PB_LTYPE x = x AND PB_LTYPE_MASK"

lemmas ltype_defs =
  PB_LTYPE_VARINT_def PB_LTYPE_UVARINT_def PB_LTYPE_SVARINT_def PB_LTYPE_FIXED32_def
  PB_LTYPE_FIXED64_def PB_LTYPE_LAST_PACKABLE_def PB_LTYPE_BYTES_def PB_LTYPE_STRING_def
  PB_LTYPE_SUBMESSAGE_def PB_LTYPE_EXTENSION_def PB_LTYPE_FIXED_LENGTH_BYTES_def
  PB_LTYPES_COUNT_def

lemmas htype_defs =
  PB_HTYPE_REQUIRED_def PB_HTYPE_OPTIONAL_def PB_HTYPE_REPEATED_def PB_HTYPE_ONEOF_def

lemmas atype_defs = PB_ATYPE_STATIC_def PB_ATYPE_POINTER_def PB_ATYPE_CALLBACK_def

lemmas pb_type_defs =
  ltype_defs htype_defs atype_defs PB_LTYPE_MASK_def PB_HTYPE_MASK_def PB_ATYPE_MASK_def
  PB_ATYPE_def PB_HTYPE_def PB_LTYPE_def

lemma ltype_cases:
  assumes "(t :: u8) < PB_LTYPES_COUNT"
  shows "t \<in> {PB_LTYPE_VARINT, PB_LTYPE_UVARINT, PB_LTYPE_SVARINT, PB_LTYPE_FIXED32,
    PB_LTYPE_FIXED64, PB_LTYPE_BYTES, PB_LTYPE_STRING, PB_LTYPE_SUBMESSAGE, PB_LTYPE_EXTENSION,
    PB_LTYPE_FIXED_LENGTH_BYTES}"
proof -
  from assms have "unat t < 10" by (simp add: word_less_nat_alt PB_LTYPES_COUNT_def)
  then have "unat t \<in> {0, 1, 2, 3, 4, 5, 6, 7, 8, 9}" by auto
  then have "word_of_nat (unat t) \<in> (word_of_nat ` {0, 1, 2, 3, 4, 5, 6, 7, 8, 9} :: u8 set)" by blast
  then show ?thesis by (simp add: ltype_defs)
qed

subsection \<open>Sizes\<close>

definition PB_SIZE_MAX :: u32 where
  "PB_SIZE_MAX = - 1"

definition PB_MAX_REQUIRED_FIELDS :: u32 where
  "PB_MAX_REQUIRED_FIELDS = 64"

text \<open>\<open>pb_bytes_array_t\<close> is \<open>{ pb_size_t size; pb_byte_t bytes[1]; }\<close>: the bytes start
  after the 4-byte size.  The macro's sum is a \<open>size_t\<close>.\<close>

definition pb_bytes_offset :: nat where
  "pb_bytes_offset = 4"

definition PB_BYTES_ARRAY_T_ALLOCSIZE :: "u32 \<Rightarrow> u64" where
  "PB_BYTES_ARRAY_T_ALLOCSIZE n = ucast n + of_nat pb_bytes_offset"

subsection \<open>Field descriptions\<close>

text \<open>The \<open>ptr\<close> of a \<open>pb_field_t\<close> is null, or the address of the field array of a
  submessage, or of a default value.  Field arrays may refer to each other and to themselves, so
  an array is named by a number that the environment maps to its entries; a default value is
  its bytes, from the address on.\<close>

datatype pb_ptr = PNull | PFields nat | PDefault "u8 list"

record pb_field =
  tag :: u32
  ftype :: pb_type
  data_offset :: u32
  size_offset :: "u32"
  data_size :: u32
  array_size :: u32
  fptr :: pb_ptr

definition PB_LAST_FIELD :: pb_field where
  "PB_LAST_FIELD = \<lparr>tag = 0, ftype = 0, data_offset = 0, size_offset = 0, data_size = 0,
                    array_size = 0, fptr = PNull\<rparr>"

text \<open>\<open>size_offset\<close> is a \<open>pb_ssize_t\<close>: its 32 bits are read as two's complement.  Adding
  it to a pointer moves the pointer by that many bytes.\<close>

definition ptr_add_s :: "nat \<Rightarrow> u32 \<Rightarrow> nat" where
  "ptr_add_s p off = nat (int p + sint off)"

lemma ptr_add_s_0 [simp]: "ptr_add_s p 0 = p"
  by (simp add: ptr_add_s_def)

subsection \<open>Integer casts\<close>

text \<open>The casts to \<open>int64_t\<close>, \<open>int32_t\<close>, \<open>int_least16_t\<close> and \<open>int_least8_t\<close> (and back to 64
  bits), chosen by \<open>data_size\<close>; and the unsigned ones.\<close>

definition int_cast :: "u32 \<Rightarrow> u64 \<Rightarrow> u64 option" where
  "int_cast n v =
     (if n = 8 then Some v
      else if n = 4 then Some (scast (ucast v :: u32))
      else if n = 2 then Some (scast (ucast v :: u16))
      else if n = 1 then Some (scast (ucast v :: u8))
      else None)"

definition uint_cast :: "u32 \<Rightarrow> u64 \<Rightarrow> u64 option" where
  "uint_cast n v =
     (if n = 8 then Some v
      else if n = 4 then Some (ucast (ucast v :: u32))
      else if n = 2 then Some (ucast (ucast v :: u16))
      else if n = 1 then Some (ucast (ucast v :: u8))
      else None)"

subsection \<open>Wire types\<close>

text \<open>\<open>pb_wire_type_t\<close> is an enum, but the decoder casts any value of \<open>temp & 7\<close> to it: the
  model keeps the number.\<close>

type_synonym pb_wire_type = nat

definition PB_WT_VARINT :: pb_wire_type where "PB_WT_VARINT = 0"
definition PB_WT_64BIT :: pb_wire_type where "PB_WT_64BIT = 1"
definition PB_WT_STRING :: pb_wire_type where "PB_WT_STRING = 2"
definition PB_WT_32BIT :: pb_wire_type where "PB_WT_32BIT = 5"

lemmas wt_defs = PB_WT_VARINT_def PB_WT_64BIT_def PB_WT_STRING_def PB_WT_32BIT_def

subsection \<open>Input streams\<close>

text \<open>
  \<open>pb_istream_t\<close>.  The \<open>callback\<close> and the \<open>state\<close> go together: either the callback is
  \<open>buf_read\<close> and the state points into a constant memory buffer, of which \<open>BufRead xs\<close> keeps
  the bytes from the pointer to the end of the buffer; or the callback is the user's function
  and the state is the user's.  A user function gets the number of bytes wanted and returns
  how it ended, the bytes it stored and its new state.  It ends by returning true, by returning
  false on an error, or by returning false after it has set the stream's \<open>bytes_left\<close> to 0: this
  is how a source of unknown length reports its end, which \<open>pb_decode_varint32_eof\<close> looks for.
  The other fields of the stream are \<open>pb_read\<close>'s own (the rules at the top of \<open>pb_decode.h\<close>).
\<close>

datatype read_end = Read_ok | Read_failed | Read_eof

datatype 's in_source =
    BufRead "u8 list"
  | UserRead "'s \<Rightarrow> nat \<Rightarrow> read_end \<times> u8 list \<times> 's" 's

record 's pb_istream =
  source :: "'s in_source"
  bytes_left :: u64
  is_errmsg :: "string option"

definition is_set_error :: "string \<Rightarrow> 's pb_istream \<Rightarrow> 's pb_istream" where
  "is_set_error msg s =
     s\<lparr>is_errmsg := (case is_errmsg s of None \<Rightarrow> Some msg | Some e \<Rightarrow> Some e)\<rparr>"

lemma is_set_error_simps [simp]:
  "source (is_set_error msg s) = source s"
  "bytes_left (is_set_error msg s) = bytes_left s"
  "is_errmsg (is_set_error msg s) \<noteq> None"
  "\<exists>e. is_errmsg (is_set_error msg s) = Some e"
  by (simp_all add: is_set_error_def split: option.split)

subsection \<open>Output streams\<close>

text \<open>
  \<open>pb_ostream_t\<close>.  \<open>Sizing\<close> is a null callback (\<open>PB_OSTREAM_SIZING\<close>).  \<open>BufWrite out room\<close>
  is the callback \<open>buf_write\<close> with a state that points \<open>length out\<close> bytes into a buffer object:
  \<open>out\<close> are the bytes before the pointer, \<open>room\<close> the number of bytes of the object after it.
\<close>

datatype 's out_sink =
    Sizing
  | BufWrite "u8 list" nat
  | UserWrite "'s \<Rightarrow> u8 list \<Rightarrow> bool \<times> 's" 's

record 's pb_ostream =
  sink :: "'s out_sink"
  max_size :: u64
  bytes_written :: u64
  os_errmsg :: "string option"

definition os_set_error :: "string \<Rightarrow> 's pb_ostream \<Rightarrow> 's pb_ostream" where
  "os_set_error msg s =
     s\<lparr>os_errmsg := (case os_errmsg s of None \<Rightarrow> Some msg | Some e \<Rightarrow> Some e)\<rparr>"

definition PB_OSTREAM_SIZING :: "'s pb_ostream" where
  "PB_OSTREAM_SIZING = \<lparr>sink = Sizing, max_size = 0, bytes_written = 0, os_errmsg = None\<rparr>"

lemma os_set_error_simps [simp]:
  "sink (os_set_error msg s) = sink s"
  "max_size (os_set_error msg s) = max_size s"
  "bytes_written (os_set_error msg s) = bytes_written s"
  "os_errmsg (os_set_error msg s) \<noteq> None"
  "\<exists>e. os_errmsg (os_set_error msg s) = Some e"
  by (simp_all add: os_set_error_def split: option.split)

end
