(* ===== verification/PbIter.thy ===== *)
theory PbIter
  imports PbTypes
begin

text \<open>
  The field iterator of \<open>pb_common.c\<close>.  \<open>start\<close> is the \<open>pb_field_t\<close> array (its entries up
  to and including the terminator), \<open>pos\<close> the index of the current entry, \<open>dest_struct\<close> and
  \<open>pData\<close> addresses in C memory.  \<open>pSize\<close> is an address too, except while the decoder has
  it point to its local variable \<open>fixed_count_size\<close> (\<open>SzFixed\<close>).  Reading an entry past the
  end of the array is undefined.
\<close>

datatype size_loc = SzMem nat | SzFixed

record pb_field_iter =
  start :: "pb_field list"
  pos :: nat
  required_field_index :: u32
  dest_struct :: nat
  pData :: nat
  pSize :: size_loc

definition iter_field :: "pb_field_iter \<Rightarrow> pb_field option" where
  "iter_field it = nth_opt (start it) (pos it)"

definition pb_field_iter_begin :: "pb_field list \<Rightarrow> nat \<Rightarrow> (bool \<times> pb_field_iter) option" where
  "pb_field_iter_begin fl dest = do {
     f \<leftarrow> nth_opt fl 0;
     let d = dest + unat (data_offset f);
     Some (tag f \<noteq> 0,
       \<lparr>start = fl, pos = 0, required_field_index = 0, dest_struct = dest,
        pData = d, pSize = SzMem (ptr_add_s d (size_offset f))\<rparr>) }"

text \<open>The size by which \<open>pb_field_iter_next\<close> moves past the previous field.\<close>

definition prev_field_size :: "pb_field \<Rightarrow> nat" where
  "prev_field_size prev =
     (if PB_ATYPE (ftype prev) = PB_ATYPE_STATIC \<and> PB_HTYPE (ftype prev) = PB_HTYPE_REPEATED
      then unat (data_size prev) * unat (array_size prev)
      else if PB_ATYPE (ftype prev) = PB_ATYPE_POINTER then 8
      else unat (data_size prev))"

definition same_union :: "pb_field \<Rightarrow> pb_field \<Rightarrow> bool" where
  "same_union prev cur \<longleftrightarrow>
     PB_HTYPE (ftype prev) = PB_HTYPE_ONEOF \<and> PB_HTYPE (ftype cur) = PB_HTYPE_ONEOF \<and>
     data_offset cur = PB_SIZE_MAX"

definition pb_field_iter_next :: "pb_field_iter \<Rightarrow> (bool \<times> pb_field_iter) option" where
  "pb_field_iter_next it = do {
     prev \<leftarrow> iter_field it;
     if tag prev = 0 then Some (False, it)
     else do {
       cur \<leftarrow> nth_opt (start it) (Suc (pos it));
       if tag cur = 0 then do {
         (_, it') \<leftarrow> pb_field_iter_begin (start it) (dest_struct it);
         Some (False, it') }
       else if same_union prev cur then Some (True, it\<lparr>pos := Suc (pos it)\<rparr>)
       else
         let d = pData it + prev_field_size prev + unat (data_offset cur)
         in Some (True, it\<lparr>pos := Suc (pos it),
              required_field_index := required_field_index it +
                (if PB_HTYPE (ftype prev) = PB_HTYPE_REQUIRED then 1 else 0),
              pData := d, pSize := SzMem (ptr_add_s d (size_offset cur))\<rparr>) } }"

text \<open>The loop of \<open>pb_field_iter_find\<close>, from the entry \<open>start_pos\<close> around to it again.  The
  first argument bounds the number of rounds; \<open>iter_find_rounds\<close> below shows that one round per
  entry of the array is enough.\<close>

primrec iter_find_loop :: "nat \<Rightarrow> (pb_field \<Rightarrow> bool) \<Rightarrow> nat \<Rightarrow> pb_field_iter \<Rightarrow>
    (bool \<times> pb_field_iter) option" where
  "iter_find_loop 0 wanted start_pos it = None"
| "iter_find_loop (Suc n) wanted start_pos it = do {
     f \<leftarrow> iter_field it;
     if wanted f then Some (True, it)
     else do {
       (_, it') \<leftarrow> pb_field_iter_next it;
       if pos it' \<noteq> start_pos then iter_find_loop n wanted start_pos it'
       else Some (False, it') } }"

definition pb_field_iter_find :: "pb_field_iter \<Rightarrow> u32 \<Rightarrow> (bool \<times> pb_field_iter) option" where
  "pb_field_iter_find it t =
     iter_find_loop (Suc (length (start it)))
       (\<lambda>f. tag f = t \<and> PB_LTYPE (ftype f) \<noteq> PB_LTYPE_EXTENSION) (pos it) it"

text \<open>\<open>find_extension_field\<close> of \<open>pb_decode.c\<close> is the same loop with another test.\<close>

definition find_extension_field :: "pb_field_iter \<Rightarrow> (bool \<times> pb_field_iter) option" where
  "find_extension_field it =
     iter_find_loop (Suc (length (start it)))
       (\<lambda>f. PB_LTYPE (ftype f) = PB_LTYPE_EXTENSION) (pos it) it"

text \<open>The loops \<open>do { ... } while (pb_field_iter_next(&iter))\<close> of the encoder, of the default
  setting and of the release: \<open>body\<close> returns whether to go on and the new state.\<close>

primrec fields_loop :: "nat \<Rightarrow> (pb_field_iter \<Rightarrow> 'x \<Rightarrow> (bool \<times> 'x) option) \<Rightarrow> pb_field_iter \<Rightarrow>
    'x \<Rightarrow> (bool \<times> 'x) option" where
  "fields_loop 0 body it x = None"
| "fields_loop (Suc n) body it x = do {
     (go, x') \<leftarrow> body it x;
     if \<not> go then Some (False, x')
     else do {
       (more, it') \<leftarrow> pb_field_iter_next it;
       if more then fields_loop n body it' x' else Some (True, x') } }"

definition for_fields :: "(pb_field_iter \<Rightarrow> 'x \<Rightarrow> (bool \<times> 'x) option) \<Rightarrow> pb_field_iter \<Rightarrow> 'x \<Rightarrow>
    (bool \<times> 'x) option" where
  "for_fields body it x = fields_loop (length (start it)) body it x"


subsection \<open>Reference walk over a field array\<close>

text \<open>A well-formed array is what the generator emits: entries with non-zero tags, then the
  terminator \<open>PB_LAST_FIELD\<close>.\<close>

definition wf_fields :: "pb_field list \<Rightarrow> bool" where
  "wf_fields fl \<longleftrightarrow> fl \<noteq> [] \<and> tag (last fl) = 0 \<and> (\<forall>f \<in> set (butlast fl). tag f \<noteq> 0)"

definition n_fields :: "pb_field list \<Rightarrow> nat" where
  "n_fields fl = length fl - 1"

text \<open>The state the iterator has at entry \<open>i\<close>, computed from entry 0 onwards.\<close>

primrec iter_at :: "pb_field list \<Rightarrow> nat \<Rightarrow> nat \<Rightarrow> pb_field_iter" where
  "iter_at fl dest 0 =
     (let d = dest + unat (data_offset (fl ! 0)) in
      \<lparr>start = fl, pos = 0, required_field_index = 0, dest_struct = dest, pData = d,
       pSize = SzMem (ptr_add_s d (size_offset (fl ! 0)))\<rparr>)"
| "iter_at fl dest (Suc i) =
     (let it = iter_at fl dest i; prev = fl ! i; cur = fl ! Suc i in
      if same_union prev cur then it\<lparr>pos := Suc i\<rparr>
      else let d = pData it + prev_field_size prev + unat (data_offset cur) in
        it\<lparr>pos := Suc i,
           required_field_index := required_field_index it +
             (if PB_HTYPE (ftype prev) = PB_HTYPE_REQUIRED then 1 else 0),
           pData := d, pSize := SzMem (ptr_add_s d (size_offset cur))\<rparr>)"

lemma iter_at_simps [simp]:
  "start (iter_at fl dest i) = fl"
  "pos (iter_at fl dest i) = i"
  "dest_struct (iter_at fl dest i) = dest"
  by (induction i) (simp_all add: Let_def)

lemma iter_at_pSize: "\<exists>a. pSize (iter_at fl dest i) = SzMem a"
  by (induction i) (auto simp: Let_def)

declare iter_at.simps [simp del]

lemma wf_fieldsD:
  assumes "wf_fields fl"
  shows "0 < length fl" "tag (fl ! n_fields fl) = 0" "i < n_fields fl \<Longrightarrow> tag (fl ! i) \<noteq> 0"
proof -
  from assms have ne: "fl \<noteq> []" by (simp add: wf_fields_def)
  then show "0 < length fl" by simp
  from assms ne show "tag (fl ! n_fields fl) = 0"
    by (simp add: wf_fields_def n_fields_def last_conv_nth)
  assume "i < n_fields fl"
  then have "i < length (butlast fl)" by (simp add: n_fields_def)
  then have "butlast fl ! i \<in> set (butlast fl)" by (rule nth_mem)
  with assms \<open>i < length (butlast fl)\<close> show "tag (fl ! i) \<noteq> 0"
    by (simp add: wf_fields_def nth_butlast)
qed

lemma n_fields_length: "wf_fields fl \<Longrightarrow> length fl = Suc (n_fields fl)"
  using wf_fieldsD(1) [of fl] by (simp add: n_fields_def)

lemma iter_begin_wf:
  "wf_fields fl \<Longrightarrow>
   pb_field_iter_begin fl dest = Some (0 < n_fields fl, iter_at fl dest 0)"
  using wf_fieldsD(1,2) [of fl] wf_fieldsD(3) [of fl 0]
  by (cases "n_fields fl") (auto simp: pb_field_iter_begin_def Let_def nth_opt_less iter_at.simps)

subsection \<open>Iterators that point at an entry\<close>

text \<open>\<open>iter_ok fl dest it\<close>: the iterator is at some entry of the array (at the terminator
  only when the message type is empty), with the addresses of that entry; only at a repeated
  field may \<open>pSize\<close> be redirected to the decoder's local counter.\<close>

definition iter_ok :: "pb_field list \<Rightarrow> nat \<Rightarrow> pb_field_iter \<Rightarrow> bool" where
  "iter_ok fl dest it \<longleftrightarrow>
     start it = fl \<and> dest_struct it = dest \<and>
     (pos it < n_fields fl \<or> n_fields fl = 0 \<and> pos it = 0) \<and>
     required_field_index it = required_field_index (iter_at fl dest (pos it)) \<and>
     pData it = pData (iter_at fl dest (pos it)) \<and>
     (pSize it = pSize (iter_at fl dest (pos it)) \<or>
      pSize it = SzFixed \<and> PB_HTYPE (ftype (fl ! pos it)) = PB_HTYPE_REPEATED)"

lemma iter_ok_at: "i < n_fields fl \<or> n_fields fl = 0 \<and> i = 0 \<Longrightarrow> iter_ok fl dest (iter_at fl dest i)"
  by (simp add: iter_ok_def)

lemma htype_distinct [simp]:
  "PB_HTYPE_REPEATED \<noteq> PB_HTYPE_ONEOF" "PB_HTYPE_ONEOF \<noteq> PB_HTYPE_REPEATED"
  "PB_HTYPE_REQUIRED \<noteq> PB_HTYPE_ONEOF" "PB_HTYPE_ONEOF \<noteq> PB_HTYPE_REQUIRED"
  "PB_HTYPE_REQUIRED \<noteq> PB_HTYPE_OPTIONAL" "PB_HTYPE_OPTIONAL \<noteq> PB_HTYPE_REQUIRED"
  "PB_HTYPE_REQUIRED \<noteq> PB_HTYPE_REPEATED" "PB_HTYPE_REPEATED \<noteq> PB_HTYPE_REQUIRED"
  "PB_HTYPE_OPTIONAL \<noteq> PB_HTYPE_REPEATED" "PB_HTYPE_REPEATED \<noteq> PB_HTYPE_OPTIONAL"
  "PB_HTYPE_OPTIONAL \<noteq> PB_HTYPE_ONEOF" "PB_HTYPE_ONEOF \<noteq> PB_HTYPE_OPTIONAL"
  by (simp_all add: htype_defs)

text \<open>One step: on to the next entry, or back to the first.\<close>

lemma iter_next_ok:
  assumes wf: "wf_fields fl" and ok: "iter_ok fl dest it"
  shows "pb_field_iter_next it =
    (if n_fields fl = 0 then Some (False, it)
     else if Suc (pos it) < n_fields fl then Some (True, iter_at fl dest (Suc (pos it)))
     else Some (False, iter_at fl dest 0))"
proof (cases "n_fields fl = 0")
  case True
  with ok wf_fieldsD [OF wf] show ?thesis
    by (auto simp: pb_field_iter_next_def iter_field_def iter_ok_def nth_opt_less)
next
  case False
  with ok have p: "pos it < n_fields fl" and st: "start it = fl" and d: "dest_struct it = dest"
    by (auto simp: iter_ok_def)
  from p have prev: "tag (fl ! pos it) \<noteq> 0" by (rule wf_fieldsD(3) [OF wf])
  from p have lens: "pos it < length fl" "Suc (pos it) < length fl"
    by (simp_all add: n_fields_length [OF wf])
  show ?thesis
  proof (cases "Suc (pos it) < n_fields fl")
    case True
    then have cur: "tag (fl ! Suc (pos it)) \<noteq> 0" by (rule wf_fieldsD(3) [OF wf])
    from ok st d obtain p i r a where it: "it = \<lparr>start = fl, pos = p, required_field_index = i,
        dest_struct = dest, pData = r, pSize = a\<rparr>" by (cases it) auto
    from ok True prev cur lens st d show ?thesis
      by (simp add: it iter_ok_def pb_field_iter_next_def iter_field_def Let_def nth_opt_less
          iter_at.simps)
        (auto simp: same_union_def intro!: pb_field_iter.equality)
  next
    case notlast: False
    with p have "Suc (pos it) = n_fields fl" by simp
    then have "tag (fl ! Suc (pos it)) = 0" using wf_fieldsD(2) [OF wf] by simp
    with prev lens st d notlast False show ?thesis
      by (simp add: pb_field_iter_next_def iter_field_def nth_opt_less iter_begin_wf [OF wf])
  qed
qed

lemma iter_field_ok: "wf_fields fl \<Longrightarrow> iter_ok fl dest it \<Longrightarrow> iter_field it = Some (fl ! pos it)"
  using n_fields_length [of fl] by (auto simp: iter_field_def iter_ok_def nth_opt_less)

subsection \<open>The search loop\<close>

text \<open>Entries visited from \<open>q\<close> on before the walk is back at \<open>sp\<close>, and their number.\<close>

definition visited :: "nat \<Rightarrow> nat \<Rightarrow> nat \<Rightarrow> nat set" where
  "visited n sp q = (if q < sp then {q..<sp} else {q..<n} \<union> {..<sp})"

definition rounds :: "nat \<Rightarrow> nat \<Rightarrow> nat \<Rightarrow> nat" where
  "rounds n sp q = (if q < sp then sp - q else sp + n - q)"

lemma visited_whole: "q < n \<Longrightarrow> visited n q q = {..<n}"
  by (auto simp: visited_def)

lemma visited_next:
  "q < n \<Longrightarrow> sp < n \<Longrightarrow> (if Suc q < n then Suc q else 0) \<noteq> sp \<Longrightarrow>
   visited n sp q = insert q (visited n sp (if Suc q < n then Suc q else 0))"
  unfolding visited_def by (auto split: if_splits)

lemma visited_last:
  "q < n \<Longrightarrow> sp < n \<Longrightarrow> (if Suc q < n then Suc q else 0) = sp \<Longrightarrow> visited n sp q = {q}"
  unfolding visited_def by (auto split: if_splits)

lemma rounds_next:
  "q < n \<Longrightarrow> sp < n \<Longrightarrow> (if Suc q < n then Suc q else 0) \<noteq> sp \<Longrightarrow>
   Suc (rounds n sp (if Suc q < n then Suc q else 0)) = rounds n sp q"
  unfolding rounds_def by (auto split: if_splits)

lemma rounds_pos: "q < n \<Longrightarrow> 0 < rounds n sp q"
  by (auto simp: rounds_def)

lemma iter_find_rounds:
  assumes wf: "wf_fields fl" and sp: "sp < n_fields fl"
  shows "rounds (n_fields fl) sp (pos it) \<le> k \<Longrightarrow> iter_ok fl dest it \<Longrightarrow>
    \<exists>found it'. iter_find_loop k wanted sp it = Some (found, it') \<and> iter_ok fl dest it' \<and>
      (found \<longleftrightarrow> (\<exists>i \<in> visited (n_fields fl) sp (pos it). wanted (fl ! i))) \<and>
      (found \<longrightarrow> wanted (fl ! pos it') \<and> (it' = it \<or> it' = iter_at fl dest (pos it'))) \<and>
      (\<not> found \<longrightarrow> it' = iter_at fl dest sp)"
proof (induction k arbitrary: it)
  case 0
  with sp rounds_pos [of "pos it" "n_fields fl" sp] show ?case by (auto simp: iter_ok_def)
next
  case (Suc k)
  let ?n = "n_fields fl"
  from Suc.prems(2) sp have q: "pos it < ?n" by (auto simp: iter_ok_def)
  define q' where "q' = (if Suc (pos it) < ?n then Suc (pos it) else 0)"
  have q'n: "q' < ?n" using q by (simp add: q'_def)
  from Suc.prems(2) have f: "iter_field it = Some (fl ! pos it)" by (rule iter_field_ok [OF wf])
  have nx: "pb_field_iter_next it = Some (Suc (pos it) < ?n, iter_at fl dest q')"
    using iter_next_ok [OF wf Suc.prems(2)] q by (simp add: q'_def)
  show ?case
  proof (cases "wanted (fl ! pos it)")
    case True
    moreover have "pos it \<in> visited ?n sp (pos it)" using q sp by (auto simp: visited_def)
    ultimately show ?thesis using f Suc.prems(2) by auto
  next
    case notw: False
    show ?thesis
    proof (cases "q' = sp")
      case True
      then have "visited ?n sp (pos it) = {pos it}"
        using visited_last [OF q sp] by (simp add: q'_def)
      with True notw f nx q'n show ?thesis by (auto intro!: iter_ok_at)
    next
      case False
      then have v: "visited ?n sp (pos it) = insert (pos it) (visited ?n sp q')"
        and r: "Suc (rounds ?n sp q') = rounds ?n sp (pos it)"
        using visited_next [OF q sp] rounds_next [OF q sp] by (simp_all add: q'_def)
      have ok': "iter_ok fl dest (iter_at fl dest q')" using q'n by (intro iter_ok_at) simp
      from r Suc.prems(1) have "rounds ?n sp (pos (iter_at fl dest q')) \<le> k" by simp
      from Suc.IH [OF this ok'] v notw f nx False show ?thesis by auto
    qed
  qed
qed

lemma iter_find_loop_ok:
  assumes wf: "wf_fields fl" and ok: "iter_ok fl dest it" and ne: "0 < n_fields fl"
  obtains found it' where
    "iter_find_loop (Suc (length (start it))) wanted (pos it) it = Some (found, it')"
    "iter_ok fl dest it'" "found \<longleftrightarrow> (\<exists>i < n_fields fl. wanted (fl ! i))"
    "found \<Longrightarrow> wanted (fl ! pos it')" "found \<Longrightarrow> it' = it \<or> it' = iter_at fl dest (pos it')"
    "\<not> found \<Longrightarrow> it' = iter_at fl dest (pos it)"
proof -
  from ok ne have q: "pos it < n_fields fl" and st: "start it = fl" by (auto simp: iter_ok_def)
  have "rounds (n_fields fl) (pos it) (pos it) \<le> Suc (length (start it))"
    using n_fields_length [OF wf] st by (simp add: rounds_def)
  from iter_find_rounds [OF wf q this ok, of wanted] obtain found it' where
    "iter_find_loop (Suc (length (start it))) wanted (pos it) it = Some (found, it')"
    "iter_ok fl dest it'" "found \<longleftrightarrow> (\<exists>i \<in> {..<n_fields fl}. wanted (fl ! i))"
    "found \<longrightarrow> wanted (fl ! pos it') \<and> (it' = it \<or> it' = iter_at fl dest (pos it'))"
    "\<not> found \<longrightarrow> it' = iter_at fl dest (pos it)"
    unfolding visited_whole [OF q] by (elim exE conjE)
  then show thesis by (intro that [of found it']) (simp_all add: Bex_def)
qed

text \<open>An empty message type: the iterator stays at the terminator, whose tag is 0.\<close>

lemma iter_find_loop_empty:
  assumes wf: "wf_fields fl" and ok: "iter_ok fl dest it" and ne: "n_fields fl = 0"
  shows "iter_find_loop (Suc (length (start it))) wanted (pos it) it =
    Some (wanted (fl ! 0), it)"
proof -
  from ok ne have "pos it = 0" by (auto simp: iter_ok_def)
  with iter_field_ok [OF wf ok] iter_next_ok [OF wf ok] ne show ?thesis by simp
qed

subsection \<open>The whole-array loop\<close>

fun run_list :: "('i \<Rightarrow> 'x \<Rightarrow> (bool \<times> 'x) option) \<Rightarrow> 'i list \<Rightarrow> 'x \<Rightarrow> (bool \<times> 'x) option" where
  "run_list body [] x = Some (True, x)"
| "run_list body (i # is) x = do {
     (go, x') \<leftarrow> body i x;
     if \<not> go then Some (False, x') else run_list body is x' }"

lemma fields_loop_run:
  assumes wf: "wf_fields fl"
  shows "i < n_fields fl \<Longrightarrow> n_fields fl - i \<le> k \<Longrightarrow>
    fields_loop k body (iter_at fl dest i) x =
    run_list (\<lambda>i. body (iter_at fl dest i)) [i..<n_fields fl] x"
proof (induction k arbitrary: i x)
  case 0
  then show ?case by simp
next
  case (Suc k)
  have nx: "pb_field_iter_next (iter_at fl dest i) =
      (if Suc i < n_fields fl then Some (True, iter_at fl dest (Suc i))
       else Some (False, iter_at fl dest 0))"
    using iter_next_ok [OF wf iter_ok_at [of i fl dest]] Suc.prems(1) by simp
  show ?case
  proof (cases "Suc i < n_fields fl")
    case True
    then have "fields_loop k body (iter_at fl dest (Suc i)) x' =
        run_list (\<lambda>i. body (iter_at fl dest i)) [Suc i..<n_fields fl] x'" for x'
      using Suc.prems by (intro Suc.IH) simp_all
    moreover have "[i..<n_fields fl] = i # [Suc i..<n_fields fl]"
      using Suc.prems by (simp add: upt_conv_Cons)
    ultimately show ?thesis using nx True
      by (cases "body (iter_at fl dest i) x") auto
  next
    case False
    with Suc.prems have "[i..<n_fields fl] = [i]" by (simp add: upt_conv_Cons)
    with False nx show ?thesis by (cases "body (iter_at fl dest i) x") auto
  qed
qed

lemma for_fields_run:
  "wf_fields fl \<Longrightarrow> 0 < n_fields fl \<Longrightarrow>
   for_fields body (iter_at fl dest 0) x =
   run_list (\<lambda>i. body (iter_at fl dest i)) [0..<n_fields fl] x"
  using fields_loop_run [of fl 0 "length fl" body dest x]
  by (simp add: for_fields_def n_fields_def)

end
