(* ===== verification/PbIstream.thy ===== *)
theory PbIstream
  imports PbIter
begin

text \<open>
  The input streams of \<open>pb_decode.c\<close>: \<open>buf_read\<close>, \<open>pb_read\<close>, \<open>pb_readbyte\<close>,
  \<open>pb_istream_from_buffer\<close>, the substreams of length-delimited fields, and the interface
  \<open>byte_source\<close> under which the wire primitives are specified: a source that delivers a fixed
  sequence of bytes, which is interpreted on memory buffers.  Memory safety needs less: the
  interface \<open>input_source\<close>, a source that may fail and may end early, is interpreted on every
  user callback that keeps to its rules, and every \<open>byte_source\<close> is one.
\<close>

subsection \<open>Operations\<close>

definition is_buf :: "'s in_source \<Rightarrow> bool" where
  "is_buf src = (case src of BufRead _ \<Rightarrow> True | UserRead _ _ \<Rightarrow> False)"

text \<open>\<open>buf_read\<close> copies \<open>count\<close> bytes from the state pointer and moves it on; with a null
  \<open>buf\<close> it only moves the pointer.  Moving past the end of the buffer object is undefined.\<close>

definition buf_read :: "u8 list \<Rightarrow> bool \<Rightarrow> u64 \<Rightarrow> (bool \<times> u8 list \<times> 's in_source) option" where
  "buf_read xs null count =
     (if length xs < unat count then None
      else Some (True, if null then [] else take (unat count) xs,
                 BufRead (drop (unat count) xs)))"

text \<open>\<open>stream->callback(stream, buf, count)\<close>.\<close>

definition call_read :: "'s pb_istream \<Rightarrow> bool \<Rightarrow> u64 \<Rightarrow>
    (bool \<times> u8 list \<times> 's pb_istream) option" where
  "call_read s null count =
     (case source s of
        BufRead xs \<Rightarrow> do {
          (ok, bs, src) \<leftarrow> buf_read xs null count;
          Some (ok, bs, s\<lparr>source := src\<rparr>) }
      | UserRead f st \<Rightarrow>
          (case f st (unat count) of (res, bs, st') \<Rightarrow>
             Some (res = Read_ok, bs,
                   s\<lparr>source := UserRead f st',
                     bytes_left := (if res = Read_eof then 0 else bytes_left s)\<rparr>)))"

lemma call_read_left:
  "call_read s null n = Some (ok, bs, s') \<Longrightarrow>
   bytes_left s' \<le> bytes_left s \<and> (ok \<longrightarrow> bytes_left s' = bytes_left s)"
  by (auto simp: call_read_def split: in_source.splits prod.splits elim!: bind_SomeE)

text \<open>The part of \<open>pb_read\<close> after the skipping of input bytes.  The bytes delivered are
  returned for the caller to place where \<open>buf\<close> points, also when the callback failed.\<close>

definition pb_read_tail :: "'s pb_istream \<Rightarrow> bool \<Rightarrow> u64 \<Rightarrow>
    (bool \<times> u8 list \<times> 's pb_istream) option" where
  "pb_read_tail s null count =
     (if bytes_left s < count then Some (False, [], is_set_error ''end-of-stream'' s)
      else do {
        (ok, bs, s') \<leftarrow> call_read s null count;
        if \<not> ok then Some (False, bs, is_set_error ''io error'' s')
        else Some (True, bs, s'\<lparr>bytes_left := bytes_left s' - count\<rparr>) })"

function pb_read_skip :: "'s pb_istream \<Rightarrow> u64 \<Rightarrow> (bool \<times> u8 list \<times> 's pb_istream) option" where
  "pb_read_skip s count =
     (if 16 < count then do {
        (ok, _, s') \<leftarrow> pb_read_tail s False 16;
        if \<not> ok then Some (False, [], s') else pb_read_skip s' (count - 16) }
      else do {
        (ok, _, s') \<leftarrow> pb_read_tail s False count;
        Some (ok, [], s') })"
  by pat_completeness auto
termination
  by (relation "measure (\<lambda>(s, count). unat count)") (auto intro: unat_diff_less)

declare pb_read_skip.simps [simp del]

definition pb_read :: "'s pb_istream \<Rightarrow> bool \<Rightarrow> u64 \<Rightarrow>
    (bool \<times> u8 list \<times> 's pb_istream) option" where
  "pb_read s null count =
     (if null \<and> \<not> is_buf (source s) then pb_read_skip s count
      else pb_read_tail s null count)"

definition pb_readbyte :: "'s pb_istream \<Rightarrow> (u8 option \<times> 's pb_istream) option" where
  "pb_readbyte s =
     (if bytes_left s = 0 then Some (None, is_set_error ''end-of-stream'' s)
      else do {
        (ok, bs, s') \<leftarrow> call_read s False 1;
        if \<not> ok then Some (None, is_set_error ''io error'' s')
        else case bs of
            [b] \<Rightarrow> Some (Some b, s'\<lparr>bytes_left := bytes_left s' - 1\<rparr>)
          | _ \<Rightarrow> None })"

definition pb_istream_from_buffer :: "u8 list \<Rightarrow> u64 \<Rightarrow> 's pb_istream" where
  "pb_istream_from_buffer buf bufsize =
     \<lparr>source = BufRead buf, bytes_left = bufsize, is_errmsg = None\<rparr>"

subsection \<open>The interface: a source with a fixed content\<close>

text \<open>\<open>tail\<close> is what the source still has to deliver.  A read of bytes that are there
  delivers them, and leaves the rest.\<close>

locale byte_source =
  fixes src_ok :: "'s in_source \<Rightarrow> bool"
    and tail :: "'s in_source \<Rightarrow> u8 list"
  assumes call_read_ok:
      "src_ok (source s) \<Longrightarrow> unat n \<le> length (tail (source s)) \<Longrightarrow>
       \<exists>src'. call_read s False n =
                Some (True, take (unat n) (tail (source s)), s\<lparr>source := src'\<rparr>) \<and>
              src_ok src' \<and> tail src' = drop (unat n) (tail (source s))"
    and call_skip_ok:
      "src_ok (source s) \<Longrightarrow> is_buf (source s) \<Longrightarrow> unat n \<le> length (tail (source s)) \<Longrightarrow>
       \<exists>src'. call_read s True n = Some (True, [], s\<lparr>source := src'\<rparr>) \<and>
              src_ok src' \<and> tail src' = drop (unat n) (tail (source s))"

text \<open>A stream over such a source has at least \<open>bytes_left\<close> bytes; its contents are these.
  \<open>adv ok rst k s s'\<close>: from \<open>s\<close> to \<open>s'\<close> exactly \<open>k\<close> bytes were consumed.\<close>

definition stream_ok :: "('s in_source \<Rightarrow> bool) \<Rightarrow> ('s in_source \<Rightarrow> u8 list) \<Rightarrow>
    's pb_istream \<Rightarrow> bool" where
  "stream_ok ok rst s \<longleftrightarrow> ok (source s) \<and> unat (bytes_left s) \<le> length (rst (source s))"

definition contents :: "('s in_source \<Rightarrow> u8 list) \<Rightarrow> 's pb_istream \<Rightarrow> u8 list" where
  "contents rst s = take (unat (bytes_left s)) (rst (source s))"

definition adv :: "('s in_source \<Rightarrow> bool) \<Rightarrow> ('s in_source \<Rightarrow> u8 list) \<Rightarrow> nat \<Rightarrow>
    's pb_istream \<Rightarrow> 's pb_istream \<Rightarrow> bool" where
  "adv ok rst k s s' \<longleftrightarrow>
     stream_ok ok rst s' \<and> rst (source s') = drop k (rst (source s)) \<and>
     unat (bytes_left s') + k = unat (bytes_left s)"

lemma adv_0 [simp]: "adv ok rst 0 s s \<longleftrightarrow> stream_ok ok rst s"
  by (simp add: adv_def)

lemma adv_error [simp]: "adv ok rst k s (is_set_error msg s') = adv ok rst k s s'"
  by (simp add: adv_def stream_ok_def)

lemma adv_from_error [simp]: "adv ok rst k (is_set_error msg s) s' = adv ok rst k s s'"
  by (simp add: adv_def)

lemma adv_ok: "adv ok rst k s s' \<Longrightarrow> stream_ok ok rst s'"
  by (simp add: adv_def)

lemma adv_trans: "adv ok rst j s s' \<Longrightarrow> adv ok rst k s' s'' \<Longrightarrow> adv ok rst (j + k) s s''"
  by (auto simp: adv_def add.commute)

lemma adv_left: "adv ok rst k s s' \<Longrightarrow> unat (bytes_left s') \<le> unat (bytes_left s)"
  by (simp add: adv_def)

lemma adv_contents: "adv ok rst k s s' \<Longrightarrow> contents rst s' = drop k (contents rst s)"
  using add_diff_cancel_right' [of "unat (bytes_left s')" k]
  by (simp add: adv_def contents_def drop_take)

lemma adv_le: "adv ok rst k s s' \<Longrightarrow> k \<le> unat (bytes_left s)"
  by (simp add: adv_def)

lemma contents_length: "stream_ok ok rst s \<Longrightarrow> length (contents rst s) = unat (bytes_left s)"
  by (simp add: stream_ok_def contents_def)

lemma contents_error [simp]: "contents rst (is_set_error msg s) = contents rst s"
  by (simp add: contents_def)

lemma stream_ok_error [simp]: "stream_ok ok rst (is_set_error msg s) = stream_ok ok rst s"
  by (simp add: stream_ok_def)

subsection \<open>The interface: a source that may fail\<close>

text \<open>The weaker contract that memory safety needs.  \<open>avail\<close> is how many bytes it is allowed to
  ask the source for; a call may fail, even after it has delivered some bytes, but it never
  delivers more than it was asked for, and a call that succeeds has delivered all.\<close>

definition src_result :: "('s in_source \<Rightarrow> bool) \<Rightarrow> ('s in_source \<Rightarrow> nat) \<Rightarrow> 's pb_istream \<Rightarrow> bool \<Rightarrow>
    u64 \<Rightarrow> bool \<Rightarrow> u8 list \<Rightarrow> 's pb_istream \<Rightarrow> bool" where
  "src_result ok av s null n good bs s' \<longleftrightarrow>
     ok (source s') \<and> length bs \<le> unat n \<and> (good \<and> \<not> null \<longrightarrow> length bs = unat n) \<and>
     (if good then av (source s) \<le> av (source s') + unat n
      else av (source s) + unat (bytes_left s') \<le> av (source s') + unat (bytes_left s))"

locale input_source =
  fixes src_ok :: "'s in_source \<Rightarrow> bool"
    and avail :: "'s in_source \<Rightarrow> nat"
  assumes call_safe:
      "src_ok (source s) \<Longrightarrow> (null \<Longrightarrow> is_buf (source s)) \<Longrightarrow> unat n \<le> avail (source s) \<Longrightarrow>
       \<exists>good bs s'. call_read s null n = Some (good, bs, s') \<and>
         src_result src_ok avail s null n good bs s'"

text \<open>A source with a fixed content is one of them.\<close>

sublocale byte_source \<subseteq> safe: input_source src_ok "\<lambda>src. length (tail src)"
proof
  fix s :: "'s pb_istream" and n :: u64 and null
  assume a: "src_ok (source s)" "null \<Longrightarrow> is_buf (source s)" "unat n \<le> length (tail (source s))"
  show "\<exists>good bs s'. call_read s null n = Some (good, bs, s') \<and>
      src_result src_ok (\<lambda>src. length (tail src)) s null n good bs s'"
    using call_read_ok [OF a(1,3)] call_skip_ok [OF a(1) a(2) a(3)] a(3)
    by (cases null) (auto simp: src_result_def)
qed

subsection \<open>Reading from a source with a fixed content\<close>

context byte_source
begin

lemma pb_read_tail_ok:
  assumes s: "stream_ok src_ok tail s" and buf: "null \<Longrightarrow> is_buf (source s)"
  shows "\<exists>s'. pb_read_tail s null n =
      Some (n \<le> bytes_left s,
            if n \<le> bytes_left s \<and> \<not> null then take (unat n) (contents tail s) else [], s') \<and>
      adv src_ok tail (if n \<le> bytes_left s then unat n else 0) s s' \<and>
      (n \<le> bytes_left s \<longrightarrow> is_errmsg s' = is_errmsg s) \<and>
      (\<not> n \<le> bytes_left s \<longrightarrow> s' = is_set_error ''end-of-stream'' s)"
proof (cases "n \<le> bytes_left s")
  case False
  with s show ?thesis by (auto simp: pb_read_tail_def)
next
  case True
  then have le: "unat n \<le> unat (bytes_left s)" by (simp add: word_le_nat_alt)
  with s have len: "unat n \<le> length (tail (source s))" and ok: "src_ok (source s)"
    by (simp_all add: stream_ok_def)
  obtain src' where r: "call_read s null n =
        Some (True, if null then [] else take (unat n) (tail (source s)), s\<lparr>source := src'\<rparr>)"
      and ok': "src_ok src'" and tl': "tail src' = drop (unat n) (tail (source s))"
    using call_read_ok [OF ok len] call_skip_ok [OF ok _ len] buf by (cases null) auto
  have "take (unat n) (contents tail s) = take (unat n) (tail (source s))"
    using le by (simp add: contents_def min_absorb1)
  moreover have "unat (bytes_left s - n) = unat (bytes_left s) - unat n"
    using True by (rule unat_sub)
  ultimately show ?thesis using True le s r ok' tl'
    by (auto simp: pb_read_tail_def adv_def stream_ok_def)
qed

lemma pb_readbyte_ok:
  assumes s: "stream_ok src_ok tail s"
  shows "(contents tail s = [] \<longrightarrow>
            pb_readbyte s = Some (None, is_set_error ''end-of-stream'' s)) \<and>
         (\<forall>b bs. contents tail s = b # bs \<longrightarrow>
            (\<exists>s'. pb_readbyte s = Some (Some b, s') \<and> adv src_ok tail 1 s s' \<and>
                  contents tail s' = bs \<and> is_errmsg s' = is_errmsg s))"
proof (intro conjI allI impI)
  assume "contents tail s = []"
  with s have "bytes_left s = 0" using contents_length [OF s] by (simp add: unat_eq_0)
  then show "pb_readbyte s = Some (None, is_set_error ''end-of-stream'' s)"
    by (simp add: pb_readbyte_def)
next
  fix b bs assume c: "contents tail s = b # bs"
  with contents_length [OF s] have pos: "0 < unat (bytes_left s)" by simp
  then have nz: "bytes_left s \<noteq> 0" by auto
  from s have ok: "src_ok (source s)" and "unat (bytes_left s) \<le> length (tail (source s))"
    by (simp_all add: stream_ok_def)
  with pos have len: "unat (1 :: u64) \<le> length (tail (source s))" by simp
  from pos c obtain ts where ts: "tail (source s) = b # ts"
    by (cases "tail (source s)"; cases "unat (bytes_left s)") (auto simp: contents_def)
  from call_read_ok [OF ok len] ts obtain src' where
    r: "call_read s False 1 = Some (True, [b], s\<lparr>source := src'\<rparr>)" "src_ok src'" "tail src' = ts"
    by auto
  have u: "unat (bytes_left s - 1) = unat (bytes_left s) - 1"
    using nz by (simp add: unat_minus_one)
  let ?s' = "s\<lparr>source := src', bytes_left := bytes_left s - 1\<rparr>"
  have a: "adv src_ok tail 1 s ?s'"
    using r ts u pos s by (auto simp: adv_def stream_ok_def)
  moreover have "contents tail ?s' = bs" using adv_contents [OF a] c by simp
  ultimately show "\<exists>s'. pb_readbyte s = Some (Some b, s') \<and> adv src_ok tail 1 s s' \<and>
      contents tail s' = bs \<and> is_errmsg s' = is_errmsg s"
    using nz r by (auto simp: pb_readbyte_def intro!: exI [of _ ?s'])
qed

lemma pb_read_skip_ok:
  "stream_ok src_ok tail s \<Longrightarrow>
   \<exists>k s'. pb_read_skip s n = Some (n \<le> bytes_left s, [], s') \<and> adv src_ok tail k s s' \<and>
     (n \<le> bytes_left s \<longrightarrow> k = unat n \<and> is_errmsg s' = is_errmsg s)"
proof (induction s n rule: pb_read_skip.induct)
  case (1 s n)
  show ?case
  proof (cases "16 < n")
    case False
    with pb_read_tail_ok [OF "1.prems", of False n] show ?thesis
      by (intro exI [of _ "if n \<le> bytes_left s then unat n else 0"])
        (subst pb_read_skip.simps, auto)
  next
    case big: True
    obtain bs s1 where t: "pb_read_tail s False 16 = Some (16 \<le> bytes_left s, bs, s1)"
      and a: "adv src_ok tail (if 16 \<le> bytes_left s then unat (16 :: u64) else 0) s s1"
      and e: "16 \<le> bytes_left s \<longrightarrow> is_errmsg s1 = is_errmsg s"
      using pb_read_tail_ok [OF "1.prems", of False 16] by blast
    show ?thesis
    proof (cases "16 \<le> bytes_left s")
      case False
      with big have "\<not> n \<le> bytes_left s" by auto
      with big t a False show ?thesis
        by (intro exI [of _ 0]) (subst pb_read_skip.simps, auto)
    next
      case True
      with a have a16: "adv src_ok tail 16 s s1" by simp
      then have left: "unat (bytes_left s1) + 16 = unat (bytes_left s)" by (simp add: adv_def)
      have "unat (n - 16) = unat n - 16" using big by (simp add: unat_sub word_less_nat_alt word_le_nat_alt)
      with left big have iff: "n - 16 \<le> bytes_left s1 \<longleftrightarrow> n \<le> bytes_left s"
        by (auto simp: word_le_nat_alt word_less_nat_alt)
      from "1.IH" [OF big t refl refl] True adv_ok [OF a16] obtain k s' where
        r: "pb_read_skip s1 (n - 16) = Some (n - 16 \<le> bytes_left s1, [], s')"
        and a': "adv src_ok tail k s1 s'"
        and k: "n - 16 \<le> bytes_left s1 \<longrightarrow> k = unat (n - 16) \<and> is_errmsg s' = is_errmsg s1"
        by auto
      have "adv src_ok tail (16 + k) s s'" using adv_trans [OF a16 a'] .
      moreover have "n \<le> bytes_left s \<longrightarrow> 16 + k = unat n \<and> is_errmsg s' = is_errmsg s"
        using k iff e True \<open>unat (n - 16) = unat n - 16\<close> big by (auto simp: word_less_nat_alt)
      ultimately show ?thesis using r t True big iff
        by (intro exI [of _ "16 + k"]) (subst pb_read_skip.simps, auto)
    qed
  qed
qed

text \<open>\<open>pb_read\<close>: it succeeds exactly when the stream has that many bytes, delivers them
  (unless they are only skipped) and consumes them.\<close>

lemma pb_read_ok:
  assumes "stream_ok src_ok tail s"
  obtains k s' where
    "pb_read s null n =
       Some (n \<le> bytes_left s,
             if n \<le> bytes_left s \<and> \<not> null then take (unat n) (contents tail s) else [], s')"
    "adv src_ok tail k s s'"
    "n \<le> bytes_left s \<Longrightarrow> k = unat n \<and> is_errmsg s' = is_errmsg s"
proof (cases "null \<and> \<not> is_buf (source s)")
  case True
  with pb_read_skip_ok [OF assms, of n] that show thesis by (auto simp: pb_read_def)
next
  case False
  with pb_read_tail_ok [OF assms, of null n] that show thesis by (auto simp: pb_read_def)
qed

end

subsection \<open>Memory buffers\<close>

definition buf_ok :: "'s in_source \<Rightarrow> bool" where
  "buf_ok src = is_buf src"

definition buf_tail :: "'s in_source \<Rightarrow> u8 list" where
  "buf_tail src = (case src of BufRead xs \<Rightarrow> xs | UserRead _ _ \<Rightarrow> [])"

lemma buf_call_ok:
  assumes "buf_ok (source s)" "unat n \<le> length (buf_tail (source s))"
  shows "\<exists>src'. call_read s null n =
      Some (True, if null then [] else take (unat n) (buf_tail (source s)), s\<lparr>source := src'\<rparr>) \<and>
    buf_ok src' \<and> buf_tail src' = drop (unat n) (buf_tail (source s))"
  using assms
  by (cases "source s") (auto simp: buf_ok_def is_buf_def buf_tail_def call_read_def buf_read_def)

interpretation buf: byte_source buf_ok buf_tail
  by unfold_locales (use buf_call_ok [where null = False] buf_call_ok [where null = True] in auto)

text \<open>\<open>pb_istream_from_buffer\<close> makes such a stream when it is told no more than the buffer's
  size; its contents are the first \<open>bufsize\<close> bytes.\<close>

lemma pb_istream_from_buffer_ok [simp]:
  "stream_ok buf_ok buf_tail (pb_istream_from_buffer xs n) \<longleftrightarrow> unat n \<le> length xs"
  "contents buf_tail (pb_istream_from_buffer xs n) = take (unat n) xs"
  "bytes_left (pb_istream_from_buffer xs n) = n"
  "is_errmsg (pb_istream_from_buffer xs n) = None"
  by (simp_all add: pb_istream_from_buffer_def stream_ok_def contents_def buf_ok_def is_buf_def
      buf_tail_def)

subsection \<open>User callbacks\<close>

text \<open>What \<open>pb_read\<close> relies on when the callback is the user's: it does not store more than the
  \<open>count\<close> bytes it was asked for, and when it returns true it has stored all of them.  It may fail
  at any time, after any number of bytes, and it may report the end of its data.\<close>

definition callback_ok :: "('s \<Rightarrow> nat \<Rightarrow> read_end \<times> u8 list \<times> 's) \<Rightarrow> bool" where
  "callback_ok f \<longleftrightarrow>
     (\<forall>st n. case f st n of (res, bs, st') \<Rightarrow>
        length bs \<le> n \<and> (res = Read_ok \<longrightarrow> length bs = n))"

text \<open>No number of bytes is too much to ask for.\<close>

definition user_ok :: "('s \<Rightarrow> nat \<Rightarrow> read_end \<times> u8 list \<times> 's) \<Rightarrow> 's in_source \<Rightarrow> bool" where
  "user_ok f src \<longleftrightarrow> callback_ok f \<and> (\<exists>st. src = UserRead f st)"

definition user_avail :: "'s in_source \<Rightarrow> nat" where
  "user_avail src = 2 ^ 64"

lemma user_call_ok:
  assumes "user_ok f (source s)"
  shows "\<exists>good bs s'. call_read s False n = Some (good, bs, s') \<and> user_ok f (source s') \<and>
    length bs \<le> unat n \<and> (good \<longrightarrow> length bs = unat n)"
proof -
  from assms obtain st where src: "source s = UserRead f st" and f: "callback_ok f"
    by (auto simp: user_ok_def)
  obtain res bs st' where r: "f st (unat n) = (res, bs, st')" by (cases "f st (unat n)")
  have "length bs \<le> unat n \<and> (res = Read_ok \<longrightarrow> length bs = unat n)"
    using spec [OF spec [OF f [unfolded callback_ok_def], of st], of "unat n"] r by simp
  with src f r show ?thesis by (simp add: call_read_def user_ok_def)
qed

interpretation user: input_source "user_ok f" user_avail
  for f :: "'s \<Rightarrow> nat \<Rightarrow> read_end \<times> u8 list \<times> 's"
proof
  fix s :: "'s pb_istream" and n :: u64 and null
  assume ok: "user_ok f (source s)" and "null \<Longrightarrow> is_buf (source s)"
  then have "\<not> null" by (auto simp: user_ok_def is_buf_def)
  from user_call_ok [OF ok, of n] obtain good bs s' where
    r: "call_read s False n = Some (good, bs, s')" and ok': "user_ok f (source s')"
    and len: "length bs \<le> unat n" "good \<longrightarrow> length bs = unat n" by blast
  have "unat (bytes_left s') \<le> unat (bytes_left s)"
    using call_read_left [OF r] by (simp add: word_le_nat_alt)
  with ok' len have "src_result (user_ok f) user_avail s null n good bs s'"
    by (simp add: src_result_def user_avail_def)
  with r \<open>\<not> null\<close> show "\<exists>good bs s'. call_read s null n = Some (good, bs, s') \<and>
      src_result (user_ok f) user_avail s null n good bs s'" by auto
qed

end
