(* ===== verification/PbVarint.thy ===== *)
theory PbVarint
  imports PbIstream
begin

text \<open>
  The wire-format primitives of \<open>pb_decode.c\<close>: varints of 32 and 64 bits, zigzag values,
  little-endian fixed values, tags, skipping, and the substream of a length-delimited field.
  Signed results are kept as the word of their two's complement bits.
\<close>

subsection \<open>Reading a byte makes progress\<close>

lemma pb_readbyte_less:
  "pb_readbyte s = Some (Some b, s') \<Longrightarrow> unat (bytes_left s') < unat (bytes_left s)"
  by (auto simp: pb_readbyte_def unat_minus_one unat_gt_0 elim!: bind_SomeE
      dest!: call_read_left split: if_splits prod.splits list.splits)

lemma pb_read_tail_less:
  "pb_read_tail s null n = Some (True, bs, s') \<Longrightarrow> 0 < n \<Longrightarrow>
   unat (bytes_left s') < unat (bytes_left s)"
  by (auto simp: pb_read_tail_def not_less intro!: unat_diff_less elim!: bind_SomeE
      dest!: call_read_left split: if_splits prod.splits)

lemma pb_read_less:
  "pb_read s False n = Some (True, bs, s') \<Longrightarrow> 0 < n \<Longrightarrow>
   unat (bytes_left s') < unat (bytes_left s)"
  by (simp add: pb_read_def pb_read_tail_less)

subsection \<open>Varints\<close>

text \<open>\<open>uint_fast8_t\<close> has 8 bits on the targets of the pod, so \<open>bitpos\<close> wraps at 256.\<close>

function varint32_loop :: "'s pb_istream \<Rightarrow> u8 \<Rightarrow> u32 \<Rightarrow>
    ((u32 \<times> u8 \<times> u8) option \<times> 's pb_istream) option" where
  "varint32_loop s bitpos result = do {
     (r, s') \<leftarrow> pb_readbyte s;
     case r of
       None \<Rightarrow> Some (None, s')
     | Some byte \<Rightarrow>
         (let sign_extension = (if bitpos < 63 then 0xFF else 0x01) in
          if 32 \<le> bitpos \<and> byte AND 0x7F \<noteq> 0 \<and>
             (drop_bit 31 result = 0 \<or> byte \<noteq> sign_extension)
          then Some (None, is_set_error ''varint overflow'' s')
          else
            let result' = (if 32 \<le> bitpos then result
                           else result OR push_bit (unat bitpos) (ucast (byte AND 0x7F)));
                bitpos' = bitpos + 7
            in if byte AND 0x80 \<noteq> 0 then varint32_loop s' bitpos' result'
               else Some (Some (result', bitpos', byte), s')) }"
  by pat_completeness auto
termination
  by (relation "measure (\<lambda>(s, bitpos, result). unat (bytes_left s))")
    (auto dest: pb_readbyte_less)

declare varint32_loop.simps [simp del]

text \<open>The value, or \<open>None\<close> for \<open>false\<close>; then whether \<open>*eof\<close> was set.\<close>

definition pb_decode_varint32_eof :: "'s pb_istream \<Rightarrow>
    (u32 option \<times> bool \<times> 's pb_istream) option" where
  "pb_decode_varint32_eof s = do {
     (r, s') \<leftarrow> pb_readbyte s;
     case r of
       None \<Rightarrow> Some (None, bytes_left s' = 0, s')
     | Some byte \<Rightarrow>
         if byte AND 0x80 = 0 then Some (Some (ucast byte), False, s')
         else do {
           (r', s'') \<leftarrow> varint32_loop s' 7 (ucast (byte AND 0x7F));
           case r' of
             None \<Rightarrow> Some (None, False, s'')
           | Some (result, bitpos, byte') \<Rightarrow>
               if bitpos = 35 \<and> byte' AND 0x70 \<noteq> 0
               then Some (None, False, is_set_error ''varint overflow'' s'')
               else Some (Some result, False, s'') } }"

definition pb_decode_varint32 :: "'s pb_istream \<Rightarrow> (u32 option \<times> 's pb_istream) option" where
  "pb_decode_varint32 s = do { (r, _, s') \<leftarrow> pb_decode_varint32_eof s; Some (r, s') }"

function varint_loop :: "'s pb_istream \<Rightarrow> u8 \<Rightarrow> u64 \<Rightarrow> (u64 option \<times> 's pb_istream) option" where
  "varint_loop s bitpos result =
     (if 64 \<le> bitpos then Some (None, is_set_error ''varint overflow'' s)
      else do {
        (r, s') \<leftarrow> pb_readbyte s;
        case r of
          None \<Rightarrow> Some (None, s')
        | Some byte \<Rightarrow>
            (let result' = result OR push_bit (unat bitpos) (ucast (byte AND 0x7F));
                 bitpos' = bitpos + 7
             in if byte AND 0x80 \<noteq> 0 then varint_loop s' bitpos' result'
                else Some (Some result', s')) })"
  by pat_completeness auto
termination
  by (relation "measure (\<lambda>(s, bitpos, result). unat (bytes_left s))")
    (auto dest: pb_readbyte_less)

declare varint_loop.simps [simp del]

definition pb_decode_varint :: "'s pb_istream \<Rightarrow> (u64 option \<times> 's pb_istream) option" where
  "pb_decode_varint s = varint_loop s 0 0"

definition pb_decode_svarint :: "'s pb_istream \<Rightarrow> (u64 option \<times> 's pb_istream) option" where
  "pb_decode_svarint s = do {
     (r, s') \<leftarrow> pb_decode_varint s;
     case r of
       None \<Rightarrow> Some (None, s')
     | Some v \<Rightarrow> Some (Some (if v AND 1 \<noteq> 0 then NOT (drop_bit 1 v) else drop_bit 1 v), s') }"

subsection \<open>Fixed-size values\<close>

definition fixed32_value :: "u8 list \<Rightarrow> u32" where
  "fixed32_value bs =
     ucast (bs ! 0) OR push_bit 8 (ucast (bs ! 1)) OR push_bit 16 (ucast (bs ! 2)) OR
     push_bit 24 (ucast (bs ! 3))"

definition pb_decode_fixed32 :: "'s pb_istream \<Rightarrow> nat \<Rightarrow> mem \<Rightarrow>
    (bool \<times> 's pb_istream \<times> mem) option" where
  "pb_decode_fixed32 s dest m = do {
     (ok, bs, s') \<leftarrow> pb_read s False 4;
     if \<not> ok then Some (False, s', m)
     else if length bs \<noteq> 4 then None
     else do {
       m' \<leftarrow> store_uint m dest 4 (ucast (fixed32_value bs));
       Some (True, s', m') } }"

definition fixed64_value :: "u8 list \<Rightarrow> u64" where
  "fixed64_value bs =
     ucast (bs ! 0) OR push_bit 8 (ucast (bs ! 1)) OR push_bit 16 (ucast (bs ! 2)) OR
     push_bit 24 (ucast (bs ! 3)) OR push_bit 32 (ucast (bs ! 4)) OR
     push_bit 40 (ucast (bs ! 5)) OR push_bit 48 (ucast (bs ! 6)) OR push_bit 56 (ucast (bs ! 7))"

definition pb_decode_fixed64 :: "'s pb_istream \<Rightarrow> nat \<Rightarrow> mem \<Rightarrow>
    (bool \<times> 's pb_istream \<times> mem) option" where
  "pb_decode_fixed64 s dest m = do {
     (ok, bs, s') \<leftarrow> pb_read s False 8;
     if \<not> ok then Some (False, s', m)
     else if length bs \<noteq> 8 then None
     else do {
       m' \<leftarrow> store_uint m dest 8 (fixed64_value bs);
       Some (True, s', m') } }"

subsection \<open>Tags and skipping\<close>

text \<open>On success the wire type and the tag.  The flag is \<open>*eof\<close>.\<close>

definition pb_decode_tag :: "'s pb_istream \<Rightarrow>
    ((pb_wire_type \<times> u32) option \<times> bool \<times> 's pb_istream) option" where
  "pb_decode_tag s = do {
     (r, eof, s') \<leftarrow> pb_decode_varint32_eof s;
     case r of
       None \<Rightarrow> Some (None, eof, s')
     | Some temp \<Rightarrow>
         if temp = 0 then Some (None, True, s')
         else Some (Some (unat (temp AND 7), drop_bit 3 temp), False, s') }"

function pb_skip_varint :: "'s pb_istream \<Rightarrow> (bool \<times> 's pb_istream) option" where
  "pb_skip_varint s = do {
     (ok, bs, s') \<leftarrow> pb_read s False 1;
     if \<not> ok then Some (False, s')
     else case bs of
         [byte] \<Rightarrow> if byte AND 0x80 \<noteq> 0 then pb_skip_varint s' else Some (True, s')
       | _ \<Rightarrow> None }"
  by pat_completeness auto
termination
  by (relation "measure (\<lambda>s. unat (bytes_left s))") (auto dest: pb_read_less)

declare pb_skip_varint.simps [simp del]

definition pb_skip_string :: "'s pb_istream \<Rightarrow> (bool \<times> 's pb_istream) option" where
  "pb_skip_string s = do {
     (r, s') \<leftarrow> pb_decode_varint32 s;
     case r of
       None \<Rightarrow> Some (False, s')
     | Some len \<Rightarrow> do { (ok, _, s'') \<leftarrow> pb_read s' True (ucast len); Some (ok, s'') } }"

definition pb_skip_field :: "'s pb_istream \<Rightarrow> pb_wire_type \<Rightarrow> (bool \<times> 's pb_istream) option" where
  "pb_skip_field s wt =
     (if wt = PB_WT_VARINT then pb_skip_varint s
      else if wt = PB_WT_64BIT then do { (ok, _, s') \<leftarrow> pb_read s True 8; Some (ok, s') }
      else if wt = PB_WT_STRING then pb_skip_string s
      else if wt = PB_WT_32BIT then do { (ok, _, s') \<leftarrow> pb_read s True 4; Some (ok, s') }
      else Some (False, is_set_error ''invalid wire_type'' s))"

text \<open>\<open>read_raw_value\<close>: the bytes put into the caller's buffer of \<open>room\<close> bytes.\<close>

primrec read_raw_varint :: "nat \<Rightarrow> 's pb_istream \<Rightarrow> (bool \<times> u8 list \<times> 's pb_istream) option" where
  "read_raw_varint 0 s = Some (False, [], s)"
| "read_raw_varint (Suc room) s = do {
     (ok, bs, s') \<leftarrow> pb_read s False 1;
     if \<not> ok then Some (False, [], s')
     else case bs of
         [byte] \<Rightarrow>
           if byte AND 0x80 \<noteq> 0 then do {
             (ok', bs', s'') \<leftarrow> read_raw_varint room s';
             Some (ok', byte # bs', s'') }
           else Some (True, [byte], s')
       | _ \<Rightarrow> None }"

definition read_raw_value :: "'s pb_istream \<Rightarrow> pb_wire_type \<Rightarrow> nat \<Rightarrow>
    (bool \<times> u8 list \<times> 's pb_istream) option" where
  "read_raw_value s wt room =
     (if wt = PB_WT_VARINT then read_raw_varint room s
      else if wt = PB_WT_64BIT then pb_read s False 8
      else if wt = PB_WT_32BIT then pb_read s False 4
      else Some (False, [], is_set_error ''invalid wire_type'' s))"

subsection \<open>Substreams\<close>

definition pb_make_string_substream :: "'s pb_istream \<Rightarrow>
    ('s pb_istream option \<times> 's pb_istream) option" where
  "pb_make_string_substream s = do {
     (r, s') \<leftarrow> pb_decode_varint32 s;
     case r of
       None \<Rightarrow> Some (None, s')
     | Some n \<Rightarrow>
         if bytes_left s' < ucast n
         then Some (None, is_set_error ''parent stream too short'' s')
         else Some (Some (s'\<lparr>bytes_left := ucast n\<rparr>),
                    s'\<lparr>bytes_left := bytes_left s' - ucast n\<rparr>) }"

definition pb_close_string_substream :: "'s pb_istream \<Rightarrow> 's pb_istream \<Rightarrow>
    (bool \<times> 's pb_istream) option" where
  "pb_close_string_substream s sub = do {
     (ok, sub') \<leftarrow>
       (if bytes_left sub \<noteq> 0
        then do { (ok, _, sub') \<leftarrow> pb_read sub True (bytes_left sub); Some (ok, sub') }
        else Some (True, sub));
     if \<not> ok then Some (False, s)
     else Some (True, s\<lparr>source := source sub', is_errmsg := is_errmsg sub'\<rparr>) }"

end
