(* ===== verification/PbReadSafe.thy ===== *)
theory PbReadSafe
  imports PbVarint
begin

text \<open>
  The wire primitives over a source that may fail (\<open>input_source\<close>): each returns, leaves a
  well-formed stream, and never raises \<open>bytes_left\<close>.  These are the facts from which the message
  decoder is proved memory safe; they hold for memory buffers and for every user callback.
\<close>

definition stream_in :: "('s in_source \<Rightarrow> bool) \<Rightarrow> ('s in_source \<Rightarrow> nat) \<Rightarrow> 's pb_istream \<Rightarrow> bool" where
  "stream_in ok av s \<longleftrightarrow> ok (source s) \<and> unat (bytes_left s) \<le> av (source s)"

text \<open>\<open>reads ok av s s'\<close>: \<open>s'\<close> is well formed, and from \<open>s\<close> to \<open>s'\<close> \<open>bytes_left\<close> went down by at least
  as much as the source's supply.\<close>

definition reads :: "('s in_source \<Rightarrow> bool) \<Rightarrow> ('s in_source \<Rightarrow> nat) \<Rightarrow> 's pb_istream \<Rightarrow>
    's pb_istream \<Rightarrow> bool" where
  "reads ok av s s' \<longleftrightarrow>
     stream_in ok av s' \<and> unat (bytes_left s') \<le> unat (bytes_left s) \<and>
     av (source s) + unat (bytes_left s') \<le> av (source s') + unat (bytes_left s)"

lemma reads_ok: "reads ok av s s' \<Longrightarrow> stream_in ok av s'"
  by (simp add: reads_def)

lemma reads_left: "reads ok av s s' \<Longrightarrow> unat (bytes_left s') \<le> unat (bytes_left s)"
  by (simp add: reads_def)

lemma reads_refl: "stream_in ok av s \<Longrightarrow> reads ok av s s"
  by (simp add: reads_def)

lemma reads_trans: "reads ok av s s' \<Longrightarrow> reads ok av s' s'' \<Longrightarrow> reads ok av s s''"
  by (auto simp: reads_def)

lemma reads_error [simp]:
  "reads ok av s (is_set_error msg s') = reads ok av s s'"
  "reads ok av (is_set_error msg s) s' = reads ok av s s'"
  "stream_in ok av (is_set_error msg s) = stream_in ok av s"
  by (simp_all add: reads_def stream_in_def)

lemma reads_stay: "stream_in ok av s \<Longrightarrow> reads ok av s (is_set_error msg s)"
  by (simp add: reads_refl)

text \<open>Outcome of a primitive with a value: when there is one, input was taken.\<close>

definition yields :: "('s in_source \<Rightarrow> bool) \<Rightarrow> ('s in_source \<Rightarrow> nat) \<Rightarrow> 's pb_istream \<Rightarrow>
    ('a option \<times> 's pb_istream) option \<Rightarrow> bool" where
  "yields ok av s res \<longleftrightarrow>
     (\<exists>r s'. res = Some (r, s') \<and> reads ok av s s' \<and>
        (r \<noteq> None \<longrightarrow> unat (bytes_left s') < unat (bytes_left s)))"

lemma yieldsE:
  assumes "yields ok av s res"
  obtains r s' where "res = Some (r, s')" "reads ok av s s'"
    "r \<noteq> None \<Longrightarrow> unat (bytes_left s') < unat (bytes_left s)"
  using assms by (auto simp: yields_def)

lemma yields_None: "reads ok av s s' \<Longrightarrow> yields ok av s (Some (None, s'))"
  by (simp add: yields_def)

lemma yields_Some:
  "reads ok av s s' \<Longrightarrow> unat (bytes_left s') < unat (bytes_left s) \<Longrightarrow> yields ok av s (Some (Some r, s'))"
  by (simp add: yields_def)

lemma yields_step:
  assumes "reads ok av s s'" "yields ok av s' res"
  shows "yields ok av s res"
proof -
  from assms(2) obtain r s'' where r: "res = Some (r, s'')" and rd: "reads ok av s' s''"
    and less: "r \<noteq> None \<Longrightarrow> unat (bytes_left s'') < unat (bytes_left s')" by (rule yieldsE) blast
  from less reads_left [OF assms(1)] have "r \<noteq> None \<longrightarrow> unat (bytes_left s'') < unat (bytes_left s)" by force
  with r reads_trans [OF assms(1) rd] show ?thesis by (simp add: yields_def)
qed

lemma yields_stay: "stream_in ok av s \<Longrightarrow> yields ok av s (Some (None, is_set_error msg s))"
  by (rule yields_None) (rule reads_stay)

text \<open>\<open>part_of n s1 sub s'\<close>: \<open>sub\<close> is the substream of the next \<open>n\<close> bytes of \<open>s1\<close>, and \<open>s'\<close> the parent
  in the meantime.\<close>

definition part_of :: "('s in_source \<Rightarrow> bool) \<Rightarrow> ('s in_source \<Rightarrow> nat) \<Rightarrow> u64 \<Rightarrow> 's pb_istream \<Rightarrow>
    's pb_istream \<Rightarrow> 's pb_istream \<Rightarrow> bool" where
  "part_of ok av n s1 sub s' \<longleftrightarrow>
     stream_in ok av s1 \<and> n \<le> bytes_left s1 \<and> sub = s1\<lparr>bytes_left := n\<rparr> \<and>
     s' = s1\<lparr>bytes_left := bytes_left s1 - n\<rparr>"

lemma part_of_ok:
  assumes "part_of ok av n s1 sub s'"
  shows "stream_in ok av sub" "reads ok av s1 s'"
proof -
  from assms have s1: "stream_in ok av s1" and n: "n \<le> bytes_left s1"
    and eq: "sub = s1\<lparr>bytes_left := n\<rparr>" "s' = s1\<lparr>bytes_left := bytes_left s1 - n\<rparr>"
    by (simp_all add: part_of_def)
  from n have "unat (bytes_left s1 - n) = unat (bytes_left s1) - unat n" by (rule unat_sub)
  with s1 n eq show "stream_in ok av sub" "reads ok av s1 s'"
    by (auto simp: stream_in_def reads_def word_le_nat_alt)
qed

context input_source
begin

subsection \<open>Reading\<close>

lemma read_tail_reads:
  assumes s: "stream_in src_ok avail s" and buf: "null \<Longrightarrow> is_buf (source s)"
  obtains good bs s' where "pb_read_tail s null n = Some (good, bs, s')" "reads src_ok avail s s'"
    "length bs \<le> unat n" "good \<Longrightarrow> \<not> null \<Longrightarrow> length bs = unat n"
proof (cases "n \<le> bytes_left s")
  case False
  then have "pb_read_tail s null n = Some (False, [], is_set_error ''end-of-stream'' s)"
    by (simp add: pb_read_tail_def not_le)
  then show thesis by (rule that) (simp_all add: reads_refl [OF s])
next
  case True
  then have le: "unat n \<le> unat (bytes_left s)" by (simp add: word_le_nat_alt)
  from s le have "src_ok (source s)" "unat n \<le> avail (source s)" by (simp_all add: stream_in_def)
  with buf call_safe [of s null n] obtain good bs s1 where
    r: "call_read s null n = Some (good, bs, s1)" and res: "src_result src_ok avail s null n good bs s1" by blast
  note left = call_read_left [OF r]
  have len: "length bs \<le> unat n" "good \<Longrightarrow> \<not> null \<Longrightarrow> length bs = unat n"
    and ok1: "src_ok (source s1)" using res by (simp_all add: src_result_def)
  show thesis
  proof (cases good)
    case False
    with res have "avail (source s) + unat (bytes_left s1) \<le> avail (source s1) + unat (bytes_left s)"
      by (simp add: src_result_def)
    with ok1 left s have "reads src_ok avail s s1" by (simp add: reads_def stream_in_def word_le_nat_alt)
    moreover from r True False have "pb_read_tail s null n = Some (False, bs, is_set_error ''io error'' s1)"
      by (simp add: pb_read_tail_def not_less [symmetric])
    ultimately show thesis using len(1) False
      by (intro that [of False bs "is_set_error ''io error'' s1"]) simp_all
  next
    case good: True
    with res have av: "avail (source s) \<le> avail (source s1) + unat n" by (simp add: src_result_def)
    have "unat (bytes_left s - n) = unat (bytes_left s) - unat n" using True by (rule unat_sub)
    with ok1 left good s av le have "reads src_ok avail s (s1\<lparr>bytes_left := bytes_left s1 - n\<rparr>)"
      by (auto simp: reads_def stream_in_def)
    moreover from r True good have "pb_read_tail s null n = Some (True, bs, s1\<lparr>bytes_left := bytes_left s1 - n\<rparr>)"
      by (simp add: pb_read_tail_def not_less [symmetric])
    ultimately show thesis using len good
      by (intro that [of True bs "s1\<lparr>bytes_left := bytes_left s1 - n\<rparr>"]) simp_all
  qed
qed

lemma read_skip_reads:
  "stream_in src_ok avail s \<Longrightarrow> \<exists>good s'. pb_read_skip s n = Some (good, [], s') \<and> reads src_ok avail s s'"
proof (induction s n rule: pb_read_skip.induct)
  case (1 s n)
  show ?case
  proof (cases "16 < n")
    case False
    from "1.prems" obtain good bs s' where "pb_read_tail s False n = Some (good, bs, s')"
      "reads src_ok avail s s'" by (rule read_tail_reads [where null = False and n = n]) auto
    with False show ?thesis by (subst pb_read_skip.simps) simp
  next
    case True
    from "1.prems" obtain good bs s1 where t: "pb_read_tail s False 16 = Some (good, bs, s1)"
      and r: "reads src_ok avail s s1" by (rule read_tail_reads [where null = False and n = 16]) auto
    show ?thesis
    proof (cases good)
      case False
      with True t r show ?thesis by (subst pb_read_skip.simps) simp
    next
      case good: True
      with "1.IH" [OF True t refl refl] reads_ok [OF r] obtain g s' where
        "pb_read_skip s1 (n - 16) = Some (g, [], s')" "reads src_ok avail s1 s'" by auto
      with True good t reads_trans [OF r] show ?thesis by (subst pb_read_skip.simps) auto
    qed
  qed
qed

lemma read_reads:
  assumes s: "stream_in src_ok avail s"
  obtains good bs s' where "pb_read s null n = Some (good, bs, s')" "reads src_ok avail s s'"
    "length bs \<le> unat n" "good \<Longrightarrow> \<not> null \<Longrightarrow> length bs = unat n"
proof (cases "null \<and> \<not> is_buf (source s)")
  case True
  with read_skip_reads [OF s, of n] that show thesis by (auto simp: pb_read_def)
next
  case False
  then have buf: "is_buf (source s)" if null using that by simp
  from s buf obtain good bs s' where "pb_read_tail s null n = Some (good, bs, s')"
    "reads src_ok avail s s'" "length bs \<le> unat n" "good \<Longrightarrow> \<not> null \<Longrightarrow> length bs = unat n"
    by (rule read_tail_reads [where null = null and n = n]) blast+
  moreover from False have "pb_read s null n = pb_read_tail s null n" by (auto simp: pb_read_def)
  ultimately show thesis by (intro that [of good bs s']) simp_all
qed

lemma readbyte_yields:
  assumes s: "stream_in src_ok avail s"
  shows "yields src_ok avail s (pb_readbyte s)"
proof (cases "bytes_left s = 0")
  case True
  with s show ?thesis by (simp add: pb_readbyte_def yields_stay)
next
  case False
  then have "0 < unat (bytes_left s)" by (simp add: unat_gt_0)
  with False have one: "\<not> bytes_left s < 1" by (simp add: word_less_nat_alt)
  from s obtain good bs s' where t: "pb_read_tail s False 1 = Some (good, bs, s')"
    and r: "reads src_ok avail s s'" and len: "good \<Longrightarrow> \<not> False \<Longrightarrow> length bs = unat (1 :: u64)"
    by (rule read_tail_reads [where null = False and n = 1]) auto
  from t one obtain s1 where c: "call_read s False 1 = Some (good, bs, s1)"
    and s': "s' = (if good then s1\<lparr>bytes_left := bytes_left s1 - 1\<rparr> else is_set_error ''io error'' s1)"
    by (auto simp: pb_read_tail_def elim!: bind_SomeE split: if_splits)
  show ?thesis
  proof (cases good)
    case False
    with c s' r \<open>bytes_left s \<noteq> 0\<close> show ?thesis by (simp add: pb_readbyte_def yields_None)
  next
    case True
    with len obtain b where "bs = [b]" by (cases bs) auto
    with c s' True \<open>bytes_left s \<noteq> 0\<close> have rb: "pb_readbyte s = Some (Some b, s')"
      by (simp add: pb_readbyte_def)
    with r pb_readbyte_less [OF rb] show ?thesis by (simp add: yields_Some)
  qed
qed

subsection \<open>Varints\<close>

lemma varint32_loop_yields:
  "stream_in src_ok avail s \<Longrightarrow> yields src_ok avail s (varint32_loop s bitpos result)"
proof (induction s bitpos result rule: varint32_loop.induct)
  case (1 s bitpos result)
  from readbyte_yields [OF "1.prems"] obtain r s' where b: "pb_readbyte s = Some (r, s')"
    and rd: "reads src_ok avail s s'" and less: "r \<noteq> None \<Longrightarrow> unat (bytes_left s') < unat (bytes_left s)"
    by (rule yieldsE) blast
  show ?case
  proof (cases r)
    case None
    with b rd show ?thesis by (subst varint32_loop.simps) (simp add: yields_None)
  next
    case (Some byte)
    from "1.IH" [OF b refl Some refl _ refl refl] reads_ok [OF rd] b rd less Some
    show ?thesis
      by (subst varint32_loop.simps)
        (auto simp: Let_def intro: yields_step yields_Some yields_None)
  qed
qed

lemma varint_loop_yields:
  "stream_in src_ok avail s \<Longrightarrow> yields src_ok avail s (varint_loop s bitpos result)"
proof (induction s bitpos result rule: varint_loop.induct)
  case (1 s bitpos result)
  from readbyte_yields [OF "1.prems"] obtain r s' where b: "pb_readbyte s = Some (r, s')"
    and rd: "reads src_ok avail s s'" and less: "r \<noteq> None \<Longrightarrow> unat (bytes_left s') < unat (bytes_left s)"
    by (rule yieldsE) blast
  show ?case
  proof (cases r)
    case None
    with b rd "1.prems" show ?thesis by (subst varint_loop.simps) (simp add: yields_None yields_stay)
  next
    case (Some byte)
    from "1.IH" [OF _ b refl Some refl refl] reads_ok [OF rd] b rd less Some "1.prems"
    show ?thesis
      by (subst varint_loop.simps)
        (auto simp: Let_def intro: yields_step yields_Some yields_stay)
  qed
qed

lemma varint32_eof_reads:
  assumes s: "stream_in src_ok avail s"
  obtains r eof s' where "pb_decode_varint32_eof s = Some (r, eof, s')" "reads src_ok avail s s'"
    "r \<noteq> None \<Longrightarrow> unat (bytes_left s') < unat (bytes_left s) \<and> \<not> eof"
proof -
  from readbyte_yields [OF s] obtain r s1 where b: "pb_readbyte s = Some (r, s1)"
    and rd: "reads src_ok avail s s1" and less: "r \<noteq> None \<Longrightarrow> unat (bytes_left s1) < unat (bytes_left s)"
    by (rule yieldsE) blast
  show thesis
  proof (cases r)
    case None
    with b rd that [of None "bytes_left s1 = 0" s1] show thesis by (simp add: pb_decode_varint32_eof_def)
  next
    case (Some byte)
    show thesis
    proof (cases "byte AND 0x80 = 0")
      case True
      with b rd less Some that [of "Some (ucast byte)" False s1] show thesis
        by (simp add: pb_decode_varint32_eof_def)
    next
      case False
      from varint32_loop_yields [OF reads_ok [OF rd]] obtain r' s2 where
        l: "varint32_loop s1 7 (ucast (byte AND 0x7F)) = Some (r', s2)" and rd2: "reads src_ok avail s1 s2"
        by (rule yieldsE) blast
      from reads_trans [OF rd rd2] have rd': "reads src_ok avail s s2" .
      have less2: "unat (bytes_left s2) < unat (bytes_left s)"
        using less Some reads_left [OF rd2] by simp
      show thesis
      proof (cases r')
        case None
        with b l Some False rd' that [of None False s2] show thesis by (simp add: pb_decode_varint32_eof_def)
      next
        case t: (Some t)
        obtain res bp b' where t': "t = (res, bp, b')" by (cases t)
        show thesis
        proof (cases "bp = 35 \<and> b' AND 0x70 \<noteq> 0")
          case True
          with b l Some False rd' t t' that [of None False "is_set_error ''varint overflow'' s2"]
          show thesis by (simp add: pb_decode_varint32_eof_def)
        next
          case notover: False
          with b l Some False rd' t t' less2 that [of "Some res" False s2] show thesis
            by (auto simp: pb_decode_varint32_eof_def)
        qed
      qed
    qed
  qed
qed

lemma varint32_yields:
  assumes "stream_in src_ok avail s"
  shows "yields src_ok avail s (pb_decode_varint32 s)"
  using assms by (rule varint32_eof_reads) (auto simp: pb_decode_varint32_def yields_def)

lemma varint_yields:
  "stream_in src_ok avail s \<Longrightarrow> yields src_ok avail s (pb_decode_varint s)"
  by (simp add: pb_decode_varint_def varint_loop_yields)

lemma svarint_yields:
  assumes "stream_in src_ok avail s"
  shows "yields src_ok avail s (pb_decode_svarint s)"
  using varint_yields [OF assms]
  by (rule yieldsE) (auto simp: pb_decode_svarint_def yields_def split: option.split)

lemma tag_reads:
  assumes s: "stream_in src_ok avail s"
  obtains r eof s' where "pb_decode_tag s = Some (r, eof, s')" "reads src_ok avail s s'"
    "r \<noteq> None \<Longrightarrow> unat (bytes_left s') < unat (bytes_left s) \<and> \<not> eof"
proof -
  from s obtain r eof s' where e: "pb_decode_varint32_eof s = Some (r, eof, s')"
    and a: "reads src_ok avail s s'" and k: "r \<noteq> None \<Longrightarrow> unat (bytes_left s') < unat (bytes_left s) \<and> \<not> eof"
    by (rule varint32_eof_reads) blast
  show thesis
  proof (cases r)
    case None
    with e a that [of None eof s'] show thesis by (simp add: pb_decode_tag_def)
  next
    case (Some v)
    show thesis
    proof (cases "v = 0")
      case True
      with e a Some that [of None True s'] show thesis by (simp add: pb_decode_tag_def)
    next
      case False
      with e Some have "pb_decode_tag s = Some (Some (unat (v AND 7), drop_bit 3 v), False, s')"
        by (simp add: pb_decode_tag_def)
      then show thesis using a k Some by (intro that) simp_all
    qed
  qed
qed

subsection \<open>Skipping and substreams\<close>

lemma skip_varint_reads:
  "stream_in src_ok avail s \<Longrightarrow> \<exists>good s'. pb_skip_varint s = Some (good, s') \<and> reads src_ok avail s s'"
proof (induction s rule: pb_skip_varint.induct)
  case (1 s)
  from "1.prems" obtain good bs s' where t: "pb_read s False 1 = Some (good, bs, s')"
    and rd: "reads src_ok avail s s'" and len: "good \<Longrightarrow> \<not> False \<Longrightarrow> length bs = unat (1 :: u64)"
    by (rule read_reads [where null = False and n = 1]) auto
  show ?case
  proof (cases good)
    case False
    with t rd show ?thesis by (subst pb_skip_varint.simps) auto
  next
    case True
    with len obtain b where bs: "bs = [b]" by (cases bs) auto
    with t True have t': "pb_read s False 1 = Some (True, [b], s')" by simp
    show ?thesis
    proof (cases "b AND 0x80 = 0")
      case True
      with t' rd show ?thesis by (subst pb_skip_varint.simps) auto
    next
      case False
      with "1.IH" [OF t' refl refl _ refl _ _ reads_ok [OF rd]] obtain g s'' where
        "pb_skip_varint s' = Some (g, s'')" "reads src_ok avail s' s''" by auto
      with t' False reads_trans [OF rd, of s''] show ?thesis
        by (subst pb_skip_varint.simps) auto
    qed
  qed
qed

lemma skip_string_reads:
  assumes s: "stream_in src_ok avail s"
  obtains good s' where "pb_skip_string s = Some (good, s')" "reads src_ok avail s s'"
proof -
  from varint32_yields [OF s] obtain r s1 where
    v: "pb_decode_varint32 s = Some (r, s1)" and a: "reads src_ok avail s s1" by (rule yieldsE) blast
  show thesis
  proof (cases r)
    case None
    with v a that [of False s1] show thesis by (simp add: pb_skip_string_def)
  next
    case (Some n)
    from reads_ok [OF a] obtain g bs s2 where
      "pb_read s1 True (ucast n) = Some (g, bs, s2)" "reads src_ok avail s1 s2"
      by (rule read_reads [where null = True and n = "ucast n"]) blast
    with v Some reads_trans [OF a] that [of g s2] show thesis
      by (simp add: pb_skip_string_def)
  qed
qed

lemma skip_field_reads:
  assumes s: "stream_in src_ok avail s"
  obtains good s' where "pb_skip_field s wt = Some (good, s')" "reads src_ok avail s s'"
proof -
  from s obtain g8 b8 s8 where r8: "pb_read s True 8 = Some (g8, b8, s8)" "reads src_ok avail s s8"
    by (rule read_reads [where null = True and n = 8]) blast
  from s obtain g4 b4 s4 where r4: "pb_read s True 4 = Some (g4, b4, s4)" "reads src_ok avail s s4"
    by (rule read_reads [where null = True and n = 4]) blast
  from s obtain gs ss where rs: "pb_skip_string s = Some (gs, ss)" "reads src_ok avail s ss"
    by (rule skip_string_reads)
  from skip_varint_reads [OF s] obtain gv sv where
    rv: "pb_skip_varint s = Some (gv, sv)" "reads src_ok avail s sv" by blast
  show thesis
    using that [OF _ rv(2), of gv] that [OF _ r8(2), of g8] that [OF _ rs(2), of gs]
      that [OF _ r4(2), of g4] that [OF _ reads_stay [OF s, of "''invalid wire_type''"], of False]
    unfolding pb_skip_field_def rv(1) r8(1) rs(1) r4(1)
    by (cases "wt = PB_WT_VARINT"; cases "wt = PB_WT_64BIT"; cases "wt = PB_WT_STRING";
        cases "wt = PB_WT_32BIT") simp_all
qed

lemma make_substream_reads:
  assumes s: "stream_in src_ok avail s"
  obtains (fail) s' where "pb_make_string_substream s = Some (None, s')" "reads src_ok avail s s'"
    | (sub) n s1 sub s' where "pb_make_string_substream s = Some (Some sub, s')"
        "reads src_ok avail s s1" "part_of src_ok avail n s1 sub s'"
proof -
  from varint32_yields [OF s] obtain r s1 where
    v: "pb_decode_varint32 s = Some (r, s1)" and a: "reads src_ok avail s s1" by (rule yieldsE) blast
  show thesis
  proof (cases r)
    case None
    with v a fail show thesis by (simp add: pb_make_string_substream_def)
  next
    case (Some n)
    show thesis
    proof (cases "bytes_left s1 < ucast n")
      case True
      with v a Some fail [of "is_set_error ''parent stream too short'' s1"] show thesis
        by (simp add: pb_make_string_substream_def)
    next
      case False
      with v Some have "pb_make_string_substream s =
          Some (Some (s1\<lparr>bytes_left := ucast n\<rparr>), s1\<lparr>bytes_left := bytes_left s1 - ucast n\<rparr>)"
        by (simp add: pb_make_string_substream_def)
      moreover have "part_of src_ok avail (ucast n) s1 (s1\<lparr>bytes_left := ucast n\<rparr>)
          (s1\<lparr>bytes_left := bytes_left s1 - ucast n\<rparr>)"
        using False reads_ok [OF a] by (simp add: part_of_def not_less)
      ultimately show thesis using a by (intro sub)
    qed
  qed
qed

text \<open>Giving back a substream that was left anywhere; reading over its rest may fail.\<close>

lemma close_reads:
  assumes p: "part_of src_ok avail n s1 sub s'" and f: "reads src_ok avail sub sub'"
  obtains good s'' where "pb_close_string_substream s' sub' = Some (good, s'')"
    "reads src_ok avail s1 s''"
proof -
  from p have s1: "stream_in src_ok avail s1" and n: "n \<le> bytes_left s1"
    and eq: "sub = s1\<lparr>bytes_left := n\<rparr>" "s' = s1\<lparr>bytes_left := bytes_left s1 - n\<rparr>"
    by (simp_all add: part_of_def)
  from n have left: "unat (bytes_left s1 - n) = unat (bytes_left s1) - unat n" by (rule unat_sub)
  from n have n': "unat n \<le> unat (bytes_left s1)" by (simp add: word_le_nat_alt)
  have step: "reads src_ok avail s1 (s'\<lparr>source := source sub2, is_errmsg := x\<rparr>)"
    if "reads src_ok avail sub sub2" for sub2 x
    using that s1 left n' by (auto simp: reads_def stream_in_def eq)
  show thesis
  proof (cases "bytes_left sub' = 0")
    case True
    with step [OF f] that show thesis by (simp add: pb_close_string_substream_def)
  next
    case False
    from reads_ok [OF f] obtain g bs sub2 where
      r: "pb_read sub' True (bytes_left sub') = Some (g, bs, sub2)" and a2: "reads src_ok avail sub' sub2"
      by (rule read_reads [where null = True and n = "bytes_left sub'"]) blast
    show thesis
    proof (cases g)
      case True
      with r False step [OF reads_trans [OF f a2]] that show thesis
        by (simp add: pb_close_string_substream_def)
    next
      case gone: False
      with r False part_of_ok(2) [OF p] that [of False s'] show thesis
        by (simp add: pb_close_string_substream_def)
    qed
  qed
qed

end

end
