(* ===== verification/PbFieldDec.thy ===== *)
theory PbFieldDec
  imports PbReadSafe
begin

text \<open>
  The field decoders of \<open>pb_decode.c\<close> that do not call back into the message decoder:
  \<open>allocate_field\<close> and \<open>pb_dec_varint\<close> to \<open>pb_dec_fixed_length_bytes\<close>.  Each gets the stream, the
  field entry, the destination address and the memory, and returns whether it succeeded, the
  stream and the memory.  Stores happen where the C code has them: the integer decoders store
  before they check for overflow, and \<open>pb_dec_string\<close> stores the terminator also when reading
  failed.
\<close>

subsection \<open>Operations\<close>

text \<open>\<open>memcpy\<close> of the bytes that \<open>pb_read\<close> delivered to where \<open>buf\<close> points.\<close>

definition pb_read_to :: "'s pb_istream \<Rightarrow> nat \<Rightarrow> u64 \<Rightarrow> mem \<Rightarrow>
    (bool \<times> 's pb_istream \<times> mem) option" where
  "pb_read_to s buf count m = do {
     (ok, bs, s') \<leftarrow> pb_read s False count;
     m' \<leftarrow> store_bytes m buf bs;
     Some (ok, s', m') }"

definition allocate_field :: "(mem \<Rightarrow> nat \<Rightarrow> nat option) \<Rightarrow> 's pb_istream \<Rightarrow> nat \<Rightarrow> u64 \<Rightarrow> u64 \<Rightarrow>
    mem \<Rightarrow> (bool \<times> 's pb_istream \<times> mem) option" where
  "allocate_field alloc s p dsize asize m = do {
     ptr \<leftarrow> load_ptr m p;
     if dsize = 0 \<or> asize = 0 then Some (False, is_set_error ''invalid size'' s, m)
     else let check_limit = push_bit 32 1 in
       if (check_limit \<le> dsize \<or> check_limit \<le> asize) \<and>
          - 1 div asize < dsize
       then Some (False, is_set_error ''size too large'' s, m)
       else do {
         (ptr', m') \<leftarrow> heap_realloc alloc m ptr (unat (asize * dsize));
         if ptr' = 0 then Some (False, is_set_error ''realloc failed'' s, m')
         else do {
           m'' \<leftarrow> store_ptr m' p ptr';
           Some (True, s, m'') } } }"

text \<open>The common end of the three integer decoders: store, then compare.\<close>

definition store_checked :: "'s pb_istream \<Rightarrow> u64 option \<Rightarrow> u64 \<Rightarrow> u32 \<Rightarrow> nat \<Rightarrow> mem \<Rightarrow>
    (bool \<times> 's pb_istream \<times> mem) option" where
  "store_checked s clamped v n dest m =
     (case clamped of
        None \<Rightarrow> Some (False, is_set_error ''invalid data_size'' s, m)
      | Some c \<Rightarrow> do {
          m' \<leftarrow> store_uint m dest (unat n) c;
          if c \<noteq> v then Some (False, is_set_error ''integer too large'' s, m')
          else Some (True, s, m') })"

definition pb_dec_varint :: "'s pb_istream \<Rightarrow> pb_field \<Rightarrow> nat \<Rightarrow> mem \<Rightarrow>
    (bool \<times> 's pb_istream \<times> mem) option" where
  "pb_dec_varint s f dest m = do {
     (r, s') \<leftarrow> pb_decode_varint s;
     case r of
       None \<Rightarrow> Some (False, s', m)
     | Some v \<Rightarrow>
         let svalue = (if data_size f = 8 then v else scast (ucast v :: u32))
         in store_checked s' (int_cast (data_size f) svalue) svalue (data_size f) dest m }"

definition pb_dec_uvarint :: "'s pb_istream \<Rightarrow> pb_field \<Rightarrow> nat \<Rightarrow> mem \<Rightarrow>
    (bool \<times> 's pb_istream \<times> mem) option" where
  "pb_dec_uvarint s f dest m = do {
     (r, s') \<leftarrow> pb_decode_varint s;
     case r of
       None \<Rightarrow> Some (False, s', m)
     | Some v \<Rightarrow> store_checked s' (uint_cast (data_size f) v) v (data_size f) dest m }"

definition pb_dec_svarint :: "'s pb_istream \<Rightarrow> pb_field \<Rightarrow> nat \<Rightarrow> mem \<Rightarrow>
    (bool \<times> 's pb_istream \<times> mem) option" where
  "pb_dec_svarint s f dest m = do {
     (r, s') \<leftarrow> pb_decode_svarint s;
     case r of
       None \<Rightarrow> Some (False, s', m)
     | Some v \<Rightarrow> store_checked s' (int_cast (data_size f) v) v (data_size f) dest m }"

definition pb_dec_fixed32 :: "'s pb_istream \<Rightarrow> pb_field \<Rightarrow> nat \<Rightarrow> mem \<Rightarrow>
    (bool \<times> 's pb_istream \<times> mem) option" where
  "pb_dec_fixed32 s f dest m = pb_decode_fixed32 s dest m"

definition pb_dec_fixed64 :: "'s pb_istream \<Rightarrow> pb_field \<Rightarrow> nat \<Rightarrow> mem \<Rightarrow>
    (bool \<times> 's pb_istream \<times> mem) option" where
  "pb_dec_fixed64 s f dest m = pb_decode_fixed64 s dest m"

definition pb_dec_bytes :: "(mem \<Rightarrow> nat \<Rightarrow> nat option) \<Rightarrow> 's pb_istream \<Rightarrow> pb_field \<Rightarrow> nat \<Rightarrow> mem \<Rightarrow>
    (bool \<times> 's pb_istream \<times> mem) option" where
  "pb_dec_bytes alloc s f dest m = do {
     (r, s') \<leftarrow> pb_decode_varint32 s;
     case r of
       None \<Rightarrow> Some (False, s', m)
     | Some len \<Rightarrow>
         if PB_SIZE_MAX < len then Some (False, is_set_error ''bytes overflow'' s', m)
         else
           let alloc_size = PB_BYTES_ARRAY_T_ALLOCSIZE len;
               fill = (\<lambda>s bdest m. do {
                 m' \<leftarrow> store_uint m bdest 4 (ucast len);
                 pb_read_to s (bdest + pb_bytes_offset) (ucast len) m' })
           in if alloc_size < ucast len then Some (False, is_set_error ''size too large'' s', m)
              else if PB_ATYPE (ftype f) = PB_ATYPE_POINTER then do {
                (ok, s'', m') \<leftarrow> allocate_field alloc s' dest alloc_size 1 m;
                if \<not> ok then Some (False, s'', m')
                else do { bdest \<leftarrow> load_ptr m' dest; fill s'' bdest m' } }
              else if ucast (data_size f) < alloc_size
                then Some (False, is_set_error ''bytes overflow'' s', m)
              else fill s' dest m }"

definition pb_dec_string :: "(mem \<Rightarrow> nat \<Rightarrow> nat option) \<Rightarrow> 's pb_istream \<Rightarrow> pb_field \<Rightarrow> nat \<Rightarrow> mem \<Rightarrow>
    (bool \<times> 's pb_istream \<times> mem) option" where
  "pb_dec_string alloc s f dest m = do {
     (r, s') \<leftarrow> pb_decode_varint32 s;
     case r of
       None \<Rightarrow> Some (False, s', m)
     | Some len \<Rightarrow>
         let alloc_size = ucast (len + 1) :: u64;
             fill = (\<lambda>s dest m. do {
               (status, s'', m') \<leftarrow> pb_read_to s dest (ucast len) m;
               m'' \<leftarrow> store_bytes m' (dest + unat len) [0];
               Some (status, s'', m'') })
         in if alloc_size < ucast len then Some (False, is_set_error ''size too large'' s', m)
            else if PB_ATYPE (ftype f) = PB_ATYPE_POINTER then do {
              (ok, s'', m') \<leftarrow> allocate_field alloc s' dest alloc_size 1 m;
              if \<not> ok then Some (False, s'', m')
              else do { dest' \<leftarrow> load_ptr m' dest; fill s'' dest' m' } }
            else if ucast (data_size f) < alloc_size
              then Some (False, is_set_error ''string overflow'' s', m)
            else fill s' dest m }"

definition pb_dec_fixed_length_bytes :: "'s pb_istream \<Rightarrow> pb_field \<Rightarrow> nat \<Rightarrow> mem \<Rightarrow>
    (bool \<times> 's pb_istream \<times> mem) option" where
  "pb_dec_fixed_length_bytes s f dest m = do {
     (r, s') \<leftarrow> pb_decode_varint32 s;
     case r of
       None \<Rightarrow> Some (False, s', m)
     | Some len \<Rightarrow>
         if PB_SIZE_MAX < len then Some (False, is_set_error ''bytes overflow'' s', m)
         else if len = 0 then do {
           m' \<leftarrow> memset_zero m dest (unat (data_size f));
           Some (True, s', m') }
         else if len \<noteq> data_size f
           then Some (False, is_set_error ''incorrect fixed length bytes size'' s', m)
         else pb_read_to s' dest (ucast (data_size f)) m }"

subsection \<open>Static fields: returns, and changes only the field's bytes\<close>

text \<open>\<open>safe ok av s m dest n res\<close>: the call returns, leaves a well-formed stream, and changed
  memory only in the \<open>n\<close> bytes at \<open>dest\<close>.\<close>

definition safe :: "('s in_source \<Rightarrow> bool) \<Rightarrow> ('s in_source \<Rightarrow> nat) \<Rightarrow> 's pb_istream \<Rightarrow> mem \<Rightarrow>
    nat \<Rightarrow> nat \<Rightarrow> (bool \<times> 's pb_istream \<times> mem) option \<Rightarrow> bool" where
  "safe ok av s m dest n res \<longleftrightarrow>
     (\<exists>fl s' m'. res = Some (fl, s', m') \<and> reads ok av s s' \<and> frame_only m m' dest n)"

lemma safeI:
  "reads ok av s s' \<Longrightarrow> frame_only m m' dest n \<Longrightarrow> safe ok av s m dest n (Some (fl, s', m'))"
  by (auto simp: safe_def)

lemma safeE:
  assumes "safe ok av s m dest n res"
  obtains fl s' m' where "res = Some (fl, s', m')" "reads ok av s s'" "frame_only m m' dest n"
  using assms by (auto simp: safe_def)

lemma safe_step:
  "reads ok av s s' \<Longrightarrow> safe ok av s' m dest n res \<Longrightarrow> safe ok av s m dest n res"
  by (auto simp: safe_def intro: reads_trans)

lemma safe_after:
  "reads ok av s s' \<Longrightarrow> frame_only m m' dest n \<Longrightarrow> safe ok av s' m' dest n res \<Longrightarrow>
   safe ok av s m dest n res"
  by (auto simp: safe_def intro: reads_trans frame_only_trans)

lemma safe_mono:
  "safe ok av s m a k res \<Longrightarrow> dest \<le> a \<Longrightarrow> a + k \<le> dest + n \<Longrightarrow> safe ok av s m dest n res"
  by (auto simp: safe_def intro: frame_only_mono)

lemma safe_error: "stream_in ok av s \<Longrightarrow> safe ok av s m dest n (Some (False, is_set_error e s, m))"
  by (rule safeI) (simp_all add: reads_refl)

lemma store_checked_safe:
  assumes "stream_in ok av s" "valid_range m dest (unat n)"
  shows "safe ok av s m dest (unat n) (store_checked s c v n dest m)"
proof (cases c)
  case None
  with assms show ?thesis by (simp add: store_checked_def safe_error)
next
  case (Some w)
  from assms(2) obtain m' where "store_uint m dest (unat n) w = Some m'" "frame_only m m' dest (unat n)"
    by (rule store_uint_ok)
  with Some assms(1) show ?thesis
    by (auto simp: store_checked_def safe_def intro: reads_refl)
qed

context input_source
begin

lemma read_to_safe:
  assumes s: "stream_in src_ok avail s" and v: "valid_range m buf (unat n)"
  shows "safe src_ok avail s m buf (unat n) (pb_read_to s buf n m)"
proof -
  from s obtain good bs s' where r: "pb_read s False n = Some (good, bs, s')"
    and a: "reads src_ok avail s s'" and len: "length bs \<le> unat n"
    by (rule read_reads [where null = False and n = n]) blast
  from v len have "valid_range m buf (length bs)" by (rule_tac valid_range_mono) auto
  then obtain m' where "store_bytes m buf bs = Some m'" "frame_only m m' buf (length bs)"
    by (rule store_bytes_ok)
  moreover from this(2) len have "frame_only m m' buf (unat n)" by (rule_tac frame_only_mono) auto
  ultimately show ?thesis using r a
    by (auto simp: pb_read_to_def safe_def)
qed

lemma dec_varint_safe:
  assumes "stream_in src_ok avail s" "valid_range m dest (unat (data_size f))"
  shows "safe src_ok avail s m dest (unat (data_size f)) (pb_dec_varint s f dest m)"
    "safe src_ok avail s m dest (unat (data_size f)) (pb_dec_uvarint s f dest m)"
    "safe src_ok avail s m dest (unat (data_size f)) (pb_dec_svarint s f dest m)"
proof -
  note follow = safe_step [OF _ store_checked_safe [OF _ assms(2)]]
  show "safe src_ok avail s m dest (unat (data_size f)) (pb_dec_varint s f dest m)"
    using varint_yields [OF assms(1)]
    by (rule yieldsE)
      (auto simp: pb_dec_varint_def Let_def intro!: follow safeI intro: reads_ok
          split: option.split split del: if_split)
  show "safe src_ok avail s m dest (unat (data_size f)) (pb_dec_uvarint s f dest m)"
    using varint_yields [OF assms(1)]
    by (rule yieldsE)
      (auto simp: pb_dec_uvarint_def intro!: follow safeI intro: reads_ok
          split: option.split split del: if_split)
  show "safe src_ok avail s m dest (unat (data_size f)) (pb_dec_svarint s f dest m)"
    using svarint_yields [OF assms(1)]
    by (rule yieldsE)
      (auto simp: pb_dec_svarint_def intro!: follow safeI intro: reads_ok
          split: option.split split del: if_split)
qed

lemma dec_fixed_safe:
  assumes s: "stream_in src_ok avail s"
  shows "valid_range m dest 4 \<Longrightarrow> safe src_ok avail s m dest 4 (pb_dec_fixed32 s f dest m)"
    and "valid_range m dest 8 \<Longrightarrow> safe src_ok avail s m dest 8 (pb_dec_fixed64 s f dest m)"
proof -
  assume v: "valid_range m dest 4"
  from s obtain good bs s' where r: "pb_read s False 4 = Some (good, bs, s')"
    and a: "reads src_ok avail s s'" and len: "good \<Longrightarrow> \<not> False \<Longrightarrow> length bs = unat (4 :: u64)"
    by (rule read_reads [where null = False and n = 4]) blast
  from v obtain m' where "store_uint m dest 4 (ucast (fixed32_value bs)) = Some m'"
    "frame_only m m' dest 4" by (rule store_uint_ok)
  with r a len show "safe src_ok avail s m dest 4 (pb_dec_fixed32 s f dest m)"
    by (cases good) (auto simp: pb_dec_fixed32_def pb_decode_fixed32_def intro!: safeI)
next
  assume v: "valid_range m dest 8"
  from s obtain good bs s' where r: "pb_read s False 8 = Some (good, bs, s')"
    and a: "reads src_ok avail s s'" and len: "good \<Longrightarrow> \<not> False \<Longrightarrow> length bs = unat (8 :: u64)"
    by (rule read_reads [where null = False and n = 8]) blast
  from v obtain m' where "store_uint m dest 8 (fixed64_value bs) = Some m'"
    "frame_only m m' dest 8" by (rule store_uint_ok)
  with r a len show "safe src_ok avail s m dest 8 (pb_dec_fixed64 s f dest m)"
    by (cases good) (auto simp: pb_dec_fixed64_def pb_decode_fixed64_def intro!: safeI)
qed

lemma dec_bytes_safe:
  assumes s: "stream_in src_ok avail s" and v: "valid_range m dest (unat (data_size f))"
    and static: "PB_ATYPE (ftype f) \<noteq> PB_ATYPE_POINTER"
  shows "safe src_ok avail s m dest (unat (data_size f)) (pb_dec_bytes alloc s f dest m)"
  using varint32_yields [OF s]
proof (rule yieldsE)
  fix r s' assume d: "pb_decode_varint32 s = Some (r, s')" and a: "reads src_ok avail s s'"
  from a have s': "stream_in src_ok avail s'" by (rule reads_ok)
  show ?thesis
  proof (cases r)
    case None
    with d a show ?thesis by (simp add: pb_dec_bytes_def safeI)
  next
    case (Some len)
    have "unat len + 4 < 18446744073709551616" using unat_u32_less [of len] by linarith
    then have alloc: "unat (PB_BYTES_ARRAY_T_ALLOCSIZE len) = unat len + 4"
      by (simp add: PB_BYTES_ARRAY_T_ALLOCSIZE_def pb_bytes_offset_def unat_word_ariths)
    show ?thesis
    proof (cases "ucast (data_size f) < PB_BYTES_ARRAY_T_ALLOCSIZE len")
      case True
      with d a Some s' static show ?thesis
        by (auto simp: pb_dec_bytes_def Let_def intro!: safe_step [OF a] safe_error)
    next
      case False
      then have le: "4 + unat len \<le> unat (data_size f)" by (simp add: word_less_nat_alt alloc)
      with v have "valid_range m dest 4" by (rule_tac valid_range_mono) auto
      then obtain m1 where st: "store_uint m dest 4 (ucast len) = Some m1" and f1: "frame_only m m1 dest 4"
        by (rule store_uint_ok)
      from v le have "valid_range m1 (dest + 4) (unat (ucast len :: u64))"
        by (simp add: frame_only_valid [OF f1]) (rule valid_range_mono, auto)
      then have "safe src_ok avail s' m1 (dest + 4) (unat (ucast len :: u64))
          (pb_read_to s' (dest + 4) (ucast len) m1)" by (rule read_to_safe [OF s'])
      then have "safe src_ok avail s' m1 dest (unat (data_size f)) (pb_read_to s' (dest + 4) (ucast len) m1)"
        by (rule safe_mono) (use le in auto)
      moreover have "frame_only m m1 dest (unat (data_size f))" using f1 by (rule frame_only_mono) (use le in auto)
      ultimately have "safe src_ok avail s m dest (unat (data_size f))
          (pb_read_to s' (dest + 4) (ucast len) m1)"
        by (intro safe_after [OF a])
      with d Some False static st s' a show ?thesis
        by (auto simp: pb_dec_bytes_def Let_def pb_bytes_offset_def intro!: safe_step [OF a] safe_error)
    qed
  qed
qed

lemma dec_string_safe:
  assumes s: "stream_in src_ok avail s" and v: "valid_range m dest (unat (data_size f))"
    and static: "PB_ATYPE (ftype f) \<noteq> PB_ATYPE_POINTER"
  shows "safe src_ok avail s m dest (unat (data_size f)) (pb_dec_string alloc s f dest m)"
  using varint32_yields [OF s]
proof (rule yieldsE)
  fix r s' assume d: "pb_decode_varint32 s = Some (r, s')" and a: "reads src_ok avail s s'"
  from a have s': "stream_in src_ok avail s'" by (rule reads_ok)
  show ?thesis
  proof (cases r)
    case None
    with d a show ?thesis by (simp add: pb_dec_string_def safeI)
  next
    case (Some len)
    show ?thesis
    proof (cases "(ucast (len + 1) :: u64) < ucast len \<or> ucast (data_size f) < (ucast (len + 1) :: u64)")
      case True
      with d a Some s' static show ?thesis
        by (auto simp: pb_dec_string_def Let_def intro!: safe_step [OF a] safe_error)
    next
      case False
      then have ge: "unat len \<le> unat (len + 1)" and le: "unat (len + 1) \<le> unat (data_size f)"
        by (simp_all add: word_less_nat_alt)
      from ge have "unat (len + 1) = Suc (unat len)" by (auto simp: unat_word_ariths mod_Suc)
      with le have le: "unat len + 1 \<le> unat (data_size f)" by simp
      with v have "valid_range m dest (unat (ucast len :: u64))" by (simp, rule_tac valid_range_mono) auto
      then have "safe src_ok avail s' m dest (unat (ucast len :: u64)) (pb_read_to s' dest (ucast len) m)"
        by (rule read_to_safe [OF s'])
      then have "safe src_ok avail s' m dest (unat (data_size f)) (pb_read_to s' dest (ucast len) m)"
        by (rule safe_mono) (use le in auto)
      then obtain fl s2 m2 where rd: "pb_read_to s' dest (ucast len) m = Some (fl, s2, m2)"
        and fo: "reads src_ok avail s' s2" and f2: "frame_only m m2 dest (unat (data_size f))"
        by (rule safeE)
      from v le have "valid_range m2 (dest + unat len) (length [0 :: u8])"
        by (simp add: frame_only_valid [OF f2]) (rule valid_range_mono, auto)
      then obtain m3 where st: "store_bytes m2 (dest + unat len) [0] = Some m3"
        and "frame_only m2 m3 (dest + unat len) (length [0 :: u8])" by (rule store_bytes_ok)
      from this(2) have "frame_only m2 m3 dest (unat (data_size f))"
        by (rule frame_only_mono) (use le in auto)
      with f2 have "frame_only m m3 dest (unat (data_size f))" by (rule frame_only_trans)
      with d Some False static rd st reads_trans [OF a fo] show ?thesis
        by (simp add: pb_dec_string_def Let_def safeI del: store_bytes.simps)
    qed
  qed
qed

lemma dec_fixed_length_bytes_safe:
  assumes s: "stream_in src_ok avail s" and v: "valid_range m dest (unat (data_size f))"
  shows "safe src_ok avail s m dest (unat (data_size f)) (pb_dec_fixed_length_bytes s f dest m)"
  using varint32_yields [OF s]
proof (rule yieldsE)
  fix r s' assume d: "pb_decode_varint32 s = Some (r, s')" and a: "reads src_ok avail s s'"
  from a have s': "stream_in src_ok avail s'" by (rule reads_ok)
  from v obtain m' where "memset_zero m dest (unat (data_size f)) = Some m'"
    "frame_only m m' dest (unat (data_size f))" by (rule memset_zero_ok)
  moreover have "safe src_ok avail s' m dest (unat (data_size f)) (pb_read_to s' dest (ucast (data_size f)) m)"
    using read_to_safe [OF s', of m dest "ucast (data_size f)"] v by simp
  ultimately show ?thesis using d a s'
    by (cases r)
      (auto simp: pb_dec_fixed_length_bytes_def intro!: safe_step [OF a] safe_error intro: safeI reads_refl)
qed

end

end
