(* ===== verification/PbOstream.thy ===== *)
theory PbOstream
  imports PbTypes
begin

text \<open>
  The output streams of \<open>pb_encode.c\<close>: \<open>buf_write\<close>, \<open>pb_ostream_from_buffer\<close>, \<open>pb_write\<close>,
  and the interface \<open>byte_sink\<close> under which the encoders are proved: a sink that takes bytes
  while it has room.  It is interpreted on memory buffers and on a user callback that collects
  into a list.
\<close>

subsection \<open>Operations\<close>

text \<open>What a \<open>const pb_byte_t *buf\<close> argument points to: nothing, a local array, or C memory.
  It is read only when bytes are really written.\<close>

datatype c_buf = BufNull | BufLocal "u8 list" | BufMem nat

definition fetch_buf :: "mem \<Rightarrow> c_buf \<Rightarrow> nat \<Rightarrow> u8 list option" where
  "fetch_buf m buf n =
     (case buf of
        BufNull \<Rightarrow> if n = 0 then Some [] else None
      | BufLocal bs \<Rightarrow> if n \<le> length bs then Some (take n bs) else None
      | BufMem a \<Rightarrow> load_bytes m a n)"

definition buf_write :: "u8 list \<Rightarrow> nat \<Rightarrow> u8 list \<Rightarrow> (bool \<times> 's out_sink) option" where
  "buf_write out room bs =
     (if room < length bs then None
      else Some (True, BufWrite (out @ bs) (room - length bs)))"

definition call_write :: "'s out_sink \<Rightarrow> u8 list \<Rightarrow> (bool \<times> 's out_sink) option" where
  "call_write sk bs =
     (case sk of
        Sizing \<Rightarrow> None
      | BufWrite out room \<Rightarrow> buf_write out room bs
      | UserWrite f st \<Rightarrow> (case f st bs of (ok, st') \<Rightarrow> Some (ok, UserWrite f st')))"

definition pb_ostream_from_buffer :: "nat \<Rightarrow> u64 \<Rightarrow> 's pb_ostream" where
  "pb_ostream_from_buffer object_size bufsize =
     \<lparr>sink = BufWrite [] object_size, max_size = bufsize, bytes_written = 0, os_errmsg = None\<rparr>"

definition pb_write :: "'s pb_ostream \<Rightarrow> mem \<Rightarrow> c_buf \<Rightarrow> u64 \<Rightarrow>
    (bool \<times> 's pb_ostream) option" where
  "pb_write s m buf count =
     (if sink s \<noteq> Sizing then
        if max_size s < bytes_written s + count
        then Some (False, os_set_error ''stream full'' s)
        else do {
          bs \<leftarrow> fetch_buf m buf (unat count);
          (ok, sk) \<leftarrow> call_write (sink s) bs;
          let s' = s\<lparr>sink := sk\<rparr>;
          if \<not> ok then Some (False, os_set_error ''io error'' s')
          else Some (True, s'\<lparr>bytes_written := bytes_written s' + count\<rparr>) }
      else Some (True, s\<lparr>bytes_written := bytes_written s + count\<rparr>))"

subsection \<open>The interface: a sink with room\<close>

locale byte_sink =
  fixes sink_ok :: "'s out_sink \<Rightarrow> bool"
    and room :: "'s out_sink \<Rightarrow> nat"
    and put :: "u8 list \<Rightarrow> 's out_sink \<Rightarrow> 's out_sink"
  assumes call_write_ok:
      "sink_ok sk \<Longrightarrow> length bs \<le> room sk \<Longrightarrow> call_write sk bs = Some (True, put bs sk)"
    and sink_ok_put: "sink_ok sk \<Longrightarrow> sink_ok (put bs sk)"
    and room_put: "sink_ok sk \<Longrightarrow> room sk - length bs \<le> room (put bs sk)"
    and put_Nil: "sink_ok sk \<Longrightarrow> put [] sk = sk"
    and put_put: "sink_ok sk \<Longrightarrow> put cs (put bs sk) = put (bs @ cs) sk"
    and sink_not_sizing: "sink_ok sk \<Longrightarrow> sk \<noteq> Sizing"

text \<open>A stream after writing \<open>bs\<close> (a sizing stream only counts), the streams for which writing
  is defined, and whether \<open>n\<close> more bytes fit.\<close>

definition push :: "(u8 list \<Rightarrow> 's out_sink \<Rightarrow> 's out_sink) \<Rightarrow> u8 list \<Rightarrow> 's pb_ostream \<Rightarrow>
    's pb_ostream" where
  "push put bs s =
     s\<lparr>sink := (if sink s = Sizing then Sizing else put bs (sink s)),
       bytes_written := bytes_written s + of_nat (length bs)\<rparr>"

definition out_ok :: "('s out_sink \<Rightarrow> bool) \<Rightarrow> ('s out_sink \<Rightarrow> nat) \<Rightarrow> 's pb_ostream \<Rightarrow> bool" where
  "out_ok ok rm s \<longleftrightarrow>
     os_errmsg s = None \<and>
     (sink s = Sizing \<or>
     ok (sink s) \<and> bytes_written s \<le> max_size s \<and>
     unat (max_size s) - unat (bytes_written s) \<le> rm (sink s))"

definition fits :: "'s pb_ostream \<Rightarrow> nat \<Rightarrow> bool" where
  "fits s n \<longleftrightarrow> sink s = Sizing \<or> unat (bytes_written s) + n \<le> unat (max_size s)"

text \<open>\<open>small s n\<close>: where bytes are really written, their count stays a \<open>size_t\<close>.\<close>

definition small :: "'s pb_ostream \<Rightarrow> nat \<Rightarrow> bool" where
  "small s n \<longleftrightarrow> sink s = Sizing \<or> unat (bytes_written s) + n < 2 ^ 64"

text \<open>\<open>runs put s bs good res\<close>: what a call does that has \<open>bs\<close> to write and then succeeds or,
  when \<open>good\<close> is false, finds an error.  When \<open>bs\<close> does not fit, only a shorter prefix is
  written, and the call returns false.\<close>

definition runs :: "(u8 list \<Rightarrow> 's out_sink \<Rightarrow> 's out_sink) \<Rightarrow> 's pb_ostream \<Rightarrow> u8 list \<Rightarrow> bool \<Rightarrow>
    (bool \<times> 's pb_ostream) option \<Rightarrow> bool" where
  "runs put s bs good res \<longleftrightarrow>
     (if fits s (length bs)
      then if good then res = Some (True, push put bs s)
           else \<exists>e. res = Some (False, (push put bs s)\<lparr>os_errmsg := e\<rparr>)
      else \<exists>n e. n < length bs \<and> fits s n \<and>
        res = Some (False, (push put (take n bs) s)\<lparr>os_errmsg := e\<rparr>))"

abbreviation emits :: "(u8 list \<Rightarrow> 's out_sink \<Rightarrow> 's out_sink) \<Rightarrow> 's pb_ostream \<Rightarrow> u8 list \<Rightarrow>
    (bool \<times> 's pb_ostream) option \<Rightarrow> bool" where
  "emits put s bs res \<equiv> runs put s bs True res"

lemma small_mono: "small s n \<Longrightarrow> k \<le> n \<Longrightarrow> small s k"
  by (auto simp: small_def)

lemma push_simps [simp]:
  "max_size (push put bs s) = max_size s"
  "os_errmsg (push put bs s) = os_errmsg s"
  "bytes_written (push put bs s) = bytes_written s + of_nat (length bs)"
  "sink (push put bs s) = Sizing \<longleftrightarrow> sink s = Sizing \<or> put bs (sink s) = Sizing"
  by (simp_all add: push_def)

lemma small_push: "small s (length bs + n) \<Longrightarrow> small (push put bs s) n"
proof (cases "sink s = Sizing")
  case True
  then show ?thesis by (simp add: small_def push_def)
next
  case False
  assume "small s (length bs + n)"
  with False have s: "unat (bytes_written s) + (length bs + n) < 2 ^ 64" by (simp add: small_def)
  then have "unat (of_nat (unat (bytes_written s) + length bs) :: u64) = unat (bytes_written s) + length bs"
    by (intro unat_of_nat_u64) simp
  then have "unat (bytes_written s + of_nat (length bs)) = unat (bytes_written s) + length bs" by simp
  with s show ?thesis by (simp add: small_def push_def)
qed

lemma fits_mono: "fits s n \<Longrightarrow> k \<le> n \<Longrightarrow> fits s k"
  by (auto simp: fits_def)

lemma fits_0: "out_ok ok rm s \<Longrightarrow> fits s 0"
  by (auto simp: fits_def out_ok_def word_le_nat_alt)

lemma fits_of_nat:
  "fits s n \<Longrightarrow> sink s \<noteq> Sizing \<Longrightarrow> unat (bytes_written s + of_nat n) = unat (bytes_written s) + n"
proof -
  assume "fits s n" "sink s \<noteq> Sizing"
  then have "unat (bytes_written s) + n < 2 ^ 64"
    using le_less_trans [OF _ unat_u64_less [of "max_size s"]] by (simp add: fits_def)
  then have "unat (of_nat (unat (bytes_written s) + n) :: u64) = unat (bytes_written s) + n"
    by (intro unat_of_nat_u64)
  then show ?thesis by simp
qed

context byte_sink
begin

lemma push_Nil: "out_ok sink_ok room s \<Longrightarrow> push put [] s = s"
  by (cases s) (auto simp: push_def out_ok_def put_Nil)

lemma push_push:
  "out_ok sink_ok room s \<Longrightarrow> push put cs (push put bs s) = push put (bs @ cs) s"
  by (auto simp: push_def out_ok_def put_put sink_not_sizing sink_ok_put add.assoc)

lemma push_ok:
  assumes "out_ok sink_ok room s" "fits s (length bs)"
  shows "out_ok sink_ok room (push put bs s)"
proof (cases "sink s = Sizing")
  case True
  with assms(1) show ?thesis by (simp add: out_ok_def push_def)
next
  case False
  with assms(1) have ok: "sink_ok (sink s)" and e: "os_errmsg s = None"
    and r: "unat (max_size s) - unat (bytes_written s) \<le> room (sink s)" by (auto simp: out_ok_def)
  from fits_of_nat [OF assms(2) False] have u:
    "unat (bytes_written s + of_nat (length bs)) = unat (bytes_written s) + length bs" .
  from False assms(2) have "unat (bytes_written s) + length bs \<le> unat (max_size s)"
    by (simp add: fits_def)
  moreover from r room_put [OF ok, of bs]
  have "unat (max_size s) - (unat (bytes_written s) + length bs) \<le> room (put bs (sink s))" by simp
  ultimately show ?thesis using False ok u e
    by (simp add: out_ok_def push_def sink_ok_put word_le_nat_alt)
qed

lemma fits_push:
  assumes "out_ok sink_ok room s" "fits s (length bs)"
  shows "fits (push put bs s) n \<longleftrightarrow> fits s (length bs + n)"
proof (cases "sink s = Sizing")
  case True
  then show ?thesis by (simp add: fits_def push_def)
next
  case False
  with assms(1) have ok: "sink_ok (sink s)" by (simp add: out_ok_def)
  with False sink_not_sizing [OF sink_ok_put [OF ok]] fits_of_nat [OF assms(2) False]
  show ?thesis by (simp add: fits_def add.assoc)
qed

lemma runs_full:
  assumes ok: "out_ok sink_ok room s" and full: "\<not> fits s (length bs)"
  shows "runs put s bs good (Some (False, os_set_error msg s))"
proof -
  from full fits_0 [OF ok] have "0 < length bs" by (cases bs) auto
  moreover have "os_set_error msg s = (push put (take 0 bs) s)\<lparr>os_errmsg := Some msg\<rparr>"
    using ok by (simp add: push_Nil [OF ok] os_set_error_def out_ok_def)
  ultimately show ?thesis using fits_0 [OF ok]
    unfolding runs_def if_not_P [OF full]
    by (intro exI [of _ "0::nat"] exI [of _ "Some msg"]) simp
qed

lemma pb_write_emits:
  assumes ok: "out_ok sink_ok room s" and buf: "sink s \<noteq> Sizing \<Longrightarrow> fetch_buf m buf (length bs) = Some bs"
    and small: "small s (length bs)"
  shows "emits put s bs (pb_write s m buf (of_nat (length bs)))"
proof (cases "sink s = Sizing")
  case True
  then show ?thesis by (simp add: runs_def fits_def pb_write_def push_def)
next
  case False
  with ok have sok: "sink_ok (sink s)"
    and r: "unat (max_size s) - unat (bytes_written s) \<le> room (sink s)" by (auto simp: out_ok_def)
  have "unat (of_nat (unat (bytes_written s) + length bs) :: u64) = unat (bytes_written s) + length bs"
    using small False by (intro unat_of_nat_u64) (simp add: small_def)
  then have u: "unat (bytes_written s + of_nat (length bs)) = unat (bytes_written s) + length bs" by simp
  have len: "unat (of_nat (length bs) :: u64) = length bs"
    using small False by (intro unat_of_nat_u64) (simp add: small_def)
  show ?thesis
  proof (cases "fits s (length bs)")
    case True
    with False r have "length bs \<le> room (sink s)" by (simp add: fits_def)
    from call_write_ok [OF sok this] True False u len buf show ?thesis
      by (auto simp: runs_def fits_def pb_write_def push_def word_less_nat_alt)
  next
    case notfit: False
    have "pb_write s m buf (of_nat (length bs)) = Some (False, os_set_error ''stream full'' s)"
      using notfit False u by (simp add: fits_def pb_write_def word_less_nat_alt)
    then show ?thesis using runs_full [OF ok notfit] by simp
  qed
qed

text \<open>Nothing to write, or an error before anything is written.\<close>

lemma runs_Nil: "out_ok sink_ok room s \<Longrightarrow> runs put s [] True (Some (True, s))"
  using fits_0 [of sink_ok room s] by (simp add: runs_def push_Nil)

lemma runs_error: "out_ok sink_ok room s \<Longrightarrow> runs put s [] False (Some (False, os_set_error msg s))"
  using fits_0 [of sink_ok room s]
  by (auto simp: runs_def push_Nil out_ok_def os_set_error_def)

lemma runs_errmsg: "out_ok sink_ok room s \<Longrightarrow> runs put s [] False (Some (False, s\<lparr>os_errmsg := e\<rparr>))"
  using fits_0 [of sink_ok room s] by (auto simp: runs_def push_Nil)

text \<open>Two calls in a row, the second only when the first succeeded.\<close>

lemma runs_seq:
  assumes ok: "out_ok sink_ok room s" and f: "emits put s bs res"
    and g: "fits s (length bs) \<Longrightarrow> runs put (push put bs s) cs good (g (push put bs s))"
  shows "runs put s (bs @ cs) good (do { (ok, s') \<leftarrow> res; if \<not> ok then Some (False, s') else g s' })"
proof (cases "fits s (length bs)")
  case True
  with f have r: "res = Some (True, push put bs s)" by (simp add: runs_def)
  note fp = fits_push [OF ok True]
  show ?thesis
  proof (cases "fits s (length bs + length cs)")
    case fit: True
    with g [OF True] r fp push_push [OF ok] show ?thesis
      by (auto simp: runs_def split: if_splits)
  next
    case False
    with g [OF True] fp obtain n e where n: "n < length cs" "fits s (length bs + n)" and
      "g (push put bs s) = Some (False, (push put (take n cs) (push put bs s))\<lparr>os_errmsg := e\<rparr>)"
      by (auto simp: runs_def)
    with r False push_push [OF ok] show ?thesis
      by (auto simp: runs_def intro!: exI [of _ "length bs + n"])
  qed
next
  case False
  with f obtain n e where n: "n < length bs" "fits s n"
    "res = Some (False, (push put (take n bs) s)\<lparr>os_errmsg := e\<rparr>)"
    by (auto simp: runs_def)
  moreover from False have "\<not> fits s (length (bs @ cs))" using fits_mono by fastforce
  ultimately show ?thesis by (auto simp: runs_def intro!: exI [of _ n])
qed

lemma runs_stop:
  assumes "runs put s bs False res"
  shows "runs put s bs False (do { (ok, s') \<leftarrow> res; if \<not> ok then Some (False, s') else g s' })"
  using assms by (auto simp: runs_def split: if_splits) blast

end

subsection \<open>Memory buffers\<close>

definition buf_sink_ok :: "'s out_sink \<Rightarrow> bool" where
  "buf_sink_ok sk = (case sk of BufWrite _ _ \<Rightarrow> True | _ \<Rightarrow> False)"

definition buf_room :: "'s out_sink \<Rightarrow> nat" where
  "buf_room sk = (case sk of BufWrite _ room \<Rightarrow> room | _ \<Rightarrow> 0)"

definition buf_put :: "u8 list \<Rightarrow> 's out_sink \<Rightarrow> 's out_sink" where
  "buf_put bs sk = (case sk of BufWrite out room \<Rightarrow> BufWrite (out @ bs) (room - length bs) | _ \<Rightarrow> sk)"

interpretation bufw: byte_sink buf_sink_ok buf_room buf_put
  by unfold_locales
    (auto simp: buf_sink_ok_def buf_room_def buf_put_def call_write_def buf_write_def
      split: out_sink.splits)

subsection \<open>A user callback that collects bytes\<close>

definition list_writer :: "u8 list \<Rightarrow> u8 list \<Rightarrow> bool \<times> u8 list" where
  "list_writer out bs = (True, out @ bs)"

definition user_sink_ok :: "u8 list out_sink \<Rightarrow> bool" where
  "user_sink_ok sk = (case sk of UserWrite f _ \<Rightarrow> f = list_writer | _ \<Rightarrow> False)"

definition user_room :: "u8 list out_sink \<Rightarrow> nat" where
  "user_room sk = 2 ^ 64"

definition user_put :: "u8 list \<Rightarrow> u8 list out_sink \<Rightarrow> u8 list out_sink" where
  "user_put bs sk = (case sk of UserWrite f out \<Rightarrow> UserWrite f (out @ bs) | _ \<Rightarrow> sk)"

interpretation userw: byte_sink user_sink_ok user_room user_put
  by unfold_locales
    (auto simp: user_sink_ok_def user_room_def user_put_def call_write_def list_writer_def
      split: out_sink.splits)

lemma pb_ostream_from_buffer_ok [simp]:
  "unat n \<le> k \<Longrightarrow> out_ok buf_sink_ok buf_room (pb_ostream_from_buffer k n)"
  "fits (pb_ostream_from_buffer k n) j \<longleftrightarrow> j \<le> unat n"
  "sink (push buf_put bs (pb_ostream_from_buffer k n)) = BufWrite bs (k - length bs)"
  by (simp_all add: pb_ostream_from_buffer_def out_ok_def fits_def push_def buf_sink_ok_def
      buf_room_def buf_put_def)

lemma sizing_ok [simp]:
  "out_ok ok rm PB_OSTREAM_SIZING" "fits PB_OSTREAM_SIZING n" "sink PB_OSTREAM_SIZING = Sizing"
  "bytes_written PB_OSTREAM_SIZING = 0"
  by (simp_all add: PB_OSTREAM_SIZING_def out_ok_def fits_def)

end
