(* ===== verification/PbEnv.thy ===== *)
theory PbEnv
  imports PbIter PbIstream PbOstream
begin

text \<open>
  What the message coders refer to by address or function pointer, the layouts of
  \<open>pb_extension_t\<close> and \<open>pb_callback_t\<close>, and the accesses through \<open>pSize\<close>.
\<close>

subsection \<open>The environment\<close>

text \<open>A \<open>pb_extension_type_t\<close>: two function pointers (0 is null) and \<open>arg\<close>, of which the
  default handlers ask that it names a field array.\<close>

record pb_extension_type =
  ext_decode :: nat
  ext_encode :: nat
  ext_arg :: nat

text \<open>Field arrays by their number, extension types by their address, the user's callbacks by
  their function pointer, and the allocator.  A callback gets what the C code passes it: the
  stream, the field entry and the address of \<open>arg\<close> (or of the extension).  An encode callback
  reads memory; what it writes goes to the stream.\<close>

record ('s, 'o) pb_env =
  env_fields :: "nat \<Rightarrow> pb_field list"
  env_ext_type :: "nat \<Rightarrow> pb_extension_type option"
  env_decode :: "nat \<Rightarrow> 's pb_istream \<Rightarrow> pb_field \<Rightarrow> nat \<Rightarrow> mem \<Rightarrow>
                   (bool \<times> 's pb_istream \<times> mem) option"
  env_ext_decode :: "nat \<Rightarrow> 's pb_istream \<Rightarrow> nat \<Rightarrow> u32 \<Rightarrow> pb_wire_type \<Rightarrow> mem \<Rightarrow>
                   (bool \<times> 's pb_istream \<times> mem) option"
  env_encode :: "nat \<Rightarrow> 'o pb_ostream \<Rightarrow> pb_field \<Rightarrow> nat \<Rightarrow> mem \<Rightarrow> (bool \<times> 'o pb_ostream) option"
  env_ext_encode :: "nat \<Rightarrow> 'o pb_ostream \<Rightarrow> nat \<Rightarrow> mem \<Rightarrow> (bool \<times> 'o pb_ostream) option"
  env_alloc :: "mem \<Rightarrow> nat \<Rightarrow> nat option"

text \<open>The field array that a \<open>ptr\<close> of a submessage field points to; a null pointer or the
  address of a default value is not one.\<close>

definition sub_fields :: "('s, 'o) pb_env \<Rightarrow> pb_ptr \<Rightarrow> pb_field list option" where
  "sub_fields env p = (case p of PFields k \<Rightarrow> Some (env_fields env k) | _ \<Rightarrow> None)"

subsection \<open>Extensions\<close>

text \<open>\<open>pb_extension_t\<close> is \<open>{ type; dest; next; found; }\<close>.\<close>

definition ext_type_at :: nat where "ext_type_at = 0"
definition ext_dest_at :: nat where "ext_dest_at = 8"
definition ext_next_at :: nat where "ext_next_at = 16"
definition ext_found_at :: nat where "ext_found_at = 24"

definition ext_type_of :: "('s, 'o) pb_env \<Rightarrow> nat \<Rightarrow> mem \<Rightarrow> pb_extension_type option" where
  "ext_type_of env ext m = do { ty \<leftarrow> load_ptr m (ext + ext_type_at); env_ext_type env ty }"

definition iter_from_extension :: "('s, 'o) pb_env \<Rightarrow> nat \<Rightarrow> mem \<Rightarrow> pb_field_iter option" where
  "iter_from_extension env ext m = do {
     et \<leftarrow> ext_type_of env ext m;
     d \<leftarrow> load_ptr m (ext + ext_dest_at);
     let fl = env_fields env (ext_arg et);
     (_, it) \<leftarrow> pb_field_iter_begin fl d;
     f \<leftarrow> nth_opt fl 0;
     Some (it\<lparr>pData := (if PB_ATYPE (ftype f) = PB_ATYPE_POINTER then ext + ext_dest_at else d),
              pSize := SzMem (ext + ext_found_at)\<rparr>) }"

subsection \<open>Access through \<open>pSize\<close>\<close>

text \<open>\<open>*(pb_size_t*)pSize\<close>, where \<open>pSize\<close> is an address or the decoder's own counter, and
  stores of \<open>n\<close> bytes through it.\<close>

definition load_size :: "mem \<Rightarrow> size_loc \<Rightarrow> u32 option" where
  "load_size m loc = (case loc of SzMem a \<Rightarrow> map_option ucast (load_uint m a 4) | SzFixed \<Rightarrow> None)"

definition store_size :: "mem \<Rightarrow> size_loc \<Rightarrow> nat \<Rightarrow> u64 \<Rightarrow> mem option" where
  "store_size m loc n w = (case loc of SzMem a \<Rightarrow> store_uint m a n w | SzFixed \<Rightarrow> None)"

definition load_counter :: "mem \<Rightarrow> u32 \<Rightarrow> size_loc \<Rightarrow> u32 option" where
  "load_counter m fixed loc = (case loc of SzMem _ \<Rightarrow> load_size m loc | SzFixed \<Rightarrow> Some fixed)"

definition store_counter :: "mem \<Rightarrow> u32 \<Rightarrow> size_loc \<Rightarrow> u32 \<Rightarrow> (mem \<times> u32) option" where
  "store_counter m fixed loc v =
     (case loc of
        SzMem _ \<Rightarrow> map_option (\<lambda>m'. (m', fixed)) (store_size m loc 4 (ucast v))
      | SzFixed \<Rightarrow> Some (m, v))"

end
