(* ===== verification/PbDefaults.thy ===== *)
theory PbDefaults
  imports PbEnv
begin

text \<open>
  \<open>pb_field_set_to_default\<close> and \<open>pb_message_set_to_defaults\<close> of \<open>pb_decode.c\<close>.  The first
  argument bounds the nesting of submessages and extensions and the length of a list of
  extensions; at 0 there is no result.
\<close>

subsection \<open>Operations\<close>

primrec extensions_to_default :: "nat \<Rightarrow> ('s, 'o) pb_env \<Rightarrow> (pb_field_iter \<Rightarrow> mem \<Rightarrow> mem option) \<Rightarrow>
    nat \<Rightarrow> mem \<Rightarrow> mem option" where
  "extensions_to_default 0 env field ext m = (if ext = 0 then Some m else None)"
| "extensions_to_default (Suc n) env field ext m =
     (if ext = 0 then Some m
      else do {
        m1 \<leftarrow> store_bytes m (ext + ext_found_at) [0];
        it \<leftarrow> iter_from_extension env ext m1;
        m2 \<leftarrow> field it m1;
        ext' \<leftarrow> load_ptr m2 (ext + ext_next_at);
        extensions_to_default n env field ext' m2 })"

definition message_to_defaults :: "(pb_field_iter \<Rightarrow> mem \<Rightarrow> mem option) \<Rightarrow> pb_field list \<Rightarrow> nat \<Rightarrow>
    mem \<Rightarrow> mem option" where
  "message_to_defaults field fl dest m = do {
     (nonempty, it) \<leftarrow> pb_field_iter_begin fl dest;
     if \<not> nonempty then Some m
     else map_option snd (for_fields (\<lambda>it m. map_option (Pair True) (field it m)) it m) }"

definition init_data :: "('s, 'o) pb_env \<Rightarrow> (pb_field_iter \<Rightarrow> mem \<Rightarrow> mem option) \<Rightarrow> pb_field \<Rightarrow> nat \<Rightarrow>
    mem \<Rightarrow> mem option" where
  "init_data env field f d m =
     (if PB_LTYPE (ftype f) = PB_LTYPE_SUBMESSAGE then do {
        fl \<leftarrow> sub_fields env (fptr f);
        message_to_defaults field fl d m }
      else case fptr f of
        PDefault bs \<Rightarrow>
          if unat (data_size f) \<le> length bs then store_bytes m d (take (unat (data_size f)) bs)
          else None
      | PFields _ \<Rightarrow> None
      | PNull \<Rightarrow> memset_zero m d (unat (data_size f)))"

primrec pb_field_set_to_default :: "nat \<Rightarrow> ('s, 'o) pb_env \<Rightarrow> pb_field_iter \<Rightarrow> mem \<Rightarrow> mem option" where
  "pb_field_set_to_default 0 env it m = None"
| "pb_field_set_to_default (Suc n) env it m = do {
     f \<leftarrow> iter_field it;
     let ty = ftype f;
     if PB_LTYPE ty = PB_LTYPE_EXTENSION then do {
       ext \<leftarrow> load_ptr m (pData it);
       extensions_to_default n env (pb_field_set_to_default n env) ext m }
     else if PB_ATYPE ty = PB_ATYPE_STATIC then
       (if PB_HTYPE ty = PB_HTYPE_OPTIONAL \<and> pSize it \<noteq> SzMem (pData it) then do {
          m1 \<leftarrow> store_size m (pSize it) 1 0;
          init_data env (pb_field_set_to_default n env) f (pData it) m1 }
        else if PB_HTYPE ty = PB_HTYPE_REPEATED \<or> PB_HTYPE ty = PB_HTYPE_ONEOF
          then store_size m (pSize it) 4 0
        else init_data env (pb_field_set_to_default n env) f (pData it) m)
     else if PB_ATYPE ty = PB_ATYPE_POINTER then do {
       m1 \<leftarrow> store_ptr m (pData it) 0;
       if PB_HTYPE ty = PB_HTYPE_REPEATED \<or> PB_HTYPE ty = PB_HTYPE_ONEOF
       then store_size m1 (pSize it) 4 0
       else Some m1 }
     else Some m }"

definition pb_message_set_to_defaults :: "nat \<Rightarrow> ('s, 'o) pb_env \<Rightarrow> pb_field list \<Rightarrow> nat \<Rightarrow> mem \<Rightarrow>
    mem option" where
  "pb_message_set_to_defaults n env = message_to_defaults (pb_field_set_to_default n env)"

end
