(* ===== verification/PbRelease.thy ===== *)
theory PbRelease
  imports PbEnv
begin

text \<open>
  \<open>pb_release\<close>, \<open>pb_release_single_field\<close> and \<open>pb_release_union_field\<close> of \<open>pb_decode.c\<close>.  The
  first argument bounds the nesting and the length of extension lists, as in \<open>PbDefaults\<close>.
\<close>

subsection \<open>Operations\<close>

primrec release_extensions :: "nat \<Rightarrow> ('s, 'o) pb_env \<Rightarrow> (pb_field_iter \<Rightarrow> mem \<Rightarrow> mem option) \<Rightarrow>
    nat \<Rightarrow> mem \<Rightarrow> mem option" where
  "release_extensions 0 env field ext m = (if ext = 0 then Some m else None)"
| "release_extensions (Suc n) env field ext m =
     (if ext = 0 then Some m
      else do {
        it \<leftarrow> iter_from_extension env ext m;
        m1 \<leftarrow> field it m;
        ext' \<leftarrow> load_ptr m1 (ext + ext_next_at);
        release_extensions n env field ext' m1 })"

definition release_message :: "(pb_field_iter \<Rightarrow> mem \<Rightarrow> mem option) \<Rightarrow> pb_field list option \<Rightarrow>
    nat \<Rightarrow> mem \<Rightarrow> mem option" where
  "release_message field flo dest m =
     (if dest = 0 then Some m
      else do {
        fl \<leftarrow> flo;
        (nonempty, it) \<leftarrow> pb_field_iter_begin fl dest;
        if \<not> nonempty then Some m
        else map_option snd (for_fields (\<lambda>it m. map_option (Pair True) (field it m)) it m) })"

text \<open>The loops over the items of a submessage array, and over the entries of an array of
  string or bytes pointers.\<close>

primrec release_items :: "nat \<Rightarrow> (nat \<Rightarrow> mem \<Rightarrow> mem option) \<Rightarrow> nat \<Rightarrow> nat \<Rightarrow> mem \<Rightarrow> mem option" where
  "release_items 0 msg dsize pItem m = Some m"
| "release_items (Suc count) msg dsize pItem m = do {
     m1 \<leftarrow> msg pItem m;
     release_items count msg dsize (pItem + dsize) m1 }"

primrec free_items :: "nat \<Rightarrow> nat \<Rightarrow> mem \<Rightarrow> mem option" where
  "free_items 0 pItem m = Some m"
| "free_items (Suc count) pItem m = do {
     p \<leftarrow> load_ptr m pItem;
     m1 \<leftarrow> heap_free m p;
     m2 \<leftarrow> store_ptr m1 pItem 0;
     free_items count (pItem + 8) m2 }"

text \<open>How many items of a submessage field are released.\<close>

definition release_count :: "pb_field \<Rightarrow> pb_field_iter \<Rightarrow> mem \<Rightarrow> u32 option" where
  "release_count f it m =
     (if PB_HTYPE (ftype f) = PB_HTYPE_REPEATED then do {
        count \<leftarrow> (if PB_ATYPE (ftype f) = PB_ATYPE_STATIC \<and> pSize it = SzMem (pData it)
                  then Some (array_size f) else load_size m (pSize it));
        Some (if PB_ATYPE (ftype f) = PB_ATYPE_STATIC \<and> array_size f < count then array_size f
              else count) }
      else Some 1)"

text \<open>The last part of \<open>pb_release_single_field\<close>, for pointer fields.\<close>

definition release_pointer :: "pb_field \<Rightarrow> pb_field_iter \<Rightarrow> mem \<Rightarrow> mem option" where
  "release_pointer f it m = do {
     let ty = ftype f;
     m1 \<leftarrow> (if PB_HTYPE ty = PB_HTYPE_REPEATED \<and>
               (PB_LTYPE ty = PB_LTYPE_STRING \<or> PB_LTYPE ty = PB_LTYPE_BYTES)
            then do {
              pItem \<leftarrow> load_ptr m (pData it);
              count \<leftarrow> load_size m (pSize it);
              free_items (unat count) pItem m }
            else Some m);
     m2 \<leftarrow> (if PB_HTYPE ty = PB_HTYPE_REPEATED then store_size m1 (pSize it) 4 0 else Some m1);
     p \<leftarrow> load_ptr m2 (pData it);
     m3 \<leftarrow> heap_free m2 p;
     store_ptr m3 (pData it) 0 }"

primrec pb_release_single_field :: "nat \<Rightarrow> ('s, 'o) pb_env \<Rightarrow> pb_field_iter \<Rightarrow> mem \<Rightarrow> mem option" where
  "pb_release_single_field 0 env it m = None"
| "pb_release_single_field (Suc n) env it m = do {
     f \<leftarrow> iter_field it;
     let ty = ftype f;
     current \<leftarrow> (if PB_HTYPE ty = PB_HTYPE_ONEOF
                 then map_option (\<lambda>which. which = tag f) (load_size m (pSize it)) else Some True);
     if \<not> current then Some m
     else do {
       m1 \<leftarrow>
         (if PB_LTYPE ty = PB_LTYPE_EXTENSION then do {
            ext \<leftarrow> load_ptr m (pData it);
            release_extensions n env (pb_release_single_field n env) ext m }
          else if PB_LTYPE ty = PB_LTYPE_SUBMESSAGE then do {
            pItem \<leftarrow> (if PB_ATYPE ty = PB_ATYPE_POINTER then load_ptr m (pData it)
                      else Some (pData it));
            count \<leftarrow> release_count f it m;
            if pItem = 0 then Some m
            else release_items (unat count)
              (release_message (pb_release_single_field n env) (sub_fields env (fptr f)))
              (unat (data_size f)) pItem m }
          else Some m);
       if PB_ATYPE ty = PB_ATYPE_POINTER then release_pointer f it m1 else Some m1 } }"

definition pb_release :: "nat \<Rightarrow> ('s, 'o) pb_env \<Rightarrow> pb_field list \<Rightarrow> nat \<Rightarrow> mem \<Rightarrow> mem option" where
  "pb_release n env fl dest m = release_message (pb_release_single_field n env) (Some fl) dest m"

definition pb_release_union_field :: "nat \<Rightarrow> ('s, 'o) pb_env \<Rightarrow> 's pb_istream \<Rightarrow> pb_field_iter \<Rightarrow>
    mem \<Rightarrow> (bool \<times> 's pb_istream \<times> pb_field_iter \<times> mem) option" where
  "pb_release_union_field n env s it m = do {
     old_tag \<leftarrow> load_size m (pSize it);
     f \<leftarrow> iter_field it;
     let new_tag = tag f;
     if old_tag = 0 then Some (True, s, it, m)
     else if old_tag = new_tag then Some (True, s, it, m)
     else do {
       (found, it1) \<leftarrow> pb_field_iter_find it old_tag;
       if \<not> found then Some (False, is_set_error ''invalid union tag'' s, it1, m)
       else do {
         m1 \<leftarrow> pb_release_single_field n env it1 m;
         (found', it2) \<leftarrow> pb_field_iter_find it1 new_tag;
         if \<not> found' then Some (False, is_set_error ''iterator error'' s, it2, m1)
         else Some (True, s, it2, m1) } } }"

end
