(* ===== verification/PbDecode.thy ===== *)
theory PbDecode
  imports PbFieldDec PbDefaults PbRelease
begin

text \<open>
  The message decoder of \<open>pb_decode.c\<close>: the field dispatch (\<open>decode_static_field\<close>,
  \<open>decode_pointer_field\<close>, \<open>decode_callback_field\<close>, \<open>decode_field\<close>), extensions, the decoding
  loop \<open>pb_decode_noinit\<close>, and the entry points.  A call that comes back to the message
  decoder (\<open>pb_dec_submessage\<close>) goes through an argument; \<open>pb_decode_noinit\<close> ties the knot on
  a number \<open>n\<close> that bounds the nesting of submessages, the length of an extension list, and the
  number of times a callback is called for one field.
\<close>

type_synonym 's field_decoder =
  "'s pb_istream \<Rightarrow> pb_field \<Rightarrow> nat \<Rightarrow> mem \<Rightarrow> (bool \<times> 's pb_istream \<times> mem) option"

type_synonym 's message_decoder =
  "'s pb_istream \<Rightarrow> pb_field list \<Rightarrow> nat \<Rightarrow> mem \<Rightarrow> (bool \<times> 's pb_istream \<times> mem) option"

subsection \<open>Submessages and the table of decoders\<close>

definition pb_dec_submessage :: "('s, 'o) pb_env \<Rightarrow> 's message_decoder \<Rightarrow> 's message_decoder \<Rightarrow>
    's field_decoder" where
  "pb_dec_submessage env decode decode_noinit s f dest m = do {
     (sub, s') \<leftarrow> pb_make_string_substream s;
     case sub of
       None \<Rightarrow> Some (False, s', m)
     | Some substream \<Rightarrow>
         if fptr f = PNull then Some (False, is_set_error ''invalid field descriptor'' s', m)
         else do {
           fl \<leftarrow> sub_fields env (fptr f);
           (status, substream', m') \<leftarrow>
             (if PB_HTYPE (ftype f) = PB_HTYPE_REPEATED then decode substream fl dest m
              else decode_noinit substream fl dest m);
           (closed, s'') \<leftarrow> pb_close_string_substream s' substream';
           Some (closed \<and> status, s'', m') } }"

text \<open>\<open>PB_DECODERS\<close>, and the entry for a field type: past the end of the table there is none,
  and calling the null entry has no result.\<close>

definition PB_DECODERS :: "('s, 'o) pb_env \<Rightarrow> 's field_decoder \<Rightarrow> 's field_decoder list" where
  "PB_DECODERS env dec_submessage =
     [pb_dec_varint, pb_dec_uvarint, pb_dec_svarint, pb_dec_fixed32, pb_dec_fixed64,
      pb_dec_bytes (env_alloc env), pb_dec_string (env_alloc env), dec_submessage,
      \<lambda>_ _ _ _. None, pb_dec_fixed_length_bytes]"

definition decoder_for :: "('s, 'o) pb_env \<Rightarrow> 's field_decoder \<Rightarrow> pb_field \<Rightarrow>
    's field_decoder option" where
  "decoder_for env dec_submessage f =
     nth_opt (PB_DECODERS env dec_submessage) (unat (PB_LTYPE (ftype f)))"

subsection \<open>Static fields\<close>

text \<open>The address of item \<open>i\<close>: the product is one of two \<open>pb_size_t\<close>.\<close>

definition item_at :: "nat \<Rightarrow> pb_field \<Rightarrow> u32 \<Rightarrow> nat" where
  "item_at base f i = base + unat (data_size f * i)"

text \<open>The loop over a packed array.  Every round takes at least one byte of the substream, so
  \<open>bytes_left\<close> bounds the rounds.\<close>

primrec packed_loop :: "nat \<Rightarrow> 's field_decoder \<Rightarrow> pb_field \<Rightarrow> pb_field_iter \<Rightarrow> 's pb_istream \<Rightarrow> mem \<Rightarrow>
    u32 \<Rightarrow> (bool \<times> 's pb_istream \<times> mem \<times> u32) option" where
  "packed_loop 0 func f it sub m fixed = None"
| "packed_loop (Suc n) func f it sub m fixed = do {
     count \<leftarrow> load_counter m fixed (pSize it);
     if bytes_left sub = 0 \<or> \<not> count < array_size f then Some (True, sub, m, fixed)
     else do {
       (ok, sub', m1) \<leftarrow> func sub f (item_at (pData it) f count) m;
       if \<not> ok then Some (False, sub', m1, fixed)
       else do {
         count' \<leftarrow> load_counter m1 fixed (pSize it);
         (m2, fixed') \<leftarrow> store_counter m1 fixed (pSize it) (count' + 1);
         packed_loop n func f it sub' m2 fixed' } } }"

definition decode_packed_static :: "'s field_decoder \<Rightarrow> 's pb_istream \<Rightarrow> pb_field \<Rightarrow> pb_field_iter \<Rightarrow>
    mem \<Rightarrow> u32 \<Rightarrow> (bool \<times> 's pb_istream \<times> mem \<times> u32) option" where
  "decode_packed_static func s f it m fixed = do {
     (sub, s') \<leftarrow> pb_make_string_substream s;
     case sub of
       None \<Rightarrow> Some (False, s', m, fixed)
     | Some substream \<Rightarrow> do {
         (status, substream', m1, fixed1) \<leftarrow>
           packed_loop (Suc (unat (bytes_left substream))) func f it substream m fixed;
         if bytes_left substream' \<noteq> 0
         then Some (False, is_set_error ''array overflow'' s', m1, fixed1)
         else do {
           (closed, s'') \<leftarrow> pb_close_string_substream s' substream';
           Some (closed \<and> status, s'', m1, fixed1) } } }"

definition decode_static_field :: "nat \<Rightarrow> ('s, 'o) pb_env \<Rightarrow> 's field_decoder \<Rightarrow> 's pb_istream \<Rightarrow>
    pb_wire_type \<Rightarrow> pb_field_iter \<Rightarrow> mem \<Rightarrow> u32 \<Rightarrow> (bool \<times> 's pb_istream \<times> mem \<times> u32) option" where
  "decode_static_field n env dec_submessage s wire_type it m fixed = do {
     f \<leftarrow> iter_field it;
     func \<leftarrow> decoder_for env dec_submessage f;
     let ty = ftype f;
     let call = (\<lambda>m. do { (ok, s', m') \<leftarrow> func s f (pData it) m; Some (ok, s', m', fixed) });
     if PB_HTYPE ty = PB_HTYPE_REQUIRED then call m
     else if PB_HTYPE ty = PB_HTYPE_OPTIONAL then do {
       m1 \<leftarrow> (if pSize it \<noteq> SzMem (pData it) then store_size m (pSize it) 1 1 else Some m);
       call m1 }
     else if PB_HTYPE ty = PB_HTYPE_REPEATED then
       (if wire_type = PB_WT_STRING \<and> PB_LTYPE ty \<le> PB_LTYPE_LAST_PACKABLE
        then decode_packed_static func s f it m fixed
        else do {
          count \<leftarrow> load_counter m fixed (pSize it);
          (m1, fixed1) \<leftarrow> store_counter m fixed (pSize it) (count + 1);
          if array_size f \<le> count
          then Some (False, is_set_error ''array overflow'' s, m1, fixed1)
          else do {
            (ok, s', m2) \<leftarrow> func s f (item_at (pData it) f count) m1;
            Some (ok, s', m2, fixed1) } })
     else if PB_HTYPE ty = PB_HTYPE_ONEOF then do {
       m1 \<leftarrow> store_size m (pSize it) 4 (ucast (tag f));
       m2 \<leftarrow> (if PB_LTYPE ty = PB_LTYPE_SUBMESSAGE then do {
                m' \<leftarrow> memset_zero m1 (pData it) (unat (data_size f));
                fl \<leftarrow> sub_fields env (fptr f);
                pb_message_set_to_defaults n env fl (pData it) m' }
              else Some m1);
       call m2 }
     else Some (False, is_set_error ''invalid field type'' s, m, fixed) }"

subsection \<open>Pointer fields\<close>

definition initialize_pointer_field :: "nat \<Rightarrow> ('s, 'o) pb_env \<Rightarrow> nat \<Rightarrow> pb_field \<Rightarrow> mem \<Rightarrow>
    mem option" where
  "initialize_pointer_field n env pItem f m =
     (if PB_LTYPE (ftype f) = PB_LTYPE_STRING \<or> PB_LTYPE (ftype f) = PB_LTYPE_BYTES
      then store_ptr m pItem 0
      else if PB_LTYPE (ftype f) = PB_LTYPE_SUBMESSAGE then do {
        m1 \<leftarrow> memset_zero m pItem (unat (data_size f));
        fl \<leftarrow> sub_fields env (fptr f);
        pb_message_set_to_defaults n env fl pItem m1 }
      else Some m)"

text \<open>The loop over a packed array in allocated memory: the third result says whether the count
  was exhausted, when the error message goes to the parent stream.\<close>

primrec packed_pointer_loop :: "nat \<Rightarrow> nat \<Rightarrow> ('s, 'o) pb_env \<Rightarrow> 's field_decoder \<Rightarrow> pb_field \<Rightarrow>
    pb_field_iter \<Rightarrow> u64 \<Rightarrow> 's pb_istream \<Rightarrow> mem \<Rightarrow> u32 \<Rightarrow>
    (bool \<times> 's pb_istream \<times> bool \<times> mem \<times> u32) option" where
  "packed_pointer_loop 0 n env func f it allocated sub m fixed = None"
| "packed_pointer_loop (Suc k) n env func f it allocated sub m fixed =
     (if bytes_left sub = 0 then Some (True, sub, False, m, fixed)
      else do {
        count \<leftarrow> load_counter m fixed (pSize it);
        (ok, allocated', sub1, m1) \<leftarrow>
          (if allocated < ucast count + 1 then
             (if data_size f = 0 then None
              else do {
                let allocated' = allocated + ((bytes_left sub - 1) div ucast (data_size f) + 1);
                (ok, sub', m') \<leftarrow> allocate_field (env_alloc env) sub (pData it)
                  (ucast (data_size f)) allocated' m;
                Some (ok, allocated', sub', m') })
           else Some (True, allocated, sub, m));
        if \<not> ok then Some (False, sub1, False, m1, fixed)
        else do {
          base \<leftarrow> load_ptr m1 (pData it);
          count1 \<leftarrow> load_counter m1 fixed (pSize it);
          let pItem = item_at base f count1;
          m2 \<leftarrow> initialize_pointer_field n env pItem f m1;
          (ok', sub2, m3) \<leftarrow> func sub1 f pItem m2;
          if \<not> ok' then Some (False, sub2, False, m3, fixed)
          else do {
            count2 \<leftarrow> load_counter m3 fixed (pSize it);
            if count2 = PB_SIZE_MAX then Some (False, sub2, True, m3, fixed)
            else do {
              (m4, fixed') \<leftarrow> store_counter m3 fixed (pSize it) (count2 + 1);
              packed_pointer_loop k n env func f it allocated' sub2 m4 fixed' } } } })"

definition decode_packed_pointer :: "nat \<Rightarrow> ('s, 'o) pb_env \<Rightarrow> 's field_decoder \<Rightarrow> 's pb_istream \<Rightarrow>
    pb_field \<Rightarrow> pb_field_iter \<Rightarrow> mem \<Rightarrow> u32 \<Rightarrow> (bool \<times> 's pb_istream \<times> mem \<times> u32) option" where
  "decode_packed_pointer n env func s f it m fixed = do {
     count \<leftarrow> load_counter m fixed (pSize it);
     (sub, s') \<leftarrow> pb_make_string_substream s;
     case sub of
       None \<Rightarrow> Some (False, s', m, fixed)
     | Some substream \<Rightarrow> do {
         (status, substream', full, m1, fixed1) \<leftarrow>
           packed_pointer_loop (Suc (unat (bytes_left substream))) n env func f it (ucast count)
             substream m fixed;
         let s1 = (if full then s'\<lparr>is_errmsg := Some ''too many array entries''\<rparr> else s');
         (closed, s'') \<leftarrow> pb_close_string_substream s1 substream';
         Some (closed \<and> status, s'', m1, fixed1) } }"

definition decode_pointer_field :: "nat \<Rightarrow> ('s, 'o) pb_env \<Rightarrow> 's field_decoder \<Rightarrow> 's pb_istream \<Rightarrow>
    pb_wire_type \<Rightarrow> pb_field_iter \<Rightarrow> mem \<Rightarrow> u32 \<Rightarrow> (bool \<times> 's pb_istream \<times> mem \<times> u32) option" where
  "decode_pointer_field n env dec_submessage s wire_type it m fixed = do {
     f \<leftarrow> iter_field it;
     func \<leftarrow> decoder_for env dec_submessage f;
     let ty = ftype f;
     if PB_HTYPE ty \<in> {PB_HTYPE_REQUIRED, PB_HTYPE_OPTIONAL, PB_HTYPE_ONEOF} then do {
       m1 \<leftarrow> (if PB_LTYPE ty = PB_LTYPE_SUBMESSAGE then do {
                p \<leftarrow> load_ptr m (pData it);
                if p \<noteq> 0 then pb_release_single_field n env it m else Some m }
              else Some m);
       m2 \<leftarrow> (if PB_HTYPE ty = PB_HTYPE_ONEOF then store_size m1 (pSize it) 4 (ucast (tag f))
              else Some m1);
       if PB_LTYPE ty = PB_LTYPE_STRING \<or> PB_LTYPE ty = PB_LTYPE_BYTES then do {
         (ok, s', m3) \<leftarrow> func s f (pData it) m2;
         Some (ok, s', m3, fixed) }
       else do {
         (ok, s', m3) \<leftarrow> allocate_field (env_alloc env) s (pData it) (ucast (data_size f)) 1 m2;
         if \<not> ok then Some (False, s', m3, fixed)
         else do {
           p \<leftarrow> load_ptr m3 (pData it);
           m4 \<leftarrow> initialize_pointer_field n env p f m3;
           p' \<leftarrow> load_ptr m4 (pData it);
           (ok', s'', m5) \<leftarrow> func s' f p' m4;
           Some (ok', s'', m5, fixed) } } }
     else if PB_HTYPE ty = PB_HTYPE_REPEATED then
       (if wire_type = PB_WT_STRING \<and> PB_LTYPE ty \<le> PB_LTYPE_LAST_PACKABLE
        then decode_packed_pointer n env func s f it m fixed
        else do {
          count \<leftarrow> load_counter m fixed (pSize it);
          if count = PB_SIZE_MAX
          then Some (False, is_set_error ''too many array entries'' s, m, fixed)
          else do {
            (m1, fixed1) \<leftarrow> store_counter m fixed (pSize it) (count + 1);
            count1 \<leftarrow> load_counter m1 fixed1 (pSize it);
            (ok, s', m2) \<leftarrow> allocate_field (env_alloc env) s (pData it) (ucast (data_size f))
              (ucast count1) m1;
            if \<not> ok then Some (False, s', m2, fixed1)
            else do {
              base \<leftarrow> load_ptr m2 (pData it);
              count2 \<leftarrow> load_counter m2 fixed1 (pSize it);
              let pItem = item_at base f (count2 - 1);
              m3 \<leftarrow> initialize_pointer_field n env pItem f m2;
              (ok', s'', m4) \<leftarrow> func s' f pItem m3;
              Some (ok', s'', m4, fixed1) } } })
     else Some (False, is_set_error ''invalid field type'' s, m, fixed) }"

subsection \<open>Callback fields\<close>

text \<open>\<open>pb_callback_t\<close> is \<open>{ funcs; arg; }\<close>.\<close>

definition callback_arg_at :: nat where "callback_arg_at = 8"

primrec callback_loop :: "nat \<Rightarrow> ('s, 'o) pb_env \<Rightarrow> pb_field \<Rightarrow> nat \<Rightarrow> 's pb_istream \<Rightarrow> mem \<Rightarrow>
    (bool \<times> 's pb_istream \<times> mem) option" where
  "callback_loop 0 env f cb sub m = None"
| "callback_loop (Suc n) env f cb sub m = do {
     fn \<leftarrow> load_ptr m cb;
     if fn = 0 then None
     else do {
       (ok, sub', m') \<leftarrow> env_decode env fn sub f (cb + callback_arg_at) m;
       if \<not> ok then Some (False, sub', m')
       else if bytes_left sub' \<noteq> 0 then callback_loop n env f cb sub' m'
       else Some (True, sub', m') } }"

definition decode_callback_field :: "nat \<Rightarrow> ('s, 'o) pb_env \<Rightarrow> 's pb_istream \<Rightarrow> pb_wire_type \<Rightarrow>
    pb_field_iter \<Rightarrow> mem \<Rightarrow> (bool \<times> 's pb_istream \<times> mem) option" where
  "decode_callback_field n env s wire_type it m = do {
     f \<leftarrow> iter_field it;
     let cb = pData it;
     fn \<leftarrow> (if cb = 0 then Some 0 else load_ptr m cb);
     if fn = 0 then do { (ok, s') \<leftarrow> pb_skip_field s wire_type; Some (ok, s', m) }
     else if wire_type = PB_WT_STRING then do {
       (sub, s') \<leftarrow> pb_make_string_substream s;
       case sub of
         None \<Rightarrow> Some (False, s', m)
       | Some substream \<Rightarrow> do {
           (ok, substream', m1) \<leftarrow> callback_loop n env f cb substream m;
           if \<not> ok then Some (False, is_set_error ''callback failed'' s', m1)
           else do {
             (closed, s'') \<leftarrow> pb_close_string_substream s' substream';
             Some (closed, s'', m1) } } }
     else do {
       (ok, buffer, s') \<leftarrow> read_raw_value s wire_type 10;
       if \<not> ok then Some (False, s', m)
       else do {
         let substream = pb_istream_from_buffer buffer (of_nat (length buffer));
         fn' \<leftarrow> load_ptr m cb;
         (ok', _, m1) \<leftarrow> env_decode env fn' substream f (cb + callback_arg_at) m;
         Some (ok', s', m1) } } }"

subsection \<open>One field\<close>

definition decode_field :: "nat \<Rightarrow> ('s, 'o) pb_env \<Rightarrow> 's field_decoder \<Rightarrow> 's pb_istream \<Rightarrow>
    pb_wire_type \<Rightarrow> pb_field_iter \<Rightarrow> mem \<Rightarrow> u32 \<Rightarrow>
    (bool \<times> 's pb_istream \<times> pb_field_iter \<times> mem \<times> u32) option" where
  "decode_field n env dec_submessage s wire_type it m fixed = do {
     f \<leftarrow> iter_field it;
     (ok, s1, it1, m1) \<leftarrow>
       (if PB_HTYPE (ftype f) = PB_HTYPE_ONEOF then pb_release_union_field n env s it m
        else Some (True, s, it, m));
     if \<not> ok then Some (False, s1, it1, m1, fixed)
     else do {
       f1 \<leftarrow> iter_field it1;
       let at = PB_ATYPE (ftype f1);
       (ok', s2, m2, fixed2) \<leftarrow>
         (if at = PB_ATYPE_STATIC then decode_static_field n env dec_submessage s1 wire_type it1 m1 fixed
          else if at = PB_ATYPE_POINTER
            then decode_pointer_field n env dec_submessage s1 wire_type it1 m1 fixed
          else if at = PB_ATYPE_CALLBACK then do {
            (ok', s', m') \<leftarrow> decode_callback_field n env s1 wire_type it1 m1;
            Some (ok', s', m', fixed) }
          else Some (False, is_set_error ''invalid field type'' s1, m1, fixed));
       Some (ok', s2, it1, m2, fixed2) } }"

subsection \<open>Extensions\<close>

definition default_extension_decoder :: "nat \<Rightarrow> ('s, 'o) pb_env \<Rightarrow> 's field_decoder \<Rightarrow>
    's pb_istream \<Rightarrow> nat \<Rightarrow> u32 \<Rightarrow> pb_wire_type \<Rightarrow> mem \<Rightarrow> (bool \<times> 's pb_istream \<times> mem) option" where
  "default_extension_decoder n env dec_submessage s ext t wire_type m = do {
     et \<leftarrow> ext_type_of env ext m;
     f \<leftarrow> nth_opt (env_fields env (ext_arg et)) 0;
     if tag f \<noteq> t then Some (True, s, m)
     else do {
       it \<leftarrow> iter_from_extension env ext m;
       m1 \<leftarrow> store_bytes m (ext + ext_found_at) [1];
       (ok, s', _, m2, _) \<leftarrow> decode_field n env dec_submessage s wire_type it m1 0;
       Some (ok, s', m2) } }"

primrec decode_extension_loop :: "nat \<Rightarrow> nat \<Rightarrow> ('s, 'o) pb_env \<Rightarrow> 's field_decoder \<Rightarrow> u64 \<Rightarrow>
    's pb_istream \<Rightarrow> nat \<Rightarrow> u32 \<Rightarrow> pb_wire_type \<Rightarrow> mem \<Rightarrow> (bool \<times> 's pb_istream \<times> mem) option" where
  "decode_extension_loop 0 n env dec_submessage p s ext t wire_type m = None"
| "decode_extension_loop (Suc k) n env dec_submessage p s ext t wire_type m =
     (if ext = 0 \<or> bytes_left s \<noteq> p then Some (True, s, m)
      else do {
        et \<leftarrow> ext_type_of env ext m;
        (ok, s', m1) \<leftarrow>
          (if ext_decode et \<noteq> 0 then env_ext_decode env (ext_decode et) s ext t wire_type m
           else default_extension_decoder n env dec_submessage s ext t wire_type m);
        if \<not> ok then Some (False, s', m1)
        else do {
          ext' \<leftarrow> load_ptr m1 (ext + ext_next_at);
          decode_extension_loop k n env dec_submessage p s' ext' t wire_type m1 } })"

definition decode_extension :: "nat \<Rightarrow> ('s, 'o) pb_env \<Rightarrow> 's field_decoder \<Rightarrow> 's pb_istream \<Rightarrow> u32 \<Rightarrow>
    pb_wire_type \<Rightarrow> pb_field_iter \<Rightarrow> mem \<Rightarrow> (bool \<times> 's pb_istream \<times> mem) option" where
  "decode_extension n env dec_submessage s t wire_type it m = do {
     ext \<leftarrow> load_ptr m (pData it);
     decode_extension_loop (Suc n) n env dec_submessage (bytes_left s) s ext t wire_type m }"

subsection \<open>The decoding loop\<close>

text \<open>The local variables of \<open>pb_decode_noinit\<close>; \<open>fixed_count_field\<close> is kept as an index into
  the field array.\<close>

record 's dec_state =
  ds_stream :: "'s pb_istream"
  ds_iter :: pb_field_iter
  ds_mem :: mem
  ds_seen :: "u32 \<times> u32"
  ds_ext_start :: u32
  ds_fixed_field :: "nat option"
  ds_fixed_size :: u32

datatype loop_ctrl = Continue | Break | Return_False

text \<open>\<open>fixed_count_field != NULL && fixed_count_size != fixed_count_field->array_size\<close>\<close>

definition fixed_count_wrong :: "'s dec_state \<Rightarrow> bool option" where
  "fixed_count_wrong st =
     (case ds_fixed_field st of
        None \<Rightarrow> Some False
      | Some i \<Rightarrow> map_option (\<lambda>f. ds_fixed_size st \<noteq> array_size f) (nth_opt (start (ds_iter st)) i))"

definition mark_seen :: "u32 \<Rightarrow> u32 \<times> u32 \<Rightarrow> u32 \<times> u32" where
  "mark_seen i seen =
     (let tmp = push_bit (unat (i AND 31)) 1
      in if drop_bit 5 i = 0 then (fst seen OR tmp, snd seen) else (fst seen, snd seen OR tmp))"

text \<open>The branch for a tag that no field has.\<close>

definition unknown_field :: "nat \<Rightarrow> ('s, 'o) pb_env \<Rightarrow> 's field_decoder \<Rightarrow> pb_wire_type \<Rightarrow> u32 \<Rightarrow>
    's dec_state \<Rightarrow> (loop_ctrl \<times> 's dec_state) option" where
  "unknown_field n env dec_submessage wire_type t st = do {
     let skip = (\<lambda>st. do {
       (ok, s') \<leftarrow> pb_skip_field (ds_stream st) wire_type;
       Some (if ok then Continue else Return_False, st\<lparr>ds_stream := s'\<rparr>) });
     if t < ds_ext_start st then skip st
     else do {
       (found, it) \<leftarrow> find_extension_field (ds_iter st);
       f \<leftarrow> iter_field it;
       let ext_start = (if found then tag f else - 1);
       let st1 = st\<lparr>ds_iter := it, ds_ext_start := ext_start\<rparr>;
       if t < ext_start then skip st1
       else do {
         (ok, s', m') \<leftarrow> decode_extension n env dec_submessage (ds_stream st1) t wire_type it (ds_mem st1);
         let st2 = st1\<lparr>ds_stream := s', ds_mem := m'\<rparr>;
         if \<not> ok then Some (Return_False, st2)
         else if bytes_left (ds_stream st1) \<noteq> bytes_left s' then Some (Continue, st2)
         else skip st2 } } }"

text \<open>The branch for a tag that some field has, the iterator being there.\<close>

definition known_field :: "nat \<Rightarrow> ('s, 'o) pb_env \<Rightarrow> 's field_decoder \<Rightarrow> pb_wire_type \<Rightarrow>
    's dec_state \<Rightarrow> (loop_ctrl \<times> 's dec_state) option" where
  "known_field n env dec_submessage wire_type st = do {
     let it = ds_iter st;
     f \<leftarrow> iter_field it;
     let fixed_count = (PB_HTYPE (ftype f) = PB_HTYPE_REPEATED \<and> pSize it = SzMem (pData it));
     let new_fixed = (fixed_count \<and> ds_fixed_field st \<noteq> Some (pos it));
     wrong \<leftarrow> (if new_fixed then fixed_count_wrong st else Some False);
     if wrong
     then Some (Return_False, st\<lparr>ds_stream :=
            is_set_error ''wrong size for fixed count field'' (ds_stream st)\<rparr>)
     else do {
       let st1 = (if new_fixed then st\<lparr>ds_fixed_field := Some (pos it), ds_fixed_size := 0\<rparr> else st);
       let it1 = (if fixed_count then it\<lparr>pSize := SzFixed\<rparr> else it);
       let seen1 = (if PB_HTYPE (ftype f) = PB_HTYPE_REQUIRED \<and>
                       required_field_index it1 < PB_MAX_REQUIRED_FIELDS
                    then mark_seen (required_field_index it1) (ds_seen st1) else ds_seen st1);
       (ok, s', it', m', size') \<leftarrow>
         decode_field n env dec_submessage (ds_stream st1) wire_type it1 (ds_mem st1) (ds_fixed_size st1);
       Some (if ok then Continue else Return_False,
             st1\<lparr>ds_stream := s', ds_iter := it', ds_mem := m', ds_seen := seen1,
                 ds_fixed_size := size'\<rparr>) } }"

definition decode_step :: "nat \<Rightarrow> ('s, 'o) pb_env \<Rightarrow> 's field_decoder \<Rightarrow> 's dec_state \<Rightarrow>
    (loop_ctrl \<times> 's dec_state) option" where
  "decode_step n env dec_submessage st = do {
     (r, eof, s') \<leftarrow> pb_decode_tag (ds_stream st);
     let st1 = st\<lparr>ds_stream := s'\<rparr>;
     case r of
       None \<Rightarrow> Some (if eof then Break else Return_False, st1)
     | Some (wire_type, t) \<Rightarrow> do {
         (found, it) \<leftarrow> pb_field_iter_find (ds_iter st1) t;
         let st2 = st1\<lparr>ds_iter := it\<rparr>;
         if found then known_field n env dec_submessage wire_type st2
         else unknown_field n env dec_submessage wire_type t st2 } }"

text \<open>Every round takes at least the tag's first byte, so \<open>bytes_left\<close> bounds the rounds.\<close>

primrec decode_loop :: "nat \<Rightarrow> nat \<Rightarrow> ('s, 'o) pb_env \<Rightarrow> 's field_decoder \<Rightarrow> 's dec_state \<Rightarrow>
    (bool \<times> 's dec_state) option" where
  "decode_loop 0 n env dec_submessage st = None"
| "decode_loop (Suc k) n env dec_submessage st =
     (if bytes_left (ds_stream st) = 0 then Some (True, st)
      else do {
        (ctrl, st') \<leftarrow> decode_step n env dec_submessage st;
        case ctrl of
          Continue \<Rightarrow> decode_loop k n env dec_submessage st'
        | Break \<Rightarrow> Some (True, st')
        | Return_False \<Rightarrow> Some (False, st') })"

text \<open>The walk to the end of the field array that counts the required fields, and the check of
  the bits.\<close>

primrec count_required :: "nat \<Rightarrow> pb_field_iter \<Rightarrow> (u32 \<times> pb_type \<times> pb_field_iter) option" where
  "count_required 0 it = None"
| "count_required (Suc k) it = do {
     f \<leftarrow> iter_field it;
     (more, it') \<leftarrow> pb_field_iter_next it;
     if more then count_required k it'
     else Some (required_field_index it, ftype f, it') }"

definition required_seen :: "u32 \<Rightarrow> u32 \<times> u32 \<Rightarrow> bool" where
  "required_seen req_field_count seen \<longleftrightarrow>
     (let word = (\<lambda>i. if i = 0 then fst seen else snd seen); whole = unat (drop_bit 5 req_field_count);
          rest = unat (req_field_count AND 31)
      in (\<forall>i \<in> set [0..<whole]. word i = - 1) \<and>
         (rest \<noteq> 0 \<longrightarrow> word whole = drop_bit (32 - rest) (- 1)))"

definition check_required :: "pb_field_iter \<Rightarrow> u32 \<times> u32 \<Rightarrow> bool option" where
  "check_required it seen = do {
     (req, last_type, it') \<leftarrow> count_required (length (start it)) it;
     f \<leftarrow> iter_field it';
     let req1 = (if PB_HTYPE last_type = PB_HTYPE_REQUIRED \<and> tag f \<noteq> 0 then req + 1 else req);
     let req2 = (if PB_MAX_REQUIRED_FIELDS < req1 then PB_MAX_REQUIRED_FIELDS else req1);
     Some (req2 = 0 \<or> required_seen req2 seen) }"

definition decode_message :: "nat \<Rightarrow> ('s, 'o) pb_env \<Rightarrow> 's field_decoder \<Rightarrow> 's message_decoder" where
  "decode_message n env dec_submessage s fl dest m = do {
     (_, it) \<leftarrow> pb_field_iter_begin fl dest;
     (ok, st) \<leftarrow> decode_loop (Suc (unat (bytes_left s))) n env dec_submessage
       \<lparr>ds_stream = s, ds_iter = it, ds_mem = m, ds_seen = (0, 0), ds_ext_start = 0,
        ds_fixed_field = None, ds_fixed_size = 0\<rparr>;
     if \<not> ok then Some (False, ds_stream st, ds_mem st)
     else do {
       wrong \<leftarrow> fixed_count_wrong st;
       if wrong
       then Some (False, is_set_error ''wrong size for fixed count field'' (ds_stream st), ds_mem st)
       else do {
         present \<leftarrow> check_required (ds_iter st) (ds_seen st);
         if \<not> present
         then Some (False, is_set_error ''missing required field'' (ds_stream st), ds_mem st)
         else Some (True, ds_stream st, ds_mem st) } } }"

subsection \<open>The entry points\<close>

definition decode_with_init :: "nat \<Rightarrow> ('s, 'o) pb_env \<Rightarrow> 's message_decoder \<Rightarrow> 's message_decoder" where
  "decode_with_init n env noinit s fl dest m = do {
     m1 \<leftarrow> pb_message_set_to_defaults n env fl dest m;
     (status, s', m2) \<leftarrow> noinit s fl dest m1;
     if \<not> status then do {
       m3 \<leftarrow> pb_release n env fl dest m2;
       Some (False, s', m3) }
     else Some (True, s', m2) }"

primrec pb_decode_noinit :: "nat \<Rightarrow> ('s, 'o) pb_env \<Rightarrow> 's message_decoder" where
  "pb_decode_noinit 0 env = (\<lambda>_ _ _ _. None)"
| "pb_decode_noinit (Suc n) env =
     decode_message n env
       (pb_dec_submessage env (decode_with_init n env (pb_decode_noinit n env)) (pb_decode_noinit n env))"

definition pb_decode :: "nat \<Rightarrow> ('s, 'o) pb_env \<Rightarrow> 's message_decoder" where
  "pb_decode n env = decode_with_init n env (pb_decode_noinit n env)"

text \<open>The common body of \<open>pb_decode_delimited_noinit\<close> and \<open>pb_decode_delimited\<close>.\<close>

definition decode_in_substream :: "'s message_decoder \<Rightarrow> 's message_decoder" where
  "decode_in_substream decode s fl dest m = do {
     (sub, s') \<leftarrow> pb_make_string_substream s;
     case sub of
       None \<Rightarrow> Some (False, s', m)
     | Some substream \<Rightarrow> do {
         (status, substream', m') \<leftarrow> decode substream fl dest m;
         (closed, s'') \<leftarrow> pb_close_string_substream s' substream';
         Some (closed \<and> status, s'', m') } }"

definition pb_decode_delimited_noinit :: "nat \<Rightarrow> ('s, 'o) pb_env \<Rightarrow> 's message_decoder" where
  "pb_decode_delimited_noinit n env = decode_in_substream (pb_decode_noinit n env)"

definition pb_decode_delimited :: "nat \<Rightarrow> ('s, 'o) pb_env \<Rightarrow> 's message_decoder" where
  "pb_decode_delimited n env = decode_in_substream (pb_decode n env)"

definition pb_decode_nullterminated :: "nat \<Rightarrow> ('s, 'o) pb_env \<Rightarrow> 's message_decoder" where
  "pb_decode_nullterminated n env = pb_decode n env"

end
