(* ===== verification/PbLayout.thy ===== *)
theory PbLayout
  imports PbEnv
begin

text \<open>
  Descriptors of message types that live in one C struct: every field \<open>PB_ATYPE_STATIC\<close>, no
  extensions, submessages nested to a bounded depth, and every field and counter inside the
  struct.  Of the messages without callbacks and pointers for which \<open>nanopb_generator\<close> emits
  descriptors these are all but one kind: a fixed-count array of fewer than four bytes at the end
  of the struct is left out, because setting it to its default writes four bytes at its start and so
  leaves the struct.  \<open>static_msg\<close> is executable, so a concrete descriptor is checked by evaluation.
\<close>

subsection \<open>Offsets\<close>

text \<open>Offset of field \<open>i\<close> from the start of the struct, and of its counter, has-flag or
  which-tag.\<close>

primrec field_off :: "pb_field list \<Rightarrow> nat \<Rightarrow> nat" where
  "field_off fl 0 = unat (data_offset (fl ! 0))"
| "field_off fl (Suc i) =
     (if same_union (fl ! i) (fl ! Suc i) then field_off fl i
      else field_off fl i + prev_field_size (fl ! i) + unat (data_offset (fl ! Suc i)))"

primrec size_off :: "pb_field list \<Rightarrow> nat \<Rightarrow> int" where
  "size_off fl 0 = int (field_off fl 0) + sint (size_offset (fl ! 0))"
| "size_off fl (Suc i) =
     (if same_union (fl ! i) (fl ! Suc i) then size_off fl i
      else int (field_off fl (Suc i)) + sint (size_offset (fl ! Suc i)))"

lemma iter_at_offsets:
  "pData (iter_at fl dest i) = dest + field_off fl i"
  "pSize (iter_at fl dest i) = SzMem (nat (int dest + size_off fl i))"
proof (induction i)
  case 0
  {
    case 1
    show ?case by (simp add: iter_at.simps Let_def)
  next
    case 2
    show ?case by (simp add: iter_at.simps Let_def ptr_add_s_def add.assoc)
  }
next
  case (Suc i)
  {
    case 1
    from Suc show ?case by (simp add: iter_at.simps Let_def)
  next
    case 2
    from Suc show ?case by (simp add: iter_at.simps Let_def ptr_add_s_def add.assoc)
  }
qed

subsection \<open>Static message types\<close>

text \<open>The bytes of a field.\<close>

definition field_extent :: "pb_field \<Rightarrow> nat" where
  "field_extent f =
     (if PB_HTYPE (ftype f) = PB_HTYPE_REPEATED then unat (data_size f) * unat (array_size f)
      else unat (data_size f))"

text \<open>The field's counter, has-flag or which-tag, \<open>n\<close> bytes at offset \<open>off\<close>, is inside the
  struct.\<close>

definition inside :: "int \<Rightarrow> nat \<Rightarrow> nat \<Rightarrow> bool" where
  "inside off n sz \<longleftrightarrow> 0 \<le> off \<and> nat off + n \<le> sz"

definition static_value :: "('s, 'o) pb_env \<Rightarrow> (pb_field list \<Rightarrow> nat \<Rightarrow> bool) \<Rightarrow> pb_field \<Rightarrow> bool" where
  "static_value env sub f \<longleftrightarrow>
     (let t = PB_LTYPE (ftype f) in
      if t = PB_LTYPE_SUBMESSAGE
      then (case sub_fields env (fptr f) of None \<Rightarrow> False | Some fl \<Rightarrow> sub fl (unat (data_size f)))
      else t \<noteq> PB_LTYPE_EXTENSION \<and> t < PB_LTYPES_COUNT \<and>
        (t = PB_LTYPE_FIXED32 \<longrightarrow> data_size f = 4) \<and> (t = PB_LTYPE_FIXED64 \<longrightarrow> data_size f = 8) \<and>
        (t = PB_LTYPE_BYTES \<longrightarrow> 4 \<le> data_size f) \<and> (t = PB_LTYPE_STRING \<longrightarrow> 1 \<le> data_size f) \<and>
        (case fptr f of PNull \<Rightarrow> True | PFields _ \<Rightarrow> False
         | PDefault bs \<Rightarrow> unat (data_size f) \<le> length bs))"

definition static_field :: "('s, 'o) pb_env \<Rightarrow> (pb_field list \<Rightarrow> nat \<Rightarrow> bool) \<Rightarrow> pb_field list \<Rightarrow> nat \<Rightarrow>
    nat \<Rightarrow> bool" where
  "static_field env sub fl sz i \<longleftrightarrow>
     (let f = fl ! i; h = PB_HTYPE (ftype f); off = size_off fl i in
      PB_ATYPE (ftype f) = PB_ATYPE_STATIC \<and> static_value env sub f \<and>
      field_off fl i + field_extent f \<le> sz \<and>
      (h = PB_HTYPE_OPTIONAL \<longrightarrow> off = int (field_off fl i) \<or> inside off 1 sz) \<and>
      (h = PB_HTYPE_REPEATED \<longrightarrow> inside off 4 sz \<and>
         unat (data_size f) * unat (array_size f) < 2 ^ 32) \<and>
      (h = PB_HTYPE_ONEOF \<longrightarrow> inside off 4 sz \<and> size_offset f \<noteq> 0) \<and>
      off = int (field_off fl i) + sint (size_offset f))"

primrec static_msg :: "nat \<Rightarrow> ('s, 'o) pb_env \<Rightarrow> pb_field list \<Rightarrow> nat \<Rightarrow> bool" where
  "static_msg 0 env fl sz \<longleftrightarrow> False"
| "static_msg (Suc d) env fl sz \<longleftrightarrow>
     wf_fields fl \<and> last fl = PB_LAST_FIELD \<and>
     list_all (static_field env (static_msg d env) fl sz) [0..<n_fields fl]"

lemma static_msgD:
  assumes "static_msg (Suc d) env fl sz"
  shows "wf_fields fl" "fl ! n_fields fl = PB_LAST_FIELD"
    "i < n_fields fl \<Longrightarrow> static_field env (static_msg d env) fl sz i"
proof -
  from assms show "wf_fields fl" by simp
  then have "fl ! n_fields fl = last fl"
    by (simp add: wf_fields_def n_fields_def last_conv_nth)
  with assms show "fl ! n_fields fl = PB_LAST_FIELD" by simp
  assume "i < n_fields fl"
  with assms show "static_field env (static_msg d env) fl sz i" by (simp add: list_all_iff)
qed

text \<open>Item \<open>j\<close> of \<open>n\<close> items is inside.\<close>

lemma item_inside:
  assumes "p + dsize * n \<le> q" "j < n"
  shows "p + j * dsize + dsize \<le> (q :: nat)"
proof -
  from assms(2) have "Suc j * dsize \<le> n * dsize" by (intro mult_le_mono1) simp
  with assms(1) show ?thesis by (simp add: mult.commute)
qed

text \<open>What a static field gives at an iterator that stands on it.\<close>

lemma static_fieldD:
  fixes dest :: nat
  assumes "static_field env sub fl sz i"
  defines "f \<equiv> fl ! i" and "p \<equiv> dest + field_off fl i" and "a \<equiv> nat (int dest + size_off fl i)"
  shows "PB_ATYPE (ftype f) = PB_ATYPE_STATIC" "static_value env sub f"
    "p + field_extent f \<le> dest + sz" "dest \<le> p"
    "PB_HTYPE (ftype f) = PB_HTYPE_OPTIONAL \<Longrightarrow> a = p \<or> dest \<le> a \<and> a + 1 \<le> dest + sz"
    "PB_HTYPE (ftype f) = PB_HTYPE_REPEATED \<Longrightarrow> dest \<le> a \<and> a + 4 \<le> dest + sz \<and>
       unat (data_size f) * unat (array_size f) < 2 ^ 32"
    "PB_HTYPE (ftype f) = PB_HTYPE_ONEOF \<Longrightarrow> dest \<le> a \<and> a + 4 \<le> dest + sz"
    "PB_HTYPE (ftype f) = PB_HTYPE_ONEOF \<Longrightarrow> size_offset f \<noteq> 0"
    "ptr_add_s p (size_offset f) = a"
  using assms by (auto simp: static_field_def Let_def inside_def ptr_add_s_def add.assoc)

end
