(* ===== verification/PbStaticOk.thy ===== *)
theory PbStaticOk
  imports PbDefaults PbRelease PbLayout
begin

text \<open>
  Setting defaults and releasing, for messages that live in one struct: both return, the first
  writes only inside the struct, and the second has nothing to release.
\<close>

subsection \<open>Walks that keep an invariant\<close>

lemma run_list_inv:
  assumes "\<And>i x. i \<in> set is \<Longrightarrow> P x \<Longrightarrow> \<exists>x'. body i x = Some (True, x') \<and> P x'" "P x"
  shows "\<exists>x'. run_list body is x = Some (True, x') \<and> P x'"
  using assms
proof (induction "is" arbitrary: x)
  case Nil
  then show ?case by simp
next
  case (Cons i "is")
  then obtain x' where "body i x = Some (True, x')" "P x'" by (meson list.set_intros(1))
  with Cons.IH [OF Cons.prems(1)] show ?case by auto
qed

definition writes :: "mem \<Rightarrow> nat \<Rightarrow> nat \<Rightarrow> mem option \<Rightarrow> bool" where
  "writes m dest n res \<longleftrightarrow> (\<exists>m'. res = Some m' \<and> frame_only m m' dest n)"

lemma writes_SomeI: "frame_only m m' dest n \<Longrightarrow> writes m dest n (Some m')"
  by (simp add: writes_def)

lemma writes_mono:
  "writes m a k res \<Longrightarrow> dest \<le> a \<Longrightarrow> a + k \<le> dest + n \<Longrightarrow> writes m dest n res"
  by (auto simp: writes_def intro: frame_only_mono)

lemma writes_seq:
  "writes m dest n res \<Longrightarrow>
   (\<And>m1. frame_only m m1 dest n \<Longrightarrow> writes m1 dest n (g m1)) \<Longrightarrow>
   writes m dest n (Option.bind res g)"
  unfolding writes_def using frame_only_trans by fastforce

lemma writes_store_uint:
  "valid_range m dest n \<Longrightarrow> dest \<le> a \<Longrightarrow> a + k \<le> dest + n \<Longrightarrow> writes m dest n (store_uint m a k w)"
  by (rule store_uint_ok [of m a k w])
    (auto simp: writes_def intro: valid_range_mono frame_only_mono)

lemma writes_store_bytes:
  "valid_range m dest n \<Longrightarrow> dest \<le> a \<Longrightarrow> a + length bs \<le> dest + n \<Longrightarrow>
   writes m dest n (store_bytes m a bs)"
  by (rule store_bytes_ok [of m a bs])
    (auto simp: writes_def intro: valid_range_mono frame_only_mono)

lemma writes_memset_zero:
  "valid_range m dest n \<Longrightarrow> dest \<le> a \<Longrightarrow> a + k \<le> dest + n \<Longrightarrow> writes m dest n (memset_zero m a k)"
  using writes_store_bytes [of m dest n a "replicate k 0"] by (simp add: memset_zero_def)

lemma writes_store_size:
  "valid_range m dest n \<Longrightarrow> dest \<le> a \<Longrightarrow> a + k \<le> dest + n \<Longrightarrow>
   writes m dest n (store_size m (SzMem a) k w)"
  by (simp add: store_size_def writes_store_uint)

lemma load_size_valid:
  "valid_range m dest n \<Longrightarrow> dest \<le> a \<Longrightarrow> a + 4 \<le> dest + n \<Longrightarrow> \<exists>c. load_size m (SzMem a) = Some c"
  using load_uint_valid [OF valid_range_mono [of m dest n a 4]] by (auto simp: load_size_def)

subsection \<open>Defaults\<close>

lemma message_to_defaults_ok:
  assumes wf: "wf_fields fl" and v: "valid_range m dest sz"
    and step: "\<And>i m. i < n_fields fl \<Longrightarrow> valid_range m dest sz \<Longrightarrow>
      writes m dest sz (field (iter_at fl dest i) m)"
  shows "writes m dest sz (message_to_defaults field fl dest m)"
proof (cases "n_fields fl = 0")
  case True
  with wf show ?thesis by (simp add: message_to_defaults_def iter_begin_wf writes_SomeI)
next
  case False
  let ?body = "\<lambda>i m. map_option (Pair True) (field (iter_at fl dest i) m)"
  have "\<exists>m'. run_list ?body [0..<n_fields fl] m = Some (True, m') \<and> frame_only m m' dest sz"
  proof (rule run_list_inv)
    fix i m1 assume i: "i \<in> set [0..<n_fields fl]" and f: "frame_only m m1 dest sz"
    from v have "valid_range m1 dest sz" by (simp add: frame_only_valid [OF f])
    with step [of i m1] i obtain m2 where "field (iter_at fl dest i) m1 = Some m2"
      "frame_only m1 m2 dest sz" by (auto simp: writes_def)
    with frame_only_trans [OF f] show "\<exists>m2. ?body i m1 = Some (True, m2) \<and> frame_only m m2 dest sz"
      by auto
  qed simp
  with wf False show ?thesis
    by (auto simp: message_to_defaults_def iter_begin_wf for_fields_run writes_def)
qed

lemma init_data_ok:
  assumes sub: "\<And>fl k p m. sub fl k \<Longrightarrow> valid_range m p k \<Longrightarrow>
      writes m p k (message_to_defaults field fl p m)"
    and f: "static_value env sub f" and v: "valid_range m p (unat (data_size f))"
  shows "writes m p (unat (data_size f)) (init_data env field f p m)"
proof (cases "PB_LTYPE (ftype f) = PB_LTYPE_SUBMESSAGE")
  case True
  with f obtain fl where "sub_fields env (fptr f) = Some fl" "sub fl (unat (data_size f))"
    by (auto simp: static_value_def Let_def split: option.splits)
  with sub [OF _ v] True show ?thesis by (simp add: init_data_def)
next
  case False
  with f v show ?thesis
    by (auto simp: static_value_def Let_def init_data_def writes_memset_zero
        intro!: writes_store_bytes split: pb_ptr.splits)
qed

lemma field_set_to_default_ok:
  assumes sub: "\<And>fl k p m. sub fl k \<Longrightarrow> valid_range m p k \<Longrightarrow>
      writes m p k (message_to_defaults (pb_field_set_to_default n env) fl p m)"
    and wf: "wf_fields fl" and i: "i < n_fields fl" and f: "static_field env sub fl sz i"
    and v: "valid_range m dest sz"
  shows "writes m dest sz (pb_field_set_to_default (Suc n) env (iter_at fl dest i) m)"
proof -
  let ?f = "fl ! i" and ?p = "dest + field_off fl i" and ?a = "nat (int dest + size_off fl i)"
  note D = static_fieldD(1,2) [OF f] static_fieldD(3-7) [OF f, of dest]
  from D(2) have noext: "PB_LTYPE (ftype ?f) \<noteq> PB_LTYPE_EXTENSION"
    by (auto simp: static_value_def Let_def PB_LTYPE_SUBMESSAGE_def PB_LTYPE_EXTENSION_def)
  have it: "iter_field (iter_at fl dest i) = Some ?f"
    using iter_field_ok [OF wf iter_ok_at [of i fl dest]] i by simp
  have data: "writes m1 dest sz (init_data env (pb_field_set_to_default n env) ?f ?p m1)"
    if h: "PB_HTYPE (ftype ?f) \<noteq> PB_HTYPE_REPEATED" and v1: "valid_range m1 dest sz" for m1
  proof -
    from D(3,4) h have le: "?p + unat (data_size ?f) \<le> dest + sz" by (simp add: field_extent_def)
    with v1 have "valid_range m1 ?p (unat (data_size ?f))" by (rule_tac valid_range_mono) auto
    with init_data_ok [OF sub D(2)] have
      "writes m1 ?p (unat (data_size ?f)) (init_data env (pb_field_set_to_default n env) ?f ?p m1)"
      by blast
    with le show ?thesis by (rule_tac writes_mono) auto
  qed
  have opt: "writes m dest sz (Option.bind (store_size m (SzMem ?a) 1 0)
      (init_data env (pb_field_set_to_default n env) ?f ?p))"
    if "PB_HTYPE (ftype ?f) = PB_HTYPE_OPTIONAL" "?a \<noteq> ?p"
  proof (rule writes_seq)
    show "writes m dest sz (store_size m (SzMem ?a) 1 0)"
      using D(5) that v by (intro writes_store_size) auto
    fix m1 assume fr: "frame_only m m1 dest sz"
    show "writes m1 dest sz (init_data env (pb_field_set_to_default n env) ?f ?p m1)"
      using that v by (intro data) (simp_all add: frame_only_valid [OF fr])
  qed
  have cnt: "writes m dest sz (store_size m (SzMem ?a) 4 0)"
    if "PB_HTYPE (ftype ?f) = PB_HTYPE_REPEATED \<or> PB_HTYPE (ftype ?f) = PB_HTYPE_ONEOF"
    using D(6,7) that v by (intro writes_store_size) auto
  show ?thesis
    using opt cnt data [OF _ v] D(1) noext
    by (auto simp: it iter_at_offsets Let_def)
qed

lemma static_set_to_defaults:
  "static_msg d env fl sz \<Longrightarrow> d \<le> n \<Longrightarrow> valid_range m dest sz \<Longrightarrow>
   writes m dest sz (pb_message_set_to_defaults n env fl dest m)"
proof (induction n arbitrary: d fl sz m dest)
  case 0
  then show ?case by simp
next
  case (Suc n)
  then obtain d' where d: "d = Suc d'" by (cases d) auto
  with Suc.prems(2) have "d' \<le> n" by simp
  with Suc.IH have sub: "static_msg d' env fl k \<Longrightarrow> valid_range m p k \<Longrightarrow>
      writes m p k (message_to_defaults (pb_field_set_to_default n env) fl p m)" for fl k p m
    by (simp add: pb_message_set_to_defaults_def)
  note D = static_msgD [OF Suc.prems(1) [unfolded d]]
  show ?case unfolding pb_message_set_to_defaults_def
    by (rule message_to_defaults_ok [OF D(1) Suc.prems(3)])
      (rule field_set_to_default_ok [OF sub D(1) _ D(3)])
qed

subsection \<open>Release\<close>

lemma release_items_same:
  assumes "\<And>j. j < count \<Longrightarrow> msg (p + j * dsize) m = Some m"
  shows "release_items count msg dsize p m = Some m"
  using assms
proof (induction count arbitrary: p)
  case 0
  then show ?case by simp
next
  case (Suc count)
  from Suc.prems [of 0] have "msg p m = Some m" by simp
  moreover have "release_items count msg dsize (p + dsize) m = Some m"
    using Suc.prems [of "Suc j" for j] by (intro Suc.IH) (simp add: add.assoc)
  ultimately show ?case by simp
qed

lemma release_message_same:
  assumes wf: "wf_fields fl" and step: "\<And>i. i < n_fields fl \<Longrightarrow> field (iter_at fl dest i) m = Some m"
  shows "release_message field (Some fl) dest m = Some m"
proof (cases "n_fields fl = 0")
  case True
  with wf show ?thesis by (simp add: release_message_def iter_begin_wf)
next
  case False
  let ?body = "\<lambda>i m. map_option (Pair True) (field (iter_at fl dest i) m)"
  have "\<exists>m'. run_list ?body [0..<n_fields fl] m = Some (True, m') \<and> m' = m"
    by (rule run_list_inv) (use step in auto)
  with wf False show ?thesis by (auto simp: release_message_def iter_begin_wf for_fields_run)
qed

lemma release_single_field_ok:
  assumes sub: "\<And>fl k p. sub fl k \<Longrightarrow> valid_range m p k \<Longrightarrow>
      release_message (pb_release_single_field n env) (Some fl) p m = Some m"
    and wf: "wf_fields fl" and i: "i < n_fields fl" and f: "static_field env sub fl sz i"
    and v: "valid_range m dest sz"
  shows "pb_release_single_field (Suc n) env (iter_at fl dest i) m = Some m"
proof -
  let ?f = "fl ! i" and ?p = "dest + field_off fl i" and ?a = "nat (int dest + size_off fl i)"
  note D = static_fieldD(1,2) [OF f] static_fieldD(3-7) [OF f, of dest]
  from D(2) have noext: "PB_LTYPE (ftype ?f) \<noteq> PB_LTYPE_EXTENSION"
    by (auto simp: static_value_def Let_def PB_LTYPE_SUBMESSAGE_def PB_LTYPE_EXTENSION_def)
  have it: "iter_field (iter_at fl dest i) = Some ?f"
    using iter_field_ok [OF wf iter_ok_at [of i fl dest]] i by simp
  have nptr: "PB_ATYPE_STATIC \<noteq> PB_ATYPE_POINTER" by (simp add: atype_defs)
  have cur: "\<exists>c. load_size m (SzMem ?a) = Some c"
    if "PB_HTYPE (ftype ?f) = PB_HTYPE_REPEATED \<or> PB_HTYPE (ftype ?f) = PB_HTYPE_ONEOF"
    using D(6,7) that v by (intro load_size_valid [of m dest sz]) auto
  have items: "\<exists>c. release_count ?f (iter_at fl dest i) m = Some c \<and>
      ?p + unat (data_size ?f) * unat c \<le> dest + sz"
  proof (cases "PB_HTYPE (ftype ?f) = PB_HTYPE_REPEATED")
    case True
    with cur obtain c where "load_size m (SzMem ?a) = Some c" by blast
    with True D(1) have "\<exists>c'. release_count ?f (iter_at fl dest i) m = Some c' \<and> c' \<le> array_size ?f"
      by (auto simp: release_count_def iter_at_offsets not_less)
    then obtain c' where c': "release_count ?f (iter_at fl dest i) m = Some c'"
      "c' \<le> array_size ?f" by blast
    then have "unat (data_size ?f) * unat c' \<le> unat (data_size ?f) * unat (array_size ?f)"
      by (intro mult_le_mono2) (simp add: word_le_nat_alt)
    moreover from D(3) True
    have "?p + unat (data_size ?f) * unat (array_size ?f) \<le> dest + sz" by (simp add: field_extent_def)
    ultimately have "?p + unat (data_size ?f) * unat c' \<le> dest + sz" by linarith
    with c'(1) show ?thesis by blast
  next
    case False
    with D(3) show ?thesis by (simp add: release_count_def field_extent_def)
  qed
  have sm: "release_items (unat c)
      (release_message (pb_release_single_field n env) (sub_fields env (fptr ?f)))
      (unat (data_size ?f)) ?p m = Some m"
    if t: "PB_LTYPE (ftype ?f) = PB_LTYPE_SUBMESSAGE"
      and c: "?p + unat (data_size ?f) * unat c \<le> dest + sz" for c
  proof (rule release_items_same)
    fix j assume "j < unat c"
    from item_inside [OF c this] have
      "?p + j * unat (data_size ?f) + unat (data_size ?f) \<le> dest + sz" .
    with v have "valid_range m (?p + j * unat (data_size ?f)) (unat (data_size ?f))"
      by (rule_tac valid_range_mono) auto
    moreover from t D(2) obtain fl' where "sub_fields env (fptr ?f) = Some fl'"
      "sub fl' (unat (data_size ?f))" by (auto simp: static_value_def Let_def split: option.splits)
    ultimately show "release_message (pb_release_single_field n env) (sub_fields env (fptr ?f))
        (?p + j * unat (data_size ?f)) m = Some m" using sub by simp
  qed
  from items obtain c where c: "release_count ?f (iter_at fl dest i) m = Some c"
    "?p + unat (data_size ?f) * unat c \<le> dest + sz" by blast
  show ?thesis
    using cur sm [OF _ c(2)] c(1) D(1) noext nptr
    by (cases "PB_HTYPE (ftype ?f) = PB_HTYPE_ONEOF") (auto simp: it iter_at_offsets Let_def)
qed

lemma static_release:
  "static_msg d env fl sz \<Longrightarrow> d \<le> n \<Longrightarrow> valid_range m dest sz \<Longrightarrow>
   pb_release n env fl dest m = Some m"
proof (induction n arbitrary: d fl sz dest)
  case 0
  then show ?case by simp
next
  case (Suc n)
  then obtain d' where d: "d = Suc d'" by (cases d) auto
  with Suc.prems(2) have "d' \<le> n" by simp
  with Suc.IH have sub: "static_msg d' env fl k \<Longrightarrow> valid_range m p k \<Longrightarrow>
      release_message (pb_release_single_field n env) (Some fl) p m = Some m" for fl k p
    by (simp add: pb_release_def)
  note D = static_msgD [OF Suc.prems(1) [unfolded d]]
  show ?case unfolding pb_release_def
    by (rule release_message_same [OF D(1)])
      (rule release_single_field_ok [OF sub D(1) _ D(3) Suc.prems(3)])
qed

end
