(* ===== verification/PbDecodeOk.thy ===== *)
theory PbDecodeOk
  imports PbDecode PbStaticOk
begin

text \<open>
  Decoding into a message that lives in one struct: on every input, the decoder returns, leaves a
  well-formed stream, and writes only inside the struct.  Proved over \<open>input_source\<close>, so for memory
  buffers and for every user callback, whenever it fails or reports the end of its data.
\<close>

subsection \<open>Steps of a safe call\<close>

lemma safe_writes:
  assumes w: "writes m dest n res"
    and g: "\<And>m1. frame_only m m1 dest n \<Longrightarrow> safe ok av s m1 dest n (g m1)"
  shows "safe ok av s m dest n (Option.bind res g)"
proof -
  from w obtain m1 where r: "res = Some m1" and f: "frame_only m m1 dest n" by (auto simp: writes_def)
  from g [OF f] obtain fl s' m' where "g m1 = Some (fl, s', m')" "reads ok av s s'"
    "frame_only m1 m' dest n" by (rule safeE)
  with r frame_only_trans [OF f] show ?thesis by (simp add: safeI)
qed

text \<open>The same for calls that also return the decoder's local counter.\<close>

definition safe_fixed :: "('s in_source \<Rightarrow> bool) \<Rightarrow> ('s in_source \<Rightarrow> nat) \<Rightarrow> 's pb_istream \<Rightarrow> mem \<Rightarrow>
    nat \<Rightarrow> nat \<Rightarrow> (bool \<times> 's pb_istream \<times> mem \<times> u32) option \<Rightarrow> bool" where
  "safe_fixed ok av s m dest n res \<longleftrightarrow>
     (\<exists>fl s' m' x. res = Some (fl, s', m', x) \<and> reads ok av s s' \<and> frame_only m m' dest n)"

lemma safe_fixedI:
  "reads ok av s s' \<Longrightarrow> frame_only m m' dest n \<Longrightarrow> safe_fixed ok av s m dest n (Some (fl, s', m', x))"
  by (auto simp: safe_fixed_def)

lemma safe_fixedE:
  assumes "safe_fixed ok av s m dest n res"
  obtains fl s' m' x where "res = Some (fl, s', m', x)" "reads ok av s s'" "frame_only m m' dest n"
  using assms by (auto simp: safe_fixed_def)

lemma safe_fixed_of:
  "safe ok av s m dest n res \<Longrightarrow>
   safe_fixed ok av s m dest n (do { (ok, s', m') \<leftarrow> res; Some (ok, s', m', x) })"
  by (auto simp: safe_def intro: safe_fixedI)

lemma safe_fixed_writes:
  assumes w: "writes m dest n res"
    and g: "\<And>m1. frame_only m m1 dest n \<Longrightarrow> safe_fixed ok av s m1 dest n (g m1)"
  shows "safe_fixed ok av s m dest n (Option.bind res g)"
proof -
  from w obtain m1 where r: "res = Some m1" and f: "frame_only m m1 dest n" by (auto simp: writes_def)
  from g [OF f] obtain fl s' m' x where "g m1 = Some (fl, s', m', x)" "reads ok av s s'"
    "frame_only m1 m' dest n" by (rule safe_fixedE)
  with r frame_only_trans [OF f] show ?thesis by (simp add: safe_fixedI)
qed

text \<open>Where a counter may be.\<close>

definition counter_ok :: "nat \<Rightarrow> nat \<Rightarrow> size_loc \<Rightarrow> bool" where
  "counter_ok dest sz loc \<longleftrightarrow>
     (case loc of SzMem a \<Rightarrow> dest \<le> a \<and> a + 4 \<le> dest + sz | SzFixed \<Rightarrow> True)"

lemma load_counter_ok:
  "counter_ok dest sz loc \<Longrightarrow> valid_range m dest sz \<Longrightarrow> \<exists>c. load_counter m x loc = Some c"
  by (auto simp: counter_ok_def load_counter_def split: size_loc.splits intro: load_size_valid)

lemma store_counter_ok:
  assumes "counter_ok dest sz loc" "valid_range m dest sz"
  obtains m' x' where "store_counter m x loc c = Some (m', x')" "frame_only m m' dest sz"
proof (cases loc)
  case (SzMem a)
  with assms have "writes m dest sz (store_size m (SzMem a) 4 (ucast c))"
    by (intro writes_store_size) (simp_all add: counter_ok_def)
  with SzMem that show thesis by (auto simp: writes_def store_counter_def)
next
  case SzFixed
  with that show thesis by (simp add: store_counter_def)
qed

text \<open>Items of an array.\<close>

lemma item_at_inside:
  assumes "p + unat (data_size f) * unat (array_size f) \<le> q"
    "unat (data_size f) * unat (array_size f) < 2 ^ 32" "c < array_size f"
  shows "item_at p f c = p + unat (data_size f) * unat c"
    "item_at p f c + unat (data_size f) \<le> q"
proof -
  from assms(3) have c: "unat c < unat (array_size f)" by (simp add: word_less_nat_alt)
  then have "unat (data_size f) * unat c \<le> unat (data_size f) * unat (array_size f)"
    by (intro mult_le_mono2) simp
  with assms(2) have "unat (data_size f) * unat c < 2 ^ 32" by linarith
  then have "unat (data_size f * c) = unat (data_size f) * unat c" by (simp add: unat_word_ariths)
  then show eq: "item_at p f c = p + unat (data_size f) * unat c" by (simp add: item_at_def)
  show "item_at p f c + unat (data_size f) \<le> q"
    using item_inside [OF assms(1) c] by (simp add: eq mult.commute)
qed

subsection \<open>The field types\<close>

text \<open>\<open>progress func\<close>: a successful call takes input.\<close>

definition progress :: "'s field_decoder \<Rightarrow> bool" where
  "progress func \<longleftrightarrow>
     (\<forall>s f p m s' m'. func s f p m = Some (True, s', m') \<longrightarrow>
        unat (bytes_left s') < unat (bytes_left s))"

lemma progressD:
  "progress func \<Longrightarrow> func s f p m = Some (True, s', m') \<Longrightarrow> unat (bytes_left s') < unat (bytes_left s)"
  unfolding progress_def by blast

lemma varint_loop_less:
  "varint_loop s bitpos acc = Some (Some v, s') \<Longrightarrow> unat (bytes_left s') < unat (bytes_left s)"
proof (induction s bitpos acc rule: varint_loop.induct)
  case (1 s bitpos acc)
  from "1.prems" obtain b s1 where b: "pb_readbyte s = Some (Some b, s1)" and pos: "\<not> 64 \<le> bitpos"
    by (subst (asm) varint_loop.simps)
      (auto split: if_splits option.splits elim!: bind_SomeE)
  note less = pb_readbyte_less [OF b]
  show ?case
  proof (cases "b AND 0x80 = 0")
    case True
    with "1.prems" b pos less show ?thesis by (subst (asm) varint_loop.simps) (auto simp: Let_def)
  next
    case False
    with "1.prems" b pos have "varint_loop s1 (bitpos + 7)
        (acc OR push_bit (unat bitpos) (ucast (b AND 0x7F))) = Some (Some v, s')"
      by (subst (asm) varint_loop.simps) (auto simp: Let_def)
    from "1.IH" [OF pos b refl refl refl refl False this] less show ?thesis by simp
  qed
qed

lemma store_checked_stream:
  "store_checked s c v n p m = Some (True, s', m') \<Longrightarrow> s' = s"
  by (auto simp: store_checked_def split: option.splits if_splits elim!: bind_SomeE)

lemma packable_progress:
  "progress pb_dec_varint" "progress pb_dec_uvarint" "progress pb_dec_svarint"
  "progress pb_dec_fixed32" "progress pb_dec_fixed64"
proof -
  show "progress pb_dec_varint" unfolding progress_def pb_dec_varint_def pb_decode_varint_def Let_def
    by (auto elim!: bind_SomeE split: option.splits dest!: store_checked_stream dest: varint_loop_less)
  show "progress pb_dec_uvarint" unfolding progress_def pb_dec_uvarint_def pb_decode_varint_def
    by (auto elim!: bind_SomeE split: option.splits dest!: store_checked_stream dest: varint_loop_less)
  show "progress pb_dec_svarint"
    unfolding progress_def pb_dec_svarint_def pb_decode_svarint_def pb_decode_varint_def
    by (auto elim!: bind_SomeE split: option.splits dest!: store_checked_stream dest: varint_loop_less)
  show "progress pb_dec_fixed32" unfolding progress_def pb_dec_fixed32_def pb_decode_fixed32_def
    by (auto elim!: bind_SomeE split: if_splits dest: pb_read_less [where n = 4, simplified])
  show "progress pb_dec_fixed64" unfolding progress_def pb_dec_fixed64_def pb_decode_fixed64_def
    by (auto elim!: bind_SomeE split: if_splits dest: pb_read_less [where n = 8, simplified])
qed

context input_source
begin

text \<open>\<open>dec_ok f func\<close>: the decoder is safe on a destination of the field's size.\<close>

definition dec_ok :: "pb_field \<Rightarrow> 's field_decoder \<Rightarrow> bool" where
  "dec_ok f func \<longleftrightarrow>
     (\<forall>s p m. stream_in src_ok avail s \<longrightarrow> valid_range m p (unat (data_size f)) \<longrightarrow>
        safe src_ok avail s m p (unat (data_size f)) (func s f p m))"

lemma dec_okD:
  "dec_ok f func \<Longrightarrow> stream_in src_ok avail s \<Longrightarrow> valid_range m p (unat (data_size f)) \<Longrightarrow>
   safe src_ok avail s m p (unat (data_size f)) (func s f p m)"
  by (simp add: dec_ok_def)

lemma decoder_for_ok:
  assumes f: "static_value env sub f" and a: "PB_ATYPE (ftype f) = PB_ATYPE_STATIC"
    and dsub: "PB_LTYPE (ftype f) = PB_LTYPE_SUBMESSAGE \<Longrightarrow> dec_ok f dec_submessage"
  obtains func where "decoder_for env dec_submessage f = Some func" "dec_ok f func"
    "PB_LTYPE (ftype f) \<le> PB_LTYPE_LAST_PACKABLE \<Longrightarrow> progress func"
proof -
  let ?t = "PB_LTYPE (ftype f)"
  have np: "PB_ATYPE (ftype f) \<noteq> PB_ATYPE_POINTER" using a by (simp add: atype_defs)
  have "?t < PB_LTYPES_COUNT \<and> ?t \<noteq> PB_LTYPE_EXTENSION"
    using f by (cases "?t = PB_LTYPE_SUBMESSAGE") (auto simp: static_value_def Let_def ltype_defs)
  then have "?t \<in> {PB_LTYPE_VARINT, PB_LTYPE_UVARINT, PB_LTYPE_SVARINT, PB_LTYPE_FIXED32,
      PB_LTYPE_FIXED64, PB_LTYPE_BYTES, PB_LTYPE_STRING, PB_LTYPE_SUBMESSAGE,
      PB_LTYPE_FIXED_LENGTH_BYTES}"
    using ltype_cases [of ?t] by auto
  then consider "?t = PB_LTYPE_VARINT" | "?t = PB_LTYPE_UVARINT" | "?t = PB_LTYPE_SVARINT"
    | "?t = PB_LTYPE_FIXED32" | "?t = PB_LTYPE_FIXED64" | "?t = PB_LTYPE_BYTES"
    | "?t = PB_LTYPE_STRING" | "?t = PB_LTYPE_SUBMESSAGE" | "?t = PB_LTYPE_FIXED_LENGTH_BYTES"
    by auto
  then show thesis
  proof cases
    case 1
    then show thesis using that [of pb_dec_varint] packable_progress(1)
      by (auto simp: decoder_for_def PB_DECODERS_def ltype_defs dec_ok_def dec_varint_safe)
  next
    case 2
    then show thesis using that [of pb_dec_uvarint] packable_progress(2)
      by (auto simp: decoder_for_def PB_DECODERS_def ltype_defs dec_ok_def dec_varint_safe)
  next
    case 3
    then show thesis using that [of pb_dec_svarint] packable_progress(3)
      by (auto simp: decoder_for_def PB_DECODERS_def ltype_defs dec_ok_def dec_varint_safe)
  next
    case 4
    with f have "data_size f = 4" by (simp add: static_value_def Let_def ltype_defs)
    with 4 show thesis using that [of pb_dec_fixed32] packable_progress(4)
      by (auto simp: decoder_for_def PB_DECODERS_def ltype_defs dec_ok_def dec_fixed_safe)
  next
    case 5
    with f have "data_size f = 8" by (simp add: static_value_def Let_def ltype_defs)
    with 5 show thesis using that [of pb_dec_fixed64] packable_progress(5)
      by (auto simp: decoder_for_def PB_DECODERS_def ltype_defs dec_ok_def dec_fixed_safe)
  next
    case 6
    then show thesis using that [of "pb_dec_bytes (env_alloc env)"] np
      by (auto simp: decoder_for_def PB_DECODERS_def ltype_defs dec_ok_def dec_bytes_safe)
  next
    case 7
    then show thesis using that [of "pb_dec_string (env_alloc env)"] np
      by (auto simp: decoder_for_def PB_DECODERS_def ltype_defs dec_ok_def dec_string_safe)
  next
    case 8
    then show thesis using that [of dec_submessage] dsub
      by (auto simp: decoder_for_def PB_DECODERS_def ltype_defs)
  next
    case 9
    then show thesis using that [of pb_dec_fixed_length_bytes]
      by (auto simp: decoder_for_def PB_DECODERS_def ltype_defs dec_ok_def dec_fixed_length_bytes_safe)
  qed
qed

subsection \<open>Packed arrays\<close>

lemma packed_loop_ok:
  assumes "stream_in src_ok avail sub" "valid_range m dest sz" "unat (bytes_left sub) < k"
    and "dec_ok f func" "progress func" "counter_ok dest sz (pSize it)" "dest \<le> pData it"
    "pData it + unat (data_size f) * unat (array_size f) \<le> dest + sz"
    "unat (data_size f) * unat (array_size f) < 2 ^ 32"
  shows "safe_fixed src_ok avail sub m dest sz (packed_loop k func f it sub m fixed)"
  using assms
proof (induction k arbitrary: sub m fixed)
  case 0
  then show ?case by simp
next
  case (Suc k)
  note v = Suc.prems(2)
  from load_counter_ok [OF Suc.prems(6) v] obtain c where c: "load_counter m fixed (pSize it) = Some c" by blast
  show ?case
  proof (cases "bytes_left sub = 0 \<or> \<not> c < array_size f")
    case True
    with c Suc.prems(1) show ?thesis by (auto intro!: safe_fixedI reads_refl)
  next
    case False
    let ?p = "item_at (pData it) f c"
    from False have "c < array_size f" by simp
    from item_at_inside [OF Suc.prems(8,9) this] Suc.prems(7)
    have p: "dest \<le> ?p" "?p + unat (data_size f) \<le> dest + sz" by simp_all
    with v have "valid_range m ?p (unat (data_size f))" by (rule_tac valid_range_mono) auto
    from dec_okD [OF Suc.prems(4,1) this]
    have "safe src_ok avail sub m dest sz (func sub f ?p m)" by (rule safe_mono) (use p in auto)
    then obtain ok sub1 m1 where r: "func sub f ?p m = Some (ok, sub1, m1)"
      and fo: "reads src_ok avail sub sub1" and fr: "frame_only m m1 dest sz" by (rule safeE)
    show ?thesis
    proof (cases ok)
      case notok: False
      with r c False fo fr show ?thesis by (auto intro!: safe_fixedI)
    next
      case True
      from v have v1: "valid_range m1 dest sz" by (simp add: frame_only_valid [OF fr])
      from load_counter_ok [OF Suc.prems(6) v1] obtain c1 where
        c1: "load_counter m1 fixed (pSize it) = Some c1" by blast
      from Suc.prems(6) v1 obtain m2 x2 where
        st: "store_counter m1 fixed (pSize it) (c1 + 1) = Some (m2, x2)" and
        fr2: "frame_only m1 m2 dest sz" by (rule store_counter_ok)
      from v1 have v2: "valid_range m2 dest sz" by (simp add: frame_only_valid [OF fr2])
      from r True have "unat (bytes_left sub1) < unat (bytes_left sub)"
        by (intro progressD [OF Suc.prems(5)]) simp
      with Suc.prems(3) have "unat (bytes_left sub1) < k" by simp
      from Suc.IH [OF reads_ok [OF fo] v2 this Suc.prems(4-9)] obtain fl s' m' x where
        "packed_loop k func f it sub1 m2 x2 = Some (fl, s', m', x)" "reads src_ok avail sub1 s'"
        "frame_only m2 m' dest sz" by (rule safe_fixedE)
      with r True c c1 st False reads_trans [of src_ok avail sub sub1 s'] fo
        frame_only_trans [OF frame_only_trans [OF fr fr2], of m']
      show ?thesis by (auto intro!: safe_fixedI)
    qed
  qed
qed

lemma decode_packed_static_ok:
  assumes s: "stream_in src_ok avail s" and v: "valid_range m dest sz"
    and f: "dec_ok f func" "progress func" "counter_ok dest sz (pSize it)" "dest \<le> pData it"
    "pData it + unat (data_size f) * unat (array_size f) \<le> dest + sz"
    "unat (data_size f) * unat (array_size f) < 2 ^ 32"
  shows "safe_fixed src_ok avail s m dest sz (decode_packed_static func s f it m fixed)"
  using s
proof (cases rule: make_substream_reads)
  case (fail s')
  then show ?thesis by (auto simp: decode_packed_static_def intro!: safe_fixedI)
next
  case (sub n s1 sub s')
  note l = sub(3)
  from packed_loop_ok [OF part_of_ok(1) [OF l] v _ f, of "Suc (unat (bytes_left sub))" fixed]
  obtain ok sub' m1 x1 where
    r: "packed_loop (Suc (unat (bytes_left sub))) func f it sub m fixed = Some (ok, sub', m1, x1)"
    and fo: "reads src_ok avail sub sub'" and fr: "frame_only m m1 dest sz"
    by (auto elim: safe_fixedE)
  show ?thesis
  proof (cases "bytes_left sub' = 0")
    case False
    with sub(1) r fr reads_trans [OF sub(2) part_of_ok(2) [OF l]] show ?thesis
      by (auto simp: decode_packed_static_def intro!: safe_fixedI)
  next
    case True
    from close_reads [OF l fo] obtain good s'' where
      "pb_close_string_substream s' sub' = Some (good, s'')" "reads src_ok avail s1 s''" .
    with sub(1) r fr True reads_trans [OF sub(2), of s''] show ?thesis
      by (auto simp: decode_packed_static_def intro!: safe_fixedI)
  qed
qed

subsection \<open>One static field\<close>

lemma decode_static_field_ok:
  assumes wf: "wf_fields fl" and it: "iter_ok fl dest it"
    and f: "static_field env (static_msg d env) fl sz (pos it)" and n: "d \<le> n"
    and s: "stream_in src_ok avail s" and v: "valid_range m dest sz"
    and dsub: "PB_LTYPE (ftype (fl ! pos it)) = PB_LTYPE_SUBMESSAGE \<Longrightarrow>
      dec_ok (fl ! pos it) dec_submessage"
  shows "safe_fixed src_ok avail s m dest sz
    (decode_static_field n env dec_submessage s wire_type it m fixed)"
proof -
  let ?f = "fl ! pos it" and ?p = "dest + field_off fl (pos it)"
  let ?a = "nat (int dest + size_off fl (pos it))" and ?h = "PB_HTYPE (ftype (fl ! pos it))"
  let ?n = "unat (data_size ?f)"
  note D = static_fieldD(1,2) [OF f] static_fieldD(3-7) [OF f, of dest]
  have itf: "iter_field it = Some ?f" by (rule iter_field_ok [OF wf it])
  have pd: "pData it = ?p" and ps: "pSize it = SzMem ?a \<or> pSize it = SzFixed \<and> ?h = PB_HTYPE_REPEATED"
    using it by (auto simp: iter_ok_def iter_at_offsets)
  obtain func where dec: "decoder_for env dec_submessage ?f = Some func" and fok: "dec_ok ?f func"
    and pr: "PB_LTYPE (ftype ?f) \<le> PB_LTYPE_LAST_PACKABLE \<Longrightarrow> progress func"
    using decoder_for_ok [OF D(2,1) dsub] by blast
  have val: "safe src_ok avail s m1 dest sz (func s ?f q m1)"
    if "valid_range m1 dest sz" "dest \<le> q" "q + ?n \<le> dest + sz" for m1 q
  proof -
    from that have "valid_range m1 q ?n" by (rule_tac valid_range_mono) auto
    from dec_okD [OF fok s this] that show ?thesis by (rule_tac safe_mono) auto
  qed
  have call: "safe_fixed src_ok avail s m1 dest sz
      (do { (ok, s', m') \<leftarrow> func s ?f ?p m1; Some (ok, s', m', fixed) })"
    if "valid_range m1 dest sz" "?h \<noteq> PB_HTYPE_REPEATED" for m1
    using that D(3,4) by (intro safe_fixed_of val) (simp_all add: field_extent_def)
  have same: "valid_range m1 dest sz" if "frame_only m m1 dest sz" for m1
    using v frame_only_valid [OF that] by simp
  consider (req) "?h = PB_HTYPE_REQUIRED" | (opt) "?h = PB_HTYPE_OPTIONAL"
    | (rep) "?h = PB_HTYPE_REPEATED" | (oneof) "?h = PB_HTYPE_ONEOF"
    | (none) "?h \<noteq> PB_HTYPE_REQUIRED" "?h \<noteq> PB_HTYPE_OPTIONAL" "?h \<noteq> PB_HTYPE_REPEATED"
        "?h \<noteq> PB_HTYPE_ONEOF" by blast
  then show ?thesis
  proof cases
    case req
    with call [OF v] itf dec pd show ?thesis by (simp add: decode_static_field_def Let_def)
  next
    case opt
    with ps have a: "pSize it = SzMem ?a" by simp
    have "writes m dest sz (if SzMem ?a \<noteq> SzMem ?p then store_size m (SzMem ?a) 1 1 else Some m)"
      using D(5) [OF opt] v by (auto intro!: writes_store_size writes_SomeI)
    from safe_fixed_writes [OF this call [OF same]] opt itf dec pd a show ?thesis
      by (simp add: decode_static_field_def Let_def split: if_splits)
  next
    case rep
    have c: "counter_ok dest sz (pSize it)" using ps D(6) [OF rep] by (auto simp: counter_ok_def)
    have reg: "dest \<le> ?p" "?p + unat (data_size ?f) * unat (array_size ?f) \<le> dest + sz"
      "unat (data_size ?f) * unat (array_size ?f) < 2 ^ 32"
      using D(3,4,6) rep by (simp_all add: field_extent_def)
    show ?thesis
    proof (cases "wire_type = PB_WT_STRING \<and> PB_LTYPE (ftype ?f) \<le> PB_LTYPE_LAST_PACKABLE")
      case True
      with decode_packed_static_ok [OF s v fok pr c] reg rep itf dec pd show ?thesis
        by (simp add: decode_static_field_def Let_def)
    next
      case unpacked: False
      from load_counter_ok [OF c v] obtain k where k: "load_counter m fixed (pSize it) = Some k" by blast
      from c v obtain m1 x1 where st: "store_counter m fixed (pSize it) (k + 1) = Some (m1, x1)"
        and fr: "frame_only m m1 dest sz" by (rule store_counter_ok)
      show ?thesis
      proof (cases "array_size ?f \<le> k")
        case True
        with rep itf dec pd unpacked k st fr s show ?thesis
          by (auto simp: decode_static_field_def Let_def intro!: safe_fixedI reads_refl)
      next
        case False
        then have "k < array_size ?f" by simp
        from item_at_inside [OF reg(2,3) this] reg(1)
        have "safe src_ok avail s m1 dest sz (func s ?f (item_at ?p ?f k) m1)"
          by (intro val same fr) simp_all
        then obtain ok s' m2 where "func s ?f (item_at ?p ?f k) m1 = Some (ok, s', m2)"
          "reads src_ok avail s s'" "frame_only m1 m2 dest sz" by (rule safeE)
        with rep itf dec pd unpacked k st False frame_only_trans [OF fr, of m2] show ?thesis
          by (auto simp: decode_static_field_def Let_def intro!: safe_fixedI)
      qed
    qed
  next
    case oneof
    with ps have a: "pSize it = SzMem ?a" by simp
    have p: "?p + ?n \<le> dest + sz" "dest \<le> ?p" using D(3,4) oneof by (simp_all add: field_extent_def)
    have w1: "writes m dest sz (store_size m (SzMem ?a) 4 (ucast (tag ?f)))"
      using D(7) [OF oneof] v by (auto intro!: writes_store_size)
    have w2: "writes m1 dest sz (if PB_LTYPE (ftype ?f) = PB_LTYPE_SUBMESSAGE then do {
                m' \<leftarrow> memset_zero m1 ?p ?n;
                fl' \<leftarrow> sub_fields env (fptr ?f);
                pb_message_set_to_defaults n env fl' ?p m' }
              else Some m1)" if "frame_only m m1 dest sz" for m1
    proof (cases "PB_LTYPE (ftype ?f) = PB_LTYPE_SUBMESSAGE")
      case True
      with D(2) obtain fl' where fl': "sub_fields env (fptr ?f) = Some fl'" "static_msg d env fl' ?n"
        by (auto simp: static_value_def Let_def split: option.splits)
      have "writes m1 dest sz (Option.bind (memset_zero m1 ?p ?n) (pb_message_set_to_defaults n env fl' ?p))"
      proof (rule writes_seq)
        show "writes m1 dest sz (memset_zero m1 ?p ?n)"
          using same [OF that] p by (intro writes_memset_zero)
        fix m2 assume fr: "frame_only m1 m2 dest sz"
        have "valid_range m2 ?p ?n" using same [OF frame_only_trans [OF that fr]]
          by (rule valid_range_mono) (use p in auto)
        from static_set_to_defaults [OF fl'(2) n this]
        show "writes m2 dest sz (pb_message_set_to_defaults n env fl' ?p m2)"
          by (rule writes_mono) (use p in auto)
      qed
      with True fl'(1) show ?thesis by simp
    qed (simp add: writes_SomeI)
    have "safe_fixed src_ok avail s m dest sz (do {
       m1 \<leftarrow> store_size m (SzMem ?a) 4 (ucast (tag ?f));
       m2 \<leftarrow> (if PB_LTYPE (ftype ?f) = PB_LTYPE_SUBMESSAGE then do {
                m' \<leftarrow> memset_zero m1 ?p ?n;
                fl' \<leftarrow> sub_fields env (fptr ?f);
                pb_message_set_to_defaults n env fl' ?p m' }
              else Some m1);
       (ok, s', m') \<leftarrow> func s ?f ?p m2; Some (ok, s', m', fixed) })"
    proof (rule safe_fixed_writes [OF w1], rule safe_fixed_writes [OF w2], assumption)
      fix m1 m2 assume "frame_only m m1 dest sz" "frame_only m1 m2 dest sz"
      then have "valid_range m2 dest sz" using same frame_only_trans by blast
      with call oneof show "safe_fixed src_ok avail s m2 dest sz
          (do { (ok, s', m') \<leftarrow> func s ?f ?p m2; Some (ok, s', m', fixed) })" by simp
    qed
    with oneof itf dec pd a show ?thesis
      by (simp add: decode_static_field_def Let_def cong: if_cong)
  next
    case none
    with itf dec s show ?thesis
      by (auto simp: decode_static_field_def Let_def intro!: safe_fixedI reads_refl)
  qed
qed

end

end
