(* ===== verification/PbDecodeSafe.thy ===== *)
theory PbDecodeSafe
  imports PbDecodeOk
begin

text \<open>
  The decoding loop on a message in one struct, from one field up to \<open>pb_decode\<close>.
\<close>

subsection \<open>Iterators of a static message\<close>

lemma iter_static:
  assumes st: "static_msg (Suc d) env fl sz" and it: "iter_ok fl dest it"
  shows "static_field env (static_msg d env) fl sz (pos it)"
proof (cases "n_fields fl = 0")
  case False
  with it have "pos it < n_fields fl" by (simp add: iter_ok_def)
  with static_msgD(3) [OF st] show ?thesis .
next
  case True
  with it have "pos it = 0" by (simp add: iter_ok_def)
  moreover from static_msgD(2) [OF st] True have "fl ! 0 = PB_LAST_FIELD" by simp
  moreover have "static_value env (static_msg d env) PB_LAST_FIELD"
    by (simp add: static_value_def PB_LAST_FIELD_def pb_type_defs)
  ultimately show ?thesis
    by (simp add: static_field_def Let_def field_extent_def)
      (simp add: PB_LAST_FIELD_def pb_type_defs)
qed

text \<open>Only at a repeated field is \<open>pSize\<close> anything else than the iterator's own.\<close>

lemma iter_ok_eq:
  assumes "iter_ok fl dest it" "PB_HTYPE (ftype (fl ! pos it)) \<noteq> PB_HTYPE_REPEATED"
  shows "it = iter_at fl dest (pos it)"
  using assms by (auto simp: iter_ok_def intro: pb_field_iter.equality)

lemma static_no_extension:
  assumes "static_field env sub fl sz i"
  shows "PB_LTYPE (ftype (fl ! i)) \<noteq> PB_LTYPE_EXTENSION"
  using static_fieldD(2) [OF assms]
  by (auto simp: static_value_def Let_def PB_LTYPE_SUBMESSAGE_def PB_LTYPE_EXTENSION_def)

lemma iter_find_static:
  assumes st: "static_msg (Suc d) env fl sz" and it: "iter_ok fl dest it"
  obtains found it' where "pb_field_iter_find it t = Some (found, it')" "iter_ok fl dest it'"
    "found \<Longrightarrow> tag (fl ! pos it') = t" "found \<Longrightarrow> it' = it \<or> it' = iter_at fl dest (pos it')"
    "found \<longleftrightarrow> (if n_fields fl = 0 then t = 0 else \<exists>i < n_fields fl. tag (fl ! i) = t)"
proof -
  note wf = static_msgD(1) [OF st]
  have noext: "PB_LTYPE (ftype (fl ! i)) \<noteq> PB_LTYPE_EXTENSION" if "i < n_fields fl" for i
    by (rule static_no_extension [OF static_msgD(3) [OF st that]])
  show thesis
  proof (cases "n_fields fl = 0")
    case False
    then have ne: "0 < n_fields fl" by simp
    obtain found it' where
      l: "iter_find_loop (Suc (length (start it)))
         (\<lambda>f. tag f = t \<and> PB_LTYPE (ftype f) \<noteq> PB_LTYPE_EXTENSION) (pos it) it = Some (found, it')"
      and r: "iter_ok fl dest it'"
        "found \<longleftrightarrow> (\<exists>i < n_fields fl. tag (fl ! i) = t \<and> PB_LTYPE (ftype (fl ! i)) \<noteq> PB_LTYPE_EXTENSION)"
        "found \<Longrightarrow> tag (fl ! pos it') = t \<and> PB_LTYPE (ftype (fl ! pos it')) \<noteq> PB_LTYPE_EXTENSION"
        "found \<Longrightarrow> it' = it \<or> it' = iter_at fl dest (pos it')"
      by (rule iter_find_loop_ok [OF wf it ne,
            of "\<lambda>f. tag f = t \<and> PB_LTYPE (ftype f) \<noteq> PB_LTYPE_EXTENSION"]) blast
    from l r noext show thesis
      by (intro that [of found it']) (auto simp: pb_field_iter_find_def False)
  next
    case True
    from static_msgD(2) [OF st] True have t0: "fl ! 0 = PB_LAST_FIELD" by simp
    from it True have p0: "pos it = 0" by (simp add: iter_ok_def)
    have "pb_field_iter_find it t = Some (t = 0, it)"
      using iter_find_loop_empty [OF wf it True] t0
      by (auto simp: pb_field_iter_find_def PB_LAST_FIELD_def pb_type_defs)
    with it True t0 p0 show thesis
      by (intro that [of "t = 0" it]) (auto simp: PB_LAST_FIELD_def)
  qed
qed

lemma find_extension_static:
  assumes st: "static_msg (Suc d) env fl sz" and it: "iter_ok fl dest it"
  obtains it' where "find_extension_field it = Some (False, it')" "iter_ok fl dest it'"
proof -
  note wf = static_msgD(1) [OF st]
  have noext: "PB_LTYPE (ftype (fl ! i)) \<noteq> PB_LTYPE_EXTENSION" if "i < n_fields fl" for i
    by (rule static_no_extension [OF static_msgD(3) [OF st that]])
  show thesis
  proof (cases "n_fields fl = 0")
    case False
    then have ne: "0 < n_fields fl" by simp
    show thesis
      by (rule iter_find_loop_ok [OF wf it ne, of "\<lambda>f. PB_LTYPE (ftype f) = PB_LTYPE_EXTENSION"])
        (use noext that in \<open>auto simp: find_extension_field_def\<close>)
  next
    case True
    from static_msgD(2) [OF st] True have "fl ! 0 = PB_LAST_FIELD" by simp
    then have "find_extension_field it = Some (False, it)"
      using iter_find_loop_empty [OF wf it True]
      by (simp add: find_extension_field_def PB_LAST_FIELD_def pb_type_defs)
    with it that show thesis by blast
  qed
qed

context input_source
begin

lemma release_union_ok:
  assumes st: "static_msg (Suc d) env fl sz" and it: "iter_ok fl dest it" and n: "d < n"
    and s: "stream_in src_ok avail s" and v: "valid_range m dest sz"
    and one: "PB_HTYPE (ftype (fl ! pos it)) = PB_HTYPE_ONEOF"
  obtains ok s' it' where "pb_release_union_field n env s it m = Some (ok, s', it', m)"
    "iter_ok fl dest it'" "reads src_ok avail s s'"
proof -
  note wf = static_msgD(1) [OF st]
  note f = iter_static [OF st it]
  from it one have ps: "pSize it = SzMem (nat (int dest + size_off fl (pos it)))"
    by (auto simp: iter_ok_def iter_at_offsets)
  from static_fieldD(7) [OF f one, of dest] load_size_valid [OF v] obtain old where
    old: "load_size m (pSize it) = Some old" unfolding ps by blast
  have itf: "iter_field it = Some (fl ! pos it)" by (rule iter_field_ok [OF wf it])
  show thesis
  proof (cases "old = 0 \<or> old = tag (fl ! pos it)")
    case True
    with old itf have "pb_release_union_field n env s it m = Some (True, s, it, m)"
      by (auto simp: pb_release_union_field_def Let_def)
    then show thesis by (rule that [OF _ it reads_refl [OF s]])
  next
    case False
    from iter_find_static [OF st it, of old] obtain found it1 where
      find1: "pb_field_iter_find it old = Some (found, it1)" and it1: "iter_ok fl dest it1"
      and t1: "found \<Longrightarrow> tag (fl ! pos it1) = old" and e1: "found \<Longrightarrow> it1 = it \<or> it1 = iter_at fl dest (pos it1)"
      and f1: "found \<longleftrightarrow> (if n_fields fl = 0 then old = 0 else \<exists>i < n_fields fl. tag (fl ! i) = old)"
      by blast
    show thesis
    proof (cases found)
      case notfound: False
      with False old itf find1 have "pb_release_union_field n env s it m =
          Some (False, is_set_error ''invalid union tag'' s, it1, m)"
        by (auto simp: pb_release_union_field_def Let_def)
      then show thesis by (rule that [OF _ it1]) (simp add: reads_refl [OF s])
    next
      case True
      with t1 False e1 have eq: "it1 = iter_at fl dest (pos it1)" by auto
      from True f1 False have "n_fields fl \<noteq> 0" by (auto split: if_splits)
      with it1 have p1: "pos it1 < n_fields fl" by (simp add: iter_ok_def)
      from n obtain n' where n': "n = Suc n'" "d \<le> n'" by (cases n) auto
      have "pb_release_single_field (Suc n') env (iter_at fl dest (pos it1)) m = Some m"
      proof (rule release_single_field_ok [OF _ wf p1 static_msgD(3) [OF st p1] v])
        fix fl' k p assume "static_msg d env fl' k" "valid_range m p k"
        from static_release [OF this(1) n'(2) this(2)]
        show "release_message (pb_release_single_field n' env) (Some fl') p m = Some m"
          by (simp add: pb_release_def)
      qed
      then have rel: "pb_release_single_field n env it1 m = Some m" using eq n'(1) by metis
      from iter_find_static [OF st it1, of "tag (fl ! pos it)"] obtain found2 it2 where
        find2: "pb_field_iter_find it1 (tag (fl ! pos it)) = Some (found2, it2)" and it2: "iter_ok fl dest it2"
        by blast
      have "pb_release_union_field n env s it m =
          (if found2 then Some (True, s, it2, m)
           else Some (False, is_set_error ''iterator error'' s, it2, m))"
        using old itf False find1 True rel find2 by (simp add: pb_release_union_field_def Let_def)
      then show thesis
        by (cases found2) (auto intro: that [OF _ it2] simp: reads_refl [OF s])
    qed
  qed
qed

text \<open>\<open>decode_field\<close>, the iterator being at some entry.\<close>

lemma decode_field_ok:
  assumes st: "static_msg (Suc d) env fl sz" and it: "iter_ok fl dest it" and n: "d < n"
    and s: "stream_in src_ok avail s" and v: "valid_range m dest sz"
    and dsub: "\<And>i. static_value env (static_msg d env) (fl ! i) \<Longrightarrow>
      PB_LTYPE (ftype (fl ! i)) = PB_LTYPE_SUBMESSAGE \<Longrightarrow> dec_ok (fl ! i) dec_submessage"
  obtains ok s' it' m' x' where
    "decode_field n env dec_submessage s wire_type it m x = Some (ok, s', it', m', x')"
    "iter_ok fl dest it'" "reads src_ok avail s s'" "frame_only m m' dest sz"
proof -
  note wf = static_msgD(1) [OF st]
  have itf: "iter_field it = Some (fl ! pos it)" by (rule iter_field_ok [OF wf it])
  obtain ok1 s1 it1 where
    rel: "(if PB_HTYPE (ftype (fl ! pos it)) = PB_HTYPE_ONEOF then pb_release_union_field n env s it m
           else Some (True, s, it, m)) = Some (ok1, s1, it1, m)"
    and it1: "iter_ok fl dest it1" and fo1: "reads src_ok avail s s1"
  proof (cases "PB_HTYPE (ftype (fl ! pos it)) = PB_HTYPE_ONEOF")
    case True
    from release_union_ok [OF st it n s v True] True that show thesis by (metis (no_types, lifting))
  next
    case False
    with it s that show thesis by (simp add: reads_refl)
  qed
  show thesis
  proof (cases ok1)
    case False
    with rel itf it1 fo1 that [of False s1 it1 m x] show thesis by (simp add: decode_field_def)
  next
    case True
    have f1: "static_field env (static_msg d env) fl sz (pos it1)" by (rule iter_static [OF st it1])
    have itf1: "iter_field it1 = Some (fl ! pos it1)" by (rule iter_field_ok [OF wf it1])
    from n have "d \<le> n" by simp
    have "safe_fixed src_ok avail s1 m dest sz
        (decode_static_field n env dec_submessage s1 wire_type it1 m x)"
      by (rule decode_static_field_ok [OF wf it1 f1 \<open>d \<le> n\<close> reads_ok [OF fo1] v
            dsub [OF static_fieldD(2) [OF f1]]])
    then obtain ok s' m' x' where
      dec: "decode_static_field n env dec_submessage s1 wire_type it1 m x = Some (ok, s', m', x')"
      and fo: "reads src_ok avail s1 s'" and fr: "frame_only m m' dest sz" by (rule safe_fixedE)
    from fo1 True fo have "reads src_ok avail s s'" by (auto intro: reads_trans)
    with dec rel itf True itf1 static_fieldD(1) [OF f1] it1 fr that [of ok s' it1 m' x'] show thesis
      by (simp add: decode_field_def Let_def)
  qed
qed

subsection \<open>The decoding loop\<close>

definition loop_inv :: "pb_field list \<Rightarrow> nat \<Rightarrow> nat \<Rightarrow> 's pb_istream \<Rightarrow> mem \<Rightarrow> 's dec_state \<Rightarrow> bool" where
  "loop_inv fl dest sz s m st \<longleftrightarrow>
     reads src_ok avail s (ds_stream st) \<and> iter_ok fl dest (ds_iter st) \<and>
     frame_only m (ds_mem st) dest sz \<and> (\<forall>i. ds_fixed_field st = Some i \<longrightarrow> i < length fl)"

lemma fixed_count_wrong_ok:
  "loop_inv fl dest sz s m st \<Longrightarrow> \<exists>b. fixed_count_wrong st = Some b"
  by (auto simp: loop_inv_def iter_ok_def fixed_count_wrong_def nth_opt_less split: option.split)

lemma loop_invD:
  assumes "loop_inv fl dest sz s m st" "valid_range m dest sz"
  shows "stream_in src_ok avail (ds_stream st)" "valid_range (ds_mem st) dest sz"
    "iter_ok fl dest (ds_iter st)" "frame_only m (ds_mem st) dest sz"
    "reads src_ok avail s (ds_stream st)"
proof -
  from assms have "frame_only m (ds_mem st) dest sz" by (simp add: loop_inv_def)
  with assms(2) show "valid_range (ds_mem st) dest sz" by (simp add: frame_only_valid)
qed (use assms in \<open>auto simp: loop_inv_def intro: reads_ok\<close>)

lemma known_field_ok:
  assumes st: "static_msg (Suc d) env fl sz" and n: "d < n" and v: "valid_range m dest sz"
    and inv: "loop_inv fl dest sz s m ds"
    and dsub: "\<And>i. static_value env (static_msg d env) (fl ! i) \<Longrightarrow>
      PB_LTYPE (ftype (fl ! i)) = PB_LTYPE_SUBMESSAGE \<Longrightarrow> dec_ok (fl ! i) dec_submessage"
  shows "\<exists>ctrl ds'. known_field n env dec_submessage wire_type ds = Some (ctrl, ds') \<and>
     loop_inv fl dest sz s m ds' \<and>
     unat (bytes_left (ds_stream ds')) \<le> unat (bytes_left (ds_stream ds))"
proof -
  note I = loop_invD [OF inv v]
  note wf = static_msgD(1) [OF st]
  let ?it = "ds_iter ds"
  let ?f = "fl ! pos ?it"
  let ?fc = "PB_HTYPE (ftype ?f) = PB_HTYPE_REPEATED \<and> pSize ?it = SzMem (pData ?it)"
  let ?new = "?fc \<and> ds_fixed_field ds \<noteq> Some (pos ?it)"
  let ?ds1 = "if ?new then ds\<lparr>ds_fixed_field := Some (pos ?it), ds_fixed_size := 0\<rparr> else ds"
  let ?it1 = "if ?fc then ?it\<lparr>pSize := SzFixed\<rparr> else ?it"
  have itf: "iter_field ?it = Some ?f" by (rule iter_field_ok [OF wf I(3)])
  have "\<exists>b. (if ?new then fixed_count_wrong ds else Some False) = Some b"
  proof -
    have "\<exists>b. (if c then x else Some False) = Some b" if "\<exists>b. x = Some b" for c x
      using that by (cases c) auto
    from this [OF fixed_count_wrong_ok [OF inv]] show ?thesis .
  qed
  then obtain b where b: "(if ?new then fixed_count_wrong ds else Some False) = Some b" by blast
  show ?thesis
  proof (cases b)
    case True
    with b itf inv show ?thesis
      by (auto simp: known_field_def Let_def loop_inv_def split: if_splits)
  next
    case False
    have it1: "iter_ok fl dest ?it1" using I(3) by (auto simp: iter_ok_def)
    from I(3) have plen: "pos ?it < length fl"
      using n_fields_length [OF wf] by (auto simp: iter_ok_def)
    obtain ok s' it' m' x' where
      dec: "decode_field n env dec_submessage (ds_stream ds) wire_type ?it1 (ds_mem ds)
        (ds_fixed_size ?ds1) = Some (ok, s', it', m', x')"
      and it': "iter_ok fl dest it'" and fo: "reads src_ok avail (ds_stream ds) s'"
      and fr: "frame_only (ds_mem ds) m' dest sz"
      by (rule decode_field_ok [OF st it1 n I(1,2) dsub])
    let ?seen = "if PB_HTYPE (ftype ?f) = PB_HTYPE_REQUIRED \<and>
        required_field_index ?it1 < PB_MAX_REQUIRED_FIELDS
      then mark_seen (required_field_index ?it1) (ds_seen ?ds1) else ds_seen ?ds1"
    let ?ds' = "?ds1\<lparr>ds_stream := s', ds_iter := it', ds_mem := m', ds_seen := ?seen,
        ds_fixed_size := x'\<rparr>"
    have ds1: "ds_stream ?ds1 = ds_stream ds" "ds_mem ?ds1 = ds_mem ds" by simp_all
    have "known_field n env dec_submessage wire_type ds =
        Some (if ok then Continue else Return_False, ?ds')"
      unfolding known_field_def Let_def itf bind.simps b ds1 dec prod.case
      by (simp only: False if_False)
    moreover have "loop_inv fl dest sz s m ?ds'"
      using inv it' plen reads_trans [OF I(5) fo] frame_only_trans [OF I(4) fr]
      by (simp add: loop_inv_def)
    ultimately show ?thesis using reads_left [OF fo] by (cases ok) auto
  qed
qed

lemma unknown_field_ok:
  assumes st: "static_msg (Suc d) env fl sz" and v: "valid_range m dest sz"
    and inv: "loop_inv fl dest sz s m ds" and t: "t < - 1"
  shows "\<exists>ctrl ds'. unknown_field n env dec_submessage wire_type t ds = Some (ctrl, ds') \<and>
     loop_inv fl dest sz s m ds' \<and>
     unat (bytes_left (ds_stream ds')) \<le> unat (bytes_left (ds_stream ds))"
proof -
  note I = loop_invD [OF inv v]
  from I(1) obtain ok s' where sk: "pb_skip_field (ds_stream ds) wire_type = Some (ok, s')"
    and a: "reads src_ok avail (ds_stream ds) s'" by (rule skip_field_reads)
  from reads_trans [OF I(5) a] have fo: "reads src_ok avail s s'" .
  from I(3) obtain it' where fi: "find_extension_field (ds_iter ds) = Some (False, it')"
    and it': "iter_ok fl dest it'" by (rule find_extension_static [OF st])
  have itf: "iter_field it' = Some (fl ! pos it')"
    by (rule iter_field_ok [OF static_msgD(1) [OF st] it'])
  from sk fi itf t inv it' fo reads_left [OF a] show ?thesis
    by (auto simp: unknown_field_def Let_def loop_inv_def split: if_splits)
qed

text \<open>A tag is at most \<open>2 ^ 29 - 1\<close>.\<close>

lemma decode_tag_bound:
  assumes "pb_decode_tag s = Some (Some (wt, t), eof, s')"
  shows "t < - 1"
proof -
  from assms obtain temp where t: "t = drop_bit 3 temp"
    by (auto simp: pb_decode_tag_def elim!: bind_SomeE split: option.splits if_splits)
  have "unat temp div 8 < 536870912" by (rule less_mult_imp_div_less) simp
  then have "unat (drop_bit 3 temp) < 536870912"
    by (simp only: unat_drop_bit_eq) (simp add: drop_bit_eq_div)
  moreover have "unat (- 1 :: u32) = 4294967295"
  proof -
    have "(- 1 :: u32) = 4294967295" by simp
    then show ?thesis by (simp only:) simp
  qed
  ultimately show ?thesis using t by (simp add: word_less_nat_alt)
qed

lemma decode_step_ok:
  assumes st: "static_msg (Suc d) env fl sz" and n: "d < n" and v: "valid_range m dest sz"
    and inv: "loop_inv fl dest sz s m ds"
    and dsub: "\<And>i. static_value env (static_msg d env) (fl ! i) \<Longrightarrow>
      PB_LTYPE (ftype (fl ! i)) = PB_LTYPE_SUBMESSAGE \<Longrightarrow> dec_ok (fl ! i) dec_submessage"
  shows "\<exists>ctrl ds'. decode_step n env dec_submessage ds = Some (ctrl, ds') \<and>
     loop_inv fl dest sz s m ds' \<and>
     (ctrl = Continue \<longrightarrow> unat (bytes_left (ds_stream ds')) < unat (bytes_left (ds_stream ds)))"
proof -
  note I = loop_invD [OF inv v]
  from I(1) obtain r eof s1 where tg: "pb_decode_tag (ds_stream ds) = Some (r, eof, s1)"
    and a: "reads src_ok avail (ds_stream ds) s1" and k: "r \<noteq> None \<Longrightarrow> unat (bytes_left s1) < unat (bytes_left (ds_stream ds)) \<and> \<not> eof"
    by (rule tag_reads) blast
  let ?ds1 = "ds\<lparr>ds_stream := s1\<rparr>"
  have inv1: "loop_inv fl dest sz s m ?ds1"
    using inv reads_trans [OF I(5) a] by (simp add: loop_inv_def)
  show ?thesis
  proof (cases r)
    case None
    with tg inv1 show ?thesis
      by (cases eof) (auto simp: decode_step_def Let_def loop_inv_def)
  next
    case (Some wtt)
    obtain wt t where wtt: "wtt = (wt, t)" by (cases wtt)
    from I(3) obtain found it' where fi: "pb_field_iter_find (ds_iter ds) t = Some (found, it')"
      and it': "iter_ok fl dest it'" by (rule iter_find_static [OF st, where t = t]) blast
    let ?ds2 = "?ds1\<lparr>ds_iter := it'\<rparr>"
    have inv2: "loop_inv fl dest sz s m ?ds2" using inv1 it' by (simp add: loop_inv_def)
    have less: "unat (bytes_left s1) < unat (bytes_left (ds_stream ds))"
      using k Some by simp
    have tb: "t < - 1" using decode_tag_bound tg Some wtt by blast
    have "\<exists>ctrl ds'. (if found then known_field n env dec_submessage wt ?ds2
          else unknown_field n env dec_submessage wt t ?ds2) = Some (ctrl, ds') \<and>
       loop_inv fl dest sz s m ds' \<and>
       unat (bytes_left (ds_stream ds')) \<le> unat (bytes_left (ds_stream ?ds2))"
      using known_field_ok [OF st n v inv2 dsub] unknown_field_ok [OF st v inv2 tb]
      by (cases found) simp_all
    with tg Some wtt fi less show ?thesis by (auto simp: decode_step_def Let_def)
  qed
qed

lemma decode_loop_ok:
  assumes st: "static_msg (Suc d) env fl sz" and n: "d < n" and v: "valid_range m dest sz"
    and dsub: "\<And>i. static_value env (static_msg d env) (fl ! i) \<Longrightarrow>
      PB_LTYPE (ftype (fl ! i)) = PB_LTYPE_SUBMESSAGE \<Longrightarrow> dec_ok (fl ! i) dec_submessage"
  shows "loop_inv fl dest sz s m ds \<Longrightarrow> unat (bytes_left (ds_stream ds)) < k \<Longrightarrow>
    \<exists>ok ds'. decode_loop k n env dec_submessage ds = Some (ok, ds') \<and> loop_inv fl dest sz s m ds'"
proof (induction k arbitrary: ds)
  case 0
  then show ?case by simp
next
  case (Suc k)
  show ?case
  proof (cases "bytes_left (ds_stream ds) = 0")
    case True
    with Suc.prems show ?thesis by auto
  next
    case False
    from decode_step_ok [OF st n v Suc.prems(1) dsub] obtain ctrl ds' where
      step: "decode_step n env dec_submessage ds = Some (ctrl, ds')"
      and inv: "loop_inv fl dest sz s m ds'"
      and less: "ctrl = Continue \<longrightarrow> unat (bytes_left (ds_stream ds')) < unat (bytes_left (ds_stream ds))"
      by blast
    show ?thesis
    proof (cases ctrl)
      case Continue
      with less Suc.prems(2) have "unat (bytes_left (ds_stream ds')) < k" by simp
      with Suc.IH [of ds'] inv step False Continue show ?thesis by auto
    qed (use inv step False in auto)
  qed
qed

lemma count_required_ok:
  assumes wf: "wf_fields fl"
  shows "iter_ok fl dest it \<Longrightarrow> n_fields fl - pos it < k \<Longrightarrow>
    \<exists>c ty it'. count_required k it = Some (c, ty, it') \<and> iter_ok fl dest it'"
proof (induction k arbitrary: it)
  case 0
  then show ?case by simp
next
  case (Suc k)
  have f: "iter_field it = Some (fl ! pos it)" by (rule iter_field_ok [OF wf Suc.prems(1)])
  note nx = iter_next_ok [OF wf Suc.prems(1)]
  show ?case
  proof (cases "n_fields fl = 0")
    case True
    with f nx Suc.prems(1) show ?thesis by simp
  next
    case False
    show ?thesis
    proof (cases "Suc (pos it) < n_fields fl")
      case True
      have "iter_ok fl dest (iter_at fl dest (Suc (pos it)))" using True by (intro iter_ok_at) simp
      moreover from True Suc.prems(2) have "n_fields fl - pos (iter_at fl dest (Suc (pos it))) < k" by simp
      ultimately obtain c ty it' where
        "count_required k (iter_at fl dest (Suc (pos it))) = Some (c, ty, it')" "iter_ok fl dest it'"
        using Suc.IH by blast
      with f nx False True show ?thesis by simp
    next
      case last: False
      have "iter_ok fl dest (iter_at fl dest 0)" using False by (intro iter_ok_at) simp
      with f nx False last show ?thesis by simp
    qed
  qed
qed

lemma check_required_ok:
  assumes wf: "wf_fields fl" and it: "iter_ok fl dest it"
  shows "\<exists>b. check_required it seen = Some b"
proof -
  have "n_fields fl - pos it < length (start it)"
    using n_fields_length [OF wf] it by (simp add: iter_ok_def)
  from count_required_ok [OF wf it this] obtain c ty it' where
    "count_required (length (start it)) it = Some (c, ty, it')" "iter_ok fl dest it'" by blast
  with iter_field_ok [OF wf] show ?thesis by (simp add: check_required_def Let_def)
qed

lemma decode_message_ok:
  assumes st: "static_msg (Suc d) env fl sz" and n: "d < n" and v: "valid_range m dest sz"
    and s: "stream_in src_ok avail s"
    and dsub: "\<And>i. static_value env (static_msg d env) (fl ! i) \<Longrightarrow>
      PB_LTYPE (ftype (fl ! i)) = PB_LTYPE_SUBMESSAGE \<Longrightarrow> dec_ok (fl ! i) dec_submessage"
  shows "safe src_ok avail s m dest sz (decode_message n env dec_submessage s fl dest m)"
proof -
  note wf = static_msgD(1) [OF st]
  let ?ds = "\<lparr>ds_stream = s, ds_iter = iter_at fl dest 0, ds_mem = m, ds_seen = (0, 0),
    ds_ext_start = 0, ds_fixed_field = None, ds_fixed_size = 0\<rparr>"
  have inv0: "loop_inv fl dest sz s m ?ds"
    using s iter_ok_at [of 0 fl dest] by (auto simp: loop_inv_def reads_refl)
  from decode_loop_ok [OF st n v dsub inv0, of "Suc (unat (bytes_left s))"] obtain ok ds where
    l: "decode_loop (Suc (unat (bytes_left s))) n env dec_submessage ?ds = Some (ok, ds)"
    and inv: "loop_inv fl dest sz s m ds" by auto
  note I = loop_invD [OF inv v]
  from fixed_count_wrong_ok [OF inv] obtain b where "fixed_count_wrong ds = Some b" by blast
  moreover from check_required_ok [OF wf I(3)] obtain c where
    "check_required (ds_iter ds) (ds_seen ds) = Some c" by blast
  ultimately show ?thesis using l I(4,5)
    by (auto simp: decode_message_def iter_begin_wf [OF wf] intro!: safeI)
qed

subsection \<open>The entry points\<close>

lemma dec_submessage_ok:
  assumes f: "static_value env sub f" and t: "PB_LTYPE (ftype f) = PB_LTYPE_SUBMESSAGE"
    and dec: "\<And>fl k s p m. sub fl k \<Longrightarrow> stream_in src_ok avail s \<Longrightarrow> valid_range m p k \<Longrightarrow>
      safe src_ok avail s m p k (decode s fl p m)"
    and noinit: "\<And>fl k s p m. sub fl k \<Longrightarrow> stream_in src_ok avail s \<Longrightarrow> valid_range m p k \<Longrightarrow>
      safe src_ok avail s m p k (decode_noinit s fl p m)"
  shows "dec_ok f (pb_dec_submessage env decode decode_noinit)"
  unfolding dec_ok_def
proof (intro allI impI)
  fix s p m assume s: "stream_in src_ok avail s" and v: "valid_range m p (unat (data_size f))"
  from f t obtain fl where fl: "sub_fields env (fptr f) = Some fl" and sub: "sub fl (unat (data_size f))"
    by (auto simp: static_value_def Let_def split: option.splits)
  then have np: "fptr f \<noteq> PNull" by (auto simp: sub_fields_def)
  from s show "safe src_ok avail s m p (unat (data_size f))
      (pb_dec_submessage env decode decode_noinit s f p m)"
  proof (cases rule: make_substream_reads)
    case (fail s')
    then show ?thesis by (auto simp: pb_dec_submessage_def intro!: safeI)
  next
    case (sub n s1 substream s')
    note l = sub(3)
    from dec [OF \<open>sub fl (unat (data_size f))\<close> part_of_ok(1) [OF l] v]
      noinit [OF \<open>sub fl (unat (data_size f))\<close> part_of_ok(1) [OF l] v]
    have "safe src_ok avail substream m p (unat (data_size f))
        (if PB_HTYPE (ftype f) = PB_HTYPE_REPEATED then decode substream fl p m
         else decode_noinit substream fl p m)" by simp
    then obtain ok sub' m' where
      r: "(if PB_HTYPE (ftype f) = PB_HTYPE_REPEATED then decode substream fl p m
         else decode_noinit substream fl p m) = Some (ok, sub', m')"
      and fo: "reads src_ok avail substream sub'" and fr: "frame_only m m' p (unat (data_size f))"
      by (rule safeE)
    from close_reads [OF l fo] obtain good s'' where
      "pb_close_string_substream s' sub' = Some (good, s'')" "reads src_ok avail s1 s''" .
    with sub(1) fl np r fr reads_trans [OF sub(2), of s''] show ?thesis
      by (auto simp: pb_dec_submessage_def intro!: safeI)
  qed
qed

lemma decode_with_init_ok:
  assumes st: "static_msg d env fl sz" and n: "d \<le> n" and v: "valid_range m dest sz"
    and s: "stream_in src_ok avail s"
    and noinit: "\<And>m. valid_range m dest sz \<Longrightarrow> safe src_ok avail s m dest sz (noinit s fl dest m)"
  shows "safe src_ok avail s m dest sz (decode_with_init n env noinit s fl dest m)"
  unfolding decode_with_init_def
proof (rule safe_writes [OF static_set_to_defaults [OF st n v]])
  fix m1 assume fr: "frame_only m m1 dest sz"
  have v1: "valid_range m1 dest sz" using v by (simp add: frame_only_valid [OF fr])
  from noinit [OF v1] obtain ok s' m2 where r: "noinit s fl dest m1 = Some (ok, s', m2)"
    and fo: "reads src_ok avail s s'" and fr2: "frame_only m1 m2 dest sz" by (rule safeE)
  have v2: "valid_range m2 dest sz" using v1 by (simp add: frame_only_valid [OF fr2])
  from static_release [OF st n v2] r fo fr2 show "safe src_ok avail s m1 dest sz
      (do { (status, s', m2) \<leftarrow> noinit s fl dest m1;
            if \<not> status then do { m3 \<leftarrow> pb_release n env fl dest m2; Some (False, s', m3) }
            else Some (True, s', m2) })"
    by (auto intro!: safeI)
qed

lemma decode_noinit_safe:
  "static_msg d env fl sz \<Longrightarrow> d < n \<Longrightarrow> valid_range m dest sz \<Longrightarrow> stream_in src_ok avail s \<Longrightarrow>
   safe src_ok avail s m dest sz (pb_decode_noinit n env s fl dest m)"
proof (induction n arbitrary: d fl sz m dest s)
  case 0
  then show ?case by simp
next
  case (Suc n)
  from Suc.prems(1) obtain d' where d: "d = Suc d'" by (cases d) auto
  with Suc.prems(2) have n: "d' < n" by simp
  have ni: "safe src_ok avail s m p k (pb_decode_noinit n env s fl p m)"
    if "static_msg d' env fl k" "stream_in src_ok avail s" "valid_range m p k" for fl k s p m
    using that n by (intro Suc.IH)
  have wi: "safe src_ok avail s m p k (decode_with_init n env (pb_decode_noinit n env) s fl p m)"
    if "static_msg d' env fl k" "stream_in src_ok avail s" "valid_range m p k" for fl k s p m
    using that n by (intro decode_with_init_ok [OF that(1) _ that(3,2)] ni) simp_all
  have "dec_ok (fl ! i) (pb_dec_submessage env
      (decode_with_init n env (pb_decode_noinit n env)) (pb_decode_noinit n env))"
    if "static_value env (static_msg d' env) (fl ! i)"
      "PB_LTYPE (ftype (fl ! i)) = PB_LTYPE_SUBMESSAGE" for i
    by (rule dec_submessage_ok [OF that wi ni])
  from decode_message_ok [OF Suc.prems(1) [unfolded d] n Suc.prems(3,4) this]
  show ?case by simp
qed

lemma decode_safe:
  "static_msg d env fl sz \<Longrightarrow> d < n \<Longrightarrow> valid_range m dest sz \<Longrightarrow> stream_in src_ok avail s \<Longrightarrow>
   safe src_ok avail s m dest sz (pb_decode n env s fl dest m)"
  unfolding pb_decode_def
  by (rule decode_with_init_ok) (auto intro: decode_noinit_safe)

lemma decode_delimited_safe:
  assumes st: "static_msg d env fl sz" and n: "d < n" and v: "valid_range m dest sz"
    and s: "stream_in src_ok avail s"
  shows "safe src_ok avail s m dest sz (pb_decode_delimited n env s fl dest m)"
  using s
proof (cases rule: make_substream_reads)
  case (fail s')
  then show ?thesis
    by (auto simp: pb_decode_delimited_def decode_in_substream_def intro!: safeI)
next
  case (sub j s1 substream s')
  note l = sub(3)
  from decode_safe [OF st n v part_of_ok(1) [OF l]] obtain ok sub' m' where
    r: "pb_decode n env substream fl dest m = Some (ok, sub', m')"
    and fo: "reads src_ok avail substream sub'" and fr: "frame_only m m' dest sz" by (rule safeE)
  from close_reads [OF l fo] obtain good s'' where
    "pb_close_string_substream s' sub' = Some (good, s'')" "reads src_ok avail s1 s''" .
  with sub(1) r fr reads_trans [OF sub(2), of s''] show ?thesis
    by (auto simp: pb_decode_delimited_def decode_in_substream_def intro!: safeI)
qed

end

end
