(* ===== verification/PbWire.thy ===== *)
theory PbWire
  imports Prelude
begin

text \<open>
  The protobuf base-128 format as a reference: what bytes a number is written as, and what
  number a byte sequence means.  Nothing here mentions the C code; the decoders and encoders are
  proved equal to it.
\<close>

subsection \<open>Seven bits at a time\<close>

lemma and_7F: "w AND 0x7F = take_bit 7 (w :: 'a::len word)"
  by (simp add: take_bit_eq_mask mask_eq_exp_minus_1)

lemma unat_and_7F: "unat (w AND 0x7F :: 'a::len word) = unat w mod 128"
  by (simp only: and_7F unsigned_take_bit_eq) (simp add: take_bit_eq_mod)

lemma even_below_2: "even n \<Longrightarrow> n < 2 \<Longrightarrow> n = (0 :: nat)"
  by presburger

lemma continuation_bit: "(b :: u8) AND 0x80 = 0 \<longleftrightarrow> unat b < 128"
proof -
  have "b AND 0x80 = 0 \<longleftrightarrow> \<not> bit b 7"
    using and_exp_eq_0_iff_not_bit [of b 7] by simp
  also have "bit b 7 \<longleftrightarrow> bit (unat b) 7" by (simp add: bit_unsigned_iff)
  also have "bit (unat b) 7 \<longleftrightarrow> odd (unat b div 128)" by (simp add: bit_iff_odd)
  also have "(\<not> odd (unat b div 128)) \<longleftrightarrow> even (unat b div 128)" by simp
  also have "even (unat b div 128) \<longleftrightarrow> unat b < 128"
  proof
    assume "even (unat b div 128)"
    moreover have "unat b div 128 < 2"
      by (rule less_mult_imp_div_less) (use unat_u8_less [of b] in linarith)
    ultimately have "unat b div 128 = 0" by (rule even_below_2)
    then show "unat b < 128" by simp
  qed simp
  finally show ?thesis .
qed

lemma unat_of_nat_u8: "n < 256 \<Longrightarrow> unat (of_nat n :: u8) = n"
  by (simp add: unat_of_nat)

lemma word_add_pow:
  assumes "x < 2 ^ n"
  shows "(of_nat (x + 2 ^ n * y) :: 'a::len word) = of_nat x OR push_bit n (of_nat y)"
proof -
  have "unat (of_nat x :: 'a word) \<le> x" by (simp add: unat_of_nat)
  with assms have "(of_nat x :: 'a word) = take_bit n (of_nat x)"
    by (simp only: word_unat_eq_iff unsigned_take_bit_eq) (simp add: take_bit_eq_mod)
  then have "(of_nat x :: 'a word) AND push_bit n (of_nat y) = 0"
    by (intro bit_word_eqI) (metis bit_and_iff bit_push_bit_iff bit_take_bit_iff linorder_not_less zero_and_eq bit_0_eq bot_apply bot_bool_def)
  then have "(of_nat x :: 'a word) OR push_bit n (of_nat y) = of_nat x + push_bit n (of_nat y)"
    by (simp add: disjunctive_add_eq_or)
  then show ?thesis by (simp add: push_bit_eq_mult mult.commute)
qed

lemma word_add128:
  "x < 128 \<Longrightarrow> (of_nat (x + 128 * y) :: 'a::len word) = of_nat x OR push_bit 7 (of_nat y)"
  using word_add_pow [of x 7 y, where 'a = 'a] by simp

lemma group_byte:
  "ucast ((v :: u64) AND 0x7F) OR (0x80 :: u8) = of_nat (unat v mod 128 + 128)"
proof -
  have "ucast (v AND 0x7F) AND (0x80 :: u8) = 0"
    unfolding continuation_bit
    by (simp only: unsigned_ucast_eq unat_and_7F) (simp add: take_bit_eq_mod)
  then have "ucast (v AND 0x7F) OR (0x80 :: u8) = ucast (v AND 0x7F) + 0x80"
    by (rule disjunctive_add_eq_or [symmetric])
  moreover have "(ucast (v AND 0x7F) :: u8) = of_nat (unat v mod 128)"
    by (simp only: word_unat_eq_iff unsigned_ucast_eq unat_and_7F) (simp add: unat_of_nat take_bit_eq_mod)
  ultimately show ?thesis by simp
qed

subsection \<open>Varints\<close>

text \<open>The canonical bytes of a number, least significant group first.\<close>

fun varint_bytes :: "nat \<Rightarrow> u8 list" where
  "varint_bytes v =
     (if v < 128 then [of_nat v] else of_nat (v mod 128 + 128) # varint_bytes (v div 128))"

declare varint_bytes.simps [simp del]

text \<open>The varint of at most \<open>n\<close> bytes at the start of a byte string, when there is one, and
  the number its groups stand for.\<close>

primrec varint_prefix :: "nat \<Rightarrow> u8 list \<Rightarrow> u8 list option" where
  "varint_prefix 0 bs = None"
| "varint_prefix (Suc n) bs =
     (case bs of
        [] \<Rightarrow> None
      | b # bs' \<Rightarrow> if b AND 0x80 = 0 then Some [b] else map_option (Cons b) (varint_prefix n bs'))"

primrec varint_value :: "u8 list \<Rightarrow> nat" where
  "varint_value [] = 0"
| "varint_value (b # bs) = unat (b AND 0x7F) + 128 * varint_value bs"

text \<open>The first \<open>k\<close> groups of a number, all with the continuation bit.\<close>

primrec more_groups :: "nat \<Rightarrow> nat \<Rightarrow> u8 list" where
  "more_groups 0 v = []"
| "more_groups (Suc k) v = of_nat (v mod 128 + 128) # more_groups k (v div 128)"

lemma more_byte [simp]:
  "unat (of_nat (v mod 128 + 128) :: u8) = v mod 128 + 128"
  by (rule unat_of_nat_u8) (simp add: less_imp_add_positive)

lemma more_byte_bits [simp]:
  "(of_nat (v mod 128 + 128) :: u8) AND 0x80 \<noteq> 0"
  "unat ((of_nat (v mod 128 + 128) :: u8) AND 0x7F) = v mod 128"
  by (simp_all only: continuation_bit unat_and_7F more_byte) simp_all

lemma last_byte_bits:
  assumes "v < 128"
  shows "(of_nat v :: u8) AND 0x80 = 0" "unat ((of_nat v :: u8) AND 0x7F) = v"
  using assms by (simp_all only: continuation_bit unat_and_7F) (simp_all add: unat_of_nat_u8)

lemma length_more_groups [simp]: "length (more_groups k v) = k"
  by (induction k arbitrary: v) simp_all

lemma more_groups_value: "varint_value (more_groups k v) = v mod 128 ^ k"
  by (induction k arbitrary: v) (simp_all add: mod_mult2_eq del: of_nat_add)

lemma more_groups_cont: "b \<in> set (more_groups k v) \<Longrightarrow> b AND 0x80 \<noteq> 0"
  by (induction k arbitrary: v) (auto simp del: of_nat_add)

lemma varint_bytes_not_Nil [simp]: "varint_bytes v \<noteq> []"
  by (subst varint_bytes.simps) simp

lemma varint_bytes_less: "v < 128 \<Longrightarrow> varint_bytes v = [of_nat v]"
  by (subst varint_bytes.simps) simp

lemma varint_bytes_groups:
  "128 ^ k \<le> v \<Longrightarrow> varint_bytes v = more_groups k v @ varint_bytes (v div 128 ^ k)"
proof (induction k arbitrary: v)
  case 0
  then show ?case by simp
next
  case (Suc k)
  have "(128 :: nat) \<le> 128 ^ Suc k" by simp
  with Suc.prems have "\<not> v < 128" by linarith
  moreover have "128 ^ k \<le> v div 128" using Suc.prems by (simp add: less_eq_div_iff_mult_less_eq mult.commute)
  ultimately show ?case using Suc.IH [of "v div 128"]
    by (subst varint_bytes.simps) (simp add: div_mult2_eq)
qed

text \<open>A number's bytes are its first groups and a last one.\<close>

lemma varint_bytes_last:
  "\<exists>k. varint_bytes v = more_groups k v @ [of_nat (v div 128 ^ k)] \<and> v div 128 ^ k < 128 \<and>
     (k = 0 \<or> 128 ^ k \<le> v)"
proof (induction v rule: varint_bytes.induct)
  case (1 v)
  show ?case
  proof (cases "v < 128")
    case True
    then show ?thesis by (intro exI [of _ 0]) (simp add: varint_bytes_less)
  next
    case False
    with 1 obtain k where k: "varint_bytes (v div 128) =
        more_groups k (v div 128) @ [of_nat (v div 128 div 128 ^ k)]"
      "v div 128 div 128 ^ k < 128" "k = 0 \<or> 128 ^ k \<le> v div 128" by blast
    from k(3) False have "128 ^ Suc k \<le> v"
      by (auto simp: less_eq_div_iff_mult_less_eq mult.commute)
    moreover from False have "varint_bytes v = of_nat (v mod 128 + 128) # varint_bytes (v div 128)"
      by (subst varint_bytes.simps) simp
    ultimately show ?thesis using k
      by (intro exI [of _ "Suc k"]) (simp add: div_mult2_eq del: of_nat_add)
  qed
qed

lemma varint_bytes_prefix:
  "length (varint_bytes v) \<le> n \<Longrightarrow> varint_prefix n (varint_bytes v @ r) = Some (varint_bytes v)"
proof (induction v arbitrary: n rule: varint_bytes.induct)
  case (1 v)
  from "1.prems" obtain n' where n: "n = Suc n'" by (cases n) simp_all
  show ?case
  proof (cases "v < 128")
    case True
    with n show ?thesis by (simp add: varint_bytes_less last_byte_bits)
  next
    case False
    then have vb: "varint_bytes v = of_nat (v mod 128 + 128) # varint_bytes (v div 128)"
      by (subst varint_bytes.simps) simp
    with "1.prems" n have "length (varint_bytes (v div 128)) \<le> n'" by simp
    from "1.IH" [OF False this] vb n show ?thesis by (simp del: of_nat_add)
  qed
qed

lemma varint_bytes_value: "varint_value (varint_bytes v) = v"
proof (induction v rule: varint_bytes.induct)
  case (1 v)
  show ?case
  proof (cases "v < 128")
    case True
    then show ?thesis
      by (subst varint_bytes.simps) (simp add: unat_and_7F unat_of_nat_u8)
  next
    case False
    have "unat (of_nat (v mod 128 + 128) :: u8) = v mod 128 + 128"
      by (rule unat_of_nat_u8) (simp add: less_imp_add_positive)
    with 1 False show ?thesis
      by (subst varint_bytes.simps) (simp add: unat_and_7F)
  qed
qed

lemma varint_bytes_length: "v < 128 ^ k \<Longrightarrow> 0 < k \<Longrightarrow> length (varint_bytes v) \<le> k"
proof (induction k arbitrary: v)
  case 0
  then show ?case by simp
next
  case (Suc k)
  show ?case
  proof (cases "v < 128")
    case True
    then show ?thesis by (subst varint_bytes.simps) simp
  next
    case False
    with Suc.prems have "v div 128 < 128 ^ k" by (simp add: less_mult_imp_div_less mult.commute)
    moreover from False Suc.prems have "0 < k" by (cases k) auto
    ultimately have "length (varint_bytes (v div 128)) \<le> k" by (rule Suc.IH)
    with False show ?thesis by (subst varint_bytes.simps) simp
  qed
qed

lemma varint_bytes_u64_length: "length (varint_bytes (unat (v :: u64))) \<le> 10"
  using less_trans [OF unat_u64_less [of v]] by (intro varint_bytes_length) simp_all

lemma group_ucast [simp]: "(of_nat (unat (b AND 0x7F :: u8)) :: 'a::len word) = ucast (b AND 0x7F)"
  by simp

text \<open>Adding the next group at its position adds it to the value.\<close>

lemma group_or:
  fixes acc :: "'a::len word"
  shows "(acc OR push_bit k (ucast (b AND 0x7F))) OR push_bit (k + 7) (of_nat y) =
     acc OR push_bit k (of_nat (unat (b AND 0x7F :: u8) + 128 * y))"
proof -
  have "unat (b AND 0x7F) < 128" by (simp add: unat_and_7F)
  then show ?thesis
    by (simp only: word_add128 push_bit_or push_bit_push_bit add.commute [of 7] or.assoc group_ucast)
qed

subsection \<open>Zigzag\<close>

text \<open>The zigzag code of a signed number: 0, -1, 1, -2, ... are 0, 1, 2, 3, ...\<close>

definition zigzag :: "int \<Rightarrow> nat" where
  "zigzag i = (if i < 0 then nat (- 2 * i - 1) else nat (2 * i))"

end
