(* ===== verification/PbEncPrim.thy ===== *)
theory PbEncPrim
  imports PbOstream PbWire
begin

text \<open>
  The wire primitives of \<open>pb_encode.c\<close>: varints, zigzag values, fixed values, tags and
  length-delimited strings; and what each writes, in terms of the reference format, over any
  \<open>byte_sink\<close>.
\<close>

subsection \<open>Operations\<close>

text \<open>The loop of \<open>pb_encode_varint\<close>.  The first argument is the room left in \<open>buffer[10]\<close>: a
  store past it is undefined.\<close>

primrec varint_buffer :: "nat \<Rightarrow> u64 \<Rightarrow> u8 list option" where
  "varint_buffer 0 value = (if value = 0 then Some [] else None)"
| "varint_buffer (Suc room) value =
     (if value = 0 then Some []
      else do {
        rest \<leftarrow> varint_buffer room (drop_bit 7 value);
        Some ((ucast (value AND 0x7F) OR 0x80) # rest) })"

definition pb_encode_varint :: "'s pb_ostream \<Rightarrow> mem \<Rightarrow> u64 \<Rightarrow> (bool \<times> 's pb_ostream) option" where
  "pb_encode_varint s m value =
     (if value \<le> 0x7F then pb_write s m (BufLocal [ucast value]) 1
      else do {
        buffer \<leftarrow> varint_buffer 10 value;
        let i = length buffer;
            buffer' = buffer[i - 1 := (buffer ! (i - 1)) AND 0x7F]
        in pb_write s m (BufLocal buffer') (of_nat i) })"

definition pb_encode_svarint :: "'s pb_ostream \<Rightarrow> mem \<Rightarrow> u64 \<Rightarrow> (bool \<times> 's pb_ostream) option" where
  "pb_encode_svarint s m value =
     (let zigzagged = (if sint value < 0 then NOT (push_bit 1 value) else push_bit 1 value)
      in pb_encode_varint s m zigzagged)"

definition pb_encode_fixed32 :: "'s pb_ostream \<Rightarrow> mem \<Rightarrow> nat \<Rightarrow> (bool \<times> 's pb_ostream) option" where
  "pb_encode_fixed32 s m value = do {
     val \<leftarrow> load_uint m value 4;
     pb_write s m (BufLocal
       [ucast (val AND 0xFF), ucast (drop_bit 8 val AND 0xFF),
        ucast (drop_bit 16 val AND 0xFF), ucast (drop_bit 24 val AND 0xFF)]) 4 }"

definition pb_encode_fixed64 :: "'s pb_ostream \<Rightarrow> mem \<Rightarrow> nat \<Rightarrow> (bool \<times> 's pb_ostream) option" where
  "pb_encode_fixed64 s m value = do {
     val \<leftarrow> load_uint m value 8;
     pb_write s m (BufLocal
       [ucast (val AND 0xFF), ucast (drop_bit 8 val AND 0xFF),
        ucast (drop_bit 16 val AND 0xFF), ucast (drop_bit 24 val AND 0xFF),
        ucast (drop_bit 32 val AND 0xFF), ucast (drop_bit 40 val AND 0xFF),
        ucast (drop_bit 48 val AND 0xFF), ucast (drop_bit 56 val AND 0xFF)]) 8 }"

definition pb_encode_tag :: "'s pb_ostream \<Rightarrow> mem \<Rightarrow> pb_wire_type \<Rightarrow> u32 \<Rightarrow>
    (bool \<times> 's pb_ostream) option" where
  "pb_encode_tag s m wiretype field_number =
     pb_encode_varint s m (push_bit 3 (ucast field_number) OR of_nat wiretype)"

text \<open>The wire type of a field type, \<open>None\<close> for the types that have none.\<close>

definition field_wiretype :: "pb_type \<Rightarrow> pb_wire_type option" where
  "field_wiretype ty =
     (if ty \<in> {PB_LTYPE_VARINT, PB_LTYPE_UVARINT, PB_LTYPE_SVARINT} then Some PB_WT_VARINT
      else if ty = PB_LTYPE_FIXED32 then Some PB_WT_32BIT
      else if ty = PB_LTYPE_FIXED64 then Some PB_WT_64BIT
      else if ty \<in> {PB_LTYPE_BYTES, PB_LTYPE_STRING, PB_LTYPE_SUBMESSAGE,
                    PB_LTYPE_FIXED_LENGTH_BYTES} then Some PB_WT_STRING
      else None)"

definition pb_encode_tag_for_field :: "'s pb_ostream \<Rightarrow> mem \<Rightarrow> pb_field \<Rightarrow>
    (bool \<times> 's pb_ostream) option" where
  "pb_encode_tag_for_field s m f =
     (case field_wiretype (PB_LTYPE (ftype f)) of
        None \<Rightarrow> Some (False, os_set_error ''invalid field type'' s)
      | Some wiretype \<Rightarrow> pb_encode_tag s m wiretype (tag f))"

definition pb_encode_string :: "'s pb_ostream \<Rightarrow> mem \<Rightarrow> c_buf \<Rightarrow> u64 \<Rightarrow>
    (bool \<times> 's pb_ostream) option" where
  "pb_encode_string s m buffer len = do {
     (ok, s') \<leftarrow> pb_encode_varint s m len;
     if \<not> ok then Some (False, s') else pb_write s' m buffer len }"

subsection \<open>The bytes of the varint buffer\<close>

lemma varint_buffer_groups:
  "unat v < 128 ^ n \<Longrightarrow>
   \<exists>k. varint_buffer n v = Some (more_groups k (unat v)) \<and> unat v div 128 ^ k = 0 \<and>
     (v \<noteq> 0 \<longrightarrow> 0 < k \<and> 128 ^ (k - 1) \<le> unat v)"
proof (induction n arbitrary: v)
  case 0
  then show ?case by (intro exI [of _ 0]) (simp add: unat_eq_0)
next
  case (Suc n)
  show ?case
  proof (cases "v = 0")
    case True
    then show ?thesis by (intro exI [of _ 0]) simp
  next
    case False
    have d: "unat (drop_bit 7 v) = unat v div 128"
      by (simp only: unat_drop_bit_eq) (simp add: drop_bit_eq_div)
    with Suc.prems have "unat (drop_bit 7 v) < 128 ^ n"
      by (simp add: less_mult_imp_div_less mult.commute)
    from Suc.IH [OF this] obtain k where
      k: "varint_buffer n (drop_bit 7 v) = Some (more_groups k (unat v div 128))"
      "unat v div 128 div 128 ^ k = 0"
      "drop_bit 7 v \<noteq> 0 \<Longrightarrow> 0 < k \<and> 128 ^ (k - 1) \<le> unat v div 128" unfolding d by blast
    have "128 ^ k \<le> unat v"
    proof (cases "drop_bit 7 v = 0")
      case True
      then have "varint_buffer n (drop_bit 7 v) = Some []" by (cases n) simp_all
      with k(1) have "k = 0" by (cases k) simp_all
      moreover have "0 < unat v" using False by (simp add: unat_gt_0)
      ultimately show ?thesis by simp
    next
      case notz: False
      with k(3) obtain j where "k = Suc j" "128 ^ j \<le> unat v div 128" by (cases k) auto
      then show ?thesis by (simp add: less_eq_div_iff_mult_less_eq mult.commute)
    qed
    with k False show ?thesis
      by (intro exI [of _ "Suc k"]) (simp add: group_byte div_mult2_eq del: of_nat_add)
  qed
qed

lemma more_groups_snoc:
  "more_groups (Suc k) v = more_groups k v @ [of_nat (v div 128 ^ k mod 128 + 128)]"
  by (induction k arbitrary: v) (simp_all add: div_mult2_eq del: of_nat_add)

lemma varint_bytes_snoc:
  assumes "128 ^ k \<le> v \<or> k = 0" "v div 128 ^ k < 128"
  shows "varint_bytes v = more_groups k v @ [of_nat (v div 128 ^ k)]"
  using assms varint_bytes_groups [of k v] by (auto simp: varint_bytes_less)

lemma last_group: "v < 128 \<Longrightarrow> (of_nat (v + 128) :: u8) AND 0x7F = of_nat v"
  by (simp only: word_unat_eq_iff unat_and_7F) (simp add: unat_of_nat_u8 del: of_nat_add)

lemma varint_buffer_bytes:
  assumes "0x7F < v" "varint_buffer 10 v = Some buf"
  shows "buf[length buf - 1 := buf ! (length buf - 1) AND 0x7F] = varint_bytes (unat v)"
proof -
  have "unat v < 128 ^ 10" by (rule less_trans [OF unat_u64_less]) simp
  from varint_buffer_groups [OF this] obtain k where
    k: "varint_buffer 10 v = Some (more_groups k (unat v))"
    "unat v div 128 ^ k = 0" "v \<noteq> 0 \<Longrightarrow> 0 < k \<and> 128 ^ (k - 1) \<le> unat v" by blast
  from assms(1) have "v \<noteq> 0" by auto
  with k(3) obtain j where j: "k = Suc j" "128 ^ j \<le> unat v" by (cases k) auto
  with k(2) have lt: "unat v div 128 ^ j < 128" by (simp add: div_eq_0_iff less_mult_imp_div_less)
  from assms(2) k(1) j have buf: "buf = more_groups j (unat v) @ [of_nat (unat v div 128 ^ j + 128)]"
    using lt by (simp only: more_groups_snoc) (simp del: of_nat_add)
  then have "buf[length buf - 1 := buf ! (length buf - 1) AND 0x7F] =
      more_groups j (unat v) @ [of_nat (unat v div 128 ^ j + 128) AND 0x7F]"
    by (simp add: nth_append list_update_append del: of_nat_add)
  also have "\<dots> = varint_bytes (unat v)"
    using varint_bytes_snoc [of j "unat v"] j lt by (simp only: last_group simp_thms)
  finally show ?thesis .
qed

lemma varint_buffer_defined: "\<exists>buf. varint_buffer 10 v = Some buf"
proof -
  have "unat v < 128 ^ 10" by (rule less_trans [OF unat_u64_less]) simp
  from varint_buffer_groups [OF this] show ?thesis by blast
qed

subsection \<open>What the primitives write\<close>

lemma byte_and_FF: "(ucast (w AND 0xFF :: u64) :: u8) = ucast w"
  by (rule bit_word_eqI) (auto simp: bit_simps bit_numeral_rec less_Suc_eq numeral_eq_Suc)

context byte_sink
begin

lemma encode_varint_runs:
  assumes ok: "out_ok sink_ok room s" and small: "small s (length (varint_bytes (unat v)))"
  shows "emits put s (varint_bytes (unat v)) (pb_encode_varint s m v)"
proof (cases "v \<le> 0x7F")
  case True
  then have "unat v \<le> unat (0x7F :: u64)" by (simp only: word_le_nat_alt)
  then have v: "varint_bytes (unat v) = [ucast v]" by (simp add: varint_bytes_less)
  have "emits put s [ucast v] (pb_write s m (BufLocal [ucast v]) (of_nat (length [ucast v :: u8])))"
    using ok small by (intro pb_write_emits) (simp_all add: v fetch_buf_def)
  with True v show ?thesis by (simp add: pb_encode_varint_def)
next
  case False
  then have big: "0x7F < v" by simp
  obtain buf where buf: "varint_buffer 10 v = Some buf" using varint_buffer_defined by blast
  note vb = varint_buffer_bytes [OF big buf]
  then have len: "length buf = length (varint_bytes (unat v))" by (metis length_list_update)
  have "emits put s (varint_bytes (unat v))
      (pb_write s m (BufLocal (varint_bytes (unat v))) (of_nat (length (varint_bytes (unat v)))))"
    using ok small by (intro pb_write_emits) (simp_all add: fetch_buf_def)
  then show ?thesis using False buf vb len by (simp add: pb_encode_varint_def Let_def)
qed

lemma encode_string_runs:
  assumes ok: "out_ok sink_ok room s"
    and small: "small s (length (varint_bytes (length bs)) + length bs)"
    and buf: "sink s \<noteq> Sizing \<Longrightarrow> fetch_buf m buf (length bs) = Some bs" and n: "length bs < 2 ^ 64"
  shows "emits put s (varint_bytes (length bs) @ bs)
     (pb_encode_string s m buf (of_nat (length bs)))"
proof -
  have len: "unat (of_nat (length bs) :: u64) = length bs"
    using n by (rule unat_of_nat_u64)
  have "emits put s (varint_bytes (length bs)) (pb_encode_varint s m (of_nat (length bs)))"
    using encode_varint_runs [OF ok, of "of_nat (length bs)" m] small_mono [OF small] len by simp
  moreover have "emits put (push put (varint_bytes (length bs)) s) bs
      (pb_write (push put (varint_bytes (length bs)) s) m buf (of_nat (length bs)))"
    if "fits s (length (varint_bytes (length bs)))"
    using ok that buf small sink_ok_put sink_not_sizing
    by (intro pb_write_emits push_ok small_push) (auto simp: out_ok_def)
  ultimately show ?thesis unfolding pb_encode_string_def by (rule runs_seq [OF ok])
qed

lemma encode_tag_runs:
  assumes ok: "out_ok sink_ok room s" and wt: "wt < 8"
    and small: "small s (length (varint_bytes (8 * unat t + wt)))"
  shows "emits put s (varint_bytes (8 * unat t + wt)) (pb_encode_tag s m wt t)"
proof -
  have "8 * unat t + wt < 8 * 4294967296 + 8" using wt unat_u32_less [of t] by linarith
  then have "8 * unat t + wt < 2 ^ 64" by simp
  then have "unat (of_nat (8 * unat t + wt) :: u64) = 8 * unat t + wt" by (rule unat_of_nat_u64)
  moreover have "(of_nat (8 * unat t + wt) :: u64) = push_bit 3 (ucast t) OR of_nat wt"
    using word_add_pow [of wt 3 "unat t", where 'a = 64] wt by (simp add: add.commute or.commute)
  ultimately show ?thesis
    using encode_varint_runs [OF ok, of "of_nat (8 * unat t + wt)" m] small
    by (simp add: pb_encode_tag_def)
qed

lemma encode_fixed32_runs:
  assumes ok: "out_ok sink_ok room s" and small: "small s 4" and v: "load_uint m a 4 = Some v"
  shows "emits put s (le_bytes 4 v) (pb_encode_fixed32 s m a)"
proof -
  have "emits put s (le_bytes 4 v) (pb_write s m (BufLocal (le_bytes 4 v)) (of_nat (length (le_bytes 4 v))))"
    using ok small by (intro pb_write_emits) (simp_all add: fetch_buf_def)
  with v show ?thesis
    by (simp add: pb_encode_fixed32_def byte_and_FF) (simp add: le_bytes_def upt_rec)
qed

lemma encode_fixed64_runs:
  assumes ok: "out_ok sink_ok room s" and small: "small s 8" and v: "load_uint m a 8 = Some v"
  shows "emits put s (le_bytes 8 v) (pb_encode_fixed64 s m a)"
proof -
  have "emits put s (le_bytes 8 v) (pb_write s m (BufLocal (le_bytes 8 v)) (of_nat (length (le_bytes 8 v))))"
    using ok small by (intro pb_write_emits) (simp_all add: fetch_buf_def)
  with v show ?thesis
    by (simp add: pb_encode_fixed64_def byte_and_FF) (simp add: le_bytes_def upt_rec)
qed

end

end
