(* ===== verification/PbEncode.thy ===== *)
theory PbEncode
  imports PbEncPrim PbEnv
begin

text \<open>
  The message encoder of \<open>pb_encode.c\<close>: field encoders, arrays, the proto3 default check,
  extensions, submessages and the entry points.  Calls that come back to the message encoder go
  through an argument; \<open>pb_encode\<close> ties the knot on a number \<open>n\<close> that bounds the nesting of
  submessages and the length of extension lists.  Encoding reads memory and does not change it.
\<close>

type_synonym 'o field_encoder =
  "'o pb_ostream \<Rightarrow> pb_field \<Rightarrow> nat \<Rightarrow> (bool \<times> 'o pb_ostream) option"

type_synonym 'o message_encoder =
  "'o pb_ostream \<Rightarrow> pb_field list \<Rightarrow> nat \<Rightarrow> (bool \<times> 'o pb_ostream) option"

subsection \<open>Field encoders\<close>

definition pb_enc_varint :: "mem \<Rightarrow> 'o field_encoder" where
  "pb_enc_varint m s f src =
     (if data_size f \<in> {1, 2, 4, 8} then do {
        w \<leftarrow> load_uint m src (unat (data_size f));
        v \<leftarrow> int_cast (data_size f) w;
        pb_encode_varint s m v }
      else Some (False, os_set_error ''invalid data_size'' s))"

definition pb_enc_uvarint :: "mem \<Rightarrow> 'o field_encoder" where
  "pb_enc_uvarint m s f src =
     (if data_size f \<in> {1, 2, 4, 8} then do {
        w \<leftarrow> load_uint m src (unat (data_size f));
        v \<leftarrow> uint_cast (data_size f) w;
        pb_encode_varint s m v }
      else Some (False, os_set_error ''invalid data_size'' s))"

definition pb_enc_svarint :: "mem \<Rightarrow> 'o field_encoder" where
  "pb_enc_svarint m s f src =
     (if data_size f \<in> {1, 2, 4, 8} then do {
        w \<leftarrow> load_uint m src (unat (data_size f));
        v \<leftarrow> int_cast (data_size f) w;
        pb_encode_svarint s m v }
      else Some (False, os_set_error ''invalid data_size'' s))"

definition pb_enc_fixed64 :: "mem \<Rightarrow> 'o field_encoder" where
  "pb_enc_fixed64 m s f src = pb_encode_fixed64 s m src"

definition pb_enc_fixed32 :: "mem \<Rightarrow> 'o field_encoder" where
  "pb_enc_fixed32 m s f src = pb_encode_fixed32 s m src"

definition pb_enc_bytes :: "mem \<Rightarrow> 'o field_encoder" where
  "pb_enc_bytes m s f src =
     (if src = 0 then pb_encode_string s m BufNull 0
      else do {
        len \<leftarrow> map_option ucast (load_uint m src 4);
        if PB_ATYPE (ftype f) = PB_ATYPE_STATIC \<and>
           ucast (data_size f) < PB_BYTES_ARRAY_T_ALLOCSIZE len
        then Some (False, os_set_error ''bytes size exceeded'' s)
        else pb_encode_string s m (BufMem (src + pb_bytes_offset)) (ucast len) })"

text \<open>The loop of \<open>pb_enc_string\<close> that looks for the terminator.\<close>

function string_size :: "u64 \<Rightarrow> mem \<Rightarrow> nat \<Rightarrow> u64 option" where
  "string_size limit m p =
     (if limit = 0 then Some 0
      else do {
        b \<leftarrow> bytes m p;
        if b = 0 then Some 0
        else do { n \<leftarrow> string_size (limit - 1) m (p + 1); Some (n + 1) } })"
  by pat_completeness auto
termination
  by (relation "measure (\<lambda>(limit, m, p). unat limit)") (auto simp: unat_minus_one unat_gt_0)

declare string_size.simps [simp del]

definition pb_enc_string :: "mem \<Rightarrow> 'o field_encoder" where
  "pb_enc_string m s f src =
     (let limit = (if PB_ATYPE (ftype f) = PB_ATYPE_POINTER then - 1 else ucast (data_size f))
      in if src = 0 then pb_encode_string s m BufNull 0
         else do {
           n \<leftarrow> string_size limit m src;
           pb_encode_string s m (BufMem src) n })"

definition pb_enc_fixed_length_bytes :: "mem \<Rightarrow> 'o field_encoder" where
  "pb_enc_fixed_length_bytes m s f src = pb_encode_string s m (BufMem src) (ucast (data_size f))"

definition pb_encode_submessage :: "mem \<Rightarrow> 'o message_encoder \<Rightarrow> 'o message_encoder" where
  "pb_encode_submessage m encode s fl src = do {
     (ok, substream) \<leftarrow> encode PB_OSTREAM_SIZING fl src;
     if \<not> ok then Some (False, s\<lparr>os_errmsg := os_errmsg substream\<rparr>)
     else do {
       let len = bytes_written substream;
       (ok1, s1) \<leftarrow> pb_encode_varint s m len;
       if \<not> ok1 then Some (False, s1)
       else if sink s1 = Sizing then pb_write s1 m BufNull len
       else if max_size s1 < bytes_written s1 + len
         then Some (False, os_set_error ''stream full'' s1)
       else do {
         (status, substream2) \<leftarrow>
           encode \<lparr>sink = sink s1, max_size = len, bytes_written = 0, os_errmsg = None\<rparr> fl src;
         let s2 = s1\<lparr>bytes_written := bytes_written s1 + bytes_written substream2,
                     sink := sink substream2, os_errmsg := os_errmsg substream2\<rparr>;
         if bytes_written substream2 \<noteq> len
         then Some (False, os_set_error ''submsg size changed'' s2)
         else Some (status, s2) } } }"

definition pb_enc_submessage :: "('s, 'o) pb_env \<Rightarrow> mem \<Rightarrow> 'o message_encoder \<Rightarrow> 'o field_encoder" where
  "pb_enc_submessage env m encode s f src =
     (if fptr f = PNull then Some (False, os_set_error ''invalid field descriptor'' s)
      else do {
        fl \<leftarrow> sub_fields env (fptr f);
        pb_encode_submessage m encode s fl src })"

text \<open>\<open>PB_ENCODERS\<close>.\<close>

definition PB_ENCODERS :: "mem \<Rightarrow> 'o field_encoder \<Rightarrow> 'o field_encoder list" where
  "PB_ENCODERS m enc_submessage =
     [pb_enc_varint m, pb_enc_uvarint m, pb_enc_svarint m, pb_enc_fixed32 m, pb_enc_fixed64 m,
      pb_enc_bytes m, pb_enc_string m, enc_submessage, \<lambda>_ _ _. None,
      pb_enc_fixed_length_bytes m]"

definition encoder_for :: "mem \<Rightarrow> 'o field_encoder \<Rightarrow> pb_field \<Rightarrow> 'o field_encoder option" where
  "encoder_for m enc_submessage f =
     nth_opt (PB_ENCODERS m enc_submessage) (unat (PB_LTYPE (ftype f)))"

subsection \<open>Arrays\<close>

text \<open>The two loops of \<open>encode_array\<close> over packed items, and the one over tagged items.\<close>

primrec encode_items :: "nat \<Rightarrow> 'o field_encoder \<Rightarrow> 'o pb_ostream \<Rightarrow> pb_field \<Rightarrow> nat \<Rightarrow>
    (bool \<times> 'o pb_ostream) option" where
  "encode_items 0 func s f p = Some (True, s)"
| "encode_items (Suc n) func s f p = do {
     (ok, s') \<leftarrow> func s f p;
     if \<not> ok then Some (False, s')
     else encode_items n func s' f (p + unat (data_size f)) }"

primrec encode_tagged_items :: "nat \<Rightarrow> mem \<Rightarrow> 'o field_encoder \<Rightarrow> 'o pb_ostream \<Rightarrow> pb_field \<Rightarrow> nat \<Rightarrow>
    (bool \<times> 'o pb_ostream) option" where
  "encode_tagged_items 0 m func s f p = Some (True, s)"
| "encode_tagged_items (Suc n) m func s f p = do {
     (ok, s1) \<leftarrow> pb_encode_tag_for_field s m f;
     if \<not> ok then Some (False, s1)
     else do {
       item \<leftarrow> (if PB_ATYPE (ftype f) = PB_ATYPE_POINTER \<and>
                   (PB_LTYPE (ftype f) = PB_LTYPE_STRING \<or> PB_LTYPE (ftype f) = PB_LTYPE_BYTES)
                then load_ptr m p else Some p);
       (ok', s2) \<leftarrow> func s1 f item;
       if \<not> ok' then Some (False, s2)
       else encode_tagged_items n m func s2 f (p + unat (data_size f)) } }"

text \<open>The total size of a packed array, \<open>None\<close> inside when an item cannot be encoded.\<close>

definition packed_size :: "'o field_encoder \<Rightarrow> pb_field \<Rightarrow> nat \<Rightarrow> u64 \<Rightarrow> u64 option option" where
  "packed_size func f p count =
     (if PB_LTYPE (ftype f) = PB_LTYPE_FIXED32 then Some (Some (4 * count))
      else if PB_LTYPE (ftype f) = PB_LTYPE_FIXED64 then Some (Some (8 * count))
      else do {
        (ok, sizestream) \<leftarrow> encode_items (unat count) func PB_OSTREAM_SIZING f p;
        Some (if ok then Some (bytes_written sizestream) else None) })"

definition encode_array :: "mem \<Rightarrow> 'o pb_ostream \<Rightarrow> pb_field \<Rightarrow> nat \<Rightarrow> u64 \<Rightarrow> 'o field_encoder \<Rightarrow>
    (bool \<times> 'o pb_ostream) option" where
  "encode_array m s f p count func =
     (if count = 0 then Some (True, s)
      else if PB_ATYPE (ftype f) \<noteq> PB_ATYPE_POINTER \<and> ucast (array_size f) < count
        then Some (False, os_set_error ''array max size exceeded'' s)
      else if PB_LTYPE (ftype f) \<le> PB_LTYPE_LAST_PACKABLE then do {
        (ok, s1) \<leftarrow> pb_encode_tag s m PB_WT_STRING (tag f);
        if \<not> ok then Some (False, s1)
        else do {
          total \<leftarrow> packed_size func f p count;
          case total of
            None \<Rightarrow> Some (False, s1)
          | Some len \<Rightarrow> do {
              (ok', s2) \<leftarrow> pb_encode_varint s1 m len;
              if \<not> ok' then Some (False, s2)
              else if sink s2 = Sizing then pb_write s2 m BufNull len
              else encode_items (unat count) func s2 f p } } }
      else encode_tagged_items (unat count) m func s f p)"

subsection \<open>The proto3 default check\<close>

primrec all_zero :: "nat \<Rightarrow> mem \<Rightarrow> nat \<Rightarrow> bool option" where
  "all_zero 0 m p = Some True"
| "all_zero (Suc n) m p = do {
     b \<leftarrow> bytes m p;
     if b \<noteq> 0 then Some False else all_zero n m (p + 1) }"

text \<open>\<open>*p == 0\<close> for an object of \<open>n\<close> bytes.\<close>

definition load_is_zero :: "mem \<Rightarrow> nat \<Rightarrow> nat \<Rightarrow> bool option" where
  "load_is_zero m p n = map_option (\<lambda>w. w = 0) (load_uint m p n)"

primrec pb_check_proto3_default_value :: "nat \<Rightarrow> ('s, 'o) pb_env \<Rightarrow> mem \<Rightarrow> pb_field \<Rightarrow> nat \<Rightarrow>
    bool option" where
  "pb_check_proto3_default_value 0 env m f p = None"
| "pb_check_proto3_default_value (Suc n) env m f p =
     (let ty = ftype f; ps = ptr_add_s p (size_offset f) in
      if PB_HTYPE ty = PB_HTYPE_REQUIRED then Some False
      else if PB_HTYPE ty = PB_HTYPE_REPEATED then load_is_zero m ps 4
      else if PB_HTYPE ty = PB_HTYPE_ONEOF then load_is_zero m ps 4
      else if PB_HTYPE ty = PB_HTYPE_OPTIONAL \<and> size_offset f \<noteq> 0 then load_is_zero m ps 1
      else if PB_ATYPE ty = PB_ATYPE_STATIC \<and> PB_LTYPE ty = PB_LTYPE_BYTES then load_is_zero m p 4
      else if PB_ATYPE ty = PB_ATYPE_STATIC \<and> PB_LTYPE ty = PB_LTYPE_STRING then load_is_zero m p 1
      else if PB_ATYPE ty = PB_ATYPE_STATIC \<and> PB_LTYPE ty = PB_LTYPE_FIXED_LENGTH_BYTES
        then Some (data_size f = 0)
      else if PB_ATYPE ty = PB_ATYPE_STATIC \<and> PB_LTYPE ty = PB_LTYPE_SUBMESSAGE then do {
        fl \<leftarrow> sub_fields env (fptr f);
        (nonempty, it) \<leftarrow> pb_field_iter_begin fl p;
        if \<not> nonempty then Some True
        else map_option fst (for_fields (\<lambda>it u. do {
            g \<leftarrow> iter_field it;
            z \<leftarrow> pb_check_proto3_default_value n env m g (pData it);
            Some (z, u) }) it ()) }
      else all_zero (unat (data_size f)) m p)"

subsection \<open>One field\<close>

text \<open>The flag that \<open>pSize\<close> points to for an optional field: \<open>has_x\<close> in the struct, or the
  local \<open>implicit_has\<close>.\<close>

definition encode_basic_field :: "nat \<Rightarrow> ('s, 'o) pb_env \<Rightarrow> mem \<Rightarrow> 'o field_encoder \<Rightarrow>
    'o pb_ostream \<Rightarrow> pb_field \<Rightarrow> nat \<Rightarrow> (bool \<times> 'o pb_ostream) option" where
  "encode_basic_field n env m enc_submessage s f p = do {
     func \<leftarrow> encoder_for m enc_submessage f;
     let ty = ftype f;
     let ps = ptr_add_s p (size_offset f);
     implicit_has \<leftarrow>
       (if size_offset f = 0 \<and> PB_HTYPE ty = PB_HTYPE_OPTIONAL
        then map_option Not (pb_check_proto3_default_value n env m f p)
        else Some True);
     p' \<leftarrow> (if PB_ATYPE ty = PB_ATYPE_POINTER then load_ptr m p else Some p);
     let implicit_has' = (if PB_ATYPE ty = PB_ATYPE_POINTER then p' \<noteq> 0 else implicit_has);
     let put = do {
       (ok, s1) \<leftarrow> pb_encode_tag_for_field s m f;
       if \<not> ok then Some (False, s1) else func s1 f p' };
     if PB_HTYPE ty = PB_HTYPE_REQUIRED then
       (if p' = 0 then Some (False, os_set_error ''missing required field'' s) else put)
     else if PB_HTYPE ty = PB_HTYPE_OPTIONAL then do {
       absent \<leftarrow> (if size_offset f \<noteq> 0 then load_is_zero m ps 1 else Some (\<not> implicit_has'));
       if absent then Some (True, s) else put }
     else if PB_HTYPE ty = PB_HTYPE_REPEATED then do {
       count \<leftarrow> (if size_offset f \<noteq> 0 then map_option ucast (load_uint m ps 4)
                 else Some (array_size f));
       encode_array m s f p' (ucast count) func }
     else if PB_HTYPE ty = PB_HTYPE_ONEOF then do {
       which \<leftarrow> (if size_offset f \<noteq> 0 then map_option ucast (load_uint m ps 4) else None);
       if which = tag f then put else Some (True, s) }
     else Some (False, os_set_error ''invalid field type'' s) }"

definition encode_callback_field :: "('s, 'o) pb_env \<Rightarrow> mem \<Rightarrow> 'o field_encoder" where
  "encode_callback_field env m s f p = do {
     fn \<leftarrow> load_ptr m p;
     if fn \<noteq> 0 then do {
       (ok, s') \<leftarrow> env_encode env fn s f (p + 8) m;
       if \<not> ok then Some (False, os_set_error ''callback error'' s') else Some (True, s') }
     else Some (True, s) }"

definition encode_field :: "nat \<Rightarrow> ('s, 'o) pb_env \<Rightarrow> mem \<Rightarrow> 'o field_encoder \<Rightarrow> 'o field_encoder" where
  "encode_field n env m enc_submessage s f p =
     (let at = PB_ATYPE (ftype f) in
      if at = PB_ATYPE_STATIC \<or> at = PB_ATYPE_POINTER
      then encode_basic_field n env m enc_submessage s f p
      else if at = PB_ATYPE_CALLBACK then encode_callback_field env m s f p
      else Some (False, os_set_error ''invalid field type'' s))"

subsection \<open>Extensions\<close>

definition default_extension_encoder :: "nat \<Rightarrow> ('s, 'o) pb_env \<Rightarrow> mem \<Rightarrow> 'o field_encoder \<Rightarrow>
    'o pb_ostream \<Rightarrow> nat \<Rightarrow> (bool \<times> 'o pb_ostream) option" where
  "default_extension_encoder n env m enc_submessage s ext = do {
     et \<leftarrow> ext_type_of env ext m;
     f \<leftarrow> nth_opt (env_fields env (ext_arg et)) 0;
     if PB_ATYPE (ftype f) = PB_ATYPE_POINTER
     then encode_field n env m enc_submessage s f (ext + ext_dest_at)
     else do {
       d \<leftarrow> load_ptr m (ext + ext_dest_at);
       encode_field n env m enc_submessage s f d } }"

primrec encode_extension_field :: "nat \<Rightarrow> nat \<Rightarrow> ('s, 'o) pb_env \<Rightarrow> mem \<Rightarrow> 'o field_encoder \<Rightarrow>
    'o pb_ostream \<Rightarrow> nat \<Rightarrow> (bool \<times> 'o pb_ostream) option" where
  "encode_extension_field 0 n env m enc_submessage s ext = (if ext = 0 then Some (True, s) else None)"
| "encode_extension_field (Suc k) n env m enc_submessage s ext =
     (if ext = 0 then Some (True, s)
      else do {
        et \<leftarrow> ext_type_of env ext m;
        (ok, s') \<leftarrow> (if ext_encode et \<noteq> 0 then env_ext_encode env (ext_encode et) s ext m
                     else default_extension_encoder n env m enc_submessage s ext);
        if \<not> ok then Some (False, s')
        else do {
          ext' \<leftarrow> load_ptr m (ext + ext_next_at);
          encode_extension_field k n env m enc_submessage s' ext' } })"

subsection \<open>Messages\<close>

definition encode_iter :: "nat \<Rightarrow> ('s, 'o) pb_env \<Rightarrow> mem \<Rightarrow> 'o field_encoder \<Rightarrow> pb_field_iter \<Rightarrow>
    'o pb_ostream \<Rightarrow> (bool \<times> 'o pb_ostream) option" where
  "encode_iter n env m enc_submessage it s = do {
     f \<leftarrow> iter_field it;
     if PB_LTYPE (ftype f) = PB_LTYPE_EXTENSION then do {
       ext \<leftarrow> load_ptr m (pData it);
       encode_extension_field n n env m enc_submessage s ext }
     else encode_field n env m enc_submessage s f (pData it) }"

definition encode_message :: "nat \<Rightarrow> ('s, 'o) pb_env \<Rightarrow> mem \<Rightarrow> 'o field_encoder \<Rightarrow> 'o message_encoder" where
  "encode_message n env m enc_submessage s fl src = do {
     (nonempty, it) \<leftarrow> pb_field_iter_begin fl src;
     if \<not> nonempty then Some (True, s)
     else for_fields (encode_iter n env m enc_submessage) it s }"

primrec pb_encode :: "nat \<Rightarrow> ('s, 'o) pb_env \<Rightarrow> mem \<Rightarrow> 'o message_encoder" where
  "pb_encode 0 env m = (\<lambda>_ _ _. None)"
| "pb_encode (Suc n) env m = encode_message n env m (pb_enc_submessage env m (pb_encode n env m))"

definition pb_encode_delimited :: "nat \<Rightarrow> ('s, 'o) pb_env \<Rightarrow> mem \<Rightarrow> 'o message_encoder" where
  "pb_encode_delimited n env m = pb_encode_submessage m (pb_encode n env m)"

definition pb_encode_nullterminated :: "nat \<Rightarrow> ('s, 'o) pb_env \<Rightarrow> mem \<Rightarrow> 'o message_encoder" where
  "pb_encode_nullterminated n env m s fl src = do {
     (ok, s') \<leftarrow> pb_encode n env m s fl src;
     if \<not> ok then Some (False, s') else pb_write s' m (BufLocal [0]) 1 }"

text \<open>\<open>*size\<close> on success.\<close>

definition pb_get_encoded_size :: "nat \<Rightarrow> ('s, 'o) pb_env \<Rightarrow> mem \<Rightarrow> pb_field list \<Rightarrow> nat \<Rightarrow>
    u64 option option" where
  "pb_get_encoded_size n env m fl src = do {
     (ok, s) \<leftarrow> pb_encode n env m PB_OSTREAM_SIZING fl src;
     Some (if ok then Some (bytes_written s) else None) }"

end
