(* ===== verification/PbEncodeOk.thy ===== *)
theory PbEncodeOk
  imports PbEncode PbLayout
begin

text \<open>
  Encoding a message that lives in one struct: the encoder returns, and the bytes it writes are a
  function of the message alone.  Whatever the stream - a buffer, a user callback, or the sizing
  stream - it gets these bytes, or a prefix when they do not fit; so the size counted beforehand
  is the size written.  There are no more of them than \<open>encoded_max\<close> says, a bound that depends
  on the message type alone, as the generator's \<open>_size\<close> macros do.
\<close>

subsection \<open>How long an encoding can get\<close>

text \<open>The longest encoding of one value (a varint, or a length and so many bytes), of a field
  with its tags, and of a message type.  Ten bytes are enough for a varint.\<close>

definition value_max :: "('s, 'o) pb_env \<Rightarrow> (pb_field list \<Rightarrow> nat) \<Rightarrow> pb_field \<Rightarrow> nat" where
  "value_max env sub f =
     10 + (if PB_LTYPE (ftype f) = PB_LTYPE_SUBMESSAGE
           then (case sub_fields env (fptr f) of None \<Rightarrow> 0 | Some fl \<Rightarrow> sub fl)
           else unat (data_size f))"

definition field_max :: "('s, 'o) pb_env \<Rightarrow> (pb_field list \<Rightarrow> nat) \<Rightarrow> pb_field \<Rightarrow> nat" where
  "field_max env sub f =
     (if PB_HTYPE (ftype f) = PB_HTYPE_REPEATED
      then 20 + unat (array_size f) * (10 + value_max env sub f)
      else 10 + value_max env sub f)"

primrec encoded_max :: "nat \<Rightarrow> ('s, 'o) pb_env \<Rightarrow> pb_field list \<Rightarrow> nat" where
  "encoded_max 0 env fl = 0"
| "encoded_max (Suc d) env fl =
     (\<Sum>i\<leftarrow>[0..<n_fields fl]. field_max env (encoded_max d env) (fl ! i))"

lemma varint_length_10: "v < 2 ^ 64 \<Longrightarrow> length (varint_bytes v) \<le> 10"
  using varint_bytes_u64_length [of "of_nat v"] unat_of_nat_u64 [of v] by simp


subsection \<open>The proto3 default check\<close>

lemma all_zero_ok: "valid_range m p n \<Longrightarrow> \<exists>b. all_zero n m p = Some b"
proof (induction n arbitrary: p)
  case 0
  then show ?case by simp
next
  case (Suc n)
  then obtain b where "bytes m p = Some b" "valid_range m (p + 1) n" by (auto simp: valid_range_Suc)
  with Suc.IH show ?case by (cases "b = 0") simp_all
qed

lemma load_is_zero_ok:
  "valid_range m p n \<Longrightarrow> p \<le> a \<Longrightarrow> a + k \<le> p + n \<Longrightarrow> \<exists>b. load_is_zero m a k = Some b"
  using load_uint_valid [OF valid_range_mono [of m p n a k]] by (auto simp: load_is_zero_def)

lemma run_list_total:
  "(\<And>i x. i \<in> set is \<Longrightarrow> \<exists>b. body i x = Some (b, x)) \<Longrightarrow> \<exists>b. run_list body is x = Some (b, x)"
proof (induction "is")
  case Nil
  then show ?case by simp
next
  case (Cons i "is")
  then obtain b where "body i x = Some (b, x)" by fastforce
  moreover from Cons obtain b' where "run_list body is x = Some (b', x)" by auto
  ultimately show ?case by (cases b) auto
qed

lemma check_proto3_ok:
  "d < n \<Longrightarrow> wf_fields fl \<Longrightarrow> i < n_fields fl \<Longrightarrow> static_field env (static_msg d env) fl sz i \<Longrightarrow>
   valid_range m dest sz \<Longrightarrow>
   \<exists>b. pb_check_proto3_default_value n env m (fl ! i) (dest + field_off fl i) = Some b"
proof (induction n arbitrary: d fl i sz dest)
  case 0
  then show ?case by simp
next
  case (Suc n)
  note v = Suc.prems(5) and f = Suc.prems(4)
  let ?f = "fl ! i" and ?p = "dest + field_off fl i"
  let ?a = "nat (int dest + size_off fl i)" and ?h = "PB_HTYPE (ftype (fl ! i))"
  let ?t = "PB_LTYPE (ftype (fl ! i))" and ?n = "unat (data_size (fl ! i))"
  note D = static_fieldD(1,2) [OF f] static_fieldD(3-7,9) [OF f, of dest]
  have ps: "ptr_add_s ?p (size_offset ?f) = ?a" by (rule D(8))
  have four: "\<exists>b. load_is_zero m ?a 4 = Some b"
    if "?h = PB_HTYPE_REPEATED \<or> ?h = PB_HTYPE_ONEOF"
    using D(6,7) that v by (intro load_is_zero_ok [of m dest sz]) auto
  have one: "\<exists>b. load_is_zero m ?a 1 = Some b" if "?h = PB_HTYPE_OPTIONAL" "size_offset ?f \<noteq> 0"
  proof -
    from f that have "inside (size_off fl i) 1 sz"
      by (auto simp: static_field_def Let_def signed_eq_0_iff)
    with v show ?thesis by (intro load_is_zero_ok [of m dest sz]) (auto simp: inside_def)
  qed
  have data: "valid_range m ?p ?n" if "?h \<noteq> PB_HTYPE_REPEATED"
    using v by (rule valid_range_mono) (use that D(3,4) in \<open>auto simp: field_extent_def\<close>)
  have by4: "\<exists>b. load_is_zero m ?p 4 = Some b" if "?h \<noteq> PB_HTYPE_REPEATED" "?t = PB_LTYPE_BYTES"
  proof -
    from that(2) D(2) have "4 \<le> ?n" by (simp add: static_value_def Let_def ltype_defs word_le_nat_alt)
    with data [OF that(1)] show ?thesis by (intro load_is_zero_ok [of m ?p ?n]) auto
  qed
  have by1: "\<exists>b. load_is_zero m ?p 1 = Some b" if "?h \<noteq> PB_HTYPE_REPEATED" "?t = PB_LTYPE_STRING"
  proof -
    from that(2) D(2) have "1 \<le> ?n" by (simp add: static_value_def Let_def ltype_defs word_le_nat_alt)
    with data [OF that(1)] show ?thesis by (intro load_is_zero_ok [of m ?p ?n]) auto
  qed
  have sub: "\<exists>b. (do {
        fl' \<leftarrow> sub_fields env (fptr ?f);
        (nonempty, it) \<leftarrow> pb_field_iter_begin fl' ?p;
        if \<not> nonempty then Some True
        else map_option fst (for_fields (\<lambda>it u. do {
            g \<leftarrow> iter_field it;
            z \<leftarrow> pb_check_proto3_default_value n env m g (pData it);
            Some (z, u) }) it ()) }) = Some b"
    if h: "?h \<noteq> PB_HTYPE_REPEATED" and t: "?t = PB_LTYPE_SUBMESSAGE"
  proof -
    from t D(2) obtain fl' where fl': "sub_fields env (fptr ?f) = Some fl'" "static_msg d env fl' ?n"
      by (auto simp: static_value_def Let_def split: option.splits)
    then obtain d' where d: "d = Suc d'" by (cases d) auto
    note S = static_msgD [OF fl'(2) [unfolded d]]
    have d': "d' < n" using d Suc.prems(1) by simp
    show ?thesis
    proof (cases "n_fields fl' = 0")
      case True
      with fl'(1) iter_begin_wf [OF S(1)] show ?thesis by simp
    next
      case False
      have "\<exists>b. run_list (\<lambda>j u. do {
            g \<leftarrow> iter_field (iter_at fl' ?p j);
            z \<leftarrow> pb_check_proto3_default_value n env m g (pData (iter_at fl' ?p j));
            Some (z, u) }) [0..<n_fields fl'] () = Some (b, ())"
      proof (rule run_list_total)
        fix j u assume "j \<in> set [0..<n_fields fl']"
        then have j: "j < n_fields fl'" by simp
        then have "iter_field (iter_at fl' ?p j) = Some (fl' ! j)"
          using iter_field_ok [OF S(1) iter_ok_at [of j fl' ?p]] by simp
        with Suc.IH [OF d' S(1) j S(3) [OF j] data [OF h]]
        show "\<exists>b. (do {
            g \<leftarrow> iter_field (iter_at fl' ?p j);
            z \<leftarrow> pb_check_proto3_default_value n env m g (pData (iter_at fl' ?p j));
            Some (z, u) }) = Some (b, u)" by (auto simp: iter_at_offsets)
      qed
      with False fl'(1) show ?thesis by (auto simp: iter_begin_wf [OF S(1)] for_fields_run [OF S(1)])
    qed
  qed
  from data have az: "\<exists>b. all_zero ?n m ?p = Some b" if "?h \<noteq> PB_HTYPE_REPEATED"
    using that by (intro all_zero_ok)
  show ?case
    unfolding pb_check_proto3_default_value.simps Let_def ps
    by (intro ex_Some_if)
      (blast intro: four one by4 by1 sub az)+
qed

context byte_sink
begin

subsection \<open>Calls whose output does not depend on the stream\<close>

definition det :: "u8 list \<Rightarrow> bool \<Rightarrow> ('s pb_ostream \<Rightarrow> (bool \<times> 's pb_ostream) option) \<Rightarrow> bool" where
  "det bs good enc \<longleftrightarrow>
     (\<forall>s. out_ok sink_ok room s \<longrightarrow> small s (length bs) \<longrightarrow> runs put s bs good (enc s))"

lemma detD:
  "det bs good enc \<Longrightarrow> out_ok sink_ok room s \<Longrightarrow> small s (length bs) \<Longrightarrow> runs put s bs good (enc s)"
  by (simp add: det_def)

lemma det_Nil: "det [] True (\<lambda>s. Some (True, s))"
  by (simp add: det_def runs_Nil)

lemma det_error: "det [] False (\<lambda>s. Some (False, os_set_error msg s))"
  by (simp add: det_def runs_error)

lemma det_seq:
  assumes f: "det bs True f" and g: "det cs good g"
  shows "det (bs @ cs) good (\<lambda>s. do { (ok, s') \<leftarrow> f s; if \<not> ok then Some (False, s') else g s' })"
  unfolding det_def
proof (intro allI impI)
  fix s :: "'s pb_ostream"
  assume s: "out_ok sink_ok room s" "small s (length (bs @ cs))"
  then have "small s (length bs)" by (auto intro: small_mono)
  with f s(1) have "emits put s bs (f s)" by (rule detD)
  moreover have "runs put (push put bs s) cs good (g (push put bs s))" if "fits s (length bs)"
    using s by (intro detD [OF g] push_ok that small_push) simp_all
  ultimately show "runs put s (bs @ cs) good
      (do { (ok, s') \<leftarrow> f s; if \<not> ok then Some (False, s') else g s' })"
    by (rule runs_seq [OF s(1)])
qed

lemma det_stop:
  assumes f: "det bs False f"
  shows "det bs False (\<lambda>s. do { (ok, s') \<leftarrow> f s; if \<not> ok then Some (False, s') else g s' })"
  unfolding det_def
proof (intro allI impI)
  fix s :: "'s pb_ostream"
  assume "out_ok sink_ok room s" "small s (length bs)"
  with f have "runs put s bs False (f s)" by (rule detD)
  then show "runs put s bs False (do { (ok, s') \<leftarrow> f s; if \<not> ok then Some (False, s') else g s' })"
    by (rule runs_stop)
qed

text \<open>\<open>determined N enc\<close>: some bytes, at most \<open>N\<close>, and an outcome fit all streams.\<close>

definition determined :: "nat \<Rightarrow> ('s pb_ostream \<Rightarrow> (bool \<times> 's pb_ostream) option) \<Rightarrow> bool" where
  "determined N enc \<longleftrightarrow> (\<exists>bs good. det bs good enc \<and> length bs \<le> N)"

lemma determinedI: "det bs good enc \<Longrightarrow> length bs \<le> N \<Longrightarrow> determined N enc"
  by (auto simp: determined_def)

lemma determinedE:
  assumes "determined N enc"
  obtains bs good where "det bs good enc" "length bs \<le> N"
  using assms by (auto simp: determined_def)

lemma determined_mono: "determined N enc \<Longrightarrow> N \<le> M \<Longrightarrow> determined M enc"
  by (auto simp: determined_def)

lemma determined_nothing: "determined N (\<lambda>s. Some (True, s))"
  by (rule determinedI [OF det_Nil]) simp

lemma determined_error: "determined N (\<lambda>s. Some (False, os_set_error msg s))"
  by (rule determinedI [OF det_error]) simp

lemma determined_seq:
  assumes "determined A f" "determined B g"
  shows "determined (A + B) (\<lambda>s. do { (ok, s') \<leftarrow> f s; if \<not> ok then Some (False, s') else g s' })"
proof -
  from assms(1) obtain bs good where f: "det bs good f" "length bs \<le> A" by (rule determinedE)
  from assms(2) obtain cs good' where g: "det cs good' g" "length cs \<le> B" by (rule determinedE)
  show ?thesis
  proof (cases good)
    case True
    with f g show ?thesis by (auto intro!: determinedI det_seq)
  next
    case False
    with f show ?thesis by (auto intro!: determinedI det_stop)
  qed
qed

text \<open>What the sizing stream shows of a call.\<close>

lemma det_sizing:
  assumes "det bs good enc"
  obtains st where "enc PB_OSTREAM_SIZING = Some (good, st)" "bytes_written st = of_nat (length bs)"
proof -
  have "runs put PB_OSTREAM_SIZING bs good (enc PB_OSTREAM_SIZING)"
    using assms by (rule detD) (simp_all add: small_def)
  then obtain e where "enc PB_OSTREAM_SIZING = Some (good, (push put bs PB_OSTREAM_SIZING)\<lparr>os_errmsg := e\<rparr>)"
  proof (cases good)
    case True
    assume "runs put PB_OSTREAM_SIZING bs good (enc PB_OSTREAM_SIZING)"
      and t: "\<And>e. enc PB_OSTREAM_SIZING =
        Some (good, (push put bs PB_OSTREAM_SIZING)\<lparr>os_errmsg := e\<rparr>) \<Longrightarrow> thesis"
    with True have "enc PB_OSTREAM_SIZING = Some (True, push put bs PB_OSTREAM_SIZING)"
      by (simp add: runs_def)
    with True t [of None] show thesis by (simp add: push_def PB_OSTREAM_SIZING_def)
  next
    case False
    assume "runs put PB_OSTREAM_SIZING bs good (enc PB_OSTREAM_SIZING)"
      and t: "\<And>e. enc PB_OSTREAM_SIZING =
        Some (good, (push put bs PB_OSTREAM_SIZING)\<lparr>os_errmsg := e\<rparr>) \<Longrightarrow> thesis"
    with False show thesis by (auto simp: runs_def)
  qed
  then show thesis using that by (simp add: push_def)
qed

subsection \<open>Primitives\<close>

lemma det_varint: "det (varint_bytes (unat v)) True (\<lambda>s. pb_encode_varint s m v)"
  by (simp add: det_def encode_varint_runs)

lemma det_tag: "wt < 8 \<Longrightarrow> det (varint_bytes (8 * unat t + wt)) True (\<lambda>s. pb_encode_tag s m wt t)"
  by (simp add: det_def encode_tag_runs)

lemma det_string:
  "fetch_buf m buf (length bs) = Some bs \<Longrightarrow> length bs < 2 ^ 64 \<Longrightarrow>
   det (varint_bytes (length bs) @ bs) True (\<lambda>s. pb_encode_string s m buf (of_nat (length bs)))"
  by (simp add: det_def encode_string_runs)

lemma det_fixed32:
  "load_uint m a 4 = Some v \<Longrightarrow> det (le_bytes 4 v) True (\<lambda>s. pb_encode_fixed32 s m a)"
  by (simp add: det_def encode_fixed32_runs)

lemma det_fixed64:
  "load_uint m a 8 = Some v \<Longrightarrow> det (le_bytes 8 v) True (\<lambda>s. pb_encode_fixed64 s m a)"
  by (simp add: det_def encode_fixed64_runs)

lemma determined_varint: "determined 10 (\<lambda>s. pb_encode_varint s m v)"
  by (rule determinedI [OF det_varint]) (rule varint_bytes_u64_length)

lemma determined_tag: "wt < 8 \<Longrightarrow> determined 10 (\<lambda>s. pb_encode_tag s m wt t)"
proof (rule determinedI [OF det_tag])
  assume "wt < 8"
  moreover have "unat t < 4294967296" by (rule unat_u32_less)
  ultimately have "8 * unat t + wt < 34359738376" by linarith
  then have "8 * unat t + wt < 2 ^ 64" by simp
  then show "length (varint_bytes (8 * unat t + wt)) \<le> 10" by (rule varint_length_10)
qed

lemma determined_tag_for_field: "determined 10 (\<lambda>s. pb_encode_tag_for_field s m f)"
proof (cases "field_wiretype (PB_LTYPE (ftype f))")
  case None
  then show ?thesis by (simp add: pb_encode_tag_for_field_def determined_error)
next
  case (Some wt)
  then have "wt < 8" by (auto simp: field_wiretype_def wt_defs split: if_splits)
  from determined_tag [OF this] Some show ?thesis by (simp add: pb_encode_tag_for_field_def)
qed

lemma determined_string_mem:
  assumes "valid_range m a (unat n)"
  shows "determined (10 + unat n) (\<lambda>s. pb_encode_string s m (BufMem a) n)"
proof -
  from load_bytes_valid [OF assms] obtain bs where "load_bytes m a (unat n) = Some bs"
    and len: "length bs = unat n" by blast
  then have "det (varint_bytes (length bs) @ bs) True (\<lambda>s. pb_encode_string s m (BufMem a) (of_nat (length bs)))"
    by (intro det_string) (simp_all add: fetch_buf_def)
  moreover have "length (varint_bytes (length bs)) \<le> 10" by (rule varint_length_10) (simp add: len)
  ultimately show ?thesis using len by (auto intro: determinedI)
qed

lemma determined_string_null: "determined (10 + N) (\<lambda>s. pb_encode_string s m BufNull 0)"
proof -
  have "det (varint_bytes (length ([] :: u8 list)) @ []) True
      (\<lambda>s. pb_encode_string s m BufNull (of_nat (length ([] :: u8 list))))"
    by (rule det_string) (simp_all add: fetch_buf_def)
  moreover have "length (varint_bytes 0) \<le> 10" by (rule varint_length_10) simp
  ultimately show ?thesis by (auto intro: determinedI)
qed

subsection \<open>Submessages\<close>

text \<open>The submessage is encoded twice, first to a sizing stream.  Its output is the length of
  what the sizing run counted, and then these bytes.\<close>

lemma det_submessage:
  assumes enc: "det bs good (\<lambda>s. encode s fl src)"
  shows "det (if good then varint_bytes (unat (of_nat (length bs) :: u64)) @ bs else []) good
    (\<lambda>s. pb_encode_submessage m encode s fl src)"
proof -
  from det_sizing [OF enc] obtain st where
    sz: "encode PB_OSTREAM_SIZING fl src = Some (good, st)" "bytes_written st = of_nat (length bs)" .
  show ?thesis
  proof (cases good)
    case False
    with sz show ?thesis by (simp add: det_def pb_encode_submessage_def runs_errmsg)
  next
    case True
    let ?len = "of_nat (length bs) :: u64"
    let ?body = "\<lambda>s1. if sink s1 = Sizing then pb_write s1 m BufNull ?len
       else if max_size s1 < bytes_written s1 + ?len
         then Some (False, os_set_error ''stream full'' s1)
       else do {
         (status, substream2) \<leftarrow>
           encode \<lparr>sink = sink s1, max_size = ?len, bytes_written = 0, os_errmsg = None\<rparr> fl src;
         let s2 = s1\<lparr>bytes_written := bytes_written s1 + bytes_written substream2,
                     sink := sink substream2, os_errmsg := os_errmsg substream2\<rparr>;
         if bytes_written substream2 \<noteq> ?len
         then Some (False, os_set_error ''submsg size changed'' s2)
         else Some (status, s2) }"
    have "det bs True ?body" unfolding det_def
    proof (intro allI impI)
      fix s1 :: "'s pb_ostream"
      assume ok: "out_ok sink_ok room s1" and small: "small s1 (length bs)"
      show "emits put s1 bs (?body s1)"
      proof (cases "sink s1 = Sizing")
        case True
        then show ?thesis by (simp add: runs_def fits_def pb_write_def push_def)
      next
        case notsz: False
        with ok have sok: "sink_ok (sink s1)" and e1: "os_errmsg s1 = None"
          and r: "unat (max_size s1) - unat (bytes_written s1) \<le> room (sink s1)"
          by (auto simp: out_ok_def)
        from small notsz have lt: "unat (bytes_written s1) + length bs < 2 ^ 64" by (simp add: small_def)
        then have ulen: "unat ?len = length bs" by (intro unat_of_nat_u64) simp
        have "unat (of_nat (unat (bytes_written s1) + length bs) :: u64) =
            unat (bytes_written s1) + length bs" using lt by (rule unat_of_nat_u64)
        then have u: "unat (bytes_written s1 + ?len) = unat (bytes_written s1) + length bs" by simp
        have fit: "fits s1 (length bs) \<longleftrightarrow> \<not> max_size s1 < bytes_written s1 + ?len"
          using notsz u by (auto simp: fits_def word_less_nat_alt)
        show ?thesis
        proof (cases "fits s1 (length bs)")
          case False
          then have "?body s1 = Some (False, os_set_error ''stream full'' s1)"
            using fit notsz by simp
          then show ?thesis using runs_full [OF ok False] by (simp only:)
        next
          case True
          let ?sub = "\<lparr>sink = sink s1, max_size = ?len, bytes_written = 0, os_errmsg = None\<rparr>"
          from True notsz have "unat (bytes_written s1) + length bs \<le> unat (max_size s1)"
            by (simp add: fits_def)
          with r have "length bs \<le> room (sink s1)" by simp
          with sok ulen have subok: "out_ok sink_ok room ?sub" by (simp add: out_ok_def)
          have "small ?sub (length bs)" using lt by (simp add: small_def)
          with subok \<open>good\<close> enc have "emits put ?sub bs (encode ?sub fl src)"
            by (auto dest: detD)
          moreover have "fits ?sub (length bs)" by (simp add: fits_def ulen)
          ultimately have "encode ?sub fl src = Some (True, push put bs ?sub)" by (simp add: runs_def)
          then have "?body s1 = Some (True, push put bs s1)"
            using True fit notsz e1 by (simp add: push_def)
          with True show ?thesis by (simp add: runs_def)
        qed
      qed
    qed
    from det_seq [OF det_varint [of ?len m] this] True sz show ?thesis
      by (simp add: pb_encode_submessage_def Let_def cong: if_cong)
  qed
qed

subsection \<open>The field types\<close>

text \<open>\<open>enc_ok f p func\<close>: the value at \<open>p\<close> has a determined encoding.\<close>

lemma determined_varints:
  assumes v: "valid_range m p (unat (data_size f))"
  shows "determined 10 (\<lambda>s. pb_enc_varint m s f p)" "determined 10 (\<lambda>s. pb_enc_uvarint m s f p)"
    "determined 10 (\<lambda>s. pb_enc_svarint m s f p)"
proof -
  from load_uint_valid [OF v] obtain w where w: "load_uint m p (unat (data_size f)) = Some w" by blast
  have vd: "determined 10 (\<lambda>s. pb_encode_varint s m u)" for u by (rule determined_varint)
  then have sd: "determined 10 (\<lambda>s. pb_encode_svarint s m u)" for u
    by (simp add: pb_encode_svarint_def)
  show "determined 10 (\<lambda>s. pb_enc_varint m s f p)"
  proof (cases "data_size f \<in> {1, 2, 4, 8}")
    case True
    then obtain u where "int_cast (data_size f) w = Some u" by (auto simp: int_cast_def)
    with True w vd show ?thesis by (simp only: pb_enc_varint_def if_True bind.simps)
  qed (simp add: pb_enc_varint_def determined_error)
  show "determined 10 (\<lambda>s. pb_enc_uvarint m s f p)"
  proof (cases "data_size f \<in> {1, 2, 4, 8}")
    case True
    then obtain u where "uint_cast (data_size f) w = Some u" by (auto simp: uint_cast_def)
    with True w vd show ?thesis by (simp only: pb_enc_uvarint_def if_True bind.simps)
  qed (simp add: pb_enc_uvarint_def determined_error)
  show "determined 10 (\<lambda>s. pb_enc_svarint m s f p)"
  proof (cases "data_size f \<in> {1, 2, 4, 8}")
    case True
    then obtain u where "int_cast (data_size f) w = Some u" by (auto simp: int_cast_def)
    with True w sd show ?thesis by (simp only: pb_enc_svarint_def if_True bind.simps)
  qed (simp add: pb_enc_svarint_def determined_error)
qed

lemma determined_bytes:
  assumes v: "valid_range m p (unat (data_size f))" and four: "4 \<le> data_size f"
    and a: "PB_ATYPE (ftype f) = PB_ATYPE_STATIC"
  shows "determined (10 + unat (data_size f)) (\<lambda>s. pb_enc_bytes m s f p)"
proof (cases "p = 0")
  case True
  then show ?thesis by (simp add: pb_enc_bytes_def determined_string_null)
next
  case False
  from four have "4 \<le> unat (data_size f)" by (simp add: word_le_nat_alt)
  with v have "valid_range m p 4" by (rule_tac valid_range_mono) auto
  from load_uint_valid [OF this] obtain w where w: "load_uint m p 4 = Some w" by blast
  let ?len = "ucast w :: u32"
  show ?thesis
  proof (cases "ucast (data_size f) < PB_BYTES_ARRAY_T_ALLOCSIZE ?len")
    case True
    with False w a show ?thesis by (simp add: pb_enc_bytes_def determined_error)
  next
    case fit: False
    have "unat ?len + 4 < 18446744073709551616" using unat_u32_less [of ?len] by linarith
    then have "unat (PB_BYTES_ARRAY_T_ALLOCSIZE ?len) = unat ?len + 4"
      by (simp add: PB_BYTES_ARRAY_T_ALLOCSIZE_def pb_bytes_offset_def unat_word_ariths)
    with fit have "unat ?len + 4 \<le> unat (data_size f)" by (simp add: word_less_nat_alt)
    with v have "valid_range m (p + 4) (unat (ucast ?len :: u64))"
      by (simp, rule_tac valid_range_mono) auto
    from determined_string_mem [OF this] have
      "determined (10 + unat (data_size f)) (\<lambda>s. pb_encode_string s m (BufMem (p + 4)) (ucast ?len))"
      by (rule determined_mono) (use \<open>unat ?len + 4 \<le> unat (data_size f)\<close> in simp)
    with fit False w show ?thesis by (simp add: pb_enc_bytes_def pb_bytes_offset_def)
  qed
qed

lemma string_size_ok:
  "valid_range m p (unat limit) \<Longrightarrow> \<exists>n. string_size limit m p = Some n \<and> n \<le> limit"
proof (induction limit m p rule: string_size.induct)
  case (1 limit m p)
  show ?case
  proof (cases "limit = 0")
    case True
    then show ?thesis by (subst string_size.simps) simp
  next
    case False
    then obtain k where k: "unat limit = Suc k" "unat (limit - 1) = k"
      using unat_minus_one [of limit] unat_gt_0 [of limit] by (cases "unat limit") auto
    with "1.prems" obtain b where b: "bytes m p = Some b" and v: "valid_range m (p + 1) (unat (limit - 1))"
      by (auto simp: valid_range_Suc)
    show ?thesis
    proof (cases "b = 0")
      case True
      with False b show ?thesis by (subst string_size.simps) simp
    next
      case nz: False
      from "1.IH" [OF False b nz v] obtain n where n: "string_size (limit - 1) m (p + 1) = Some n"
        "n \<le> limit - 1" by blast
      from n(2) k have "unat n \<le> k" by (simp add: word_le_nat_alt)
      then have "unat (n + 1) \<le> Suc k" by (auto simp: unat_word_ariths intro: order_trans [OF mod_less_eq_dividend])
      with k have "n + 1 \<le> limit" by (simp add: word_le_nat_alt)
      with False nz b n show ?thesis by (subst string_size.simps) simp
    qed
  qed
qed

lemma determined_string:
  assumes v: "valid_range m p (unat (data_size f))" and a: "PB_ATYPE (ftype f) = PB_ATYPE_STATIC"
  shows "determined (10 + unat (data_size f)) (\<lambda>s. pb_enc_string m s f p)"
proof (cases "p = 0")
  case True
  then show ?thesis by (simp add: pb_enc_string_def Let_def determined_string_null)
next
  case False
  let ?l = "ucast (data_size f) :: u64"
  from a have np: "PB_ATYPE (ftype f) \<noteq> PB_ATYPE_POINTER" by (simp add: atype_defs)
  from v string_size_ok [of m p ?l] obtain n where n: "string_size ?l m p = Some n" "n \<le> ?l" by auto
  from n(2) have le: "unat n \<le> unat (data_size f)" by (simp add: word_le_nat_alt)
  with v have "valid_range m p (unat n)" by (rule_tac valid_range_mono) auto
  from determined_string_mem [OF this] have
    "determined (10 + unat (data_size f)) (\<lambda>s. pb_encode_string s m (BufMem p) n)"
    by (rule determined_mono) (use le in simp)
  with n False np show ?thesis by (simp add: pb_enc_string_def Let_def)
qed

lemma encoder_for_ok:
  assumes f: "static_value env sub f" and a: "PB_ATYPE (ftype f) = PB_ATYPE_STATIC"
    and sub: "PB_LTYPE (ftype f) = PB_LTYPE_SUBMESSAGE \<Longrightarrow>
      (\<And>p. valid_range m p (unat (data_size f)) \<Longrightarrow> determined V (\<lambda>s. enc_submessage s f p))"
    and V: "PB_LTYPE (ftype f) \<noteq> PB_LTYPE_SUBMESSAGE \<Longrightarrow> 10 + unat (data_size f) \<le> V"
  obtains func where "encoder_for m enc_submessage f = Some func"
    "\<And>p. valid_range m p (unat (data_size f)) \<Longrightarrow> determined V (\<lambda>s. func s f p)"
proof -
  let ?t = "PB_LTYPE (ftype f)"
  have "?t < PB_LTYPES_COUNT \<and> ?t \<noteq> PB_LTYPE_EXTENSION"
    using f by (cases "?t = PB_LTYPE_SUBMESSAGE") (auto simp: static_value_def Let_def ltype_defs)
  then consider "?t = PB_LTYPE_VARINT" | "?t = PB_LTYPE_UVARINT" | "?t = PB_LTYPE_SVARINT"
    | "?t = PB_LTYPE_FIXED32" | "?t = PB_LTYPE_FIXED64" | "?t = PB_LTYPE_BYTES"
    | "?t = PB_LTYPE_STRING" | "?t = PB_LTYPE_SUBMESSAGE" | "?t = PB_LTYPE_FIXED_LENGTH_BYTES"
    using ltype_cases [of ?t] by auto
  then show thesis
  proof cases
    case 1
    with V have "10 \<le> V" by (simp add: ltype_defs)
    with 1 show thesis using that [of "pb_enc_varint m"] determined_mono [OF determined_varints(1)]
      by (simp add: encoder_for_def PB_ENCODERS_def ltype_defs)
  next
    case 2
    with V have "10 \<le> V" by (simp add: ltype_defs)
    with 2 show thesis using that [of "pb_enc_uvarint m"] determined_mono [OF determined_varints(2)]
      by (simp add: encoder_for_def PB_ENCODERS_def ltype_defs)
  next
    case 3
    with V have "10 \<le> V" by (simp add: ltype_defs)
    with 3 show thesis using that [of "pb_enc_svarint m"] determined_mono [OF determined_varints(3)]
      by (simp add: encoder_for_def PB_ENCODERS_def ltype_defs)
  next
    case 4
    with f have "data_size f = 4" by (simp add: static_value_def Let_def ltype_defs)
    with 4 V show thesis
      by (intro that [of "pb_enc_fixed32 m"])
        (auto simp: encoder_for_def PB_ENCODERS_def ltype_defs pb_enc_fixed32_def
          dest!: load_uint_valid intro!: determinedI [OF det_fixed32])
  next
    case 5
    with f have "data_size f = 8" by (simp add: static_value_def Let_def ltype_defs)
    with 5 V show thesis
      by (intro that [of "pb_enc_fixed64 m"])
        (auto simp: encoder_for_def PB_ENCODERS_def ltype_defs pb_enc_fixed64_def
          dest!: load_uint_valid intro!: determinedI [OF det_fixed64])
  next
    case 6
    with f have "4 \<le> data_size f" by (simp add: static_value_def Let_def ltype_defs)
    with 6 a V show thesis using that [of "pb_enc_bytes m"] determined_mono [OF determined_bytes]
      by (simp add: encoder_for_def PB_ENCODERS_def ltype_defs)
  next
    case 7
    with a V show thesis using that [of "pb_enc_string m"] determined_mono [OF determined_string]
      by (simp add: encoder_for_def PB_ENCODERS_def ltype_defs)
  next
    case 8
    then show thesis using that [of enc_submessage] sub
      by (simp add: encoder_for_def PB_ENCODERS_def ltype_defs)
  next
    case 9
    with V have le: "10 + unat (data_size f) \<le> V" by (simp add: ltype_defs)
    have "determined V (\<lambda>s. pb_encode_string s m (BufMem p) (ucast (data_size f)))"
      if "valid_range m p (unat (data_size f))" for p
      using determined_mono [OF determined_string_mem [of m p "ucast (data_size f)"]] that le by simp
    with 9 show thesis
      by (intro that [of "pb_enc_fixed_length_bytes m"])
        (simp_all add: encoder_for_def PB_ENCODERS_def ltype_defs pb_enc_fixed_length_bytes_def)
  qed
qed

subsection \<open>Arrays\<close>

lemma det_items:
  assumes "\<And>j. j < n \<Longrightarrow> determined V (\<lambda>s. func s f (p + j * unat (data_size f)))"
  shows "determined (n * V) (\<lambda>s. encode_items n func s f p)"
  using assms
proof (induction n arbitrary: p)
  case 0
  show ?case by (simp add: determined_nothing [of 0, simplified])
next
  case (Suc n)
  have "determined (n * V) (\<lambda>s. encode_items n func s f (p + unat (data_size f)))"
  proof (rule Suc.IH)
    fix j assume "j < n"
    with Suc.prems [of "Suc j"]
    show "determined V (\<lambda>s. func s f (p + unat (data_size f) + j * unat (data_size f)))"
      by (simp add: add.assoc)
  qed
  with Suc.prems [of 0] show ?case by (simp add: determined_seq)
qed

lemma det_tagged_items:
  assumes "\<And>j. j < n \<Longrightarrow> determined V (\<lambda>s. func s f (p + j * unat (data_size f)))"
    and a: "PB_ATYPE (ftype f) = PB_ATYPE_STATIC"
  shows "determined (n * (10 + V)) (\<lambda>s. encode_tagged_items n m func s f p)"
  using assms(1)
proof (induction n arbitrary: p)
  case 0
  show ?case by (simp add: determined_nothing [of 0, simplified])
next
  case (Suc n)
  from a have np: "PB_ATYPE (ftype f) \<noteq> PB_ATYPE_POINTER" by (simp add: atype_defs)
  have rest: "determined (n * (10 + V)) (\<lambda>s. encode_tagged_items n m func s f (p + unat (data_size f)))"
  proof (rule Suc.IH)
    fix j assume "j < n"
    with Suc.prems [of "Suc j"]
    show "determined V (\<lambda>s. func s f (p + unat (data_size f) + j * unat (data_size f)))"
      by (simp add: add.assoc)
  qed
  have "determined V (\<lambda>s. func s f p)" using Suc.prems [of 0] by simp
  from determined_seq [OF determined_tag_for_field determined_seq [OF this rest]] np show ?case
    by (simp add: add.assoc cong: if_cong)
qed

text \<open>A packed array of fixed-size items, whose size is computed and not counted.\<close>

lemma det_fixed_items:
  assumes "\<And>j. j < n \<Longrightarrow> \<exists>bs. length bs = k \<and> det bs True (\<lambda>s. func s f (p + j * unat (data_size f)))"
  shows "\<exists>bs. length bs = k * n \<and> det bs True (\<lambda>s. encode_items n func s f p)"
  using assms
proof (induction n arbitrary: p)
  case 0
  show ?case by (intro exI [of _ "[]"]) (simp add: det_Nil)
next
  case (Suc n)
  have "\<exists>bs. length bs = k * n \<and> det bs True (\<lambda>s. encode_items n func s f (p + unat (data_size f)))"
  proof (rule Suc.IH)
    fix j assume "j < n"
    with Suc.prems [of "Suc j"]
    show "\<exists>bs. length bs = k \<and>
        det bs True (\<lambda>s. func s f (p + unat (data_size f) + j * unat (data_size f)))"
      by (simp add: add.assoc)
  qed
  with Suc.prems [of 0] obtain bs cs where "length bs = k" "det bs True (\<lambda>s. func s f p)"
    "length cs = k * n" "det cs True (\<lambda>s. encode_items n func s f (p + unat (data_size f)))" by auto
  with det_seq [of bs "\<lambda>s. func s f p" cs True] show ?case by (intro exI [of _ "bs @ cs"]) simp
qed

lemma det_fail: "det [] False (\<lambda>s. Some (False, s))"
  unfolding det_def
proof (intro allI impI)
  fix s :: "'s pb_ostream"
  assume ok: "out_ok sink_ok room s"
  then have "s = s\<lparr>os_errmsg := None\<rparr>" by (simp add: out_ok_def)
  with runs_errmsg [OF ok, of None] show "runs put s [] False (Some (False, s))" by simp
qed

text \<open>The tail of the packed branch: the size, and then the items unless the stream only counts.\<close>

lemma det_packed:
  assumes "det bs True (\<lambda>s. encode_items n func s f p)"
  shows "determined (10 + length bs) (\<lambda>s1. do {
      (ok', s2) \<leftarrow> pb_encode_varint s1 m (of_nat (length bs));
      if \<not> ok' then Some (False, s2)
      else if sink s2 = Sizing then pb_write s2 m BufNull (of_nat (length bs))
      else encode_items n func s2 f p })"
proof (rule determined_seq [OF determined_varint])
  have "det bs True (\<lambda>s2. if sink s2 = Sizing then pb_write s2 m BufNull (of_nat (length bs))
      else encode_items n func s2 f p)"
    using assms by (auto simp: det_def runs_def fits_def pb_write_def push_def)
  then show "determined (length bs) (\<lambda>s2. if sink s2 = Sizing then pb_write s2 m BufNull (of_nat (length bs))
      else encode_items n func s2 f p)" by (rule determinedI) simp
qed

lemma packed_size_ok:
  assumes t: "PB_LTYPE (ftype f) \<le> PB_LTYPE_LAST_PACKABLE"
    and V: "8 \<le> V"
    and items: "\<And>j. j < unat count \<Longrightarrow> determined V (\<lambda>s. func s f (p + j * unat (data_size f)))"
    and fixed: "\<And>j k. j < unat count \<Longrightarrow>
      PB_LTYPE (ftype f) = PB_LTYPE_FIXED32 \<and> k = 4 \<or> PB_LTYPE (ftype f) = PB_LTYPE_FIXED64 \<and> k = 8 \<Longrightarrow>
      \<exists>bs. length bs = k \<and> det bs True (\<lambda>s. func s f (p + j * unat (data_size f)))"
  obtains (fail) "packed_size func f p count = Some None"
    | (size) bs where "packed_size func f p count = Some (Some (of_nat (length bs)))"
        "det bs True (\<lambda>s. encode_items (unat count) func s f p)" "length bs \<le> unat count * V"
proof -
  consider (f32) "PB_LTYPE (ftype f) = PB_LTYPE_FIXED32" | (f64) "PB_LTYPE (ftype f) = PB_LTYPE_FIXED64"
    | (var) "PB_LTYPE (ftype f) \<noteq> PB_LTYPE_FIXED32" "PB_LTYPE (ftype f) \<noteq> PB_LTYPE_FIXED64" by blast
  then show thesis
  proof cases
    case f32
    have "\<exists>bs. length bs = 4 \<and> det bs True (\<lambda>s. func s f (p + j * unat (data_size f)))"
      if "j < unat count" for j using fixed [OF that, of 4] f32 by simp
    from det_fixed_items [of "unat count" 4 func f p, OF this] obtain bs where "length bs = 4 * unat count"
      "det bs True (\<lambda>s. encode_items (unat count) func s f p)" by blast
    moreover have "4 * unat count \<le> unat count * V" using V by simp
    ultimately show thesis using f32 size [of bs] by (simp add: packed_size_def)
  next
    case f64
    have "\<exists>bs. length bs = 8 \<and> det bs True (\<lambda>s. func s f (p + j * unat (data_size f)))"
      if "j < unat count" for j using fixed [OF that, of 8] f64 by simp
    from det_fixed_items [of "unat count" 8 func f p, OF this] obtain bs where "length bs = 8 * unat count"
      "det bs True (\<lambda>s. encode_items (unat count) func s f p)" by blast
    moreover have "8 * unat count \<le> unat count * V" using V by simp
    ultimately show thesis using f64 size [of bs] by (simp add: packed_size_def ltype_defs)
  next
    case var
    from det_items [of "unat count" V func f p, OF items] obtain bs good where
      d: "det bs good (\<lambda>s. encode_items (unat count) func s f p)" "length bs \<le> unat count * V"
      by (auto simp: determined_def)
    from det_sizing [OF d(1)] obtain st where
      "encode_items (unat count) func PB_OSTREAM_SIZING f p = Some (good, st)"
      "bytes_written st = of_nat (length bs)" .
    with var d fail size [of bs] show thesis by (cases good) (simp_all add: packed_size_def)
  qed
qed

lemma encode_array_ok:
  assumes a: "PB_ATYPE (ftype f) = PB_ATYPE_STATIC"
    and V: "8 \<le> V"
    and items: "\<And>j. j < unat (array_size f) \<Longrightarrow> determined V (\<lambda>s. func s f (p + j * unat (data_size f)))"
    and fixed: "\<And>j k. j < unat (array_size f) \<Longrightarrow>
      PB_LTYPE (ftype f) = PB_LTYPE_FIXED32 \<and> k = 4 \<or> PB_LTYPE (ftype f) = PB_LTYPE_FIXED64 \<and> k = 8 \<Longrightarrow>
      \<exists>bs. length bs = k \<and> det bs True (\<lambda>s. func s f (p + j * unat (data_size f)))"
  shows "determined (20 + unat (array_size f) * (10 + V)) (\<lambda>s. encode_array m s f p count func)"
proof (cases "count = 0 \<or> ucast (array_size f) < count")
  case True
  have "PB_ATYPE (ftype f) \<noteq> PB_ATYPE_POINTER" using a by (simp add: atype_defs)
  with True show ?thesis
    by (cases "count = 0") (simp_all add: encode_array_def determined_nothing determined_error)
next
  case False
  then have c: "unat count \<le> unat (array_size f)" by (simp add: word_less_nat_alt)
  have size: "unat count * (10 + V) \<le> unat (array_size f) * (10 + V)" using c by (rule mult_le_mono1)
  have items': "determined V (\<lambda>s. func s f (p + j * unat (data_size f)))" if "j < unat count" for j
    using that c by (intro items) simp
  have fixed': "\<exists>bs. length bs = k \<and> det bs True (\<lambda>s. func s f (p + j * unat (data_size f)))"
    if "j < unat count" "PB_LTYPE (ftype f) = PB_LTYPE_FIXED32 \<and> k = 4 \<or>
      PB_LTYPE (ftype f) = PB_LTYPE_FIXED64 \<and> k = 8" for j k
    using that c by (intro fixed) simp_all
  show ?thesis
  proof (cases "PB_LTYPE (ftype f) \<le> PB_LTYPE_LAST_PACKABLE")
    case packed: True
    have tag: "determined 10 (\<lambda>s. pb_encode_tag s m PB_WT_STRING (tag f))"
      by (rule determined_tag) (simp add: wt_defs)
    have "determined (10 + unat count * V) (\<lambda>s1. do {
          total \<leftarrow> packed_size func f p count;
          case total of
            None \<Rightarrow> Some (False, s1)
          | Some len \<Rightarrow> do {
              (ok', s2) \<leftarrow> pb_encode_varint s1 m len;
              if \<not> ok' then Some (False, s2)
              else if sink s2 = Sizing then pb_write s2 m BufNull len
              else encode_items (unat count) func s2 f p } })"
    proof (rule packed_size_ok [of f V count func p, OF packed V items' fixed'])
      assume "packed_size func f p count = Some None"
      then show ?thesis by (simp add: determinedI [OF det_fail])
    next
      fix bs assume sz: "packed_size func f p count = Some (Some (of_nat (length bs)))"
        and d: "det bs True (\<lambda>s. encode_items (unat count) func s f p)" and len: "length bs \<le> unat count * V"
      from determined_mono [OF det_packed [OF d]] len sz show ?thesis by simp
    qed
    from determined_seq [OF tag this] have "determined (10 + (10 + unat count * V)) (\<lambda>s. encode_array m s f p count func)"
      using False packed by (simp add: encode_array_def)
    then show ?thesis by (rule determined_mono) (use size in \<open>simp add: distrib_left\<close>)
  next
    case unpacked: False
    have "determined (unat count * (10 + V)) (\<lambda>s. encode_tagged_items (unat count) m func s f p)"
      by (rule det_tagged_items [of "unat count" V func f p, OF items' a])
    then have "determined (20 + unat (array_size f) * (10 + V)) (\<lambda>s. encode_tagged_items (unat count) m func s f p)"
      by (rule determined_mono) (use size in linarith)
    with False unpacked show ?thesis by (simp add: encode_array_def)
  qed
qed

subsection \<open>Fields and messages\<close>

lemma encode_basic_field_ok:
  assumes wf: "wf_fields fl" and i: "i < n_fields fl" and n: "d < n"
    and f: "static_field env (static_msg d env) fl sz i" and v: "valid_range m dest sz"
    and sub: "\<And>p. PB_LTYPE (ftype (fl ! i)) = PB_LTYPE_SUBMESSAGE \<Longrightarrow>
      valid_range m p (unat (data_size (fl ! i))) \<Longrightarrow>
      determined (value_max env mx (fl ! i)) (\<lambda>s. enc_submessage s (fl ! i) p)"
  shows "determined (field_max env mx (fl ! i)) (\<lambda>s. encode_basic_field n env m enc_submessage s (fl ! i) (dest + field_off fl i))"
proof -
  let ?f = "fl ! i" and ?p = "dest + field_off fl i"
  let ?a = "nat (int dest + size_off fl i)" and ?h = "PB_HTYPE (ftype (fl ! i))"
  let ?n = "unat (data_size (fl ! i))" and ?V = "value_max env mx (fl ! i)"
  note D = static_fieldD(1,2) [OF f] static_fieldD(3-7,9) [OF f, of dest] static_fieldD(8) [OF f]
  have V: "PB_LTYPE (ftype ?f) \<noteq> PB_LTYPE_SUBMESSAGE \<Longrightarrow> 10 + ?n \<le> ?V" "8 \<le> ?V"
    by (simp_all add: value_max_def)
  have one: "10 + ?V = field_max env mx ?f" if "?h \<noteq> PB_HTYPE_REPEATED"
    using that by (simp add: field_max_def)
  have ps: "ptr_add_s ?p (size_offset ?f) = ?a" by (rule D(8))
  have np: "PB_ATYPE (ftype ?f) \<noteq> PB_ATYPE_POINTER" using D(1) by (simp add: atype_defs)
  obtain func where enc: "encoder_for m enc_submessage ?f = Some func"
    and func: "\<And>p. valid_range m p ?n \<Longrightarrow> determined ?V (\<lambda>s. func s ?f p)"
    using encoder_for_ok [where m = m and enc_submessage = enc_submessage, OF D(2,1) sub V(1)] by blast
  have put: "determined (field_max env mx ?f) (\<lambda>s. do { (ok, s1) \<leftarrow> pb_encode_tag_for_field s m ?f;
       if \<not> ok then Some (False, s1) else func s1 ?f ?p })" if "?h \<noteq> PB_HTYPE_REPEATED"
    unfolding one [OF that, symmetric]
  proof (rule determined_seq [OF determined_tag_for_field func])
    show "valid_range m ?p ?n" using v
      by (rule valid_range_mono) (use that D(3,4) in \<open>auto simp: field_extent_def\<close>)
  qed
  have skip: "determined (field_max env mx ?f) (\<lambda>s. Some (True, s))" by (rule determined_nothing)
  have count: "\<exists>w. load_uint m ?a 4 = Some w" if "?h = PB_HTYPE_REPEATED \<or> ?h = PB_HTYPE_ONEOF"
    by (rule load_uint_valid, rule valid_range_mono [OF v]) (use D(6,7) that in auto)
  consider (req) "?h = PB_HTYPE_REQUIRED" | (opt) "?h = PB_HTYPE_OPTIONAL"
    | (rep) "?h = PB_HTYPE_REPEATED" | (oneof) "?h = PB_HTYPE_ONEOF"
    | (none) "?h \<noteq> PB_HTYPE_REQUIRED" "?h \<noteq> PB_HTYPE_OPTIONAL" "?h \<noteq> PB_HTYPE_REPEATED"
        "?h \<noteq> PB_HTYPE_ONEOF" by blast
  then show ?thesis
  proof cases
    case req
    with enc np put show ?thesis
      by (cases "?p = 0")
        (simp_all add: encode_basic_field_def Let_def determined_error
          del: add_is_0 add_eq_0_iff_both_eq_0 add_gr_0)
  next
    case opt
    show ?thesis
    proof (cases "size_offset ?f = 0")
      case True
      from check_proto3_ok [OF n wf i f v] obtain b where
        "pb_check_proto3_default_value n env m ?f ?p = Some b" by blast
      with True opt enc np put skip show ?thesis
        by (cases b) (simp_all add: encode_basic_field_def Let_def)
    next
      case False
      with f opt have "inside (size_off fl i) 1 sz"
        by (auto simp: static_field_def Let_def signed_eq_0_iff)
      with v have "\<exists>b. load_is_zero m ?a 1 = Some b"
        by (intro load_is_zero_ok [of m dest sz]) (auto simp: inside_def)
      then obtain b where "load_is_zero m ?a 1 = Some b" by blast
      with False opt enc np put skip ps show ?thesis
        by (cases b) (simp_all add: encode_basic_field_def Let_def)
    qed
  next
    case rep
    have reg: "?p + unat (data_size ?f) * unat (array_size ?f) \<le> dest + sz" "dest \<le> ?p"
      using D(3,4) rep by (simp_all add: field_extent_def)
    have item: "valid_range m (?p + j * ?n) ?n" if "j < unat (array_size ?f)" for j
      using v by (rule valid_range_mono) (use reg(2) item_inside [OF reg(1) that] in auto)
    have arr: "determined (field_max env mx ?f) (\<lambda>s. encode_array m s ?f ?p c func)" for c
      unfolding field_max_def if_P [OF rep]
    proof (rule encode_array_ok [OF D(1) V(2)])
      fix j assume "j < unat (array_size ?f)"
      then show "determined ?V (\<lambda>s. func s ?f (?p + j * ?n))" by (intro func item)
    next
      fix j k :: nat
      assume j: "j < unat (array_size ?f)" and k: "PB_LTYPE (ftype ?f) = PB_LTYPE_FIXED32 \<and> k = 4 \<or>
        PB_LTYPE (ftype ?f) = PB_LTYPE_FIXED64 \<and> k = 8"
      from k show "\<exists>bs. length bs = k \<and> det bs True (\<lambda>s. func s ?f (?p + j * ?n))"
      proof
        assume k: "PB_LTYPE (ftype ?f) = PB_LTYPE_FIXED32 \<and> k = 4"
        with D(2) have "?n = 4" by (simp add: static_value_def Let_def ltype_defs)
        with item [OF j] load_uint_valid obtain w where "load_uint m (?p + j * ?n) 4 = Some w" by metis
        moreover from k enc have "func = pb_enc_fixed32 m"
          by (simp add: encoder_for_def PB_ENCODERS_def ltype_defs)
        ultimately show ?thesis using k
          by (intro exI [of _ "le_bytes 4 w"]) (simp add: pb_enc_fixed32_def det_fixed32)
      next
        assume k: "PB_LTYPE (ftype ?f) = PB_LTYPE_FIXED64 \<and> k = 8"
        with D(2) have "?n = 8" by (simp add: static_value_def Let_def ltype_defs)
        with item [OF j] load_uint_valid obtain w where "load_uint m (?p + j * ?n) 8 = Some w" by metis
        moreover from k enc have "func = pb_enc_fixed64 m"
          by (simp add: encoder_for_def PB_ENCODERS_def ltype_defs)
        ultimately show ?thesis using k
          by (intro exI [of _ "le_bytes 8 w"]) (simp add: pb_enc_fixed64_def det_fixed64)
      qed
    qed
    from rep count obtain w where w: "load_uint m ?a 4 = Some w" by blast
    with rep enc np arr ps show ?thesis
      by (cases "size_offset ?f = 0") (simp_all add: encode_basic_field_def Let_def)
  next
    case oneof
    then obtain w where "load_uint m ?a 4 = Some w" using count by blast
    with oneof enc np put skip ps D(9) show ?thesis
      by (cases "ucast w = tag ?f") (simp_all add: encode_basic_field_def Let_def)
  next
    case none
    with enc np show ?thesis by (simp add: encode_basic_field_def Let_def determined_error)
  qed
qed

lemma determined_run_list:
  assumes "\<And>i. i \<in> set is \<Longrightarrow> determined (N i) (body i)"
  shows "determined (\<Sum>i\<leftarrow>is. N i) (run_list body is)"
  using assms
proof (induction "is")
  case Nil
  then show ?case by (simp add: determined_nothing [of 0, simplified] cong: if_cong)
next
  case (Cons i "is")
  then have "determined (N i + (\<Sum>i\<leftarrow>is. N i))
      (\<lambda>s. do { (go, s') \<leftarrow> body i s; if \<not> go then Some (False, s') else run_list body is s' })"
    by (intro determined_seq) simp_all
  then show ?case by simp
qed

lemma encode_message_ok:
  assumes st: "static_msg (Suc d) env fl sz" and n: "d < n" and v: "valid_range m src sz"
    and sub: "\<And>i p. static_value env (static_msg d env) (fl ! i) \<Longrightarrow>
      PB_LTYPE (ftype (fl ! i)) = PB_LTYPE_SUBMESSAGE \<Longrightarrow>
      valid_range m p (unat (data_size (fl ! i))) \<Longrightarrow>
      determined (value_max env (encoded_max d env) (fl ! i)) (\<lambda>s. enc_submessage s (fl ! i) p)"
  shows "determined (encoded_max (Suc d) env fl) (\<lambda>s. encode_message n env m enc_submessage s fl src)"
proof -
  note S = static_msgD [OF st]
  show ?thesis
  proof (cases "n_fields fl = 0")
    case True
    then show ?thesis by (simp add: encode_message_def iter_begin_wf [OF S(1)] determined_nothing [of 0, simplified])
  next
    case False
    have "determined (encoded_max (Suc d) env fl) (run_list (\<lambda>i. encode_iter n env m enc_submessage (iter_at fl src i)) [0..<n_fields fl])"
      unfolding encoded_max.simps
    proof (rule determined_run_list)
      fix i assume "i \<in> set [0..<n_fields fl]"
      then have i: "i < n_fields fl" by simp
      have itf: "iter_field (iter_at fl src i) = Some (fl ! i)"
        using iter_field_ok [OF S(1) iter_ok_at [of i fl src]] i by simp
      note f = S(3) [OF i]
      have "PB_LTYPE (ftype (fl ! i)) \<noteq> PB_LTYPE_EXTENSION"
        using static_fieldD(2) [OF f]
        by (auto simp: static_value_def Let_def PB_LTYPE_SUBMESSAGE_def PB_LTYPE_EXTENSION_def)
      moreover have "determined (field_max env (encoded_max d env) (fl ! i)) (\<lambda>s. encode_basic_field n env m enc_submessage s (fl ! i) (src + field_off fl i))"
        by (rule encode_basic_field_ok [where enc_submessage = enc_submessage,
              OF S(1) i n f v sub [OF static_fieldD(2) [OF f]]])
      moreover have "encode_iter n env m enc_submessage (iter_at fl src i) =
          (\<lambda>s. encode_basic_field n env m enc_submessage s (fl ! i) (src + field_off fl i))"
        using static_fieldD(1) [OF f] calculation(1)
        by (intro ext) (simp add: encode_iter_def itf encode_field_def Let_def iter_at_offsets)
      ultimately show "determined (field_max env (encoded_max d env) (fl ! i)) (encode_iter n env m enc_submessage (iter_at fl src i))" by simp
    qed
    with False show ?thesis
      by (simp add: encode_message_def iter_begin_wf [OF S(1)] for_fields_run [OF S(1)])
  qed
qed

lemma encode_determined:
  "static_msg d env fl sz \<Longrightarrow> d < n \<Longrightarrow> valid_range m src sz \<Longrightarrow>
   determined (encoded_max d env fl) (\<lambda>s. pb_encode n env m s fl src)"
proof (induction n arbitrary: d fl sz src)
  case 0
  then show ?case by simp
next
  case (Suc n)
  from Suc.prems(1) obtain d' where d: "d = Suc d'" by (cases d) auto
  with Suc.prems(2) have n: "d' < n" by simp
  have "determined (value_max env (encoded_max d' env) (fl ! i)) (\<lambda>s. pb_enc_submessage env m (pb_encode n env m) s (fl ! i) p)"
    if f: "static_value env (static_msg d' env) (fl ! i)"
      "PB_LTYPE (ftype (fl ! i)) = PB_LTYPE_SUBMESSAGE" and v: "valid_range m p (unat (data_size (fl ! i)))" for i p
  proof -
    from f obtain fl' where fl': "sub_fields env (fptr (fl ! i)) = Some fl'"
      "static_msg d' env fl' (unat (data_size (fl ! i)))"
      by (auto simp: static_value_def Let_def split: option.splits)
    then have np: "fptr (fl ! i) \<noteq> PNull" by (auto simp: sub_fields_def)
    from Suc.IH [OF fl'(2) n v] obtain bs good where
      d: "det bs good (\<lambda>s. pb_encode n env m s fl' p)" and len: "length bs \<le> encoded_max d' env fl'"
      by (rule determinedE)
    have "length (varint_bytes (unat (of_nat (length bs) :: u64))) \<le> 10" by (rule varint_bytes_u64_length)
    with len have "length (if good then varint_bytes (unat (of_nat (length bs) :: u64)) @ bs else []) \<le>
        value_max env (encoded_max d' env) (fl ! i)" using f(2) fl'(1) by (simp add: value_max_def)
    from determinedI [OF det_submessage [where encode = "pb_encode n env m", OF d] this] fl'(1) np show ?thesis
      by (simp add: pb_enc_submessage_def)
  qed
  from encode_message_ok [where enc_submessage = "pb_enc_submessage env m (pb_encode n env m)",
      OF Suc.prems(1) [unfolded d] n Suc.prems(3) this]
  show ?case unfolding d pb_encode.simps .
qed

end

end
