(* ===== verification/PbMessageClaims.thy ===== *)
theory PbMessageClaims
  imports PbDecodeSafe PbEncodeOk
begin

text \<open>
  What nanopb's message coders guarantee, for message types that live in one struct
  (\<open>static_msg\<close>), with a sample type and memory on which every statement is applied.
\<close>

subsection \<open>A sample message type\<close>

text \<open>\<open>struct { int32_t a; pb_size_t b_count; int32_t b[2]; }\<close> with a required and a repeated field,
  and 32 bytes of zeroed memory at address 16.\<close>

definition sample_env :: "(u8 list, u8 list) pb_env" where
  "sample_env =
     \<lparr>env_fields = (\<lambda>_. [PB_LAST_FIELD]), env_ext_type = (\<lambda>_. None),
      env_decode = (\<lambda>_ s _ _ m. Some (False, s, m)), env_ext_decode = (\<lambda>_ s _ _ _ m. Some (False, s, m)),
      env_encode = (\<lambda>_ s _ _ _. Some (False, s)), env_ext_encode = (\<lambda>_ s _ _. Some (False, s)),
      env_alloc = (\<lambda>_ _. None)\<rparr>"

definition sample_fields :: "pb_field list" where
  "sample_fields =
     [\<lparr>tag = 1, ftype = PB_HTYPE_REQUIRED OR PB_LTYPE_VARINT, data_offset = 0, size_offset = 0,
       data_size = 4, array_size = 0, fptr = PNull\<rparr>,
      \<lparr>tag = 2, ftype = PB_HTYPE_REPEATED OR PB_LTYPE_VARINT, data_offset = 4, size_offset = - 4,
       data_size = 4, array_size = 2, fptr = PNull\<rparr>,
      PB_LAST_FIELD]"

definition sample_mem :: mem where
  "sample_mem = \<lparr>bytes = (\<lambda>x. if 16 \<le> x \<and> x < 48 then Some 0 else None), blocks = (\<lambda>_. None)\<rparr>"

lemma sample_valid: "16 \<le> a \<Longrightarrow> a + n \<le> 48 \<Longrightarrow> valid_range sample_mem a n"
  by (simp add: sample_mem_def valid_range_def)

lemma sample_static: "static_msg 1 sample_env sample_fields 16"
proof -
  have "[0..<n_fields sample_fields] = [0, 1]" by (simp add: n_fields_def sample_fields_def upt_rec)
  moreover have "wf_fields sample_fields" "last sample_fields = PB_LAST_FIELD"
    by (simp_all add: wf_fields_def sample_fields_def PB_LAST_FIELD_def)
  moreover have "static_field sample_env (static_msg 0 sample_env) sample_fields 16 0"
    by (simp add: static_field_def static_value_def sample_fields_def pb_type_defs field_extent_def inside_def)
  moreover have "static_field sample_env (static_msg 0 sample_env) sample_fields 16 1"
    by (simp add: static_field_def static_value_def sample_fields_def pb_type_defs field_extent_def
        inside_def same_union_def prev_field_size_def)
  ultimately show ?thesis by simp
qed

subsection \<open>Decoding\<close>

text \<open>C1: decoding a message from a memory buffer always returns, whatever the bytes are: for a
  message type that lives in one struct, \<open>pb_decode\<close> on a stream that is no longer than the
  buffer has no undefined behaviour, changes memory only inside the struct, and never reports
  more bytes left than it was given.\<close>

theorem decode_buffer_safe:
  assumes "static_msg d env fl sz" "d < n" "valid_range m dest sz" "unat bufsize \<le> length buf"
  shows "\<exists>ok s' m'. pb_decode n env (pb_istream_from_buffer buf bufsize) fl dest m = Some (ok, s', m') \<and>
    frame_only m m' dest sz \<and> bytes_left s' \<le> bufsize"
proof -
  have "stream_in buf_ok (\<lambda>src. length (buf_tail src)) (pb_istream_from_buffer buf bufsize)"
    using assms(4) by (simp add: stream_in_def pb_istream_from_buffer_def buf_ok_def is_buf_def buf_tail_def)
  from buf.safe.decode_safe [OF assms(1-3) this] show ?thesis
    by (rule safeE) (auto dest!: reads_left simp: word_le_nat_alt)
qed

theorem decode_buffer_safe_witness:
  "\<exists>ok s' m'. pb_decode 2 sample_env (pb_istream_from_buffer [0x08, 0x96, 0x01, 0xFF] 4)
      sample_fields 16 sample_mem = Some (ok, s', m') \<and>
    frame_only sample_mem m' 16 16 \<and> bytes_left s' \<le> 4"
  by (rule decode_buffer_safe [OF sample_static _ sample_valid]) simp_all

text \<open>C2: the same holds when the bytes come through a user's callback \<open>f\<close>, whatever it does within
  its rules: it may fail at any call, after any part of the bytes, or report the end of its data by
  setting \<open>bytes_left\<close> to 0, and \<open>bytes_left\<close> may promise more than it has.  For a message type
  that lives in one struct, \<open>pb_decode\<close> and \<open>pb_decode_delimited\<close> return, with no undefined
  behaviour, change memory only inside the struct, keep the callback, and never raise \<open>bytes_left\<close>.\<close>

theorem decode_callback_safe:
  assumes "static_msg d env fl sz" "d < n" "valid_range m dest sz" "callback_ok f"
  shows "(\<exists>ok s' m' st'. pb_decode n env \<lparr>source = UserRead f st, bytes_left = k, is_errmsg = e\<rparr> fl dest m =
        Some (ok, s', m') \<and>
      frame_only m m' dest sz \<and> source s' = UserRead f st' \<and> bytes_left s' \<le> k) \<and>
    (\<exists>ok s' m' st'. pb_decode_delimited n env \<lparr>source = UserRead f st, bytes_left = k, is_errmsg = e\<rparr> fl dest m =
        Some (ok, s', m') \<and>
      frame_only m m' dest sz \<and> source s' = UserRead f st' \<and> bytes_left s' \<le> k)"
proof -
  let ?s = "\<lparr>source = UserRead f st, bytes_left = k, is_errmsg = e\<rparr>"
  have "unat k \<le> 2 ^ 64" using unat_u64_less [of k] by (simp add: less_imp_le)
  with assms(4) have s: "stream_in (user_ok f) user_avail ?s"
    by (simp only: stream_in_def user_ok_def user_avail_def pb_istream.select_convs) blast
  have step: "\<exists>ok s' m' st'. res = Some (ok, s', m') \<and> frame_only m m' dest sz \<and>
      source s' = UserRead f st' \<and> bytes_left s' \<le> k"
    if "safe (user_ok f) user_avail ?s m dest sz res" for res
    using that
    by (rule safeE) (auto dest: reads_left reads_ok simp: stream_in_def user_ok_def word_le_nat_alt)
  show ?thesis
    using step [OF user.decode_safe [OF assms(1-3) s]]
      step [OF user.decode_delimited_safe [OF assms(1-3) s]] by blast
qed

text \<open>A callback on a file that ends before the message does: it delivers what is left and then
  reports the end.\<close>

definition file_reader :: "u8 list \<Rightarrow> nat \<Rightarrow> read_end \<times> u8 list \<times> u8 list" where
  "file_reader xs n =
     (if n \<le> length xs then (Read_ok, take n xs, drop n xs) else (Read_eof, xs, []))"

lemma file_reader_ok: "callback_ok file_reader"
  by (simp add: callback_ok_def file_reader_def)

theorem decode_callback_safe_witness:
  "(\<exists>ok s' m' st'. pb_decode 2 sample_env
        \<lparr>source = UserRead file_reader [0x08, 0x07, 0x12], bytes_left = - 1, is_errmsg = None\<rparr>
        sample_fields 20 sample_mem = Some (ok, s', m') \<and>
      frame_only sample_mem m' 20 16 \<and> source s' = UserRead file_reader st' \<and> bytes_left s' \<le> - 1) \<and>
    (\<exists>ok s' m' st'. pb_decode_delimited 2 sample_env
        \<lparr>source = UserRead file_reader [0x08, 0x07, 0x12], bytes_left = - 1, is_errmsg = None\<rparr>
        sample_fields 20 sample_mem = Some (ok, s', m') \<and>
      frame_only sample_mem m' 20 16 \<and> source s' = UserRead file_reader st' \<and> bytes_left s' \<le> - 1)"
  by (rule decode_callback_safe [OF sample_static _ sample_valid file_reader_ok]) simp_all

subsection \<open>Encoding\<close>

text \<open>What a call has done that had \<open>bs\<close> to write into a fresh buffer of \<open>k\<close> bytes, of which the
  stream was told \<open>cap\<close>: all of it, or, when that is too much, false after a proper prefix inside
  the buffer.\<close>

definition buffer_result :: "nat \<Rightarrow> u64 \<Rightarrow> u8 list \<Rightarrow> bool \<Rightarrow> (bool \<times> 's pb_ostream) option \<Rightarrow> bool" where
  "buffer_result k cap bs good res \<longleftrightarrow>
     (\<exists>ok s' j. res = Some (ok, s') \<and> sink s' = BufWrite (take j bs) (k - j) \<and>
        bytes_written s' = of_nat j \<and> j \<le> unat cap \<and>
        (if length bs \<le> unat cap then ok = good \<and> j = length bs else \<not> ok \<and> j < length bs))"

lemma det_buffer_result:
  assumes det: "bufw.det bs good enc" and cap: "unat cap \<le> k" and L: "length bs < 2 ^ 64"
  shows "buffer_result k cap bs good (enc (pb_ostream_from_buffer k cap))"
proof -
  let ?s = "pb_ostream_from_buffer k cap"
  have r: "runs buf_put ?s bs good (enc ?s)"
    by (rule bufw.detD [OF det])
      (use cap L in \<open>simp_all add: small_def pb_ostream_from_buffer_def [of k cap]
         pb_ostream_from_buffer_ok [unfolded pb_ostream_from_buffer_def]\<close>)
  show ?thesis
  proof (cases "length bs \<le> unat cap")
    case True
    have eq: "(push buf_put bs ?s)\<lparr>os_errmsg := None\<rparr> = push buf_put bs ?s"
      by (simp add: push_def pb_ostream_from_buffer_def)
    from r True have "\<exists>e. enc ?s = Some (good, (push buf_put bs ?s)\<lparr>os_errmsg := e\<rparr>)"
      by (cases good) (auto simp: runs_def eq intro!: exI [of _ "None :: string option"])
    then obtain e where "enc ?s = Some (good, (push buf_put bs ?s)\<lparr>os_errmsg := e\<rparr>)" ..
    with True show ?thesis
      by (simp add: buffer_result_def push_def pb_ostream_from_buffer_def buf_put_def)
  next
    case False
    with r obtain j e where j: "j < length bs" "j \<le> unat cap"
      "enc ?s = Some (False, (push buf_put (take j bs) ?s)\<lparr>os_errmsg := e\<rparr>)"
      by (auto simp: runs_def)
    with False show ?thesis
      unfolding buffer_result_def j(3)
      by (intro exI [of _ False] exI [of _ "(push buf_put (take j bs) ?s)\<lparr>os_errmsg := e\<rparr>"] exI [of _ j])
        (simp add: push_def pb_ostream_from_buffer_def buf_put_def)
  qed
qed

lemma sample_max: "encoded_max 1 sample_env sample_fields = 24 + 20 + 2 * 24"
proof -
  have "[0..<n_fields sample_fields] = [0, 1]" by (simp add: n_fields_def sample_fields_def upt_rec)
  then show ?thesis by (simp add: field_max_def value_max_def sample_fields_def pb_type_defs)
qed

text \<open>C3: \<open>pb_get_encoded_size\<close> is exact.  For a message type that lives in one struct, whose
  encodings are shorter than \<open>2 ^ 64\<close> bytes, encoding has one outcome, \<open>bs\<close> and \<open>good\<close>, for every
  buffer: the size is the number of bytes \<open>bs\<close> (or there is none when the message cannot be
  encoded), \<open>pb_encode\<close> into a buffer that has room for them writes exactly \<open>bs\<close>, and into a smaller
  one it returns false, having written a prefix inside the buffer.  The size is at most
  \<open>encoded_max\<close>, which depends on the message type alone.\<close>

theorem encode_size_exact:
  assumes "static_msg d env fl sz" "d < n" "valid_range m src sz" "encoded_max d env fl < 2 ^ 64"
  shows "\<exists>bs good. length bs \<le> encoded_max d env fl \<and>
    pb_get_encoded_size n env m fl src = Some (if good then Some (of_nat (length bs)) else None) \<and>
    (\<forall>k cap. unat cap \<le> k \<longrightarrow>
      buffer_result k cap bs good (pb_encode n env m (pb_ostream_from_buffer k cap) fl src))"
proof -
  from bufw.encode_determined [OF assms(1-3)] obtain bs good where
    det: "bufw.det bs good (\<lambda>s. pb_encode n env m s fl src)" and len: "length bs \<le> encoded_max d env fl"
    by (rule bufw.determinedE)
  from bufw.det_sizing [OF det] obtain st where
    "pb_encode n env m PB_OSTREAM_SIZING fl src = Some (good, st)" "bytes_written st = of_nat (length bs)" .
  then have "pb_get_encoded_size n env m fl src = Some (if good then Some (of_nat (length bs)) else None)"
    by (simp add: pb_get_encoded_size_def)
  with det_buffer_result [OF det] len le_less_trans [OF len assms(4)] show ?thesis by blast
qed

theorem encode_size_exact_witness:
  "\<exists>bs good. length bs \<le> encoded_max 1 sample_env sample_fields \<and>
    pb_get_encoded_size 2 sample_env sample_mem sample_fields 16 =
      Some (if good then Some (of_nat (length bs)) else None) \<and>
    (\<forall>k cap. unat cap \<le> k \<longrightarrow>
      buffer_result k cap bs good
        (pb_encode 2 sample_env sample_mem (pb_ostream_from_buffer k cap) sample_fields 16))"
  by (rule encode_size_exact [OF sample_static _ sample_valid]) (simp_all only: sample_max, simp_all)

text \<open>C4: a delimited message is its encoded size as a varint followed by the bytes that
  \<open>pb_encode\<close> writes, and it fails when \<open>pb_encode\<close> does; both calls have the same \<open>bs\<close>, for every
  buffer, large enough or not.  For message types that live in one struct and whose encodings, with
  the size in front, are shorter than \<open>2 ^ 64\<close> bytes.\<close>

theorem encode_delimited_prefixed:
  assumes "static_msg d env fl sz" "d < n" "valid_range m src sz" "encoded_max d env fl + 10 < 2 ^ 64"
  shows "\<exists>bs good. length bs \<le> encoded_max d env fl \<and> (\<forall>k cap. unat cap \<le> k \<longrightarrow>
    buffer_result k cap bs good (pb_encode n env m (pb_ostream_from_buffer k cap) fl src) \<and>
    buffer_result k cap (if good then varint_bytes (length bs) @ bs else []) good
      (pb_encode_delimited n env m (pb_ostream_from_buffer k cap) fl src))"
proof -
  from bufw.encode_determined [OF assms(1-3)] obtain bs good where
    det: "bufw.det bs good (\<lambda>s. pb_encode n env m s fl src)" and max: "length bs \<le> encoded_max d env fl"
    by (rule bufw.determinedE)
  note sub = bufw.det_submessage [where encode = "pb_encode n env m" and fl = fl and src = src, OF det]
  from max assms(4) have small: "length bs + 10 < 2 ^ 64" by linarith
  then have len: "unat (of_nat (length bs) :: u64) = length bs" by (intro unat_of_nat_u64) linarith
  have "length (varint_bytes (length bs)) \<le> 10"
    using small by (intro varint_length_10) linarith
  with small have "length (if good then varint_bytes (length bs) @ bs else []) < 2 ^ 64" "length bs < 2 ^ 64"
    by simp_all
  then show ?thesis
    using det_buffer_result [OF det] det_buffer_result [OF sub] len max
    by (intro exI [of _ bs] exI [of _ good]) (auto simp: pb_encode_delimited_def)
qed

theorem encode_delimited_prefixed_witness:
  "\<exists>bs good. length bs \<le> encoded_max 1 sample_env sample_fields \<and> (\<forall>k cap. unat cap \<le> k \<longrightarrow>
    buffer_result k cap bs good
      (pb_encode 2 sample_env sample_mem (pb_ostream_from_buffer k cap) sample_fields 16) \<and>
    buffer_result k cap (if good then varint_bytes (length bs) @ bs else []) good
      (pb_encode_delimited 2 sample_env sample_mem (pb_ostream_from_buffer k cap) sample_fields 16))"
  by (rule encode_delimited_prefixed [OF sample_static _ sample_valid]) (simp_all only: sample_max, simp_all)

subsection \<open>Iteration, defaults, release, allocation\<close>

text \<open>C13: the field search is right and ends.  From any position that an iterator can have,
  \<open>pb_field_iter_find\<close> finds an entry with the wanted tag exactly when the array has one that is not
  an extension field, and leaves the iterator on such an entry with that entry's address; when there
  is none the iterator is back where it was.\<close>

theorem iter_find_correct:
  assumes "wf_fields fl" "0 < n_fields fl" "iter_ok fl dest it"
  shows "\<exists>found it'. pb_field_iter_find it t = Some (found, it') \<and> iter_ok fl dest it' \<and>
    (found \<longleftrightarrow> (\<exists>i < n_fields fl. tag (fl ! i) = t \<and> PB_LTYPE (ftype (fl ! i)) \<noteq> PB_LTYPE_EXTENSION)) \<and>
    (found \<longrightarrow> tag (fl ! pos it') = t \<and> pData it' = dest + field_off fl (pos it')) \<and>
    (\<not> found \<longrightarrow> pos it' = pos it)"
  by (rule iter_find_loop_ok [OF assms(1,3,2), of "\<lambda>f. tag f = t \<and> PB_LTYPE (ftype f) \<noteq> PB_LTYPE_EXTENSION"])
    (auto simp: pb_field_iter_find_def iter_ok_def iter_at_offsets)

lemma sample_wf: "wf_fields sample_fields" "n_fields sample_fields = 2"
  by (simp_all add: wf_fields_def sample_fields_def PB_LAST_FIELD_def n_fields_def)

theorem iter_find_correct_witness:
  "\<exists>found it'. pb_field_iter_find (iter_at sample_fields 16 1) 1 = Some (found, it') \<and>
    iter_ok sample_fields 16 it' \<and>
    (found \<longleftrightarrow> (\<exists>i < n_fields sample_fields. tag (sample_fields ! i) = 1 \<and>
       PB_LTYPE (ftype (sample_fields ! i)) \<noteq> PB_LTYPE_EXTENSION)) \<and>
    (found \<longrightarrow> tag (sample_fields ! pos it') = 1 \<and> pData it' = 16 + field_off sample_fields (pos it')) \<and>
    (\<not> found \<longrightarrow> pos it' = pos (iter_at sample_fields 16 1))"
  by (rule iter_find_correct) (simp_all add: sample_wf iter_ok_at)

text \<open>C14: setting a message to its defaults, and releasing it, are safe for a message type that lives
  in one struct: the first returns and writes only inside the struct, the second returns and changes
  nothing, because there is nothing to free.\<close>

theorem defaults_and_release_safe:
  assumes "static_msg d env fl sz" "d \<le> n" "valid_range m dest sz"
  shows "(\<exists>m'. pb_message_set_to_defaults n env fl dest m = Some m' \<and> frame_only m m' dest sz) \<and>
    pb_release n env fl dest m = Some m"
  using static_set_to_defaults [OF assms] static_release [OF assms] by (simp add: writes_def)

theorem defaults_and_release_safe_witness:
  "(\<exists>m'. pb_message_set_to_defaults 1 sample_env sample_fields 16 sample_mem = Some m' \<and>
      frame_only sample_mem m' 16 16) \<and>
    pb_release 1 sample_env sample_fields 16 sample_mem = Some sample_mem"
  by (rule defaults_and_release_safe [OF sample_static _ sample_valid]) simp_all

lemma product_overflow:
  fixes x y :: nat
  assumes "2 ^ 64 \<le> x * y" "0 < y"
  shows "(2 ^ 32 \<le> x \<or> 2 ^ 32 \<le> y) \<and> (2 ^ 64 - 1) div y < x"
proof
  show "2 ^ 32 \<le> x \<or> 2 ^ 32 \<le> y"
  proof (rule ccontr)
    assume "\<not> (2 ^ 32 \<le> x \<or> 2 ^ 32 \<le> y)"
    then have "x * y < 2 ^ 32 * 2 ^ 32" by (intro mult_strict_mono') auto
    with assms(1) show False by simp
  qed
  from assms have "2 ^ 64 - 1 < x * y" by auto
  then show "(2 ^ 64 - 1) div y < x" using assms(2) by (simp only: div_less_iff_less_mult)
qed

text \<open>C15: \<open>allocate_field\<close> cannot be tricked by a product that does not fit a \<open>size_t\<close>: when the array
  would need \<open>2 ^ 64\<close> bytes or more, or nothing, it returns false, with an error message, and neither
  memory nor heap has changed; so the size that reaches \<open>realloc\<close> is never a wrapped one.\<close>

theorem allocate_field_overflow:
  assumes "valid_range m p 8" "dsize = 0 \<or> asize = 0 \<or> 2 ^ 64 \<le> unat dsize * unat asize"
  shows "\<exists>s'. allocate_field alloc s p dsize asize m = Some (False, s', m) \<and> is_errmsg s' \<noteq> None"
proof (cases "dsize = 0 \<or> asize = 0")
  case True
  with load_uint_valid [OF assms(1)] show ?thesis by (auto simp: allocate_field_def load_ptr_def)
next
  case False
  then have "0 < unat asize" by (simp add: unat_gt_0)
  with False assms(2) product_overflow [of "unat dsize" "unat asize"]
  have o: "2 ^ 32 \<le> unat dsize \<or> 2 ^ 32 \<le> unat asize" "(2 ^ 64 - 1) div unat asize < unat dsize" by auto
  have lim: "unat (push_bit 32 1 :: u64) = 2 ^ 32" by simp
  have "unat ((- 1 :: u64) div asize) = (2 ^ 64 - 1) div unat asize"
    by (simp add: unat_div_distrib unsigned_minus_1_eq_mask mask_eq_exp_minus_1)
  with o(2) have d: "(- 1) div asize < dsize" by (simp only: word_less_nat_alt)
  have c: "push_bit 32 1 \<le> dsize \<or> push_bit 32 1 \<le> asize" using o(1) by (simp only: word_le_nat_alt lim)
  show ?thesis
    using load_uint_valid [OF assms(1)] False c d
    by (auto simp: allocate_field_def load_ptr_def Let_def)
qed

theorem allocate_field_overflow_witness:
  "\<exists>s'. allocate_field (\<lambda>_ _. Some 64) (pb_istream_from_buffer [] 0 :: unit pb_istream) 16 8 0x2000000000000001 sample_mem
      = Some (False, s', sample_mem) \<and> is_errmsg s' \<noteq> None"
  by (rule allocate_field_overflow [OF sample_valid]) simp_all

end
