(* ===== verification/PbVarintOk.thy ===== *)
theory PbVarintOk
  imports PbVarint
begin

text \<open>
  Reading from a source with a fixed content (\<open>byte_source\<close>): a byte, skipping, giving back a
  substream, and raw values, which never store more than their buffer holds.
\<close>

text \<open>\<open>lent n s1 sub s'\<close>: \<open>sub\<close> is the substream of the next \<open>n\<close> bytes of \<open>s1\<close>, and \<open>s'\<close> is the
  parent in the meantime.\<close>

definition lent :: "('s in_source \<Rightarrow> bool) \<Rightarrow> ('s in_source \<Rightarrow> u8 list) \<Rightarrow> u64 \<Rightarrow>
    's pb_istream \<Rightarrow> 's pb_istream \<Rightarrow> 's pb_istream \<Rightarrow> bool" where
  "lent ok rst n s1 sub s' \<longleftrightarrow>
     stream_ok ok rst s1 \<and> n \<le> bytes_left s1 \<and> sub = s1\<lparr>bytes_left := n\<rparr> \<and>
     s' = s1\<lparr>bytes_left := bytes_left s1 - n\<rparr>"

lemma lent_left:
  assumes "lent ok rst n s1 sub s'"
  shows "unat (bytes_left s') + unat n = unat (bytes_left s1)" "bytes_left sub = n"
    "unat (bytes_left s') \<le> unat (bytes_left s1)"
proof -
  from assms have "n \<le> bytes_left s1" by (simp add: lent_def)
  then have "unat (bytes_left s1 - n) = unat (bytes_left s1) - unat n" by (rule unat_sub)
  with assms \<open>n \<le> bytes_left s1\<close> show "unat (bytes_left s') + unat n = unat (bytes_left s1)"
    by (simp add: lent_def word_le_nat_alt)
  then show "unat (bytes_left s') \<le> unat (bytes_left s1)" by simp
  from assms show "bytes_left sub = n" by (simp add: lent_def)
qed

lemma lent_ok:
  assumes "lent ok rst n s1 sub s'"
  shows "stream_ok ok rst sub" "stream_ok ok rst s'"
    "contents rst sub = take (unat n) (contents rst s1)"
proof -
  from assms have s1: "stream_ok ok rst s1" and n: "unat n \<le> unat (bytes_left s1)"
    and eq: "sub = s1\<lparr>bytes_left := n\<rparr>" "s' = s1\<lparr>bytes_left := bytes_left s1 - n\<rparr>"
    by (simp_all add: lent_def word_le_nat_alt)
  from lent_left(3) [OF assms] s1 eq show "stream_ok ok rst s'" by (simp add: stream_ok_def)
  from n s1 eq show "stream_ok ok rst sub" by (simp add: stream_ok_def)
  from n eq show "contents rst sub = take (unat n) (contents rst s1)"
    by (simp add: contents_def min_absorb1)
qed

context byte_source
begin

lemma readbyte_cases:
  assumes "stream_ok src_ok tail s"
  obtains (eof) "pb_readbyte s = Some (None, is_set_error ''end-of-stream'' s)"
      "bytes_left s = 0" "contents tail s = []"
    | (byte) b s' where "pb_readbyte s = Some (Some b, s')" "adv src_ok tail 1 s s'"
      "contents tail s = b # contents tail s'" "is_errmsg s' = is_errmsg s"
proof (cases "contents tail s")
  case Nil
  with contents_length [OF assms] have "bytes_left s = 0" by (simp add: unat_eq_0)
  with Nil pb_readbyte_ok [OF assms] eof show thesis by blast
next
  case (Cons b bs)
  with pb_readbyte_ok [OF assms] byte show thesis by metis
qed

lemma read_null_ok:
  assumes "stream_ok src_ok tail s"
  obtains s' k where "pb_read s True n = Some (n \<le> bytes_left s, [], s')" "adv src_ok tail k s s'"
    "n \<le> bytes_left s \<Longrightarrow> k = unat n \<and> is_errmsg s' = is_errmsg s"
proof -
  from assms obtain k s' where "pb_read s True n =
      Some (n \<le> bytes_left s, if n \<le> bytes_left s \<and> \<not> True then take (unat n) (contents tail s) else [], s')"
    "adv src_ok tail k s s'" "n \<le> bytes_left s \<Longrightarrow> k = unat n \<and> is_errmsg s' = is_errmsg s"
    by (rule pb_read_ok [where null = True and n = n]) blast
  then show thesis by (intro that [of s' k]) simp_all
qed

text \<open>Giving back the substream of a length-delimited field.\<close>

lemma close_substream_ok:
  assumes l: "lent src_ok tail n s1 sub s'" and a: "adv src_ok tail j sub sub'"
    and e: "sl = s' \<or> sl = is_set_error msg s'"
  obtains s'' where "pb_close_string_substream sl sub' = Some (True, s'')"
    "adv src_ok tail (unat n) s1 s''"
proof -
  from l have s1: "stream_ok src_ok tail s1" by (simp add: lent_def)
  note left = lent_left [OF l]
  from l have src: "source sub = source s1" by (simp add: lent_def)
  have bl: "bytes_left sl = bytes_left s'" using e by auto
  have step: "adv src_ok tail (unat n) s1 (sl\<lparr>source := source sub2, is_errmsg := is_errmsg sub2\<rparr>)"
    if "adv src_ok tail i sub sub2" "bytes_left sub2 = 0" for sub2 i
  proof -
    from that have "i = unat n" by (simp add: adv_def left(2))
    with that have t: "tail (source sub2) = drop (unat n) (tail (source s1))"
      and ok: "src_ok (source sub2)" by (simp_all add: adv_def stream_ok_def src)
    from s1 have "unat (bytes_left s1) \<le> length (tail (source s1))" by (simp add: stream_ok_def)
    with left(1) have "unat (bytes_left s') \<le> length (drop (unat n) (tail (source s1)))" by simp
    with t ok bl left(1) show ?thesis by (simp add: adv_def stream_ok_def)
  qed
  show thesis
  proof (cases "bytes_left sub' = 0")
    case True
    with step [OF a] that show thesis by (simp add: pb_close_string_substream_def)
  next
    case False
    from adv_ok [OF a] obtain sub2 k where
      r: "pb_read sub' True (bytes_left sub') = Some (bytes_left sub' \<le> bytes_left sub', [], sub2)"
      and a2: "adv src_ok tail k sub' sub2" and "bytes_left sub' \<le> bytes_left sub' \<Longrightarrow>
        k = unat (bytes_left sub') \<and> is_errmsg sub2 = is_errmsg sub'"
      by (rule read_null_ok [where n = "bytes_left sub'"]) blast
    then have "k = unat (bytes_left sub')" by simp
    with a2 have "unat (bytes_left sub2) = 0" by (simp add: adv_def)
    then have "bytes_left sub2 = 0" by (simp add: unat_eq_0)
    with step [OF adv_trans [OF a a2]] r False that show thesis
      by (simp add: pb_close_string_substream_def)
  qed
qed

text \<open>Reading a raw value into a buffer of \<open>room\<close> bytes never stores more than fits.\<close>

lemma read_raw_varint_ok:
  "stream_ok src_ok tail s \<Longrightarrow>
   \<exists>ok bs s' k. read_raw_varint room s = Some (ok, bs, s') \<and> adv src_ok tail k s s' \<and>
     length bs \<le> room \<and> (ok \<longrightarrow> bs = take k (contents tail s) \<and> length bs = k)"
proof (induction room arbitrary: s)
  case 0
  then show ?case
    by (intro exI [of _ False] exI [of _ "[]"] exI [of _ s] exI [of _ 0]) simp
next
  case (Suc room)
  from Suc.prems obtain k s' where r: "pb_read s False 1 =
      Some (1 \<le> bytes_left s, if 1 \<le> bytes_left s \<and> \<not> False then take (unat (1::u64)) (contents tail s) else [], s')"
    and a: "adv src_ok tail k s s'" and k: "1 \<le> bytes_left s \<Longrightarrow> k = unat (1::u64) \<and> is_errmsg s' = is_errmsg s"
    by (rule pb_read_ok [where null = False and n = 1]) blast
  show ?case
  proof (cases "1 \<le> bytes_left s")
    case False
    with r a show ?thesis by auto
  next
    case True
    with contents_length [OF Suc.prems] have "0 < length (contents tail s)"
      by (simp add: word_le_nat_alt)
    then obtain b bs where c: "contents tail s = b # bs" by (cases "contents tail s") auto
    with r True have r': "pb_read s False 1 = Some (True, [b], s')" by simp
    from k True a have a1: "adv src_ok tail 1 s s'" by simp
    with adv_contents [OF a1] c have c': "contents tail s' = bs" by simp
    show ?thesis
    proof (cases "b AND 0x80 = 0")
      case True
      with r' a1 c show ?thesis by (auto intro!: exI [of _ 1])
    next
      case False
      from Suc.IH [OF adv_ok [OF a1]] obtain ok bs' s'' j where
        "read_raw_varint room s' = Some (ok, bs', s'')" "adv src_ok tail j s' s''"
        "length bs' \<le> room" "ok \<longrightarrow> bs' = take j (contents tail s') \<and> length bs' = j" by blast
      with r' False adv_trans [OF a1, of j s''] c c' show ?thesis
        by (auto intro!: exI [of _ "Suc j"])
    qed
  qed
qed

lemma read_raw_value_ok:
  assumes s: "stream_ok src_ok tail s" and room: "8 \<le> room"
  obtains ok bs s' k where "read_raw_value s wt room = Some (ok, bs, s')" "adv src_ok tail k s s'"
    "length bs \<le> room" "ok \<Longrightarrow> bs = take k (contents tail s) \<and> length bs = k"
proof -
  have fixed: "\<exists>ok bs s' k. pb_read s False n = Some (ok, bs, s') \<and> adv src_ok tail k s s' \<and>
      length bs \<le> room \<and> (ok \<longrightarrow> bs = take k (contents tail s) \<and> length bs = k)" if "unat n \<le> room" for n
    using s
    by (rule pb_read_ok [where null = False and n = n])
      (use that contents_length [OF s] in \<open>auto simp: word_le_nat_alt\<close>)
  consider "wt = PB_WT_VARINT" | "wt = PB_WT_64BIT" | "wt = PB_WT_32BIT"
    | "wt \<noteq> PB_WT_VARINT" "wt \<noteq> PB_WT_64BIT" "wt \<noteq> PB_WT_32BIT" by blast
  then show thesis
  proof cases
    case 1
    with read_raw_varint_ok [OF s, of room] that show thesis by (auto simp: read_raw_value_def)
  next
    case 2
    with fixed [of 8] room that show thesis by (auto simp: read_raw_value_def wt_defs)
  next
    case 3
    with fixed [of 4] room that show thesis by (auto simp: read_raw_value_def wt_defs)
  next
    case 4
    with s that [of False "[]" "is_set_error ''invalid wire_type'' s" 0] show thesis
      by (simp add: read_raw_value_def)
  qed
qed

end

end
