(* ===== verification/PbVarintSpec.thy ===== *)
theory PbVarintSpec
  imports PbVarintOk PbWire
begin

text \<open>
  The varint, zigzag and fixed-size decoders against the reference format of \<open>PbWire\<close>, over any
  \<open>byte_source\<close>: what value they return for the bytes that are there, how many bytes they take,
  and when they report an error instead.
\<close>

subsection \<open>Bit positions\<close>

text \<open>The decoders count bit positions in an 8-bit word.\<close>

lemma bitpos_unat: "i < 36 \<Longrightarrow> unat (of_nat (7 * i) :: u8) = 7 * i"
  by (rule unat_of_nat_u8) simp

lemma bitpos_Suc: "of_nat (7 * i) + (7 :: u8) = of_nat (7 * Suc i)"
  by (simp add: algebra_simps)

lemma bitpos_le: "i < 36 \<Longrightarrow> n < 256 \<Longrightarrow> (of_nat n :: u8) \<le> of_nat (7 * i) \<longleftrightarrow> n \<le> 7 * i"
  by (simp only: word_le_nat_alt bitpos_unat unat_of_nat_u8)

lemma bitpos_less: "i < 36 \<Longrightarrow> n < 256 \<Longrightarrow> (of_nat (7 * i) :: u8) < of_nat n \<longleftrightarrow> 7 * i < n"
  by (simp only: word_less_nat_alt bitpos_unat unat_of_nat_u8)

subsection \<open>Values\<close>

lemma zigzag_decode:
  assumes "- (2 ^ 63) \<le> i" "i < 2 ^ 63"
  defines "v \<equiv> of_nat (zigzag i) :: u64"
  shows "(if v AND 1 \<noteq> 0 then NOT (drop_bit 1 v) else drop_bit 1 v) = of_int i"
proof -
  from assms have small: "zigzag i < 2 ^ 64" by (auto simp: zigzag_def)
  have half: "drop_bit 1 v = of_nat (zigzag i div 2)"
    using small by (simp only: v_def word_unat_eq_iff unat_drop_bit_eq) (simp add: drop_bit_eq_div unat_of_nat)
  have odd: "v AND 1 \<noteq> 0 \<longleftrightarrow> odd (zigzag i)"
  proof -
    have "v AND 1 = 0 \<longleftrightarrow> \<not> bit (unat v) 0"
      using and_exp_eq_0_iff_not_bit [of v 0] by (simp only: bit_unsigned_iff) simp
    moreover have "unat v = zigzag i" using small by (simp add: v_def unat_of_nat)
    ultimately show ?thesis by (simp add: bit_0)
  qed
  show ?thesis
  proof (cases "i < 0")
    case True
    then have "odd (zigzag i)" "zigzag i div 2 = nat (- i - 1)"
      by (simp_all add: zigzag_def even_nat_iff nat_div_distrib [symmetric])
    with half odd True show ?thesis by (simp add: not_eq_complement of_nat_nat)
  next
    case False
    then have "even (zigzag i)" "zigzag i div 2 = nat i"
      by (simp_all add: zigzag_def even_nat_iff nat_div_distrib [symmetric])
    with half odd False show ?thesis by simp
  qed
qed

lemma fixed32_of_le_bytes: "ucast (fixed32_value [a, b, c, d]) = of_le_bytes [a, b, c, d]"
  by (rule bit_word_eqI)
    (auto simp: fixed32_value_def bit_simps dest: bit_imp_le_length)

lemma fixed64_of_le_bytes:
  "fixed64_value [a, b, c, d, e, f, g, h] = of_le_bytes [a, b, c, d, e, f, g, h]"
  by (simp add: fixed64_value_def push_bit_or or.assoc)

lemma fixed32_value_le: "ucast (fixed32_value (le_bytes 4 v)) = take_bit 32 v"
  using of_le_bytes_le_bytes [of 4 v]
  by (simp add: eval_nat_numeral le_bytes_Suc fixed32_of_le_bytes del: of_le_bytes.simps)

lemma fixed64_value_le: "fixed64_value (le_bytes 8 v) = v"
  using of_le_bytes_8 [of v]
  by (simp add: eval_nat_numeral le_bytes_Suc fixed64_of_le_bytes del: of_le_bytes.simps of_le_bytes_8)

lemma nibble_and_70:
  assumes "n < 16"
  shows "(of_nat n :: u8) AND 0x70 = 0"
proof -
  have "\<forall>n \<in> set [0..<16]. (of_nat n :: u8) AND 0x70 = 0" by code_simp
  with assms show ?thesis by simp
qed

lemma septet_and_70:
  assumes "16 \<le> n" "n < 128"
  shows "(of_nat n :: u8) AND 0x70 \<noteq> 0"
proof -
  have "\<forall>n \<in> set [16..<128]. (of_nat n :: u8) AND 0x70 \<noteq> 0" by code_simp
  moreover from assms have "n \<in> set [16..<128]" unfolding set_upt by simp
  ultimately show ?thesis by (rule bspec)
qed

text \<open>Groups of seven bits that are all zeros or all ones.\<close>

primrec sign_groups :: "nat \<Rightarrow> nat \<Rightarrow> bool" where
  "sign_groups 0 u = True"
| "sign_groups (Suc n) u = ((u mod 128 = 0 \<or> u mod 128 = 127) \<and> sign_groups n (u div 128))"

lemma sign_groups_ones: "sign_groups n (128 ^ n * k + (128 ^ n - 1))"
proof (induction n arbitrary: k)
  case 0
  show ?case by simp
next
  case (Suc n)
  obtain q where q: "(128 :: nat) ^ n = Suc q" using not0_implies_Suc [of "128 ^ n"] by auto
  have eq: "128 ^ Suc n * k + (128 ^ Suc n - 1) = 128 * (128 ^ n * k + (128 ^ n - 1)) + (127 :: nat)"
    by (simp add: q algebra_simps)
  have "(128 * x + 127) mod 128 = (127 :: nat)" "(128 * x + 127) div 128 = x" for x by simp_all
  then show ?case unfolding eq using Suc.IH [of k] by (simp only: sign_groups.simps) simp
qed

text \<open>The 64-bit numbers that the 32-bit decoder accepts.\<close>

definition varint32_accepts :: "nat \<Rightarrow> bool" where
  "varint32_accepts v \<longleftrightarrow>
     v < 2 ^ 32 \<or> 2 ^ 63 \<le> v \<and> odd (v div 2 ^ 31) \<and> sign_groups 4 (v div 128 ^ 5)"

context byte_source
begin

subsection \<open>64-bit varints\<close>

lemma varint_loop_spec:
  assumes "stream_ok src_ok tail s" "i + n = 10"
  shows "\<exists>r s' k. varint_loop s (of_nat (7 * i)) acc = Some (r, s') \<and> adv src_ok tail k s s' \<and>
    (case varint_prefix n (contents tail s) of
       Some g \<Rightarrow> r = Some (acc OR push_bit (7 * i) (of_nat (varint_value g))) \<and>
                 k = length g \<and> is_errmsg s' = is_errmsg s
     | None \<Rightarrow> r = None \<and> is_errmsg s' \<noteq> None)"
  using assms
proof (induction n arbitrary: s i acc)
  case 0
  then show ?case
    by (subst varint_loop.simps) (auto simp: intro!: exI [of _ 0])
next
  case (Suc n)
  then have i: "i < 10" by simp
  then have pos: "\<not> 64 \<le> (of_nat (7 * i) :: u8)" using bitpos_le [of i 64] by simp
  from Suc.prems(1) show ?case
  proof (cases rule: readbyte_cases)
    case eof
    with pos Suc.prems(1) show ?thesis
      by (subst varint_loop.simps) (auto intro!: exI [of _ 0])
  next
    case (byte b s')
    have u: "unat (of_nat (7 * i) :: u8) = 7 * i" using i by (intro bitpos_unat) simp
    show ?thesis
    proof (cases "b AND 0x80 = 0")
      case True
      with pos u byte show ?thesis
        by (subst varint_loop.simps) (auto simp: Let_def intro!: exI [of _ 1])
    next
      case False
      from Suc.IH [OF adv_ok [OF byte(2)], of "Suc i"] Suc.prems(2)
      obtain r s'' k where l: "varint_loop s' (of_nat (7 * Suc i))
          (acc OR push_bit (7 * i) (ucast (b AND 0x7F))) = Some (r, s'')"
        and a: "adv src_ok tail k s' s''"
        and c: "case varint_prefix n (contents tail s') of
           Some g \<Rightarrow> r = Some ((acc OR push_bit (7 * i) (ucast (b AND 0x7F))) OR
                         push_bit (7 * Suc i) (of_nat (varint_value g))) \<and>
                     k = length g \<and> is_errmsg s'' = is_errmsg s'
         | None \<Rightarrow> r = None \<and> is_errmsg s'' \<noteq> None" by fastforce
      have "7 * Suc i = 7 * i + 7" by simp
      from c have "case varint_prefix (Suc n) (contents tail s) of
           Some g \<Rightarrow> r = Some (acc OR push_bit (7 * i) (of_nat (varint_value g))) \<and>
                     Suc k = length g \<and> is_errmsg s'' = is_errmsg s
         | None \<Rightarrow> r = None \<and> is_errmsg s'' \<noteq> None"
        unfolding \<open>7 * Suc i = 7 * i + 7\<close> group_or
        using byte(3,4) False by (auto split: option.splits)
      moreover have "varint_loop s (of_nat (7 * i)) acc = Some (r, s'')"
        using l byte(1) pos u False bitpos_Suc [of i]
        by (subst varint_loop.simps) (simp add: Let_def add.commute del: of_nat_mult of_nat_Suc)
      moreover have "adv src_ok tail (Suc k) s s''" using adv_trans [OF byte(2) a] by simp
      ultimately show ?thesis by blast
    qed
  qed
qed

lemma varint_spec:
  assumes "stream_ok src_ok tail s"
  shows "\<exists>r s' k. pb_decode_varint s = Some (r, s') \<and> adv src_ok tail k s s' \<and>
    (case varint_prefix 10 (contents tail s) of
       Some g \<Rightarrow> r = Some (of_nat (varint_value g)) \<and> k = length g \<and> is_errmsg s' = is_errmsg s
     | None \<Rightarrow> r = None \<and> is_errmsg s' \<noteq> None)"
  using varint_loop_spec [OF assms, of 0 10 0] by (simp add: pb_decode_varint_def cong: option.case_cong)

lemma varint_roundtrip:
  assumes "stream_ok src_ok tail s" "contents tail s = varint_bytes (unat v) @ r"
  shows "\<exists>s'. pb_decode_varint s = Some (Some v, s') \<and>
     adv src_ok tail (length (varint_bytes (unat v))) s s' \<and> is_errmsg s' = is_errmsg s"
  using varint_spec [OF assms(1)] varint_bytes_prefix [OF varint_bytes_u64_length, of v r]
  by (auto simp: assms(2) varint_bytes_value)

subsection \<open>Zigzag values\<close>

lemma svarint_roundtrip:
  assumes s: "stream_ok src_ok tail s" and c: "contents tail s = varint_bytes (zigzag i) @ r"
    and i: "- (2 ^ 63) \<le> i" "i < 2 ^ 63"
  shows "\<exists>s'. pb_decode_svarint s = Some (Some (of_int i), s') \<and>
     adv src_ok tail (length (varint_bytes (zigzag i))) s s' \<and> is_errmsg s' = is_errmsg s"
proof -
  from i have "zigzag i < 2 ^ 64" by (auto simp: zigzag_def)
  then have u: "unat (of_nat (zigzag i) :: u64) = zigzag i" by (rule unat_of_nat_u64)
  with s c obtain s' where "pb_decode_varint s = Some (Some (of_nat (zigzag i)), s')"
    "adv src_ok tail (length (varint_bytes (zigzag i))) s s'" "is_errmsg s' = is_errmsg s"
    using varint_roundtrip [of s "of_nat (zigzag i)" r] by auto
  with zigzag_decode [OF i] show ?thesis by (auto simp: pb_decode_svarint_def)
qed

subsection \<open>Fixed-size values\<close>

lemma fixed32_spec:
  assumes s: "stream_ok src_ok tail s" and c: "contents tail s = le_bytes 4 v @ r"
    and m: "valid_range m dest 4"
  shows "\<exists>s' m'. pb_decode_fixed32 s dest m = Some (True, s', m') \<and> adv src_ok tail 4 s s' \<and>
     load_uint m' dest 4 = Some (take_bit 32 v) \<and> frame_only m m' dest 4"
proof -
  have "unat (4 :: u64) \<le> unat (bytes_left s)"
    using contents_length [OF s] by (simp add: c)
  then have "4 \<le> bytes_left s" by (simp only: word_le_nat_alt)
  with s c obtain s' where r: "pb_read s False 4 = Some (True, le_bytes 4 v, s')"
    "adv src_ok tail 4 s s'"
    by (rule_tac pb_read_ok [where null = False and n = 4 and s = s]) auto
  from m obtain m' where "store_uint m dest 4 (ucast (fixed32_value (le_bytes 4 v))) = Some m'"
    "frame_only m m' dest 4" by (rule store_uint_ok)
  with r load_store_uint [of m dest 4 _ m'] show ?thesis
    by (auto simp: pb_decode_fixed32_def fixed32_value_le)
qed

lemma fixed64_spec:
  assumes s: "stream_ok src_ok tail s" and c: "contents tail s = le_bytes 8 v @ r"
    and m: "valid_range m dest 8"
  shows "\<exists>s' m'. pb_decode_fixed64 s dest m = Some (True, s', m') \<and> adv src_ok tail 8 s s' \<and>
     load_uint m' dest 8 = Some v \<and> frame_only m m' dest 8"
proof -
  have "unat (8 :: u64) \<le> unat (bytes_left s)"
    using contents_length [OF s] by (simp add: c)
  then have "8 \<le> bytes_left s" by (simp only: word_le_nat_alt)
  with s c obtain s' where r: "pb_read s False 8 = Some (True, le_bytes 8 v, s')"
    "adv src_ok tail 8 s s'"
    by (rule_tac pb_read_ok [where null = False and n = 8 and s = s]) auto
  from m obtain m' where "store_uint m dest 8 (fixed64_value (le_bytes 8 v)) = Some m'"
    "frame_only m m' dest 8" by (rule store_uint_ok)
  with r load_store_uint [of m dest 8 _ m'] show ?thesis
    by (auto simp: pb_decode_fixed64_def fixed64_value_le)
qed

subsection \<open>32-bit varints\<close>

text \<open>The loop over a run of groups that all have the continuation bit and lie below bit 35.\<close>

lemma varint32_loop_more:
  assumes "stream_ok src_ok tail s" "contents tail s = gs @ r" "i + length gs \<le> 5"
    "\<And>b. b \<in> set gs \<Longrightarrow> b AND 0x80 \<noteq> 0"
  shows "\<exists>s'. adv src_ok tail (length gs) s s' \<and> is_errmsg s' = is_errmsg s \<and>
    varint32_loop s (of_nat (7 * i)) acc =
    varint32_loop s' (of_nat (7 * (i + length gs))) (acc OR push_bit (7 * i) (of_nat (varint_value gs)))"
  using assms
proof (induction gs arbitrary: s i acc)
  case Nil
  then show ?case by (intro exI [of _ s]) simp
next
  case (Cons b gs)
  then have i: "i < 5" and cont: "b AND 0x80 \<noteq> 0" by simp_all
  have pos: "\<not> 32 \<le> (of_nat (7 * i) :: u8)" "unat (of_nat (7 * i) :: u8) = 7 * i"
    using i bitpos_le [of i 32] bitpos_unat [of i] by auto
  from Cons.prems(1) show ?case
  proof (cases rule: readbyte_cases)
    case eof
    with Cons.prems(2) show ?thesis by simp
  next
    case (byte b' s')
    with Cons.prems(2) have b': "b' = b" and c: "contents tail s' = gs @ r" by simp_all
    from Cons.IH [OF adv_ok [OF byte(2)] c, of "Suc i"] Cons.prems(3,4)
    obtain s'' where a: "adv src_ok tail (length gs) s' s''" and e: "is_errmsg s'' = is_errmsg s'"
      and l: "varint32_loop s' (of_nat (7 * Suc i)) (acc OR push_bit (7 * i) (ucast (b AND 0x7F))) =
        varint32_loop s'' (of_nat (7 * (Suc i + length gs)))
          ((acc OR push_bit (7 * i) (ucast (b AND 0x7F))) OR
           push_bit (7 * Suc i) (of_nat (varint_value gs)))" by fastforce
    have "7 * Suc i = 7 * i + 7" by simp
    from l have "varint32_loop s' (of_nat (7 * Suc i)) (acc OR push_bit (7 * i) (ucast (b AND 0x7F))) =
        varint32_loop s'' (of_nat (7 * (i + length (b # gs))))
          (acc OR push_bit (7 * i) (of_nat (varint_value (b # gs))))"
      by (simp only: \<open>7 * Suc i = 7 * i + 7\<close> group_or) simp
    moreover have "varint32_loop s (of_nat (7 * i)) acc =
        varint32_loop s' (of_nat (7 * Suc i)) (acc OR push_bit (7 * i) (ucast (b AND 0x7F)))"
      using byte(1) b' pos cont bitpos_Suc [of i]
      by (subst varint32_loop.simps) (simp add: Let_def add.commute del: of_nat_mult of_nat_Suc)
    moreover have "adv src_ok tail (length (b # gs)) s s''" using adv_trans [OF byte(2) a] by simp
    ultimately show ?thesis using e byte(4) by auto
  qed
qed

lemma varint32_loop_last:
  assumes s: "stream_ok src_ok tail s" and c: "contents tail s = b # r" and i: "i < 5"
    and b: "b AND 0x80 = 0"
  shows "\<exists>s'. adv src_ok tail 1 s s' \<and> is_errmsg s' = is_errmsg s \<and>
    varint32_loop s (of_nat (7 * i)) acc =
    Some (Some (acc OR push_bit (7 * i) (ucast (b AND 0x7F)), of_nat (7 * Suc i), b), s')"
  using s
proof (cases rule: readbyte_cases)
  case eof
  with c show ?thesis by simp
next
  case (byte b' s')
  have pos: "\<not> 32 \<le> (of_nat (7 * i) :: u8)" "unat (of_nat (7 * i) :: u8) = 7 * i"
    using i bitpos_le [of i 32] bitpos_unat [of i] by auto
  from byte c b pos bitpos_Suc [of i] show ?thesis
    by (subst varint32_loop.simps)
      (auto simp: Let_def add.commute simp del: of_nat_mult of_nat_Suc)
qed

text \<open>The first byte is handled outside the loop, to the same effect.\<close>

lemma varint32_eof_loop:
  assumes s: "stream_ok src_ok tail s" and c: "contents tail s \<noteq> []"
  shows "pb_decode_varint32_eof s = do {
     (r', s'') \<leftarrow> varint32_loop s 0 0;
     case r' of
       None \<Rightarrow> Some (None, False, s'')
     | Some (result, bitpos, byte') \<Rightarrow>
         if bitpos = 35 \<and> byte' AND 0x70 \<noteq> 0
         then Some (None, False, is_set_error ''varint overflow'' s'')
         else Some (Some result, False, s'') }"
  using s
proof (cases rule: readbyte_cases)
  case eof
  with c show ?thesis by simp
next
  case (byte b s')
  have "ucast (b AND 0x7F) = (ucast b :: u32)" if "b AND 0x80 = 0"
  proof -
    from that have "unat b < 128" by (simp only: continuation_bit)
    then show ?thesis by (simp only: word_unat_eq_iff unsigned_ucast_eq unat_and_7F) simp
  qed
  with byte show ?thesis
    by (subst varint32_loop.simps) (auto simp: pb_decode_varint32_eof_def Let_def)
qed

lemma varint32_roundtrip:
  assumes s: "stream_ok src_ok tail s" and c: "contents tail s = varint_bytes (unat v) @ r"
  shows "\<exists>s'. pb_decode_varint32_eof s = Some (Some (v :: u32), False, s') \<and>
     adv src_ok tail (length (varint_bytes (unat v))) s s' \<and> is_errmsg s' = is_errmsg s"
proof -
  obtain k where k: "varint_bytes (unat v) = more_groups k (unat v) @ [of_nat (unat v div 128 ^ k)]"
    "unat v div 128 ^ k < 128" "k = 0 \<or> 128 ^ k \<le> unat v" using varint_bytes_last by blast
  let ?l = "of_nat (unat v div 128 ^ k) :: u8"
  have "unat v < 128 ^ 5" by (rule less_trans [OF unat_u32_less]) simp
  then have "\<not> 128 ^ 5 \<le> unat v" by simp
  moreover have "128 ^ 5 \<le> (128 :: nat) ^ k" if "5 \<le> k" using that by (intro power_increasing) simp_all
  ultimately have k5: "k < 5" using k(3) by (metis le_trans less_numeral_extra(3) not_le zero_less_numeral)
  from c k(1) have c1: "contents tail s = more_groups k (unat v) @ ?l # r" by simp
  from varint32_loop_more [OF s c1, of 0 0] k5 more_groups_cont obtain s1 where
    a1: "adv src_ok tail k s s1" and e1: "is_errmsg s1 = is_errmsg s" and
    l1: "varint32_loop s 0 0 = varint32_loop s1 (of_nat (7 * k)) (of_nat (unat v mod 128 ^ k))"
    by (auto simp: more_groups_value)
  from adv_contents [OF a1] c1 have c2: "contents tail s1 = ?l # r" by simp
  from varint32_loop_last [OF adv_ok [OF a1] c2 k5 last_byte_bits(1) [OF k(2)]] obtain s2 where
    a2: "adv src_ok tail 1 s1 s2" and e2: "is_errmsg s2 = is_errmsg s1" and
    l2: "varint32_loop s1 (of_nat (7 * k)) (of_nat (unat v mod 128 ^ k)) = Some (Some
      (of_nat (unat v mod 128 ^ k) OR push_bit (7 * k) (ucast (?l AND 0x7F)), of_nat (7 * Suc k), ?l), s2)"
    by blast
  have "(ucast (?l AND 0x7F) :: u32) = of_nat (unat v div 128 ^ k)"
    using last_byte_bits(2) [OF k(2)] by (metis group_ucast)
  moreover have "(128 :: nat) ^ k = 2 ^ (7 * k)" by (simp add: power_mult)
  ultimately have val: "of_nat (unat v mod 128 ^ k) OR push_bit (7 * k) (ucast (?l AND 0x7F)) = v"
    using word_add_pow [of "unat v mod 2 ^ (7 * k)" "7 * k" "unat v div 2 ^ (7 * k)", where 'a = 32]
    by simp
  have "\<not> (of_nat (7 * Suc k) = (35 :: u8) \<and> ?l AND 0x70 \<noteq> 0)"
  proof
    assume a: "of_nat (7 * Suc k) = (35 :: u8) \<and> ?l AND 0x70 \<noteq> 0"
    then have "unat (of_nat (7 * Suc k) :: u8) = 35" by (simp only:) simp
    with bitpos_unat [of "Suc k"] k5 have "k = 4" by simp
    then have "unat v div 128 ^ k < 16" using unat_u32_less [of v] by (simp add: less_mult_imp_div_less)
    with nibble_and_70 a show False by blast
  qed
  with varint32_eof_loop [OF s] c1 l1 l2 val have
    "pb_decode_varint32_eof s = Some (Some v, False, s2)" by (auto simp del: of_nat_mult of_nat_Suc)
  moreover have "adv src_ok tail (length (varint_bytes (unat v))) s s2"
    using adv_trans [OF a1 a2] k(1) by simp
  ultimately show ?thesis using e1 e2 by auto
qed

text \<open>Above bit 35 only sign extension is let through: the rest of a number below
  \<open>2 ^ 63\<close> is rejected.\<close>

lemma varint32_loop_rejects:
  assumes "stream_ok src_ok tail s" "contents tail s = varint_bytes u @ r" "0 < u"
    "u < 128 ^ n" "5 \<le> i" "i + n \<le> 9"
  shows "\<exists>s' k. varint32_loop s (of_nat (7 * i)) acc = Some (None, s') \<and>
     adv src_ok tail k s s' \<and> is_errmsg s' \<noteq> None"
  using assms
proof (induction n arbitrary: s u i acc)
  case 0
  then show ?case by simp
next
  case (Suc n)
  then have i: "5 \<le> i" "i < 9" by simp_all
  have pos: "32 \<le> (of_nat (7 * i) :: u8)" "(of_nat (7 * i) :: u8) < 63"
    using i bitpos_le [of i 32] bitpos_less [of i 63] by simp_all
  from Suc.prems(1) show ?case
  proof (cases rule: readbyte_cases)
    case eof
    with Suc.prems(2) show ?thesis by simp
  next
    case (byte b s')
    show ?thesis
    proof (cases "u < 128")
      case True
      with Suc.prems(2) byte(3) have b: "b = of_nat u" by (simp add: varint_bytes_less)
      with last_byte_bits [OF True] Suc.prems(3) have "b AND 0x7F \<noteq> 0" "b AND 0x80 = 0" by auto
      moreover from this have "b \<noteq> 0xFF" by auto
      ultimately show ?thesis using byte(1,2) pos
        by (subst varint32_loop.simps) (auto simp: Let_def)
    next
      case False
      then have "varint_bytes u = of_nat (u mod 128 + 128) # varint_bytes (u div 128)"
        by (subst varint_bytes.simps) simp
      with Suc.prems(2) byte(3) have b: "b = of_nat (u mod 128 + 128)"
        and c: "contents tail s' = varint_bytes (u div 128) @ r" by simp_all
      from b have cont: "b AND 0x80 \<noteq> 0" by (simp del: of_nat_add)
      have "0 < u div 128" "u div 128 < 128 ^ n"
        using False Suc.prems(4) by (simp_all add: div_greater_zero_iff less_mult_imp_div_less mult.commute)
      with Suc.IH [OF adv_ok [OF byte(2)] c, of "Suc i" acc] Suc.prems obtain s'' k where
        "varint32_loop s' (of_nat (7 * Suc i)) acc = Some (None, s'')" "adv src_ok tail k s' s''"
        "is_errmsg s'' \<noteq> None" by auto
      with byte(1,2) pos cont bitpos_Suc [of i] adv_trans [OF byte(2), of k s''] show ?thesis
        by (subst varint32_loop.simps)
          (auto simp: Let_def add.commute simp del: of_nat_mult of_nat_Suc)
    qed
  qed
qed

lemma varint32_rejects:
  assumes s: "stream_ok src_ok tail s" and c: "contents tail s = varint_bytes v @ r"
    and v: "2 ^ 32 \<le> v" "v < 2 ^ 63"
  shows "\<exists>s' k. pb_decode_varint32_eof s = Some (None, False, s') \<and> adv src_ok tail k s s' \<and>
     is_errmsg s' \<noteq> None"
proof -
  define n where "n = (if v < 128 ^ 5 then 4 else 5 :: nat)"
  have n5: "n \<le> 5" by (simp add: n_def)
  have ge: "128 ^ n \<le> v" using v(1) by (simp add: n_def)
  then have vb: "varint_bytes v = more_groups n v @ varint_bytes (v div 128 ^ n)"
    by (rule varint_bytes_groups)
  with c have c1: "contents tail s = more_groups n v @ varint_bytes (v div 128 ^ n) @ r" by simp
  from varint32_loop_more [OF s c1, of 0 0] more_groups_cont obtain s1 acc where
    a1: "adv src_ok tail n s s1" and
    l1: "varint32_loop s 0 0 = varint32_loop s1 (of_nat (7 * n)) acc"
    using n5 by auto
  from adv_contents [OF a1] c1 have c2: "contents tail s1 = varint_bytes (v div 128 ^ n) @ r" by simp
  from c have ne: "contents tail s \<noteq> []" by simp
  show ?thesis
  proof (cases "v < 128 ^ 5")
    case True
    then have n: "n = 4" by (simp add: n_def)
    have small: "v div 128 ^ 4 < 128" using True by (simp add: less_mult_imp_div_less)
    have big: "16 \<le> v div 128 ^ 4" using v(1) by (simp add: less_eq_div_iff_mult_less_eq)
    let ?b = "of_nat (v div 128 ^ 4) :: u8"
    from c2 small have "contents tail s1 = ?b # r" by (simp add: n varint_bytes_less)
    from varint32_loop_last [OF adv_ok [OF a1] this _ last_byte_bits(1) [OF small], of 4 acc]
    obtain s2 w where a2: "adv src_ok tail 1 s1 s2" and
      l2: "varint32_loop s1 (of_nat (7 * 4)) acc = Some (Some (w, of_nat (7 * Suc 4), ?b), s2)" by auto
    from varint32_eof_loop [OF s ne] l1 l2 n septet_and_70 [OF big small]
    have "pb_decode_varint32_eof s = Some (None, False, is_set_error ''varint overflow'' s2)" by simp
    with adv_trans [OF a1 a2] show ?thesis by auto
  next
    case False
    then have n: "n = 5" by (simp add: n_def)
    have "0 < v div 128 ^ n" using ge by (simp add: div_greater_zero_iff)
    moreover have "v div 128 ^ n < 128 ^ 4" using v(2) by (simp add: n less_mult_imp_div_less)
    ultimately obtain s2 k where l2: "varint32_loop s1 (of_nat (7 * 5)) acc = Some (None, s2)"
      and a2: "adv src_ok tail k s1 s2" and e: "is_errmsg s2 \<noteq> None"
      using varint32_loop_rejects [OF adv_ok [OF a1] c2, of 4 5 acc] by auto
    from varint32_eof_loop [OF s ne] l1 l2 n have "pb_decode_varint32_eof s = Some (None, False, s2)"
      by simp
    with adv_trans [OF a1 a2] e show ?thesis by blast
  qed
qed

text \<open>From \<open>2 ^ 63\<close> on there are ten groups, of which the last is 1.  The check of each group from
  bit 35 on is a check of that byte alone: it must be 0, or all ones when bit 31 of the result
  is set.  Bits 32 to 34 are not checked.\<close>

lemma sign_byte_passes:
  assumes "i < 9" "5 \<le> i" "pb_readbyte s = Some (Some b, s')" "b AND 0x80 \<noteq> 0"
    "b AND 0x7F = 0 \<or> drop_bit 31 acc \<noteq> 0 \<and> b = 0xFF"
  shows "varint32_loop s (of_nat (7 * i)) acc = varint32_loop s' (of_nat (7 * Suc i)) acc"
proof -
  have pos: "32 \<le> (of_nat (7 * i) :: u8)" "(of_nat (7 * i) :: u8) < 63"
    using assms(1,2) bitpos_le [of i 32] bitpos_less [of i 63] by simp_all
  with assms(3-5) bitpos_Suc [of i] show ?thesis
    by (subst varint32_loop.simps)
      (auto simp: Let_def add.commute simp del: of_nat_mult of_nat_Suc)
qed

lemma sign_byte_fails:
  assumes "i < 9" "5 \<le> i" "pb_readbyte s = Some (Some b, s')"
    "b AND 0x7F \<noteq> 0" "drop_bit 31 acc = 0 \<or> b \<noteq> 0xFF"
  shows "varint32_loop s (of_nat (7 * i)) acc = Some (None, is_set_error ''varint overflow'' s')"
proof -
  have pos: "32 \<le> (of_nat (7 * i) :: u8)" "(of_nat (7 * i) :: u8) < 63"
    using assms(1,2) bitpos_le [of i 32] bitpos_less [of i 63] by simp_all
  with assms(3-5) show ?thesis
    by (subst varint32_loop.simps) (auto simp: Let_def)
qed

lemma varint32_loop_sign:
  assumes "stream_ok src_ok tail s" "contents tail s = varint_bytes u @ r" "u div 128 ^ n = 1"
    "5 \<le> i" "i + n = 9"
  shows "if drop_bit 31 acc \<noteq> 0 \<and> sign_groups n u
    then \<exists>s'. varint32_loop s (of_nat (7 * i)) acc = Some (Some (acc, 70, 0x01), s') \<and>
      adv src_ok tail (Suc n) s s' \<and> contents tail s' = r
    else \<exists>s' k. varint32_loop s (of_nat (7 * i)) acc = Some (None, s') \<and>
      adv src_ok tail k s s' \<and> is_errmsg s' \<noteq> None"
  using assms
proof (induction n arbitrary: s u i)
  case 0
  then have u: "u = 1" and i: "i = 9" by simp_all
  from 0(1) show ?case
  proof (cases rule: readbyte_cases)
    case eof
    with 0(2) show ?thesis by simp
  next
    case (byte b s')
    with 0(2) u have "b = 0x01" "contents tail s' = r" by (simp_all add: varint_bytes_less)
    with byte i show ?thesis
      by (cases "drop_bit 31 acc = 0"; subst varint32_loop.simps) (auto simp: Let_def)
  qed
next
  case (Suc n)
  then have i: "5 \<le> i" "i < 9" by simp_all
  have ge: "128 \<le> u"
  proof (rule ccontr)
    assume "\<not> 128 \<le> u"
    then have "u < 128 ^ Suc n" by (rule_tac less_le_trans [of _ 128]) simp_all
    with Suc.prems(3) show False by simp
  qed
  from Suc.prems(1) show ?case
  proof (cases rule: readbyte_cases)
    case eof
    with Suc.prems(2) show ?thesis by simp
  next
    case (byte b s')
    from ge have "varint_bytes u = of_nat (u mod 128 + 128) # varint_bytes (u div 128)"
      by (subst varint_bytes.simps) simp
    with Suc.prems(2) byte(3) have b: "b = of_nat (u mod 128 + 128)"
      and c: "contents tail s' = varint_bytes (u div 128) @ r" by simp_all
    have ub: "unat b = u mod 128 + 128" unfolding b by (rule unat_of_nat_u8) simp
    have cont: "b AND 0x80 \<noteq> 0" by (simp only: continuation_bit ub)
    have zero: "b AND 0x7F = 0 \<longleftrightarrow> u mod 128 = 0"
      by (simp only: word_unat_eq_iff unat_and_7F ub) simp
    have ones: "b = 0xFF \<longleftrightarrow> u mod 128 = 127"
      by (simp only: word_unat_eq_iff ub) simp
    have "u div 128 div 128 ^ n = 1" using Suc.prems(3) by (simp add: div_mult2_eq)
    note IH = Suc.IH [OF adv_ok [OF byte(2)] c this, of "Suc i"]
    show ?thesis
    proof (cases "u mod 128 = 0 \<or> drop_bit 31 acc \<noteq> 0 \<and> u mod 128 = 127")
      case False
      with zero ones sign_byte_fails [OF i(2,1) byte(1)] byte(2) show ?thesis by auto
    next
      case True
      with zero ones sign_byte_passes [OF i(2,1) byte(1) cont]
      have l: "varint32_loop s (of_nat (7 * i)) acc = varint32_loop s' (of_nat (7 * Suc i)) acc" by auto
      have ad: "adv src_ok tail (Suc k) s s''" if "adv src_ok tail k s' s''" for k s''
        using adv_trans [OF byte(2) that] by simp
      show ?thesis
      proof (cases "drop_bit 31 acc \<noteq> 0 \<and> sign_groups n (u div 128)")
        case pass: True
        with IH Suc.prems(4,5) obtain s'' where
          "varint32_loop s' (of_nat (7 * Suc i)) acc = Some (Some (acc, 70, 0x01), s'')"
          "adv src_ok tail (Suc n) s' s''" "contents tail s'' = r" by auto
        with l ad pass True show ?thesis by auto
      next
        case fail: False
        with IH Suc.prems(4,5) obtain s'' k where
          "varint32_loop s' (of_nat (7 * Suc i)) acc = Some (None, s'')"
          "adv src_ok tail k s' s''" "is_errmsg s'' \<noteq> None" by auto
        with l ad fail True show ?thesis by auto
      qed
    qed
  qed
qed

lemma varint32_high:
  assumes s: "stream_ok src_ok tail s" and c: "contents tail s = varint_bytes v @ r"
    and v: "2 ^ 63 \<le> v" "v < 2 ^ 64"
  shows "if odd (v div 2 ^ 31) \<and> sign_groups 4 (v div 128 ^ 5)
    then \<exists>s'. pb_decode_varint32_eof s = Some (Some (of_nat v), False, s') \<and> contents tail s' = r
    else \<exists>s'. pb_decode_varint32_eof s = Some (None, False, s') \<and> is_errmsg s' \<noteq> None"
proof -
  have "128 ^ 5 \<le> v" using v by simp
  then have vb: "varint_bytes v = more_groups 5 v @ varint_bytes (v div 128 ^ 5)"
    by (rule varint_bytes_groups)
  with c have c1: "contents tail s = more_groups 5 v @ varint_bytes (v div 128 ^ 5) @ r" by simp
  define acc :: u32 where "acc = of_nat (v mod 128 ^ 5)"
  from varint32_loop_more [OF s c1, of 0 0] more_groups_cont obtain s1 where
    a1: "adv src_ok tail 5 s s1" and
    l1: "varint32_loop s 0 0 = varint32_loop s1 (of_nat (7 * 5)) acc"
    by (auto simp: more_groups_value acc_def)
  from adv_contents [OF a1] c1 have c2: "contents tail s1 = varint_bytes (v div 128 ^ 5) @ r" by simp
  have "take_bit 32 (v mod 128 ^ 5) = take_bit 32 v" by (simp add: take_bit_eq_mod mod_mod_cancel)
  then have acc: "acc = of_nat v" by (simp add: acc_def word_unat_eq_iff unat_of_nat take_bit_eq_mod)
  have top: "drop_bit 31 acc \<noteq> 0 \<longleftrightarrow> odd (v div 2 ^ 31)"
  proof -
    have "unat (drop_bit 31 acc) = v mod 2 ^ 32 div 2 ^ 31"
      by (simp only: acc unat_drop_bit_eq unat_of_nat) (simp add: drop_bit_eq_div take_bit_eq_mod)
    also have "\<dots> = v div 2 ^ 31 mod 2"
      using mod_mult2_eq [of v "2 ^ 31" 2] by simp
    finally show ?thesis by (simp add: word_unat_eq_iff odd_iff_mod_2_eq_one)
  qed
  have one: "v div 128 ^ 5 div 128 ^ 4 = 1" using v
    by (subst div_mult2_eq [symmetric]) (intro div_nat_eqI, simp_all)
  have ne: "contents tail s \<noteq> []" using c by simp
  note L = varint32_loop_sign [OF adv_ok [OF a1] c2 one, of 5 acc]
  show ?thesis
  proof (cases "odd (v div 2 ^ 31) \<and> sign_groups 4 (v div 128 ^ 5)")
    case True
    with L top obtain s2 where "varint32_loop s1 (of_nat (7 * 5)) acc = Some (Some (acc, 70, 0x01), s2)"
      "contents tail s2 = r" by auto
    with True varint32_eof_loop [OF s ne] l1 acc show ?thesis by simp
  next
    case False
    with L top obtain s2 where "varint32_loop s1 (of_nat (7 * 5)) acc = Some (None, s2)"
      "is_errmsg s2 \<noteq> None" by auto
    with False varint32_eof_loop [OF s ne] l1 show ?thesis by simp
  qed
qed

end

end
