(* ===== verification/PbWireClaims.thy ===== *)
theory PbWireClaims
  imports PbMessageClaims PbVarintSpec
begin

text \<open>
  What the wire primitives guarantee: what is written is read back, the number ranges that are
  accepted, skipping and substreams, and inputs that are accepted and should not be.
\<close>

subsection \<open>The wire primitives, written and read back\<close>

text \<open>The bytes that a call has put into a fresh buffer of \<open>k\<close> bytes.\<close>

definition buffer_bytes :: "'s pb_ostream \<Rightarrow> u8 list" where
  "buffer_bytes s = (case sink s of BufWrite out _ \<Rightarrow> out | _ \<Rightarrow> [])"

lemma emits_buffer:
  assumes "emits buf_put (pb_ostream_from_buffer k cap) bs res" "length bs \<le> unat cap"
  obtains s' where "res = Some (True, s')" "buffer_bytes s' = bs"
    "bytes_written s' = of_nat (length bs)"
  using assms by (auto simp: runs_def buffer_bytes_def push_def pb_ostream_from_buffer_def buf_put_def fits_def)

lemma small_buffer: "j < 2 ^ 64 \<Longrightarrow> small (pb_ostream_from_buffer k cap) j"
  by (simp add: small_def pb_ostream_from_buffer_def)

lemma from_list_ok:
  assumes "length xs < 2 ^ 64"
  shows "stream_ok buf_ok buf_tail (pb_istream_from_buffer xs (of_nat (length xs)))"
    "contents buf_tail (pb_istream_from_buffer xs (of_nat (length xs))) = xs"
  using unat_of_nat_u64 [OF assms] by simp_all

lemma adv_rest:
  "adv ok rst k s s' \<Longrightarrow> contents rst s = bs @ r \<Longrightarrow> k = length bs \<Longrightarrow> contents rst s' = r"
  by (simp add: adv_contents)

lemma encode_varint_buffer:
  assumes "unat cap \<le> k" "length (varint_bytes (unat v)) \<le> unat cap"
  obtains s' where "pb_encode_varint (pb_ostream_from_buffer k cap) m v = Some (True, s')"
    "buffer_bytes s' = varint_bytes (unat v)"
proof -
  have "length (varint_bytes (unat v)) < 2 ^ 64"
    using varint_bytes_u64_length [of v] by simp
  from bufw.encode_varint_runs [OF _ small_buffer [OF this], of k cap m] assms(1)
  have "emits buf_put (pb_ostream_from_buffer k cap) (varint_bytes (unat v))
      (pb_encode_varint (pb_ostream_from_buffer k cap) m v)" by simp
  from emits_buffer [OF this assms(2)] that show thesis by blast
qed

text \<open>C5: a 64-bit value that \<open>pb_encode_varint\<close> has written into a buffer is what
  \<open>pb_decode_varint\<close> reads, whatever follows it, and the reader stops right behind it; the value
  takes at most ten bytes.\<close>

theorem varint_written_read:
  assumes "unat cap \<le> k" "10 \<le> unat cap" "length r < 2 ^ 63"
  shows "\<exists>s' bs. pb_encode_varint (pb_ostream_from_buffer k cap :: 'o pb_ostream) m v = Some (True, s') \<and>
    buffer_bytes s' = bs \<and> length bs \<le> 10 \<and>
    (\<exists>s''. pb_decode_varint (pb_istream_from_buffer (bs @ r) (of_nat (length (bs @ r))) :: 'c pb_istream) = Some (Some v, s'') \<and>
       contents buf_tail s'' = r)"
proof -
  let ?bs = "varint_bytes (unat v)"
  have len: "length ?bs \<le> 10" by (rule varint_bytes_u64_length)
  then have "length ?bs \<le> unat cap" using assms(2) by linarith
  with assms(1) obtain s' where "pb_encode_varint (pb_ostream_from_buffer k cap :: 'o pb_ostream) m v = Some (True, s')"
    "buffer_bytes s' = ?bs" by (rule encode_varint_buffer)
  moreover have "length (?bs @ r) < 2 ^ 64" using len assms(3) by simp
  note L = from_list_ok [OF this]
  from buf.varint_roundtrip [OF L] obtain s'' where
    "pb_decode_varint (pb_istream_from_buffer (?bs @ r) (of_nat (length (?bs @ r))) :: 'c pb_istream) = Some (Some v, s'')"
    "contents buf_tail s'' = r" using adv_rest [OF _ L(2)] by blast
  ultimately show ?thesis using len by blast
qed

theorem varint_written_read_witness:
  "\<exists>s' bs. pb_encode_varint (pb_ostream_from_buffer 16 12) sample_mem 300 = Some (True, s') \<and>
    buffer_bytes s' = bs \<and> length bs \<le> 10 \<and>
    (\<exists>s''. pb_decode_varint (pb_istream_from_buffer (bs @ [0xFF]) (of_nat (length (bs @ [0xFF])))) = Some (Some 300, s'') \<and>
       contents buf_tail s'' = [0xFF])"
  by (rule varint_written_read) simp_all

subsection \<open>Zigzag on words\<close>

lemma zigzag_word:
  fixes v :: u64
  defines "z \<equiv> (if sint v < 0 then NOT (push_bit 1 v) else push_bit 1 v)"
  shows "(if z AND 1 \<noteq> 0 then NOT (drop_bit 1 z) else drop_bit 1 z) = v"
proof -
  have neg: "sint v < 0 \<longleftrightarrow> bit v 63"
    using bit_last_iff [of v] by simp
  have "z AND 1 \<noteq> 0 \<longleftrightarrow> bit z 0"
    using and_exp_eq_0_iff_not_bit [of z 0] by simp
  also have "\<dots> \<longleftrightarrow> bit v 63"
    unfolding z_def neg by (simp only: bit_not_iff bit_push_bit_iff if_distrib [of "\<lambda>w. bit w 0"]) simp
  finally have odd: "z AND 1 \<noteq> 0 \<longleftrightarrow> bit v 63" .
  show ?thesis
  proof (rule bit_word_eqI)
    fix n assume "n < LENGTH(64)"
    then have n: "n < 63 \<or> n = 63" by auto
    have z: "bit z (Suc n) \<longleftrightarrow> n < 63 \<and> bit v n \<noteq> bit v 63"
      unfolding z_def neg
      by (cases "bit v 63") (auto simp only: bit_not_iff bit_push_bit_iff if_True if_False possible_bit_word, auto)
    show "bit (if z AND 1 \<noteq> 0 then NOT (drop_bit 1 z) else drop_bit 1 z) n = bit v n"
      using n z by (auto simp only: odd bit_not_iff bit_drop_bit_eq comp_def plus_1_eq_Suc possible_bit_word if_True if_False split: if_split) auto
  qed
qed

text \<open>C6: the same for signed values: what \<open>pb_encode_svarint\<close> wrote, \<open>pb_decode_svarint\<close> reads, for
  every 64-bit value, the smallest negative one included.\<close>

theorem svarint_written_read:
  assumes "unat cap \<le> k" "10 \<le> unat cap" "length r < 2 ^ 63"
  shows "\<exists>s' bs. pb_encode_svarint (pb_ostream_from_buffer k cap :: 'o pb_ostream) m v = Some (True, s') \<and>
    buffer_bytes s' = bs \<and>
    (\<exists>s''. pb_decode_svarint (pb_istream_from_buffer (bs @ r) (of_nat (length (bs @ r))) :: 'c pb_istream) = Some (Some v, s'') \<and>
       contents buf_tail s'' = r)"
proof -
  let ?z = "if sint v < 0 then NOT (push_bit 1 v) else push_bit 1 v"
  let ?bs = "varint_bytes (unat ?z)"
  have len: "length ?bs \<le> 10" by (rule varint_bytes_u64_length)
  then have "length ?bs \<le> unat cap" using assms(2) by linarith
  with assms(1) obtain s' where "pb_encode_varint (pb_ostream_from_buffer k cap :: 'o pb_ostream) m ?z = Some (True, s')"
    "buffer_bytes s' = ?bs" by (rule encode_varint_buffer)
  moreover have "length (?bs @ r) < 2 ^ 64" using len assms(3) by simp
  note L = from_list_ok [OF this]
  from buf.varint_roundtrip [OF L] obtain s'' where
    "pb_decode_varint (pb_istream_from_buffer (?bs @ r) (of_nat (length (?bs @ r))) :: 'c pb_istream) = Some (Some ?z, s'')"
    "contents buf_tail s'' = r" using adv_rest [OF _ L(2)] by blast
  moreover from this(1) have
    "pb_decode_svarint (pb_istream_from_buffer (?bs @ r) (of_nat (length (?bs @ r))) :: 'c pb_istream) = Some (Some v, s'')"
    using zigzag_word [of v] by (simp only: pb_decode_svarint_def bind.simps prod.case option.case)
  ultimately show ?thesis by (auto simp: pb_encode_svarint_def Let_def)
qed

theorem svarint_written_read_witness:
  "\<exists>s' bs. pb_encode_svarint (pb_ostream_from_buffer 16 12) sample_mem (- 5) = Some (True, s') \<and>
    buffer_bytes s' = bs \<and>
    (\<exists>s''. pb_decode_svarint (pb_istream_from_buffer (bs @ [1]) (of_nat (length (bs @ [1])))) = Some (Some (- 5), s'') \<and>
       contents buf_tail s'' = [1])"
  by (rule svarint_written_read) simp_all

text \<open>C7: what \<open>pb_decode_varint\<close> makes of arbitrary input.  When one of the first ten bytes has no
  continuation bit, it returns the value of the groups up to there, modulo \<open>2 ^ 64\<close>, and consumes
  exactly these bytes; otherwise it returns false with an error message.\<close>

theorem decode_varint_total:
  assumes "unat n \<le> length xs"
  shows "\<exists>r s'. pb_decode_varint (pb_istream_from_buffer xs n :: 'c pb_istream) = Some (r, s') \<and>
    (case varint_prefix 10 (take (unat n) xs) of
       Some g \<Rightarrow> r = Some (of_nat (varint_value g)) \<and> contents buf_tail s' = drop (length g) (take (unat n) xs)
     | None \<Rightarrow> r = None \<and> is_errmsg s' \<noteq> None)"
proof -
  have "stream_ok buf_ok buf_tail (pb_istream_from_buffer xs n :: 'c pb_istream)" using assms by simp
  from buf.varint_spec [OF this] obtain r s' k where
    "pb_decode_varint (pb_istream_from_buffer xs n :: 'c pb_istream) = Some (r, s')"
    "adv buf_ok buf_tail k (pb_istream_from_buffer xs n) s'"
    "case varint_prefix 10 (take (unat n) xs) of
       Some g \<Rightarrow> r = Some (of_nat (varint_value g)) \<and> k = length g \<and> is_errmsg s' = None
     | None \<Rightarrow> r = None \<and> is_errmsg s' \<noteq> None"
    unfolding pb_istream_from_buffer_ok by blast
  then show ?thesis using adv_contents [of buf_ok buf_tail k "pb_istream_from_buffer xs n" s']
    by (auto split: option.splits)
qed

theorem decode_varint_total_witness:
  "\<exists>r s'. pb_decode_varint (pb_istream_from_buffer [0xAC, 0x02, 0x07] 3) = Some (r, s') \<and>
    (case varint_prefix 10 (take (unat (3 :: u64)) [0xAC, 0x02, 0x07]) of
       Some g \<Rightarrow> r = Some (of_nat (varint_value g)) \<and>
         contents buf_tail s' = drop (length g) (take (unat (3 :: u64)) [0xAC, 0x02, 0x07])
     | None \<Rightarrow> r = None \<and> is_errmsg s' \<noteq> None)"
  by (rule decode_varint_total) simp

lemma sign_extended_accepted:
  assumes "2 ^ 64 - 2 ^ 31 \<le> v" "v < (2 :: nat) ^ 64"
  shows "varint32_accepts v"
proof -
  define x where "x = v - (2 ^ 64 - 2 ^ 31)"
  have v: "v = 2 ^ 31 * (2 ^ 33 - 1) + x" "x < 2 ^ 31" using assms by (simp_all add: x_def)
  then have "v div 2 ^ 31 = 2 ^ 33 - 1" by (intro div_nat_eqI) simp_all
  moreover have "v div 128 ^ 5 = 128 ^ 4 * 1 + (128 ^ 4 - 1)" using v by (intro div_nat_eqI) simp_all
  ultimately show ?thesis using sign_groups_ones [of 4 1] assms by (simp add: varint32_accepts_def)
qed

text \<open>C8: the range of \<open>pb_decode_varint32\<close>, exactly.  Of the canonical bytes of a 64-bit number \<open>v\<close>
  it accepts the 32-bit values, the sign extensions of negative ones to 64 bits, and then also every
  other number from \<open>2 ^ 63\<close> on whose bit 31 is set and whose groups from bit 35 to 62 are each all
  zeros or all ones, whatever bits 32 to 34 are; it returns the low 32 bits and stops behind the
  number.  All others it rejects with an error message.  The third kind, of which \<open>2 ^ 63 + 2 ^ 31\<close>
  is one, fits neither an unsigned nor a signed 32-bit number, and should be rejected.\<close>

theorem decode_varint32_range:
  assumes "v < 2 ^ 64" "length r < 2 ^ 63"
  shows "(\<exists>res s'. pb_decode_varint32 (pb_istream_from_buffer (varint_bytes v @ r)
        (of_nat (length (varint_bytes v @ r))) :: 'c pb_istream) = Some (res, s') \<and>
      (if varint32_accepts v then res = Some (of_nat v) \<and> contents buf_tail s' = r
       else res = None \<and> is_errmsg s' \<noteq> None)) \<and>
    (v < 2 ^ 32 \<or> 2 ^ 64 - 2 ^ 31 \<le> v \<longrightarrow> varint32_accepts v)"
proof
  let ?s = "pb_istream_from_buffer (varint_bytes v @ r) (of_nat (length (varint_bytes v @ r))) :: 'c pb_istream"
  have "length (varint_bytes v) \<le> 10"
    using varint_bytes_u64_length [of "of_nat v"] unat_of_nat_u64 [OF assms(1)] by simp
  with assms(2) have "length (varint_bytes v @ r) < 2 ^ 64" by simp
  note L = from_list_ok [OF this]
  consider (small) "v < 2 ^ 32" | (high) "2 ^ 63 \<le> v" | (bad) "2 ^ 32 \<le> v" "v < 2 ^ 63" by linarith
  then have "\<exists>res s'. pb_decode_varint32_eof ?s = Some (res, False, s') \<and>
      (if varint32_accepts v then res = Some (of_nat v) \<and> contents buf_tail s' = r
       else res = None \<and> is_errmsg s' \<noteq> None)"
  proof cases
    case small
    have "contents buf_tail ?s = varint_bytes (unat (of_nat v :: u32)) @ r"
      using L(2) unat_of_nat_u32 [OF small] by simp
    from buf.varint32_roundtrip [OF L(1) this] obtain s' where
      s': "pb_decode_varint32_eof ?s = Some (Some (of_nat v), False, s')"
        "adv buf_ok buf_tail (length (varint_bytes v)) ?s s'"
      unfolding unat_of_nat_u32 [OF small] by blast
    with adv_rest [OF s'(2) L(2) refl] small show ?thesis by (auto simp: varint32_accepts_def)
  next
    case high
    then have "varint32_accepts v \<longleftrightarrow> odd (v div 2 ^ 31) \<and> sign_groups 4 (v div 128 ^ 5)"
      by (auto simp: varint32_accepts_def)
    with buf.varint32_high [OF L high assms(1)] show ?thesis
      by (cases "varint32_accepts v") (simp_all only: simp_thms if_True if_False, blast+)
  next
    case bad
    then have "\<not> varint32_accepts v" by (auto simp: varint32_accepts_def)
    with buf.varint32_rejects [OF L bad] show ?thesis by auto
  qed
  then show "\<exists>res s'. pb_decode_varint32 ?s = Some (res, s') \<and>
      (if varint32_accepts v then res = Some (of_nat v) \<and> contents buf_tail s' = r
       else res = None \<and> is_errmsg s' \<noteq> None)"
    unfolding pb_decode_varint32_def by force
next
  show "v < 2 ^ 32 \<or> 2 ^ 64 - 2 ^ 31 \<le> v \<longrightarrow> varint32_accepts v"
    using sign_extended_accepted [OF _ assms(1)] by (auto simp: varint32_accepts_def)
qed

theorem decode_varint32_range_witness:
  "varint32_accepts (2 ^ 63 + 2 ^ 31) \<and>
   (\<exists>s'. pb_decode_varint32 (pb_istream_from_buffer (varint_bytes (2 ^ 63 + 2 ^ 31) @ [7])
      (of_nat (length (varint_bytes (2 ^ 63 + 2 ^ 31) @ [7]))) :: unit pb_istream) =
        Some (Some (2 ^ 31), s') \<and> contents buf_tail s' = [7])"
proof -
  have "sign_groups (Suc (Suc (Suc (Suc 0)))) (2 ^ 28)" by simp
  moreover have "(2 ^ 63 + 2 ^ 31) div 128 ^ 5 = (2 ^ 28 :: nat)" by simp
  moreover have "4 = Suc (Suc (Suc (Suc 0)))" by simp
  ultimately have "sign_groups 4 ((2 ^ 63 + 2 ^ 31) div 128 ^ 5)" by (simp only:)
  then have acc: "varint32_accepts (2 ^ 63 + 2 ^ 31)" unfolding varint32_accepts_def by simp
  have low: "(of_nat (2 ^ 63 + 2 ^ 31) :: u32) = 2 ^ 31" by simp
  have "(2 :: nat) ^ 63 + 2 ^ 31 < 2 ^ 64" "length [7 :: u8] < 2 ^ 63" by simp_all
  from decode_varint32_range [OF this, where 'c = unit] obtain res s' where
    r: "pb_decode_varint32 (pb_istream_from_buffer (varint_bytes (2 ^ 63 + 2 ^ 31) @ [7])
      (of_nat (length (varint_bytes (2 ^ 63 + 2 ^ 31) @ [7]))) :: unit pb_istream) = Some (res, s')"
    and i: "if varint32_accepts (2 ^ 63 + 2 ^ 31) then res = Some (of_nat (2 ^ 63 + 2 ^ 31)) \<and>
       contents buf_tail s' = [7] else res = None \<and> is_errmsg s' \<noteq> None" by (elim conjE exE)
  from i have "res = Some (2 ^ 31)" "contents buf_tail s' = [7]"
    by (simp_all only: acc if_True low)
  with r acc show ?thesis by blast
qed

text \<open>A fixed64 value travels unchanged: what \<open>pb_encode_fixed64\<close> writes from one place in memory,
  \<open>pb_decode_fixed64\<close> stores at another, and nothing else changes.\<close>

theorem fixed64_written_read:
  assumes "unat cap \<le> k" "8 \<le> unat cap" "valid_range m src 8" "valid_range m dest 8" "length r < 2 ^ 63"
  shows "\<exists>s' bs s'' m'. pb_encode_fixed64 (pb_ostream_from_buffer k cap :: 'o pb_ostream) m src = Some (True, s') \<and>
    buffer_bytes s' = bs \<and>
    pb_decode_fixed64 (pb_istream_from_buffer (bs @ r) (of_nat (length (bs @ r))) :: 'c pb_istream) dest m = Some (True, s'', m') \<and>
    contents buf_tail s'' = r \<and> load_uint m' dest 8 = load_uint m src 8 \<and> frame_only m m' dest 8"
proof -
  from load_uint_valid [OF assms(3)] obtain v where v: "load_uint m src 8 = Some v" by blast
  have "emits buf_put (pb_ostream_from_buffer k cap :: 'o pb_ostream) (le_bytes 8 v)
      (pb_encode_fixed64 (pb_ostream_from_buffer k cap :: 'o pb_ostream) m src)"
    by (rule bufw.encode_fixed64_runs) (simp_all add: assms(1) small_buffer v)
  then obtain s' where w: "pb_encode_fixed64 (pb_ostream_from_buffer k cap :: 'o pb_ostream) m src = Some (True, s')"
    "buffer_bytes s' = le_bytes 8 v" by (rule emits_buffer) (use assms(2) in simp_all)
  have "length (le_bytes 8 v @ r) < 2 ^ 64" using assms(5) by simp
  note L = from_list_ok [OF this]
  from buf.fixed64_spec [OF L assms(4)] obtain s'' m' where
    "pb_decode_fixed64 (pb_istream_from_buffer (le_bytes 8 v @ r) (of_nat (length (le_bytes 8 v @ r))) :: 'c pb_istream) dest m
       = Some (True, s'', m')"
    "contents buf_tail s'' = r" "load_uint m' dest 8 = Some v" "frame_only m m' dest 8"
    using adv_rest [OF _ L(2)] by (metis length_le_bytes)
  with w v show ?thesis by auto
qed

lemma and_7: "w AND 7 = take_bit 3 (w :: 'a::len word)"
  by (simp add: take_bit_eq_mask mask_eq_exp_minus_1)

text \<open>the key of a field: what \<open>pb_encode_tag\<close> wrote, \<open>pb_decode_tag\<close> reads, for every wire type and
  every field number of the protocol (1 to \<open>2 ^ 29 - 1\<close>).\<close>

theorem tag_written_read:
  assumes "unat cap \<le> k" "10 \<le> unat cap" "wt < 8" "0 < t" "t < 2 ^ 29" "length r < 2 ^ 63"
  shows "\<exists>s' bs s''. pb_encode_tag (pb_ostream_from_buffer k cap :: 'o pb_ostream) m wt t = Some (True, s') \<and>
    buffer_bytes s' = bs \<and>
    pb_decode_tag (pb_istream_from_buffer (bs @ r) (of_nat (length (bs @ r))) :: 'c pb_istream) = Some (Some (wt, t), False, s'') \<and>
    contents buf_tail s'' = r"
proof -
  define v where "v = 8 * unat t + wt"
  have t: "unat t < 2 ^ 29" using assms(5) by (simp add: word_less_nat_alt)
  then have v32: "v < 2 ^ 32" using assms(3) by (simp add: v_def)
  then have u: "unat (of_nat v :: u32) = v" by (rule unat_of_nat_u32)
  have len: "length (varint_bytes v) \<le> 10" using v32 by (intro varint_bytes_length) simp_all
  have "emits buf_put (pb_ostream_from_buffer k cap :: 'o pb_ostream) (varint_bytes v)
      (pb_encode_tag (pb_ostream_from_buffer k cap :: 'o pb_ostream) m wt t)"
    unfolding v_def by (rule bufw.encode_tag_runs) (use assms(1,3) len in \<open>simp_all add: small_buffer v_def\<close>)
  then obtain s' where w: "pb_encode_tag (pb_ostream_from_buffer k cap :: 'o pb_ostream) m wt t = Some (True, s')"
    "buffer_bytes s' = varint_bytes v" by (rule emits_buffer) (use assms(2) len in simp_all)
  have "length (varint_bytes v @ r) < 2 ^ 64" using assms(6) len by simp
  note L = from_list_ok [OF this]
  let ?s = "pb_istream_from_buffer (varint_bytes v @ r) (of_nat (length (varint_bytes v @ r))) :: 'c pb_istream"
  have "contents buf_tail ?s = varint_bytes (unat (of_nat v :: u32)) @ r" using L(2) u by simp
  from buf.varint32_roundtrip [OF L(1) this] obtain s'' where
    s: "pb_decode_varint32_eof ?s = Some (Some (of_nat v), False, s'')"
    "adv buf_ok buf_tail (length (varint_bytes v)) ?s s''" unfolding u by blast
  have "0 < unat t" using assms(4) by (simp add: word_less_nat_alt)
  then have nz: "(of_nat v :: u32) \<noteq> 0" using u by (auto simp: v_def)
  have "unat ((of_nat v :: u32) AND 7) = v mod 8"
    using u by (simp only: and_7 unsigned_take_bit_eq) (simp add: take_bit_eq_mod)
  moreover have "drop_bit 3 (of_nat v :: u32) = t"
    by (simp only: word_unat_eq_iff unsigned_drop_bit_eq u)
      (use v32 assms(3) in \<open>simp add: drop_bit_eq_div take_bit_eq_mod v_def\<close>)
  ultimately have "pb_decode_tag ?s = Some (Some (wt, t), False, s'')"
    using s(1) nz assms(3) by (simp add: pb_decode_tag_def v_def)
  with w adv_rest [OF s(2) L(2)] show ?thesis by blast
qed


theorem fixed64_written_read_witness:
  "\<exists>s' bs s'' m'. pb_encode_fixed64 (pb_ostream_from_buffer 8 8 :: unit pb_ostream) sample_mem 16 = Some (True, s') \<and>
    buffer_bytes s' = bs \<and>
    pb_decode_fixed64 (pb_istream_from_buffer (bs @ [7]) (of_nat (length (bs @ [7]))) :: unit pb_istream) 32 sample_mem =
      Some (True, s'', m') \<and>
    contents buf_tail s'' = [7] \<and> load_uint m' 32 8 = load_uint sample_mem 16 8 \<and> frame_only sample_mem m' 32 8"
  by (rule fixed64_written_read) (simp_all add: sample_valid)

theorem tag_written_read_witness:
  "\<exists>s' bs s''. pb_encode_tag (pb_ostream_from_buffer 16 12 :: unit pb_ostream) sample_mem PB_WT_STRING 536870911 = Some (True, s') \<and>
    buffer_bytes s' = bs \<and>
    pb_decode_tag (pb_istream_from_buffer (bs @ [1]) (of_nat (length (bs @ [1]))) :: unit pb_istream) =
      Some (Some (PB_WT_STRING, 536870911), False, s'') \<and>
    contents buf_tail s'' = [1]"
  by (rule tag_written_read) (simp_all add: wt_defs)

subsection \<open>Length-delimited fields\<close>

lemma varint32_length:
  assumes "n < 2 ^ 32" "length (varint_bytes n @ r) < 2 ^ 64"
  obtains s1 where
    "pb_decode_varint32 (pb_istream_from_buffer (varint_bytes n @ r) (of_nat (length (varint_bytes n @ r))) :: 'c pb_istream)
       = Some (Some (of_nat n), s1)" "stream_ok buf_ok buf_tail s1" "contents buf_tail s1 = r"
proof -
  note L = from_list_ok [OF assms(2)]
  let ?s = "pb_istream_from_buffer (varint_bytes n @ r) (of_nat (length (varint_bytes n @ r))) :: 'c pb_istream"
  note u = unat_of_nat_u32 [OF assms(1)]
  have "contents buf_tail ?s = varint_bytes (unat (of_nat n :: u32)) @ r" using L(2) u by simp
  from buf.varint32_roundtrip [OF L(1) this] obtain s1 where
    s: "pb_decode_varint32_eof ?s = Some (Some (of_nat n), False, s1)"
    "adv buf_ok buf_tail (length (varint_bytes n)) ?s s1" unfolding u by blast
  show thesis
    by (rule that [of s1]) (use s adv_rest [OF s(2) L(2)] in \<open>auto simp: pb_decode_varint32_def dest: adv_ok\<close>)
qed

lemma length_prefix: "n < 2 ^ 32 \<Longrightarrow> length (varint_bytes n) \<le> 10"
  by (rule varint_bytes_length) simp_all

text \<open>C11: \<open>pb_skip_field\<close> skips exactly what \<open>pb_encode_string\<close> wrote: the length, the data and
  nothing behind it.\<close>

theorem string_written_skipped:
  assumes "unat cap \<le> k" "length bs < 2 ^ 32" "length bs + 10 \<le> unat cap" "length r < 2 ^ 63"
  shows "\<exists>s' out s''. pb_encode_string (pb_ostream_from_buffer k cap :: 'o pb_ostream) m (BufLocal bs)
      (of_nat (length bs)) = Some (True, s') \<and> buffer_bytes s' = out \<and>
    pb_skip_field (pb_istream_from_buffer (out @ r) (of_nat (length (out @ r))) :: 'c pb_istream) PB_WT_STRING
      = Some (True, s'') \<and> contents buf_tail s'' = r"
proof -
  let ?out = "varint_bytes (length bs) @ bs"
  note len = length_prefix [OF assms(2)]
  have "emits buf_put (pb_ostream_from_buffer k cap :: 'o pb_ostream) ?out
      (pb_encode_string (pb_ostream_from_buffer k cap) m (BufLocal bs) (of_nat (length bs)))"
    by (rule bufw.encode_string_runs) (use assms len in \<open>simp_all add: small_buffer fetch_buf_def\<close>)
  then obtain s' where w: "pb_encode_string (pb_ostream_from_buffer k cap :: 'o pb_ostream) m (BufLocal bs)
      (of_nat (length bs)) = Some (True, s')" "buffer_bytes s' = ?out"
    by (rule emits_buffer) (use assms(3) len in simp_all)
  have "length (varint_bytes (length bs) @ (bs @ r)) < 2 ^ 64" using assms(2,4) len by simp
  from varint32_length [OF assms(2) this] obtain s1 :: "'c pb_istream" where
    s1: "pb_decode_varint32 (pb_istream_from_buffer (?out @ r) (of_nat (length (?out @ r)))) = Some (Some (of_nat (length bs)), s1)"
    "stream_ok buf_ok buf_tail s1" "contents buf_tail s1 = bs @ r" by auto
  have u: "unat (ucast (of_nat (length bs) :: u32) :: u64) = length bs"
    using unat_of_nat_u32 [OF assms(2)] by simp
  have "length bs \<le> unat (bytes_left s1)" using contents_length [OF s1(2)] s1(3) by simp
  then have le: "ucast (of_nat (length bs) :: u32) \<le> bytes_left s1" by (simp only: word_le_nat_alt u)
  from s1(2) obtain s'' j where sk: "pb_read s1 True (ucast (of_nat (length bs) :: u32)) = Some (True, [], s'')"
    "adv buf_ok buf_tail j s1 s''" "j = length bs"
    by (rule buf.read_null_ok [where n = "ucast (of_nat (length bs) :: u32)"]) (use le u in auto)
  have "contents buf_tail s'' = r" using adv_rest [OF sk(2) s1(3) sk(3)] .
  moreover have "pb_skip_field (pb_istream_from_buffer (?out @ r) (of_nat (length (?out @ r))) :: 'c pb_istream) PB_WT_STRING
      = Some (True, s'')"
    using s1(1) sk(1) by (simp add: pb_skip_field_def pb_skip_string_def wt_defs)
  ultimately show ?thesis using w by blast
qed

theorem string_written_skipped_witness:
  "\<exists>s' out s''. pb_encode_string (pb_ostream_from_buffer 16 16 :: unit pb_ostream) sample_mem (BufLocal [104, 105])
      (of_nat (length [104, 105 :: u8])) = Some (True, s') \<and> buffer_bytes s' = out \<and>
    pb_skip_field (pb_istream_from_buffer (out @ [8]) (of_nat (length (out @ [8]))) :: unit pb_istream) PB_WT_STRING
      = Some (True, s'') \<and> contents buf_tail s'' = [8]"
  by (rule string_written_skipped) simp_all

text \<open>C12: a substream brackets a length-delimited field.  \<open>pb_make_string_substream\<close> gives a stream
  with exactly the field's bytes, and however much of it is read, \<open>pb_close_string_substream\<close>
  continues the parent right behind the field.\<close>

theorem substream_bracket:
  assumes "length bs < 2 ^ 32" "length r < 2 ^ 63"
  shows "\<exists>sub s'. pb_make_string_substream (pb_istream_from_buffer (varint_bytes (length bs) @ bs @ r)
        (of_nat (length (varint_bytes (length bs) @ bs @ r))) :: 'c pb_istream) = Some (Some sub, s') \<and>
    contents buf_tail sub = bs \<and>
    (\<forall>j sub'. adv buf_ok buf_tail j sub sub' \<longrightarrow>
       (\<exists>s''. pb_close_string_substream s' sub' = Some (True, s'') \<and> contents buf_tail s'' = r))"
proof -
  note len = length_prefix [OF assms(1)]
  have "length (varint_bytes (length bs) @ (bs @ r)) < 2 ^ 64" using assms len by simp
  from varint32_length [OF assms(1) this] obtain s1 :: "'c pb_istream" where
    s1: "pb_decode_varint32 (pb_istream_from_buffer (varint_bytes (length bs) @ bs @ r)
        (of_nat (length (varint_bytes (length bs) @ bs @ r)))) = Some (Some (of_nat (length bs)), s1)"
    "stream_ok buf_ok buf_tail s1" "contents buf_tail s1 = bs @ r" by auto
  let ?n = "ucast (of_nat (length bs) :: u32) :: u64"
  have u: "unat ?n = length bs" using unat_of_nat_u32 [OF assms(1)] by simp
  have "length bs \<le> unat (bytes_left s1)" using contents_length [OF s1(2)] s1(3) by simp
  then have le: "?n \<le> bytes_left s1" by (simp only: word_le_nat_alt u)
  let ?sub = "s1\<lparr>bytes_left := ?n\<rparr>" and ?s' = "s1\<lparr>bytes_left := bytes_left s1 - ?n\<rparr>"
  have mk: "pb_make_string_substream (pb_istream_from_buffer (varint_bytes (length bs) @ bs @ r)
        (of_nat (length (varint_bytes (length bs) @ bs @ r))) :: 'c pb_istream) = Some (Some ?sub, ?s')"
    using s1(1) le by (simp add: pb_make_string_substream_def)
  have l: "lent buf_ok buf_tail ?n s1 ?sub ?s'" using s1(2) le by (simp add: lent_def)
  have "contents buf_tail ?sub = bs" using lent_ok(3) [OF l] s1(3) u by simp
  moreover have "\<exists>s''. pb_close_string_substream ?s' sub' = Some (True, s'') \<and> contents buf_tail s'' = r"
    if a: "adv buf_ok buf_tail j ?sub sub'" for j sub'
  proof -
    from buf.close_substream_ok [OF l a, of ?s' "[]"] obtain s'' where
      "pb_close_string_substream ?s' sub' = Some (True, s'')" "adv buf_ok buf_tail (unat ?n) s1 s''" by blast
    then show ?thesis using adv_rest [of buf_ok buf_tail "unat ?n" s1 s'' bs r] s1(3) u by blast
  qed
  ultimately show ?thesis using mk by blast
qed

theorem substream_bracket_witness:
  "\<exists>sub s'. pb_make_string_substream (pb_istream_from_buffer (varint_bytes (length [1, 2, 3 :: u8]) @ [1, 2, 3] @ [9])
        (of_nat (length (varint_bytes (length [1, 2, 3 :: u8]) @ [1, 2, 3] @ [9 :: u8]))) :: unit pb_istream) = Some (Some sub, s') \<and>
    contents buf_tail sub = [1, 2, 3] \<and>
    (\<forall>j sub'. adv buf_ok buf_tail j sub sub' \<longrightarrow>
       (\<exists>s''. pb_close_string_substream s' sub' = Some (True, s'') \<and> contents buf_tail s'' = [9]))"
  by (rule substream_bracket) simp_all

subsection \<open>Where the code departs from its format\<close>

context byte_source
begin

lemma varint32_loop_padding:
  "stream_ok src_ok tail s \<Longrightarrow> contents tail s = replicate n 0x80 @ r \<Longrightarrow>
   \<exists>s'. varint32_loop s bitpos acc = varint32_loop s' (bitpos + of_nat (7 * n)) acc \<and>
     stream_ok src_ok tail s' \<and> contents tail s' = r"
proof (induction n arbitrary: s bitpos)
  case 0
  then show ?case by auto
next
  case (Suc n)
  from Suc.prems(1) show ?case
  proof (cases rule: readbyte_cases)
    case eof
    with Suc.prems(2) show ?thesis by simp
  next
    case (byte b s')
    with Suc.prems(2) have b: "b = 0x80" and c: "contents tail s' = replicate n 0x80 @ r" by simp_all
    from Suc.IH [OF adv_ok [OF byte(2)] c, of "bitpos + 7"] obtain s'' where
      "varint32_loop s' (bitpos + 7) acc = varint32_loop s'' (bitpos + 7 + of_nat (7 * n)) acc"
      "stream_ok src_ok tail s''" "contents tail s'' = r" by blast
    moreover have "varint32_loop s bitpos acc = varint32_loop s' (bitpos + 7) acc"
      using byte(1) b by (subst varint32_loop.simps) simp
    ultimately show ?thesis by (intro exI [of _ s'']) (simp add: algebra_simps)
  qed
qed

lemma varint32_wraps:
  assumes "stream_ok src_ok tail s" "contents tail s = replicate 37 0x80 @ [0x01]"
  shows "\<exists>s'. pb_decode_varint32 s = Some (Some 8, s') \<and> contents tail s' = []"
  using assms(1)
proof (cases rule: readbyte_cases)
  case eof
  with assms(2) show ?thesis by simp
next
  case (byte b s1)
  have "replicate 37 (0x80 :: u8) = 0x80 # replicate 36 0x80" by (simp add: numeral_eq_Suc)
  with byte(3) assms(2) have b: "b = 0x80" and c: "contents tail s1 = replicate 36 0x80 @ [0x01]" by simp_all
  have wrap: "(259 :: u8) = 3" by simp
  from varint32_loop_padding [OF adv_ok [OF byte(2)] c, of 7 0] obtain s2 where
    s2: "varint32_loop s1 7 0 = varint32_loop s2 3 0" "stream_ok src_ok tail s2" "contents tail s2 = [0x01]"
    using wrap by auto
  from s2(2) obtain s3 where s3: "pb_readbyte s2 = Some (Some 0x01, s3)" "contents tail s3 = []"
    by (cases rule: readbyte_cases) (use s2(3) in auto)
  have "varint32_loop s2 3 0 = Some (Some (8, 10, 1), s3)"
    using s3(1) by (subst varint32_loop.simps) simp
  then show ?thesis using byte(1) b s2(1) s3(2) by (simp add: pb_decode_varint32_def pb_decode_varint32_eof_def)
qed

end

lemma padding_prefix: "varint_prefix n (replicate n 0x80 @ r) = None"
  by (induction n) simp_all

text \<open>\<open>pb_decode_varint32_eof\<close> does not bound the length of a varint.  Its bit position is a
  \<open>uint_fast8_t\<close>, which wraps at 256, so a 38-byte varint of padding groups, which a protobuf
  decoder has to reject (and \<open>pb_decode_varint\<close> does reject), is read as the value 8: the last group
  lands at bit \<open>259 mod 256 = 3\<close>.\<close>

theorem overlong_varint32_accepted:
  "(\<exists>s'. pb_decode_varint32 (pb_istream_from_buffer (replicate 37 0x80 @ [0x01]) 38) = Some (Some 8, s') \<and>
      contents buf_tail s' = []) \<and>
   (\<exists>s'. pb_decode_varint (pb_istream_from_buffer (replicate 37 0x80 @ [0x01]) 38) = Some (None, s') \<and>
      is_errmsg s' \<noteq> None)"
proof
  show "\<exists>s'. pb_decode_varint32 (pb_istream_from_buffer (replicate 37 0x80 @ [0x01]) 38) = Some (Some 8, s') \<and>
      contents buf_tail s' = []"
    by (rule buf.varint32_wraps) simp_all
  have "varint_prefix 10 (replicate 37 0x80 @ [0x01]) = None"
    using padding_prefix [of 10 "replicate 27 0x80 @ [0x01]"] by (simp flip: append_assoc replicate_add)
  then show "\<exists>s'. pb_decode_varint (pb_istream_from_buffer (replicate 37 0x80 @ [0x01]) 38) = Some (None, s') \<and>
      is_errmsg s' \<noteq> None"
    using buf.varint_spec [of "pb_istream_from_buffer (replicate 37 0x80 @ [0x01]) 38"] by auto
qed

end
