(* ===== verification/Base64.thy ===== *)
theory Base64
  imports Prelude
begin

text \<open>
  \<open>fbase64.c\<close> of the Firebase database pod (SocketRocket's base64): \<open>f_b64_ntop\<close> and
  \<open>f_b64_pton\<close>.  Text is kept as bytes.  The output array is a list, the object that \<open>target\<close>
  points to; a store past its end is undefined (\<open>None\<close>), and so is reading past the end of the
  input.  Both return -1 for an error.
\<close>

subsection \<open>The alphabet\<close>

definition Base64_alphabet :: "u8 list" where
  "Base64_alphabet = map of_nat ([65..<91] @ [97..<123] @ [48..<58] @ [43, 47])"

definition Pad64 :: u8 where "Pad64 = 61"

lemma length_alphabet [simp]: "length Base64_alphabet = 64"
  by (simp add: Base64_alphabet_def)

text \<open>\<open>strchr(Base64, ch)\<close> as a position, for \<open>ch\<close> other than the terminator.\<close>

primrec position :: "'a list \<Rightarrow> 'a \<Rightarrow> nat option" where
  "position [] x = None"
| "position (y # ys) x = (if x = y then Some 0 else map_option Suc (position ys x))"

text \<open>\<open>isspace\<close> in the C locale.  For a byte from 0x80 on the code passes a negative number where
  \<open>char\<close> is signed, for which the C standard defines no answer; the model answers no.\<close>

definition isspace :: "u8 \<Rightarrow> bool" where
  "isspace ch \<longleftrightarrow> ch \<in> {9, 10, 11, 12, 13, 32}"

definition put :: "u8 list \<Rightarrow> nat \<Rightarrow> u8 \<Rightarrow> u8 list option" where
  "put target i b = (if i < length target then Some (target[i := b]) else None)"

primrec put_all :: "u8 list \<Rightarrow> u64 \<Rightarrow> u8 list \<Rightarrow> (u64 \<times> u8 list) option" where
  "put_all target i [] = Some (i, target)"
| "put_all target i (b # bs) = do { t \<leftarrow> put target (unat i) b; put_all t (i + 1) bs }"

subsection \<open>Encoding\<close>

definition b64_out0 :: "u8 \<Rightarrow> u8" where
  "b64_out0 a = drop_bit 2 a"

definition b64_out1 :: "u8 \<Rightarrow> u8 \<Rightarrow> u8" where
  "b64_out1 a b = push_bit 4 (a AND 0x03) + drop_bit 4 b"

definition b64_out2 :: "u8 \<Rightarrow> u8 \<Rightarrow> u8" where
  "b64_out2 b c = push_bit 2 (b AND 0x0F) + drop_bit 6 c"

definition b64_out3 :: "u8 \<Rightarrow> u8" where
  "b64_out3 c = c AND 0x3F"

definition b64_digit :: "u8 \<Rightarrow> u8" where
  "b64_digit v = Base64_alphabet ! unat v"

text \<open>The main loop: whether it went through, the rest of the input, \<open>datalength\<close>, the array.\<close>

fun b64_ntop_loop :: "u8 list \<Rightarrow> u64 \<Rightarrow> u8 list \<Rightarrow> u64 \<Rightarrow> (bool \<times> u8 list \<times> u64 \<times> u8 list) option" where
  "b64_ntop_loop (a # b # c # src) targsize target datalength =
     (if targsize < datalength + 4 then Some (False, src, datalength, target)
      else do {
        (datalength', target') \<leftarrow> put_all target datalength
          [b64_digit (b64_out0 a), b64_digit (b64_out1 a b), b64_digit (b64_out2 b c),
           b64_digit (b64_out3 c)];
        b64_ntop_loop src targsize target' datalength' })"
| "b64_ntop_loop src targsize target datalength = Some (True, src, datalength, target)"

definition b64_ntop_tail :: "u8 list \<Rightarrow> u64 \<Rightarrow> u8 list \<Rightarrow> u64 \<Rightarrow> (bool \<times> u64 \<times> u8 list) option" where
  "b64_ntop_tail src targsize target datalength =
     (if src = [] then Some (True, datalength, target)
      else
        let a = src ! 0; b = (if length src = 2 then src ! 1 else 0) in
        if targsize < datalength + 4 then Some (False, datalength, target)
        else do {
          (datalength', target') \<leftarrow> put_all target datalength
            [b64_digit (b64_out0 a), b64_digit (b64_out1 a b),
             if length src = 1 then Pad64 else b64_digit (b64_out2 b 0), Pad64];
          Some (True, datalength', target') })"

definition f_b64_ntop :: "u8 list \<Rightarrow> u8 list \<Rightarrow> u64 \<Rightarrow> (int \<times> u8 list) option" where
  "f_b64_ntop src target targsize = do {
     (ok, rest, datalength, target1) \<leftarrow> b64_ntop_loop src targsize target 0;
     if \<not> ok then Some (- 1, target1)
     else do {
       (ok', datalength', target2) \<leftarrow> b64_ntop_tail rest targsize target1 datalength;
       if \<not> ok' then Some (- 1, target2)
       else if targsize \<le> datalength' then Some (- 1, target2)
       else do {
         target3 \<leftarrow> put target2 (unat datalength') 0;
         Some (sint (ucast datalength' :: u32), target3) } } }"

subsection \<open>Decoding\<close>

text \<open>One base64 digit, by the state of the decoder: the array is \<open>None\<close> for a null \<open>target\<close>.
  The result is \<open>None\<close> inside for -1.\<close>

definition b64_store :: "u8 list option \<Rightarrow> u32 \<Rightarrow> u64 \<Rightarrow> bool \<Rightarrow> (u8 \<Rightarrow> u8) \<Rightarrow> u8 option \<Rightarrow>
    u8 list option option option" where
  "b64_store target tarindex targsize two update nxt =
     (case target of
        None \<Rightarrow> Some (Some None)
      | Some t \<Rightarrow>
          if targsize \<le> ucast (if two then tarindex + 1 else tarindex) then Some None
          else do {
            old \<leftarrow> nth_opt t (unat tarindex);
            t1 \<leftarrow> put t (unat tarindex) (update old);
            t2 \<leftarrow> (case nxt of None \<Rightarrow> Some t1 | Some b \<Rightarrow> put t1 (unat (tarindex + 1)) b);
            Some (Some (Some t2)) })"

definition b64_digit_step :: "u8 \<Rightarrow> nat \<Rightarrow> u32 \<Rightarrow> u8 list option \<Rightarrow> u64 \<Rightarrow>
    (nat \<times> u32 \<times> u8 list option) option option" where
  "b64_digit_step v st tarindex target targsize =
     (if st = 0 then do {
        r \<leftarrow> b64_store target tarindex targsize False (\<lambda>_. push_bit 2 v) None;
        Some (map_option (\<lambda>t. (1, tarindex, t)) r) }
      else if st = 1 then do {
        r \<leftarrow> b64_store target tarindex targsize True (\<lambda>old. old OR drop_bit 4 v)
               (Some (push_bit 4 (v AND 0x0F)));
        Some (map_option (\<lambda>t. (2, tarindex + 1, t)) r) }
      else if st = 2 then do {
        r \<leftarrow> b64_store target tarindex targsize True (\<lambda>old. old OR drop_bit 2 v)
               (Some (push_bit 6 (v AND 0x03)));
        Some (map_option (\<lambda>t. (3, tarindex + 1, t)) r) }
      else do {
        r \<leftarrow> b64_store target tarindex targsize False (\<lambda>old. old OR v) None;
        Some (map_option (\<lambda>t. (0, tarindex + 1, t)) r) })"

text \<open>The main loop, up to a pad character or the terminator: that character, the input after
  it, and the decoder's variables; \<open>None\<close> inside for -1.\<close>

primrec b64_pton_loop :: "u8 list \<Rightarrow> nat \<Rightarrow> u32 \<Rightarrow> u8 list option \<Rightarrow> u64 \<Rightarrow>
    (u8 \<times> u8 list \<times> nat \<times> u32 \<times> u8 list option) option option" where
  "b64_pton_loop [] st tarindex target targsize = None"
| "b64_pton_loop (ch # src) st tarindex target targsize =
     (if ch = 0 then Some (Some (ch, src, st, tarindex, target))
      else if isspace ch then b64_pton_loop src st tarindex target targsize
      else if ch = Pad64 then Some (Some (ch, src, st, tarindex, target))
      else case position Base64_alphabet ch of
          None \<Rightarrow> Some None
        | Some p \<Rightarrow> do {
            r \<leftarrow> b64_digit_step (of_nat p) st tarindex target targsize;
            case r of
              None \<Rightarrow> Some None
            | Some (st', tarindex', target') \<Rightarrow>
                b64_pton_loop src st' tarindex' target' targsize })"

text \<open>\<open>for (; ch != 0; ch = *src++) if (!isspace(ch)) break;\<close>: the character it stops at and
  the input after it.\<close>

primrec skip_spaces :: "u8 list \<Rightarrow> (u8 \<times> u8 list) option" where
  "skip_spaces [] = None"
| "skip_spaces (ch # src) =
     (if ch \<noteq> 0 \<and> isspace ch then skip_spaces src else Some (ch, src))"

text \<open>What follows the first pad character: whether it is well formed.\<close>

definition b64_trailer :: "u8 list \<Rightarrow> nat \<Rightarrow> bool option" where
  "b64_trailer src st =
     (if st = 0 \<or> st = 1 then (if src = [] then None else Some False)
      else do {
        (ok, src') \<leftarrow> (if st = 2 then do {
                        (ch, rest) \<leftarrow> skip_spaces src;
                        Some (ch = Pad64, rest) }
                      else Some (True, src));
        if \<not> ok then Some False
        else do { (ch, _) \<leftarrow> skip_spaces src'; Some (ch = 0) } })"

definition f_b64_pton :: "u8 list \<Rightarrow> u8 list option \<Rightarrow> u64 \<Rightarrow> (int \<times> u8 list option) option" where
  "f_b64_pton src target targsize = do {
     r \<leftarrow> b64_pton_loop src 0 0 target targsize;
     case r of
       None \<Rightarrow> Some (- 1, target)
     | Some (ch, rest, st, tarindex, target') \<Rightarrow>
         if ch = Pad64 then do {
           ok \<leftarrow> b64_trailer rest st;
           if \<not> ok then Some (- 1, target')
           else do {
             clean \<leftarrow> (case target' of None \<Rightarrow> Some True
                       | Some t \<Rightarrow> map_option (\<lambda>b. b = 0) (nth_opt t (unat tarindex)));
             Some (if clean then sint tarindex else - 1, target') } }
         else if st \<noteq> 0 then Some (- 1, target')
         else Some (sint tarindex, target') }"

end
