(* ===== verification/Base64Ok.thy ===== *)
theory Base64Ok
  imports Base64
begin

text \<open>
  Correctness of \<open>fbase64.c\<close>.  \<open>b64_chars\<close> is the reference encoder.  \<open>b64_ntop_result\<close>: the
  encoder writes exactly those characters and a terminator when they fit, and returns -1
  otherwise, never leaving the array.  \<open>b64_pton_accepts\<close>: the decoder never leaves its input
  or its array, and what it accepts is, up to white space, the reference encoding of what it
  returns, so there is one accepted text per value.  \<open>b64_pton_round\<close>: it accepts every encoding.
\<close>

subsection \<open>The reference\<close>

fun b64_chars :: "u8 list \<Rightarrow> u8 list" where
  "b64_chars (a # b # c # xs) =
     [b64_digit (b64_out0 a), b64_digit (b64_out1 a b), b64_digit (b64_out2 b c),
      b64_digit (b64_out3 c)] @ b64_chars xs"
| "b64_chars [a, b] =
     [b64_digit (b64_out0 a), b64_digit (b64_out1 a b), b64_digit (b64_out2 b 0), Pad64]"
| "b64_chars [a] = [b64_digit (b64_out0 a), b64_digit (b64_out1 a 0), Pad64, Pad64]"
| "b64_chars [] = []"

lemma length_b64_chars: "length (b64_chars xs) = 4 * ((length xs + 2) div 3)"
proof (induction xs rule: b64_chars.induct)
  case (1 a b c xs)
  have "(length xs + 5) div 3 = (length xs + 2) div 3 + 1" by presburger
  then show ?case using 1 by (simp add: add.commute)
qed auto

lemma put_all_append:
  assumes "unat i = length p" "length bs \<le> length q" "length (p @ q) < 2 ^ 63"
  shows "put_all (p @ q) i bs = Some (i + of_nat (length bs), p @ bs @ drop (length bs) q)"
  using assms
proof (induction bs arbitrary: p q i)
  case (Cons b bs)
  obtain x q' where q: "q = x # q'" using Cons.prems(2) by (cases q) auto
  have i: "unat (i + 1) = length (p @ [b])"
    using Cons.prems(1,3) by (simp add: q unat_word_ariths)
  have "put_all ((p @ [b]) @ q') (i + 1) bs
      = Some (i + 1 + of_nat (length bs), (p @ [b]) @ bs @ drop (length bs) q')"
    by (rule Cons.IH [OF i]) (use Cons.prems q in auto)
  then show ?case
    using Cons.prems(1) by (simp add: put_def q list_update_append algebra_simps)
qed simp

definition b64_finish :: "u64 \<Rightarrow> bool \<times> u8 list \<times> u64 \<times> u8 list \<Rightarrow> (int \<times> u8 list) option" where
  "b64_finish targsize = (\<lambda>(ok, rest, datalength, target1).
     if \<not> ok then Some (- 1, target1)
     else do {
       (ok', datalength', target2) \<leftarrow> b64_ntop_tail rest targsize target1 datalength;
       if \<not> ok' then Some (- 1, target2)
       else if targsize \<le> datalength' then Some (- 1, target2)
       else do {
         target3 \<leftarrow> put target2 (unat datalength') 0;
         Some (sint (ucast datalength' :: u32), target3) } })"

lemma f_b64_ntop_finish:
  "f_b64_ntop src target targsize = b64_ntop_loop src targsize target 0 \<bind> b64_finish targsize"
  by (simp add: f_b64_ntop_def b64_finish_def)

text \<open>The result of encoding \<open>src\<close> behind \<open>p\<close>.\<close>

definition b64_written :: "u8 list \<Rightarrow> u8 list \<Rightarrow> u8 list \<Rightarrow> nat \<Rightarrow> (int \<times> u8 list) option \<Rightarrow> bool" where
  "b64_written p q out n r \<longleftrightarrow>
     (if length p + length out < n
      then r = Some (sint (of_nat (length p + length out) :: u32),
                     p @ out @ 0 # drop (length out + 1) q)
      else \<exists>t. r = Some (- 1, t) \<and> length t = length p + length q)"

lemma b64_written_append:
  assumes "b64_written (p @ g) (drop (length g) q) out n r" "length g \<le> length q"
  shows "b64_written p q (g @ out) n r"
  using assms by (auto simp: b64_written_def add_ac split: if_splits)

lemma unat_add_small:
  fixes i :: u64
  shows "unat i + k < 2 ^ 64 \<Longrightarrow> unat (i + of_nat k) = unat i + k"
  by (simp add: unat_word_ariths unsigned_of_nat take_bit_eq_mod)

lemma b64_room:
  fixes i :: u64
  assumes "unat i < 2 ^ 63"
  shows "targsize < i + 4 \<longleftrightarrow> unat targsize < unat i + 4"
  using unat_add_small [of i 4] assms by (simp add: word_less_nat_alt)

lemma ucast_length:
  fixes i :: u64
  assumes "unat i = n"
  shows "(ucast i :: u32) = of_nat n"
  using assms by (metis of_nat_unat ucast_id)

lemma b64_finish_full:
  assumes i: "unat i = length p" and L: "length (p @ q) < 2 ^ 63"
    and size: "unat targsize \<le> length (p @ q)"
  shows "b64_written p q [] (unat targsize) (b64_finish targsize (True, [], i, p @ q))"
proof (cases "length p < unat targsize")
  case True
  then obtain x q' where q: "q = x # q'" using size by (cases q) auto
  show ?thesis
    using True i by (simp add: b64_finish_def b64_written_def b64_ntop_tail_def word_le_nat_alt put_def
        q list_update_append ucast_length)
next
  case False
  then show ?thesis
    using i by (simp add: b64_finish_def b64_written_def b64_ntop_tail_def word_le_nat_alt)
qed

lemma b64_finish_tail:
  assumes src: "src \<noteq> []" "length src \<le> 2" and i: "unat i = length p"
    and L: "length (p @ q) < 2 ^ 63" and size: "unat targsize \<le> length (p @ q)"
  shows "b64_written p q (b64_chars src) (unat targsize) (b64_finish targsize (True, src, i, p @ q))"
proof -
  have len: "length (b64_chars src) = 4" using src by (cases src rule: b64_chars.cases) auto
  show ?thesis
  proof (cases "unat targsize < length p + 4")
  case True
  then show ?thesis
    using src(1) i L b64_room [of i targsize]
    by (simp add: b64_finish_def b64_written_def b64_ntop_tail_def len Let_def)
next
  case False
  have p4: "put_all (p @ q) i (b64_chars src) = Some (i + 4, (p @ b64_chars src) @ drop 4 q)"
    using put_all_append [OF i, of "b64_chars src" q] len False size L by simp
  have tail: "b64_ntop_tail src targsize (p @ q) i
      = Some (True, i + 4, (p @ b64_chars src) @ drop 4 q)"
    using src p4 False i L b64_room [of i targsize]
    by (cases src rule: b64_chars.cases) (simp_all add: b64_ntop_tail_def Let_def del: put_all.simps)
  have "b64_written (p @ b64_chars src) (drop 4 q) [] (unat targsize)
      (b64_finish targsize (True, [], i + 4, (p @ b64_chars src) @ drop 4 q))"
  proof (rule b64_finish_full)
    show "unat (i + 4) = length (p @ b64_chars src)"
      using unat_add_small [of i 4] i L len by simp
  qed (use False L size len in auto)
  moreover have "b64_finish targsize (True, [], i + 4, (p @ b64_chars src) @ drop 4 q)
      = b64_finish targsize (True, src, i, p @ q)"
    using src(1) by (simp add: b64_finish_def tail b64_ntop_tail_def [of "[]"])
  ultimately show ?thesis
    using b64_written_append [of p "b64_chars src" q "[]"] False size by (simp add: len)
  qed
qed

lemma b64_ntop_written:
  assumes "unat i = length p" "length (p @ q) < 2 ^ 63" "unat targsize \<le> length (p @ q)"
  shows "b64_written p q (b64_chars src) (unat targsize)
    (b64_ntop_loop src targsize (p @ q) i \<bind> b64_finish targsize)"
  using assms
proof (induction src arbitrary: p q i rule: b64_chars.induct)
  case (1 a b c xs)
  let ?g = "[b64_digit (b64_out0 a), b64_digit (b64_out1 a b), b64_digit (b64_out2 b c),
      b64_digit (b64_out3 c)]"
  show ?case
  proof (cases "unat targsize < length p + 4")
    case True
    then show ?thesis
      using 1(2,3) b64_room [of i targsize] by (simp add: b64_written_def b64_finish_def)
  next
    case False
    have "b64_written (p @ ?g) (drop 4 q) (b64_chars xs) (unat targsize)
        (b64_ntop_loop xs targsize ((p @ ?g) @ drop 4 q) (i + 4) \<bind> b64_finish targsize)"
    proof (rule 1(1))
      show "unat (i + 4) = length (p @ ?g)" using unat_add_small [of i 4] 1(2,3) by simp
    qed (use False 1(3,4) in auto)
    moreover have four: "length ?g = 4" by simp
    have "put_all (p @ q) i ?g = Some (i + of_nat (length ?g), p @ ?g @ drop (length ?g) q)"
      by (rule put_all_append) (use False 1(2-4) in auto)
    then have "put_all (p @ q) i ?g = Some (i + 4, (p @ ?g) @ drop 4 q)"
      by (simp only: four of_nat_numeral append_assoc)
    ultimately have "b64_written (p @ ?g) (drop (length ?g) q) (b64_chars xs) (unat targsize)
        (b64_ntop_loop (a # b # c # xs) targsize (p @ q) i \<bind> b64_finish targsize)"
      using False 1(2-4) b64_room [of i targsize] by (simp only: four) (simp del: put_all.simps)
    then show ?thesis
      using b64_written_append [of p ?g q "b64_chars xs"] False 1(4) by simp
  qed
qed (use b64_finish_tail [of "[_, _]"] b64_finish_tail [of "[_]"] b64_finish_full in \<open>simp_all\<close>)

lemma b64_ntop_result:
  assumes "unat targsize \<le> length target" "length target < 2 ^ 63"
  shows "b64_written [] target (b64_chars src) (unat targsize) (f_b64_ntop src target targsize)"
  using b64_ntop_written [of 0 "[]" target targsize src] assms by (simp add: f_b64_ntop_finish)

subsection \<open>Digits and bits\<close>

lemma position_nth:
  "distinct xs \<Longrightarrow> i < length xs \<Longrightarrow> position xs (xs ! i) = Some i"
  by (induction xs arbitrary: i) (auto simp: nth_Cons split: nat.splits)

lemma position_Some:
  "position xs x = Some p \<Longrightarrow> p < length xs \<and> xs ! p = x"
  by (induction xs arbitrary: p) (auto split: if_splits)

lemma distinct_alphabet: "distinct Base64_alphabet"
proof -
  have "inj_on (of_nat :: nat \<Rightarrow> u8) {..<256}"
    by (rule inj_onI) (auto simp: word_unat_eq_iff unsigned_of_nat take_bit_eq_mod)
  then have "inj_on (of_nat :: nat \<Rightarrow> u8) (set ([65..<91] @ [97..<123] @ [48..<58] @ [43, 47]))"
    by (rule inj_on_subset) auto
  moreover have "distinct ([65..<91::nat] @ [97..<123] @ [48..<58] @ [43, 47])"
    by (auto simp del: upt_rec_numeral)
  ultimately show ?thesis unfolding Base64_alphabet_def distinct_map by blast
qed

lemma alphabet_plain:
  assumes "x \<in> set Base64_alphabet"
  shows "x \<noteq> 0" "x \<noteq> Pad64" "\<not> isspace x"
proof -
  have "unat x \<in> set ([65..<91] @ [97..<123] @ [48..<58] @ [43, 47])"
    using assms unfolding Base64_alphabet_def
    by (auto simp: unsigned_of_nat take_bit_eq_mod simp del: upt_rec_numeral)
  then show "x \<noteq> 0" "x \<noteq> Pad64" "\<not> isspace x"
    by (auto simp: Pad64_def isspace_def simp del: upt_rec_numeral)
qed

lemma digit_plain:
  assumes "unat v < 64"
  shows "b64_digit v \<noteq> 0" "b64_digit v \<noteq> Pad64" "\<not> isspace (b64_digit v)"
  using alphabet_plain [of "b64_digit v"] nth_mem [of "unat v" Base64_alphabet] assms
  by (auto simp: b64_digit_def)

lemma digit_position:
  "unat v < 64 \<Longrightarrow> position Base64_alphabet (b64_digit v) = Some (unat v)"
  by (simp add: b64_digit_def position_nth distinct_alphabet)

lemma position_digit:
  assumes "position Base64_alphabet ch = Some p"
  shows "p < 64" "ch = b64_digit (of_nat p)" "unat (of_nat p :: u8) = p"
  using position_Some [OF assms] by (auto simp: b64_digit_def unsigned_of_nat take_bit_eq_mod)

lemma lt64_mask: "unat (v :: u8) < 64 \<longleftrightarrow> v AND mask 6 = v"
proof -
  have "v AND mask 6 = v \<longleftrightarrow> unat v mod 64 = unat v"
    unfolding word_unat_eq_iff take_bit_eq_mask [symmetric]
    by (simp only: unsigned_take_bit_eq) (simp add: take_bit_eq_mod)
  also have "\<dots> \<longleftrightarrow> unat v < 64" using mod_less_divisor [of 64 "unat v"] by auto
  finally show ?thesis by simp
qed

lemma byte_eqI:
  fixes a b :: u8
  assumes "bit a 0 = bit b 0" "bit a 1 = bit b 1" "bit a 2 = bit b 2" "bit a 3 = bit b 3"
    "bit a 4 = bit b 4" "bit a 5 = bit b 5" "bit a 6 = bit b 6" "bit a 7 = bit b 7"
  shows "a = b"
proof (rule bit_word_eqI)
  fix n assume "n < LENGTH(8)"
  then have "n \<in> {0, 1, 2, 3, 4, 5, 6, 7}" by auto
  then show "bit a n = bit b n" using assms by blast
qed

lemma masks: "(0x03 :: u8) = mask 2" "(0x0F :: u8) = mask 4" "(0x3F :: u8) = mask 6"
  by (simp_all add: mask_eq_exp_minus_1)

lemmas b64_bits = masks bit_or_iff bit_and_iff bit_mask_iff bit_push_bit_iff bit_drop_bit_eq o_apply

lemma out1_or: "b64_out1 a b = push_bit 4 (a AND 0x03) OR drop_bit 4 b"
  unfolding b64_out1_def
  by (rule disjunctive_add) (auto simp: b64_bits dest: bit_imp_le_length)

lemma out2_or: "b64_out2 b c = push_bit 2 (b AND 0x0F) OR drop_bit 6 c"
  unfolding b64_out2_def
  by (rule disjunctive_add) (auto simp: b64_bits dest: bit_imp_le_length)

lemmas b64_outs = b64_out0_def out1_or out2_or b64_out3_def

lemma bit_8: "8 \<le> n \<Longrightarrow> \<not> bit (v :: u8) n"
  by (auto dest: bit_imp_le_length)

lemma out_small:
  "unat (b64_out0 a) < 64" "unat (b64_out1 a b) < 64" "unat (b64_out2 b c) < 64"
  "unat (b64_out3 c) < 64"
  unfolding lt64_mask b64_outs by (rule byte_eqI; simp add: b64_bits bit_8)+

lemma byte0: "push_bit 2 (b64_out0 a) OR drop_bit 4 (b64_out1 a b) = a"
  unfolding b64_outs by (rule byte_eqI; simp add: b64_bits bit_8)

lemma byte1: "push_bit 4 (b64_out1 a b AND 0x0F) OR drop_bit 2 (b64_out2 b c) = b"
  unfolding b64_outs by (rule byte_eqI; simp add: b64_bits bit_8)

lemma byte2: "push_bit 6 (b64_out2 b c AND 0x03) OR b64_out3 c = c"
  unfolding b64_outs by (rule byte_eqI; simp add: b64_bits bit_8)

lemma lt64_bits:
  assumes "unat (v :: u8) < 64" shows "\<not> bit v 6 \<and> \<not> bit v 7"
proof -
  have "bit v n \<Longrightarrow> n < 6" for n
    using arg_cong [OF assms [unfolded lt64_mask], of "\<lambda>w. bit w n"]
    by (simp add: bit_and_iff bit_mask_iff)
  from this [of 6] this [of 7] show ?thesis by auto
qed

lemma out_bytes:
  assumes "unat v < 64" "unat w < 64" "unat x < 64" "unat y < 64"
  shows "b64_out0 (push_bit 2 v OR drop_bit 4 w) = v"
    and "b64_out1 (push_bit 2 v OR drop_bit 4 w) (push_bit 4 (w AND 0x0F) OR drop_bit 2 x) = w"
    and "b64_out2 (push_bit 4 (w AND 0x0F) OR drop_bit 2 x) (push_bit 6 (x AND 0x03) OR y) = x"
    and "b64_out3 (push_bit 6 (x AND 0x03) OR y) = y"
  unfolding b64_outs using assms [THEN lt64_bits]
  by (auto intro!: byte_eqI simp: b64_bits bit_8)

subsection \<open>Decoding\<close>

lemma b64_chars_append:
  "length g mod 3 = 0 \<Longrightarrow> b64_chars (g @ h) = b64_chars g @ b64_chars h"
  by (induction g rule: b64_chars.induct) auto

text \<open>The state of the decoder after the digits \<open>done\<close>: whole groups of three bytes, then the
  bytes that the digits of the open group have given, the last of them not complete.\<close>

inductive b64_inv :: "nat \<Rightarrow> u32 \<Rightarrow> u8 list \<Rightarrow> u8 list \<Rightarrow> bool" where
  inv0: "length g mod 3 = 0 \<Longrightarrow> unat idx = length g \<Longrightarrow> b64_inv 0 idx (g @ r) (b64_chars g)"
| inv1: "length g mod 3 = 0 \<Longrightarrow> unat idx = length g \<Longrightarrow> unat v < 64 \<Longrightarrow>
    b64_inv 1 idx (g @ push_bit 2 v # r) (b64_chars g @ [b64_digit v])"
| inv2: "length g mod 3 = 0 \<Longrightarrow> unat idx = length g + 1 \<Longrightarrow> unat v < 64 \<Longrightarrow> unat w < 64 \<Longrightarrow>
    b64_inv 2 idx (g @ (push_bit 2 v OR drop_bit 4 w) # push_bit 4 (w AND 0x0F) # r)
      (b64_chars g @ [b64_digit v, b64_digit w])"
| inv3: "length g mod 3 = 0 \<Longrightarrow> unat idx = length g + 2 \<Longrightarrow> unat v < 64 \<Longrightarrow> unat w < 64 \<Longrightarrow>
    unat x < 64 \<Longrightarrow>
    b64_inv 3 idx (g @ (push_bit 2 v OR drop_bit 4 w) # (push_bit 4 (w AND 0x0F) OR drop_bit 2 x)
        # push_bit 6 (x AND 0x03) # r)
      (b64_chars g @ [b64_digit v, b64_digit w, b64_digit x])"

lemma nth_opt_at [simp]:
  "nth_opt (g @ x # r) (length g) = Some x"
  "nth_opt (g @ y # x # r) (Suc (length g)) = Some x"
  "nth_opt (g @ z # y # x # r) (Suc (Suc (length g))) = Some x"
  by (simp_all add: nth_opt_def nth_append)

lemma put_at [simp]:
  "put (g @ x # r) (length g) b = Some (g @ b # r)"
  "put (g @ y # x # r) (Suc (length g)) b = Some (g @ y # b # r)"
  "put (g @ z # y # x # r) (Suc (Suc (length g))) b = Some (g @ z # y # b # r)"
  by (simp_all add: put_def list_update_append)

lemma b64_next:
  assumes "unat (idx :: u32) < 2 ^ 31"
  shows "unat (idx + 1) = Suc (unat idx)"
  using assms by (simp add: unat_word_ariths)

definition b64_kept :: "nat \<Rightarrow> u8 list \<Rightarrow> (nat \<times> u32 \<times> u8 list option) option option \<Rightarrow> bool" where
  "b64_kept n out r \<longleftrightarrow>
     r = Some None \<or>
     (\<exists>st idx t. r = Some (Some (st, idx, Some t)) \<and> b64_inv st idx t out \<and> length t = n)"

lemma b64_step_kept:
  assumes inv: "b64_inv st idx t out" and v: "unat y < 64"
    and L: "length t < 2 ^ 31" and size: "unat targsize \<le> length t"
  shows "b64_kept (length t) (out @ [b64_digit y]) (b64_digit_step y st idx (Some t) targsize)"
  using inv
proof cases
  case (inv0 g r)
  show ?thesis
  proof (cases "targsize \<le> ucast idx")
    case False
    then obtain a r' where r: "r = a # r'" using inv0 size by (cases r) (auto simp: word_le_nat_alt)
    show ?thesis
      using False inv0 b64_inv.inv1 [of g idx y r'] v
      by (auto simp: b64_kept_def b64_digit_step_def b64_store_def r)
  qed (use inv0 in \<open>auto simp: b64_kept_def b64_digit_step_def b64_store_def\<close>)
next
  case (inv1 g v r)
  have n: "unat (idx + 1) = Suc (length g)" using inv1 L b64_next [of idx] by simp
  show ?thesis
  proof (cases "targsize \<le> ucast (idx + 1)")
    case False
    then obtain b r' where r: "r = b # r'"
      using inv1 size n by (cases r) (auto simp: word_le_nat_alt)
    show ?thesis
      using False inv1 b64_inv.inv2 [of g "idx + 1" v y r'] v n
      by (auto simp: b64_kept_def b64_digit_step_def b64_store_def r)
  qed (use inv1 in \<open>auto simp: b64_kept_def b64_digit_step_def b64_store_def\<close>)
next
  case (inv2 g v w r)
  have n: "unat (idx + 1) = Suc (Suc (length g))" using inv2 L b64_next [of idx] by simp
  show ?thesis
  proof (cases "targsize \<le> ucast (idx + 1)")
    case False
    then obtain b r' where r: "r = b # r'"
      using inv2 size n by (cases r) (auto simp: word_le_nat_alt)
    show ?thesis
      using False inv2 b64_inv.inv3 [of g "idx + 1" v w y r'] v n
      by (auto simp: b64_kept_def b64_digit_step_def b64_store_def r)
  qed (use inv2 in \<open>auto simp: b64_kept_def b64_digit_step_def b64_store_def\<close>)
next
  case (inv3 g v w x r)
  have n: "unat (idx + 1) = length g + 3" using inv3 L b64_next [of idx] by simp
  let ?g = "g @ [push_bit 2 v OR drop_bit 4 w, push_bit 4 (w AND 0x0F) OR drop_bit 2 x,
      push_bit 6 (x AND 0x03) OR y]"
  have c: "b64_chars ?g = b64_chars g @ [b64_digit v, b64_digit w, b64_digit x, b64_digit y]"
    unfolding b64_chars_append [OF inv3(4)] b64_chars.simps out_bytes [OF inv3(6-8) v] by simp
  have "b64_inv 0 (idx + 1) (?g @ r) (b64_chars ?g)"
    by (rule b64_inv.inv0) (use inv3 n in \<open>auto simp: mod_Suc\<close>)
  then have "b64_inv 0 (idx + 1) (?g @ r) (out @ [b64_digit y])"
    unfolding c using inv3 by simp
  then show ?thesis
    using inv3 by (auto simp: b64_kept_def b64_digit_step_def b64_store_def)
qed

definition plain_text :: "u8 list \<Rightarrow> u8 list" where
  "plain_text = filter (\<lambda>ch. \<not> isspace ch)"

definition b64_text :: "u8 list \<Rightarrow> u8 list" where
  "b64_text src = plain_text (takeWhile (\<lambda>ch. ch \<noteq> 0) src)"

lemma b64_text_simps [simp]:
  "b64_text [] = []"
  "b64_text (ch # src) =
     (if ch = 0 then [] else if isspace ch then b64_text src else ch # b64_text src)"
  by (simp_all add: b64_text_def plain_text_def)

definition b64_scanned :: "nat \<Rightarrow> u8 list \<Rightarrow>
    (u8 \<times> u8 list \<times> nat \<times> u32 \<times> u8 list option) option option \<Rightarrow> bool" where
  "b64_scanned n out r \<longleftrightarrow>
     r = Some None \<or>
     (\<exists>ch rest st idx t used. r = Some (Some (ch, rest, st, idx, Some t)) \<and> length t = n \<and>
        b64_inv st idx t used \<and>
        (ch = 0 \<and> out = used \<or> ch = Pad64 \<and> 0 \<in> set rest \<and> out = used @ Pad64 # b64_text rest))"

lemma Pad64_plain: "Pad64 \<noteq> 0" "\<not> isspace Pad64"
  by (auto simp: Pad64_def isspace_def)

lemma b64_loop_scanned:
  assumes "0 \<in> set src" "b64_inv st idx t out" "length t < 2 ^ 31" "unat targsize \<le> length t"
  shows "b64_scanned (length t) (out @ b64_text src) (b64_pton_loop src st idx (Some t) targsize)"
  using assms
proof (induction src arbitrary: st idx t out)
  case (Cons ch src)
  show ?case
  proof (cases "ch = 0 \<or> isspace ch \<or> ch = Pad64")
    case True
    then show ?thesis
      using Cons Pad64_plain by (auto simp: b64_scanned_def)
  next
    case digit: False
    show ?thesis
    proof (cases "position Base64_alphabet ch")
      case None
      then show ?thesis using digit by (simp add: b64_scanned_def)
    next
      case (Some p)
      note p = position_digit [OF Some]
      have "b64_kept (length t) (out @ [ch])
          (b64_digit_step (of_nat p) st idx (Some t) targsize)"
        unfolding p(2) by (rule b64_step_kept [OF Cons.prems(2)]) (use p Cons.prems in auto)
      then consider "b64_digit_step (of_nat p) st idx (Some t) targsize = Some None"
        | st' idx' t' where
          "b64_digit_step (of_nat p) st idx (Some t) targsize = Some (Some (st', idx', Some t'))"
          "b64_inv st' idx' t' (out @ [ch])" "length t' = length t"
        unfolding b64_kept_def by blast
      then show ?thesis
      proof cases
        case 1
        then show ?thesis using digit Some by (simp add: b64_scanned_def)
      next
        case 2
        then show ?thesis
          using Cons.IH [OF _ 2(2)] Cons.prems digit Some by simp
      qed
    qed
  qed
qed simp

lemma skip_spaces_text:
  assumes "0 \<in> set src"
  shows "\<exists>ch rest. skip_spaces src = Some (ch, rest) \<and>
    (ch = 0 \<and> b64_text src = [] \<or>
     ch \<noteq> 0 \<and> \<not> isspace ch \<and> 0 \<in> set rest \<and> b64_text src = ch # b64_text rest)"
  using assms by (induction src) auto

lemma b64_trailer_text:
  assumes "0 \<in> set src"
  shows "b64_trailer src st =
    Some (st \<noteq> 0 \<and> st \<noteq> 1 \<and> b64_text src = (if st = 2 then [Pad64] else []))"
proof -
  obtain ch rest where 1: "skip_spaces src = Some (ch, rest)"
    "ch = 0 \<and> b64_text src = [] \<or>
     ch \<noteq> 0 \<and> \<not> isspace ch \<and> 0 \<in> set rest \<and> b64_text src = ch # b64_text rest"
    using skip_spaces_text [OF assms] by blast
  have src: "src \<noteq> []" using assms by auto
  show ?thesis
  proof (cases "st = 2 \<and> ch = Pad64")
    case True
    then have "0 \<in> set rest" using 1 Pad64_plain by auto
    then obtain ch' rest' where "skip_spaces rest = Some (ch', rest')"
      "ch' = 0 \<and> b64_text rest = [] \<or>
       ch' \<noteq> 0 \<and> \<not> isspace ch' \<and> 0 \<in> set rest' \<and> b64_text rest = ch' # b64_text rest'"
      using skip_spaces_text by blast
    then show ?thesis using True 1 Pad64_plain by (auto simp: b64_trailer_def)
  next
    case False
    then show ?thesis using 1 src Pad64_plain by (auto simp: b64_trailer_def)
  qed
qed

lemma sint_small:
  assumes "unat (i :: u32) < 2 ^ 31"
  shows "sint i = int (unat i)"
proof -
  have "signed_take_bit 31 (int n) = int n" if "n < 2 ^ 31" for n
    by (rule signed_take_bit_int_eq_self) (use that in \<open>simp_all add: of_nat_less_iff [of n "2147483648", simplified]\<close>)
  from this [OF assms] show ?thesis by (simp only: sint_uint) simp
qed

lemma b64_closed1:
  assumes "unat v < 64" "unat w < 64" "push_bit 4 (w AND 0x0F) = 0"
  shows "b64_chars [push_bit 2 v OR drop_bit 4 w] = [b64_digit v, b64_digit w, Pad64, Pad64]"
  using out_bytes(1,2) [of v w 0 0] assms(1,2) by (simp only: assms(3)) simp

lemma b64_closed2:
  assumes "unat v < 64" "unat w < 64" "unat x < 64" "push_bit 6 (x AND 0x03) = 0"
  shows "b64_chars [push_bit 2 v OR drop_bit 4 w, push_bit 4 (w AND 0x0F) OR drop_bit 2 x]
    = [b64_digit v, b64_digit w, b64_digit x, Pad64]"
  using out_bytes(1,2,3) [of v w x 0] assms(1,2,3) by (simp only: assms(4)) simp

definition b64_accepts :: "u8 list \<Rightarrow> u8 list \<Rightarrow> int \<Rightarrow> bool" where
  "b64_accepts src t v \<longleftrightarrow>
     v = - 1 \<or> 0 \<le> v \<and> v \<le> int (length t) \<and> b64_text src = b64_chars (take (nat v) t)"

lemma b64_pton_accepts:
  assumes z: "0 \<in> set src" and L: "length target < 2 ^ 31" and size: "unat targsize \<le> length target"
  shows "\<exists>v t. f_b64_pton src (Some target) targsize = Some (v, Some t) \<and>
    length t = length target \<and> b64_accepts src t v"
proof -
  have "b64_scanned (length target) (b64_text src) (b64_pton_loop src 0 0 (Some target) targsize)"
    using b64_loop_scanned [OF z _ L size, of 0 0 "[]"] b64_inv.inv0 [of "[]" 0 target] by simp
  then consider (fail) "b64_pton_loop src 0 0 (Some target) targsize = Some None"
    | (stop) ch rest st idx t used where
      "b64_pton_loop src 0 0 (Some target) targsize = Some (Some (ch, rest, st, idx, Some t))"
      "length t = length target" "b64_inv st idx t used"
      "ch = 0 \<and> b64_text src = used \<or>
       ch = Pad64 \<and> 0 \<in> set rest \<and> b64_text src = used @ Pad64 # b64_text rest"
    unfolding b64_scanned_def by blast
  then show ?thesis
  proof cases
    case fail
    then show ?thesis by (simp add: f_b64_pton_def b64_accepts_def)
  next
    case stop
    show ?thesis
    proof (cases "ch = 0")
      case True
      show ?thesis
      proof (cases "st = 0")
        case st: True
        from stop(3) st obtain g r where "t = g @ r" "unat idx = length g" "used = b64_chars g"
          by cases auto
        then show ?thesis
          using stop True st Pad64_plain L
          by (simp add: f_b64_pton_def b64_accepts_def sint_small)
      qed (use stop True Pad64_plain in \<open>simp add: f_b64_pton_def b64_accepts_def\<close>)
    next
      case False
      then have trailer: "b64_trailer rest st =
          Some (st \<noteq> 0 \<and> st \<noteq> 1 \<and> b64_text rest = (if st = 2 then [Pad64] else []))"
        using stop(4) by (intro b64_trailer_text) auto
      show ?thesis using stop(3)
      proof cases
        case (inv2 g v w r)
        then show ?thesis
          using stop(1,2,4) False trailer b64_closed1 [of v w] L
          by (auto simp: f_b64_pton_def b64_accepts_def sint_small b64_chars_append simp del: of_nat_Suc)
      next
        case (inv3 g v w x r)
        then show ?thesis
          using stop(1,2,4) False trailer b64_closed2 [of v w x] L
          by (auto simp: f_b64_pton_def b64_accepts_def sint_small b64_chars_append simp del: of_nat_Suc)
      qed (use stop(1,2,4) False trailer in \<open>auto simp: f_b64_pton_def b64_accepts_def\<close>)
    qed
  qed
qed

lemma loop_digit:
  "unat v < 64 \<Longrightarrow> b64_pton_loop (b64_digit v # src) st idx target targsize = do {
     r \<leftarrow> b64_digit_step v st idx target targsize;
     case r of
       None \<Rightarrow> Some None
     | Some (st', idx', target') \<Rightarrow> b64_pton_loop src st' idx' target' targsize }"
  by (simp add: digit_plain digit_position)

definition b64_need :: "u8 list \<Rightarrow> nat" where
  "b64_need xs = length xs + (if length xs mod 3 = 0 then 0 else 1)"

lemma idx_check:
  "unat (idx :: u32) < 2 ^ 31 \<Longrightarrow> targsize \<le> ucast idx \<longleftrightarrow> unat (targsize :: u64) \<le> unat idx"
  by (simp add: word_le_nat_alt)

lemma loop_open1:
  assumes "unat idx = length g" "length g + 2 \<le> unat targsize" "length g < 2 ^ 30"
  shows "b64_pton_loop (b64_digit (b64_out0 a) # b64_digit (b64_out1 a b) # src) 0 idx
      (Some (g @ x # y # r)) targsize
    = b64_pton_loop src 2 (idx + 1) (Some (g @ a # push_bit 4 (b64_out1 a b AND 0x0F) # r)) targsize"
  using assms b64_next [of idx]
  by (simp add: loop_digit out_small b64_digit_step_def b64_store_def idx_check byte0
      word_le_nat_alt del: b64_pton_loop.simps)

lemma loop_open2:
  assumes "unat idx = length g + 1" "length g + 3 \<le> unat targsize" "length g < 2 ^ 30"
  shows "b64_pton_loop (b64_digit (b64_out2 b c) # src) 2 idx
      (Some (g @ a # push_bit 4 (b64_out1 a b AND 0x0F) # y # r)) targsize
    = b64_pton_loop src 3 (idx + 1) (Some (g @ a # b # push_bit 6 (b64_out2 b c AND 0x03) # r)) targsize"
  using assms b64_next [of idx] byte1 [of a b c]
  by (simp add: loop_digit out_small b64_digit_step_def b64_store_def idx_check
      word_le_nat_alt del: b64_pton_loop.simps)

lemma loop_open3:
  assumes "unat idx = length g + 2" "length g + 3 \<le> unat targsize" "length g < 2 ^ 30"
  shows "b64_pton_loop (b64_digit (b64_out3 c) # src) 3 idx
      (Some (g @ a # b # push_bit 6 (b64_out2 b c AND 0x03) # r)) targsize
    = b64_pton_loop src 0 (idx + 1) (Some (g @ a # b # c # r)) targsize"
  using assms byte2 [of b c]
  by (simp add: loop_digit out_small b64_digit_step_def b64_store_def idx_check
      word_le_nat_alt del: b64_pton_loop.simps)

lemma low_bits:
  "push_bit 4 (b64_out1 a 0 AND 0x0F) = 0" "push_bit 6 (b64_out2 b 0 AND 0x03) = 0"
  unfolding b64_outs by (rule byte_eqI; simp add: b64_bits bit_8)+

definition b64_close where
  "b64_close target = (\<lambda>r. case r of
       None \<Rightarrow> Some (- 1, target)
     | Some (ch, rest, st, tarindex, target') \<Rightarrow>
         if ch = Pad64 then do {
           ok \<leftarrow> b64_trailer rest st;
           if \<not> ok then Some (- 1, target')
           else do {
             clean \<leftarrow> (case target' of None \<Rightarrow> Some True
                       | Some t \<Rightarrow> map_option (\<lambda>b. b = 0) (nth_opt t (unat tarindex)));
             Some (if clean then sint (tarindex :: u32) else - 1, target') } }
         else if st \<noteq> 0 then Some (- 1, target')
         else Some (sint tarindex, target'))"

lemma f_b64_pton_close:
  "f_b64_pton src target targsize = b64_pton_loop src 0 0 target targsize \<bind> b64_close target"
  by (simp add: f_b64_pton_def b64_close_def)

lemma loop_stop:
  "b64_pton_loop (0 # src) st idx target targsize = Some (Some (0, src, st, idx, target))"
  "b64_pton_loop (Pad64 # src) st idx target targsize = Some (Some (Pad64, src, st, idx, target))"
  using Pad64_plain by auto

lemma trailer_pads:
  "b64_trailer (Pad64 # 0 # src) 2 = Some True" "b64_trailer (0 # src) 3 = Some True"
  using Pad64_plain by (auto simp: b64_trailer_def)

lemma b64_pton_run:
  assumes "unat idx = length g" "length g + b64_need xs \<le> unat targsize"
    "unat targsize \<le> length g + length q" "length g + length q < 2 ^ 30"
  shows "\<exists>q'. length q' = length q \<and> take (length xs) q' = xs \<and>
    b64_pton_loop (b64_chars xs @ 0 # junk) 0 idx (Some (g @ q)) targsize \<bind> b64_close t0
      = Some (int (length g + length xs), Some (g @ q'))"
  using assms
proof (induction xs arbitrary: g q idx rule: b64_chars.induct)
  case (1 a b c xs)
  then have "3 \<le> length q" by (simp add: b64_need_def)
  then obtain x y z r where q: "q = x # y # z # r"
    by (auto simp: numeral_3_eq_3 Suc_le_length_iff)
  have i: "unat (idx + 1) = length g + 1" "unat (idx + 1 + 1) = length g + 2"
    "unat (idx + 1 + 1 + 1) = length (g @ [a, b, c])"
    using 1(2,5) b64_next [of idx] b64_next [of "idx + 1"] b64_next [of "idx + 1 + 1"]
    by (simp_all add: add.assoc)
  have size: "length g + 3 \<le> unat targsize" "length g < 2 ^ 30" "length g + 2 \<le> unat targsize"
    using 1(3,5) by (simp_all add: b64_need_def)
  have need: "b64_need (a # b # c # xs) = b64_need xs + 3"
    by (auto simp: b64_need_def mod_Suc)
  obtain r' where r': "length r' = length r" "take (length xs) r' = xs"
    "b64_pton_loop (b64_chars xs @ 0 # junk) 0 (idx + 1 + 1 + 1) (Some ((g @ [a, b, c]) @ r)) targsize
        \<bind> b64_close t0
      = Some (int (length (g @ [a, b, c]) + length xs), Some ((g @ [a, b, c]) @ r'))"
    using 1(1) [OF i(3), of r] 1(3-5) unfolding need q by auto
  show ?case
    using r' loop_open1 [OF 1(2) size(3,2), of a b] loop_open2 [OF i(1) size(1,2), of b c _ a]
      loop_open3 [OF i(2) size(1,2), of c _ a b]
    by (intro exI [of _ "a # b # c # r'"]) (simp add: q del: b64_pton_loop.simps)
next
  case (2 a b)
  then have "3 \<le> length q" by (simp add: b64_need_def)
  then obtain x y z r where q: "q = x # y # z # r"
    by (auto simp: numeral_3_eq_3 Suc_le_length_iff)
  have i: "unat (idx + 1) = length g + 1" "unat (idx + 1 + 1) = length g + 2"
    using 2(1,4) b64_next [of idx] b64_next [of "idx + 1"] by (simp_all add: add.assoc)
  have size: "length g + 3 \<le> unat targsize" "length g < 2 ^ 30" "length g + 2 \<le> unat targsize"
    using 2(2,4) by (simp_all add: b64_need_def)
  show ?case
    using loop_open1 [OF 2(1) size(3,2), of a b] loop_open2 [OF i(1) size(1,2), of b 0 _ a] i 2(4)
    by (intro exI [of _ "a # b # 0 # r"])
      (simp add: q low_bits low_bits [simplified] loop_stop trailer_pads b64_close_def sint_small del: b64_pton_loop.simps)
next
  case (3 a)
  then have "2 \<le> length q" by (simp add: b64_need_def)
  then obtain x y r where q: "q = x # y # r"
    by (auto simp: numeral_2_eq_2 Suc_le_length_iff)
  have i: "unat (idx + 1) = length g + 1"
    using 3(1,4) b64_next [of idx] by (simp_all add: add.assoc)
  have size: "length g < 2 ^ 30" "length g + 2 \<le> unat targsize"
    using 3(2,4) by (simp_all add: b64_need_def)
  show ?case
    using loop_open1 [OF 3(1) size(2,1), of a 0] i 3(4)
    by (intro exI [of _ "a # 0 # r"])
      (simp add: q low_bits low_bits [simplified] loop_stop trailer_pads b64_close_def sint_small del: b64_pton_loop.simps)
next
  case 4
  then show ?case
    by (simp add: loop_stop b64_close_def sint_small Pad64_plain(1) [symmetric])
qed

lemma b64_pton_round:
  assumes "b64_need xs \<le> unat targsize" "unat targsize \<le> length target" "length target < 2 ^ 30"
  shows "\<exists>t. length t = length target \<and> take (length xs) t = xs \<and>
    f_b64_pton (b64_chars xs @ 0 # junk) (Some target) targsize = Some (int (length xs), Some t)"
  using b64_pton_run [of 0 "[]" xs targsize target junk "Some target"] assms
  by (simp add: f_b64_pton_close)

subsection \<open>The two functions\<close>

text \<open>C17: \<open>f_b64_ntop\<close> writes the base64 text and a terminator when text and terminator fit, and
  returns the text's length; otherwise it returns -1.  It never leaves the array it was given.\<close>

theorem b64_ntop_correct:
  assumes "unat targsize \<le> length target" "length target < 2 ^ 63" "length (b64_chars src) < 2 ^ 31"
  shows "\<exists>v t. f_b64_ntop src target targsize = Some (v, t) \<and> length t = length target \<and>
    (if length (b64_chars src) < unat targsize
     then v = int (length (b64_chars src)) \<and> take (length (b64_chars src) + 1) t = b64_chars src @ [0]
     else v = - 1)"
proof -
  have "sint (of_nat (length (b64_chars src)) :: u32) = int (length (b64_chars src))"
    using assms(3) by (subst sint_small) (simp_all add: unat_of_nat_u32)
  with b64_ntop_result [OF assms(1,2), of src] assms(1) show ?thesis
    by (cases "length (b64_chars src) < unat targsize") (auto simp: b64_written_def)
qed

theorem b64_ntop_correct_witness:
  "\<exists>v t. f_b64_ntop [77, 97] (replicate 8 0xAA) 5 = Some (v, t) \<and> length t = length (replicate 8 (0xAA :: u8)) \<and>
    (if length (b64_chars [77, 97]) < unat (5 :: u64)
     then v = int (length (b64_chars [77, 97])) \<and>
       take (length (b64_chars [77, 97]) + 1) t = b64_chars [77, 97] @ [0]
     else v = - 1)"
  by (rule b64_ntop_correct) simp_all

text \<open>C18: \<open>f_b64_pton\<close> never reads behind the terminator of its input and never leaves its array, and it
  accepts only canonical text: when it returns a length, the input without its white space is exactly
  the base64 text of the bytes it has stored, so no two texts (up to white space) stand for the same
  bytes.\<close>

theorem b64_pton_canonical:
  assumes "0 \<in> set src" "length target < 2 ^ 31" "unat targsize \<le> length target"
  shows "\<exists>v t. f_b64_pton src (Some target) targsize = Some (v, Some t) \<and> length t = length target \<and>
    (v = - 1 \<or> 0 \<le> v \<and> v \<le> int (length t) \<and> b64_text src = b64_chars (take (nat v) t))"
  using b64_pton_accepts [OF assms] by (simp add: b64_accepts_def)

theorem b64_pton_canonical_witness:
  "\<exists>v t. f_b64_pton [84, 87, 69, 61, 0] (Some [0, 0, 0]) 3 = Some (v, Some t) \<and>
    length t = length [0, 0, 0 :: u8] \<and>
    (v = - 1 \<or> 0 \<le> v \<and> v \<le> int (length t) \<and> b64_text [84, 87, 69, 61, 0] = b64_chars (take (nat v) t))"
  by (rule b64_pton_canonical) simp_all

text \<open>C19: what \<open>f_b64_ntop\<close> wrote, \<open>f_b64_pton\<close> reads back, given an array one byte longer than the data
  (as long as the data, when its length is a multiple of 3).\<close>

theorem b64_round_trip:
  assumes "length (b64_chars src) < unat targsize" "unat targsize \<le> length target" "length target < 2 ^ 31"
    and "b64_need src \<le> unat outsize" "unat outsize \<le> length out" "length out < 2 ^ 30"
  shows "\<exists>v t u. f_b64_ntop src target targsize = Some (v, t) \<and>
    f_b64_pton t (Some out) outsize = Some (int (length src), Some u) \<and> take (length src) u = src"
proof -
  have L: "length target < 2 ^ 63" using assms(3) by simp
  from b64_ntop_result [OF assms(2) L, of src] assms(1) obtain v where
    "f_b64_ntop src target targsize = Some (v, b64_chars src @ 0 # drop (length (b64_chars src) + 1) target)"
    by (auto simp: b64_written_def)
  with b64_pton_round [OF assms(4-6)] show ?thesis by blast
qed

theorem b64_round_trip_witness:
  "\<exists>v t u. f_b64_ntop [77, 97] (replicate 8 0xAA) 8 = Some (v, t) \<and>
    f_b64_pton t (Some [0, 0, 0]) 3 = Some (int (length [77, 97 :: u8]), Some u) \<and>
    take (length [77, 97 :: u8]) u = [77, 97]"
  by (rule b64_round_trip) (simp_all add: b64_need_def)

end
