(* ===== verification/LdCodingOk.thy ===== *)
theory LdCodingOk
  imports LdCoding
begin

text \<open>
  What the encoders of \<open>LdCoding\<close> write and what its decoders make of it: the byte order does not
  matter, the varints are the canonical ones of \<open>PbWire\<close>, and each decoder undoes its encoder.
\<close>

subsection \<open>Fixed-width integers\<close>

lemma and_ff: "w AND 0xff = take_bit 8 (w :: 'a::len word)"
  by (simp add: take_bit_eq_mask mask_eq_exp_minus_1)

lemma ucast_and_ff [simp]: "(ucast (w AND 0xff :: 'a::len word) :: u8) = ucast w"
  by (rule bit_word_eqI) (auto simp: and_ff bit_simps)

lemma encode_fixed32_port_eq:
  "encode_fixed32_port little v =
     [ucast v, ucast (drop_bit 8 v), ucast (drop_bit 16 v), ucast (drop_bit 24 v)]"
  by (simp add: encode_fixed32_port_def native_bytes_def upt_rec del: upt_rec_numeral)

lemma encode_fixed64_port_eq:
  "encode_fixed64_port little v =
     [ucast v, ucast (drop_bit 8 v), ucast (drop_bit 16 v), ucast (drop_bit 24 v),
      ucast (drop_bit 32 v), ucast (drop_bit 40 v), ucast (drop_bit 48 v), ucast (drop_bit 56 v)]"
  by (simp add: encode_fixed64_port_def native_bytes_def upt_rec del: upt_rec_numeral)

lemma four_bytes:
  assumes "\<not> length p < 4"
  obtains a b c d q where "p = a # b # c # d # q"
proof -
  from assms have "Suc (Suc (Suc (Suc 0))) \<le> length p" by simp
  then show ?thesis by (auto simp: Suc_le_length_iff intro: that)
qed

lemma eight_bytes:
  assumes "\<not> length p < 8"
  obtains a b c d e f g h q where "p = a # b # c # d # e # f # g # h # q"
proof -
  from assms have "\<not> length p < 4" by simp
  then obtain a b c d q where p: "p = a # b # c # d # q" by (rule four_bytes)
  with assms have "\<not> length q < 4" by simp
  then obtain e f g h q' where "q = e # f # g # h # q'" by (rule four_bytes)
  with p show ?thesis by (intro that) simp
qed

lemma decode_fixed32_port_eq:
  "decode_fixed32_port little p = (if length p < 4 then None else Some (word_of_bytes (take 4 p)))"
proof (cases "length p < 4")
  case False
  then obtain a b c d q where "p = a # b # c # d # q" by (rule four_bytes)
  then show ?thesis
    by (simp add: decode_fixed32_port_def native_value_def push_bit_or or.assoc)
qed (simp add: decode_fixed32_port_def)

lemma ucast_word_of_bytes4:
  "ucast (word_of_bytes [a, b, c, d] :: u32) = (word_of_bytes [a, b, c, d] :: u64)"
  by (rule bit_word_eqI) (auto simp: bit_simps dest: bit_imp_le_length)

lemma decode_fixed64_port_eq:
  "decode_fixed64_port little p = (if length p < 8 then None else Some (word_of_bytes (take 8 p)))"
proof (cases "length p < 8")
  case False
  then obtain a b c d e f g h q where "p = a # b # c # d # e # f # g # h # q" by (rule eight_bytes)
  then show ?thesis
    by (simp add: decode_fixed64_port_def decode_fixed32_port_eq native_value_def ucast_word_of_bytes4
      del: word_of_bytes.simps) (simp add: push_bit_or ac_simps)
qed (simp add: decode_fixed64_port_def)

lemma encode_fixed32_eq:
  "encode_fixed32 v =
     [ucast v, ucast (drop_bit 8 v), ucast (drop_bit 16 v), ucast (drop_bit 24 v)]"
  by (simp add: encode_fixed32_def encode_fixed32_port_eq)

lemma encode_fixed64_eq:
  "encode_fixed64 v =
     [ucast v, ucast (drop_bit 8 v), ucast (drop_bit 16 v), ucast (drop_bit 24 v),
      ucast (drop_bit 32 v), ucast (drop_bit 40 v), ucast (drop_bit 48 v), ucast (drop_bit 56 v)]"
  by (simp add: encode_fixed64_def encode_fixed64_port_eq)

lemma length_encode_fixed [simp]: "length (encode_fixed32 v) = 4" "length (encode_fixed64 w) = 8"
  by (simp_all add: encode_fixed32_eq encode_fixed64_eq)

lemma decode_fixed32_eq:
  "decode_fixed32 p = (if length p < 4 then None else Some (word_of_bytes (take 4 p)))"
  by (simp add: decode_fixed32_def decode_fixed32_port_eq)

lemma decode_fixed64_eq:
  "decode_fixed64 p = (if length p < 8 then None else Some (word_of_bytes (take 8 p)))"
  by (simp add: decode_fixed64_def decode_fixed64_port_eq)

lemma byte_split:
  "ucast (ucast (drop_bit k v) :: u8) OR push_bit 8 (drop_bit (k + 8) v) = drop_bit k (v :: 'a::len word)"
proof (rule bit_word_eqI)
  fix n assume "n < LENGTH('a)"
  then show "bit (ucast (ucast (drop_bit k v) :: u8) OR push_bit 8 (drop_bit (k + 8) v)) n \<longleftrightarrow>
      bit (drop_bit k v) n"
    by (cases "n < 8") (simp_all add: bit_simps)
qed

lemma word_of_encode32 [simp]: "word_of_bytes (encode_fixed32 v) = v"
proof -
  have "ucast (ucast (drop_bit 24 v) :: u8) = drop_bit 24 v"
    by (rule bit_word_eqI) (auto simp: bit_simps dest: bit_imp_le_length)
  then show ?thesis
    using byte_split [of 0 v] byte_split [of 8 v] byte_split [of 16 v]
    by (simp add: encode_fixed32_eq)
qed

lemma word_of_encode64 [simp]: "word_of_bytes (encode_fixed64 v) = v"
proof -
  have "ucast (ucast (drop_bit 56 v) :: u8) = drop_bit 56 v"
    by (rule bit_word_eqI) (auto simp: bit_simps dest: bit_imp_le_length)
  then show ?thesis
    using byte_split [of 0 v] byte_split [of 8 v] byte_split [of 16 v] byte_split [of 24 v]
      byte_split [of 32 v] byte_split [of 40 v] byte_split [of 48 v]
    by (simp add: encode_fixed64_eq)
qed

lemma decode_encode_fixed32 [simp]: "decode_fixed32 (encode_fixed32 v @ r) = Some v"
  by (simp add: decode_fixed32_eq)

lemma decode_encode_fixed64 [simp]: "decode_fixed64 (encode_fixed64 v @ r) = Some v"
  by (simp add: decode_fixed64_eq)

lemma decode_encode_fixed [simp]:
  "decode_fixed32 (encode_fixed32 v) = Some v" "decode_fixed64 (encode_fixed64 w) = Some w"
  using decode_encode_fixed32 [of v "[]"] decode_encode_fixed64 [of w "[]"] by simp_all

subsection \<open>Varints\<close>

lemma varint_group:
  assumes len: "8 \<le> LENGTH('a)"
  shows "(ucast (v OR 128 :: 'a::len word) :: u8) = ucast (v AND 127) OR 128"
proof (rule bit_word_eqI)
  fix n :: nat
  have m: "bit (127 :: 'a word) n \<longleftrightarrow> n < LENGTH('a) \<and> n < 7"
    using bit_mask_iff [of 7 n, where 'a = "'a word"] by (auto simp: mask_eq_exp_minus_1)
  have "bit (128 :: 'a word) n \<longleftrightarrow> n < LENGTH('a) \<and> n = 7"
    using bit_exp_iff [of 7 n, where 'a = "'a word"] by auto
  moreover have "bit (128 :: u8) n \<longleftrightarrow> n = 7"
    using bit_exp_iff [of 7 n, where 'a = u8] by auto
  moreover assume "n < LENGTH(8)"
  ultimately show "bit (ucast (v OR 128) :: u8) n \<longleftrightarrow> bit (ucast (v AND 127) OR 128 :: u8) n"
    using m len by (auto simp: bit_simps dest: bit_imp_le_length)
qed

lemma group_byte64: "ucast (((v :: u64) AND 127) OR 128) = (of_nat (unat v mod 128 + 128) :: u8)"
  using group_byte [of v] by (simp add: varint_group and.assoc)

lemma group_byte32: "ucast ((v :: u32) OR 128) = (of_nat (unat v mod 128 + 128) :: u8)"
proof -
  have "(ucast (v AND 127) :: u8) = ucast (ucast v AND 0x7F :: u64)"
    by (rule bit_word_eqI) (auto simp: and_7F bit_simps dest: bit_imp_le_length)
  then show ?thesis using group_byte [of "ucast v"] by (simp add: varint_group)
qed

lemma encode_varint64_eq: "encode_varint64 v = varint_bytes (unat v)"
proof (induction v rule: encode_varint64.induct)
  case (1 v)
  have "128 \<le> v \<longleftrightarrow> \<not> unat v < 128" by (simp add: word_le_nat_alt not_less)
  with 1 show ?case
    by (subst encode_varint64.simps, subst varint_bytes.simps)
      (simp add: group_byte64 unat_drop_7 del: of_nat_add)
qed

lemma encode_varint32_eq: "encode_varint32 v = varint_bytes (unat v)"
proof -
  have lt: "v < 0x80 \<longleftrightarrow> unat v < 128" "v < 0x4000 \<longleftrightarrow> unat v div 128 < 128"
    "v < 0x200000 \<longleftrightarrow> unat v div 128 div 128 < 128"
    "v < 0x10000000 \<longleftrightarrow> unat v div 128 div 128 div 128 < 128"
    by (simp_all add: word_less_nat_alt div_less_iff_less_mult)
  have dr: "unat (drop_bit 7 v) = unat v div 128" "unat (drop_bit 14 v) = unat v div 128 div 128"
    "unat (drop_bit 21 v) = unat v div 128 div 128 div 128"
    "unat (drop_bit 28 v) = unat v div 128 div 128 div 128 div 128"
    by (simp_all only: unat_drop_bit_eq) (simp_all add: drop_bit_eq_div div_mult2_eq [symmetric])
  have u: "(ucast v :: u8) = of_nat (unat v)" "(ucast (drop_bit 7 v) :: u8) = of_nat (unat (drop_bit 7 v))"
    "(ucast (drop_bit 14 v) :: u8) = of_nat (unat (drop_bit 14 v))"
    "(ucast (drop_bit 21 v) :: u8) = of_nat (unat (drop_bit 21 v))"
    "(ucast (drop_bit 28 v) :: u8) = of_nat (unat (drop_bit 28 v))" by simp_all
  have "unat v < 128 * 128 * 128 * 128 * 128"
    by (rule less_trans [OF unat_u32_less]) simp
  then have top: "unat v div 128 div 128 div 128 div 128 < 128"
    by (simp only: div_less_iff_less_mult)
  note unfold = varint_bytes.simps [of "unat v"] varint_bytes.simps [of "unat v div 128"]
    varint_bytes.simps [of "unat v div 128 div 128"]
    varint_bytes.simps [of "unat v div 128 div 128 div 128"]
    varint_bytes.simps [of "unat v div 128 div 128 div 128 div 128"]
  have z: "n < 128 \<Longrightarrow> n div 128 = 0" for n :: nat by simp
  show ?thesis
    unfolding encode_varint32_def group_byte32 lt u dr
    using top by (simp only: unfold z simp_thms if_True if_False div_0 split: if_split) simp
qed

lemma varint_length_loop_eq: "varint_length_loop n v = n - 1 + int (length (varint_bytes (unat v)))"
proof (induction n v rule: varint_length_loop.induct)
  case (1 n v)
  have "128 \<le> v \<longleftrightarrow> \<not> unat v < 128" by (simp add: word_le_nat_alt not_less)
  with 1 show ?case
    by (subst varint_length_loop.simps, subst varint_bytes.simps) (simp add: unat_drop_7)
qed

lemma varint_length_eq: "varint_length v = int (length (encode_varint64 v))"
  by (simp add: varint_length_def varint_length_loop_eq encode_varint64_eq)

lemma length_encode_varint32: "length (encode_varint32 v) \<le> 5"
  using less_trans [OF unat_u32_less [of v]]
  by (simp only: encode_varint32_eq) (intro varint_bytes_length, simp_all)

lemma length_encode_varint64: "length (encode_varint64 v) \<le> 10"
  unfolding encode_varint64_eq by (rule varint_bytes_u64_length)

text \<open>The test of the continuation bit and the group, on the byte widened to the result's width.\<close>

lemma wide_128_u32: "(ucast (b :: u8) :: u32) AND 128 = 0 \<longleftrightarrow> b AND 0x80 = 0"
  using and_exp_eq_0_iff_not_bit [of "ucast b :: u32" 7] and_exp_eq_0_iff_not_bit [of b 7]
  by (simp add: bit_simps)

lemma wide_128_u64: "(ucast (b :: u8) :: u64) AND 128 = 0 \<longleftrightarrow> b AND 0x80 = 0"
  using and_exp_eq_0_iff_not_bit [of "ucast b :: u64" 7] and_exp_eq_0_iff_not_bit [of b 7]
  by (simp add: bit_simps)

lemma wide_127_u32: "(ucast (b :: u8) :: u32) AND 127 = ucast (b AND 0x7F)"
  by (simp only: and_7F) (auto intro!: bit_word_eqI simp: bit_simps)

lemma wide_127_u64: "(ucast (b :: u8) :: u64) AND 127 = ucast (b AND 0x7F)"
  by (simp only: and_7F) (auto intro!: bit_word_eqI simp: bit_simps)

lemma stop_group: "b AND 0x80 = 0 \<Longrightarrow> b AND 0x7F = (b :: u8)"
  by (simp only: word_unat_eq_iff [of "b AND 0x7F"] unat_and_7F continuation_bit) simp

lemma get_varint32_loop_eq:
  "i + n = 5 \<Longrightarrow> get_varint32_loop (7 * i) acc bs =
     map_option (\<lambda>g. (acc OR push_bit (7 * i) (of_nat (varint_value g)), drop (length g) bs))
       (varint_prefix n bs)"
proof (induction bs arbitrary: i n acc)
  case Nil
  then show ?case by (cases n) simp_all
next
  case (Cons b bs)
  show ?case
  proof (cases n)
    case 0
    with Cons.prems show ?thesis by simp
  next
    case (Suc m)
    with Cons.prems have i: "7 * i \<le> 28" "Suc i + m = 5" by simp_all
    show ?thesis
    proof (cases "b AND 0x80 = 0")
      case True
      with i Suc show ?thesis
        by (simp add: Let_def wide_128_u32 stop_group)
    next
      case False
      with Cons.IH [OF i(2)] i Suc show ?thesis
        by (simp add: Let_def wide_128_u32 wide_127_u32 option.map_comp comp_def add.commute [of 7]
            group_or del: of_nat_add)
    qed
  qed
qed

lemma get_varint64_loop_eq:
  "i + n = 10 \<Longrightarrow> get_varint64_loop (7 * i) acc bs =
     map_option (\<lambda>g. (acc OR push_bit (7 * i) (of_nat (varint_value g)), drop (length g) bs))
       (varint_prefix n bs)"
proof (induction bs arbitrary: i n acc)
  case Nil
  then show ?case by (cases n) simp_all
next
  case (Cons b bs)
  show ?case
  proof (cases n)
    case 0
    with Cons.prems show ?thesis by simp
  next
    case (Suc m)
    with Cons.prems have i: "7 * i \<le> 63" "Suc i + m = 10" by simp_all
    show ?thesis
    proof (cases "b AND 0x80 = 0")
      case True
      with i Suc show ?thesis
        by (simp add: Let_def wide_128_u64 stop_group)
    next
      case False
      with Cons.IH [OF i(2)] i Suc show ?thesis
        by (simp add: Let_def wide_128_u64 wide_127_u64 option.map_comp comp_def add.commute [of 7]
            group_or del: of_nat_add)
    qed
  qed
qed

text \<open>The two pointer decoders read the varint that is there, up to 5 and 10 bytes of it.\<close>

lemma get_varint64_ptr_eq:
  "get_varint64_ptr bs =
     map_option (\<lambda>g. (of_nat (varint_value g), drop (length g) bs)) (varint_prefix 10 bs)"
  using get_varint64_loop_eq [of 0 10 0 bs] by (simp add: get_varint64_ptr_def)

lemma get_varint32_ptr_eq:
  "get_varint32_ptr bs =
     map_option (\<lambda>g. (of_nat (varint_value g), drop (length g) bs)) (varint_prefix 5 bs)"
proof -
  have loop: "get_varint32_ptr_fallback bs =
      map_option (\<lambda>g. (of_nat (varint_value g), drop (length g) bs)) (varint_prefix 5 bs)" for bs
    using get_varint32_loop_eq [of 0 5 0 bs] by (simp add: get_varint32_ptr_fallback_def)
  show ?thesis
  proof (cases bs)
    case (Cons b q)
    with loop [of bs] show ?thesis
      by (simp add: get_varint32_ptr_def Let_def wide_128_u32 stop_group eval_nat_numeral)
  qed (simp add: get_varint32_ptr_def loop)
qed

lemma get_encode_varint32 [simp]: "get_varint32_ptr (encode_varint32 v @ r) = Some (v, r)"
  using length_encode_varint32 [of v]
  by (simp add: get_varint32_ptr_eq encode_varint32_eq varint_bytes_prefix varint_bytes_value)

lemma get_encode_varint64 [simp]: "get_varint64_ptr (encode_varint64 v @ r) = Some (v, r)"
  using length_encode_varint64 [of v]
  by (simp add: get_varint64_ptr_eq encode_varint64_eq varint_bytes_prefix varint_bytes_value)

lemma get_varint_slices [simp]:
  "get_varint32 (encode_varint32 v @ r) = (Some v, r)"
  "get_varint64 (encode_varint64 w @ r) = (Some w, r)"
  by (simp_all add: get_varint32_def get_varint64_def)

subsection \<open>Length-prefixed strings\<close>

definition length_prefixed :: "slice \<Rightarrow> u8 list" where
  "length_prefixed v = encode_varint32 (of_nat (length v)) @ v"

lemma put_length_prefixed: "put_length_prefixed_slice dst v = dst @ length_prefixed v"
  by (simp add: put_length_prefixed_slice_def put_varint32_def length_prefixed_def)

lemma get_length_prefixed [simp]:
  assumes "length v < 2 ^ 32"
  shows "get_length_prefixed_slice (length_prefixed v @ r) = (Some v, r)"
    and "get_length_prefixed_slice_ptr (length_prefixed v @ r) = Some (v, r)"
  using unat_of_nat_u32 [OF assms]
  by (simp_all add: get_length_prefixed_slice_def get_length_prefixed_slice_ptr_def length_prefixed_def)

text \<open>What a length-prefixed read returns is a piece of the input.\<close>

lemma get_varint32_ptr_suffix:
  "get_varint32_ptr bs = Some (v, q) \<Longrightarrow> \<exists>p. bs = p @ q \<and> p \<noteq> [] \<and> length p \<le> 5"
proof -
  assume a: "get_varint32_ptr bs = Some (v, q)"
  have "varint_prefix n bs = Some g \<Longrightarrow> bs = g @ drop (length g) bs \<and> g \<noteq> [] \<and> length g \<le> n" for n g
    by (induction n arbitrary: bs g) (auto split: list.splits if_splits)
  with a show ?thesis by (fastforce simp: get_varint32_ptr_eq)
qed

lemma get_length_prefixed_slice_cases:
  "get_length_prefixed_slice bs = (Some v, q) \<Longrightarrow>
     \<exists>p. bs = p @ v @ q \<and> p \<noteq> [] \<and> length p \<le> 5"
  by (auto simp: get_length_prefixed_slice_def get_varint32_def split: option.splits if_splits
      dest!: get_varint32_ptr_suffix)

end
