(* ===== verification/LdCompare.thy ===== *)
theory LdCompare
  imports LdCodingOk
begin

text \<open>
  Key orders: \<open>Slice::compare\<close> (\<open>include/leveldb/slice.h\<close>), the \<open>Comparator\<close> interface
  (\<open>include/leveldb/comparator.h\<close>) and its built-in implementation, the byte-wise comparator
  (\<open>util/comparator.cc\<close>).

  A \<open>Comparator\<close> object is the record of its virtual methods.  A method has no result (\<open>None\<close>)
  on a key it may not be called on; which keys those are is the \<open>valid\<close> of the interface.
\<close>

subsection \<open>Slices\<close>

text \<open>\<open>memcmp\<close>, on the bytes of the two objects; past their ends there is no result.\<close>

fun memcmp :: "u8 list \<Rightarrow> u8 list \<Rightarrow> nat \<Rightarrow> int option" where
  "memcmp a b 0 = Some 0"
| "memcmp (x # a) (y # b) (Suc n) =
     (if x = y then memcmp a b n else Some (if x < y then -1 else 1))"
| "memcmp [] b (Suc n) = None"
| "memcmp a [] (Suc n) = None"

definition slice_compare :: "slice \<Rightarrow> slice \<Rightarrow> int option" where
  "slice_compare a b =
     (let min_len = if length a < length b then length a else length b in
      do {
        r \<leftarrow> memcmp a b min_len;
        Some (if r = 0
              then if length a < length b then -1 else if length a > length b then 1 else r
              else r)
      })"

definition slice_eq :: "slice \<Rightarrow> slice \<Rightarrow> bool option" where
  "slice_eq x y =
     (if length x = length y then map_option (\<lambda>r. r = 0) (memcmp x y (length x)) else Some False)"

definition slice_starts_with :: "slice \<Rightarrow> slice \<Rightarrow> bool option" where
  "slice_starts_with s x =
     (if length s \<ge> length x then map_option (\<lambda>r. r = 0) (memcmp s x (length x)) else Some False)"

text \<open>The order of byte strings, most significant byte first.\<close>

abbreviation lex_less :: "slice \<Rightarrow> slice \<Rightarrow> bool" where
  "lex_less \<equiv> ord_class.lexordp"

lemma slice_compare_simps [simp]:
  "slice_compare [] [] = Some 0"
  "slice_compare [] (y # b) = Some (-1)"
  "slice_compare (x # a) [] = Some 1"
  "slice_compare (x # a) (y # b) =
     (if x = y then slice_compare a b else Some (if x < y then -1 else 1))"
  by (simp_all add: slice_compare_def Let_def cong: if_cong)

lemma slice_compare_eq:
  "slice_compare a b = Some (if a = b then 0 else if lex_less a b then -1 else 1)"
proof (induction a arbitrary: b)
  case Nil
  then show ?case by (cases b) simp_all
next
  case (Cons x a)
  then show ?case by (cases b) (auto simp: not_less_iff_gr_or_eq)
qed

lemma memcmp_prefix: "n \<le> length a \<Longrightarrow> n \<le> length b \<Longrightarrow>
    memcmp a b n = Some r \<Longrightarrow> r = 0 \<longleftrightarrow> take n a = take n b"
  by (induction a b n rule: memcmp.induct) (auto split: if_splits)

lemma memcmp_defined: "n \<le> length a \<Longrightarrow> n \<le> length b \<Longrightarrow> \<exists>r. memcmp a b n = Some r"
  by (induction a b n rule: memcmp.induct) auto

lemma slice_eq_iff: "slice_eq x y = Some (x = y)"
  using memcmp_defined [of "length x" x y] memcmp_prefix [of "length x" x y]
  by (auto simp: slice_eq_def)

lemma slice_starts_with_iff: "slice_starts_with s x = Some (\<exists>r. s = x @ r)"
proof (cases "length x \<le> length s")
  case True
  with memcmp_defined [of "length x" s x] obtain r where r: "memcmp s x (length x) = Some r" by auto
  with True memcmp_prefix [of "length x" s x r] have "r = 0 \<longleftrightarrow> take (length x) s = x" by simp
  also have "\<dots> \<longleftrightarrow> (\<exists>r. s = x @ r)" by (metis append_take_drop_id append_eq_conv_conj)
  finally show ?thesis using True r by (simp add: slice_starts_with_def)
qed (auto simp: slice_starts_with_def)

subsection \<open>The interface\<close>

record comparator =
  compare :: "slice \<Rightarrow> slice \<Rightarrow> int option"
  find_shortest_separator :: "slice \<Rightarrow> slice \<Rightarrow> slice option"
  find_short_successor :: "slice \<Rightarrow> slice option"

text \<open>What the comments of the interface promise, on the keys that are valid for a comparator:
  a total order, a separator in \<open>[start, limit)\<close> when \<open>start < limit\<close> and \<open>start\<close> unchanged
  otherwise, a successor that is not smaller.\<close>

locale comparator_laws =
  fixes cmp :: comparator and valid :: "slice \<Rightarrow> bool"
  assumes compare_defined: "valid a \<Longrightarrow> valid b \<Longrightarrow> \<exists>r. compare cmp a b = Some r"
    and compare_zero: "valid a \<Longrightarrow> valid b \<Longrightarrow> compare cmp a b = Some 0 \<longleftrightarrow> a = b"
    and compare_flip: "valid a \<Longrightarrow> valid b \<Longrightarrow> compare cmp a b = Some r \<Longrightarrow> r < 0 \<Longrightarrow>
          \<exists>r'. compare cmp b a = Some r' \<and> 0 < r'"
    and compare_flip': "valid a \<Longrightarrow> valid b \<Longrightarrow> compare cmp a b = Some r \<Longrightarrow> 0 < r \<Longrightarrow>
          \<exists>r'. compare cmp b a = Some r' \<and> r' < 0"
    and compare_trans: "valid a \<Longrightarrow> valid b \<Longrightarrow> valid c \<Longrightarrow> compare cmp a b = Some r \<Longrightarrow> r < 0 \<Longrightarrow>
          compare cmp b c = Some r' \<Longrightarrow> r' < 0 \<Longrightarrow> \<exists>r''. compare cmp a c = Some r'' \<and> r'' < 0"
    and separator: "valid s \<Longrightarrow> valid l \<Longrightarrow> compare cmp s l = Some r \<Longrightarrow> r < 0 \<Longrightarrow>
          \<exists>t. find_shortest_separator cmp s l = Some t \<and> valid t \<and>
            (\<exists>r. compare cmp s t = Some r \<and> r \<le> 0) \<and> (\<exists>r. compare cmp t l = Some r \<and> r < 0)"
    and separator_same: "valid s \<Longrightarrow> valid l \<Longrightarrow> compare cmp s l = Some r \<Longrightarrow> 0 \<le> r \<Longrightarrow>
          find_shortest_separator cmp s l = Some s"
    and successor: "valid k \<Longrightarrow>
          \<exists>t. find_short_successor cmp k = Some t \<and> valid t \<and>
            (\<exists>r. compare cmp k t = Some r \<and> r \<le> 0)"
begin

text \<open>The order itself, as a relation on the valid keys.\<close>

definition before :: "slice \<Rightarrow> slice \<Rightarrow> bool" where
  "before a b \<longleftrightarrow> (\<exists>r. compare cmp a b = Some r \<and> r < 0)"

lemma before_irrefl: "valid a \<Longrightarrow> \<not> before a a"
  using compare_zero [of a a] by (auto simp: before_def)

lemma before_trans: "valid a \<Longrightarrow> valid b \<Longrightarrow> valid c \<Longrightarrow> before a b \<Longrightarrow> before b c \<Longrightarrow> before a c"
  unfolding before_def using compare_trans by blast

lemma before_total: "valid a \<Longrightarrow> valid b \<Longrightarrow> before a b \<or> a = b \<or> before b a"
  using compare_defined [of a b] compare_zero [of a b] compare_flip' [of a b]
  unfolding before_def by (metis linorder_neqE)

lemma before_asym: "valid a \<Longrightarrow> valid b \<Longrightarrow> before a b \<Longrightarrow> \<not> before b a"
  using before_trans [of a b a] before_irrefl [of a] by blast

lemma compare_neg: "valid a \<Longrightarrow> valid b \<Longrightarrow> compare cmp a b = Some r \<Longrightarrow> r < 0 \<longleftrightarrow> before a b"
  by (simp add: before_def)

lemma compare_pos: "valid a \<Longrightarrow> valid b \<Longrightarrow> compare cmp a b = Some r \<Longrightarrow> 0 < r \<longleftrightarrow> before b a"
  using compare_flip [of b a] compare_flip' [of a b r] compare_defined [of b a]
  by (auto simp: before_def)

lemma compare_nonneg: "valid a \<Longrightarrow> valid b \<Longrightarrow> compare cmp a b = Some r \<Longrightarrow> 0 \<le> r \<longleftrightarrow> \<not> before a b"
  by (auto simp: before_def)

lemma separator_unchanged: "valid s \<Longrightarrow> valid l \<Longrightarrow> \<not> before s l \<Longrightarrow>
    find_shortest_separator cmp s l = Some s"
  using compare_defined [of s l] separator_same [of s l] compare_nonneg [of s l] by blast

end

subsection \<open>The byte-wise comparator\<close>

function common_prefix_loop :: "slice \<Rightarrow> slice \<Rightarrow> nat \<Rightarrow> nat \<Rightarrow> nat" where
  "common_prefix_loop a b min_length i =
     (if i < min_length \<and> a ! i = b ! i then common_prefix_loop a b min_length (Suc i) else i)"
  by auto
termination by (relation "measure (\<lambda>(a, b, m, i). m - i)") auto

declare common_prefix_loop.simps [simp del]

definition bytewise_find_shortest_separator :: "slice \<Rightarrow> slice \<Rightarrow> slice" where
  "bytewise_find_shortest_separator start limit =
     (let min_length = min (length start) (length limit);
          diff_index = common_prefix_loop start limit min_length 0 in
      if diff_index \<ge> min_length then start
      else
        let diff_byte = start ! diff_index in
        if diff_byte < 0xff \<and> unat diff_byte + 1 < unat (limit ! diff_index)
        then take (diff_index + 1) (start[diff_index := start ! diff_index + 1])
        else start)"

function short_successor_loop :: "slice \<Rightarrow> nat \<Rightarrow> slice" where
  "short_successor_loop key i =
     (if i < length key then
        let byte = key ! i in
        if byte \<noteq> 0xff then take (i + 1) (key[i := byte + 1]) else short_successor_loop key (Suc i)
      else key)"
  by auto
termination by (relation "measure (\<lambda>(key, i). length key - i)") auto

declare short_successor_loop.simps [simp del]

definition bytewise_find_short_successor :: "slice \<Rightarrow> slice" where
  "bytewise_find_short_successor key = short_successor_loop key 0"

text \<open>The method, with its assertion on a key that was shortened.\<close>

definition bytewise_separator_method :: "slice \<Rightarrow> slice \<Rightarrow> slice option" where
  "bytewise_separator_method start limit =
     (let start' = bytewise_find_shortest_separator start limit in
      if start' = start then Some start
      else do {
        r \<leftarrow> slice_compare start' limit;
        if r < 0 then Some start' else None
      })"

definition bytewise_comparator :: comparator where
  "bytewise_comparator =
     \<lparr>compare = slice_compare,
      find_shortest_separator = bytewise_separator_method,
      find_short_successor = (\<lambda>k. Some (bytewise_find_short_successor k))\<rparr>"

lemma bytewise_simps [simp]:
  "compare bytewise_comparator = slice_compare"
  "find_short_successor bytewise_comparator k = Some (bytewise_find_short_successor k)"
  by (simp_all add: bytewise_comparator_def)

lemma common_prefix_loop_spec:
  "i \<le> m \<Longrightarrow> take i a = take i b \<Longrightarrow> m \<le> length a \<Longrightarrow> m \<le> length b \<Longrightarrow>
     (let d = common_prefix_loop a b m i in
        d \<le> m \<and> take d a = take d b \<and> (d < m \<longrightarrow> a ! d \<noteq> b ! d))"
proof (induction a b m i rule: common_prefix_loop.induct)
  case (1 a b m i)
  then show ?case
    by (subst (1) common_prefix_loop.simps)
      (auto simp: Let_def take_Suc_conv_app_nth common_prefix_loop.simps [of a b m i])
qed

text \<open>A first difference decides the order.\<close>

lemma lexordp_at:
  assumes "take d a = take d b" "d < length a" "d < length b" "a ! d < b ! d"
  shows "lex_less a b"
proof -
  have "a = take d a @ a ! d # drop (Suc d) a" "b = take d a @ b ! d # drop (Suc d) b"
    using id_take_nth_drop [OF assms(2)] id_take_nth_drop [OF assms(3)] assms(1) by simp_all
  then show ?thesis using assms(4) by (metis lexordp_append_left_rightI)
qed

lemma word_succ_less: "(a :: u8) < 0xff \<Longrightarrow> unat (a + 1) = unat a + 1"
proof -
  assume "a < 0xff"
  then have "unat a < 255" by (simp add: word_less_nat_alt)
  then show ?thesis by (simp add: unat_word_ariths)
qed

lemma bytewise_separator_cases:
  obtains "bytewise_find_shortest_separator s l = s"
  | d where "bytewise_find_shortest_separator s l = take d s @ [s ! d + 1]"
      "take d s = take d l" "d < length s" "d < length l" "unat (s ! d + 1) = unat (s ! d) + 1"
      "s ! d + 1 < l ! d"
proof -
  define m where "m = min (length s) (length l)"
  define d where "d = common_prefix_loop s l m 0"
  have d: "d \<le> m" "take d s = take d l" "d < m \<Longrightarrow> s ! d \<noteq> l ! d"
    using common_prefix_loop_spec [of 0 m s l] by (simp_all add: d_def m_def Let_def)
  show thesis
  proof (cases "d < m \<and> s ! d < 0xff \<and> unat (s ! d) + 1 < unat (l ! d)")
    case False
    then have "bytewise_find_shortest_separator s l = s"
      by (auto simp: bytewise_find_shortest_separator_def Let_def m_def d_def)
    then show thesis by (rule that(1))
  next
    case True
    then have u: "unat (s ! d + 1) = unat (s ! d) + 1" by (simp add: word_succ_less)
    have len: "d < length s" "d < length l" using True by (simp_all add: m_def)
    have "bytewise_find_shortest_separator s l = take (d + 1) (s[d := s ! d + 1])"
      using True by (simp add: bytewise_find_shortest_separator_def Let_def m_def [symmetric]
        d_def [symmetric])
    also have "\<dots> = take d s @ [s ! d + 1]"
      using len by (simp add: take_Suc_conv_app_nth)
    finally show thesis
      using that(2) d(2) len u True by (simp add: word_less_nat_alt)
  qed
qed

lemma bytewise_separator:
  assumes "lex_less s l"
  defines "t \<equiv> bytewise_find_shortest_separator s l"
  shows "(s = t \<or> lex_less s t) \<and> lex_less t l"
proof (cases rule: bytewise_separator_cases [of s l])
  case (2 d)
  from 2(5) have less: "s ! d < s ! d + 1" by (simp add: word_less_nat_alt)
  from 2 less have "lex_less s t"
    unfolding t_def by (intro lexordp_at [of d]) (simp_all add: nth_append)
  moreover from 2 have "lex_less t l"
    unfolding t_def by (intro lexordp_at [of d]) (simp_all add: nth_append)
  ultimately show ?thesis by blast
qed (use assms in simp_all)

lemma bytewise_separator_shorter:
  assumes "bytewise_find_shortest_separator s l \<noteq> s"
  shows "lex_less (bytewise_find_shortest_separator s l) l"
proof (cases rule: bytewise_separator_cases [of s l])
  case (2 d)
  then show ?thesis by (intro lexordp_at [of d]) (simp_all add: nth_append)
qed (use assms in simp)

text \<open>So the assertion holds, and the method returns.\<close>

lemma bytewise_separator_simp [simp]:
  "find_shortest_separator bytewise_comparator s l = Some (bytewise_find_shortest_separator s l)"
proof (cases "bytewise_find_shortest_separator s l = s")
  case True
  then show ?thesis by (simp add: bytewise_comparator_def bytewise_separator_method_def)
next
  case False
  from bytewise_separator_shorter [OF this] lexordp_irreflexive' [of l] have
    "\<exists>r. slice_compare (bytewise_find_shortest_separator s l) l = Some r \<and> r < 0"
    by (auto simp: slice_compare_eq)
  with False show ?thesis by (auto simp: bytewise_comparator_def bytewise_separator_method_def)
qed

lemma bytewise_separator_same:
  assumes "\<not> lex_less s l"
  shows "bytewise_find_shortest_separator s l = s"
proof (cases rule: bytewise_separator_cases [of s l])
  case (2 d)
  then have "s ! d < s ! d + 1" by (simp add: word_less_nat_alt)
  with 2 have "s ! d < l ! d" by simp
  with 2 have "lex_less s l" by (intro lexordp_at [of d]) simp_all
  with assms show ?thesis ..
qed

lemma short_successor_loop_spec:
  "k = short_successor_loop k i \<or> lex_less k (short_successor_loop k i)"
proof (induction k i rule: short_successor_loop.induct)
  case (1 k i)
  show ?case
  proof (cases "i < length k \<and> k ! i \<noteq> 0xff")
    case True
    then have "k ! i < 0xff"
      using unat_u8_less [of "k ! i"] by (simp add: word_less_nat_alt word_unat_eq_iff del: unat_u8_less)
    then have "unat (k ! i + 1) = unat (k ! i) + 1" by (rule word_succ_less)
    then have "k ! i < k ! i + 1" by (simp add: word_less_nat_alt)
    with True have "lex_less k (take i k @ [k ! i + 1])"
      by (intro lexordp_at [of i]) (simp_all add: nth_append)
    moreover have "short_successor_loop k i = take i k @ [k ! i + 1]"
      using True by (subst short_successor_loop.simps) (simp add: Let_def take_Suc_conv_app_nth)
    ultimately show ?thesis by simp
  next
    case False
    with 1 show ?thesis by (subst (1 2) short_successor_loop.simps) (auto simp: Let_def)
  qed
qed

lemma bytewise_successor:
  "k = bytewise_find_short_successor k \<or> lex_less k (bytewise_find_short_successor k)"
  unfolding bytewise_find_short_successor_def by (rule short_successor_loop_spec)

interpretation bytewise: comparator_laws bytewise_comparator "\<lambda>_. True"
proof unfold_locales
  fix s l :: slice and r :: int
  show "compare bytewise_comparator s l = Some r \<Longrightarrow> r < 0 \<Longrightarrow>
      \<exists>t. find_shortest_separator bytewise_comparator s l = Some t \<and> True \<and>
        (\<exists>r. compare bytewise_comparator s t = Some r \<and> r \<le> 0) \<and>
        (\<exists>r. compare bytewise_comparator t l = Some r \<and> r < 0)"
    using bytewise_separator [of s l] lexordp_irreflexive' [of l] by (auto simp: slice_compare_eq split: if_splits)
  show "compare bytewise_comparator s l = Some r \<Longrightarrow> 0 \<le> r \<Longrightarrow>
      find_shortest_separator bytewise_comparator s l = Some s"
    using bytewise_separator_same [of s l] lexordp_irreflexive' [of l]
    by (auto simp: slice_compare_eq split: if_splits)
  show "\<exists>t. find_short_successor bytewise_comparator s = Some t \<and> True \<and>
      (\<exists>r. compare bytewise_comparator s t = Some r \<and> r \<le> 0)"
    using bytewise_successor [of s] by (auto simp: slice_compare_eq)
qed (use lexordp_linear lexordp_antisym lexordp_trans lexordp_irreflexive' in
    \<open>auto simp: slice_compare_eq split: if_splits\<close>)

lemma bytewise_before: "bytewise.before a b \<longleftrightarrow> lex_less a b"
  by (auto simp: bytewise.before_def slice_compare_eq lexordp_irreflexive')

end
