(* ===== verification/LdDbFormat.thy ===== *)
theory LdDbFormat
  imports LdCompare
begin

text \<open>
  Internal keys (\<open>db/dbformat.h\<close>, \<open>db/dbformat.cc\<close>): a user key followed by eight bytes that pack a
  sequence number and a value type, their order, and the key a lookup is done with.

  An \<open>assert\<close> that fails has no result (\<open>None\<close>), and neither has the cast of a byte to
  \<open>ValueType\<close> that is none of its values.
\<close>

datatype value_type = KTypeDeletion | KTypeValue

definition value_type_code :: "value_type \<Rightarrow> u8" where
  "value_type_code t = (case t of KTypeDeletion \<Rightarrow> 0 | KTypeValue \<Rightarrow> 1)"

definition value_type_of :: "u8 \<Rightarrow> value_type option" where
  "value_type_of c = (if c = 0 then Some KTypeDeletion else if c = 1 then Some KTypeValue else None)"

definition kValueTypeForSeek :: value_type where
  "kValueTypeForSeek = KTypeValue"

definition kMaxSequenceNumber :: u64 where
  "kMaxSequenceNumber = push_bit 56 1 - 1"

record parsed_internal_key =
  pk_user_key :: slice
  pk_sequence :: u64
  pk_type :: value_type

definition pack_sequence_and_type :: "u64 \<Rightarrow> value_type \<Rightarrow> u64 option" where
  "pack_sequence_and_type seq t =
     (if seq \<le> kMaxSequenceNumber then Some (push_bit 8 seq OR ucast (value_type_code t)) else None)"

definition internal_key_encoding_length :: "parsed_internal_key \<Rightarrow> nat" where
  "internal_key_encoding_length key = length (pk_user_key key) + 8"

definition append_internal_key :: "u8 list \<Rightarrow> parsed_internal_key \<Rightarrow> u8 list option" where
  "append_internal_key result key =
     do {
       tag \<leftarrow> pack_sequence_and_type (pk_sequence key) (pk_type key);
       Some (put_fixed64 (result @ pk_user_key key) tag)
     }"

definition extract_user_key :: "slice \<Rightarrow> slice option" where
  "extract_user_key k = (if length k \<ge> 8 then Some (take (length k - 8) k) else None)"

definition extract_value_type :: "slice \<Rightarrow> value_type option" where
  "extract_value_type k =
     (if length k \<ge> 8 then
        do {
          num \<leftarrow> decode_fixed64 (drop (length k - 8) k);
          value_type_of (ucast (num AND 0xff))
        }
      else None)"

definition parse_internal_key :: "slice \<Rightarrow> parsed_internal_key option" where
  "parse_internal_key k =
     (if length k < 8 then None
      else do {
        num \<leftarrow> decode_fixed64 (drop (length k - 8) k);
        t \<leftarrow> value_type_of (ucast (num AND 0xff));
        Some \<lparr>pk_user_key = take (length k - 8) k, pk_sequence = drop_bit 8 num, pk_type = t\<rparr>
      })"

subsection \<open>The order of internal keys\<close>

definition internal_compare :: "comparator \<Rightarrow> slice \<Rightarrow> slice \<Rightarrow> int option" where
  "internal_compare user akey bkey =
     do {
       ua \<leftarrow> extract_user_key akey;
       ub \<leftarrow> extract_user_key bkey;
       r \<leftarrow> compare user ua ub;
       if r = 0 then
         do {
           anum \<leftarrow> decode_fixed64 (drop (length akey - 8) akey);
           bnum \<leftarrow> decode_fixed64 (drop (length bkey - 8) bkey);
           Some (if anum > bnum then -1 else if anum < bnum then 1 else r)
         }
       else Some r
     }"

definition internal_find_shortest_separator :: "comparator \<Rightarrow> slice \<Rightarrow> slice \<Rightarrow> slice option" where
  "internal_find_shortest_separator user start limit =
     do {
       user_start \<leftarrow> extract_user_key start;
       user_limit \<leftarrow> extract_user_key limit;
       tmp \<leftarrow> find_shortest_separator user user_start user_limit;
       if length tmp < length user_start then
         do {
           r \<leftarrow> compare user user_start tmp;
           if r < 0 then
             do {
               tag \<leftarrow> pack_sequence_and_type kMaxSequenceNumber kValueTypeForSeek;
               let tmp' = put_fixed64 tmp tag;
               r1 \<leftarrow> internal_compare user start tmp';
               r2 \<leftarrow> internal_compare user tmp' limit;
               if r1 < 0 \<and> r2 < 0 then Some tmp' else None
             }
           else Some start
         }
       else Some start
     }"

definition internal_find_short_successor :: "comparator \<Rightarrow> slice \<Rightarrow> slice option" where
  "internal_find_short_successor user key =
     do {
       user_key \<leftarrow> extract_user_key key;
       tmp \<leftarrow> find_short_successor user user_key;
       if length tmp < length user_key then
         do {
           r \<leftarrow> compare user user_key tmp;
           if r < 0 then
             do {
               tag \<leftarrow> pack_sequence_and_type kMaxSequenceNumber kValueTypeForSeek;
               let tmp' = put_fixed64 tmp tag;
               r1 \<leftarrow> internal_compare user key tmp';
               if r1 < 0 then Some tmp' else None
             }
           else Some key
         }
       else Some key
     }"

definition internal_comparator :: "comparator \<Rightarrow> comparator" where
  "internal_comparator user =
     \<lparr>compare = internal_compare user,
      find_shortest_separator = internal_find_shortest_separator user,
      find_short_successor = internal_find_short_successor user\<rparr>"

subsection \<open>\<open>InternalKey\<close> and \<open>LookupKey\<close>\<close>

text \<open>The \<open>InternalKey\<close> class is its string \<open>rep_\<close>.\<close>

definition internal_key :: "slice \<Rightarrow> u64 \<Rightarrow> value_type \<Rightarrow> u8 list option" where
  "internal_key user_key s t =
     append_internal_key [] \<lparr>pk_user_key = user_key, pk_sequence = s, pk_type = t\<rparr>"

definition internal_key_decode_from :: "slice \<Rightarrow> u8 list" where
  "internal_key_decode_from s = s"

definition internal_key_encode :: "u8 list \<Rightarrow> slice option" where
  "internal_key_encode rep = (if rep \<noteq> [] then Some rep else None)"

definition internal_key_user_key :: "u8 list \<Rightarrow> slice option" where
  "internal_key_user_key rep = extract_user_key rep"

definition internal_key_set_from :: "parsed_internal_key \<Rightarrow> u8 list option" where
  "internal_key_set_from p = append_internal_key [] p"

text \<open>A lookup key is the array of its bytes, with the offsets of its three pointers.\<close>

record lookup_key =
  lk_buf :: "u8 list"
  lk_start :: nat
  lk_kstart :: nat
  lk_end :: nat

definition lookup_key_needed :: "slice \<Rightarrow> nat" where
  "lookup_key_needed user_key = length user_key + 13"

definition make_lookup_key :: "slice \<Rightarrow> u64 \<Rightarrow> lookup_key option" where
  "make_lookup_key user_key s =
     do {
       tag \<leftarrow> pack_sequence_and_type s kValueTypeForSeek;
       let usize = length user_key;
       let klen = encode_varint32 (of_nat (usize + 8));
       let buf = klen @ user_key @ encode_fixed64 tag;
       Some \<lparr>lk_buf = buf, lk_start = 0, lk_kstart = length klen, lk_end = length klen + usize + 8\<rparr>
     }"

definition lk_memtable_key :: "lookup_key \<Rightarrow> slice" where
  "lk_memtable_key k = take (lk_end k - lk_start k) (drop (lk_start k) (lk_buf k))"

definition lk_internal_key :: "lookup_key \<Rightarrow> slice" where
  "lk_internal_key k = take (lk_end k - lk_kstart k) (drop (lk_kstart k) (lk_buf k))"

definition lk_user_key :: "lookup_key \<Rightarrow> slice" where
  "lk_user_key k = take (lk_end k - lk_kstart k - 8) (drop (lk_kstart k) (lk_buf k))"

end
