(* ===== verification/LdDbFormatOk.thy ===== *)
theory LdDbFormatOk
  imports LdDbFormat
begin

text \<open>
  Internal keys: packing and parsing undo each other, and the internal comparator keeps the
  contract of the \<open>Comparator\<close> interface whenever the user's comparator does.
\<close>

subsection \<open>Tags\<close>

lemma max_sequence: "seq \<le> kMaxSequenceNumber \<longleftrightarrow> unat seq < 2 ^ 56"
  by (simp add: kMaxSequenceNumber_def word_le_nat_alt push_bit_eq_mult less_Suc_eq_le [symmetric])

lemma value_type_code_inverse [simp]: "value_type_of (value_type_code t) = Some t"
  by (cases t) (simp_all add: value_type_of_def value_type_code_def)

lemma tag_type: "ucast ((push_bit 8 seq OR ucast (c :: u8)) AND 0xff :: u64) = c"
  by (rule bit_word_eqI) (auto simp: and_ff bit_simps)

lemma tag_sequence:
  assumes "unat seq < 2 ^ 56"
  shows "drop_bit 8 (push_bit 8 seq OR ucast (c :: u8) :: u64) = seq"
proof -
  have "take_bit 56 seq = seq"
    using assms by (simp only: word_unat_eq_iff unsigned_take_bit_eq) (simp add: take_bit_eq_mod)
  then have "bit seq n \<Longrightarrow> n < 56" for n by (metis bit_take_bit_iff)
  then show ?thesis
    by (intro bit_word_eqI) (auto simp: bit_simps dest: bit_imp_le_length)
qed

lemma internal_key_parts:
  "length (u @ encode_fixed64 t) - 8 = length u"
  "extract_user_key (u @ encode_fixed64 t) = Some u"
  "decode_fixed64 (drop (length (u @ encode_fixed64 t) - 8) (u @ encode_fixed64 t)) = Some t"
  by (simp_all add: extract_user_key_def)

lemma bit_word_of_bytes:
  "bit (word_of_bytes bs :: 'a::len word) i \<longleftrightarrow>
     i < LENGTH('a) \<and> i < 8 * length bs \<and> bit (bs ! (i div 8)) (i mod 8)"
proof (induction bs arbitrary: i)
  case (Cons b bs)
  show ?case
  proof (cases "i < 8")
    case True
    then show ?thesis by (auto simp: bit_simps)
  next
    case False
    then obtain j where "i = j + 8" by (metis add.commute le_Suc_ex not_less)
    moreover have "(j + 8) div 8 = Suc (j div 8)" by simp
    ultimately show ?thesis using Cons.IH [of j] by (auto simp: bit_simps dest: bit_imp_le_length)
  qed
qed simp

lemma word_of_bytes_inject:
  assumes "word_of_bytes p = (word_of_bytes q :: 'a::len word)" "length p = length q"
    "8 * length p \<le> LENGTH('a)"
  shows "p = q"
proof (rule nth_equalityI)
  show "p ! j = q ! j" if "j < length p" for j
  proof (rule bit_word_eqI)
    fix n :: nat assume n: "n < LENGTH(8)"
    with that assms(3) have "8 * j + n < 8 * length p" "8 * j + n < LENGTH('a)" by simp_all
    with n assms(2) arg_cong [OF assms(1), of "\<lambda>w. bit w (8 * j + n)"]
    show "bit (p ! j) n \<longleftrightarrow> bit (q ! j) n" by (simp add: bit_word_of_bytes)
  qed
qed (rule assms(2))

lemma decode_fixed64_inject:
  "length p = 8 \<Longrightarrow> length q = 8 \<Longrightarrow> decode_fixed64 p = decode_fixed64 q \<Longrightarrow> p = q"
  by (rule word_of_bytes_inject [where 'a = 64]) (simp_all add: decode_fixed64_eq)

text \<open>The tag of a key of at least eight bytes.\<close>

definition key_user :: "slice \<Rightarrow> slice" where
  "key_user k = take (length k - 8) k"

definition key_tag :: "slice \<Rightarrow> u64" where
  "key_tag k = word_of_bytes (drop (length k - 8) k)"

lemma key_parts:
  assumes "8 \<le> length k"
  shows "extract_user_key k = Some (key_user k)"
    and "decode_fixed64 (drop (length k - 8) k) = Some (key_tag k)"
  using assms by (simp_all add: extract_user_key_def key_user_def key_tag_def decode_fixed64_eq)

lemma key_eq_iff:
  assumes "8 \<le> length a" "8 \<le> length b"
  shows "a = b \<longleftrightarrow> key_user a = key_user b \<and> key_tag a = key_tag b"
proof
  assume parts: "key_user a = key_user b \<and> key_tag a = key_tag b"
  then have "drop (length a - 8) a = drop (length b - 8) b"
    using assms by (intro word_of_bytes_inject [where 'a = 64]) (simp_all add: key_tag_def)
  with parts show "a = b"
    unfolding key_user_def by (metis append_take_drop_id)
qed simp

lemma append_internal_key_eq:
  assumes "pk_sequence k \<le> kMaxSequenceNumber"
  shows "append_internal_key r k = Some (r @ pk_user_key k @
     encode_fixed64 (push_bit 8 (pk_sequence k) OR ucast (value_type_code (pk_type k))))"
  using assms by (simp add: append_internal_key_def pack_sequence_and_type_def put_fixed64_def)

lemma parse_append:
  assumes "pk_sequence k \<le> kMaxSequenceNumber"
  shows "parse_internal_key (pk_user_key k @
     encode_fixed64 (push_bit 8 (pk_sequence k) OR ucast (value_type_code (pk_type k)))) = Some k"
  using tag_sequence [of "pk_sequence k" "value_type_code (pk_type k)"] assms
  by (simp add: parse_internal_key_def tag_type max_sequence del: ucast_and_ff)

lemma seek_tag_max:
  "pack_sequence_and_type kMaxSequenceNumber kValueTypeForSeek = Some 0xFFFFFFFFFFFFFF01"
  by (simp add: pack_sequence_and_type_def kMaxSequenceNumber_def kValueTypeForSeek_def
    value_type_code_def)

subsection \<open>The internal comparator\<close>

context comparator_laws
begin

definition internal_valid :: "slice \<Rightarrow> bool" where
  "internal_valid k \<longleftrightarrow> 8 \<le> length k \<and> valid (key_user k)"

lemma internal_compare_cases:
  assumes "internal_valid a" "internal_valid b"
  obtains r where "internal_compare cmp a b = Some r"
    "r < 0 \<longleftrightarrow> before (key_user a) (key_user b) \<or> key_user a = key_user b \<and> key_tag b < key_tag a"
    "0 < r \<longleftrightarrow> before (key_user b) (key_user a) \<or> key_user b = key_user a \<and> key_tag a < key_tag b"
    "r = 0 \<longleftrightarrow> a = b"
proof -
  from assms have len: "8 \<le> length a" "8 \<le> length b" and v: "valid (key_user a)" "valid (key_user b)"
    by (simp_all add: internal_valid_def)
  from compare_defined [OF v] obtain r where r: "compare cmp (key_user a) (key_user b) = Some r" ..
  from compare_zero [OF v] r have z: "r = 0 \<longleftrightarrow> key_user a = key_user b" by simp
  show thesis
  proof (cases "r = 0")
    case True
    with z have eq: "key_user a = key_user b" by simp
    define s where "s = (if key_tag b < key_tag a then -1 else if key_tag a < key_tag b then 1 else (0 :: int))"
    have "internal_compare cmp a b = Some s"
      using len r True eq by (simp add: internal_compare_def key_parts s_def)
    moreover have "\<not> before (key_user b) (key_user b)" using v(2) by (rule before_irrefl)
    ultimately show thesis
      using eq key_eq_iff [OF len] by (intro that [of s]) (auto simp: s_def)
  next
    case False
    with z have ne: "key_user a \<noteq> key_user b" by simp
    have "internal_compare cmp a b = Some r"
      using len r False by (simp add: internal_compare_def key_parts)
    with False ne compare_neg [OF v r] compare_pos [OF v r] key_eq_iff [OF len] show thesis
      by (intro that [of r]) auto
  qed
qed

text \<open>The order of internal keys.\<close>

definition internal_before :: "slice \<Rightarrow> slice \<Rightarrow> bool" where
  "internal_before a b \<longleftrightarrow>
     before (key_user a) (key_user b) \<or> key_user a = key_user b \<and> key_tag b < key_tag a"

lemma internal_compare_sign:
  assumes "internal_valid a" "internal_valid b"
  shows "\<exists>r. internal_compare cmp a b = Some r \<and> (r < 0 \<longleftrightarrow> internal_before a b) \<and>
     (0 < r \<longleftrightarrow> internal_before b a) \<and> (r = 0 \<longleftrightarrow> a = b)"
proof (rule internal_compare_cases [OF assms])
  fix r
  assume "internal_compare cmp a b = Some r"
    "r < 0 \<longleftrightarrow> before (key_user a) (key_user b) \<or> key_user a = key_user b \<and> key_tag b < key_tag a"
    "0 < r \<longleftrightarrow> before (key_user b) (key_user a) \<or> key_user b = key_user a \<and> key_tag a < key_tag b"
    "r = 0 \<longleftrightarrow> a = b"
  then show ?thesis unfolding internal_before_def by (intro exI [of _ r] conjI)
qed

lemma internal_before_trans:
  "internal_valid a \<Longrightarrow> internal_valid b \<Longrightarrow> internal_valid c \<Longrightarrow>
     internal_before a b \<Longrightarrow> internal_before b c \<Longrightarrow> internal_before a c"
  unfolding internal_before_def internal_valid_def
  using before_trans [of "key_user a" "key_user b" "key_user c"] by auto

lemma key_of_parts [simp]:
  "key_user (u @ encode_fixed64 t) = u" "key_tag (u @ encode_fixed64 t) = t"
  by (simp_all add: key_user_def key_tag_def)

lemma internal_valid_parts [simp]: "internal_valid (u @ encode_fixed64 t) \<longleftrightarrow> valid u"
  by (simp add: internal_valid_def)

text \<open>What the two shortening operations return: the key itself, or a shorter user key with the
  largest tag.\<close>

lemma internal_separator_cases:
  assumes "internal_valid s" "internal_valid l" "internal_before s l"
  shows "internal_find_shortest_separator cmp s l = Some s \<or>
     (\<exists>u. internal_find_shortest_separator cmp s l = Some (u @ encode_fixed64 0xFFFFFFFFFFFFFF01) \<and>
        valid u \<and> before (key_user s) u \<and> before u (key_user l))"
proof -
  from assms have len: "8 \<le> length s" "8 \<le> length l" and v: "valid (key_user s)" "valid (key_user l)"
    by (simp_all add: internal_valid_def)
  show ?thesis
  proof (cases "before (key_user s) (key_user l)")
    case False
    then have "find_shortest_separator cmp (key_user s) (key_user l) = Some (key_user s)"
      using v by (simp add: separator_unchanged)
    with len show ?thesis by (simp add: internal_find_shortest_separator_def key_parts)
  next
    case True
    with separator [OF v] obtain t where t: "find_shortest_separator cmp (key_user s) (key_user l) = Some t"
      "valid t" "before t (key_user l)"
      unfolding before_def by blast
    from compare_defined [OF v(1) t(2)] obtain r where r: "compare cmp (key_user s) t = Some r" ..
    let ?u = "t @ encode_fixed64 0xFFFFFFFFFFFFFF01"
    have u: "internal_valid ?u" using t(2) by simp
    have "\<exists>r. internal_compare cmp s ?u = Some r \<and> r < 0" if "before (key_user s) t"
      using internal_compare_sign [OF assms(1) u] that by (auto simp: internal_before_def)
    moreover have "\<exists>r. internal_compare cmp ?u l = Some r \<and> r < 0"
      using internal_compare_sign [OF u assms(2)] t(3) by (auto simp: internal_before_def)
    ultimately show ?thesis
      using len t r compare_neg [OF v(1) t(2) r]
      by (auto simp: internal_find_shortest_separator_def key_parts seek_tag_max put_fixed64_def)
  qed
qed

lemma internal_successor_cases:
  assumes "internal_valid k"
  shows "internal_find_short_successor cmp k = Some k \<or>
     (\<exists>u. internal_find_short_successor cmp k = Some (u @ encode_fixed64 0xFFFFFFFFFFFFFF01) \<and>
        valid u \<and> before (key_user k) u)"
proof -
  from assms have len: "8 \<le> length k" and v: "valid (key_user k)" by (simp_all add: internal_valid_def)
  from successor [OF v] obtain t where t: "find_short_successor cmp (key_user k) = Some t" "valid t"
    by blast
  from compare_defined [OF v t(2)] obtain r where r: "compare cmp (key_user k) t = Some r" ..
  have u: "internal_valid (t @ encode_fixed64 0xFFFFFFFFFFFFFF01)" using t(2) by simp
  have "\<exists>r. internal_compare cmp k (t @ encode_fixed64 0xFFFFFFFFFFFFFF01) = Some r \<and> r < 0"
    if "before (key_user k) t"
    using internal_compare_sign [OF assms u] that by (auto simp: internal_before_def)
  then show ?thesis
    using len t r compare_neg [OF v t(2) r]
    by (auto simp: internal_find_short_successor_def key_parts seek_tag_max put_fixed64_def)
qed

lemma internal_before_irrefl: "internal_valid k \<Longrightarrow> \<not> internal_before k k"
  by (simp add: internal_before_def internal_valid_def before_irrefl)

lemma internal_compare_le:
  assumes "internal_valid a" "internal_valid b" "a = b \<or> internal_before a b"
  shows "\<exists>r. internal_compare cmp a b = Some r \<and> r \<le> 0"
  using internal_compare_sign [OF assms(1,2)] assms(3) by force

theorem internal_laws: "comparator_laws (internal_comparator cmp) internal_valid"
proof
  note sign = internal_compare_sign
  fix a b c s l k :: slice and r r' :: int
  assume v: "internal_valid a" "internal_valid b" "internal_valid c"
  from sign [OF v(1,2)] show "\<exists>r. compare (internal_comparator cmp) a b = Some r"
    by (auto simp: internal_comparator_def)
  from sign [OF v(1,2)] show "compare (internal_comparator cmp) a b = Some 0 \<longleftrightarrow> a = b"
    by (auto simp: internal_comparator_def)
  show "\<exists>r'. compare (internal_comparator cmp) b a = Some r' \<and> 0 < r'"
    if "compare (internal_comparator cmp) a b = Some r" "r < 0"
    using that sign [OF v(1,2)] sign [OF v(2,1)] by (auto simp: internal_comparator_def)
  show "\<exists>r'. compare (internal_comparator cmp) b a = Some r' \<and> r' < 0"
    if "compare (internal_comparator cmp) a b = Some r" "0 < r"
    using that sign [OF v(1,2)] sign [OF v(2,1)] by (auto simp: internal_comparator_def)
  show "\<exists>r''. compare (internal_comparator cmp) a c = Some r'' \<and> r'' < 0"
    if "compare (internal_comparator cmp) a b = Some r" "r < 0"
      "compare (internal_comparator cmp) b c = Some r'" "r' < 0"
    using that sign [OF v(1,2)] sign [OF v(2,3)] sign [OF v(1,3)] internal_before_trans [OF v]
    by (auto simp: internal_comparator_def)
next
  fix s l :: slice and r :: int
  assume v: "internal_valid s" "internal_valid l"
    and r: "compare (internal_comparator cmp) s l = Some r"
  show "\<exists>t. find_shortest_separator (internal_comparator cmp) s l = Some t \<and> internal_valid t \<and>
      (\<exists>r. compare (internal_comparator cmp) s t = Some r \<and> r \<le> 0) \<and>
      (\<exists>r. compare (internal_comparator cmp) t l = Some r \<and> r < 0)" if "r < 0"
  proof -
    from that r internal_compare_sign [OF v] have b: "internal_before s l"
      by (auto simp: internal_comparator_def)
    have ok: "internal_valid t \<Longrightarrow> s = t \<or> internal_before s t \<Longrightarrow> internal_before t l \<Longrightarrow>
        (\<exists>r. internal_compare cmp s t = Some r \<and> r \<le> 0) \<and>
        (\<exists>r. internal_compare cmp t l = Some r \<and> r < 0)" for t
      using internal_compare_le [of s t] internal_compare_sign [of t l] v by auto
    from internal_separator_cases [OF v b] show ?thesis
    proof
      assume "internal_find_shortest_separator cmp s l = Some s"
      with ok [of s] v b show ?thesis by (simp add: internal_comparator_def)
    next
      assume "\<exists>u. internal_find_shortest_separator cmp s l = Some (u @ encode_fixed64 0xFFFFFFFFFFFFFF01) \<and>
        valid u \<and> before (key_user s) u \<and> before u (key_user l)"
      then obtain u where u: "internal_find_shortest_separator cmp s l =
          Some (u @ encode_fixed64 0xFFFFFFFFFFFFFF01)"
        "valid u" "before (key_user s) u" "before u (key_user l)" by blast
      then show ?thesis using ok [of "u @ encode_fixed64 0xFFFFFFFFFFFFFF01"]
        by (simp add: internal_comparator_def internal_before_def)
    qed
  qed
  show "find_shortest_separator (internal_comparator cmp) s l = Some s" if "0 \<le> r"
  proof -
    from that r internal_compare_sign [OF v] have "\<not> internal_before s l"
      by (auto simp: internal_comparator_def)
    then have "\<not> before (key_user s) (key_user l)" by (simp add: internal_before_def)
    with v have "find_shortest_separator cmp (key_user s) (key_user l) = Some (key_user s)"
      by (simp add: separator_unchanged internal_valid_def)
    with v show ?thesis
      by (simp add: internal_comparator_def internal_find_shortest_separator_def key_parts
          internal_valid_def)
  qed
next
  fix k :: slice
  assume v: "internal_valid k"
  from internal_successor_cases [OF v]
  show "\<exists>t. find_short_successor (internal_comparator cmp) k = Some t \<and> internal_valid t \<and>
      (\<exists>r. compare (internal_comparator cmp) k t = Some r \<and> r \<le> 0)"
    using internal_compare_le [OF v] v by (fastforce simp: internal_comparator_def internal_before_def)
qed

end

interpretation internal: comparator_laws "internal_comparator bytewise_comparator" bytewise.internal_valid
  by (rule bytewise.internal_laws)

end
