(* ===== verification/LdStatus.thy ===== *)
theory LdStatus
  imports LdCodingOk
begin

text \<open>
  Results and text: \<open>Status\<close> (\<open>include/leveldb/status.h\<close>, \<open>util/status.cc\<close>) and the number and
  escape formats of \<open>util/logging.cc\<close>.  Text is the list of its bytes.
\<close>

definition ascii :: "string \<Rightarrow> u8 list" where
  "ascii s = map of_char s"

lemma length_ascii [simp]: "length (ascii s) = length s"
  by (simp add: ascii_def)

subsection \<open>Status\<close>

datatype status_code = KNotFound | KCorruption | KNotSupported | KInvalidArgument | KIOError

text \<open>A null \<open>state_\<close>, or a code and a message.\<close>

datatype status = StatusOK | StatusError status_code "u8 list"

definition make_status :: "status_code \<Rightarrow> slice \<Rightarrow> slice \<Rightarrow> status" where
  "make_status code msg msg2 =
     StatusError code (if msg2 \<noteq> [] then msg @ ascii '': '' @ msg2 else msg)"

definition status_ok :: "status \<Rightarrow> bool" where
  "status_ok s \<longleftrightarrow> s = StatusOK"

definition status_is :: "status_code \<Rightarrow> status \<Rightarrow> bool" where
  "status_is c s = (case s of StatusOK \<Rightarrow> False | StatusError c' m \<Rightarrow> c' = c)"

definition corruption :: "string \<Rightarrow> status" where
  "corruption msg = make_status KCorruption (ascii msg) []"

definition io_error :: "slice \<Rightarrow> slice \<Rightarrow> status" where
  "io_error context err = make_status KIOError context err"

definition status_to_string :: "status \<Rightarrow> u8 list" where
  "status_to_string s =
     (case s of
        StatusOK \<Rightarrow> ascii ''OK''
      | StatusError c msg \<Rightarrow>
          (case c of
             KNotFound \<Rightarrow> ascii ''NotFound: ''
           | KCorruption \<Rightarrow> ascii ''Corruption: ''
           | KNotSupported \<Rightarrow> ascii ''Not implemented: ''
           | KInvalidArgument \<Rightarrow> ascii ''Invalid argument: ''
           | KIOError \<Rightarrow> ascii ''IO error: '') @ msg)"

lemma status_ok_simps [simp]:
  "status_ok StatusOK" "\<not> status_ok (StatusError c m)" "\<not> status_ok (make_status c m m')"
  "\<not> status_ok (corruption s)" "\<not> status_ok (io_error m m')"
  by (simp_all add: status_ok_def make_status_def corruption_def io_error_def)

subsection \<open>Decimal numbers\<close>

text \<open>What \<open>snprintf\<close> makes of \<open>%llu\<close>.\<close>

fun decimal :: "nat \<Rightarrow> u8 list" where
  "decimal n = (if n < 10 then [of_nat (48 + n)] else decimal (n div 10) @ [of_nat (48 + n mod 10)])"

declare decimal.simps [simp del]

definition append_number_to :: "u8 list \<Rightarrow> u64 \<Rightarrow> u8 list" where
  "append_number_to str num = str @ decimal (unat num)"

definition number_to_string :: "u64 \<Rightarrow> u8 list" where
  "number_to_string num = append_number_to [] num"

text \<open>The loop of \<open>ConsumeDecimalNumber\<close>: what is left of the input when it stops, and the number
  and the count of its digits, or \<open>None\<close> when the number does not fit.\<close>

fun consume_loop :: "slice \<Rightarrow> u64 \<Rightarrow> nat \<Rightarrow> (u64 \<times> nat) option \<times> slice" where
  "consume_loop [] v digits = (Some (v, digits), [])"
| "consume_loop (c # inp) v digits =
     (if 48 \<le> sint c \<and> sint c \<le> 57 then
        let delta = nat (sint c - 48) in
        if v > (- 1) div 10 \<or> (v = (- 1) div 10 \<and> delta > unat ((- 1 :: u64) mod 10))
        then (None, c # inp)
        else consume_loop inp (v * 10 + of_nat delta) (digits + 1)
      else (Some (v, digits), c # inp))"

definition consume_decimal_number :: "slice \<Rightarrow> u64 option \<times> slice" where
  "consume_decimal_number inp =
     (case consume_loop inp 0 0 of
        (None, r) \<Rightarrow> (None, r)
      | (Some (v, digits), r) \<Rightarrow> (if digits > 0 then Some v else None, r))"

subsection \<open>Escapes\<close>

definition hex_digit :: "nat \<Rightarrow> u8" where
  "hex_digit d = (if d < 10 then of_nat (48 + d) else of_nat (87 + d))"

definition escape_char :: "u8 \<Rightarrow> u8 list" where
  "escape_char c =
     (if 32 \<le> sint c \<and> sint c \<le> 126 then [c]
      else ascii [CHR 0x5C, CHR ''x''] @ [hex_digit (unat c div 16), hex_digit (unat c mod 16)])"

definition append_escaped_string_to :: "u8 list \<Rightarrow> slice \<Rightarrow> u8 list" where
  "append_escaped_string_to str v = str @ concat (map escape_char v)"

definition escape_string :: "slice \<Rightarrow> u8 list" where
  "escape_string v = append_escaped_string_to [] v"

subsection \<open>Reading back a number\<close>

definition is_digit :: "u8 \<Rightarrow> bool" where
  "is_digit c \<longleftrightarrow> 48 \<le> unat c \<and> unat c \<le> 57"

lemma sint_u8: "sint (c :: u8) = (if unat c < 128 then int (unat c) else int (unat c) - 256)"
proof -
  have "\<forall>n \<in> set [0..<256]. sint (of_nat n :: u8) = (if n < 128 then int n else int n - 256)"
    by code_simp
  moreover have "unat c \<in> set [0..<256]" unfolding set_upt using unat_u8_less [of c] by simp
  ultimately have "sint (of_nat (unat c) :: u8) = (if unat c < 128 then int (unat c) else int (unat c) - 256)"
    by (rule bspec)
  then show ?thesis by simp
qed

lemma digit_range: "48 \<le> sint c \<and> sint c \<le> 57 \<longleftrightarrow> is_digit c"
  using unat_u8_less [of c] by (simp only: sint_u8 is_digit_def split: if_split) linarith

text \<open>The number a string of digits stands for.\<close>

primrec digits_value :: "u8 list \<Rightarrow> nat \<Rightarrow> nat" where
  "digits_value [] v = v"
| "digits_value (c # cs) v = digits_value cs (10 * v + (unat c - 48))"

lemma digits_value_append: "digits_value (a @ b) v = digits_value b (digits_value a v)"
  by (induction a arbitrary: v) simp_all

lemma digits_value_mono: "v \<le> digits_value cs v"
proof (induction cs arbitrary: v)
  case (Cons c cs)
  have "v \<le> 10 * v + (unat c - 48)" by simp
  also have "\<dots> \<le> digits_value cs (10 * v + (unat c - 48))" by (rule Cons.IH)
  finally show ?case by simp
qed simp

lemma decimal_digits: "c \<in> set (decimal n) \<Longrightarrow> is_digit c"
proof (induction n rule: decimal.induct)
  case (1 n)
  have "is_digit (of_nat (48 + d))" if "d < 10" for d
    using that unat_of_nat_u8 [of "48 + d"] by (simp add: is_digit_def)
  with 1 show ?case
    by (subst (asm) (2) decimal.simps) (auto split: if_splits simp del: of_nat_add)
qed

lemma decimal_value: "digits_value (decimal n) 0 = n"
proof (induction n rule: decimal.induct)
  case (1 n)
  have "unat (of_nat (48 + d) :: u8) - 48 = d" if "d < 10" for d
    using that unat_of_nat_u8 [of "48 + d"] by simp
  with 1 show ?case
    by (subst decimal.simps) (simp add: digits_value_append del: of_nat_add)
qed

lemma decimal_not_Nil [simp]: "decimal n \<noteq> []"
  by (subst decimal.simps) simp


lemma max_u64: "((- 1) div 10 :: u64) = 1844674407370955161" "unat ((- 1 :: u64) mod 10) = 5"
proof -
  have "unat (- 1 :: u64) = 18446744073709551615" by (simp add: unsigned_minus_1_eq_mask mask_eq_exp_minus_1)
  then have "unat ((- 1) div 10 :: u64) = 1844674407370955161" "unat ((- 1 :: u64) mod 10) = 5"
    by (simp_all add: unat_div unat_mod)
  then show "((- 1) div 10 :: u64) = 1844674407370955161" "unat ((- 1 :: u64) mod 10) = 5"
    by (simp_all add: word_unat_eq_iff)
qed

lemma consume_overflow:
  fixes v :: u64
  assumes "d < 10"
  shows "v > (- 1) div 10 \<or> (v = (- 1) div 10 \<and> d > unat ((- 1 :: u64) mod 10)) \<longleftrightarrow>
     \<not> 10 * unat v + d < 18446744073709551616"
  unfolding max_u64 using assms
  by (auto simp: word_less_nat_alt word_unat_eq_iff)

lemma consume_loop_digits:
  assumes "\<forall>c \<in> set cs. is_digit c" "r = [] \<or> \<not> is_digit (hd r)"
  shows "if digits_value cs (unat v) < 18446744073709551616
     then consume_loop (cs @ r) v k = (Some (of_nat (digits_value cs (unat v)), k + length cs), r)
     else fst (consume_loop (cs @ r) v k) = None"
  using assms(1)
proof (induction cs arbitrary: v k)
  case Nil
  with assms(2) show ?case by (cases r) (simp_all add: digit_range)
next
  case (Cons c cs)
  then have c: "is_digit c" by simp
  define d where "d = unat c - 48"
  from c have "unat c < 128" "48 \<le> unat c" and ten: "d < 10" by (auto simp: is_digit_def d_def)
  moreover from this have "sint c = int (unat c)" by (simp only: sint_u8 if_True)
  ultimately have d: "nat (sint c - 48) = d" unfolding d_def by linarith
  show ?case
  proof (cases "10 * unat v + d < 18446744073709551616")
    case True
    then have u: "unat (v * 10 + of_nat d) = 10 * unat v + d"
      using ten by (simp add: unat_word_ariths unat_of_nat mult.commute)
    from True consume_overflow [OF ten, of v]
    have no: "\<not> (v > (- 1) div 10 \<or> (v = (- 1) div 10 \<and> d > unat ((- 1 :: u64) mod 10)))" by blast
    have "consume_loop ((c # cs) @ r) v k = consume_loop (cs @ r) (v * 10 + of_nat d) (k + 1)"
      using c by (simp only: append_Cons consume_loop.simps digit_range simp_thms if_True Let_def d
          if_not_P [OF no])
    with Cons.IH [of "v * 10 + of_nat d" "k + 1"] Cons.prems u show ?thesis
      by (simp add: d_def [symmetric] del: consume_loop.simps split: if_splits)
  next
    case False
    with consume_overflow [OF ten, of v]
    have yes: "v > (- 1) div 10 \<or> (v = (- 1) div 10 \<and> d > unat ((- 1 :: u64) mod 10))" by blast
    have "fst (consume_loop ((c # cs) @ r) v k) = None"
      using c by (simp only: append_Cons consume_loop.simps digit_range simp_thms if_True Let_def d
          if_P [OF yes] fst_conv)
    moreover have "\<not> digits_value cs (10 * unat v + d) < 18446744073709551616"
      using False digits_value_mono [of "10 * unat v + d" cs] by linarith
    ultimately show ?thesis by (simp add: d_def [symmetric] del: consume_loop.simps)
  qed
qed

text \<open>A digit string is read as its value, or refused when that needs more than 64 bits.\<close>

lemma consume_decimal_number_spec:
  assumes "\<forall>c \<in> set cs. is_digit c" "cs \<noteq> []" "r = [] \<or> \<not> is_digit (hd r)"
  shows "if digits_value cs 0 < 18446744073709551616
     then consume_decimal_number (cs @ r) = (Some (of_nat (digits_value cs 0)), r)
     else fst (consume_decimal_number (cs @ r)) = None"
  using consume_loop_digits [OF assms(1,3), of 0 0] assms(2)
  by (auto simp: consume_decimal_number_def split: if_splits prod.splits option.splits)

end
