(* ===== verification/LdBloom.thy ===== *)
theory LdBloom
  imports LdDbFormatOk LdStatus
begin

text \<open>
  The hash (\<open>util/hash.cc\<close>), the \<open>FilterPolicy\<close> interface (\<open>include/leveldb/filter_policy.h\<close>), the
  Bloom filter (\<open>util/bloom.cc\<close>) and the wrapper for internal keys (\<open>db/dbformat.cc\<close>).

  \<open>size_t\<close> arithmetic that can wrap is done on 64-bit words.  A division by a size that wrapped to
  zero, and the conversion of a negative \<open>double\<close> to \<open>size_t\<close>, have no result (\<open>None\<close>).
\<close>

subsection \<open>\<open>Hash\<close>\<close>

definition hash_m :: u32 where
  "hash_m = 0xc6a4a793"

fun hash_words :: "u32 \<Rightarrow> u8 list \<Rightarrow> u32 \<times> u8 list" where
  "hash_words h (a # b # c # d # data) =
     (let w = word_of_bytes [a, b, c, d]; h = h + w; h = h * hash_m; h = h XOR drop_bit 16 h in
      hash_words h data)"
| "hash_words h data = (h, data)"

definition hash_tail :: "u32 \<Rightarrow> u8 list \<Rightarrow> u32" where
  "hash_tail h data =
     (let h = if length data \<ge> 3 then h + push_bit 16 (ucast (data ! 2)) else h;
          h = if length data \<ge> 2 then h + push_bit 8 (ucast (data ! 1)) else h in
      if length data \<ge> 1 then
        let h = h + ucast (data ! 0); h = h * hash_m in h XOR drop_bit 24 h
      else h)"

definition hash_bytes :: "u8 list \<Rightarrow> u32 \<Rightarrow> u32" where
  "hash_bytes data seed =
     (let h = seed XOR ucast (of_nat (length data) * ucast hash_m :: u64);
          (h, data) = hash_words h data in
      hash_tail h data)"

subsection \<open>The interface\<close>

record filter_policy =
  policy_name :: "u8 list"
  create_filter :: "slice list \<Rightarrow> u8 list \<Rightarrow> u8 list option"
  key_may_match :: "slice \<Rightarrow> slice \<Rightarrow> bool option"

text \<open>The contract: the filter is appended to \<open>dst\<close>, and every key it was made from matches.\<close>

locale filter_policy_laws =
  fixes policy :: filter_policy
  assumes appends: "create_filter policy keys dst = Some dst' \<Longrightarrow> \<exists>f. dst' = dst @ f"
    and matches: "create_filter policy keys dst = Some (dst @ f) \<Longrightarrow> k \<in> set keys \<Longrightarrow>
          key_may_match policy k f = Some True"

subsection \<open>The Bloom filter\<close>

definition bloom_hash :: "slice \<Rightarrow> u32" where
  "bloom_hash key = hash_bytes key 0xbc9f1d34"

text \<open>\<open>k_\<close>: 0.69 times \<open>bits_per_key\<close> rounded towards zero, between 1 and 30.  The product is a
  whole number only for multiples of 100, far above the upper limit, so the rounding of the
  \<open>double\<close> product cannot change it.\<close>

definition bloom_k :: "int \<Rightarrow> nat option" where
  "bloom_k bits_per_key =
     (if bits_per_key < -1 then None
      else
        let k = nat (69 * bits_per_key div 100) in
        Some (if k < 1 then 1 else if k > 30 then 30 else k))"

definition bloom_delta :: "u32 \<Rightarrow> u32" where
  "bloom_delta h = drop_bit 17 h OR push_bit 15 h"

definition set_bit_at :: "u8 list \<Rightarrow> nat \<Rightarrow> u8 list" where
  "set_bit_at array bitpos =
     array[bitpos div 8 := (array ! (bitpos div 8)) OR push_bit (bitpos mod 8) 1]"

definition bit_at :: "u8 list \<Rightarrow> nat \<Rightarrow> bool" where
  "bit_at array bitpos \<longleftrightarrow> (array ! (bitpos div 8)) AND push_bit (bitpos mod 8) 1 \<noteq> 0"

text \<open>\<open>h % bits\<close>, computed as 64-bit numbers.\<close>

definition bloom_bitpos :: "u32 \<Rightarrow> u64 \<Rightarrow> nat" where
  "bloom_bitpos h bits = unat (ucast (ucast h mod bits) :: u32)"

primrec bloom_add_loop :: "nat \<Rightarrow> u64 \<Rightarrow> u32 \<Rightarrow> u32 \<Rightarrow> u8 list \<Rightarrow> u8 list" where
  "bloom_add_loop 0 bits delta h array = array"
| "bloom_add_loop (Suc k) bits delta h array =
     bloom_add_loop k bits delta (h + delta) (set_bit_at array (bloom_bitpos h bits))"

primrec bloom_add_keys :: "nat \<Rightarrow> u64 \<Rightarrow> slice list \<Rightarrow> u8 list \<Rightarrow> u8 list" where
  "bloom_add_keys k bits [] array = array"
| "bloom_add_keys k bits (key # keys) array =
     (let h = bloom_hash key; delta = bloom_delta h in
      bloom_add_keys k bits keys (bloom_add_loop k bits delta h array))"

definition bloom_create_filter :: "int \<Rightarrow> slice list \<Rightarrow> u8 list \<Rightarrow> u8 list option" where
  "bloom_create_filter bits_per_key keys dst =
     do {
       k \<leftarrow> bloom_k bits_per_key;
       let bits = (of_nat (length keys) * of_int bits_per_key :: u64);
       let bits = (if bits < 64 then 64 else bits);
       let bytes = (bits + 7) div 8;
       let bits = bytes * 8;
       if bits = 0 then None
       else Some (dst @ bloom_add_keys k bits keys (replicate (unat bytes) 0) @ [of_nat k])
     }"

primrec bloom_match_loop :: "nat \<Rightarrow> u64 \<Rightarrow> u32 \<Rightarrow> u32 \<Rightarrow> u8 list \<Rightarrow> bool" where
  "bloom_match_loop 0 bits delta h array = True"
| "bloom_match_loop (Suc k) bits delta h array =
     (if \<not> bit_at array (bloom_bitpos h bits) then False
      else bloom_match_loop k bits delta (h + delta) array)"

definition bloom_key_may_match :: "slice \<Rightarrow> slice \<Rightarrow> bool" where
  "bloom_key_may_match key bloom_filter =
     (let len = length bloom_filter in
      if len < 2 then False
      else
        let bits = of_nat ((len - 1) * 8) :: u64;
            k = scast (bloom_filter ! (len - 1)) :: u64 in
        if k > 30 then True
        else
          let h = bloom_hash key; delta = bloom_delta h in
          bloom_match_loop (unat k) bits delta h bloom_filter)"

definition bloom_filter_policy :: "int \<Rightarrow> filter_policy" where
  "bloom_filter_policy bits_per_key =
     \<lparr>policy_name = ascii ''leveldb.BuiltinBloomFilter2'',
      create_filter = bloom_create_filter bits_per_key,
      key_may_match = (\<lambda>key f. Some (bloom_key_may_match key f))\<rparr>"

subsection \<open>The policy for internal keys\<close>

definition extract_user_keys :: "slice list \<Rightarrow> slice list option" where
  "extract_user_keys keys = those (map extract_user_key keys)"

definition internal_create_filter :: "filter_policy \<Rightarrow> slice list \<Rightarrow> u8 list \<Rightarrow> u8 list option" where
  "internal_create_filter user keys dst =
     do { mkeys \<leftarrow> extract_user_keys keys; create_filter user mkeys dst }"

definition internal_key_may_match :: "filter_policy \<Rightarrow> slice \<Rightarrow> slice \<Rightarrow> bool option" where
  "internal_key_may_match user key f =
     do { u \<leftarrow> extract_user_key key; key_may_match user u f }"

definition internal_filter_policy :: "filter_policy \<Rightarrow> filter_policy" where
  "internal_filter_policy user =
     \<lparr>policy_name = policy_name user, create_filter = internal_create_filter user,
      key_may_match = internal_key_may_match user\<rparr>"

subsection \<open>Every key that was added matches\<close>

lemma length_set_bit_at [simp]: "length (set_bit_at array i) = length array"
  by (simp add: set_bit_at_def)

lemma bit_at_iff: "bit_at array i \<longleftrightarrow> bit (array ! (i div 8)) (i mod 8)"
  using and_exp_eq_0_iff_not_bit [of "array ! (i div 8)" "i mod 8"]
  by (simp add: bit_at_def push_bit_eq_mult)

lemma bit_at_set: "i div 8 < length array \<Longrightarrow> bit_at (set_bit_at array i) i"
  by (simp add: bit_at_iff set_bit_at_def bit_simps)

lemma bit_at_keep: "bit_at array j \<Longrightarrow> bit_at (set_bit_at array i) j"
  by (cases "i div 8 < length array"; cases "i div 8 = j div 8")
    (simp_all add: bit_at_iff set_bit_at_def bit_simps list_update_beyond)

lemma length_bloom_add [simp]:
  "length (bloom_add_loop k bits delta h array) = length array"
  "length (bloom_add_keys k bits keys array) = length array"
proof -
  show l: "length (bloom_add_loop k bits delta h array) = length array" for delta h array
    by (induction k arbitrary: h array) simp_all
  show "length (bloom_add_keys k bits keys array) = length array"
    by (induction keys arbitrary: array) (simp_all add: Let_def l)
qed

lemma bloom_add_loop_keep: "bit_at array j \<Longrightarrow> bit_at (bloom_add_loop k bits delta h array) j"
  by (induction k arbitrary: h array) (simp_all add: bit_at_keep)

lemma bloom_match_loop_mono:
  "(\<And>j. bit_at a j \<Longrightarrow> bit_at b j) \<Longrightarrow> bloom_match_loop k bits delta h a \<Longrightarrow>
     bloom_match_loop k bits delta h b"
  by (induction k arbitrary: h) (auto split: if_splits)

lemma bloom_add_keys_keep: "bit_at array j \<Longrightarrow> bit_at (bloom_add_keys k bits keys array) j"
  by (induction keys arbitrary: array) (simp_all add: Let_def bloom_add_loop_keep)

lemma bitpos_inside:
  assumes "unat bits = 8 * n" "0 < n"
  shows "bloom_bitpos h bits div 8 < n"
proof -
  have "bloom_bitpos h bits \<le> unat (ucast h mod bits)"
    by (simp add: bloom_bitpos_def unsigned_ucast_eq take_bit_eq_mod)
  also have "\<dots> < 8 * n" using assms by (simp add: unat_mod)
  finally show ?thesis by (simp add: less_mult_imp_div_less mult.commute)
qed

lemma bloom_add_loop_matches:
  assumes "unat bits = 8 * length array" "array \<noteq> []"
  shows "bloom_match_loop k bits delta h (bloom_add_loop k bits delta h array)"
  using assms
proof (induction k arbitrary: h array)
  case (Suc k)
  let ?a = "set_bit_at array (bloom_bitpos h bits)"
  from Suc.prems have "bit_at ?a (bloom_bitpos h bits)"
    by (intro bit_at_set bitpos_inside) simp_all
  then have "bit_at (bloom_add_loop k bits delta (h + delta) ?a) (bloom_bitpos h bits)"
    by (rule bloom_add_loop_keep)
  moreover have "?a \<noteq> []" using Suc.prems(2) by (simp add: set_bit_at_def)
  ultimately show ?case using Suc by simp
qed simp

lemma bloom_add_keys_matches:
  assumes "unat bits = 8 * length array" "array \<noteq> []" "key \<in> set keys"
  shows "bloom_match_loop k bits (bloom_delta (bloom_hash key)) (bloom_hash key)
     (bloom_add_keys k bits keys array)"
  using assms
proof (induction keys arbitrary: array)
  case (Cons x keys)
  let ?a = "bloom_add_loop k bits (bloom_delta (bloom_hash x)) (bloom_hash x) array"
  have len: "unat bits = 8 * length ?a" "?a \<noteq> []"
    using Cons.prems(1,2) by (simp_all flip: length_greater_0_conv)
  show ?case
  proof (cases "key = x")
    case True
    with bloom_match_loop_mono [OF bloom_add_keys_keep bloom_add_loop_matches] Cons.prems(1,2)
    show ?thesis by (simp add: Let_def)
  next
    case False
    with Cons.IH [OF len] Cons.prems(3) show ?thesis by (simp add: Let_def)
  qed
qed simp

text \<open>The last byte, which is not part of the bit array, does not change what is read.\<close>

lemma bloom_match_loop_append:
  "unat bits = 8 * length a \<Longrightarrow> a \<noteq> [] \<Longrightarrow>
     bloom_match_loop k bits delta h (a @ b) = bloom_match_loop k bits delta h a"
  by (induction k arbitrary: h) (simp_all add: bit_at_def nth_append bitpos_inside)

lemma bloom_k_range: "bloom_k b = Some k \<Longrightarrow> 1 \<le> k \<and> k \<le> 30"
  by (auto simp: bloom_k_def Let_def split: if_splits)

lemma round_bits:
  fixes bits :: u64
  assumes "(bits + 7) div 8 * 8 \<noteq> 0"
  shows "unat ((bits + 7) div 8 * 8) = 8 * unat ((bits + 7) div 8)" "0 < unat ((bits + 7) div 8)"
proof -
  have "unat ((bits + 7) div 8) = unat (bits + 7) div 8" by (simp add: unat_div)
  then have "unat ((bits + 7) div 8) * 8 \<le> unat (bits + 7)" by simp
  then have "unat ((bits + 7) div 8) * 8 < 18446744073709551616"
    by (rule le_less_trans) (rule unat_u64_less)
  then show "unat ((bits + 7) div 8 * 8) = 8 * unat ((bits + 7) div 8)"
    by (simp add: unat_word_ariths)
  with assms show "0 < unat ((bits + 7) div 8)"
    by (metis gr0I mult_0_right unat_eq_zero)
qed

lemma bloom_matches:
  assumes "bloom_create_filter b keys dst = Some dst'" "key \<in> set keys"
  shows "\<exists>f. dst' = dst @ f \<and> bloom_key_may_match key f"
proof -
  from assms(1) obtain k where k: "bloom_k b = Some k"
    by (auto simp: bloom_create_filter_def bind_eq_Some_conv)
  define n where "n = (of_nat (length keys) * of_int b :: u64)"
  define bytes where "bytes = ((if n < 64 then 64 else n) + 7) div 8"
  define a where "a = bloom_add_keys k (bytes * 8) keys (replicate (unat bytes) 0)"
  from assms(1) k have nz: "bytes * 8 \<noteq> 0" and dst: "dst' = dst @ a @ [of_nat k]"
    by (auto simp: bloom_create_filter_def Let_def n_def [symmetric] bytes_def [symmetric] a_def
        split: if_splits)
  from nz have bits: "unat (bytes * 8) = 8 * unat bytes" "0 < unat bytes"
    unfolding bytes_def by (rule round_bits)+
  have len: "length a = unat bytes" by (simp add: a_def)
  have sz: "of_nat (length a * 8) = bytes * 8" by (simp add: len)
  have krange: "1 \<le> k" "k \<le> 30" using bloom_k_range [OF k] by simp_all
  have "\<forall>i \<in> set [0..<31]. scast (of_nat i :: u8) = (of_nat i :: u64)" by (simp add: upt_rec)
  with krange have sk: "scast (of_nat k :: u8) = (of_nat k :: u64)"
    by (simp del: upt_rec_numeral)
  have uk: "unat (of_nat k :: u64) = k" using krange by (intro unat_of_nat_u64) simp
  have "bloom_match_loop k (bytes * 8) (bloom_delta (bloom_hash key)) (bloom_hash key) a"
    unfolding a_def using bits assms(2)
    by (intro bloom_add_keys_matches) (simp_all flip: length_greater_0_conv)
  then have "bloom_match_loop k (bytes * 8) (bloom_delta (bloom_hash key)) (bloom_hash key)
      (a @ [of_nat k])"
    using bits len by (subst bloom_match_loop_append) (simp_all flip: length_greater_0_conv)
  moreover have "\<not> (of_nat k :: u64) > 30" using krange uk by (simp add: word_less_nat_alt)
  moreover have "\<not> length (a @ [of_nat k]) < 2" using bits len by simp
  ultimately have "bloom_key_may_match key (a @ [of_nat k])"
    using sz sk uk by (simp add: bloom_key_may_match_def Let_def)
  with dst show ?thesis by blast
qed

lemma bloom_appends: "bloom_create_filter b keys dst = Some dst' \<Longrightarrow> \<exists>f. dst' = dst @ f"
  by (auto simp: bloom_create_filter_def Let_def bind_eq_Some_conv split: if_splits)

interpretation bloom: filter_policy_laws "bloom_filter_policy b" for b
  using bloom_appends bloom_matches
  by unfold_locales (fastforce simp: bloom_filter_policy_def)+

context filter_policy_laws
begin

text \<open>The wrapper keeps the contract for internal keys.\<close>

lemma internal_matches:
  assumes "internal_create_filter policy keys dst = Some dst'" "k \<in> set keys"
  shows "\<exists>f. dst' = dst @ f \<and> internal_key_may_match policy k f = Some True"
proof -
  from assms(1) obtain mkeys where m: "those (map extract_user_key keys) = Some mkeys"
    "create_filter policy mkeys dst = Some dst'"
    by (auto simp: internal_create_filter_def extract_user_keys_def bind_eq_Some_conv)
  from m(1) assms(2) obtain u where u: "extract_user_key k = Some u" "u \<in> set mkeys"
    by (induction keys arbitrary: mkeys) (auto split: option.splits)
  from appends [OF m(2)] obtain f where "dst' = dst @ f" ..
  with m(2) u matches show ?thesis by (auto simp: internal_key_may_match_def)
qed

lemma internal_policy_laws: "filter_policy_laws (internal_filter_policy policy)"
proof
  fix keys dst dst'
  assume "create_filter (internal_filter_policy policy) keys dst = Some dst'"
  then show "\<exists>f. dst' = dst @ f"
    using appends by (auto simp: internal_filter_policy_def internal_create_filter_def bind_eq_Some_conv)
next
  fix keys dst f k
  assume "create_filter (internal_filter_policy policy) keys dst = Some (dst @ f)" "k \<in> set keys"
  then show "key_may_match (internal_filter_policy policy) k f = Some True"
    using internal_matches [of keys dst "dst @ f" k] by (simp add: internal_filter_policy_def)
qed

end

interpretation internal_bloom: filter_policy_laws "internal_filter_policy (bloom_filter_policy b)" for b
  by (rule bloom.internal_policy_laws)

end
