(* ===== verification/LdCrc.thy ===== *)
theory LdCrc
  imports LdCodingOk LdCrcTables
begin

text \<open>
  The checksum of logs and tables (\<open>util/crc32c.cc\<close>, \<open>util/crc32c.h\<close>,
  \<open>port/port_posix_sse.cc\<close>): CRC-32C four bytes at a time with the tables, its accelerated
  version, and the mask that is put over a stored checksum.

  What the build and the processor decide is a \<open>crc_port\<close>: whether the accelerated code is
  compiled in (\<open>LEVELDB_PLATFORM_POSIX_SSE\<close>), whether the processor has the instructions, whether
  it is a 64-bit one, and the three compiler intrinsics.  The address of the data, which the code
  aligns on, is the argument \<open>pval\<close>.
\<close>

record crc_port =
  platform_sse :: bool
  have_sse42 :: bool
  platform_x64 :: bool
  mm_crc32_u8 :: "u32 \<Rightarrow> u8 \<Rightarrow> u32"
  mm_crc32_u32 :: "u32 \<Rightarrow> u32 \<Rightarrow> u32"
  mm_crc32_u64 :: "u32 \<Rightarrow> u64 \<Rightarrow> u32"

subsection \<open>The table-driven loop\<close>

definition le_load32 :: "u8 list \<Rightarrow> u32" where
  "le_load32 p = word_of_bytes (take 4 p)"

definition crc_step1 :: "u32 \<Rightarrow> u8 \<Rightarrow> u32" where
  "crc_step1 l b =
     (let c = (l AND 0xff) XOR ucast b in crc_table0 ! unat c XOR drop_bit 8 l)"

definition crc_step4 :: "u32 \<Rightarrow> u8 list \<Rightarrow> u32" where
  "crc_step4 l p =
     (let c = l XOR le_load32 p in
      crc_table3 ! unat (c AND 0xff) XOR crc_table2 ! unat (drop_bit 8 c AND 0xff) XOR
      crc_table1 ! unat (drop_bit 16 c AND 0xff) XOR crc_table0 ! unat (drop_bit 24 c))"

primrec step1_loop :: "('l \<Rightarrow> u8 \<Rightarrow> 'l) \<Rightarrow> 'l \<Rightarrow> u8 list \<Rightarrow> 'l" where
  "step1_loop step l [] = l"
| "step1_loop step l (b # p) = step1_loop step (step l b) p"

text \<open>The loops that take \<open>n\<close> bytes at a time while there are that many.\<close>

function step_loop :: "nat \<Rightarrow> ('l \<Rightarrow> u8 list \<Rightarrow> 'l) \<Rightarrow> 'l \<Rightarrow> u8 list \<Rightarrow> 'l \<times> u8 list" where
  "step_loop n step l p =
     (if n \<le> length p \<and> 0 < n then step_loop n step (step l p) (drop n p) else (l, p))"
  by auto
termination by (relation "measure (\<lambda>(n, step, l, p). length p)") auto

declare step_loop.simps [simp del]

definition crc_step16 :: "u32 \<Rightarrow> u8 list \<Rightarrow> u32" where
  "crc_step16 l p =
     crc_step4 (crc_step4 (crc_step4 (crc_step4 l p) (drop 4 p)) (drop 8 p)) (drop 12 p)"

subsection \<open>The accelerated version\<close>

definition accelerated_crc32c :: "crc_port \<Rightarrow> nat \<Rightarrow> u32 \<Rightarrow> u8 list \<Rightarrow> u32" where
  "accelerated_crc32c port pval crc buf =
     (if \<not> platform_sse port then 0
      else if \<not> have_sse42 port then 0
      else
        let l = crc XOR 0xffffffff;
            (l, p) =
              (if length buf > 16 then
                 let n = pval mod 8;
                     l = step1_loop (mm_crc32_u8 port) l (take n buf);
                     p = drop n buf in
                 if platform_x64 port then
                   let (l, p) = step_loop 8 (\<lambda>l p. mm_crc32_u64 port l (word_of_bytes (take 8 p))) l p in
                   if length p \<ge> 4 then (mm_crc32_u32 port l (le_load32 p), drop 4 p) else (l, p)
                 else step_loop 4 (\<lambda>l p. mm_crc32_u32 port l (le_load32 p)) l p
               else (l, buf)) in
        step1_loop (mm_crc32_u8 port) l p XOR 0xffffffff)"

text \<open>\<open>"TestCRCBuffer"\<close>\<close>

definition test_crc_buffer :: "u8 list" where
  "test_crc_buffer = [84, 101, 115, 116, 67, 82, 67, 66, 117, 102, 102, 101, 114]"

definition can_accelerate_crc32c :: "crc_port \<Rightarrow> nat \<Rightarrow> bool" where
  "can_accelerate_crc32c port pval = (accelerated_crc32c port pval 0 test_crc_buffer = 0xdcbc59fa)"

subsection \<open>The interface\<close>

text \<open>\<open>tval\<close> is the address of the buffer the self-test runs on.\<close>

definition crc_extend :: "crc_port \<Rightarrow> nat \<Rightarrow> nat \<Rightarrow> u32 \<Rightarrow> u8 list \<Rightarrow> u32" where
  "crc_extend port tval pval crc buf =
     (if can_accelerate_crc32c port tval then accelerated_crc32c port pval crc buf
      else
        let l = crc XOR 0xffffffff;
            x = 4 * ((pval + 3) div 4);
            (l, p) = (if x \<le> pval + length buf
                      then (step1_loop crc_step1 l (take (x - pval) buf), drop (x - pval) buf)
                      else (l, buf));
            (l, p) = step_loop 16 crc_step16 l p;
            (l, p) = step_loop 4 crc_step4 l p in
        step1_loop crc_step1 l p XOR 0xffffffff)"

definition crc_value :: "crc_port \<Rightarrow> nat \<Rightarrow> nat \<Rightarrow> u8 list \<Rightarrow> u32" where
  "crc_value port tval pval buf = crc_extend port tval pval 0 buf"

definition kMaskDelta :: u32 where
  "kMaskDelta = 0xa282ead8"

definition crc_mask :: "u32 \<Rightarrow> u32" where
  "crc_mask crc = (drop_bit 15 crc OR push_bit 17 crc) + kMaskDelta"

definition crc_unmask :: "u32 \<Rightarrow> u32" where
  "crc_unmask masked_crc =
     (let rot = masked_crc - kMaskDelta in drop_bit 17 rot OR push_bit 15 rot)"

end
