(* ===== verification/LdCrcOk.thy ===== *)
theory LdCrcOk
  imports LdCrc
begin

text \<open>
  The checksum code computes CRC-32C: every entry of its tables is right, and the result of
  \<open>Extend\<close> is that of the polynomial division bit by bit, whatever the alignment of the data and
  whether the accelerated version is used.
\<close>

subsection \<open>The reference\<close>

text \<open>One bit of the division by the reflected polynomial, one byte, and a string of bytes.\<close>

definition crc_bit :: "u32 \<Rightarrow> u32" where
  "crc_bit l = (if l AND 1 = 0 then drop_bit 1 l else drop_bit 1 l XOR 0x82f63b78)"

definition crc_shift :: "nat \<Rightarrow> u32 \<Rightarrow> u32" where
  "crc_shift n l = (crc_bit ^^ n) l"

definition crc_byte :: "u32 \<Rightarrow> u8 \<Rightarrow> u32" where
  "crc_byte l b = crc_shift 8 (l XOR ucast b)"

definition crc32c :: "u32 \<Rightarrow> u8 list \<Rightarrow> u32" where
  "crc32c crc bs = foldl crc_byte (crc XOR 0xffffffff) bs XOR 0xffffffff"

subsection \<open>The tables\<close>

lemma xor_and_1: "(x XOR y) AND 1 = 0 \<longleftrightarrow> (x AND 1 = 0 \<longleftrightarrow> y AND 1 = (0 :: u32))"
  using and_exp_eq_0_iff_not_bit [of "x XOR y" 0] and_exp_eq_0_iff_not_bit [of x 0]
    and_exp_eq_0_iff_not_bit [of y 0] by (simp add: bit_simps)

lemma crc_bit_xor: "crc_bit (x XOR y) = crc_bit x XOR crc_bit y"
  by (simp add: crc_bit_def xor_and_1 xor.assoc xor.commute xor.left_commute)

lemma crc_shift_xor: "crc_shift n (x XOR y) = crc_shift n x XOR crc_shift n y"
  unfolding crc_shift_def by (induction n) (simp_all add: crc_bit_xor)

definition doubled :: "u32 \<Rightarrow> u32 list \<Rightarrow> u32 list" where
  "doubled b xs = xs @ map (\<lambda>x. b XOR x) xs"

lemma linear_table:
  fixes f :: "u32 \<Rightarrow> u32"
  assumes "\<And>x y. f (x XOR y) = f x XOR f y" "k < 32"
  shows "map (\<lambda>i. f (of_nat i)) [0..<2 ^ Suc k] =
     doubled (f (2 ^ k)) (map (\<lambda>i. f (of_nat i)) [0..<2 ^ k])"
proof -
  have "f (of_nat (i + 2 ^ k)) = f (2 ^ k) XOR f (of_nat i)" if "i < 2 ^ k" for i
  proof -
    from word_add_pow [OF that, of 1, where 'a = 32]
    have "(of_nat (i + 2 ^ k) :: u32) = of_nat i OR 2 ^ k" by (simp add: push_bit_eq_mult)
    also have "\<dots> = 2 ^ k XOR of_nat i"
    proof (rule bit_word_eqI)
      fix n :: nat
      have "\<not> bit i k"
        using that by (simp add: bit_iff_odd)
      then show "bit (of_nat i OR 2 ^ k :: u32) n \<longleftrightarrow> bit (2 ^ k XOR of_nat i :: u32) n"
        by (auto simp: bit_simps)
    qed
    finally show ?thesis by (simp only: assms(1))
  qed
  moreover have "[0..<2 ^ Suc k] = [0..<2 ^ k] @ map (\<lambda>i. i + 2 ^ k) [0..<2 ^ k]"
    by (simp add: map_add_upt upt_add_eq_append [of 0 "2 ^ k" "2 ^ k", simplified] mult_2)
  ultimately show ?thesis by (simp add: doubled_def)
qed

lemma linear_table_256:
  fixes f :: "u32 \<Rightarrow> u32"
  assumes "\<And>x y. f (x XOR y) = f x XOR f y"
  shows "map (\<lambda>i. f (of_nat i)) [0..<256] =
     doubled (f 128) (doubled (f 64) (doubled (f 32) (doubled (f 16)
       (doubled (f 8) (doubled (f 4) (doubled (f 2) (doubled (f 1) [f 0])))))))"
  using linear_table [OF assms, of 7] linear_table [OF assms, of 6] linear_table [OF assms, of 5]
    linear_table [OF assms, of 4] linear_table [OF assms, of 3] linear_table [OF assms, of 2]
    linear_table [OF assms, of 1] linear_table [OF assms, of 0]
  by (simp del: upt_rec_numeral upt_Suc) (simp add: upt_rec)

text \<open>The same on natural numbers, to compute with.\<close>

definition crc_bit_nat :: "nat \<Rightarrow> nat" where
  "crc_bit_nat n = (if n mod 2 = 0 then n div 2 else (n div 2) XOR 0x82f63b78)"

lemma crc_bit_nat_less: "n < 4294967296 \<Longrightarrow> crc_bit_nat n < 4294967296"
proof -
  assume "n < 4294967296"
  then have "take_bit 32 (n div 2) = n div 2" by (simp add: take_bit_nat_eq_self)
  then have "take_bit 32 (n div 2 XOR 0x82f63b78) = n div 2 XOR 0x82f63b78"
    by (simp only: take_bit_xor) simp
  then have "n div 2 XOR 0x82f63b78 < 2 ^ 32" by (simp only: take_bit_nat_eq_self_iff)
  with \<open>n < 4294967296\<close> show ?thesis by (auto simp: crc_bit_nat_def)
qed

lemma crc_bit_nat:
  assumes "n < 4294967296"
  shows "crc_bit (of_nat n) = of_nat (crc_bit_nat n)"
proof -
  have d: "drop_bit 1 (of_nat n :: u32) = of_nat (n div 2)"
    using assms by (simp only: word_unat_eq_iff unat_drop_bit_eq) (simp add: drop_bit_eq_div unat_of_nat)
  have e: "(of_nat n :: u32) AND 1 = 0 \<longleftrightarrow> even n"
    using and_exp_eq_0_iff_not_bit [of "of_nat n :: u32" 0] by (simp add: bit_simps bit_0)
  have x: "(of_nat a XOR of_nat b :: u32) = of_nat (a XOR b)" for a b
    by (rule bit_word_eqI) (simp add: bit_simps)
  show ?thesis
    using x [of "n div 2" "0x82f63b78"] by (simp add: crc_bit_def crc_bit_nat_def d [unfolded One_nat_def] e even_iff_mod_2_eq_zero)
qed

primrec crc_shift_nat :: "nat \<Rightarrow> nat \<Rightarrow> nat" where
  "crc_shift_nat 0 n = n"
| "crc_shift_nat (Suc k) n = crc_shift_nat k (crc_bit_nat n)"

lemma crc_shift_nat: "n < 4294967296 \<Longrightarrow> crc_shift k (of_nat n) = of_nat (crc_shift_nat k n)"
  by (induction k arbitrary: n)
    (simp_all add: crc_shift_def funpow_Suc_right crc_bit_nat crc_bit_nat_less del: funpow.simps)

lemma crc_shift_nat_add: "crc_shift_nat (j + k) n = crc_shift_nat k (crc_shift_nat j n)"
  by (induction j arbitrary: n) simp_all

lemma shift_8: "crc_shift_nat 8 n =
  crc_bit_nat (crc_bit_nat (crc_bit_nat (crc_bit_nat (crc_bit_nat (crc_bit_nat (crc_bit_nat (crc_bit_nat n)))))))"
  by (simp add: eval_nat_numeral)

lemma shift_16: "crc_shift_nat 16 n = crc_shift_nat 8 (crc_shift_nat 8 n)"
  using crc_shift_nat_add [of 8 8 n] by simp

lemma shift_24: "crc_shift_nat 24 n = crc_shift_nat 8 (crc_shift_nat 16 n)"
  using crc_shift_nat_add [of 16 8 n] by simp

lemma shift_32: "crc_shift_nat 32 n = crc_shift_nat 8 (crc_shift_nat 24 n)"
  using crc_shift_nat_add [of 24 8 n] by simp

lemma basis0:
  "crc_shift_nat 8 0 = 0" "crc_shift_nat 8 1 = 0xf26b8303"
  "crc_shift_nat 8 2 = 0xe13b70f7" "crc_shift_nat 8 4 = 0xc79a971f"
  "crc_shift_nat 8 8 = 0x8ad958cf" "crc_shift_nat 8 16 = 0x105ec76f"
  "crc_shift_nat 8 32 = 0x20bd8ede" "crc_shift_nat 8 64 = 0x417b1dbc"
  "crc_shift_nat 8 128 = 0x82f63b78"
  by (simp_all only: shift_8) (simp_all add: crc_bit_nat_def)

lemma basis1:
  "crc_shift_nat 16 0 = 0" "crc_shift_nat 16 1 = 0x13a29877"
  "crc_shift_nat 16 2 = 0x274530ee" "crc_shift_nat 16 4 = 0x4e8a61dc"
  "crc_shift_nat 16 8 = 0x9d14c3b8" "crc_shift_nat 16 16 = 0x3fc5f181"
  "crc_shift_nat 16 32 = 0x7f8be302" "crc_shift_nat 16 64 = 0xff17c604"
  "crc_shift_nat 16 128 = 0xfbc3faf9"
  by (simp_all only: shift_16 basis0 shift_8) (simp_all add: crc_bit_nat_def)

lemma basis2:
  "crc_shift_nat 24 0 = 0" "crc_shift_nat 24 1 = 0xa541927e"
  "crc_shift_nat 24 2 = 0x4f6f520d" "crc_shift_nat 24 4 = 0x9edea41a"
  "crc_shift_nat 24 8 = 0x38513ec5" "crc_shift_nat 24 16 = 0x70a27d8a"
  "crc_shift_nat 24 32 = 0xe144fb14" "crc_shift_nat 24 64 = 0xc76580d9"
  "crc_shift_nat 24 128 = 0x8b277743"
  by (simp_all only: shift_24 basis1 shift_8) (simp_all add: crc_bit_nat_def)

lemma basis3:
  "crc_shift_nat 32 0 = 0" "crc_shift_nat 32 1 = 0xdd45aab8"
  "crc_shift_nat 32 2 = 0xbf672381" "crc_shift_nat 32 4 = 0x7b2231f3"
  "crc_shift_nat 32 8 = 0xf64463e6" "crc_shift_nat 32 16 = 0xe964b13d"
  "crc_shift_nat 32 32 = 0xd725148b" "crc_shift_nat 32 64 = 0xaba65fe7"
  "crc_shift_nat 32 128 = 0x52a0c93f"
  by (simp_all only: shift_32 basis2 shift_8) (simp_all add: crc_bit_nat_def)

lemmas crc_table = linear_table_256 [where f = "crc_shift n" for n, OF crc_shift_xor]

lemma crc_shift_basis:
  "crc_shift k 0 = of_nat (crc_shift_nat k 0)" "crc_shift k 1 = of_nat (crc_shift_nat k 1)"
  "crc_shift k 2 = of_nat (crc_shift_nat k 2)" "crc_shift k 4 = of_nat (crc_shift_nat k 4)"
  "crc_shift k 8 = of_nat (crc_shift_nat k 8)" "crc_shift k 16 = of_nat (crc_shift_nat k 16)"
  "crc_shift k 32 = of_nat (crc_shift_nat k 32)" "crc_shift k 64 = of_nat (crc_shift_nat k 64)"
  "crc_shift k 128 = of_nat (crc_shift_nat k 128)"
  using crc_shift_nat [of 0 k] crc_shift_nat [of 1 k] crc_shift_nat [of 2 k] crc_shift_nat [of 4 k]
    crc_shift_nat [of 8 k] crc_shift_nat [of 16 k] crc_shift_nat [of 32 k] crc_shift_nat [of 64 k]
    crc_shift_nat [of 128 k] by simp_all

lemma table0: "map (\<lambda>i. crc_shift 8 (of_nat i)) [0..<256] = crc_table0"
  unfolding crc_table crc_shift_basis basis0 crc_table0_def by (simp add: doubled_def)

lemma table1: "map (\<lambda>i. crc_shift 16 (of_nat i)) [0..<256] = crc_table1"
  unfolding crc_table crc_shift_basis basis1 crc_table1_def by (simp add: doubled_def)

lemma table2: "map (\<lambda>i. crc_shift 24 (of_nat i)) [0..<256] = crc_table2"
  unfolding crc_table crc_shift_basis basis2 crc_table2_def by (simp add: doubled_def)

lemma table3: "map (\<lambda>i. crc_shift 32 (of_nat i)) [0..<256] = crc_table3"
  unfolding crc_table crc_shift_basis basis3 crc_table3_def by (simp add: doubled_def)


lemma table_nth:
  assumes "unat c < 256"
  shows "crc_table0 ! unat c = crc_shift 8 c" "crc_table1 ! unat c = crc_shift 16 c"
    "crc_table2 ! unat c = crc_shift 24 c" "crc_table3 ! unat c = crc_shift 32 c"
  using assms by (simp_all add: table0 [symmetric] table1 [symmetric] table2 [symmetric]
    table3 [symmetric] del: upt_rec_numeral)

subsection \<open>The steps\<close>

lemma crc_shift_add: "crc_shift (m + n) x = crc_shift m (crc_shift n x)"
  by (simp add: crc_shift_def funpow_add)

lemma crc_bit_push:
  assumes "take_bit (32 - Suc n) w = w" "Suc n \<le> 32"
  shows "crc_bit (push_bit (Suc n) w) = push_bit n w"
proof -
  have e: "push_bit (Suc n) w AND (1 :: u32) = 0"
    using and_exp_eq_0_iff_not_bit [of "push_bit (Suc n) w" 0]
    by (simp add: bit_push_bit_iff del: push_bit_Suc)
  have "bit w k \<Longrightarrow> k < 32 - Suc n" for k
    using assms(1) by (metis bit_take_bit_iff)
  then have "drop_bit 1 (push_bit (Suc n) w) = push_bit n w"
    using assms(2)
    by (intro bit_word_eqI) (fastforce simp: bit_drop_bit_eq bit_push_bit_iff simp del: push_bit_Suc
      dest: bit_imp_le_length)
  with e show ?thesis by (simp add: crc_bit_def del: push_bit_Suc)
qed

lemma crc_shift_push:
  "take_bit (32 - n) w = w \<Longrightarrow> n \<le> 32 \<Longrightarrow> crc_shift n (push_bit n w) = w"
proof (induction n)
  case 0
  then show ?case by (simp add: crc_shift_def)
next
  case (Suc n)
  have "take_bit (32 - n) w = take_bit (32 - n) (take_bit (32 - Suc n) w)" using Suc.prems(1) by simp
  also have "\<dots> = take_bit (32 - Suc n) w" by (simp only: take_bit_take_bit) (simp add: min_def)
  also have "\<dots> = w" by (rule Suc.prems(1))
  finally have "crc_shift n (push_bit n w) = w" using Suc.prems(2) by (intro Suc.IH) simp_all
  moreover have "crc_shift (Suc n) (push_bit (Suc n) w) = crc_shift n (crc_bit (push_bit (Suc n) w))"
    by (simp add: crc_shift_def funpow_swap1)
  ultimately show ?case using crc_bit_push [OF Suc.prems] by simp
qed

lemma byte_bits: "8 \<le> k \<Longrightarrow> take_bit k (ucast (b :: u8) :: u32) = ucast b"
  by (rule bit_word_eqI) (auto simp: bit_simps dest: bit_imp_le_length)

lemma masked_bits: "8 \<le> k \<Longrightarrow> take_bit k (w AND 0xff :: u32) = w AND 0xff"
  by (simp only: and_ff take_bit_take_bit) (simp add: min_def)

lemma crc_shift_up:
  assumes "take_bit (32 - n) w = w" "n \<le> 32"
  shows "crc_shift (m + n) (push_bit n w) = crc_shift m w"
  using crc_shift_push [OF assms] by (simp add: crc_shift_add)

lemma unat_ff: "unat (w AND 0xff :: u32) < 256"
  by (simp only: and_ff unsigned_take_bit_eq) (simp add: take_bit_eq_mod)

lemma crc_step1_eq: "crc_step1 l b = crc_byte l b"
proof -
  define c where "c = (l AND 0xff) XOR ucast b"
  have "c = (l XOR ucast b) AND 0xff"
    unfolding c_def and_ff by (rule bit_word_eqI) (auto simp: bit_simps dest: bit_imp_le_length)
  then have c: "unat c < 256" by (simp only: unat_ff)
  have "take_bit 24 (drop_bit 8 l) = drop_bit 8 l"
    by (rule bit_word_eqI) (auto simp: bit_simps dest: bit_imp_le_length)
  then have "crc_shift 8 (push_bit 8 (drop_bit 8 l)) = drop_bit 8 l"
    by (intro crc_shift_push) simp_all
  moreover have "l XOR ucast b = c XOR push_bit 8 (drop_bit 8 l)"
    unfolding c_def and_ff
    by (rule bit_word_eqI) (auto simp: bit_simps not_less dest: bit_imp_le_length)
  ultimately show ?thesis
    using table_nth(1) [OF c] by (simp add: crc_step1_def crc_byte_def crc_shift_xor c_def [symmetric])
qed

lemma crc_byte_step:
  assumes "8 * k + 8 \<le> 32"
  shows "crc_byte (crc_shift (8 * k) x) b = crc_shift (8 * k + 8) (x XOR push_bit (8 * k) (ucast b))"
proof -
  have "crc_shift (8 * k) (push_bit (8 * k) (ucast b)) = ucast b"
    using assms by (intro crc_shift_push byte_bits) simp_all
  then have "crc_shift (8 * k) x XOR ucast b = crc_shift (8 * k) (x XOR push_bit (8 * k) (ucast b))"
    by (simp add: crc_shift_xor)
  then show ?thesis by (simp add: crc_byte_def crc_shift_add [of 8 "8 * k"] add.commute)
qed

lemma crc_bytes_4:
  "foldl crc_byte l [a, b, c, d] = crc_shift 32 (l XOR word_of_bytes [a, b, c, d])"
proof -
  have "(word_of_bytes [a, b, c, d] :: u32) =
      ucast a XOR push_bit 8 (ucast b) XOR push_bit 16 (ucast c) XOR push_bit 24 (ucast d)"
    by (rule bit_word_eqI) (auto simp: bit_simps dest: bit_imp_le_length)
  moreover have "crc_byte l a = crc_shift 8 (l XOR ucast a)" by (simp add: crc_byte_def)
  ultimately show ?thesis
    using crc_byte_step [of 1 _ b] crc_byte_step [of 2 _ c] crc_byte_step [of 3 _ d]
    by (simp add: xor.assoc)
qed

lemma crc_shift_parts:
  assumes "take_bit 8 y1 = y1" "take_bit 8 y2 = y2" "take_bit 8 y3 = y3"
  shows "crc_shift 32 (y0 XOR push_bit 8 y1 XOR push_bit 16 y2 XOR push_bit 24 y3) =
     crc_shift 32 y0 XOR crc_shift 24 y1 XOR crc_shift 16 y2 XOR crc_shift 8 y3"
proof -
  have "take_bit k y = y" if "take_bit 8 y = y" "8 \<le> k" for k and y :: u32
    using that take_bit_take_bit [of k 8 y] by (simp add: min_def)
  with assms have "take_bit 24 y1 = y1" "take_bit 16 y2 = y2" "take_bit 8 y3 = y3" by simp_all
  then show ?thesis
    using crc_shift_up [of 8 y1 24] crc_shift_up [of 16 y2 16] crc_shift_up [of 24 y3 8]
    by (simp add: crc_shift_xor)
qed

lemma crc_step4_eq:
  assumes "4 \<le> length p"
  shows "crc_step4 l p = foldl crc_byte l (take 4 p)"
proof -
  from assms obtain a b c d q where p: "p = a # b # c # d # q"
    using four_bytes [of p] by (metis not_less)
  define w where "w = l XOR word_of_bytes [a, b, c, d]"
  have load: "l XOR le_load32 p = w" by (simp add: le_load32_def p w_def)
  have top: "drop_bit 24 w AND 0xff = drop_bit 24 w"
    unfolding and_ff by (rule bit_word_eqI) (auto simp: bit_simps dest: bit_imp_le_length)
  have "w = (w AND 0xff) XOR push_bit 8 (drop_bit 8 w AND 0xff) XOR
      push_bit 16 (drop_bit 16 w AND 0xff) XOR push_bit 24 (drop_bit 24 w AND 0xff)"
    unfolding and_ff by (rule bit_word_eqI) (auto simp: bit_simps)
  then have "crc_shift 32 w = crc_shift 32 ((w AND 0xff) XOR push_bit 8 (drop_bit 8 w AND 0xff) XOR
      push_bit 16 (drop_bit 16 w AND 0xff) XOR push_bit 24 (drop_bit 24 w AND 0xff))"
    by (rule arg_cong)
  also have "\<dots> = crc_shift 32 (w AND 0xff) XOR crc_shift 24 (drop_bit 8 w AND 0xff) XOR
      crc_shift 16 (drop_bit 16 w AND 0xff) XOR crc_shift 8 (drop_bit 24 w AND 0xff)"
    by (rule crc_shift_parts) (rule masked_bits, simp)+
  also have "\<dots> = crc_step4 l p"
    using table_nth(1) [OF unat_ff, of "drop_bit 24 w"]
    by (simp only: crc_step4_def Let_def load top table_nth(2,3,4) [OF unat_ff])
  finally have "crc_step4 l p = foldl crc_byte l [a, b, c, d]" by (simp only: crc_bytes_4 w_def)
  then show ?thesis by (simp add: p)
qed

subsection \<open>The loops\<close>

lemma step1_loop_eq: "(\<And>l b. step l b = f l b) \<Longrightarrow> step1_loop step l p = foldl f l p"
  by (induction p arbitrary: l) simp_all

lemma step_loop_eq:
  assumes "\<And>l p. n \<le> length p \<Longrightarrow> step l p = foldl f l (take n p)"
  shows "step_loop n step l p = (l', p') \<Longrightarrow> foldl f l' p' = foldl f l p"
proof (induction "length p" arbitrary: l p rule: less_induct)
  case less
  show ?case
  proof (cases "n \<le> length p \<and> 0 < n")
    case True
    then have "step_loop n step (step l p) (drop n p) = (l', p')"
      using less.prems by (simp add: step_loop.simps [of n step l p])
    moreover have "length (drop n p) < length p" using True by auto
    ultimately have "foldl f l' p' = foldl f (step l p) (drop n p)" by (intro less.hyps)
    with True
    have "foldl f l' p' = foldl f (foldl f l (take n p)) (drop n p)" by (simp add: assms)
    also have "\<dots> = foldl f l (take n p @ drop n p)" by (simp only: foldl_append)
    finally show ?thesis by simp
  next
    case False
    with less.prems show ?thesis by (subst (asm) step_loop.simps) (simp split: if_splits)
  qed
qed

lemma crc_step16_eq: "16 \<le> length p \<Longrightarrow> crc_step16 l p = foldl crc_byte l (take 16 p)"
proof -
  assume "16 \<le> length p"
  moreover have "take 16 p = take 4 p @ take 4 (drop 4 p) @ take 4 (drop 8 p) @ take 4 (drop 12 p)"
    using take_add [of 4 12 p] take_add [of 4 8 "drop 4 p"] take_add [of 4 4 "drop 8 p"] by simp
  ultimately show ?thesis by (simp add: crc_step16_def crc_step4_eq)
qed

text \<open>What the three intrinsics are documented to do: 1, 4 and 8 bytes, least significant first.\<close>

definition intrinsics_ok :: "crc_port \<Rightarrow> bool" where
  "intrinsics_ok port \<longleftrightarrow>
     (\<forall>l b. mm_crc32_u8 port l b = crc_byte l b) \<and>
     (\<forall>l a b c d. mm_crc32_u32 port l (word_of_bytes [a, b, c, d]) = foldl crc_byte l [a, b, c, d]) \<and>
     (\<forall>l a b c d e f g h. mm_crc32_u64 port l (word_of_bytes [a, b, c, d, e, f, g, h]) =
        foldl crc_byte l [a, b, c, d, e, f, g, h])"

lemma mm_u8: "intrinsics_ok port \<Longrightarrow> step1_loop (mm_crc32_u8 port) l p = foldl crc_byte l p"
  by (rule step1_loop_eq) (simp add: intrinsics_ok_def)

lemma mm_u32:
  assumes "intrinsics_ok port" "4 \<le> length p"
  shows "mm_crc32_u32 port l (le_load32 p) = foldl crc_byte l (take 4 p)"
proof -
  from assms(2) obtain a b c d q where "p = a # b # c # d # q"
    using four_bytes [of p] by (metis not_less)
  with assms(1) show ?thesis
    by (simp add: intrinsics_ok_def le_load32_def del: word_of_bytes.simps)
qed

lemma mm_u64:
  assumes "intrinsics_ok port" "8 \<le> length p"
  shows "mm_crc32_u64 port l (word_of_bytes (take 8 p)) = foldl crc_byte l (take 8 p)"
proof -
  from assms(2) obtain a b c d e f g h q where "p = a # b # c # d # e # f # g # h # q"
    using eight_bytes [of p] by (metis not_less)
  with assms(1) show ?thesis
    by (simp add: intrinsics_ok_def del: word_of_bytes.simps)
qed

lemma accelerated_eq:
  assumes "intrinsics_ok port" "platform_sse port" "have_sse42 port"
  shows "accelerated_crc32c port pval crc buf = crc32c crc buf"
proof -
  let ?l = "crc XOR 0xffffffff"
  obtain l8 p8 where loop8: "step_loop 8 (\<lambda>l p. mm_crc32_u64 port l (word_of_bytes (take 8 p)))
      (foldl crc_byte ?l (take (pval mod 8) buf)) (drop (pval mod 8) buf) = (l8, p8)" by fastforce
  obtain l4 p4 where loop4: "step_loop 4 (\<lambda>l p. mm_crc32_u32 port l (le_load32 p))
      (foldl crc_byte ?l (take (pval mod 8) buf)) (drop (pval mod 8) buf) = (l4, p4)" by fastforce
  have all: "foldl crc_byte (foldl crc_byte ?l (take n buf)) (drop n buf) = foldl crc_byte ?l buf" for n
    by (metis append_take_drop_id foldl_append)
  have "foldl crc_byte l8 p8 = foldl crc_byte ?l buf" "foldl crc_byte l4 p4 = foldl crc_byte ?l buf"
    using step_loop_eq [OF mm_u64 [OF assms(1)] loop8] step_loop_eq [OF mm_u32 [OF assms(1)] loop4]
    by (simp_all only: all)
  moreover have "4 \<le> length p8 \<Longrightarrow> foldl crc_byte (foldl crc_byte l8 (take 4 p8)) (drop 4 p8) =
      foldl crc_byte l8 p8"
    by (metis append_take_drop_id foldl_append)
  ultimately show ?thesis
    using assms(2,3) loop8 loop4
    by (simp add: accelerated_crc32c_def Let_def mm_u8 [OF assms(1)] mm_u32 [OF assms(1)] crc32c_def)
qed

lemma crc_extend_eq:
  assumes "intrinsics_ok port"
  shows "crc_extend port tval pval crc buf = crc32c crc buf"
proof (cases "can_accelerate_crc32c port tval")
  case True
  then have "platform_sse port \<and> have_sse42 port"
    by (auto simp: can_accelerate_crc32c_def accelerated_crc32c_def split: if_splits)
  with True assms show ?thesis by (simp add: crc_extend_def accelerated_eq)
next
  case False
  let ?l = "crc XOR 0xffffffff" and ?x = "4 * ((pval + 3) div 4)"
  define r where "r = (if ?x \<le> pval + length buf
      then (foldl crc_byte ?l (take (?x - pval) buf), drop (?x - pval) buf) else (?l, buf))"
  have r: "foldl crc_byte (fst r) (snd r) = foldl crc_byte ?l buf"
    by (auto simp: r_def foldl_append [symmetric] simp del: foldl_append)
  obtain l16 p16 where loop16: "step_loop 16 crc_step16 (fst r) (snd r) = (l16, p16)" by fastforce
  obtain l4 p4 where loop4: "step_loop 4 crc_step4 l16 p16 = (l4, p4)" by fastforce
  have "foldl crc_byte l4 p4 = foldl crc_byte ?l buf"
    using step_loop_eq [OF crc_step16_eq loop16] step_loop_eq [OF crc_step4_eq loop4] r by simp
  moreover have one: "step1_loop crc_step1 l p = foldl crc_byte l p" for l p
    by (rule step1_loop_eq) (rule crc_step1_eq)
  have "crc_extend port tval pval crc buf =
     (let (l, p) = r; (l, p) = step_loop 16 crc_step16 l p; (l, p) = step_loop 4 crc_step4 l p in
      step1_loop crc_step1 l p XOR 0xffffffff)"
    using False by (simp add: crc_extend_def r_def one Let_def)
  ultimately show ?thesis
    using loop16 loop4 by (simp add: case_prod_unfold Let_def one crc32c_def)
qed

lemma crc32c_append: "crc32c (crc32c crc a) b = crc32c crc (a @ b)"
  by (simp add: crc32c_def xor.assoc)

subsection \<open>The mask\<close>

lemma unmask_mask: "crc_unmask (crc_mask crc) = crc"
proof (rule bit_word_eqI)
  fix n :: nat assume "n < LENGTH(32)"
  then show "bit (crc_unmask (crc_mask crc)) n \<longleftrightarrow> bit crc n"
    by (cases "n < 15") (auto simp: crc_unmask_def crc_mask_def bit_simps dest: bit_imp_le_length)
qed

lemma mask_unmask: "crc_mask (crc_unmask m) = m"
proof -
  have "drop_bit 15 (drop_bit 17 r OR push_bit 15 r) OR push_bit 17 (drop_bit 17 r OR push_bit 15 r) = r"
    for r :: u32
  proof (rule bit_word_eqI)
    fix n :: nat assume "n < LENGTH(32)"
    then show "bit (drop_bit 15 (drop_bit 17 r OR push_bit 15 r) OR
        push_bit 17 (drop_bit 17 r OR push_bit 15 r)) n \<longleftrightarrow> bit r n"
      by (cases "n < 17") (auto simp: bit_simps dest: bit_imp_le_length)
  qed
  then show ?thesis by (simp add: crc_unmask_def crc_mask_def Let_def)
qed

end
