(* ===== verification/LdKeyClaims.thy ===== *)
theory LdKeyClaims
  imports LdBloom LdCrcOk LdStatus
begin

text \<open>
  The properties of leveldb's encodings, key orders, filters and checksums, stated over the code's
  definitions for every input.
\<close>

subsection \<open>Encodings\<close>

text \<open>The fixed-width encoders write the same little-endian bytes whether the machine takes
  their \<open>memcpy\<close> branch or the byte-by-byte one, the decoders read them back in both branches, and
  a decoder returns a value exactly when all the bytes are there.\<close>

theorem fixed_any_byte_order:
  "encode_fixed32_port little v = encode_fixed32_port big v \<and>
   encode_fixed64_port little w = encode_fixed64_port big w \<and>
   decode_fixed32_port little (put_fixed32 [] v @ r) = Some v \<and>
   decode_fixed64_port little (put_fixed64 [] w @ r) = Some w \<and>
   (decode_fixed32_port little p = None \<longleftrightarrow> length p < 4) \<and>
   (decode_fixed64_port little p = None \<longleftrightarrow> length p < 8)"
  by (simp add: encode_fixed32_port_eq encode_fixed64_port_eq decode_fixed32_port_eq
      decode_fixed64_port_eq put_fixed32_def put_fixed64_def)

text \<open>C21: What \<open>PutVarint32\<close> and \<open>PutVarint64\<close> append is read back by \<open>GetVarint32\<close> and
  \<open>GetVarint64\<close>, which leave the rest of the input; it fits the 5 and 10 byte buffers of the
  encoders, and \<open>VarintLength\<close> is its length.\<close>

theorem ld_varint_written_read:
  "get_varint32 (put_varint32 [] v @ r) = (Some v, r) \<and>
   get_varint64 (put_varint64 [] w @ r) = (Some w, r) \<and>
   length (encode_varint32 v) \<le> 5 \<and> length (encode_varint64 w) \<le> 10 \<and>
   varint_length w = int (length (encode_varint64 w))"
  using length_encode_varint32 [of v] length_encode_varint64 [of w] varint_length_eq [of w]
  by (simp add: put_varint32_def put_varint64_def)

text \<open>A string that is shorter than \<open>2 ^ 32\<close> bytes is read back by both variants of
  \<open>GetLengthPrefixedSlice\<close>.  When some of its bytes are missing both variants fail, and the one
  that advances its input has then already skipped the length.\<close>

theorem length_prefixed_written_read:
  assumes "length s < 2 ^ 32" "n < length s"
  shows "get_length_prefixed_slice (put_length_prefixed_slice [] s @ r) = (Some s, r) \<and>
     get_length_prefixed_slice_ptr (put_length_prefixed_slice [] s @ r) = Some (s, r) \<and>
     get_length_prefixed_slice (put_varint32 [] (of_nat (length s)) @ take n s) = (None, take n s) \<and>
     get_length_prefixed_slice_ptr (put_varint32 [] (of_nat (length s)) @ take n s) = None"
proof -
  have "get_length_prefixed_slice (put_varint32 [] (of_nat (length s)) @ take n s) = (None, take n s)"
    "get_length_prefixed_slice_ptr (put_varint32 [] (of_nat (length s)) @ take n s) = None"
    using assms(2) unat_of_nat_u32 [OF assms(1)]
    by (simp_all add: put_varint32_def get_length_prefixed_slice_def get_length_prefixed_slice_ptr_def)
  then show ?thesis using get_length_prefixed [OF assms(1), of r] by (simp add: put_length_prefixed)
qed

theorem length_prefixed_written_read_witness:
  "get_length_prefixed_slice (put_length_prefixed_slice [] [1, 2, 3] @ [4]) = (Some [1, 2, 3], [4]) \<and>
   get_length_prefixed_slice (put_varint32 [] (of_nat (length [1, 2, 3 :: u8])) @ take 2 [1, 2, 3]) =
     (None, take 2 [1, 2, 3])"
proof -
  have "length [1, 2, 3 :: u8] < 2 ^ 32" "(2 :: nat) < length [1, 2, 3 :: u8]" by simp_all
  from length_prefixed_written_read [OF this, of "[4]"] show ?thesis by blast
qed

text \<open>\<open>GetVarint32Ptr\<close> accepts a varint of up to five bytes whose number needs up to 35 bits,
  and returns it without the bits above the 32nd; no error tells them apart from small numbers.\<close>

theorem varint32_drops_high_bits:
  assumes "n < 2 ^ 35"
  shows "get_varint32_ptr (varint_bytes n @ r) = Some (of_nat n, r) \<and>
     get_varint32_ptr (varint_bytes n @ r) = get_varint32_ptr (varint_bytes (n mod 2 ^ 32) @ r)"
proof -
  have read: "get_varint32_ptr (varint_bytes k @ r) = Some (of_nat k, r)" if "k < 2 ^ 35" for k
  proof -
    have "length (varint_bytes k) \<le> 5" using that by (intro varint_bytes_length) simp_all
    then show ?thesis by (simp add: get_varint32_ptr_eq varint_bytes_prefix varint_bytes_value)
  qed
  have "n mod 2 ^ 32 < 2 ^ 35" by (rule less_trans [of _ "2 ^ 32"]) simp_all
  moreover have "(of_nat (n mod 2 ^ 32) :: u32) = of_nat n"
    by (simp add: word_unat_eq_iff unat_of_nat)
  ultimately show ?thesis using read [OF assms] read [of "n mod 2 ^ 32"] by simp
qed

theorem varint32_drops_high_bits_witness:
  "get_varint32_ptr (varint_bytes (2 ^ 32 + 7) @ []) = Some (of_nat (2 ^ 32 + 7), [])"
proof -
  have "(2 :: nat) ^ 32 + 7 < 2 ^ 35" by simp
  from varint32_drops_high_bits [OF this, of "[]"] show ?thesis by blast
qed

subsection \<open>Orders\<close>

text \<open>C24: The byte-wise comparator is the lexicographic order of unsigned bytes, and its two
  shortening operations stay where the interface says: for \<open>start < limit\<close> the separator is in
  \<open>[start, limit)\<close> and no longer than \<open>start\<close>, otherwise \<open>start\<close> itself; the successor of a key is
  not below it and not longer.\<close>

theorem bytewise_contract:
  "compare bytewise_comparator a b = Some (if a = b then 0 else if lex_less a b then -1 else 1) \<and>
   (\<exists>t. find_shortest_separator bytewise_comparator a b = Some t \<and> length t \<le> length a \<and>
      (if lex_less a b then (a = t \<or> lex_less a t) \<and> lex_less t b else t = a)) \<and>
   (\<exists>t. find_short_successor bytewise_comparator a = Some t \<and> length t \<le> length a \<and>
      (a = t \<or> lex_less a t))"
proof -
  have "length (bytewise_find_shortest_separator a b) \<le> length a"
    by (cases rule: bytewise_separator_cases [of a b]) simp_all
  moreover have "length (short_successor_loop a i) \<le> length a" for i
    by (induction a i rule: short_successor_loop.induct) (subst short_successor_loop.simps, simp add: Let_def)
  ultimately show ?thesis
    using bytewise_separator [of a b] bytewise_separator_same [of a b] bytewise_successor [of a]
    by (auto simp: slice_compare_eq bytewise_find_short_successor_def)
qed

text \<open>C25: Parsing an internal key gives back what it was made from, as does taking its user key
  and its value type; its length is \<open>InternalKeyEncodingLength\<close>.  A sequence number of more than 56
  bits fails the assertion, and a type byte above 1 is refused by \<open>ParseInternalKey\<close>.\<close>

theorem internal_key_written_parsed:
  assumes "pk_sequence k \<le> kMaxSequenceNumber"
  shows "\<exists>bs. append_internal_key [] k = Some bs \<and> parse_internal_key bs = Some k \<and>
     extract_user_key bs = Some (pk_user_key k) \<and> extract_value_type bs = Some (pk_type k) \<and>
     length bs = internal_key_encoding_length k"
  using append_internal_key_eq [OF assms, of "[]"] parse_append [OF assms]
  by (simp add: extract_user_key_def extract_value_type_def tag_type internal_key_encoding_length_def
      del: ucast_and_ff)

theorem internal_key_written_parsed_witness:
  "\<exists>bs. append_internal_key [] \<lparr>pk_user_key = [97, 98], pk_sequence = 5, pk_type = KTypeValue\<rparr> = Some bs \<and>
     parse_internal_key bs = Some \<lparr>pk_user_key = [97, 98], pk_sequence = 5, pk_type = KTypeValue\<rparr>"
proof -
  have "pk_sequence \<lparr>pk_user_key = [97, 98], pk_sequence = 5, pk_type = KTypeValue\<rparr> \<le> kMaxSequenceNumber"
    by (simp add: kMaxSequenceNumber_def)
  from internal_key_written_parsed [OF this] show ?thesis by blast
qed

text \<open>The newer of two versions of a key.\<close>

definition newer :: "u64 \<Rightarrow> value_type \<Rightarrow> u64 \<Rightarrow> value_type \<Rightarrow> bool" where
  "newer s t s' t' \<longleftrightarrow> s > s' \<or> s = s' \<and> t = KTypeValue \<and> t' = KTypeDeletion"

lemma tag_less:
  assumes "s \<le> kMaxSequenceNumber" "s' \<le> kMaxSequenceNumber"
  shows "push_bit 8 s' OR ucast (value_type_code t') < push_bit 8 s OR (ucast (value_type_code t) :: u64) \<longleftrightarrow>
     newer s t s' t'"
proof -
  have u: "unat (push_bit 8 s OR (ucast (value_type_code t) :: u64)) = 256 * unat s + unat (value_type_code t)"
    if "s \<le> kMaxSequenceNumber" for s t
  proof -
    have s: "unat s < 2 ^ 56" using that by (simp add: max_sequence)
    have c: "unat (value_type_code t) < 2 ^ 8" by (cases t) (simp_all add: value_type_code_def)
    have "(of_nat (unat (value_type_code t) + 2 ^ 8 * unat s) :: u64) =
        of_nat (unat (value_type_code t)) OR push_bit 8 (of_nat (unat s))"
      by (rule word_add_pow [OF c])
    then have "push_bit 8 s OR ucast (value_type_code t) =
        (of_nat (unat (value_type_code t) + 256 * unat s) :: u64)"
      by (simp add: or.commute)
    moreover have "unat (value_type_code t) + 256 * unat s < 2 ^ 64"
      using s unat_u8_less [of "value_type_code t"] by (simp del: unat_u8_less)
    ultimately show ?thesis by (simp only: unat_of_nat_u64)
  qed
  show ?thesis
    unfolding word_less_nat_alt [of "_ OR _"] u [OF assms(1)] u [OF assms(2)] newer_def
    by (cases t; cases t') (auto simp: value_type_code_def word_less_nat_alt word_unat_eq_iff)
qed

text \<open>C26: The internal comparator orders keys by user key, then newest first: by decreasing
  sequence number, then by decreasing type.\<close>

theorem internal_order:
  assumes "internal_key u s t = Some a" "internal_key u' s' t' = Some b"
  shows "\<exists>r. internal_compare bytewise_comparator a b = Some r \<and>
     (r < 0 \<longleftrightarrow> lex_less u u' \<or> u = u' \<and> newer s t s' t') \<and>
     (r = 0 \<longleftrightarrow> u = u' \<and> s = s' \<and> t = t')"
proof -
  have seq: "s \<le> kMaxSequenceNumber" "s' \<le> kMaxSequenceNumber"
    using assms by (auto simp: internal_key_def append_internal_key_def pack_sequence_and_type_def
        split: if_splits)
  let ?tag = "\<lambda>s t. push_bit 8 s OR ucast (value_type_code t) :: u64"
  have ab: "a = u @ encode_fixed64 (?tag s t)" "b = u' @ encode_fixed64 (?tag s' t')"
    using assms seq by (simp_all add: internal_key_def append_internal_key_eq)
  have v: "bytewise.internal_valid a" "bytewise.internal_valid b"
    by (simp_all add: ab)
  have parse: "parse_internal_key a = Some \<lparr>pk_user_key = u, pk_sequence = s, pk_type = t\<rparr>"
    "parse_internal_key b = Some \<lparr>pk_user_key = u', pk_sequence = s', pk_type = t'\<rparr>"
    using parse_append [of "\<lparr>pk_user_key = u, pk_sequence = s, pk_type = t\<rparr>"]
      parse_append [of "\<lparr>pk_user_key = u', pk_sequence = s', pk_type = t'\<rparr>"] seq
    by (simp_all only: ab parsed_internal_key.simps)
  have eq: "a = b \<longleftrightarrow> u = u' \<and> s = s' \<and> t = t'"
  proof
    assume "a = b"
    with parse show "u = u' \<and> s = s' \<and> t = t'" by simp
  next
    assume "u = u' \<and> s = s' \<and> t = t'"
    with assms show "a = b" by simp
  qed
  have "bytewise.internal_before a b \<longleftrightarrow> lex_less u u' \<or> u = u' \<and> newer s t s' t'"
    unfolding ab bytewise.internal_before_def bytewise_before bytewise.key_of_parts tag_less [OF seq] ..
  with bytewise.internal_compare_sign [OF v] eq show ?thesis by metis
qed

theorem internal_order_witness:
  "\<exists>r. internal_compare bytewise_comparator ([97] @ encode_fixed64 (push_bit 8 7 OR 1))
       ([97] @ encode_fixed64 (push_bit 8 3 OR 0)) = Some r \<and> r < 0"
proof -
  have a: "internal_key [97] 7 KTypeValue = Some ([97] @ encode_fixed64 (push_bit 8 7 OR 1))"
    "internal_key [97] 3 KTypeDeletion = Some ([97] @ encode_fixed64 (push_bit 8 3 OR 0))"
    by (simp_all add: internal_key_def append_internal_key_def pack_sequence_and_type_def
        kMaxSequenceNumber_def put_fixed64_def value_type_code_def)
  from internal_order [OF this] show ?thesis by (auto simp: newer_def)
qed

text \<open>C27: For internal keys \<open>start < limit\<close> the internal comparator's separator is an internal key
  in \<open>[start, limit)\<close>, so the assertions in \<open>FindShortestSeparator\<close> hold; its successor of a key is
  an internal key that is not below it.\<close>

theorem internal_separator:
  assumes "8 \<le> length s" "8 \<le> length l" "internal_compare bytewise_comparator s l = Some r" "r < 0"
  shows "(\<exists>t. internal_find_shortest_separator bytewise_comparator s l = Some t \<and> 8 \<le> length t \<and>
       (\<exists>r. internal_compare bytewise_comparator s t = Some r \<and> r \<le> 0) \<and>
       (\<exists>r. internal_compare bytewise_comparator t l = Some r \<and> r < 0)) \<and>
     (\<exists>t. internal_find_short_successor bytewise_comparator s = Some t \<and> 8 \<le> length t \<and>
       (\<exists>r. internal_compare bytewise_comparator s t = Some r \<and> r \<le> 0))"
proof -
  have v: "bytewise.internal_valid s" "bytewise.internal_valid l"
    using assms(1,2) by (simp_all add: bytewise.internal_valid_def)
  have "compare (internal_comparator bytewise_comparator) s l = Some r"
    using assms(3) by (simp add: internal_comparator_def)
  from internal.separator [OF v this assms(4)] internal.successor [OF v(1)] show ?thesis
    by (auto simp: internal_comparator_def bytewise.internal_valid_def)
qed

theorem internal_separator_witness:
  "\<exists>t. internal_find_shortest_separator bytewise_comparator
     ([97, 98] @ encode_fixed64 1) ([100] @ encode_fixed64 1) = Some t \<and> 8 \<le> length t"
proof -
  have "8 \<le> length ([97, 98] @ encode_fixed64 1 :: u8 list)" "8 \<le> length ([100] @ encode_fixed64 1 :: u8 list)"
    by simp_all
  moreover have "internal_compare bytewise_comparator ([97, 98] @ encode_fixed64 1) ([100] @ encode_fixed64 1)
      = Some (-1)"
    by (simp add: internal_compare_def extract_user_key_def)
  moreover have "(-1 :: int) < 0" by simp
  ultimately show ?thesis using internal_separator by blast
qed

text \<open>A lookup key fits the buffer it is built in; its internal key is the one of the user key,
  the sequence number and the seek type; and its memtable key is that internal key with its length in
  front.\<close>

theorem lookup_key_parts:
  assumes "s \<le> kMaxSequenceNumber" "length u + 8 < 2 ^ 32"
  shows "\<exists>k ik. make_lookup_key u s = Some k \<and> length (lk_buf k) \<le> lookup_key_needed u \<and>
     internal_key u s kValueTypeForSeek = Some ik \<and> lk_internal_key k = ik \<and> lk_user_key k = u \<and>
     get_length_prefixed_slice_ptr (lk_memtable_key k) = Some (ik, [])"
proof -
  define tag :: u64 where "tag = push_bit 8 s OR ucast (value_type_code kValueTypeForSeek)"
  define klen where "klen = encode_varint32 (of_nat (length u + 8))"
  define k where "k = \<lparr>lk_buf = klen @ u @ encode_fixed64 tag, lk_start = 0, lk_kstart = length klen,
    lk_end = length klen + length u + 8\<rparr>"
  have "make_lookup_key u s = Some k"
    using assms(1) by (simp add: make_lookup_key_def pack_sequence_and_type_def k_def klen_def tag_def Let_def)
  moreover have "length (lk_buf k) \<le> lookup_key_needed u"
    using length_encode_varint32 [of "of_nat (length u + 8)"]
    by (simp add: k_def klen_def lookup_key_needed_def)
  moreover have "internal_key u s kValueTypeForSeek = Some (u @ encode_fixed64 tag)"
    using assms(1) by (simp add: internal_key_def append_internal_key_eq tag_def)
  moreover have "lk_internal_key k = u @ encode_fixed64 tag" "lk_user_key k = u"
    by (simp_all add: k_def lk_internal_key_def lk_user_key_def)
  moreover have "lk_memtable_key k = length_prefixed (u @ encode_fixed64 tag)"
    by (simp add: k_def lk_memtable_key_def length_prefixed_def klen_def)
  moreover have "get_length_prefixed_slice_ptr (length_prefixed (u @ encode_fixed64 tag)) =
      Some (u @ encode_fixed64 tag, [])"
    using get_length_prefixed(2) [of "u @ encode_fixed64 tag" "[]"] assms(2) by simp
  ultimately show ?thesis by auto
qed

theorem lookup_key_parts_witness:
  "\<exists>k. make_lookup_key [107, 101, 121] 9 = Some k \<and> lk_user_key k = [107, 101, 121]"
proof -
  have "(9 :: u64) \<le> kMaxSequenceNumber" "length [107, 101, 121 :: u8] + 8 < 2 ^ 32"
    by (simp_all add: kMaxSequenceNumber_def)
  from lookup_key_parts [OF this] show ?thesis by blast
qed

subsection \<open>Filters\<close>

text \<open>C29: A Bloom filter has no false negatives: it is appended to \<open>dst\<close>, and every key it was
  created from matches, whatever the number of bits per key.\<close>

theorem bloom_no_false_negative:
  assumes "bloom_create_filter bits_per_key keys dst = Some dst'" "key \<in> set keys"
  shows "\<exists>f. dst' = dst @ f \<and> bloom_key_may_match key f"
  using assms by (rule bloom_matches)

theorem bloom_no_false_negative_witness:
  "\<exists>dst' f. bloom_create_filter 10 [[97], [98, 99]] [7] = Some dst' \<and> dst' = [7] @ f \<and>
     bloom_key_may_match [98, 99] f"
proof -
  have "\<exists>dst'. bloom_create_filter 10 [[97], [98, 99]] [7] = Some dst'"
    by (simp add: bloom_create_filter_def bloom_k_def Let_def)
  then obtain dst' where d: "bloom_create_filter 10 [[97], [98, 99]] [7] = Some dst'" ..
  moreover have "[98, 99] \<in> set [[97], [98, 99 :: u8]]" by simp
  from bloom_no_false_negative [OF d this] obtain f where "dst' = [7] @ f" "bloom_key_may_match [98, 99] f"
    by blast
  ultimately show ?thesis by blast
qed

text \<open>C30: The filter policy for internal keys has none either: a filter made from internal keys
  matches every internal key with one of their user keys.\<close>

theorem internal_filter_no_false_negative:
  assumes "internal_create_filter (bloom_filter_policy b) keys dst = Some dst'"
    "k \<in> set keys" "extract_user_key k' = extract_user_key k"
  shows "\<exists>f. dst' = dst @ f \<and> internal_key_may_match (bloom_filter_policy b) k' f = Some True"
  using bloom.internal_matches [OF assms(1,2)] assms(3) by (simp add: internal_key_may_match_def)

theorem internal_filter_no_false_negative_witness:
  "\<exists>dst' f. internal_create_filter (bloom_filter_policy 10) [[97] @ encode_fixed64 1] [] = Some dst' \<and>
     dst' = [] @ f \<and> internal_key_may_match (bloom_filter_policy 10) ([97] @ encode_fixed64 9) f = Some True"
proof -
  have "\<exists>dst'. internal_create_filter (bloom_filter_policy 10) [[97] @ encode_fixed64 1] [] = Some dst'"
    by (simp add: internal_create_filter_def extract_user_keys_def extract_user_key_def
        bloom_filter_policy_def bloom_create_filter_def bloom_k_def Let_def)
  then obtain dst' where
    d: "internal_create_filter (bloom_filter_policy 10) [[97] @ encode_fixed64 1] [] = Some dst'" ..
  have "[97] @ encode_fixed64 1 \<in> set [[97] @ encode_fixed64 1 :: u8 list]"
    "extract_user_key ([97] @ encode_fixed64 9) = extract_user_key ([97] @ encode_fixed64 1)"
    by (simp_all add: extract_user_key_def)
  from internal_filter_no_false_negative [OF d this] d show ?thesis by blast
qed

subsection \<open>Checksums\<close>

text \<open>C31: \<open>Extend\<close> is CRC-32C: for any alignment of the data, with or without the accelerated code,
  its four tables and its loops over 1, 4 and 16 bytes give the result of dividing bit by bit by the
  reflected polynomial \<open>0x82f63b78\<close>; so a checksum can be continued piece by piece.  The intrinsics
  are assumed to do what their documentation says.\<close>

theorem crc_extend_correct:
  assumes "intrinsics_ok port"
  shows "crc_extend port tval pval crc buf =
       foldl (\<lambda>l b. crc_shift 8 (l XOR ucast b)) (crc XOR 0xffffffff) buf XOR 0xffffffff \<and>
     crc_extend port tval pval (crc_extend port tval' pval' crc a) buf =
       crc_extend port tval pval' crc (a @ buf)"
proof -
  have "crc_byte = (\<lambda>l b. crc_shift 8 (l XOR ucast b))"
    by (intro ext) (simp add: crc_byte_def)
  then show ?thesis by (simp add: crc_extend_eq [OF assms] crc32c_append) (simp add: crc32c_def)
qed

text \<open>A processor whose instructions do what they should.\<close>

definition reference_port :: crc_port where
  "reference_port =
     \<lparr>platform_sse = True, have_sse42 = True, platform_x64 = True, mm_crc32_u8 = crc_byte,
      mm_crc32_u32 = (\<lambda>l w. foldl crc_byte l (encode_fixed32 w)),
      mm_crc32_u64 = (\<lambda>l w. foldl crc_byte l (encode_fixed64 w))\<rparr>"

lemma reference_port_ok: "intrinsics_ok reference_port"
proof -
  have "encode_fixed32 (word_of_bytes [a, b, c, d]) = [a, b, c, d]" for a b c d
    by (rule word_of_bytes_inject [where 'a = 32]) simp_all
  moreover have "encode_fixed64 (word_of_bytes [a, b, c, d, e, f, g, h]) = [a, b, c, d, e, f, g, h]"
    for a b c d e f g h
    by (rule word_of_bytes_inject [where 'a = 64]) simp_all
  ultimately show ?thesis
    by (simp add: intrinsics_ok_def reference_port_def del: word_of_bytes.simps)
qed

theorem crc_extend_correct_witness:
  "crc_extend reference_port 0 1 (crc_extend reference_port 0 2 0 [49, 50]) [51] =
     crc_extend reference_port 0 2 0 [49, 50, 51]"
  using crc_extend_correct [OF reference_port_ok, of 0 1 0 "[51]" 0 2 "[49, 50]"] crc_extend_eq [OF reference_port_ok]
  by simp

text \<open>Masking and unmasking a checksum undo each other, so a stored checksum compares equal
  exactly when the checksums do.\<close>

theorem crc_mask_inverse:
  "crc_unmask (crc_mask c) = c \<and> crc_mask (crc_unmask m) = m \<and>
   (crc_mask c = crc_mask c' \<longleftrightarrow> c = c')"
  using unmask_mask [of c] unmask_mask [of c'] mask_unmask [of m] by metis

subsection \<open>Numbers as text\<close>

text \<open>\<open>ConsumeDecimalNumber\<close> reads a run of digits as the number it stands for, and refuses it
  exactly when that number needs more than 64 bits; what \<open>AppendNumberTo\<close> writes is read back.\<close>

theorem decimal_number_read:
  assumes "\<forall>c \<in> set cs. is_digit c" "cs \<noteq> []" "r = [] \<or> \<not> is_digit (hd r)"
  shows "(if digits_value cs 0 < 2 ^ 64
       then consume_decimal_number (cs @ r) = (Some (of_nat (digits_value cs 0)), r)
       else fst (consume_decimal_number (cs @ r)) = None) \<and>
     consume_decimal_number (append_number_to [] n @ r) = (Some n, r)"
proof -
  have "\<forall>c \<in> set (decimal (unat n)). is_digit c" using decimal_digits by blast
  from consume_decimal_number_spec [OF this _ assms(3)]
  have "consume_decimal_number (append_number_to [] n @ r) = (Some n, r)"
    by (simp add: append_number_to_def decimal_value)
  with consume_decimal_number_spec [OF assms] show ?thesis by simp
qed

theorem decimal_number_read_witness:
  "consume_decimal_number ([52, 50] @ [46]) = (Some 42, [46])"
proof -
  have "\<forall>c \<in> set [52, 50 :: u8]. is_digit c" "[52, 50 :: u8] \<noteq> []" "[46 :: u8] = [] \<or> \<not> is_digit (hd [46])"
    by (simp_all add: is_digit_def)
  from decimal_number_read [OF this] show ?thesis by simp
qed

end
