(* ===== verification/LdFile.thy ===== *)
theory LdFile
  imports LdStatus
begin

text \<open>
  The file interfaces the log uses (\<open>include/leveldb/env.h\<close>) and their POSIX implementation
  (\<open>util/env_posix.cc\<close>).

  An interface is the record of its operations on an object of type \<open>'f\<close>.  The C library's
  \<open>FILE\<close> is modelled by what its operations deliver: an input file by the bytes that are still
  ahead and whether a read error or the end of the file follows them; an output file by the bytes
  written to it, how many more it takes before writing fails, and whether \<open>fflush\<close> succeeds.
\<close>

subsection \<open>Interfaces\<close>

record 'f sequential_file =
  sf_read :: "'f \<Rightarrow> nat \<Rightarrow> status \<times> slice \<times> 'f"
  sf_skip :: "'f \<Rightarrow> u64 \<Rightarrow> status \<times> 'f"

record 'f writable_file =
  wf_append :: "'f \<Rightarrow> slice \<Rightarrow> status \<times> 'f"
  wf_flush :: "'f \<Rightarrow> status \<times> 'f"

text \<open>A file that is read without errors: \<open>ahead\<close> are the bytes still to come.\<close>

locale readable_file =
  fixes ops :: "'f sequential_file" and ahead :: "'f \<Rightarrow> u8 list" and good :: "'f \<Rightarrow> bool"
  assumes read_ok: "good f \<Longrightarrow>
      \<exists>f'. sf_read ops f n = (StatusOK, take n (ahead f), f') \<and> ahead f' = drop n (ahead f) \<and> good f'"
    and skip_ok: "good f \<Longrightarrow>
      \<exists>f'. sf_skip ops f m = (StatusOK, f') \<and> ahead f' = drop (unat m) (ahead f) \<and> good f'"

text \<open>A file that takes what is written to it: \<open>written\<close> are its contents, \<open>room\<close> tells how many
  more bytes it takes.\<close>

locale file_with_room =
  fixes ops :: "'f writable_file" and written :: "'f \<Rightarrow> u8 list" and room :: "'f \<Rightarrow> nat \<Rightarrow> bool"
  assumes append_ok: "room f (length d + n) \<Longrightarrow>
      \<exists>f'. wf_append ops f d = (StatusOK, f') \<and> written f' = written f @ d \<and> room f' n"
    and flush_ok: "room f n \<Longrightarrow>
      \<exists>f'. wf_flush ops f = (StatusOK, f') \<and> written f' = written f \<and> room f' n"

subsection \<open>POSIX\<close>

record posix_in =
  pi_name :: "u8 list"
  pi_ahead :: "u8 list"
  pi_error :: "u8 list option"
  pi_seek_error :: "u8 list option"

definition posix_read :: "posix_in \<Rightarrow> nat \<Rightarrow> status \<times> slice \<times> posix_in" where
  "posix_read f n =
     (let data = take n (pi_ahead f);
          f' = f\<lparr>pi_ahead := drop n (pi_ahead f)\<rparr>;
          s = (if length data < n then
                 case pi_error f of None \<Rightarrow> StatusOK | Some e \<Rightarrow> io_error (pi_name f) e
               else StatusOK) in
      (s, data, f'))"

definition posix_skip :: "posix_in \<Rightarrow> u64 \<Rightarrow> status \<times> posix_in" where
  "posix_skip f n =
     (case pi_seek_error f of
        Some e \<Rightarrow> (io_error (pi_name f) e, f)
      | None \<Rightarrow> (StatusOK, f\<lparr>pi_ahead := drop (unat n) (pi_ahead f)\<rparr>))"

definition posix_sequential_file :: "posix_in sequential_file" where
  "posix_sequential_file = \<lparr>sf_read = posix_read, sf_skip = posix_skip\<rparr>"

record posix_out =
  po_name :: "u8 list"
  po_data :: "u8 list"
  po_room :: nat
  po_write_error :: "u8 list"
  po_flush_error :: "u8 list option"

definition posix_append :: "posix_out \<Rightarrow> slice \<Rightarrow> status \<times> posix_out" where
  "posix_append f data =
     (let r = min (length data) (po_room f);
          f' = f\<lparr>po_data := po_data f @ take r data, po_room := po_room f - r\<rparr> in
      if r \<noteq> length data then (io_error (po_name f) (po_write_error f), f') else (StatusOK, f'))"

definition posix_flush :: "posix_out \<Rightarrow> status \<times> posix_out" where
  "posix_flush f =
     (case po_flush_error f of
        Some e \<Rightarrow> (io_error (po_name f) e, f)
      | None \<Rightarrow> (StatusOK, f))"

definition posix_writable_file :: "posix_out writable_file" where
  "posix_writable_file = \<lparr>wf_append = posix_append, wf_flush = posix_flush\<rparr>"

definition posix_in_good :: "posix_in \<Rightarrow> bool" where
  "posix_in_good f \<longleftrightarrow> pi_error f = None \<and> pi_seek_error f = None"

definition posix_out_room :: "posix_out \<Rightarrow> nat \<Rightarrow> bool" where
  "posix_out_room f n \<longleftrightarrow> n \<le> po_room f \<and> po_flush_error f = None"

interpretation posix_in: readable_file posix_sequential_file pi_ahead posix_in_good
  by unfold_locales
    (simp_all add: posix_sequential_file_def posix_read_def posix_skip_def posix_in_good_def Let_def)

interpretation posix_out: file_with_room posix_writable_file po_data posix_out_room
  by unfold_locales
    (auto simp: posix_writable_file_def posix_append_def posix_flush_def posix_out_room_def Let_def)

end
