(* ===== verification/LdLog.thy ===== *)
theory LdLog
  imports LdFile LdCrcOk
begin

text \<open>
  The write-ahead log: its format (\<open>db/log_format.h\<close>), the writer (\<open>db/log_writer.cc\<close>) and the
  reader (\<open>db/log_reader.cc\<close>).

  \<open>crc\<close> is the checksum function \<open>crc32c::Extend\<close> as it is linked in.  An \<open>assert\<close> that fails has
  no result (\<open>None\<close>).  The reader's loop over physical records has no bound of its own: it is a
  \<open>partial_function\<close>, \<open>None\<close> when it does not return.  Calls of the \<open>Reporter\<close> are collected in the
  reader's state in the order they are made.
\<close>

subsection \<open>Format\<close>

definition kZeroType :: u32 where "kZeroType = 0"
definition kFullType :: u32 where "kFullType = 1"
definition kFirstType :: u32 where "kFirstType = 2"
definition kMiddleType :: u32 where "kMiddleType = 3"
definition kLastType :: u32 where "kLastType = 4"
definition kMaxRecordType :: u32 where "kMaxRecordType = kLastType"
definition kEof :: u32 where "kEof = kMaxRecordType + 1"
definition kBadRecord :: u32 where "kBadRecord = kMaxRecordType + 2"

definition kBlockSize :: nat where "kBlockSize = 32768"
definition kHeaderSize :: nat where "kHeaderSize = 4 + 2 + 1"

lemmas record_type_defs = kZeroType_def kFullType_def kFirstType_def kMiddleType_def kLastType_def
  kMaxRecordType_def kEof_def kBadRecord_def

subsection \<open>Writer\<close>

type_synonym checksum = "u32 \<Rightarrow> u8 list \<Rightarrow> u32"

record 'f log_writer =
  lw_dest :: 'f
  lw_block_offset :: nat
  lw_type_crc :: "u32 list"

definition init_type_crc :: "checksum \<Rightarrow> u32 list" where
  "init_type_crc crc = map (\<lambda>i. crc 0 [of_nat i]) [0..<unat kMaxRecordType + 1]"

definition log_writer :: "checksum \<Rightarrow> 'f \<Rightarrow> 'f log_writer" where
  "log_writer crc dest =
     \<lparr>lw_dest = dest, lw_block_offset = 0, lw_type_crc = init_type_crc crc\<rparr>"

definition log_writer_at :: "checksum \<Rightarrow> 'f \<Rightarrow> u64 \<Rightarrow> 'f log_writer" where
  "log_writer_at crc dest dest_length =
     \<lparr>lw_dest = dest, lw_block_offset = unat dest_length mod kBlockSize,
      lw_type_crc = init_type_crc crc\<rparr>"

definition emit_physical_record ::
    "checksum \<Rightarrow> 'f writable_file \<Rightarrow> 'f log_writer \<Rightarrow> u32 \<Rightarrow> u8 list \<Rightarrow>
     (status \<times> 'f log_writer) option" where
  "emit_physical_record crc file w t ptr =
     (let n = length ptr in
      if \<not> n \<le> 0xffff \<or> \<not> lw_block_offset w + kHeaderSize + n \<le> kBlockSize then None
      else
        let c = crc_mask (crc (lw_type_crc w ! unat t) ptr);
            buf = encode_fixed32 c @
              [of_nat n AND 0xff, ucast (drop_bit 8 (of_nat n :: u64)), ucast t];
            (s, f) = wf_append file (lw_dest w) buf;
            (s, f) =
              (if status_ok s then
                 let (s, f) = wf_append file f ptr in
                 if status_ok s then wf_flush file f else (s, f)
               else (s, f)) in
        Some (s, w\<lparr>lw_dest := f, lw_block_offset := lw_block_offset w + kHeaderSize + n\<rparr>))"

text \<open>The trailer of a block that has no room for a header: \<open>Append\<close>'s status is not looked at.\<close>

definition switch_block :: "'f writable_file \<Rightarrow> 'f log_writer \<Rightarrow> 'f log_writer option" where
  "switch_block file w =
     (if lw_block_offset w > kBlockSize then None
      else
        let leftover = kBlockSize - lw_block_offset w in
        if leftover < kHeaderSize then
          let f = (if leftover > 0
                   then snd (wf_append file (lw_dest w) (take leftover [0, 0, 0, 0, 0, 0]))
                   else lw_dest w) in
          Some (w\<lparr>lw_dest := f, lw_block_offset := 0\<rparr>)
        else Some w)"

definition fragment_type :: "bool \<Rightarrow> bool \<Rightarrow> u32" where
  "fragment_type is_begin is_end =
     (if is_begin \<and> is_end then kFullType
      else if is_begin then kFirstType
      else if is_end then kLastType
      else kMiddleType)"

lemma emit_offset:
  "emit_physical_record crc file w t ptr = Some (s, w') \<Longrightarrow>
     lw_block_offset w' = lw_block_offset w + kHeaderSize + length ptr"
  by (auto simp: emit_physical_record_def Let_def split: if_splits prod.splits)

lemma switch_offset:
  "switch_block file w = Some w' \<Longrightarrow>
     lw_block_offset w' = (if kBlockSize - lw_block_offset w < kHeaderSize then 0 else lw_block_offset w)"
  by (auto simp: switch_block_def Let_def split: if_splits)

text \<open>The loop of \<open>AddRecord\<close>.  A fragment can be empty, when the header just fills the block; the
  next one is not.\<close>

definition add_record_rank :: "u8 list \<times> nat \<Rightarrow> nat" where
  "add_record_rank = (\<lambda>(ptr, off). 2 * length ptr + (if kBlockSize - off = kHeaderSize then 1 else 0))"

function add_record_loop ::
    "checksum \<Rightarrow> 'f writable_file \<Rightarrow> 'f log_writer \<Rightarrow> bool \<Rightarrow> u8 list \<Rightarrow>
     (status \<times> 'f log_writer) option" where
  "add_record_loop crc file w is_begin ptr =
     (case switch_block file w of
        None \<Rightarrow> None
      | Some w1 \<Rightarrow>
          if kBlockSize < lw_block_offset w1 + kHeaderSize then None
          else
            let avail = kBlockSize - lw_block_offset w1 - kHeaderSize;
                fragment_length = (if length ptr < avail then length ptr else avail);
                t = fragment_type is_begin (length ptr = fragment_length) in
            case emit_physical_record crc file w1 t (take fragment_length ptr) of
              None \<Rightarrow> None
            | Some (s, w2) \<Rightarrow>
                if status_ok s \<and> drop fragment_length ptr \<noteq> []
                then add_record_loop crc file w2 False (drop fragment_length ptr)
                else Some (s, w2))"
  by auto
termination
  by (relation "measure (\<lambda>(crc, file, w, b, ptr). add_record_rank (ptr, lw_block_offset w))")
    (auto simp: add_record_rank_def kBlockSize_def kHeaderSize_def dest!: emit_offset switch_offset
      split: if_splits)

declare add_record_loop.simps [simp del]

definition add_record ::
    "checksum \<Rightarrow> 'f writable_file \<Rightarrow> 'f log_writer \<Rightarrow> slice \<Rightarrow> (status \<times> 'f log_writer) option" where
  "add_record crc file w record = add_record_loop crc file w True record"

subsection \<open>Reader\<close>

record 'f log_reader_config =
  lc_crc :: checksum
  lc_file :: "'f sequential_file"
  lc_reporter :: bool
  lc_checksum :: bool
  lc_initial_offset :: u64

record 'f log_reader =
  lr_file :: 'f
  lr_buffer :: slice
  lr_eof :: bool
  lr_last_record_offset :: u64
  lr_end_of_buffer_offset :: u64
  lr_resyncing :: bool
  lr_reports :: "(u64 \<times> status) list"

definition log_reader :: "'f log_reader_config \<Rightarrow> 'f \<Rightarrow> 'f log_reader" where
  "log_reader cfg file =
     \<lparr>lr_file = file, lr_buffer = [], lr_eof = False, lr_last_record_offset = 0,
      lr_end_of_buffer_offset = 0, lr_resyncing = (lc_initial_offset cfg > 0), lr_reports = []\<rparr>"

text \<open>Sizes are \<open>size_t\<close>, offsets \<open>uint64_t\<close>: their arithmetic wraps at 64 bits.\<close>

definition buffer_size :: "'f log_reader \<Rightarrow> u64" where
  "buffer_size r = of_nat (length (lr_buffer r))"

definition report_drop ::
    "'f log_reader_config \<Rightarrow> 'f log_reader \<Rightarrow> u64 \<Rightarrow> status \<Rightarrow> 'f log_reader" where
  "report_drop cfg r bytes reason =
     (if lc_reporter cfg \<and>
         lr_end_of_buffer_offset r - buffer_size r - bytes \<ge> lc_initial_offset cfg
      then r\<lparr>lr_reports := lr_reports r @ [(bytes, reason)]\<rparr> else r)"

definition report_corruption ::
    "'f log_reader_config \<Rightarrow> 'f log_reader \<Rightarrow> u64 \<Rightarrow> u8 list \<Rightarrow> 'f log_reader" where
  "report_corruption cfg r bytes reason =
     report_drop cfg r bytes (make_status KCorruption reason [])"

definition skip_to_initial_block ::
    "'f log_reader_config \<Rightarrow> 'f log_reader \<Rightarrow> bool \<times> 'f log_reader" where
  "skip_to_initial_block cfg r =
     (let offset_in_block = lc_initial_offset cfg mod of_nat kBlockSize;
          block_start_location = lc_initial_offset cfg - offset_in_block;
          block_start_location =
            (if offset_in_block > of_nat kBlockSize - 6
             then block_start_location + of_nat kBlockSize else block_start_location);
          r = r\<lparr>lr_end_of_buffer_offset := block_start_location\<rparr> in
      if block_start_location > 0 then
        let (skip_status, f) = sf_skip (lc_file cfg) (lr_file r) block_start_location;
            r = r\<lparr>lr_file := f\<rparr> in
        if \<not> status_ok skip_status
        then (False, report_drop cfg r block_start_location skip_status)
        else (True, r)
      else (True, r))"

text \<open>The next block is read into the buffer, in \<open>ReadPhysicalRecord\<close>.  The result tells whether
  the read failed.\<close>

definition fill_buffer :: "'f log_reader_config \<Rightarrow> 'f log_reader \<Rightarrow> bool \<times> 'f log_reader" where
  "fill_buffer cfg r =
     (let (s, data, f) = sf_read (lc_file cfg) (lr_file r) kBlockSize;
          r = r\<lparr>lr_file := f, lr_buffer := data,
                lr_end_of_buffer_offset := lr_end_of_buffer_offset r + of_nat (length data)\<rparr> in
      if \<not> status_ok s then
        let r = r\<lparr>lr_buffer := []\<rparr>;
            r = report_drop cfg r (of_nat kBlockSize) s in
        (True, r\<lparr>lr_eof := True\<rparr>)
      else (False, r\<lparr>lr_eof := (if length data < kBlockSize then True else lr_eof r)\<rparr>))"

lemma report_drop_simps [simp]:
  "lr_buffer (report_drop cfg r b s) = lr_buffer r" "lr_eof (report_drop cfg r b s) = lr_eof r"
  "lr_file (report_drop cfg r b s) = lr_file r"
  by (simp_all add: report_drop_def)

lemma fill_buffer_eof:
  "fill_buffer cfg r = (e, r') \<Longrightarrow> length (lr_buffer r') < kHeaderSize \<Longrightarrow> lr_eof r'"
  by (auto simp: fill_buffer_def Let_def kBlockSize_def kHeaderSize_def split: prod.splits if_splits)

text \<open>The rest of \<open>ReadPhysicalRecord\<close>, on a buffer with at least a header.  The fragment is
  \<open>None\<close> where \<open>*result\<close> is not set.\<close>

definition parse_physical_record ::
    "'f log_reader_config \<Rightarrow> 'f log_reader \<Rightarrow> u32 \<times> slice option \<times> 'f log_reader" where
  "parse_physical_record cfg r =
     (let header = lr_buffer r;
          a = ucast (header ! 4) AND 0xff :: u32;
          b = ucast (header ! 5) AND 0xff :: u32;
          t = scast (header ! 6) :: u32;
          len = a OR push_bit 8 b in
      if kHeaderSize + unat len > length (lr_buffer r) then
        let drop_size = buffer_size r; r = r\<lparr>lr_buffer := []\<rparr> in
        if \<not> lr_eof r
        then (kBadRecord, None, report_corruption cfg r drop_size (ascii ''bad record length''))
        else (kEof, None, r)
      else if t = kZeroType \<and> len = 0 then (kBadRecord, None, r\<lparr>lr_buffer := []\<rparr>)
      else if lc_checksum cfg \<and>
          lc_crc cfg 0 (take (1 + unat len) (drop 6 header)) \<noteq> crc_unmask (word_of_bytes (take 4 header))
      then
        let drop_size = buffer_size r; r = r\<lparr>lr_buffer := []\<rparr> in
        (kBadRecord, None, report_corruption cfg r drop_size (ascii ''checksum mismatch''))
      else
        let r = r\<lparr>lr_buffer := drop (kHeaderSize + unat len) (lr_buffer r)\<rparr> in
        if lr_end_of_buffer_offset r - buffer_size r - of_nat kHeaderSize - ucast len <
           lc_initial_offset cfg
        then (kBadRecord, Some [], r)
        else (t, Some (take (unat len) (drop kHeaderSize header)), r))"

function read_physical_record ::
    "'f log_reader_config \<Rightarrow> 'f log_reader \<Rightarrow> u32 \<times> slice option \<times> 'f log_reader" where
  "read_physical_record cfg r =
     (if length (lr_buffer r) < kHeaderSize then
        if \<not> lr_eof r then
          case fill_buffer cfg r of
            (e, r') \<Rightarrow> if e then (kEof, None, r') else read_physical_record cfg r'
        else (kEof, None, r\<lparr>lr_buffer := []\<rparr>)
      else parse_physical_record cfg r)"
  by auto
termination
  by (relation "measure (\<lambda>(cfg, r). if length (lr_buffer r) < kHeaderSize
        then if lr_eof r then 1 else 2 else (0 :: nat))")
    (auto dest!: fill_buffer_eof [OF sym])

declare read_physical_record.simps [simp del]

text \<open>The locals of \<open>ReadRecord\<close>.\<close>

record log_scan =
  ls_scratch :: "u8 list"
  ls_fragment :: slice
  ls_in_fragmented :: bool
  ls_prospective :: u64

text \<open>What an iteration does: return a record, give up, or go on.\<close>

datatype 'f scan_step =
    ScanReturn slice log_scan "'f log_reader"
  | ScanStop log_scan "'f log_reader"
  | ScanNext log_scan "'f log_reader"

text \<open>A record that starts while one is being assembled.\<close>

definition start_record ::
    "'f log_reader_config \<Rightarrow> string \<Rightarrow> log_scan \<Rightarrow> 'f log_reader \<Rightarrow> log_scan \<times> 'f log_reader" where
  "start_record cfg reason v r =
     (if ls_in_fragmented v then
        if ls_scratch v = [] then (v\<lparr>ls_in_fragmented := False\<rparr>, r)
        else (v, report_corruption cfg r (of_nat (length (ls_scratch v))) (ascii reason))
      else (v, r))"

definition scan_step ::
    "'f log_reader_config \<Rightarrow> log_scan \<Rightarrow> 'f log_reader \<Rightarrow> 'f scan_step" where
  "scan_step cfg v r =
     (case read_physical_record cfg r of
        (record_type, result, r) \<Rightarrow>
          let v = (case result of None \<Rightarrow> v | Some f \<Rightarrow> v\<lparr>ls_fragment := f\<rparr>);
              fragment = ls_fragment v;
              physical_record_offset =
                lr_end_of_buffer_offset r - buffer_size r - of_nat kHeaderSize - of_nat (length fragment) in
          if lr_resyncing r \<and> record_type = kMiddleType then ScanNext v r
          else if lr_resyncing r \<and> record_type = kLastType
          then ScanNext v (r\<lparr>lr_resyncing := False\<rparr>)
          else
            let r = r\<lparr>lr_resyncing := False\<rparr> in
            if record_type = kFullType then
              let (v, r) = start_record cfg ''partial record without end(1)'' v r;
                  v = v\<lparr>ls_prospective := physical_record_offset, ls_scratch := []\<rparr> in
              ScanReturn fragment v (r\<lparr>lr_last_record_offset := physical_record_offset\<rparr>)
            else if record_type = kFirstType then
              let (v, r) = start_record cfg ''partial record without end(2)'' v r in
              ScanNext (v\<lparr>ls_prospective := physical_record_offset, ls_scratch := fragment,
                          ls_in_fragmented := True\<rparr>) r
            else if record_type = kMiddleType then
              if \<not> ls_in_fragmented v
              then ScanNext v (report_corruption cfg r (of_nat (length fragment))
                     (ascii ''missing start of fragmented record(1)''))
              else ScanNext (v\<lparr>ls_scratch := ls_scratch v @ fragment\<rparr>) r
            else if record_type = kLastType then
              if \<not> ls_in_fragmented v
              then ScanNext v (report_corruption cfg r (of_nat (length fragment))
                     (ascii ''missing start of fragmented record(2)''))
              else
                let v = v\<lparr>ls_scratch := ls_scratch v @ fragment\<rparr> in
                ScanReturn (ls_scratch v) v (r\<lparr>lr_last_record_offset := ls_prospective v\<rparr>)
            else if record_type = kEof then
              ScanStop (if ls_in_fragmented v then v\<lparr>ls_scratch := []\<rparr> else v) r
            else if record_type = kBadRecord then
              if ls_in_fragmented v
              then ScanNext (v\<lparr>ls_in_fragmented := False, ls_scratch := []\<rparr>)
                     (report_corruption cfg r (of_nat (length (ls_scratch v)))
                       (ascii ''error in middle of record''))
              else ScanNext v r
            else
              ScanNext (v\<lparr>ls_in_fragmented := False, ls_scratch := []\<rparr>)
                (report_corruption cfg r
                  (of_nat (length fragment + (if ls_in_fragmented v then length (ls_scratch v) else 0)))
                  (ascii ''unknown record type '' @ decimal (unat record_type))))"

partial_function (option) scan_loop ::
    "'f log_reader_config \<Rightarrow> log_scan \<Rightarrow> 'f log_reader \<Rightarrow> (slice option \<times> 'f log_reader) option" where
  "scan_loop cfg v r =
     (case scan_step cfg v r of
        ScanReturn record v r \<Rightarrow> Some (Some record, r)
      | ScanStop v r \<Rightarrow> Some (None, r)
      | ScanNext v r \<Rightarrow> scan_loop cfg v r)"

text \<open>\<open>ReadRecord\<close>: the record, or \<open>None\<close> where the code returns \<open>false\<close>.\<close>

definition read_record ::
    "'f log_reader_config \<Rightarrow> 'f log_reader \<Rightarrow> (slice option \<times> 'f log_reader) option" where
  "read_record cfg r =
     (let v = \<lparr>ls_scratch = [], ls_fragment = [], ls_in_fragmented = False, ls_prospective = 0\<rparr> in
      if lr_last_record_offset r < lc_initial_offset cfg then
        let (ok, r) = skip_to_initial_block cfg r in
        if \<not> ok then Some (None, r) else scan_loop cfg v r
      else scan_loop cfg v r)"

end
