(* ===== verification/LdLogOk.thy ===== *)
theory LdLogOk
  imports LdLog
begin

text \<open>
  The log as a format: which bytes a sequence of records is, that the writer writes them, and that
  the reader reads the records back, also from a file that was cut off anywhere.
\<close>

subsection \<open>The format\<close>

definition physical :: "u32 \<Rightarrow> u8 list \<Rightarrow> u8 list" where
  "physical t d =
     encode_fixed32 (crc_mask (crc32c 0 (ucast t # d))) @
     [of_nat (length d mod 256), of_nat (length d div 256), ucast t] @ d"

text \<open>Where the next header goes after offset \<open>off\<close> of a block, and the padding before it.\<close>

definition header_offset :: "nat \<Rightarrow> nat" where
  "header_offset off = (if kBlockSize - off < kHeaderSize then 0 else off)"

definition padding :: "nat \<Rightarrow> u8 list" where
  "padding off = (if kBlockSize - off < kHeaderSize then replicate (kBlockSize - off) 0 else [])"

definition fragment_room :: "nat \<Rightarrow> nat" where
  "fragment_room off = kBlockSize - header_offset off - kHeaderSize"

lemmas block_defs = kBlockSize_def kHeaderSize_def header_offset_def padding_def fragment_room_def

text \<open>How much of \<open>d\<close> goes into the next fragment, and where that fragment ends.\<close>

definition frag_len :: "nat \<Rightarrow> u8 list \<Rightarrow> nat" where
  "frag_len off d = min (length d) (fragment_room off)"

definition frag_end :: "nat \<Rightarrow> u8 list \<Rightarrow> nat" where
  "frag_end off d = header_offset off + kHeaderSize + frag_len off d"

text \<open>The bytes of a record that is written at offset \<open>off\<close> of a block, and the offset after it.\<close>

definition frag_bytes :: "nat \<Rightarrow> bool \<Rightarrow> u8 list \<Rightarrow> u8 list" where
  "frag_bytes off is_begin d =
     padding off @ physical (fragment_type is_begin (length d = frag_len off d)) (take (frag_len off d) d)"

function record_bytes :: "nat \<Rightarrow> bool \<Rightarrow> u8 list \<Rightarrow> u8 list \<times> nat" where
  "record_bytes off is_begin d =
     (if frag_len off d < length d
      then (frag_bytes off is_begin d @ fst (record_bytes (frag_end off d) False (drop (frag_len off d) d)),
            snd (record_bytes (frag_end off d) False (drop (frag_len off d) d)))
      else (frag_bytes off is_begin d, frag_end off d))"
  by auto
termination
  by (relation "measure (\<lambda>(off, b, d). add_record_rank (d, off))")
    (auto simp: add_record_rank_def block_defs frag_len_def frag_end_def split: if_splits)

declare record_bytes.simps [simp del]

lemma record_bytes_last:
  "\<not> frag_len off d < length d \<Longrightarrow> record_bytes off b d = (frag_bytes off b d, frag_end off d)"
  by (subst record_bytes.simps) simp

lemma record_bytes_more:
  "frag_len off d < length d \<Longrightarrow> record_bytes off b d =
     (frag_bytes off b d @ fst (record_bytes (frag_end off d) False (drop (frag_len off d) d)),
      snd (record_bytes (frag_end off d) False (drop (frag_len off d) d)))"
  by (subst record_bytes.simps) simp

primrec log_bytes :: "nat \<Rightarrow> slice list \<Rightarrow> u8 list \<times> nat" where
  "log_bytes off [] = ([], off)"
| "log_bytes off (d # ds) =
     (let (b, off') = record_bytes off True d; (bs, off'') = log_bytes off' ds in (b @ bs, off''))"

lemma length_physical [simp]: "length (physical t d) = kHeaderSize + length d"
  by (simp add: physical_def kHeaderSize_def)

lemma frag_end_le: "frag_end off d \<le> kBlockSize"
  by (auto simp: block_defs frag_end_def frag_len_def)

lemma frag_len_le: "frag_len off d \<le> length d"
  by (simp add: frag_len_def)

lemma record_offset_le: "snd (record_bytes off b d) \<le> kBlockSize"
  by (induction off b d rule: record_bytes.induct)
    (subst record_bytes.simps, simp add: frag_end_le)

subsection \<open>The writer writes the format\<close>

definition writer_ok :: "'f log_writer \<Rightarrow> bool" where
  "writer_ok w \<longleftrightarrow> lw_block_offset w \<le> kBlockSize \<and> lw_type_crc w = init_type_crc crc32c"

lemma type_crc:
  assumes "t \<le> kLastType"
  shows "init_type_crc crc32c ! unat t = crc32c 0 [ucast t]"
proof -
  from assms have "unat t < 5" by (simp add: record_type_defs word_le_nat_alt)
  then show ?thesis by (simp add: init_type_crc_def record_type_defs nth_append del: upt_Suc)
qed

lemma fragment_type_range: "fragment_type b e \<le> kLastType" "fragment_type b e \<noteq> kZeroType"
  by (auto simp: fragment_type_def record_type_defs)

lemma header_bytes:
  assumes "n \<le> 65535"
  shows "(of_nat n AND 0xff :: u8) = of_nat (n mod 256)"
    and "ucast (drop_bit 8 (of_nat n :: u64)) = (of_nat (n div 256) :: u8)"
proof -
  have "(of_nat n AND 0xff :: u8) = of_nat n"
    by (simp only: and_ff) (rule bit_word_eqI, simp add: bit_simps)
  also have "\<dots> = of_nat (n mod 256)" by (simp add: word_unat_eq_iff unat_of_nat)
  finally show "(of_nat n AND 0xff :: u8) = of_nat (n mod 256)" .
  have "unat (drop_bit 8 (of_nat n :: u64)) = n div 256"
    using assms by (simp only: unat_drop_bit_eq) (simp add: drop_bit_eq_div unat_of_nat)
  then show "ucast (drop_bit 8 (of_nat n :: u64)) = (of_nat (n div 256) :: u8)"
    by (metis of_nat_unat)
qed

context file_with_room
begin

lemma emit_ok:
  assumes "writer_ok w" "t \<le> kLastType" "lw_block_offset w + kHeaderSize + length d \<le> kBlockSize"
    "room (lw_dest w) (kHeaderSize + length d + n)"
  shows "\<exists>w'. emit_physical_record crc32c ops w t d = Some (StatusOK, w') \<and>
     written (lw_dest w') = written (lw_dest w) @ physical t d \<and> room (lw_dest w') n \<and>
     writer_ok w' \<and> lw_block_offset w' = lw_block_offset w + kHeaderSize + length d"
proof -
  have len: "length d \<le> 65535" using assms(3) by (simp add: kBlockSize_def kHeaderSize_def)
  define hdr where "hdr = encode_fixed32 (crc_mask (crc32c 0 (ucast t # d))) @
     [of_nat (length d mod 256), of_nat (length d div 256), ucast t]"
  have c: "crc32c (lw_type_crc w ! unat t) d = crc32c 0 (ucast t # d)"
    using assms(1,2) crc32c_append [of 0 "[ucast t]" d] by (simp add: writer_ok_def type_crc)
  have "length hdr = kHeaderSize" by (simp add: hdr_def kHeaderSize_def)
  with append_ok [of "lw_dest w" hdr "length d + n"] assms(4) [unfolded add.assoc]
  obtain f1 where f1: "wf_append ops (lw_dest w) hdr = (StatusOK, f1)"
    "written f1 = written (lw_dest w) @ hdr" "room f1 (length d + n)" by auto
  from append_ok [OF f1(3)] obtain f2 where f2: "wf_append ops f1 d = (StatusOK, f2)"
    "written f2 = written f1 @ d" "room f2 n" by auto
  from flush_ok [OF f2(3)] obtain f3 where f3: "wf_flush ops f2 = (StatusOK, f3)"
    "written f3 = written f2" "room f3 n" by auto
  have "physical t d = hdr @ d" by (simp add: physical_def hdr_def)
  moreover have "emit_physical_record crc32c ops w t d =
      Some (StatusOK, w\<lparr>lw_dest := f3, lw_block_offset := lw_block_offset w + kHeaderSize + length d\<rparr>)"
    using len assms(3) f1(1) f2(1) f3(1) header_bytes [OF len]
    by (simp add: emit_physical_record_def Let_def c hdr_def)
  ultimately show ?thesis
    using assms(1,3) f1 f2 f3 by (auto simp: writer_ok_def)
qed

lemma switch_ok:
  assumes "writer_ok w" "room (lw_dest w) (length (padding (lw_block_offset w)) + n)"
  shows "\<exists>w'. switch_block ops w = Some w' \<and> writer_ok w' \<and>
     written (lw_dest w') = written (lw_dest w) @ padding (lw_block_offset w) \<and>
     room (lw_dest w') n \<and> lw_block_offset w' = header_offset (lw_block_offset w)"
proof (cases "kBlockSize - lw_block_offset w < kHeaderSize \<and> lw_block_offset w < kBlockSize")
  case False
  with assms show ?thesis
    by (auto simp: switch_block_def Let_def writer_ok_def padding_def header_offset_def kHeaderSize_def)
next
  case True
  define k where "k = kBlockSize - lw_block_offset w"
  from True have k: "0 < k" "k \<le> 6" by (simp_all add: k_def kHeaderSize_def)
  have "take k [0, 0, 0, 0, 0, 0] = (replicate k 0 :: u8 list)"
    using k take_replicate [of k 6 "0 :: u8"] by (simp add: eval_nat_numeral)
  moreover have pad: "padding (lw_block_offset w) = replicate k 0"
    using True by (simp add: padding_def k_def)
  moreover from append_ok [OF assms(2)] obtain f1 where
    "wf_append ops (lw_dest w) (padding (lw_block_offset w)) = (StatusOK, f1)"
    "written f1 = written (lw_dest w) @ padding (lw_block_offset w)" "room f1 n" by auto
  ultimately show ?thesis
    using True k assms(1)
    by (simp add: switch_block_def Let_def k_def [symmetric] writer_ok_def header_offset_def)
qed

lemma add_fragment_ok:
  assumes "writer_ok w" "room (lw_dest w) (length (frag_bytes (lw_block_offset w) b d) + n)"
  defines "k \<equiv> frag_len (lw_block_offset w) d"
  shows "\<exists>w'. add_record_loop crc32c ops w b d =
       (if k < length d then add_record_loop crc32c ops w' False (drop k d) else Some (StatusOK, w')) \<and>
     written (lw_dest w') = written (lw_dest w) @ frag_bytes (lw_block_offset w) b d \<and>
     lw_block_offset w' = frag_end (lw_block_offset w) d \<and> room (lw_dest w') n \<and> writer_ok w'"
proof -
  let ?off = "lw_block_offset w"
  define t where "t = fragment_type b (length d = k)"
  have k: "k \<le> length d" unfolding k_def by (rule frag_len_le)
  then have tk: "length (take k d) = k" by simp
  have fits: "header_offset ?off + kHeaderSize + k \<le> kBlockSize"
    using frag_end_le [of ?off d] by (simp add: frag_end_def k_def)
  from assms(2) have "room (lw_dest w) (length (padding ?off) + (kHeaderSize + k + n))"
    using k by (simp add: frag_bytes_def k_def [symmetric] min_absorb2 ac_simps)
  from switch_ok [OF assms(1) this] obtain w1 where w1: "switch_block ops w = Some w1" "writer_ok w1"
    "written (lw_dest w1) = written (lw_dest w) @ padding ?off"
    "room (lw_dest w1) (kHeaderSize + k + n)" "lw_block_offset w1 = header_offset ?off" by blast
  have "lw_block_offset w1 + kHeaderSize + length (take k d) \<le> kBlockSize"
    "room (lw_dest w1) (kHeaderSize + length (take k d) + n)" "t \<le> kLastType"
    using fits w1(4,5) unfolding tk t_def by (simp_all add: fragment_type_range(1))
  from emit_ok [OF w1(2) this(3,1,2)]
  obtain w2 where w2: "emit_physical_record crc32c ops w1 t (take k d) = Some (StatusOK, w2)"
    "written (lw_dest w2) = written (lw_dest w1) @ physical t (take k d)"
    "room (lw_dest w2) n" "writer_ok w2" "lw_block_offset w2 = lw_block_offset w1 + kHeaderSize + k"
    unfolding tk by blast
  have frag: "(if length d < kBlockSize - lw_block_offset w1 - kHeaderSize then length d
      else kBlockSize - lw_block_offset w1 - kHeaderSize) = k"
    by (simp add: w1(5) k_def frag_len_def fragment_room_def)
  have nofit: "\<not> kBlockSize < lw_block_offset w1 + kHeaderSize" using fits w1(5) by simp
  have more: "drop k d \<noteq> [] \<longleftrightarrow> k < length d" using k by auto
  have "add_record_loop crc32c ops w b d =
      (if k < length d then add_record_loop crc32c ops w2 False (drop k d) else Some (StatusOK, w2))"
    by (subst add_record_loop.simps)
      (simp only: w1(1) option.case Let_def frag if_not_P [OF nofit] t_def [symmetric] w2(1)
        prod.case status_ok_simps simp_thms more)
  with w1 w2 show ?thesis
    by (auto simp: frag_bytes_def k_def [symmetric] t_def [symmetric] frag_end_def)
qed

lemma add_record_loop_ok:
  assumes "writer_ok w"
    "room (lw_dest w) (length (fst (record_bytes (lw_block_offset w) b d)) + n)"
  shows "\<exists>w'. add_record_loop crc32c ops w b d = Some (StatusOK, w') \<and>
     written (lw_dest w') = written (lw_dest w) @ fst (record_bytes (lw_block_offset w) b d) \<and>
     lw_block_offset w' = snd (record_bytes (lw_block_offset w) b d) \<and>
     room (lw_dest w') n \<and> writer_ok w'"
  using assms
proof (induction "lw_block_offset w" b d arbitrary: w rule: record_bytes.induct)
  case (1 b d)
  let ?off = "lw_block_offset w"
  show ?case
  proof (cases "frag_len ?off d < length d")
    case False
    with "1.prems"(2) have "room (lw_dest w) (length (frag_bytes ?off b d) + n)"
      by (simp add: record_bytes_last)
    from add_fragment_ok [OF "1.prems"(1) this] False show ?thesis by (auto simp: record_bytes_last)
  next
    case True
    let ?rest = "record_bytes (frag_end ?off d) False (drop (frag_len ?off d) d)"
    from "1.prems"(2) True have "room (lw_dest w) (length (frag_bytes ?off b d) + (length (fst ?rest) + n))"
      by (simp add: record_bytes_more ac_simps)
    from add_fragment_ok [OF "1.prems"(1) this] True obtain w1 where w1:
      "add_record_loop crc32c ops w b d =
         add_record_loop crc32c ops w1 False (drop (frag_len ?off d) d)"
      "written (lw_dest w1) = written (lw_dest w) @ frag_bytes ?off b d"
      "frag_end ?off d = lw_block_offset w1" "room (lw_dest w1) (length (fst ?rest) + n)" "writer_ok w1"
      by auto
    from "1.hyps"(1) [OF True w1(3,5)] w1(1,2,4) True show ?thesis
      by (auto simp: record_bytes_more w1(3))
  qed
qed

text \<open>Writing a list of records, one \<open>AddRecord\<close> after the other.\<close>

lemma add_record_ok:
  assumes "writer_ok w" "room (lw_dest w) (length (fst (record_bytes (lw_block_offset w) True d)) + n)"
  shows "\<exists>w'. add_record crc32c ops w d = Some (StatusOK, w') \<and>
     written (lw_dest w') = written (lw_dest w) @ fst (record_bytes (lw_block_offset w) True d) \<and>
     lw_block_offset w' = snd (record_bytes (lw_block_offset w) True d) \<and>
     room (lw_dest w') n \<and> writer_ok w'"
  unfolding add_record_def using assms by (rule add_record_loop_ok)

end

end
