(* ===== verification/LdLogRead.thy ===== *)
theory LdLogRead
  imports LdLogOk
begin

text \<open>The reader of a log on a file that holds the format of \<open>LdLogOk\<close>, or an initial part of it.\<close>

lemma fragment_type_wide: "scast (ucast (fragment_type b e) :: u8) = fragment_type b e"
  by (simp add: fragment_type_def record_type_defs)

lemma header_length:
  assumes "n \<le> 65535"
  shows "(ucast (of_nat (n mod 256) :: u8) AND 0xff) OR push_bit 8 (ucast (of_nat (n div 256) :: u8) AND 0xff)
     = (of_nat n :: u32)"
proof -
  have u: "(ucast (of_nat k :: u8) AND 0xff :: u32) = of_nat k" if "k < 256" for k
    using that by (simp only: word_unat_eq_iff and_ff unsigned_take_bit_eq unsigned_ucast_eq)
      (simp add: take_bit_eq_mod unat_of_nat)
  have "n mod 256 < 256" "n div 256 < 256" using assms by simp_all
  then have "(ucast (of_nat (n mod 256) :: u8) AND 0xff) OR push_bit 8 (ucast (of_nat (n div 256) :: u8) AND 0xff)
     = (of_nat (n mod 256) OR push_bit 8 (of_nat (n div 256)) :: u32)"
    by (simp only: u)
  also have "\<dots> = of_nat (n mod 256 + 2 ^ 8 * (n div 256))"
    by (rule word_add_pow [symmetric]) simp
  finally show ?thesis by simp
qed

text \<open>The reader has the header and a part of the data of a physical record in its buffer.\<close>

lemma parse_physical:
  assumes "lr_buffer r = take m (physical t d @ suf)" "kHeaderSize \<le> m"
    "length d \<le> 65535" "t \<noteq> kZeroType" "scast (ucast t :: u8) = t"
    "lc_crc cfg = crc32c" "lc_initial_offset cfg = 0"
  shows "parse_physical_record cfg r =
     (if m < kHeaderSize + length d then
        if lr_eof r then (kEof, None, r\<lparr>lr_buffer := []\<rparr>)
        else (kBadRecord, None, report_corruption cfg (r\<lparr>lr_buffer := []\<rparr>) (buffer_size r)
                (ascii ''bad record length''))
      else (t, Some d, r\<lparr>lr_buffer := drop (kHeaderSize + length d) (lr_buffer r)\<rparr>))"
proof -
  define c where "c = encode_fixed32 (crc_mask (crc32c 0 (ucast t # d)))"
  define rest where "rest = take (m - 7) (d @ suf)"
  have lenc: "length c = 4" by (simp add: c_def)
  have "\<exists>c0 c1 c2 c3. c = [c0, c1, c2, c3]" by (simp add: c_def encode_fixed32_eq)
  then obtain c0 c1 c2 c3 where c: "c = [c0, c1, c2, c3]" by blast
  have m: "m = 7 + (m - 7)" using assms(2) by (simp add: kHeaderSize_def)
  have "lr_buffer r = take (7 + (m - 7)) ((c @ [of_nat (length d mod 256), of_nat (length d div 256), ucast t])
      @ d @ suf)"
    using assms(1) m by (simp add: physical_def c_def)
  then have buf: "lr_buffer r = c @ [of_nat (length d mod 256), of_nat (length d div 256), ucast t] @ rest"
    by (simp only: take_add) (simp add: c rest_def)
  have len: "(ucast (lr_buffer r ! 4) AND 0xff) OR push_bit 8 (ucast (lr_buffer r ! 5) AND 0xff)
      = (of_nat (length d) :: u32)"
    using header_length [OF assms(3)] by (simp add: buf c)
  have un: "unat (of_nat (length d) :: u32) = length d"
    using assms(3) by (intro unat_of_nat_u32) simp
  have ty: "scast (lr_buffer r ! 6) = t" using assms(5) by (simp add: buf c)
  have lb: "length (lr_buffer r) = 7 + length rest" by (simp add: buf c)
  show ?thesis
  proof (cases "m < kHeaderSize + length d")
    case True
    then have "kHeaderSize + length d > length (lr_buffer r)"
      unfolding lb using m by (simp add: rest_def kHeaderSize_def)
    with True show ?thesis
      unfolding parse_physical_record_def Let_def len un by simp
  next
    case False
    then have rest: "rest = d @ take (m - 7 - length d) suf"
      by (simp add: rest_def kHeaderSize_def)
    have "\<not> kHeaderSize + length d > length (lr_buffer r)"
      unfolding lb rest by (simp add: kHeaderSize_def)
    moreover have "take (Suc (length d)) (drop 6 (lr_buffer r)) = ucast t # d"
      by (simp add: buf c rest)
    moreover have "crc_unmask (word_of_bytes (take 4 (lr_buffer r))) = crc32c 0 (ucast t # d)"
    proof -
      have "take 4 (lr_buffer r) = c" using lenc by (simp add: buf)
      then show ?thesis by (simp only: c_def word_of_encode32 unmask_mask)
    qed
    moreover have "take (length d) (drop kHeaderSize (lr_buffer r)) = d"
      by (simp add: buf c rest kHeaderSize_def)
    ultimately show ?thesis
      using False assms(4,6,7)
      unfolding parse_physical_record_def Let_def len un ty by simp
  qed
qed

context readable_file
begin

text \<open>The reader is at offset \<open>off\<close> of a block with \<open>rest\<close> still to come: its buffer is the rest
  of the block.\<close>

definition reader_at :: "nat \<Rightarrow> u8 list \<Rightarrow> 'f log_reader \<Rightarrow> bool" where
  "reader_at off rest r \<longleftrightarrow>
     off \<le> kBlockSize \<and> good (lr_file r) \<and> rest = lr_buffer r @ ahead (lr_file r) \<and>
     (if lr_eof r then ahead (lr_file r) = [] \<and> length (lr_buffer r) \<le> kBlockSize - off
      else length (lr_buffer r) = kBlockSize - off) \<and>
     \<not> lr_resyncing r"

lemma fill_ok:
  assumes "good (lr_file r)" "\<not> lr_eof r" "\<not> lr_resyncing r" "lc_file cfg = ops"
  shows "\<exists>r'. fill_buffer cfg r = (False, r') \<and> reader_at 0 (ahead (lr_file r)) r' \<and>
     lr_reports r' = lr_reports r"
proof -
  from read_ok [OF assms(1), of kBlockSize] obtain f where f:
    "sf_read ops (lr_file r) kBlockSize = (StatusOK, take kBlockSize (ahead (lr_file r)), f)"
    "ahead f = drop kBlockSize (ahead (lr_file r))" "good f" by blast
  define r' where "r' = r\<lparr>lr_file := f, lr_buffer := take kBlockSize (ahead (lr_file r)),
     lr_end_of_buffer_offset := lr_end_of_buffer_offset r +
       of_nat (length (take kBlockSize (ahead (lr_file r)))),
     lr_eof := (if length (take kBlockSize (ahead (lr_file r))) < kBlockSize then True else lr_eof r)\<rparr>"
  have "fill_buffer cfg r = (False, r')"
    using f(1) assms(4) by (simp add: fill_buffer_def Let_def r'_def)
  moreover have "reader_at 0 (ahead (lr_file r)) r'"
    using f(2,3) assms(2,3) by (auto simp: reader_at_def r'_def not_less)
  ultimately show ?thesis by (simp add: r'_def)
qed

lemma reader_len: "reader_at off rest r \<Longrightarrow> length (lr_buffer r) = min (kBlockSize - off) (length rest)"
  by (auto simp: reader_at_def split: if_splits)

lemma reader_short: "reader_at off rest r \<Longrightarrow> length rest < kBlockSize - off \<Longrightarrow> lr_eof r"
  by (auto simp: reader_at_def split: if_splits)

lemma reader_eof: "reader_at off rest r \<Longrightarrow> lr_eof r \<Longrightarrow> lr_buffer r = rest"
  by (simp add: reader_at_def)

lemma reader_ahead: "reader_at off rest r \<Longrightarrow> \<not> lr_eof r \<Longrightarrow>
    ahead (lr_file r) = drop (kBlockSize - off) rest \<and> length (lr_buffer r) = kBlockSize - off"
  by (auto simp: reader_at_def)

lemma reader_good: "reader_at off rest r \<Longrightarrow> good (lr_file r) \<and> \<not> lr_resyncing r"
  by (simp add: reader_at_def)

text \<open>\<open>ReadPhysicalRecord\<close> skips the padding; then it finds the end of the file or parses.\<close>

lemma read_physical_cases:
  assumes "reader_at off rest r" "lc_file cfg = ops"
  defines "rest' \<equiv> drop (length (padding off)) rest"
  shows "if length rest' < kHeaderSize
     then \<exists>r'. read_physical_record cfg r = (kEof, None, r') \<and> lr_reports r' = lr_reports r \<and>
            \<not> lr_resyncing r'
     else \<exists>r'. read_physical_record cfg r = parse_physical_record cfg r' \<and>
            reader_at (header_offset off) rest' r' \<and> lr_reports r' = lr_reports r"
proof (cases "kBlockSize - off < kHeaderSize")
  case False
  then have off: "padding off = []" "header_offset off = off" by (simp_all add: padding_def header_offset_def)
  show ?thesis
  proof (cases "length rest < kHeaderSize")
    case True
    with reader_len [OF assms(1)] reader_short [OF assms(1)] False
    have "length (lr_buffer r) < kHeaderSize" "lr_eof r" by auto
    with True reader_good [OF assms(1)] show ?thesis
      by (subst read_physical_record.simps) (simp add: rest'_def off)
  next
    case big: False
    with reader_len [OF assms(1)] False have "\<not> length (lr_buffer r) < kHeaderSize" by simp
    with big assms(1) show ?thesis
      by (subst read_physical_record.simps) (simp add: rest'_def off, blast)
  qed
next
  case True
  then have off: "length (padding off) = kBlockSize - off" "header_offset off = 0"
    by (simp_all add: padding_def header_offset_def)
  from reader_len [OF assms(1)] True have small: "length (lr_buffer r) < kHeaderSize" by simp
  show ?thesis
  proof (cases "lr_eof r")
    case eof: True
    from reader_eof [OF assms(1) eof] reader_len [OF assms(1)] have "rest' = []"
      by (simp add: rest'_def off)
    with eof small reader_good [OF assms(1)] show ?thesis
      by (subst read_physical_record.simps) (simp add: kHeaderSize_def)
  next
    case not_eof: False
    from reader_ahead [OF assms(1) not_eof] have "rest' = ahead (lr_file r)" by (simp add: rest'_def off)
    with fill_ok [of r cfg] reader_good [OF assms(1)] assms(2) not_eof
    obtain r' where r': "fill_buffer cfg r = (False, r')"
      "reader_at 0 rest' r'" "lr_reports r' = lr_reports r" by auto
    have step: "read_physical_record cfg r = read_physical_record cfg r'"
      using small not_eof r'(1) by (subst read_physical_record.simps) simp
    show ?thesis
    proof (cases "length rest' < kHeaderSize")
      case short: True
      with reader_len [OF r'(2)] reader_short [OF r'(2)]
      have "length (lr_buffer r') < kHeaderSize" "lr_eof r'" by (auto simp: block_defs)
      then have "read_physical_record cfg r' = (kEof, None, r'\<lparr>lr_buffer := []\<rparr>)"
        by (subst read_physical_record.simps) simp
      with short step r'(3) reader_good [OF r'(2)] show ?thesis by simp
    next
      case long: False
      with reader_len [OF r'(2)] have "\<not> length (lr_buffer r') < kHeaderSize" by (simp add: block_defs)
      then have "read_physical_record cfg r' = parse_physical_record cfg r'"
        by (subst read_physical_record.simps) simp
      with long step r'(2,3) off show ?thesis by auto
    qed
  qed
qed

text \<open>The reader meets a fragment, whole or cut off.\<close>

definition plain_config :: "'f log_reader_config \<Rightarrow> bool" where
  "plain_config cfg \<longleftrightarrow> lc_file cfg = ops \<and> lc_crc cfg = crc32c \<and> lc_initial_offset cfg = 0"

lemma read_fragment:
  assumes "reader_at off (take m (frag_bytes off b d @ suf)) r" "plain_config cfg"
  defines "k \<equiv> frag_len off d"
  shows "\<exists>r'. lr_reports r' = lr_reports r \<and> \<not> lr_resyncing r' \<and>
     (if length (frag_bytes off b d) \<le> m
      then read_physical_record cfg r = (fragment_type b (length d = k), Some (take k d), r') \<and>
           reader_at (frag_end off d) (take (m - length (frag_bytes off b d)) suf) r'
      else read_physical_record cfg r = (kEof, None, r'))"
proof -
  let ?p = "length (padding off)" and ?t = "fragment_type b (length d = k)"
  define rest' where "rest' = take (m - ?p) (physical ?t (take k d) @ suf)"
  have rest': "drop ?p (take m (frag_bytes off b d @ suf)) = rest'"
    unfolding rest'_def frag_bytes_def k_def drop_take append_assoc by simp
  have kd: "length (take k d) = k" using frag_len_le [of off d] by (simp add: k_def)
  have fb: "length (frag_bytes off b d) = ?p + kHeaderSize + k"
    using kd by (simp add: frag_bytes_def k_def)
  have kB: "header_offset off + kHeaderSize + k \<le> kBlockSize" "k \<le> 65535"
    using frag_end_le [of off d] by (simp_all add: frag_end_def k_def kBlockSize_def)
  have cfg: "lc_file cfg = ops" "lc_crc cfg = crc32c" "lc_initial_offset cfg = 0"
    using assms(2) by (simp_all add: plain_config_def)
  from read_physical_cases [OF assms(1) cfg(1)] show ?thesis unfolding rest'
  proof (cases "length rest' < kHeaderSize")
    case True
    then have "\<not> length (frag_bytes off b d) \<le> m"
      by (auto simp: fb rest'_def kd kHeaderSize_def)
    moreover assume "if length rest' < kHeaderSize then \<exists>r'. read_physical_record cfg r = (kEof, None, r') \<and>
        lr_reports r' = lr_reports r \<and> \<not> lr_resyncing r'
      else \<exists>r'. read_physical_record cfg r = parse_physical_record cfg r' \<and>
        reader_at (header_offset off) rest' r' \<and> lr_reports r' = lr_reports r"
    ultimately show ?thesis using True by auto
  next
    case False
    assume "if length rest' < kHeaderSize then \<exists>r'. read_physical_record cfg r = (kEof, None, r') \<and>
        lr_reports r' = lr_reports r \<and> \<not> lr_resyncing r'
      else \<exists>r'. read_physical_record cfg r = parse_physical_record cfg r' \<and>
        reader_at (header_offset off) rest' r' \<and> lr_reports r' = lr_reports r"
    with False obtain r1 where r1: "read_physical_record cfg r = parse_physical_record cfg r1"
      "reader_at (header_offset off) rest' r1" "lr_reports r1 = lr_reports r" by auto
    define m' where "m' = min (kBlockSize - header_offset off) (m - ?p)"
    have "lr_buffer r1 = take (kBlockSize - header_offset off) rest'"
        using r1(2) by (auto simp: reader_at_def split: if_splits)
    then have buf: "lr_buffer r1 = take m' (physical ?t (take k d) @ suf)"
      by (simp only: rest'_def m'_def take_take)
    have hm: "kHeaderSize \<le> m - ?p" using False by (auto simp: rest'_def)
    then have hm': "kHeaderSize \<le> m'" using kB by (simp add: m'_def)
    note parse = parse_physical [OF buf hm' _ fragment_type_range(2) fragment_type_wide cfg(2,3)]
    show ?thesis
    proof (cases "length (frag_bytes off b d) \<le> m")
      case whole: True
      then have "\<not> m' < kHeaderSize + length (take k d)"
        using kB by (simp add: kd fb m'_def)
      with parse kB kd have p: "parse_physical_record cfg r1 =
          (?t, Some (take k d), r1\<lparr>lr_buffer := drop (kHeaderSize + k) (lr_buffer r1)\<rparr>)"
        by simp
      have lb: "kHeaderSize + k \<le> length (lr_buffer r1)"
        using whole kB frag_len_le [of off d] by (simp add: buf fb m'_def k_def del: take_append)
          (intro conjI; linarith)
      have "take (m - length (frag_bytes off b d)) suf = drop (kHeaderSize + k) rest'"
      proof -
        have "kHeaderSize + k = length (physical ?t (take k d))" by (simp only: length_physical kd)
        then have "drop (kHeaderSize + k) (physical ?t (take k d) @ suf) = suf" by simp
        then show ?thesis unfolding rest'_def drop_take fb by (simp add: add.assoc)
      qed
      then have "reader_at (frag_end off d) (take (m - length (frag_bytes off b d)) suf)
          (r1\<lparr>lr_buffer := drop (kHeaderSize + k) (lr_buffer r1)\<rparr>)"
        using r1(2) lb frag_end_le [of off d]
        by (auto simp: reader_at_def frag_end_def k_def [symmetric])
      with p r1 whole show ?thesis by (auto simp: reader_at_def)
    next
      case cut: False
      with hm have "m - ?p < kHeaderSize + k" unfolding fb kHeaderSize_def by linarith
      then have short: "m' < kHeaderSize + length (take k d)"
        unfolding kd m'_def by linarith
      have "lr_eof r1"
      proof (rule ccontr)
        assume "\<not> lr_eof r1"
        with r1(2) have "length (lr_buffer r1) = kBlockSize - header_offset off" by (simp add: reader_at_def)
        with short kB show False by (simp add: buf kd m'_def)
      qed
      with parse short kB kd have "parse_physical_record cfg r1 = (kEof, None, r1\<lparr>lr_buffer := []\<rparr>)"
        by simp
      with r1 cut show ?thesis by (auto simp: reader_at_def)
    qed
  qed
qed

end

end
