(* ===== verification/LdLogScan.thy ===== *)
theory LdLogScan
  imports LdLogRead
begin

text \<open>\<open>ReadRecord\<close> over a log, record by record.\<close>

text \<open>One \<open>AddRecord\<close> after the other, until one fails.\<close>

primrec add_records ::
    "checksum \<Rightarrow> 'f writable_file \<Rightarrow> 'f log_writer \<Rightarrow> slice list \<Rightarrow> (status \<times> 'f log_writer) option" where
  "add_records crc file w [] = Some (StatusOK, w)"
| "add_records crc file w (d # ds) =
     (case add_record crc file w d of
        None \<Rightarrow> None
      | Some (s, w') \<Rightarrow> if status_ok s then add_records crc file w' ds else Some (s, w'))"

text \<open>Up to \<open>n\<close> calls of \<open>ReadRecord\<close>, until one returns \<open>false\<close>.\<close>

primrec read_records ::
    "'f log_reader_config \<Rightarrow> nat \<Rightarrow> 'f log_reader \<Rightarrow> (slice list \<times> 'f log_reader) option" where
  "read_records cfg 0 r = Some ([], r)"
| "read_records cfg (Suc n) r =
     (case read_record cfg r of
        None \<Rightarrow> None
      | Some (None, r') \<Rightarrow> Some ([], r')
      | Some (Some d, r') \<Rightarrow> map_option (\<lambda>(ds, r''). (d # ds, r'')) (read_records cfg n r'))"

text \<open>How many records are whole in the first \<open>m\<close> bytes.\<close>

primrec whole_records :: "nat \<Rightarrow> nat \<Rightarrow> slice list \<Rightarrow> nat" where
  "whole_records off m [] = 0"
| "whole_records off m (d # ds) =
     (let (b, off') = record_bytes off True d in
      if length b \<le> m then Suc (whole_records off' (m - length b) ds) else 0)"

lemma whole_records_iff:
  "j \<le> length ds \<Longrightarrow> j \<le> whole_records off m ds \<longleftrightarrow> length (fst (log_bytes off (take j ds))) \<le> m"
proof (induction ds arbitrary: off m j)
  case (Cons d ds)
  obtain b off' where rb: "record_bytes off True d = (b, off')" by fastforce
  show ?case
  proof (cases j)
    case (Suc i)
    with Cons.prems have "i \<le> length ds" by simp
    from Cons.IH [OF this, of off' "m - length b"] show ?thesis
      using rb Suc by (auto simp: case_prod_unfold Let_def)
  qed simp
qed simp

lemma whole_records_le: "whole_records off m ds \<le> length ds"
  by (induction ds arbitrary: off m) (auto simp: case_prod_unfold Let_def)

lemma record_type_distinct [simp]:
  "kFirstType \<noteq> kFullType" "kMiddleType \<noteq> kFullType" "kLastType \<noteq> kFullType"
  "kMiddleType \<noteq> kFirstType" "kLastType \<noteq> kFirstType" "kLastType \<noteq> kMiddleType"
  "kEof \<noteq> kFullType" "kEof \<noteq> kFirstType" "kEof \<noteq> kMiddleType" "kEof \<noteq> kLastType"
  by (simp_all add: record_type_defs)

context file_with_room
begin

lemma add_records_ok:
  assumes "writer_ok w" "room (lw_dest w) (length (fst (log_bytes (lw_block_offset w) ds)) + n)"
  shows "\<exists>w'. add_records crc32c ops w ds = Some (StatusOK, w') \<and>
     written (lw_dest w') = written (lw_dest w) @ fst (log_bytes (lw_block_offset w) ds) \<and>
     room (lw_dest w') n \<and> writer_ok w'"
  using assms
proof (induction ds arbitrary: w)
  case (Cons d ds)
  obtain b off' where rb: "record_bytes (lw_block_offset w) True d = (b, off')" by fastforce
  with Cons.prems(2) have "room (lw_dest w) (length (fst (record_bytes (lw_block_offset w) True d)) +
      (length (fst (log_bytes off' ds)) + n))"
    by (simp add: case_prod_unfold Let_def add.assoc)
  from add_record_ok [OF Cons.prems(1) this] rb obtain w1 where w1:
    "add_record crc32c ops w d = Some (StatusOK, w1)"
    "written (lw_dest w1) = written (lw_dest w) @ b" "lw_block_offset w1 = off'"
    "room (lw_dest w1) (length (fst (log_bytes off' ds)) + n)" "writer_ok w1" by auto
  from Cons.IH [of w1] w1 show ?case by (auto simp: rb case_prod_unfold Let_def)
qed simp

end

context readable_file
begin

lemma reader_at_update [simp]:
  "reader_at off rest (r\<lparr>lr_last_record_offset := x\<rparr>) \<longleftrightarrow> reader_at off rest r"
  by (simp add: reader_at_def)

lemma reader_resync: "\<not> lr_resyncing r \<Longrightarrow> r\<lparr>lr_resyncing := False\<rparr> = r"
  by simp

lemma scan_fragment:
  assumes "reader_at off (take m (frag_bytes off b d @ suf)) r" "plain_config cfg"
    "ls_in_fragmented v \<longleftrightarrow> \<not> b"
  defines "k \<equiv> frag_len off d" and "s0 \<equiv> (if b then [] else ls_scratch v)"
  shows "\<exists>v' r'. lr_reports r' = lr_reports r \<and>
     (if length (frag_bytes off b d) \<le> m then
        reader_at (frag_end off d) (take (m - length (frag_bytes off b d)) suf) r' \<and>
        (if length d = k then scan_step cfg v r = ScanReturn (s0 @ take k d) v' r'
         else scan_step cfg v r = ScanNext v' r' \<and> ls_in_fragmented v' \<and>
           ls_scratch v' = s0 @ take k d)
      else scan_step cfg v r = ScanStop v' r')"
proof -
  from read_fragment [OF assms(1,2)] obtain r1 where r1: "lr_reports r1 = lr_reports r"
    "\<not> lr_resyncing r1"
    "if length (frag_bytes off b d) \<le> m
     then read_physical_record cfg r = (fragment_type b (length d = k), Some (take k d), r1) \<and>
       reader_at (frag_end off d) (take (m - length (frag_bytes off b d)) suf) r1
     else read_physical_record cfg r = (kEof, None, r1)"
    unfolding k_def by blast
  show ?thesis
  proof (cases "length (frag_bytes off b d) \<le> m")
    case False
    with r1 show ?thesis by (simp add: scan_step_def Let_def reader_resync)
  next
    case True
    then have rd: "read_physical_record cfg r = (fragment_type b (length d = k), Some (take k d), r1)"
      "reader_at (frag_end off d) (take (m - length (frag_bytes off b d)) suf) r1"
      using r1(3) by simp_all
    show ?thesis
      using True rd r1(1,2) assms(3)
      by (cases b; cases "length d = k")
        (simp_all add: scan_step_def Let_def reader_resync start_record_def s0_def fragment_type_def)
  qed
qed

lemma scan_record:
  assumes "reader_at off (take m (fst (record_bytes off b d) @ suf)) r" "plain_config cfg"
    "ls_in_fragmented v \<longleftrightarrow> \<not> b"
  shows "\<exists>r'. lr_reports r' = lr_reports r \<and>
     (if length (fst (record_bytes off b d)) \<le> m then
        scan_loop cfg v r = Some (Some ((if b then [] else ls_scratch v) @ d), r') \<and>
        reader_at (snd (record_bytes off b d)) (take (m - length (fst (record_bytes off b d))) suf) r'
      else scan_loop cfg v r = Some (None, r'))"
  using assms
proof (induction off b d arbitrary: m r v rule: record_bytes.induct)
  case (1 off b d)
  let ?k = "frag_len off d" and ?fb = "frag_bytes off b d"
  show ?case
  proof (cases "?k < length d")
    case False
    then have rb: "record_bytes off b d = (?fb, frag_end off d)" by (rule record_bytes_last)
    have k: "length d = ?k" "take ?k d = d" using False frag_len_le [of off d] by simp_all
    from "1.prems"(1) rb have at: "reader_at off (take m (?fb @ suf)) r" by simp
    from scan_fragment [OF at "1.prems"(2,3)] k
    have "\<exists>v' r'. lr_reports r' = lr_reports r \<and>
      (if length ?fb \<le> m then reader_at (frag_end off d) (take (m - length ?fb) suf) r' \<and>
         scan_step cfg v r = ScanReturn ((if b then [] else ls_scratch v) @ d) v' r'
       else scan_step cfg v r = ScanStop v' r')"
      by (simp cong: if_cong)
    then obtain v' r' where "lr_reports r' = lr_reports r"
      "if length ?fb \<le> m then reader_at (frag_end off d) (take (m - length ?fb) suf) r' \<and>
         scan_step cfg v r = ScanReturn ((if b then [] else ls_scratch v) @ d) v' r'
       else scan_step cfg v r = ScanStop v' r'" by blast
    then show ?thesis
      by (intro exI [of _ r']) (subst (1 2) scan_loop.simps, auto simp: rb)
  next
    case True
    define tl_bytes where "tl_bytes = record_bytes (frag_end off d) False (drop ?k d)"
    have rb: "record_bytes off b d = (?fb @ fst tl_bytes, snd tl_bytes)"
      unfolding tl_bytes_def using True by (rule record_bytes_more)
    from "1.prems"(1) rb have at: "reader_at off (take m (?fb @ fst tl_bytes @ suf)) r" by simp
    from scan_fragment [OF at "1.prems"(2,3)] True
    have "\<exists>v' r'. lr_reports r' = lr_reports r \<and>
      (if length ?fb \<le> m then
         reader_at (frag_end off d) (take (m - length ?fb) (fst tl_bytes @ suf)) r' \<and>
         scan_step cfg v r = ScanNext v' r' \<and> ls_in_fragmented v' \<and>
         ls_scratch v' = (if b then [] else ls_scratch v) @ take ?k d
       else scan_step cfg v r = ScanStop v' r')"
      by (simp cong: if_cong)
    then obtain v' r' where step: "lr_reports r' = lr_reports r"
      "if length ?fb \<le> m then
         reader_at (frag_end off d) (take (m - length ?fb) (fst tl_bytes @ suf)) r' \<and>
         scan_step cfg v r = ScanNext v' r' \<and> ls_in_fragmented v' \<and>
         ls_scratch v' = (if b then [] else ls_scratch v) @ take ?k d
       else scan_step cfg v r = ScanStop v' r'" by blast
    show ?thesis
    proof (cases "length ?fb \<le> m")
      case False
      with step show ?thesis
        by (intro exI [of _ r']) (subst (1 2) scan_loop.simps, auto simp: rb)
    next
      case whole: True
      with step have s: "reader_at (frag_end off d) (take (m - length ?fb) (fst tl_bytes @ suf)) r'"
        "scan_step cfg v r = ScanNext v' r'" "ls_in_fragmented v' \<longleftrightarrow> \<not> False"
        "ls_scratch v' = (if b then [] else ls_scratch v) @ take ?k d" by simp_all
      have loop: "scan_loop cfg v r = scan_loop cfg v' r'"
        using s(2) by (subst scan_loop.simps) simp
      from "1.IH" [OF True s(1) [unfolded tl_bytes_def] "1.prems"(2) s(3)]
      have "\<exists>r''. lr_reports r'' = lr_reports r' \<and>
        (if length (fst tl_bytes) \<le> m - length ?fb then
           scan_loop cfg v' r' = Some (Some (ls_scratch v' @ drop ?k d), r'') \<and>
           reader_at (snd tl_bytes) (take (m - length ?fb - length (fst tl_bytes)) suf) r''
         else scan_loop cfg v' r' = Some (None, r''))"
        by (simp add: tl_bytes_def [symmetric] cong: if_cong)
      moreover have "ls_scratch v' @ drop ?k d = (if b then [] else ls_scratch v) @ d"
        by (simp add: s(4))
      moreover have "length (fst tl_bytes) \<le> m - length ?fb \<longleftrightarrow> length (?fb @ fst tl_bytes) \<le> m"
        "m - length ?fb - length (fst tl_bytes) = m - length (?fb @ fst tl_bytes)"
        using whole by auto
      ultimately show ?thesis
        unfolding rb fst_conv snd_conv loop step(1) by (simp only:)
    qed
  qed
qed

lemma read_record_plain:
  "plain_config cfg \<Longrightarrow> read_record cfg r =
     scan_loop cfg \<lparr>ls_scratch = [], ls_fragment = [], ls_in_fragmented = False, ls_prospective = 0\<rparr> r"
  by (simp add: read_record_def plain_config_def)

lemma read_records_ok:
  assumes "reader_at off (take m (fst (log_bytes off ds))) r" "plain_config cfg"
  shows "\<exists>r'. read_records cfg (Suc (length ds)) r = Some (take (whole_records off m ds) ds, r') \<and>
     lr_reports r' = lr_reports r"
  using assms(1)
proof (induction ds arbitrary: off m r)
  case Nil
  then have at: "reader_at off [] r" by simp
  from read_physical_cases [OF at] assms(2) obtain r' where r':
    "read_physical_record cfg r = (kEof, None, r')" "lr_reports r' = lr_reports r" "\<not> lr_resyncing r'"
    by (auto simp: plain_config_def kHeaderSize_def)
  then show ?case using assms(2)
    by (simp add: read_record_plain, subst (1) scan_loop.simps)
      (simp add: scan_step_def Let_def reader_resync)
next
  case (Cons d ds)
  obtain b off' where rb: "record_bytes off True d = (b, off')" by fastforce
  with Cons.prems have at: "reader_at off (take m (fst (record_bytes off True d) @ fst (log_bytes off' ds))) r"
    by (simp add: case_prod_unfold Let_def)
  let ?v = "\<lparr>ls_scratch = [], ls_fragment = [], ls_in_fragmented = False, ls_prospective = 0\<rparr>"
  from scan_record [OF at assms(2), of ?v] rb have "\<exists>r1. lr_reports r1 = lr_reports r \<and>
    (if length b \<le> m then read_record cfg r = Some (Some d, r1) \<and>
       reader_at off' (take (m - length b) (fst (log_bytes off' ds))) r1
     else read_record cfg r = Some (None, r1))"
    by (simp add: read_record_plain [OF assms(2)] cong: if_cong)
  then obtain r1 where r1: "lr_reports r1 = lr_reports r"
    "if length b \<le> m then read_record cfg r = Some (Some d, r1) \<and>
       reader_at off' (take (m - length b) (fst (log_bytes off' ds))) r1
     else read_record cfg r = Some (None, r1)" by blast
  show ?case
  proof (cases "length b \<le> m")
    case True
    with r1 have "read_record cfg r = Some (Some d, r1)"
      "reader_at off' (take (m - length b) (fst (log_bytes off' ds))) r1" by simp_all
    with Cons.IH [OF this(2)] r1(1) True show ?thesis by (auto simp: rb)
  next
    case False
    with r1 show ?thesis by (simp add: rb)
  qed
qed

lemma fresh_reader:
  assumes "good f" "plain_config cfg"
  shows "reader_at kBlockSize (ahead f) (log_reader cfg f)"
  using assms by (simp add: reader_at_def log_reader_def plain_config_def)

end

text \<open>Starting a block and having filled the one before it are the same.\<close>

lemma block_start: "record_bytes kBlockSize b d = record_bytes 0 b d"
proof -
  have "frag_len kBlockSize d = frag_len 0 d" "frag_end kBlockSize d = frag_end 0 d"
    "frag_bytes kBlockSize b d = frag_bytes 0 b d"
    by (simp_all add: frag_len_def frag_end_def frag_bytes_def block_defs)
  then show ?thesis by (subst (1 2) record_bytes.simps) (simp only:)
qed

lemma log_start: "ds \<noteq> [] \<Longrightarrow> log_bytes kBlockSize ds = log_bytes 0 ds"
  by (cases ds) (simp_all add: block_start)

lemma whole_start: "whole_records kBlockSize m ds = whole_records 0 m ds"
  by (cases ds) (simp_all add: block_start)

end
