(* ===== verification/LdLogSafe.thy ===== *)
theory LdLogSafe
  imports LdLogScan
begin

text \<open>
  What the log reader accepts, whatever the file holds: it always returns, and with checksums on a
  record it returns is made of physical records of the file, each one intact.
\<close>

definition data_types :: "u32 set" where
  "data_types = {kFullType, kFirstType, kMiddleType, kLastType}"

subsection \<open>A physical record that is accepted\<close>

lemma encode_word_of_bytes:
  assumes "length bs = 4"
  shows "encode_fixed32 (word_of_bytes bs) = bs"
proof -
  obtain b0 b1 b2 b3 where bs: "bs = [b0, b1, b2, b3]"
    using assms by (auto simp: length_Suc_conv eval_nat_numeral)
  have "n < 8 \<Longrightarrow> \<not> bit b (8 + n) \<and> \<not> bit b (16 + n) \<and> \<not> bit b (24 + n)" for n and b :: u8
    by (auto dest: bit_imp_le_length)
  then show ?thesis
    unfolding encode_fixed32_eq bs by (auto intro!: bit_word_eqI simp: bit_simps)
qed

lemma data_type_byte: "scast (b :: u8) = t \<Longrightarrow> (ucast (t :: u32) :: u8) = b"
  by (auto intro!: bit_word_eqI simp: bit_simps)

lemma buffer_header:
  assumes "kHeaderSize \<le> length h"
  shows "h = take 4 h @ [h ! 4, h ! 5, h ! 6] @ drop 7 h" "length (take 4 h) = 4"
proof -
  have "7 \<le> length h" using assms by (simp add: kHeaderSize_def)
  moreover from this have "drop 4 h = h ! 4 # h ! 5 # h ! 6 # drop 7 h"
    by (simp add: Cons_nth_drop_Suc [symmetric] eval_nat_numeral)
  ultimately show "h = take 4 h @ [h ! 4, h ! 5, h ! 6] @ drop 7 h" "length (take 4 h) = 4"
    using append_take_drop_id [of 4 h] by simp_all
qed

lemma header_number:
  fixes b4 b5 :: u8
  defines "n \<equiv> unat b4 + 256 * unat b5"
  shows "b4 = of_nat (n mod 256)" "b5 = of_nat (n div 256)" "n \<le> 65535"
    "(ucast b4 AND 0xff) OR push_bit 8 (ucast b5 AND 0xff) = (of_nat n :: u32)"
    "unat (of_nat n :: u32) = n"
proof -
  have "unat b4 < 256" "unat b5 < 256" by simp_all
  then have "n mod 256 = unat b4" "n div 256 = unat b5" "n \<le> 65535"
    unfolding n_def by (simp, simp, linarith)
  then show b: "b4 = of_nat (n mod 256)" "b5 = of_nat (n div 256)" "n \<le> 65535" by simp_all
  show "(ucast b4 AND 0xff) OR push_bit 8 (ucast b5 AND 0xff) = (of_nat n :: u32)"
    unfolding b(1,2) by (rule header_length [OF b(3)])
  show "unat (of_nat n :: u32) = n" using b(3) by (intro unat_of_nat_u32) simp
qed

lemma parse_accepts:
  assumes "parse_physical_record cfg r = (t, x, r')" "kHeaderSize \<le> length (lr_buffer r)"
    "lc_checksum cfg" "lc_crc cfg = crc32c" "t \<in> data_types"
  shows "\<exists>d. x = Some d \<and> lr_buffer r = physical t d @ lr_buffer r' \<and> lr_file r' = lr_file r"
proof -
  define h where "h = lr_buffer r"
  define n where "n = unat (h ! 4) + 256 * unat (h ! 5)"
  note hdr = buffer_header [OF assms(2), folded h_def]
  note num = header_number [where ?b4.0 = "h ! 4" and ?b5.0 = "h ! 5", folded n_def]
  define d where "d = take n (drop 7 h)"
  have t: "t \<noteq> kEof" "t \<noteq> kBadRecord" using assms(5) by (auto simp: data_types_def record_type_defs)
  have acc: "kHeaderSize + n \<le> length h" "scast (h ! 6) = t"
    "crc32c 0 (take (1 + n) (drop 6 h)) = crc_unmask (word_of_bytes (take 4 h))"
    "x = Some (take n (drop kHeaderSize h))"
    "lr_buffer r' = drop (kHeaderSize + n) h" "lr_file r' = lr_file r"
    using assms(1,3,4) t unfolding parse_physical_record_def Let_def h_def [symmetric] num(4,5)
    by (auto split: if_splits)
  have len: "length d = n" using acc(1) by (simp add: d_def kHeaderSize_def)
  have "drop 6 h = h ! 6 # drop 7 h"
    using acc(1) Cons_nth_drop_Suc [of 6 h] by (simp add: kHeaderSize_def)
  then have "take (1 + n) (drop 6 h) = ucast t # d"
    using data_type_byte [OF acc(2)] by (simp add: d_def)
  with acc(3) have "encode_fixed32 (crc_mask (crc32c 0 (ucast t # d))) = take 4 h"
    by (simp only: mask_unmask encode_word_of_bytes [OF hdr(2)])
  then have "physical t d = take 4 h @ [h ! 4, h ! 5, h ! 6] @ d"
    by (simp only: physical_def len num(1,2) [symmetric] data_type_byte [OF acc(2)])
  moreover have "drop 7 h = d @ lr_buffer r'"
    by (simp add: acc(5) d_def kHeaderSize_def add.commute flip: drop_drop)
  ultimately have "h = physical t d @ lr_buffer r'" using hdr(1) by simp
  with acc(4,6) show ?thesis by (auto simp: h_def d_def kHeaderSize_def)
qed

text \<open>Whatever it is, it is a part of the buffer.\<close>

lemma parse_consumes:
  assumes "parse_physical_record cfg r = (t, x, r')" "kHeaderSize \<le> length (lr_buffer r)"
  shows "lr_file r' = lr_file r \<and> (\<exists>p. lr_buffer r = p @ lr_buffer r' \<and> (t \<noteq> kEof \<longrightarrow> p \<noteq> []))"
proof -
  have "lr_file r' = lr_file r \<and> (lr_buffer r' = [] \<or> (\<exists>n. lr_buffer r' = drop (7 + n) (lr_buffer r)))"
    using assms(1) unfolding parse_physical_record_def Let_def kHeaderSize_def
    by (auto simp: report_corruption_def simp del: drop_eq_Nil split: if_splits)
  then obtain n where n: "lr_file r' = lr_file r" "0 < n" "lr_buffer r' = drop n (lr_buffer r)"
    using assms(2) by (metis add_gr_0 drop_all le_refl less_le_trans zero_less_numeral kHeaderSize_def)
  have "lr_buffer r = take n (lr_buffer r) @ lr_buffer r'" "take n (lr_buffer r) \<noteq> []"
    using assms(2) n by (auto simp: kHeaderSize_def)
  with n(1) show ?thesis by blast
qed

subsection \<open>The reader on a file\<close>

definition unread :: "posix_in log_reader \<Rightarrow> u8 list" where
  "unread r = lr_buffer r @ pi_ahead (lr_file r)"

lemma fill_consumes:
  assumes "fill_buffer cfg r = (e, r')" "lc_file cfg = posix_sequential_file"
  shows "\<exists>p. unread r = p @ unread r'"
proof -
  have "unread r' = pi_ahead (lr_file r) \<or> unread r' = drop kBlockSize (pi_ahead (lr_file r))"
    using assms by (auto simp: fill_buffer_def posix_sequential_file_def posix_read_def unread_def Let_def
      split: if_splits)
  then show ?thesis
    by (metis append_assoc append_take_drop_id unread_def)
qed

lemma read_physical_consumes:
  assumes "read_physical_record cfg r = (t, x, r')" "lc_file cfg = posix_sequential_file"
  shows "\<exists>p. unread r = p @ unread r' \<and> (t \<noteq> kEof \<longrightarrow> p \<noteq> []) \<and>
     (lc_checksum cfg \<longrightarrow> lc_crc cfg = crc32c \<longrightarrow> t \<in> data_types \<longrightarrow>
       (\<exists>d pre. x = Some d \<and> p = pre @ physical t d))"
  using assms
proof (induction cfg r rule: read_physical_record.induct)
  case (1 cfg r)
  show ?case
  proof (cases "length (lr_buffer r) < kHeaderSize")
    case False
    then have "parse_physical_record cfg r = (t, x, r')" "kHeaderSize \<le> length (lr_buffer r)"
      using "1.prems" by (simp_all add: read_physical_record.simps [of cfg r])
    from parse_consumes [OF this] parse_accepts [OF this] show ?thesis
      by (auto simp: unread_def)
  next
    case True
    note short = True
    show ?thesis
    proof (cases "lr_eof r")
      case True
      then have "t = kEof" "r' = r\<lparr>lr_buffer := []\<rparr>"
        using short "1.prems" by (simp_all add: read_physical_record.simps [of cfg r])
      then show ?thesis by (auto simp: unread_def data_types_def record_type_defs)
    next
      case False
      obtain e r1 where f: "fill_buffer cfg r = (e, r1)" by fastforce
      from fill_consumes [OF f] "1.prems"(2) obtain p where p: "unread r = p @ unread r1" by blast
      show ?thesis
      proof (cases e)
        case True
        then have "t = kEof" "r' = r1"
          using short False f "1.prems" by (simp_all add: read_physical_record.simps [of cfg r])
        with p show ?thesis by (auto simp: data_types_def record_type_defs)
      next
        case e: False
        then have "read_physical_record cfg r1 = (t, x, r')"
          using short False f "1.prems" by (simp add: read_physical_record.simps [of cfg r])
        from "1.IH" [OF short False f [symmetric] e this "1.prems"(2)] obtain q where
          q: "unread r1 = q @ unread r'" "t \<noteq> kEof \<longrightarrow> q \<noteq> []"
          "lc_checksum cfg \<longrightarrow> lc_crc cfg = crc32c \<longrightarrow> t \<in> data_types \<longrightarrow>
             (\<exists>d pre. x = Some d \<and> q = pre @ physical t d)" by blast
        show ?thesis
          using p q by (intro exI [of _ "p @ q"]) (auto intro: exI [of _ "p @ pre" for pre])
      qed
    qed
  qed
qed

text \<open>Physical records that are in \<open>bs\<close> one after the other, with \<open>rest\<close> behind the last.  What is
  between them was skipped.\<close>

primrec found_in :: "(u32 \<times> u8 list) list \<Rightarrow> u8 list \<Rightarrow> u8 list \<Rightarrow> bool" where
  "found_in [] bs rest \<longleftrightarrow> (\<exists>p. bs = p @ rest)"
| "found_in (f # fs) bs rest \<longleftrightarrow> (\<exists>p bs'. bs = p @ physical (fst f) (snd f) @ bs' \<and> found_in fs bs' rest)"

lemma found_skip: "found_in fs bs (p @ rest) \<Longrightarrow> found_in fs bs rest"
proof (induction fs arbitrary: bs)
  case Nil
  then obtain q where "bs = q @ p @ rest" by auto
  then show ?case by (auto intro: exI [of _ "q @ p"])
qed (simp, blast)

lemma found_snoc: "found_in fs bs (p @ physical t d @ rest) \<Longrightarrow> found_in (fs @ [(t, d)]) bs rest"
proof (induction fs arbitrary: bs)
  case Nil
  then obtain q where "bs = q @ p @ physical t d @ rest" by auto
  then show ?case by (auto intro: exI [of _ "q @ p"])
qed (simp, blast)

text \<open>The fragments of a record.\<close>

definition record_of :: "(u32 \<times> u8 list) list \<Rightarrow> bool" where
  "record_of fs \<longleftrightarrow> (\<exists>d. fs = [(kFullType, d)]) \<or>
     (\<exists>a ms z. fs = (kFirstType, a) # map (Pair kMiddleType) ms @ [(kLastType, z)])"

text \<open>What the scan has assembled so far.\<close>

definition assembled :: "u8 list \<Rightarrow> log_scan \<Rightarrow> posix_in log_reader \<Rightarrow> bool" where
  "assembled bs v r \<longleftrightarrow> found_in [] bs (unread r) \<and>
     (ls_in_fragmented v \<longrightarrow> (\<exists>a ms. ls_scratch v = concat (a # ms) \<and>
        found_in ((kFirstType, a) # map (Pair kMiddleType) ms) bs (unread r)))"

lemma unread_simps [simp]:
  "unread (r\<lparr>lr_resyncing := b\<rparr>) = unread r" "unread (r\<lparr>lr_last_record_offset := o1\<rparr>) = unread r"
  "unread (report_corruption cfg r n s) = unread r"
  by (simp_all add: unread_def report_corruption_def)

lemma assembled_skip:
  assumes "assembled bs v r" "unread r = p @ unread r'"
  shows "assembled bs v r'"
proof -
  from assms have "found_in fs bs (unread r) \<Longrightarrow> found_in fs bs (unread r')" for fs
    using found_skip by simp
  with assms(1) show ?thesis unfolding assembled_def by blast
qed

lemma assembled_update [simp]:
  "assembled bs v (r\<lparr>lr_resyncing := b\<rparr>) \<longleftrightarrow> assembled bs v r"
  "assembled bs v (report_corruption cfg r n s) \<longleftrightarrow> assembled bs v r"
  "assembled bs (v\<lparr>ls_fragment := f\<rparr>) r \<longleftrightarrow> assembled bs v r"
  by (simp_all add: assembled_def)

lemma start_record_unread [simp]: "unread (snd (start_record cfg s v r)) = unread r"
  by (simp add: start_record_def)

lemma scan_next_progress:
  assumes "scan_step cfg v r = ScanNext v' r'" "read_physical_record cfg r = (t, x, r1)"
  shows "t \<noteq> kEof \<and> unread r' = unread r1"
  using assms unfolding scan_step_def Let_def
  by (auto simp: record_type_defs case_prod_unfold split: if_splits)

text \<open>The step on each kind of fragment.\<close>

lemma scan_full:
  "read_physical_record cfg r = (kFullType, Some d, r1) \<Longrightarrow>
     \<exists>v' r'. scan_step cfg v r = ScanReturn d v' r' \<and> unread r' = unread r1"
  by (simp add: scan_step_def Let_def case_prod_unfold record_type_distinct [symmetric])

lemma scan_first:
  "read_physical_record cfg r = (kFirstType, Some d, r1) \<Longrightarrow>
     \<exists>v' r'. scan_step cfg v r = ScanNext v' r' \<and> unread r' = unread r1 \<and>
       ls_scratch v' = d \<and> ls_in_fragmented v'"
  by (simp add: scan_step_def Let_def case_prod_unfold record_type_distinct [symmetric])

lemma scan_middle:
  "read_physical_record cfg r = (kMiddleType, Some d, r1) \<Longrightarrow>
     \<exists>v' r'. scan_step cfg v r = ScanNext v' r' \<and> unread r' = unread r1 \<and>
       ls_in_fragmented v' = ls_in_fragmented v \<and>
       ls_scratch v' \<in> {ls_scratch v, ls_scratch v @ d} \<and>
       (ls_scratch v' = ls_scratch v @ d \<or> lr_resyncing r1 \<or> \<not> ls_in_fragmented v)"
  by (simp add: scan_step_def Let_def case_prod_unfold)

lemma scan_last:
  "read_physical_record cfg r = (kLastType, Some d, r1) \<Longrightarrow>
     (\<exists>v' r'. scan_step cfg v r = ScanNext v' r' \<and> unread r' = unread r1 \<and>
       ls_in_fragmented v' = ls_in_fragmented v \<and> ls_scratch v' = ls_scratch v) \<or>
     (\<exists>v' r'. scan_step cfg v r = ScanReturn (ls_scratch v @ d) v' r' \<and> unread r' = unread r1 \<and>
       ls_in_fragmented v)"
  by (simp add: scan_step_def Let_def case_prod_unfold)

lemma scan_other:
  "read_physical_record cfg r = (t, x, r1) \<Longrightarrow> t \<notin> data_types \<Longrightarrow>
     (\<exists>v' r'. scan_step cfg v r = ScanStop v' r') \<or>
     (\<exists>v' r'. scan_step cfg v r = ScanNext v' r' \<and> unread r' = unread r1 \<and>
       ls_scratch v' \<in> {ls_scratch v, []} \<and> \<not> ls_in_fragmented v')"
  by (cases x) (auto simp: scan_step_def Let_def data_types_def)

lemma scan_step_assembles:
  assumes "read_physical_record cfg r = (t, x, r1)" "assembled bs v r" "unread r = p @ unread r1"
    "t \<in> data_types \<Longrightarrow> \<exists>d pre. x = Some d \<and> p = pre @ physical t d"
  shows "case scan_step cfg v r of
     ScanReturn d v' r' \<Rightarrow> \<exists>fs. record_of fs \<and> d = concat (map snd fs) \<and> found_in fs bs (unread r')
   | ScanStop v' r' \<Rightarrow> True
   | ScanNext v' r' \<Rightarrow> assembled bs v' r'"
proof -
  note at1 = assembled_skip [OF assms(2,3), unfolded assembled_def]
  have found: "found_in (fs @ [(t, d)]) bs (unread r1)"
    if "x = Some d" "t \<in> data_types" "found_in fs bs (unread r)" for fs d
    using assms(3,4) that found_snoc by fastforce
  have start: "found_in [] bs (unread r)" using assms(2) by (simp add: assembled_def)
  consider "t \<notin> data_types" | d where "t = kFullType" "x = Some d" | d where "t = kFirstType" "x = Some d"
    | d where "t = kMiddleType" "x = Some d" | d where "t = kLastType" "x = Some d"
    using assms(4) by (auto simp: data_types_def)
  then show ?thesis
  proof cases
    case 1
    from scan_other [OF assms(1) this, of v] at1 show ?thesis
      by (auto simp: assembled_def simp del: found_in.simps)
  next
    case (2 d)
    with found [of d "[]"] start have "record_of [(kFullType, d)]" "found_in [(kFullType, d)] bs (unread r1)"
      by (simp_all add: record_of_def data_types_def)
    with scan_full [of cfg r d r1 v] assms(1) 2 show ?thesis
      by (auto simp del: found_in.simps intro!: exI [of _ "[(kFullType, d)]"])
  next
    case (3 d)
    with found [of d "[]"] start have f: "found_in [(kFirstType, d)] bs (unread r1)"
      by (simp add: data_types_def)
    from scan_first [of cfg r d r1 v] assms(1) 3 obtain v' r' where
      s: "scan_step cfg v r = ScanNext v' r'" "unread r' = unread r1" "ls_scratch v' = d" by blast
    have "\<exists>a ms. ls_scratch v' = concat (a # ms) \<and>
        found_in ((kFirstType, a) # map (Pair kMiddleType) ms) bs (unread r')"
      using f s(2,3) by (intro exI [of _ d] exI [of _ "[]"]) simp
    with s at1 show ?thesis by (simp add: assembled_def)
  next
    case (4 d)
    from scan_middle [of cfg r d r1 v] assms(1) 4 obtain v' r' where
      s: "scan_step cfg v r = ScanNext v' r'" "unread r' = unread r1"
      "ls_in_fragmented v' = ls_in_fragmented v"
      "ls_scratch v' = ls_scratch v \<or> ls_scratch v' = ls_scratch v @ d" by blast
    have "\<exists>a ms. ls_scratch v' = concat (a # ms) \<and>
        found_in ((kFirstType, a) # map (Pair kMiddleType) ms) bs (unread r')"
      if "ls_in_fragmented v"
    proof (cases "ls_scratch v' = ls_scratch v")
      case True
      with at1 that s(2) show ?thesis by simp
    next
      case False
      with s(4) have sc: "ls_scratch v' = ls_scratch v @ d" by blast
      from assms(2) that obtain a ms where "ls_scratch v = concat (a # ms)"
        "found_in ((kFirstType, a) # map (Pair kMiddleType) ms) bs (unread r)"
        unfolding assembled_def by blast
      with found [OF 4(2) _ this(2)] sc 4(1) s(2) show ?thesis
        by (intro exI [of _ a] exI [of _ "ms @ [d]"]) (simp add: data_types_def)
    qed
    with s at1 show ?thesis by (simp add: assembled_def)
  next
    case (5 d)
    from scan_last [of cfg r d r1 v] assms(1) 5 consider
      v' r' where "scan_step cfg v r = ScanNext v' r'" "unread r' = unread r1"
        "ls_in_fragmented v' = ls_in_fragmented v" "ls_scratch v' = ls_scratch v"
    | v' r' where "scan_step cfg v r = ScanReturn (ls_scratch v @ d) v' r'" "unread r' = unread r1"
        "ls_in_fragmented v" by blast
    then show ?thesis
    proof cases
      case 1
      with at1 show ?thesis by (simp add: assembled_def)
    next
      case (2 v' r')
      from assms(2) 2(3) obtain a ms where f: "ls_scratch v = concat (a # ms)"
        "found_in ((kFirstType, a) # map (Pair kMiddleType) ms) bs (unread r)"
        unfolding assembled_def by blast
      define fs where "fs = ((kFirstType, a) # map (Pair kMiddleType) ms) @ [(kLastType, d)]"
      have "found_in fs bs (unread r1)"
        using found [OF 5(2) _ f(2)] 5(1) by (simp add: data_types_def fs_def del: found_in.simps)
      moreover have "record_of fs" unfolding record_of_def fs_def by auto
      moreover have "ls_scratch v @ d = concat (map snd fs)" using f(1) by (simp add: fs_def comp_def)
      ultimately show ?thesis using 2 by auto
    qed
  qed
qed

text \<open>Every physical record that does not end the scan is a part of the file, so the scan ends.\<close>

lemma scan_loop_total:
  assumes "lc_file cfg = posix_sequential_file"
  shows "\<exists>d r'. scan_loop cfg v r = Some (d, r') \<and>
     (assembled bs v r \<longrightarrow> lc_checksum cfg \<longrightarrow> lc_crc cfg = crc32c \<longrightarrow>
       (\<forall>x. d = Some x \<longrightarrow>
         (\<exists>fs. record_of fs \<and> x = concat (map snd fs) \<and> found_in fs bs (unread r'))))"
proof (induction "length (unread r)" arbitrary: v r rule: less_induct)
  case less
  obtain t x r1 where rd: "read_physical_record cfg r = (t, x, r1)" by (metis prod_cases3)
  from read_physical_consumes [OF rd assms] obtain p where p: "unread r = p @ unread r1"
    "t \<noteq> kEof \<Longrightarrow> p \<noteq> []"
    "\<lbrakk>lc_checksum cfg; lc_crc cfg = crc32c; t \<in> data_types\<rbrakk> \<Longrightarrow>
       \<exists>d pre. x = Some d \<and> p = pre @ physical t d" by blast
  have step: "case scan_step cfg v r of
       ScanReturn d v' r' \<Rightarrow> \<exists>fs. record_of fs \<and> d = concat (map snd fs) \<and> found_in fs bs (unread r')
     | ScanStop v' r' \<Rightarrow> True
     | ScanNext v' r' \<Rightarrow> assembled bs v' r'"
    if "assembled bs v r" "lc_checksum cfg" "lc_crc cfg = crc32c"
    by (rule scan_step_assembles [OF rd that(1) p(1)]) (rule p(3) [OF that(2,3)])
  show ?case
  proof (cases "scan_step cfg v r")
    case (ScanReturn d v' r')
    with step show ?thesis by (subst scan_loop.simps) simp
  next
    case (ScanStop v' r')
    then show ?thesis by (subst scan_loop.simps) simp
  next
    case (ScanNext v' r')
    from scan_next_progress [OF this rd] p have "length (unread r') < length (unread r)" by simp
    from less [OF this, of v'] obtain d r'' where
      d: "scan_loop cfg v' r' = Some (d, r'')" and
      safe: "assembled bs v' r' \<longrightarrow> lc_checksum cfg \<longrightarrow> lc_crc cfg = crc32c \<longrightarrow>
        (\<forall>x. d = Some x \<longrightarrow>
          (\<exists>fs. record_of fs \<and> x = concat (map snd fs) \<and> found_in fs bs (unread r'')))" by blast
    from ScanNext d have "scan_loop cfg v r = Some (d, r'')" by (subst scan_loop.simps) simp
    with safe step ScanNext show ?thesis by simp
  qed
qed

lemma skip_unread:
  assumes "skip_to_initial_block cfg r = (ok, r')" "lc_file cfg = posix_sequential_file" "lr_buffer r = []"
  shows "\<exists>p. unread r = p @ unread r'"
proof -
  have "unread r' = unread r \<or> (\<exists>n. unread r' = drop n (unread r))"
    using assms by (auto simp: skip_to_initial_block_def posix_sequential_file_def posix_skip_def unread_def
      report_drop_def Let_def split: if_splits option.splits prod.splits)
  then show ?thesis by (metis append_Nil append_take_drop_id)
qed

lemma read_record_total:
  assumes "lc_file cfg = posix_sequential_file" "lr_last_record_offset r < lc_initial_offset cfg \<longrightarrow> lr_buffer r = []"
  shows "\<exists>d r'. read_record cfg r = Some (d, r') \<and>
     (lc_checksum cfg \<longrightarrow> lc_crc cfg = crc32c \<longrightarrow>
       (\<forall>x. d = Some x \<longrightarrow>
         (\<exists>fs. record_of fs \<and> x = concat (map snd fs) \<and> found_in fs (unread r) (unread r'))))"
proof -
  let ?v = "\<lparr>ls_scratch = [], ls_fragment = [], ls_in_fragmented = False, ls_prospective = 0\<rparr>"
  have scan: "\<exists>d r'. scan_loop cfg ?v r1 = Some (d, r') \<and>
     (lc_checksum cfg \<longrightarrow> lc_crc cfg = crc32c \<longrightarrow>
       (\<forall>x. d = Some x \<longrightarrow>
         (\<exists>fs. record_of fs \<and> x = concat (map snd fs) \<and> found_in fs (unread r) (unread r'))))"
    if "\<exists>p. unread r = p @ unread r1" for r1
    using scan_loop_total [OF assms(1), of ?v r1 "unread r"] that by (auto simp: assembled_def)
  obtain ok r1 where skip: "skip_to_initial_block cfg r = (ok, r1)" by fastforce
  show ?thesis
    using scan [of r] scan [OF skip_unread [OF skip assms(1)]] assms(2) skip
    by (cases "lr_last_record_offset r < lc_initial_offset cfg"; cases ok)
      (simp_all add: read_record_def)
qed

end
