(* ===== verification/LdBatch.thy ===== *)
theory LdBatch
  imports LdStatus LdDbFormatOk
begin

text \<open>
  \<open>WriteBatch\<close> (\<open>db/write_batch.cc\<close>, \<open>db/write_batch_internal.h\<close>): the string \<open>rep_\<close> with a
  sequence number, a count and the encoded operations.  A \<open>Handler\<close> is the record of its two
  methods on a state of type \<open>'h\<close>; \<open>MemTable::Add\<close> is an argument.  The count is a C \<open>int\<close>, whose
  overflow has no result (\<open>None\<close>).
\<close>

definition kHeader :: nat where
  "kHeader = 12"

type_synonym write_batch = "u8 list"

definition wb_clear :: write_batch where
  "wb_clear = replicate kHeader 0"

definition wb_count :: "write_batch \<Rightarrow> u32 option" where
  "wb_count rep = decode_fixed32 (drop 8 rep)"

definition wb_set_count :: "write_batch \<Rightarrow> u32 \<Rightarrow> write_batch option" where
  "wb_set_count rep n =
     (if length rep < 12 then None else Some (take 8 rep @ encode_fixed32 n @ drop 12 rep))"

definition wb_sequence :: "write_batch \<Rightarrow> u64 option" where
  "wb_sequence rep = decode_fixed64 rep"

definition wb_set_sequence :: "write_batch \<Rightarrow> u64 \<Rightarrow> write_batch option" where
  "wb_set_sequence rep seq =
     (if length rep < 8 then None else Some (encode_fixed64 seq @ drop 8 rep))"

definition wb_contents :: "write_batch \<Rightarrow> slice" where
  "wb_contents rep = rep"

definition wb_byte_size :: "write_batch \<Rightarrow> nat" where
  "wb_byte_size rep = length rep"

definition wb_set_contents :: "slice \<Rightarrow> write_batch option" where
  "wb_set_contents contents = (if length contents \<ge> kHeader then Some contents else None)"

text \<open>The sum of two \<open>int\<close>s.\<close>

definition int_add :: "u32 \<Rightarrow> u32 \<Rightarrow> u32 option" where
  "int_add a b =
     (if - (2 ^ 31) \<le> sint a + sint b \<and> sint a + sint b < 2 ^ 31 then Some (a + b) else None)"

definition wb_put :: "write_batch \<Rightarrow> slice \<Rightarrow> slice \<Rightarrow> write_batch option" where
  "wb_put rep key v =
     do {
       c \<leftarrow> wb_count rep;
       n \<leftarrow> int_add c 1;
       rep \<leftarrow> wb_set_count rep n;
       Some (put_length_prefixed_slice
              (put_length_prefixed_slice (rep @ [value_type_code KTypeValue]) key) v)
     }"

definition wb_delete :: "write_batch \<Rightarrow> slice \<Rightarrow> write_batch option" where
  "wb_delete rep key =
     do {
       c \<leftarrow> wb_count rep;
       n \<leftarrow> int_add c 1;
       rep \<leftarrow> wb_set_count rep n;
       Some (put_length_prefixed_slice (rep @ [value_type_code KTypeDeletion]) key)
     }"

definition wb_append :: "write_batch \<Rightarrow> write_batch \<Rightarrow> write_batch option" where
  "wb_append dst src =
     do {
       a \<leftarrow> wb_count dst;
       b \<leftarrow> wb_count src;
       n \<leftarrow> int_add a b;
       dst \<leftarrow> wb_set_count dst n;
       if length src \<ge> kHeader then Some (dst @ drop kHeader src) else None
     }"

subsection \<open>\<open>Iterate\<close>\<close>

record 'h wb_handler =
  on_put :: "slice \<Rightarrow> slice \<Rightarrow> 'h \<Rightarrow> 'h"
  on_delete :: "slice \<Rightarrow> 'h \<Rightarrow> 'h"

lemma get_length_prefixed_shorter:
  "get_length_prefixed_slice bs = (Some v, q) \<Longrightarrow> length q < length bs"
  by (drule get_length_prefixed_slice_cases) auto

text \<open>The loop: an error status, or the number of operations found.  The code counts them in an
  \<open>int\<close>, which overflows from \<open>2 ^ 31\<close> operations on; the model counts on.\<close>

function wb_loop :: "'h wb_handler \<Rightarrow> 'h \<Rightarrow> nat \<Rightarrow> slice \<Rightarrow> (status + nat) \<times> 'h" where
  "wb_loop handler h found [] = (Inr found, h)"
| "wb_loop handler h found (tag # inp) =
     (if tag = value_type_code KTypeValue then
        case get_length_prefixed_slice inp of
          (Some key, inp1) \<Rightarrow>
            (case get_length_prefixed_slice inp1 of
               (Some v, inp2) \<Rightarrow> wb_loop handler (on_put handler key v h) (found + 1) inp2
             | (None, inp2) \<Rightarrow> (Inl (corruption ''bad WriteBatch Put''), h))
        | (None, inp1) \<Rightarrow> (Inl (corruption ''bad WriteBatch Put''), h)
      else if tag = value_type_code KTypeDeletion then
        case get_length_prefixed_slice inp of
          (Some key, inp1) \<Rightarrow> wb_loop handler (on_delete handler key h) (found + 1) inp1
        | (None, inp1) \<Rightarrow> (Inl (corruption ''bad WriteBatch Delete''), h)
      else (Inl (corruption ''unknown WriteBatch tag''), h))"
  by pat_completeness auto
termination
  by (relation "measure (\<lambda>(handler, h, found, inp). length inp)")
    (auto dest!: get_length_prefixed_shorter [OF sym])

definition wb_iterate :: "'h wb_handler \<Rightarrow> 'h \<Rightarrow> write_batch \<Rightarrow> (status \<times> 'h) option" where
  "wb_iterate handler h rep =
     (if length rep < kHeader then Some (corruption ''malformed WriteBatch (too small)'', h)
      else
        case wb_loop handler h 0 (drop kHeader rep) of
          (Inl s, h') \<Rightarrow> Some (s, h')
        | (Inr found, h') \<Rightarrow>
            do {
              c \<leftarrow> wb_count rep;
              Some (if int found \<noteq> sint c then corruption ''WriteBatch has wrong count'' else StatusOK, h')
            })"

subsection \<open>\<open>InsertInto\<close>\<close>

record 'm inserter =
  ins_sequence :: u64
  ins_mem :: 'm

definition mem_table_inserter ::
    "(u64 \<Rightarrow> value_type \<Rightarrow> slice \<Rightarrow> slice \<Rightarrow> 'm \<Rightarrow> 'm) \<Rightarrow> 'm inserter wb_handler" where
  "mem_table_inserter mem_add =
     \<lparr>on_put = (\<lambda>key v i. i\<lparr>ins_mem := mem_add (ins_sequence i) KTypeValue key v (ins_mem i),
                 ins_sequence := ins_sequence i + 1\<rparr>),
      on_delete = (\<lambda>key i. i\<lparr>ins_mem := mem_add (ins_sequence i) KTypeDeletion key [] (ins_mem i),
                 ins_sequence := ins_sequence i + 1\<rparr>)\<rparr>"

definition wb_insert_into ::
    "(u64 \<Rightarrow> value_type \<Rightarrow> slice \<Rightarrow> slice \<Rightarrow> 'm \<Rightarrow> 'm) \<Rightarrow> write_batch \<Rightarrow> 'm \<Rightarrow> (status \<times> 'm) option" where
  "wb_insert_into mem_add rep mem =
     do {
       seq \<leftarrow> wb_sequence rep;
       (s, i) \<leftarrow> wb_iterate (mem_table_inserter mem_add) \<lparr>ins_sequence = seq, ins_mem = mem\<rparr> rep;
       Some (s, ins_mem i)
     }"

subsection \<open>A batch as its operations\<close>

datatype wb_op = WPut slice slice | WDelete slice

primrec op_bytes :: "wb_op \<Rightarrow> u8 list" where
  "op_bytes (WPut k v) = value_type_code KTypeValue # length_prefixed k @ length_prefixed v"
| "op_bytes (WDelete k) = value_type_code KTypeDeletion # length_prefixed k"

primrec op_small :: "wb_op \<Rightarrow> bool" where
  "op_small (WPut k v) \<longleftrightarrow> length k < 2 ^ 32 \<and> length v < 2 ^ 32"
| "op_small (WDelete k) \<longleftrightarrow> length k < 2 ^ 32"

definition batch_bytes :: "u64 \<Rightarrow> wb_op list \<Rightarrow> write_batch" where
  "batch_bytes seq ops =
     encode_fixed64 seq @ encode_fixed32 (of_nat (length ops)) @ concat (map op_bytes ops)"

primrec run_op :: "'h wb_handler \<Rightarrow> wb_op \<Rightarrow> 'h \<Rightarrow> 'h" where
  "run_op handler (WPut k v) = on_put handler k v"
| "run_op handler (WDelete k) = on_delete handler k"

text \<open>What the calls \<open>Put\<close> and \<open>Delete\<close> make of an operation.\<close>

primrec wb_apply :: "wb_op \<Rightarrow> write_batch \<Rightarrow> write_batch option" where
  "wb_apply (WPut k v) rep = wb_put rep k v"
| "wb_apply (WDelete k) rep = wb_delete rep k"

primrec wb_apply_all :: "wb_op list \<Rightarrow> write_batch \<Rightarrow> write_batch option" where
  "wb_apply_all [] rep = Some rep"
| "wb_apply_all (x # xs) rep = do { rep \<leftarrow> wb_apply x rep; wb_apply_all xs rep }"

lemma type_codes [simp]:
  "value_type_code KTypeValue = 1" "value_type_code KTypeDeletion = 0"
  by (simp_all add: value_type_code_def)

lemma clear_bytes: "wb_clear = batch_bytes 0 []"
  by (simp add: wb_clear_def batch_bytes_def kHeader_def encode_fixed64_eq encode_fixed32_eq
    eval_nat_numeral)

lemma batch_parts:
  "length (batch_bytes seq ops) = 12 + length (concat (map op_bytes ops))"
  "drop 8 (batch_bytes seq ops) = encode_fixed32 (of_nat (length ops)) @ concat (map op_bytes ops)"
  "drop 12 (batch_bytes seq ops) = concat (map op_bytes ops)"
  "take 8 (batch_bytes seq ops) = encode_fixed64 seq"
  "wb_count (batch_bytes seq ops) = Some (of_nat (length ops))"
  "wb_sequence (batch_bytes seq ops) = Some seq"
  by (simp_all add: batch_bytes_def wb_count_def wb_sequence_def)

lemma sint_count: "n < 2 ^ 31 \<Longrightarrow> sint (of_nat n :: u32) = int n"
proof -
  assume n: "n < 2 ^ 31"
  then have "signed_take_bit 31 (int n) = int n"
    by (intro signed_take_bit_int_eq_self) (simp_all add: of_nat_less_iff [of n "2147483648", simplified])
  moreover have "uint (of_nat n :: u32) = int n"
    using n by (simp add: unsigned_of_nat take_bit_nat_eq_self)
  ultimately show ?thesis by (simp add: sint_uint)
qed

lemma int_add_count:
  "a + b < 2 ^ 31 \<Longrightarrow> int_add (of_nat a) (of_nat b) = Some (of_nat (a + b))"
  by (simp add: int_add_def sint_count)

lemma set_count_bytes:
  "wb_set_count (batch_bytes seq ops) n =
     Some (encode_fixed64 seq @ encode_fixed32 n @ concat (map op_bytes ops))"
  by (simp add: wb_set_count_def batch_parts)

lemma apply_bytes:
  assumes "length ops + 1 < 2 ^ 31"
  shows "wb_apply x (batch_bytes seq ops) = Some (batch_bytes seq (ops @ [x]))"
  using int_add_count [of "length ops" 1] assms
  by (cases x; simp add: wb_put_def wb_delete_def batch_parts set_count_bytes put_length_prefixed)
    (simp_all add: batch_bytes_def)

lemma apply_all_bytes:
  "length ops + length xs < 2 ^ 31 \<Longrightarrow>
     wb_apply_all xs (batch_bytes seq ops) = Some (batch_bytes seq (ops @ xs))"
proof (induction xs arbitrary: ops)
  case (Cons x xs)
  then show ?case using apply_bytes [of ops x seq] Cons.IH [of "ops @ [x]"] by simp
qed simp

lemma append_bytes:
  assumes "length ops + length ops' < 2 ^ 31"
  shows "wb_append (batch_bytes seq ops) (batch_bytes seq' ops') = Some (batch_bytes seq (ops @ ops'))"
  using int_add_count [OF assms]
  by (simp add: wb_append_def batch_parts set_count_bytes kHeader_def)
    (simp add: batch_bytes_def)

lemma loop_bytes:
  "\<forall>x \<in> set ops. op_small x \<Longrightarrow>
     wb_loop handler h found (concat (map op_bytes ops)) = (Inr (found + length ops), fold (run_op handler) ops h)"
proof (induction ops arbitrary: h found)
  case (Cons x ops)
  then show ?case by (cases x) simp_all
qed simp

lemma iterate_bytes:
  assumes "\<forall>x \<in> set ops. op_small x" "length ops < 2 ^ 31"
  shows "wb_iterate handler h (batch_bytes seq ops) = Some (StatusOK, fold (run_op handler) ops h)"
  using loop_bytes [OF assms(1), where handler = handler and h = h and found = 0] sint_count [OF assms(2)]
  by (simp add: wb_iterate_def batch_parts kHeader_def)

text \<open>\<open>InsertInto\<close> gives the operations consecutive sequence numbers.\<close>

primrec mem_ops :: "(u64 \<Rightarrow> value_type \<Rightarrow> slice \<Rightarrow> slice \<Rightarrow> 'm \<Rightarrow> 'm) \<Rightarrow> u64 \<Rightarrow> wb_op list \<Rightarrow> 'm \<Rightarrow> 'm" where
  "mem_ops mem_add seq [] m = m"
| "mem_ops mem_add seq (x # xs) m =
     mem_ops mem_add (seq + 1) xs
       (case x of WPut k v \<Rightarrow> mem_add seq KTypeValue k v m | WDelete k \<Rightarrow> mem_add seq KTypeDeletion k [] m)"

lemma fold_inserter:
  "fold (run_op (mem_table_inserter mem_add)) ops \<lparr>ins_sequence = seq, ins_mem = m\<rparr> =
     \<lparr>ins_sequence = seq + of_nat (length ops), ins_mem = mem_ops mem_add seq ops m\<rparr>"
proof (induction ops arbitrary: seq m)
  case (Cons x ops)
  then show ?case by (cases x) (simp_all add: mem_table_inserter_def ac_simps)
qed simp

lemma insert_into_bytes:
  assumes "\<forall>x \<in> set ops. op_small x" "length ops < 2 ^ 31"
  shows "wb_insert_into mem_add (batch_bytes seq ops) m = Some (StatusOK, mem_ops mem_add seq ops m)"
  by (simp add: wb_insert_into_def batch_parts iterate_bytes [OF assms] fold_inserter)

end
