(* ===== verification/LdBlock.thy ===== *)
theory LdBlock
  imports LdStatus LdDbFormatOk
begin

text \<open>
  Table blocks: \<open>BlockBuilder\<close> (\<open>table/block_builder.cc\<close>) and \<open>Block\<close> with its iterator
  (\<open>table/block.cc\<close>).

  Pointers into a block are offsets into its bytes.  Sizes are numbers; where the code stores one in
  a \<open>uint32_t\<close> it is taken modulo \<open>2 ^ 32\<close>.  An \<open>assert\<close> that fails, a read outside the block and a
  loop that does not return have no result (\<open>None\<close>).
\<close>

definition u32_of :: "nat \<Rightarrow> nat" where
  "u32_of n = n mod 2 ^ 32"

subsection \<open>Building\<close>

record block_builder =
  bb_comparator :: comparator
  bb_restart_interval :: nat
  bb_buffer :: "u8 list"
  bb_restarts :: "u32 list"
  bb_counter :: nat
  bb_finished :: bool
  bb_last_key :: "u8 list"

definition block_builder :: "comparator \<Rightarrow> nat \<Rightarrow> block_builder option" where
  "block_builder cmp restart_interval =
     (if restart_interval \<ge> 1 then
        Some \<lparr>bb_comparator = cmp, bb_restart_interval = restart_interval, bb_buffer = [],
          bb_restarts = [0], bb_counter = 0, bb_finished = False, bb_last_key = []\<rparr>
      else None)"

definition bb_reset :: "block_builder \<Rightarrow> block_builder" where
  "bb_reset b = b\<lparr>bb_buffer := [], bb_restarts := [0], bb_counter := 0, bb_finished := False,
     bb_last_key := []\<rparr>"

definition bb_current_size_estimate :: "block_builder \<Rightarrow> nat" where
  "bb_current_size_estimate b = length (bb_buffer b) + length (bb_restarts b) * 4 + 4"

definition bb_empty :: "block_builder \<Rightarrow> bool" where
  "bb_empty b \<longleftrightarrow> bb_buffer b = []"

definition bb_finish :: "block_builder \<Rightarrow> slice \<times> block_builder" where
  "bb_finish b =
     (let buffer = fold (\<lambda>r buf. put_fixed32 buf r) (bb_restarts b) (bb_buffer b);
          buffer = put_fixed32 buffer (of_nat (length (bb_restarts b))) in
      (buffer, b\<lparr>bb_buffer := buffer, bb_finished := True\<rparr>))"

definition bb_add :: "block_builder \<Rightarrow> slice \<Rightarrow> slice \<Rightarrow> block_builder option" where
  "bb_add b key v =
     (if bb_finished b \<or> \<not> bb_counter b \<le> bb_restart_interval b then None
      else
        do {
          ok \<leftarrow> (if bb_buffer b = [] then Some True
                else map_option (\<lambda>r. r > 0) (compare (bb_comparator b) key (bb_last_key b)));
          if \<not> ok then None
          else
            let (shared, b) =
                  (if bb_counter b < bb_restart_interval b then
                     (common_prefix_loop (bb_last_key b) key
                        (min (length (bb_last_key b)) (length key)) 0, b)
                   else
                     (0, b\<lparr>bb_restarts := bb_restarts b @ [of_nat (length (bb_buffer b))],
                           bb_counter := 0\<rparr>));
                non_shared = length key - shared;
                buffer = put_varint32 (bb_buffer b) (of_nat shared);
                buffer = put_varint32 buffer (of_nat non_shared);
                buffer = put_varint32 buffer (of_nat (length v));
                buffer = buffer @ take non_shared (drop shared key);
                buffer = buffer @ v;
                last_key = take shared (bb_last_key b) @ take non_shared (drop shared key) in
            if last_key = key
            then Some (b\<lparr>bb_buffer := buffer, bb_last_key := last_key, bb_counter := bb_counter b + 1\<rparr>)
            else None
        })"

subsection \<open>The block\<close>

record block =
  blk_data :: "u8 list"
  blk_size :: nat
  blk_restart_offset :: nat

definition num_restarts :: "u8 list \<Rightarrow> nat \<Rightarrow> nat option" where
  "num_restarts data sz =
     (if sz \<ge> 4 then map_option unat (decode_fixed32 (drop (sz - 4) data)) else None)"

definition make_block :: "slice \<Rightarrow> block option" where
  "make_block data =
     (let sz = length data in
      if sz < 4 then Some \<lparr>blk_data = data, blk_size = 0, blk_restart_offset = 0\<rparr>
      else
        do {
          n \<leftarrow> num_restarts data sz;
          let max_restarts_allowed = (sz - 4) div 4;
          if n > max_restarts_allowed
          then Some \<lparr>blk_data = data, blk_size = 0, blk_restart_offset = 0\<rparr>
          else Some \<lparr>blk_data = data, blk_size = sz, blk_restart_offset = u32_of (sz - u32_of (1 + n) * 4)\<rparr>
        })"

text \<open>\<open>DecodeEntry\<close> on the bytes between \<open>p\<close> and \<open>limit\<close>: the three lengths and the bytes after
  them.  The sum of two lengths is a \<open>uint32_t\<close>.\<close>

definition decode_entry :: "u8 list \<Rightarrow> (u32 \<times> u32 \<times> u32 \<times> u8 list) option" where
  "decode_entry p =
     (if length p < 3 then None
      else
        do {
          (shared, non_shared, value_length, q) \<leftarrow>
            (let shared = ucast (p ! 0) :: u32; non_shared = ucast (p ! 1) :: u32;
                 value_length = ucast (p ! 2) :: u32 in
             if (shared OR non_shared OR value_length) < 128
             then Some (shared, non_shared, value_length, drop 3 p)
             else
               do {
                 (shared, p) \<leftarrow> get_varint32_ptr p;
                 (non_shared, p) \<leftarrow> get_varint32_ptr p;
                 (value_length, p) \<leftarrow> get_varint32_ptr p;
                 Some (shared, non_shared, value_length, p)
               });
          if (of_nat (length q) :: u32) < non_shared + value_length then None
          else Some (shared, non_shared, value_length, q)
        })"

subsection \<open>The iterator\<close>

text \<open>\<open>value_\<close> is an offset into the block and a length, or \<open>None\<close> for an empty slice elsewhere.\<close>

record block_iter =
  bi_comparator :: comparator
  bi_data :: "u8 list"
  bi_restarts :: nat
  bi_num_restarts :: nat
  bi_current :: nat
  bi_restart_index :: nat
  bi_key :: "u8 list"
  bi_value :: "(nat \<times> nat) option"
  bi_status :: status

definition block_iter :: "comparator \<Rightarrow> u8 list \<Rightarrow> nat \<Rightarrow> nat \<Rightarrow> block_iter option" where
  "block_iter cmp data restarts num =
     (if num > 0 then
        Some \<lparr>bi_comparator = cmp, bi_data = data, bi_restarts = restarts, bi_num_restarts = num,
          bi_current = restarts, bi_restart_index = num, bi_key = [], bi_value = None,
          bi_status = StatusOK\<rparr>
      else None)"

text \<open>What \<open>NewIterator\<close> returns: an empty iterator with a status, or one over the block.\<close>

datatype new_iterator = EmptyIterator status | BlockIterator block_iter

definition new_iterator :: "block \<Rightarrow> comparator \<Rightarrow> new_iterator option" where
  "new_iterator b cmp =
     (if blk_size b < 4 then Some (EmptyIterator (corruption ''bad block contents''))
      else
        do {
          n \<leftarrow> num_restarts (blk_data b) (blk_size b);
          if n = 0 then Some (EmptyIterator StatusOK)
          else map_option BlockIterator (block_iter cmp (blk_data b) (blk_restart_offset b) n)
        })"

definition bi_valid :: "block_iter \<Rightarrow> bool" where
  "bi_valid i \<longleftrightarrow> bi_current i < bi_restarts i"

definition bi_get_key :: "block_iter \<Rightarrow> slice option" where
  "bi_get_key i = (if bi_valid i then Some (bi_key i) else None)"

definition bi_get_value :: "block_iter \<Rightarrow> slice option" where
  "bi_get_value i =
     (if bi_valid i then
        do {
          (off, len) \<leftarrow> bi_value i;
          if off + len \<le> length (bi_data i) then Some (take len (drop off (bi_data i))) else None
        }
      else None)"

definition next_entry_offset :: "block_iter \<Rightarrow> nat option" where
  "next_entry_offset i = map_option (\<lambda>(off, len). u32_of (off + len)) (bi_value i)"

definition get_restart_point :: "block_iter \<Rightarrow> nat \<Rightarrow> nat option" where
  "get_restart_point i index =
     (if index < bi_num_restarts i
      then map_option unat (decode_fixed32 (drop (bi_restarts i + index * 4) (bi_data i)))
      else None)"

definition seek_to_restart_point :: "block_iter \<Rightarrow> nat \<Rightarrow> block_iter option" where
  "seek_to_restart_point i index =
     do {
       offset \<leftarrow> get_restart_point i index;
       Some (i\<lparr>bi_key := [], bi_restart_index := index, bi_value := Some (offset, 0)\<rparr>)
     }"

definition corruption_error :: "block_iter \<Rightarrow> block_iter" where
  "corruption_error i =
     i\<lparr>bi_current := bi_restarts i, bi_restart_index := bi_num_restarts i,
       bi_status := corruption ''bad entry in block'', bi_key := [], bi_value := None\<rparr>"

text \<open>The loop at the end of \<open>ParseNextKey\<close>, that moves \<open>restart_index_\<close> up.\<close>

function advance_restart :: "block_iter \<Rightarrow> block_iter option" where
  "advance_restart i =
     (if bi_restart_index i + 1 < bi_num_restarts i then
        case get_restart_point i (bi_restart_index i + 1) of
          None \<Rightarrow> None
        | Some o1 \<Rightarrow>
            if o1 < bi_current i
            then advance_restart (i\<lparr>bi_restart_index := bi_restart_index i + 1\<rparr>)
            else Some i
      else Some i)"
  by auto
termination by (relation "measure (\<lambda>i. bi_num_restarts i - bi_restart_index i)") auto

declare advance_restart.simps [simp del]

definition parse_next_key :: "block_iter \<Rightarrow> (bool \<times> block_iter) option" where
  "parse_next_key i =
     do {
       current \<leftarrow> next_entry_offset i;
       let i = i\<lparr>bi_current := current\<rparr>;
       if current \<ge> bi_restarts i then
         Some (False, i\<lparr>bi_current := bi_restarts i, bi_restart_index := bi_num_restarts i\<rparr>)
       else if bi_restarts i > length (bi_data i) then None
       else
         case decode_entry (take (bi_restarts i - current) (drop current (bi_data i))) of
           None \<Rightarrow> Some (False, corruption_error i)
         | Some (shared, non_shared, value_length, q) \<Rightarrow>
             if length (bi_key i) < unat shared then Some (False, corruption_error i)
             else
               let p = bi_restarts i - length q in
               if p + unat non_shared > length (bi_data i) then None
               else
                 do {
                   i \<leftarrow> advance_restart
                     (i\<lparr>bi_key := take (unat shared) (bi_key i) @
                          take (unat non_shared) (drop p (bi_data i)),
                        bi_value := Some (p + unat non_shared, unat value_length)\<rparr>);
                   Some (True, i)
                 }
     }"

definition bi_next :: "block_iter \<Rightarrow> block_iter option" where
  "bi_next i = (if bi_valid i then map_option snd (parse_next_key i) else None)"

text \<open>\<open>Prev\<close>: back to a restart point before the entry, then forward to the entry before it.\<close>

function back_to_restart :: "block_iter \<Rightarrow> nat \<Rightarrow> (bool \<times> block_iter) option" where
  "back_to_restart i original =
     (case get_restart_point i (bi_restart_index i) of
        None \<Rightarrow> None
      | Some o1 \<Rightarrow>
          if o1 \<ge> original then
            if bi_restart_index i = 0 then
              Some (False, i\<lparr>bi_current := bi_restarts i, bi_restart_index := bi_num_restarts i\<rparr>)
            else back_to_restart (i\<lparr>bi_restart_index := bi_restart_index i - 1\<rparr>) original
          else Some (True, i))"
  by auto
termination by (relation "measure (\<lambda>(i, original). bi_restart_index i)") auto

declare back_to_restart.simps [simp del]

text \<open>\<open>while (ParseNextKey() && NextEntryOffset() < stop)\<close>\<close>

partial_function (option) parse_until :: "nat \<Rightarrow> block_iter \<Rightarrow> block_iter option" where
  "parse_until stop i =
     Option.bind (parse_next_key i) (\<lambda>(ok, i).
       if \<not> ok then Some i
       else Option.bind (next_entry_offset i) (\<lambda>n.
         if n < stop then parse_until stop i else Some i))"

definition bi_prev :: "block_iter \<Rightarrow> block_iter option" where
  "bi_prev i =
     (if bi_valid i then
        do {
          let original = bi_current i;
          (found, i) \<leftarrow> back_to_restart i original;
          if \<not> found then Some i
          else
            do {
              i \<leftarrow> seek_to_restart_point i (bi_restart_index i);
              parse_until original i
            }
        }
      else None)"

text \<open>The binary search of \<open>Seek\<close>: the restart point to start from, or \<open>None\<close> after a corrupt
  entry.  Its bounds are \<open>uint32_t\<close>.\<close>

partial_function (option) seek_binary ::
    "block_iter \<Rightarrow> slice \<Rightarrow> u32 \<Rightarrow> u32 \<Rightarrow> nat option option" where
  "seek_binary i target left right =
     (if left < right then
        let mid = (left + right + 1) div 2 in
        Option.bind (get_restart_point i (unat mid)) (\<lambda>region_offset.
          if bi_restarts i > length (bi_data i) then None
          else
            case decode_entry (take (bi_restarts i - region_offset) (drop region_offset (bi_data i))) of
              None \<Rightarrow> Some None
            | Some (shared, non_shared, value_length, q) \<Rightarrow>
                if shared \<noteq> 0 then Some None
                else
                  let p = bi_restarts i - length q in
                  if p + unat non_shared > length (bi_data i) then None
                  else
                    Option.bind
                      (compare (bi_comparator i) (take (unat non_shared) (drop p (bi_data i))) target)
                      (\<lambda>r. if r < 0 then seek_binary i target mid right
                           else seek_binary i target left (mid - 1)))
      else Some (Some (unat left)))"

partial_function (option) seek_linear :: "slice \<Rightarrow> block_iter \<Rightarrow> block_iter option" where
  "seek_linear target i =
     Option.bind (parse_next_key i) (\<lambda>(ok, i).
       if \<not> ok then Some i
       else Option.bind (compare (bi_comparator i) (bi_key i) target) (\<lambda>r.
         if r \<ge> 0 then Some i else seek_linear target i))"

definition bi_seek :: "block_iter \<Rightarrow> slice \<Rightarrow> block_iter option" where
  "bi_seek i target =
     do {
       found \<leftarrow> seek_binary i target 0 (of_nat (bi_num_restarts i) - 1);
       case found of
         None \<Rightarrow> Some (corruption_error i)
       | Some left \<Rightarrow>
           do {
             i \<leftarrow> seek_to_restart_point i left;
             seek_linear target i
           }
     }"

definition bi_seek_to_first :: "block_iter \<Rightarrow> block_iter option" where
  "bi_seek_to_first i =
     do { i \<leftarrow> seek_to_restart_point i 0; (ok, i) \<leftarrow> parse_next_key i; Some i }"

definition bi_seek_to_last :: "block_iter \<Rightarrow> block_iter option" where
  "bi_seek_to_last i =
     do {
       i \<leftarrow> seek_to_restart_point i (bi_num_restarts i - 1);
       parse_until (bi_restarts i) i
     }"

end
