(* ===== verification/LdBlockOk.thy ===== *)
theory LdBlockOk
  imports LdBlock
begin

text \<open>
  Blocks as lists of entries: what the builder's bytes are, and that the iterator walks and searches
  exactly the entries that were added.
\<close>

subsection \<open>The format\<close>

text \<open>An entry with the number of key bytes it shares with the one before.\<close>

type_synonym entry = "nat \<times> slice \<times> slice"

abbreviation ent_shared :: "entry \<Rightarrow> nat" where "ent_shared e \<equiv> fst e"
abbreviation ent_key :: "entry \<Rightarrow> slice" where "ent_key e \<equiv> fst (snd e)"
abbreviation ent_value :: "entry \<Rightarrow> slice" where "ent_value e \<equiv> snd (snd e)"

definition entry_head :: "entry \<Rightarrow> u8 list" where
  "entry_head e =
     encode_varint32 (of_nat (ent_shared e)) @
     encode_varint32 (of_nat (length (ent_key e) - ent_shared e)) @
     encode_varint32 (of_nat (length (ent_value e)))"

definition entry_bytes :: "entry \<Rightarrow> u8 list" where
  "entry_bytes e = entry_head e @ drop (ent_shared e) (ent_key e) @ ent_value e"

definition entries_bytes :: "entry list \<Rightarrow> u8 list" where
  "entries_bytes es = concat (map entry_bytes es)"

definition entry_offset :: "entry list \<Rightarrow> nat \<Rightarrow> nat" where
  "entry_offset es n = length (entries_bytes (take n es))"

text \<open>Each entry shares a prefix of the key before it.\<close>

definition shares_ok :: "entry list \<Rightarrow> bool" where
  "shares_ok es \<longleftrightarrow> (\<forall>n < length es. ent_shared (es ! n) \<le> length (ent_key (es ! n)) \<and>
     (if n = 0 then ent_shared (es ! n) = 0
      else ent_shared (es ! n) \<le> length (ent_key (es ! (n - 1))) \<and>
        take (ent_shared (es ! n)) (ent_key (es ! n)) =
        take (ent_shared (es ! n)) (ent_key (es ! (n - 1)))))"

text \<open>The restart points, as entry numbers: increasing from 0, at entries that share nothing.\<close>

definition restarts_ok :: "entry list \<Rightarrow> nat list \<Rightarrow> bool" where
  "restarts_ok es rs \<longleftrightarrow> rs \<noteq> [] \<and> hd rs = 0 \<and> sorted_wrt (<) rs \<and>
     (es \<noteq> [] \<longrightarrow> (\<forall>n \<in> set rs. n < length es \<and> ent_shared (es ! n) = 0)) \<and>
     (es = [] \<longrightarrow> rs = [0])"

definition block_bytes :: "entry list \<Rightarrow> nat list \<Rightarrow> u8 list" where
  "block_bytes es rs =
     entries_bytes es @ concat (map (\<lambda>n. encode_fixed32 (of_nat (entry_offset es n))) rs) @
     encode_fixed32 (of_nat (length rs))"

lemma varint32_pos [simp]: "encode_varint32 v \<noteq> []"
  by (simp add: encode_varint32_eq)

lemma entry_head_length: "3 \<le> length (entry_head e)"
proof -
  have "1 \<le> length (encode_varint32 v)" for v by (simp add: Suc_le_eq)
  from this [of "of_nat (ent_shared e)"] this [of "of_nat (length (ent_key e) - ent_shared e)"]
    this [of "of_nat (length (ent_value e))"]
  show ?thesis by (simp add: entry_head_def)
qed

lemma entries_bytes_simps [simp]:
  "entries_bytes [] = []" "entries_bytes (e # es) = entry_bytes e @ entries_bytes es"
  "entries_bytes (es @ es') = entries_bytes es @ entries_bytes es'"
  by (simp_all add: entries_bytes_def)

lemma entry_offset_0 [simp]: "entry_offset es 0 = 0"
  by (simp add: entry_offset_def)

lemma entry_offset_Suc:
  "n < length es \<Longrightarrow> entry_offset es (Suc n) = entry_offset es n + length (entry_bytes (es ! n))"
  by (simp add: entry_offset_def take_Suc_conv_app_nth)

lemma entry_offset_all: "length es \<le> n \<Longrightarrow> entry_offset es n = length (entries_bytes es)"
  by (simp add: entry_offset_def)

lemma entry_bytes_pos: "3 \<le> length (entry_bytes e)"
  using entry_head_length [of e] by (simp add: entry_bytes_def)

lemma entry_offset_less: "n < m \<Longrightarrow> m \<le> length es \<Longrightarrow> entry_offset es n < entry_offset es m"
proof (induction m)
  case (Suc m)
  have "0 < length (entry_bytes (es ! m))" using entry_bytes_pos [of "es ! m"] by linarith
  with Suc show ?case by (cases "n = m") (simp_all add: entry_offset_Suc)
qed simp

lemma entry_offset_mono: "n \<le> m \<Longrightarrow> m \<le> length es \<Longrightarrow> entry_offset es n \<le> entry_offset es m"
  using entry_offset_less [of n m es] by (cases "n = m") auto

lemma entry_offset_le: "entry_offset es n \<le> length (entries_bytes es)"
  using entry_offset_mono [of n "length es" es] by (cases "n \<le> length es") (simp_all add: entry_offset_all)

lemma entry_offset_less_iff:
  "n \<le> length es \<Longrightarrow> m \<le> length es \<Longrightarrow> entry_offset es n < entry_offset es m \<longleftrightarrow> n < m"
  using entry_offset_less [of n m es] entry_offset_mono [of m n es] by (metis not_less)

lemma drop_entries:
  "n < length es \<Longrightarrow> drop (entry_offset es n) (entries_bytes es @ r) =
     entry_bytes (es ! n) @ entries_bytes (drop (Suc n) es) @ r"
proof -
  assume n: "n < length es"
  then have "es = take n es @ es ! n # drop (Suc n) es" by (simp add: id_take_nth_drop)
  then have "entries_bytes es = entries_bytes (take n es) @ entries_bytes (es ! n # drop (Suc n) es)"
    by (metis entries_bytes_simps(3))
  then show ?thesis by (simp add: entry_offset_def)
qed

subsection \<open>Decoding an entry\<close>

lemma small_byte: "(ucast b :: u32) < 128 \<Longrightarrow> get_varint32_ptr (b # p) = Some (ucast b, p)"
proof -
  assume "(ucast b :: u32) < 128"
  moreover have "unat (ucast b :: u32) = unat b"
    using unat_u8_less [of b] by (simp add: unsigned_ucast_eq take_bit_eq_mod del: unat_u8_less)
  ultimately have "unat b < 128" by (simp add: word_less_nat_alt)
  then have "(ucast b :: u32) AND 128 = 0" by (simp add: wide_128_u32 continuation_bit)
  then show ?thesis by (simp add: get_varint32_ptr_def Let_def)
qed

lemma or_less_128:
  assumes "(a OR b OR c :: u32) < 128"
  shows "a < 128" "b < 128" "c < 128"
proof -
  have le: "x \<le> x OR y" for x y :: u32
    by (simp add: word_le_def uint_or or_greater_eq)
  have "a \<le> a OR b OR c" "b OR c \<le> a OR b OR c" "b \<le> b OR c" "c \<le> b OR c"
    using le [of a "b OR c"] le [of "b OR c" a] le [of b c] le [of c b] by (simp_all add: ac_simps)
  with assms show "a < 128" "b < 128" "c < 128" by simp_all
qed

text \<open>The fast path is only a faster one.\<close>

lemma decode_entry_slow:
  "decode_entry p =
     (if length p < 3 then None
      else
        do {
          (shared, p) \<leftarrow> get_varint32_ptr p;
          (non_shared, p) \<leftarrow> get_varint32_ptr p;
          (value_length, q) \<leftarrow> get_varint32_ptr p;
          if (of_nat (length q) :: u32) < non_shared + value_length then None
          else Some (shared, non_shared, value_length, q)
        })"
proof (cases "length p < 3")
  case False
  then have "Suc (Suc (Suc 0)) \<le> length p" by simp
  then obtain a b c q where p: "p = a # b # c # q" by (auto simp: Suc_le_length_iff)
  show ?thesis
  proof (cases "(ucast a OR ucast b OR ucast c :: u32) < 128")
    case True
    note small = or_less_128 [OF True]
    show ?thesis using True small by (simp add: decode_entry_def p small_byte Let_def or.assoc)
  next
    case False
    then show ?thesis
      by (simp add: decode_entry_def p Let_def or.assoc split: Option.bind_splits)
  qed
qed (simp add: decode_entry_def)

lemma decode_entry_bytes:
  assumes "ent_shared e \<le> length (ent_key e)" "length (ent_key e) < 2 ^ 32"
    "length (drop (ent_shared e) (ent_key e) @ ent_value e @ r) < 2 ^ 32"
  shows "decode_entry (entry_bytes e @ r) =
     Some (of_nat (ent_shared e), of_nat (length (ent_key e) - ent_shared e), of_nat (length (ent_value e)),
       drop (ent_shared e) (ent_key e) @ ent_value e @ r)"
proof -
  let ?q = "drop (ent_shared e) (ent_key e) @ ent_value e @ r"
  have len: "\<not> length (entry_bytes e @ r) < 3" using entry_bytes_pos [of e] by simp
  have "unat (of_nat (length (ent_key e) - ent_shared e) + of_nat (length (ent_value e)) :: u32) =
      length (ent_key e) - ent_shared e + length (ent_value e)"
    using assms(3) by (simp flip: of_nat_add add: unat_of_nat_u32)
  moreover have "unat (of_nat (length ?q) :: u32) = length ?q"
    using assms(3) by (intro unat_of_nat_u32)
  ultimately have "\<not> (of_nat (length ?q) :: u32) <
      of_nat (length (ent_key e) - ent_shared e) + of_nat (length (ent_value e))"
    by (simp only: word_less_nat_alt) simp
  then show ?thesis
    using len by (simp only: decode_entry_slow if_False) (simp add: entry_bytes_def entry_head_def)
qed

subsection \<open>Sizes\<close>

definition block_ok :: "entry list \<Rightarrow> nat list \<Rightarrow> bool" where
  "block_ok es rs \<longleftrightarrow> shares_ok es \<and> restarts_ok es rs \<and> length (block_bytes es rs) < 2 ^ 32"

lemma shares_at:
  assumes "shares_ok es" "n < length es"
  shows "ent_shared (es ! n) \<le> length (ent_key (es ! n))"
    and "n = 0 \<Longrightarrow> ent_shared (es ! n) = 0"
    and "0 < n \<Longrightarrow> ent_shared (es ! n) \<le> length (ent_key (es ! (n - 1)))"
    and "0 < n \<Longrightarrow> take (ent_shared (es ! n)) (ent_key (es ! n)) =
           take (ent_shared (es ! n)) (ent_key (es ! (n - 1)))"
  using assms unfolding shares_ok_def by (metis less_numeral_extra(3))+

text \<open>A key is no longer than the entries up to it.\<close>

lemma key_length_le:
  "shares_ok es \<Longrightarrow> n < length es \<Longrightarrow> length (ent_key (es ! n)) \<le> entry_offset es (Suc n)"
proof (induction n)
  case 0
  with shares_at(2) [of es 0] have "length (ent_key (es ! 0)) \<le> length (entry_bytes (es ! 0))"
    by (simp add: entry_bytes_def)
  with 0 show ?case by (simp add: entry_offset_Suc)
next
  case (Suc n)
  from shares_at(1,3) [OF Suc.prems] have "ent_shared (es ! Suc n) \<le> length (ent_key (es ! n))"
    "ent_shared (es ! Suc n) \<le> length (ent_key (es ! Suc n))" by simp_all
  moreover have "length (ent_key (es ! Suc n)) - ent_shared (es ! Suc n) \<le> length (entry_bytes (es ! Suc n))"
    by (simp add: entry_bytes_def)
  ultimately show ?case using Suc by (simp add: entry_offset_Suc)
qed

lemma block_bytes_length:
  "length (block_bytes es rs) = length (entries_bytes es) + 4 * length rs + 4"
proof -
  have "length (concat (map (\<lambda>n. encode_fixed32 (f n)) rs)) = 4 * length rs" for f
    by (induction rs) simp_all
  then show ?thesis by (simp add: block_bytes_def)
qed

lemma entry_offset_small: "block_ok es rs \<Longrightarrow> entry_offset es n < 2 ^ 32"
  using entry_offset_le [of es n] by (simp add: block_ok_def block_bytes_length)

lemma u32_small: "n < 2 ^ 32 \<Longrightarrow> u32_of n = n"
  by (simp add: u32_of_def)

subsection \<open>The iterator's steps\<close>

definition iter_on :: "comparator \<Rightarrow> entry list \<Rightarrow> nat list \<Rightarrow> block_iter \<Rightarrow> bool" where
  "iter_on cmp es rs i \<longleftrightarrow>
     bi_comparator i = cmp \<and> bi_data i = block_bytes es rs \<and>
     bi_restarts i = length (entries_bytes es) \<and> bi_num_restarts i = length rs \<and>
     bi_status i = StatusOK"

lemma restart_bytes:
  "j < length rs \<Longrightarrow> \<exists>r. drop (length (entries_bytes es) + j * 4) (block_bytes es rs) =
     encode_fixed32 (of_nat (entry_offset es (rs ! j))) @ r"
proof -
  have "j < length rs \<Longrightarrow> \<exists>r'. drop (j * 4) (concat (map (\<lambda>n. encode_fixed32 (f n)) rs) @ r) =
      encode_fixed32 (f (rs ! j)) @ r'" for f r
  proof (induction rs arbitrary: j)
    case (Cons x rs)
    have step: "drop (4 + k) (encode_fixed32 v @ y) = drop k y" for k v y by simp
    show ?case
    proof (cases j)
      case (Suc i)
      with Cons step [of "i * 4" "f x" "concat (map (\<lambda>n. encode_fixed32 (f n)) rs) @ r"] show ?thesis
        by (simp del: drop_append)
    qed simp
  qed simp
  from this [of "\<lambda>n. of_nat (entry_offset es n)" "encode_fixed32 (of_nat (length rs))"]
  show "j < length rs \<Longrightarrow> ?thesis" by (simp add: block_bytes_def)
qed

lemma get_restart:
  assumes "iter_on cmp es rs i" "block_ok es rs" "j < length rs"
  shows "get_restart_point i j = Some (entry_offset es (rs ! j))"
proof -
  from restart_bytes [OF assms(3), of es] obtain r where
    "drop (bi_restarts i + j * 4) (bi_data i) = encode_fixed32 (of_nat (entry_offset es (rs ! j))) @ r"
    using assms(1) by (auto simp: iter_on_def)
  moreover have "unat (of_nat (entry_offset es (rs ! j)) :: u32) = entry_offset es (rs ! j)"
    using entry_offset_small [OF assms(2)] by (rule unat_of_nat_u32)
  ultimately show ?thesis using assms(1,3) by (simp add: get_restart_point_def iter_on_def)
qed

text \<open>The restart index is that of a region that begins at or before entry \<open>n\<close>.\<close>

definition restart_before :: "nat list \<Rightarrow> block_iter \<Rightarrow> nat \<Rightarrow> bool" where
  "restart_before rs i n \<longleftrightarrow> bi_restart_index i < length rs \<and> rs ! bi_restart_index i \<le> n"

text \<open>The iterator is about to parse entry \<open>n\<close>: its value ends there, and its key begins with what
  the entry shares.\<close>

definition ready :: "entry list \<Rightarrow> nat list \<Rightarrow> block_iter \<Rightarrow> nat \<Rightarrow> bool" where
  "ready es rs i n \<longleftrightarrow>
     (\<exists>o1 l. bi_value i = Some (o1, l) \<and> o1 + l = entry_offset es n) \<and> n \<le> length es \<and>
     restart_before rs i n \<and>
     (n < length es \<longrightarrow> ent_shared (es ! n) \<le> length (bi_key i) \<and>
        take (ent_shared (es ! n)) (bi_key i) = take (ent_shared (es ! n)) (ent_key (es ! n)))"

text \<open>The iterator is at entry \<open>n\<close>.\<close>

definition at_entry :: "entry list \<Rightarrow> nat list \<Rightarrow> block_iter \<Rightarrow> nat \<Rightarrow> bool" where
  "at_entry es rs i n \<longleftrightarrow> n < length es \<and> bi_current i = entry_offset es n \<and>
     bi_key i = ent_key (es ! n) \<and>
     bi_value i = Some (entry_offset es (Suc n) - length (ent_value (es ! n)), length (ent_value (es ! n))) \<and>
     restart_before rs i n"

lemma value_in_entry: "n < length es \<Longrightarrow> length (ent_value (es ! n)) \<le> entry_offset es (Suc n)"
  by (simp add: entry_offset_Suc entry_bytes_def)

lemma at_entry_ready: "shares_ok es \<Longrightarrow> at_entry es rs i n \<Longrightarrow> ready es rs i (Suc n)"
  using value_in_entry [of n es] shares_at(3,4) [of es "Suc n"]
  by (auto simp: at_entry_def ready_def restart_before_def)

lemma at_entry_valid: "iter_on cmp es rs i \<Longrightarrow> at_entry es rs i n \<Longrightarrow> bi_valid i"
  using entry_offset_less [of n "length es" es] by (simp add: at_entry_def bi_valid_def iter_on_def entry_offset_all)

lemma at_entry_value:
  assumes "iter_on cmp es rs i" "at_entry es rs i n"
  shows "bi_get_key i = Some (ent_key (es ! n))" "bi_get_value i = Some (ent_value (es ! n))"
proof -
  from assms(2) have n: "n < length es" by (simp add: at_entry_def)
  show "bi_get_key i = Some (ent_key (es ! n))"
    using at_entry_valid [OF assms] assms(2) by (simp add: bi_get_key_def at_entry_def)
  have len: "entry_offset es (Suc n) \<le> length (entries_bytes es)" by (rule entry_offset_le)
  define k where "k = entry_offset es (Suc n) - length (ent_value (es ! n)) - entry_offset es n"
  have off: "entry_offset es (Suc n) - length (ent_value (es ! n)) = k + entry_offset es n"
    using n by (simp add: k_def entry_offset_Suc entry_bytes_def)
  have kk: "k = length (entry_head (es ! n) @ drop (ent_shared (es ! n)) (ent_key (es ! n)))"
    using n by (simp add: k_def entry_offset_Suc entry_bytes_def)
  obtain r where "drop (entry_offset es n) (block_bytes es rs) = entry_bytes (es ! n) @ r"
    unfolding block_bytes_def using drop_entries [OF n] by blast
  then have "drop (k + entry_offset es n) (block_bytes es rs) = ent_value (es ! n) @ r"
    unfolding drop_drop [symmetric] by (simp add: kk entry_bytes_def)
  then have "take (length (ent_value (es ! n))) (drop (k + entry_offset es n) (block_bytes es rs)) =
      ent_value (es ! n)" by simp
  moreover have "k + entry_offset es n + length (ent_value (es ! n)) \<le> length (block_bytes es rs)"
    using len value_in_entry [OF n] off by (simp add: block_bytes_length)
  ultimately show "bi_get_value i = Some (ent_value (es ! n))"
    using at_entry_valid [OF assms] assms off by (simp add: bi_get_value_def at_entry_def iter_on_def)
qed

end
