(* ===== verification/LdBlockIter.thy ===== *)
theory LdBlockIter
  imports LdBlockOk
begin

text \<open>The block iterator on a well-formed block: parsing, walking both ways, and searching.\<close>

subsection \<open>Parsing\<close>

lemma iter_on_index [simp]: "iter_on cmp es rs (i\<lparr>bi_restart_index := x\<rparr>) \<longleftrightarrow> iter_on cmp es rs i"
  by (simp add: iter_on_def)

lemma restart_range:
  "restarts_ok es rs \<Longrightarrow> es \<noteq> [] \<Longrightarrow> j < length rs \<Longrightarrow> rs ! j < length es \<and> ent_shared (es ! (rs ! j)) = 0"
  by (simp add: restarts_ok_def)

lemma restart_below: "block_ok es rs \<Longrightarrow> n < length es \<Longrightarrow> j < length rs \<Longrightarrow> rs ! j < length es"
  using restart_range [of es rs j] by (cases es) (auto simp: block_ok_def)

lemma advance_ok:
  assumes "iter_on cmp es rs i" "block_ok es rs" "restart_before rs i n" "n < length es"
    "bi_current i = entry_offset es n"
  shows "\<exists>ri. advance_restart i = Some (i\<lparr>bi_restart_index := ri\<rparr>) \<and> ri < length rs \<and> rs ! ri \<le> n"
  using assms
proof (induction i rule: advance_restart.induct)
  case (1 i)
  show ?case
  proof (cases "bi_restart_index i + 1 < bi_num_restarts i")
    case False
    with "1.prems" show ?thesis
      by (intro exI [of _ "bi_restart_index i"])
        (subst advance_restart.simps, simp add: restart_before_def)
  next
    case True
    with "1.prems"(1) have j: "bi_restart_index i + 1 < length rs" by (simp add: iter_on_def)
    have get: "get_restart_point i (bi_restart_index i + 1) =
        Some (entry_offset es (rs ! (bi_restart_index i + 1)))"
      by (rule get_restart [OF "1.prems"(1,2) j])
    have less: "rs ! (bi_restart_index i + 1) < length es"
      by (rule restart_below [OF "1.prems"(2,4) j])
    show ?thesis
    proof (cases "entry_offset es (rs ! (bi_restart_index i + 1)) < bi_current i")
      case far: False
      with True get "1.prems" show ?thesis
        by (intro exI [of _ "bi_restart_index i"])
          (subst advance_restart.simps, simp add: restart_before_def)
    next
      case near: True
      with "1.prems"(4,5) less have "rs ! (bi_restart_index i + 1) < n"
        using entry_offset_less_iff [of "rs ! (bi_restart_index i + 1)" es n] by simp
      with j have "restart_before rs (i\<lparr>bi_restart_index := bi_restart_index i + 1\<rparr>) n"
        by (simp add: restart_before_def)
      with "1.IH" [OF True get near] "1.prems" True get near show ?thesis
        by (subst advance_restart.simps) simp
    qed
  qed
qed

text \<open>The bytes an entry is parsed from.\<close>

lemma entry_region:
  assumes "n < length es"
  shows "take (length (entries_bytes es) - entry_offset es n) (drop (entry_offset es n) (block_bytes es rs)) =
     entry_bytes (es ! n) @ entries_bytes (drop (Suc n) es)"
proof -
  have "entries_bytes es = entries_bytes (take n es) @ entry_bytes (es ! n) @ entries_bytes (drop (Suc n) es)"
    using assms id_take_nth_drop [OF assms] by (metis entries_bytes_simps(2,3))
  then show ?thesis by (simp add: block_bytes_def entry_offset_def)
qed

lemma decode_at:
  assumes "block_ok es rs" "n < length es"
  defines "e \<equiv> es ! n"
  defines "q \<equiv> drop (ent_shared e) (ent_key e) @ ent_value e @ entries_bytes (drop (Suc n) es)"
  shows "decode_entry (take (length (entries_bytes es) - entry_offset es n)
       (drop (entry_offset es n) (block_bytes es rs))) =
     Some (of_nat (ent_shared e), of_nat (length (ent_key e) - ent_shared e), of_nat (length (ent_value e)), q)"
    and "unat (of_nat (ent_shared e) :: u32) = ent_shared e"
    and "unat (of_nat (length (ent_key e) - ent_shared e) :: u32) = length (ent_key e) - ent_shared e"
    and "unat (of_nat (length (ent_value e)) :: u32) = length (ent_value e)"
    and "length (entries_bytes es) - length q = entry_offset es n + length (entry_head e)"
    and "entry_offset es n + length (entry_head e) + (length (ent_key e) - ent_shared e) =
           entry_offset es (Suc n) - length (ent_value e)"
    and "entry_offset es n + length (entry_head e) + (length (ent_key e) - ent_shared e) \<le>
           length (block_bytes es rs)"
    and "take (length (ent_key e) - ent_shared e)
           (drop (entry_offset es n + length (entry_head e)) (block_bytes es rs)) =
         drop (ent_shared e) (ent_key e)"
proof -
  have ok: "shares_ok es" and small: "length (block_bytes es rs) < 2 ^ 32"
    using assms(1) by (simp_all add: block_ok_def)
  have sh: "ent_shared e \<le> length (ent_key e)" unfolding e_def by (rule shares_at(1) [OF ok assms(2)])
  have split: "entries_bytes es = entries_bytes (take n es) @ entry_bytes e @ entries_bytes (drop (Suc n) es)"
    using id_take_nth_drop [OF assms(2)] unfolding e_def by (metis entries_bytes_simps(2,3))
  have total: "length (entries_bytes es) = entry_offset es n + length (entry_head e) + length q"
    using arg_cong [OF split, of length] by (simp add: entry_offset_def entry_bytes_def q_def)
  have le: "length (entries_bytes es) \<le> length (block_bytes es rs)" by (simp add: block_bytes_length)
  have key: "length (ent_key e) < 2 ^ 32"
    using key_length_le [OF ok assms(2)] entry_offset_small [OF assms(1), of "Suc n"]
    unfolding e_def by linarith
  have q: "length q < 2 ^ 32" using total le small by linarith
  show "decode_entry (take (length (entries_bytes es) - entry_offset es n)
       (drop (entry_offset es n) (block_bytes es rs))) =
     Some (of_nat (ent_shared e), of_nat (length (ent_key e) - ent_shared e), of_nat (length (ent_value e)), q)"
    unfolding entry_region [OF assms(2)] q_def e_def [symmetric]
    using sh key q unfolding q_def by (rule decode_entry_bytes)
  show "unat (of_nat (ent_shared e) :: u32) = ent_shared e"
    using sh key by (intro unat_of_nat_u32) linarith
  show "unat (of_nat (length (ent_key e) - ent_shared e) :: u32) = length (ent_key e) - ent_shared e"
    using sh key by (intro unat_of_nat_u32) linarith
  show "unat (of_nat (length (ent_value e)) :: u32) = length (ent_value e)"
    using q by (intro unat_of_nat_u32) (simp add: q_def)
  show "length (entries_bytes es) - length q = entry_offset es n + length (entry_head e)"
    using total by simp
  show "entry_offset es n + length (entry_head e) + (length (ent_key e) - ent_shared e) =
      entry_offset es (Suc n) - length (ent_value e)"
    using assms(2) by (simp add: entry_offset_Suc e_def entry_bytes_def)
  show "entry_offset es n + length (entry_head e) + (length (ent_key e) - ent_shared e) \<le>
      length (block_bytes es rs)"
    using total le by (simp add: q_def)
  obtain r where "drop (entry_offset es n) (block_bytes es rs) = entry_bytes e @ r"
    unfolding block_bytes_def e_def using drop_entries [OF assms(2)] by blast
  then have "drop (length (entry_head e) + entry_offset es n) (block_bytes es rs) =
      drop (ent_shared e) (ent_key e) @ ent_value e @ r"
    unfolding drop_drop [symmetric] by (simp add: entry_bytes_def)
  then show "take (length (ent_key e) - ent_shared e)
      (drop (entry_offset es n + length (entry_head e)) (block_bytes es rs)) =
      drop (ent_shared e) (ent_key e)"
    by (simp add: add.commute)
qed

lemma parse_ready:
  assumes "iter_on cmp es rs i" "block_ok es rs" "ready es rs i n"
  shows "\<exists>i'. iter_on cmp es rs i' \<and>
     (if n < length es then parse_next_key i = Some (True, i') \<and> at_entry es rs i' n
      else parse_next_key i = Some (False, i') \<and> \<not> bi_valid i')"
proof -
  have on: "bi_data i = block_bytes es rs" "bi_restarts i = length (entries_bytes es)"
    using assms(1) by (simp_all add: iter_on_def)
  have next_off: "next_entry_offset i = Some (entry_offset es n)"
    using assms(3) u32_small [OF entry_offset_small [OF assms(2), of n]]
    by (auto simp: ready_def next_entry_offset_def)
  show ?thesis
  proof (cases "n < length es")
    case False
    then have "entry_offset es n = length (entries_bytes es)" by (simp add: entry_offset_all)
    with False assms(1) on next_off show ?thesis
      by (simp add: parse_next_key_def Let_def iter_on_def bi_valid_def)
  next
    case True
    let ?e = "es ! n"
    note d = decode_at [OF assms(2) True]
    define q where "q = drop (ent_shared ?e) (ent_key ?e) @ ent_value ?e @ entries_bytes (drop (Suc n) es)"
    note d1 = d(1) [folded q_def] and d5 = d(5) [folded q_def]
    define i2 where "i2 = i\<lparr>bi_current := entry_offset es n, bi_key := ent_key ?e,
       bi_value := Some (entry_offset es (Suc n) - length (ent_value ?e), length (ent_value ?e))\<rparr>"
    have key: "take (ent_shared ?e) (bi_key i) @ drop (ent_shared ?e) (ent_key ?e) = ent_key ?e"
      "\<not> length (bi_key i) < ent_shared ?e"
      using assms(3) True by (auto simp: ready_def)
    have "iter_on cmp es rs i2" "restart_before rs i2 n"
      using assms(1,3) by (simp_all add: i2_def iter_on_def ready_def restart_before_def)
    from advance_ok [OF this(1) assms(2) this(2) True] obtain ri where ri:
      "advance_restart i2 = Some (i2\<lparr>bi_restart_index := ri\<rparr>)" "ri < length rs" "rs ! ri \<le> n"
      by (auto simp: i2_def)
    have cur: "\<not> entry_offset es n \<ge> length (entries_bytes es)"
      using entry_offset_less [of n "length es" es] True by (simp add: entry_offset_all)
    have room: "\<not> length (entries_bytes es) > length (block_bytes es rs)" by (simp add: block_bytes_length)
    have "parse_next_key i = Some (True, i2\<lparr>bi_restart_index := ri\<rparr>)"
      using next_off key cur room d(7) ri(1)
      by (simp add: parse_next_key_def Let_def on d1 d5 d(2-4) d(6) d(8) i2_def)
    moreover have "iter_on cmp es rs (i2\<lparr>bi_restart_index := ri\<rparr>)"
      using assms(1) by (simp add: i2_def iter_on_def)
    moreover have "at_entry es rs (i2\<lparr>bi_restart_index := ri\<rparr>) n"
      using True ri(2,3) by (simp add: at_entry_def i2_def restart_before_def)
    ultimately show ?thesis using True by auto
  qed
qed

subsection \<open>Walking\<close>

lemma seek_restart_ready:
  assumes "iter_on cmp es rs i" "block_ok es rs" "j < length rs"
  shows "\<exists>i'. seek_to_restart_point i j = Some i' \<and> iter_on cmp es rs i' \<and> ready es rs i' (rs ! j)"
proof -
  define i' where "i' = i\<lparr>bi_key := [], bi_restart_index := j,
     bi_value := Some (entry_offset es (rs ! j), 0)\<rparr>"
  have "rs ! j \<le> length es \<and> (rs ! j < length es \<longrightarrow> ent_shared (es ! (rs ! j)) = 0)"
  proof (cases "es = []")
    case True
    with assms(2) have "rs = [0]" by (simp add: block_ok_def restarts_ok_def)
    with assms(3) True show ?thesis by simp
  next
    case False
    with restart_range [of es rs j] assms(2,3) show ?thesis by (auto simp: block_ok_def)
  qed
  then have "ready es rs i' (rs ! j)"
    using assms(3) by (simp add: ready_def i'_def restart_before_def)
  moreover have "seek_to_restart_point i j = Some i'" "iter_on cmp es rs i'"
    using assms(1) get_restart [OF assms] by (simp_all add: seek_to_restart_point_def i'_def iter_on_def)
  ultimately show ?thesis by blast
qed

text \<open>The iterator is at entry \<open>n\<close>, or past the last one.\<close>

definition positioned :: "comparator \<Rightarrow> entry list \<Rightarrow> nat list \<Rightarrow> block_iter \<Rightarrow> nat \<Rightarrow> bool" where
  "positioned cmp es rs i n \<longleftrightarrow> iter_on cmp es rs i \<and>
     (if n < length es then at_entry es rs i n else \<not> bi_valid i)"

lemma parse_positioned:
  assumes "iter_on cmp es rs i" "block_ok es rs" "ready es rs i n"
  shows "\<exists>i'. parse_next_key i = Some (n < length es, i') \<and> positioned cmp es rs i' n"
  using parse_ready [OF assms] by (auto simp: positioned_def split: if_splits)

lemma restart_0: "restarts_ok es rs \<Longrightarrow> 0 < length rs \<and> rs ! 0 = 0"
  by (auto simp: restarts_ok_def hd_conv_nth)

lemma seek_to_first_ok:
  assumes "iter_on cmp es rs i" "block_ok es rs"
  shows "\<exists>i'. bi_seek_to_first i = Some i' \<and> positioned cmp es rs i' 0"
proof -
  have rs: "0 < length rs" "rs ! 0 = 0" using assms(2) restart_0 by (auto simp: block_ok_def)
  from seek_restart_ready [OF assms rs(1)] rs(2) obtain i1 where i1:
    "seek_to_restart_point i 0 = Some i1" "iter_on cmp es rs i1" "ready es rs i1 0" by auto
  from parse_positioned [OF i1(2) assms(2) i1(3)] i1(1) show ?thesis
    by (auto simp: bi_seek_to_first_def)
qed

lemma next_ok:
  assumes "positioned cmp es rs i n" "block_ok es rs" "n < length es"
  shows "\<exists>i'. bi_next i = Some i' \<and> positioned cmp es rs i' (Suc n)"
proof -
  have i: "iter_on cmp es rs i" "at_entry es rs i n" using assms(1,3) by (simp_all add: positioned_def)
  have "shares_ok es" using assms(2) by (simp add: block_ok_def)
  from parse_positioned [OF i(1) assms(2) at_entry_ready [OF this i(2)]] show ?thesis
    using at_entry_valid [OF i] by (auto simp: bi_next_def)
qed

lemma parse_until_ok:
  assumes "iter_on cmp es rs i" "block_ok es rs" "ready es rs i n" "n \<le> m" "m < length es"
  shows "\<exists>i'. parse_until (entry_offset es (Suc m)) i = Some i' \<and> positioned cmp es rs i' m"
  using assms(1,3,4)
proof (induction "m - n" arbitrary: n i)
  case 0
  then have n: "n = m" by simp
  from parse_positioned [OF 0(2) assms(2) 0(3)] obtain i1 where i1:
    "parse_next_key i = Some (True, i1)" "positioned cmp es rs i1 m" using n assms(5) by auto
  then have "next_entry_offset i1 = Some (entry_offset es (Suc m))"
    using assms(5) value_in_entry [OF assms(5)] u32_small [OF entry_offset_small [OF assms(2), of "Suc m"]]
    by (auto simp: positioned_def at_entry_def next_entry_offset_def)
  with i1 show ?case by (subst parse_until.simps) simp
next
  case (Suc k)
  then have n: "n < m" by simp
  from parse_positioned [OF Suc(3) assms(2) Suc(4)] obtain i1 where i1:
    "parse_next_key i = Some (True, i1)" "positioned cmp es rs i1 n" using n assms(5) by auto
  have i1': "iter_on cmp es rs i1" "at_entry es rs i1 n"
    using i1(2) n assms(5) by (simp_all add: positioned_def)
  have ready: "ready es rs i1 (Suc n)"
    using at_entry_ready [OF _ i1'(2)] assms(2) by (simp add: block_ok_def)
  have "next_entry_offset i1 = Some (entry_offset es (Suc n))"
    using i1'(2) value_in_entry [of n es] u32_small [OF entry_offset_small [OF assms(2), of "Suc n"]]
    by (auto simp: at_entry_def next_entry_offset_def)
  moreover have "entry_offset es (Suc n) < entry_offset es (Suc m)"
    using n assms(5) by (intro entry_offset_less) simp_all
  ultimately have "parse_until (entry_offset es (Suc m)) i = parse_until (entry_offset es (Suc m)) i1"
    using i1(1) by (subst parse_until.simps) simp
  with Suc(1) [of "Suc n" i1] Suc(2) i1'(1) ready n show ?case by simp
qed

lemma seek_to_last_ok:
  assumes "iter_on cmp es rs i" "block_ok es rs" "es \<noteq> []"
  shows "\<exists>i'. bi_seek_to_last i = Some i' \<and> positioned cmp es rs i' (length es - 1)"
proof -
  have rs: "length rs - 1 < length rs" "rs ! (length rs - 1) < length es"
    using restart_0 [of es rs] restart_range [of es rs "length rs - 1"] assms(2,3)
    by (simp_all add: block_ok_def)
  from seek_restart_ready [OF assms(1,2) rs(1)] obtain i1 where i1:
    "seek_to_restart_point i (length rs - 1) = Some i1" "iter_on cmp es rs i1"
    "ready es rs i1 (rs ! (length rs - 1))" by auto
  have stop: "bi_restarts i1 = entry_offset es (Suc (length es - 1))"
    using i1(2) assms(3) by (simp add: iter_on_def entry_offset_all)
  from parse_until_ok [OF i1(2) assms(2) i1(3), of "length es - 1"] rs(2) assms(1,3) i1(1) show ?thesis
    by (auto simp: bi_seek_to_last_def stop iter_on_def)
qed

lemma back_ok:
  assumes "iter_on cmp es rs i" "block_ok es rs" "n < length es" "bi_restart_index i < length rs"
  shows "\<exists>ri. if n = 0
     then back_to_restart i (entry_offset es n) =
       Some (False, i\<lparr>bi_current := bi_restarts i, bi_restart_index := bi_num_restarts i\<rparr>)
     else back_to_restart i (entry_offset es n) = Some (True, i\<lparr>bi_restart_index := ri\<rparr>) \<and>
       ri < length rs \<and> rs ! ri < n"
  using assms(1,4)
proof (induction "bi_restart_index i" arbitrary: i)
  case 0
  have rs: "rs ! 0 = 0" using assms(2) restart_0 by (auto simp: block_ok_def)
  have get: "get_restart_point i (bi_restart_index i) = Some 0"
    using get_restart [OF "0.prems"(1) assms(2) "0.prems"(2)] rs 0(1) by simp
  show ?case
  proof (cases "n = 0")
    case True
    with get 0(1) show ?thesis by (subst back_to_restart.simps) simp
  next
    case False
    then have "0 < entry_offset es n" using entry_offset_less [of 0 n es] assms(3) by simp
    with False get rs 0 show ?thesis
      by (intro exI [of _ 0]) (subst back_to_restart.simps, simp)
  qed
next
  case (Suc k)
  define ri where "ri = bi_restart_index i"
  have get: "get_restart_point i ri = Some (entry_offset es (rs ! ri))"
    using get_restart [OF Suc.prems(1) assms(2) Suc.prems(2)] by (simp add: ri_def)
  have less: "rs ! ri < length es"
    unfolding ri_def by (rule restart_below [OF assms(2,3) Suc.prems(2)])
  have iff: "entry_offset es n \<le> entry_offset es (rs ! ri) \<longleftrightarrow> n \<le> rs ! ri"
    using entry_offset_less_iff [of "rs ! ri" es n] less assms(3) by (simp add: not_less [symmetric])
  show ?case
  proof (cases "n \<le> rs ! ri")
    case False
    with get iff Suc.prems show ?thesis
      by (intro exI [of _ ri]) (subst back_to_restart.simps, auto simp: ri_def)
  next
    case True
    let ?i = "i\<lparr>bi_restart_index := bi_restart_index i - 1\<rparr>"
    have eq: "back_to_restart i (entry_offset es n) = back_to_restart ?i (entry_offset es n)"
      using True get iff Suc(2) by (subst back_to_restart.simps) (simp add: ri_def)
    have "k = bi_restart_index ?i" "iter_on cmp es rs ?i" "bi_restart_index ?i < length rs"
      using Suc(2) Suc.prems by simp_all
    from Suc(1) [OF this] show ?thesis unfolding eq by (simp cong: if_cong)
  qed
qed

lemma prev_ok:
  assumes "positioned cmp es rs i n" "block_ok es rs" "n < length es"
  shows "\<exists>i'. bi_prev i = Some i' \<and> positioned cmp es rs i' (if n = 0 then length es else n - 1)"
proof -
  have i: "iter_on cmp es rs i" "at_entry es rs i n" using assms(1,3) by (simp_all add: positioned_def)
  have v: "bi_valid i" by (rule at_entry_valid [OF i])
  have cur: "bi_current i = entry_offset es n" "bi_restart_index i < length rs"
    using i(2) by (simp_all add: at_entry_def restart_before_def)
  from back_ok [OF i(1) assms(2,3) cur(2)] obtain ri where ri: "if n = 0
     then back_to_restart i (entry_offset es n) =
       Some (False, i\<lparr>bi_current := bi_restarts i, bi_restart_index := bi_num_restarts i\<rparr>)
     else back_to_restart i (entry_offset es n) = Some (True, i\<lparr>bi_restart_index := ri\<rparr>) \<and>
       ri < length rs \<and> rs ! ri < n" by blast
  show ?thesis
  proof (cases "n = 0")
    case True
    with ri v cur i(1) show ?thesis
      by (simp add: bi_prev_def Let_def positioned_def iter_on_def bi_valid_def)
  next
    case False
    with ri have b: "back_to_restart i (entry_offset es n) = Some (True, i\<lparr>bi_restart_index := ri\<rparr>)"
      "ri < length rs" "rs ! ri \<le> n - 1" by auto
    from i(1) have "iter_on cmp es rs (i\<lparr>bi_restart_index := ri\<rparr>)" by simp
    from seek_restart_ready [OF this assms(2) b(2)] obtain i1 where i1:
      "seek_to_restart_point (i\<lparr>bi_restart_index := ri\<rparr>) ri = Some i1" "iter_on cmp es rs i1"
      "ready es rs i1 (rs ! ri)" by auto
    from parse_until_ok [OF i1(2) assms(2) i1(3) b(3)] assms(3) False v cur b i1(1) show ?thesis
      by (auto simp: bi_prev_def Let_def)
  qed
qed

end
