(* ===== verification/LdBlockSeek.thy ===== *)
theory LdBlockSeek
  imports LdBlockIter
begin

text \<open>Searching a block, and blocks from the builder.\<close>

definition block_at_first :: "comparator \<Rightarrow> entry list \<Rightarrow> slice \<Rightarrow> nat \<Rightarrow> bool" where
  "block_at_first cmp es target m \<longleftrightarrow> m \<le> length es \<and>
     (\<forall>a < m. \<exists>r. compare cmp (ent_key (es ! a)) target = Some r \<and> r < 0) \<and>
     (m < length es \<longrightarrow> (\<exists>r. compare cmp (ent_key (es ! m)) target = Some r \<and> 0 \<le> r))"

lemma mid_between:
  fixes left right :: u32
  assumes "left < right" "unat right < 2 ^ 30"
  shows "left < (left + right + 1) div 2" "(left + right + 1) div 2 \<le> right"
    and "unat ((left + right + 1) div 2 - 1) = unat ((left + right + 1) div 2) - 1"
proof -
  have l: "unat left < unat right" using assms(1) by (simp add: word_less_nat_alt)
  have "unat (left + right + 1) = unat left + unat right + 1"
    using l assms(2) by (simp add: unat_word_ariths)
  then have m: "unat ((left + right + 1) div 2) = (unat left + unat right + 1) div 2"
    by (simp add: unat_div)
  then show less: "left < (left + right + 1) div 2" "(left + right + 1) div 2 \<le> right"
    using l by (simp_all add: word_less_nat_alt word_le_nat_alt)
  then have "1 \<le> (left + right + 1) div 2"
    using m l by (simp add: word_le_nat_alt)
  then show "unat ((left + right + 1) div 2 - 1) = unat ((left + right + 1) div 2) - 1"
    by (simp add: unat_sub)
qed

context comparator_laws
begin

definition sorted_keys :: "entry list \<Rightarrow> bool" where
  "sorted_keys es \<longleftrightarrow> (\<forall>a < length es. valid (ent_key (es ! a))) \<and>
     (\<forall>b < length es. \<forall>a < b. before (ent_key (es ! a)) (ent_key (es ! b)))"

lemma seek_linear_ok:
  assumes "iter_on cmp es rs i" "block_ok es rs" "ready es rs i n" "sorted_keys es" "valid target"
    "\<forall>a < n. before (ent_key (es ! a)) target"
  shows "\<exists>m i'. seek_linear target i = Some i' \<and> positioned cmp es rs i' m \<and>
     block_at_first cmp es target m"
  using assms(1,3,6)
proof (induction "length es - n" arbitrary: n i)
  case 0
  then have "n = length es" by (simp add: ready_def)
  moreover from parse_positioned [OF 0(2) assms(2) 0(3)] obtain i1 where
    "parse_next_key i = Some (n < length es, i1)" "positioned cmp es rs i1 n" by blast
  ultimately show ?case using 0(4)
    by (subst seek_linear.simps) (auto simp: block_at_first_def before_def)
next
  case (Suc k)
  then have n: "n < length es" by simp
  from parse_positioned [OF Suc(3) assms(2) Suc(4)] obtain i1 where i1:
    "parse_next_key i = Some (True, i1)" "positioned cmp es rs i1 n" using n by auto
  have i1': "iter_on cmp es rs i1" "at_entry es rs i1 n"
    using i1(2) n by (simp_all add: positioned_def)
  have v: "valid (ent_key (es ! n))" using assms(4) n by (simp add: sorted_keys_def)
  from compare_defined [OF v assms(5)] obtain r where r: "compare cmp (ent_key (es ! n)) target = Some r" ..
  have cmp: "compare (bi_comparator i1) (bi_key i1) target = Some r"
    using i1' r by (simp add: iter_on_def at_entry_def)
  show ?case
  proof (cases "r \<ge> 0")
    case True
    with i1 cmp have "seek_linear target i = Some i1" by (subst seek_linear.simps) simp
    moreover have "block_at_first cmp es target n"
      using Suc(5) n r True by (auto simp: block_at_first_def before_def)
    ultimately show ?thesis using i1(2) by blast
  next
    case False
    then have less: "\<forall>a < Suc n. before (ent_key (es ! a)) target"
      using Suc(5) r by (auto simp: less_Suc_eq before_def)
    have "seek_linear target i = seek_linear target i1"
      using i1(1) cmp False by (subst seek_linear.simps) simp
    moreover have "ready es rs i1 (Suc n)"
      using at_entry_ready [OF _ i1'(2)] assms(2) by (simp add: block_ok_def)
    moreover have "k = length es - Suc n" using Suc(2) by simp
    ultimately show ?thesis using Suc(1) [of "Suc n" i1] i1'(1) less by simp
  qed
qed

lemma seek_binary_ok:
  assumes "iter_on cmp es rs i" "block_ok es rs" "sorted_keys es" "valid target"
    "left \<le> right" "unat right < length rs" "es \<noteq> []"
    "unat left = 0 \<or> before (ent_key (es ! (rs ! unat left))) target"
  shows "\<exists>l. seek_binary i target left right = Some (Some l) \<and> l < length rs \<and>
     (l = 0 \<or> before (ent_key (es ! (rs ! l))) target)"
  using assms(5,6,8)
proof (induction "unat right - unat left" arbitrary: left right rule: less_induct)
  case less
  show ?case
  proof (cases "left < right")
    case False
    with less.prems show ?thesis
      by (subst seek_binary.simps) (auto simp: word_less_nat_alt word_le_nat_alt)
  next
    case True
    let ?mid = "(left + right + 1) div 2"
    have "4 * length rs < 2 ^ 32" using assms(2) by (simp add: block_ok_def block_bytes_length)
    then have "unat right < 2 ^ 30" using less.prems(2) by simp
    note mid = mid_between [OF True this]
    have mrs: "unat ?mid < length rs"
      using mid(2) less.prems(2) by (simp add: word_le_nat_alt)
    have m: "rs ! unat ?mid < length es" "ent_shared (es ! (rs ! unat ?mid)) = 0"
      using restart_range [of es rs "unat ?mid"] assms(2,7) mrs by (simp_all add: block_ok_def)
    let ?e = "es ! (rs ! unat ?mid)"
    note d = decode_at [OF assms(2) m(1)]
    define q where "q = drop (ent_shared ?e) (ent_key ?e) @ ent_value ?e @
      entries_bytes (drop (Suc (rs ! unat ?mid)) es)"
    note d1 = d(1) [folded q_def] and d5 = d(5) [folded q_def]
    have v: "valid (ent_key ?e)" using assms(3) m(1) by (simp add: sorted_keys_def)
    from compare_defined [OF v assms(4)] obtain r where r: "compare cmp (ent_key ?e) target = Some r" ..
    have on: "bi_data i = block_bytes es rs" "bi_restarts i = length (entries_bytes es)"
      "bi_comparator i = cmp"
      using assms(1) by (simp_all add: iter_on_def)
    have room: "\<not> length (entries_bytes es) > length (block_bytes es rs)" by (simp add: block_bytes_length)
    have nolong: "\<not> length (block_bytes es rs) < entry_offset es (rs ! unat ?mid) +
        length (entry_head ?e) + length (ent_key ?e)"
      using d(7) m(2) by simp
    have key: "take (length (ent_key ?e)) (drop (entry_offset es (rs ! unat ?mid) + length (entry_head ?e))
        (block_bytes es rs)) = ent_key ?e"
      using d(8) m(2) by simp
    have step: "seek_binary i target left right =
        (if r < 0 then seek_binary i target ?mid right else seek_binary i target left (?mid - 1))"
      using True get_restart [OF assms(1,2) mrs] r room nolong key m(2) d1 d5 d(3)
      by (subst seek_binary.simps) (simp add: Let_def on)
    show ?thesis
    proof (cases "r < 0")
      case neg: True
      then have "before (ent_key ?e) target" using r by (simp add: before_def)
      moreover have "unat right - unat ?mid < unat right - unat left"
        using mid(1,2) True by (simp add: word_less_nat_alt word_le_nat_alt)
      ultimately show ?thesis using less.hyps [of right ?mid] mid(2) less.prems(2) step neg by simp
    next
      case nonneg: False
      have "left \<le> ?mid - 1"
        using mid(1,3) by (simp add: word_le_nat_alt word_less_nat_alt)
      moreover have "unat (?mid - 1) < length rs" using mid(3) mrs by simp
      moreover have "unat (?mid - 1) - unat left < unat right - unat left"
        using mid(1,2) by (simp add: mid(3) word_less_nat_alt word_le_nat_alt)
      ultimately show ?thesis using less.hyps [of "?mid - 1" left] less.prems(3) step nonneg by simp
    qed
  qed
qed

lemma seek_ok:
  assumes "iter_on cmp es rs i" "block_ok es rs" "sorted_keys es" "valid target"
  shows "\<exists>m i'. bi_seek i target = Some i' \<and> positioned cmp es rs i' m \<and> block_at_first cmp es target m"
proof -
  have rs: "0 < length rs" "rs ! 0 = 0" "4 * length rs < 2 ^ 32"
    using assms(2) restart_0 [of es rs] by (auto simp: block_ok_def block_bytes_length)
  have num: "bi_num_restarts i = length rs" using assms(1) by (simp add: iter_on_def)
  have "unat (of_nat (length rs) :: u32) = length rs" using rs(3) by (intro unat_of_nat_u32) simp
  moreover from this have "1 \<le> (of_nat (length rs) :: u32)"
    using rs(1) by (simp only: word_le_nat_alt) (simp add: Suc_le_eq)
  ultimately have last: "unat (of_nat (length rs) - 1 :: u32) = length rs - 1"
    by (simp add: unat_sub)
  have "\<exists>l. seek_binary i target 0 (of_nat (bi_num_restarts i) - 1) = Some (Some l) \<and> l < length rs \<and>
     (\<forall>a < rs ! l. before (ent_key (es ! a)) target)"
  proof (cases "es = []")
    case True
    with assms(2) have "rs = [0]" by (simp add: block_ok_def restarts_ok_def)
    then show ?thesis by (subst seek_binary.simps) (simp add: num)
  next
    case False
    with seek_binary_ok [OF assms, of 0 "of_nat (length rs) - 1"] last rs(1)
    obtain l where l: "seek_binary i target 0 (of_nat (length rs) - 1) = Some (Some l)" "l < length rs"
      "l = 0 \<or> before (ent_key (es ! (rs ! l))) target" by auto
    have "before (ent_key (es ! a)) target" if a: "a < rs ! l" for a
    proof -
      from a l(3) rs(2) have b: "before (ent_key (es ! (rs ! l))) target" by auto
      have lt: "rs ! l < length es"
        using restart_range [of es rs l] assms(2) l(2) False by (simp add: block_ok_def)
      then have "before (ent_key (es ! a)) (ent_key (es ! (rs ! l)))"
        "valid (ent_key (es ! a))" "valid (ent_key (es ! (rs ! l)))"
        using assms(3) a by (simp_all add: sorted_keys_def)
      with b assms(4) show ?thesis by (blast intro: before_trans)
    qed
    with l num show ?thesis by auto
  qed
  then obtain l where l: "seek_binary i target 0 (of_nat (bi_num_restarts i) - 1) = Some (Some l)"
    "l < length rs" "\<forall>a < rs ! l. before (ent_key (es ! a)) target" by blast
  from seek_restart_ready [OF assms(1,2) l(2)] obtain i1 where i1:
    "seek_to_restart_point i l = Some i1" "iter_on cmp es rs i1" "ready es rs i1 (rs ! l)" by blast
  from seek_linear_ok [OF i1(2) assms(2) i1(3) assms(3,4) l(3)] show ?thesis
    by (auto simp: bi_seek_def l(1) i1(1))
qed

end

subsection \<open>The builder\<close>

primrec bb_add_all :: "block_builder \<Rightarrow> (slice \<times> slice) list \<Rightarrow> block_builder option" where
  "bb_add_all b [] = Some b"
| "bb_add_all b (kv # kvs) = do { b \<leftarrow> bb_add b (fst kv) (snd kv); bb_add_all b kvs }"

text \<open>The builder's state after the entries \<open>es\<close>.\<close>

definition builder_at :: "comparator \<Rightarrow> entry list \<Rightarrow> nat list \<Rightarrow> block_builder \<Rightarrow> bool" where
  "builder_at cmp es rs b \<longleftrightarrow>
     bb_comparator b = cmp \<and> 1 \<le> bb_restart_interval b \<and> bb_buffer b = entries_bytes es \<and>
     bb_restarts b = map (\<lambda>n. of_nat (entry_offset es n)) rs \<and> \<not> bb_finished b \<and>
     bb_last_key b = (if es = [] then [] else ent_key (last es)) \<and> (es = [] \<longrightarrow> bb_counter b = 0) \<and>
     shares_ok es \<and> restarts_ok es rs"

lemma entry_offset_append: "n \<le> length es \<Longrightarrow> entry_offset (es @ es') n = entry_offset es n"
  by (simp add: entry_offset_def)

lemma finish_bytes:
  "builder_at cmp es rs b \<Longrightarrow> fst (bb_finish b) = block_bytes es rs"
proof -
  have "fold (\<lambda>r buf. put_fixed32 buf r) ws buf = buf @ concat (map encode_fixed32 ws)" for ws buf
    by (induction ws arbitrary: buf) (simp_all add: put_fixed32_def)
  then show "builder_at cmp es rs b \<Longrightarrow> ?thesis"
    by (simp add: builder_at_def bb_finish_def Let_def block_bytes_def put_fixed32_def comp_def)
qed

lemma shares_snoc:
  assumes "shares_ok es" "s \<le> length k" "es = [] \<Longrightarrow> s = 0"
    "es \<noteq> [] \<Longrightarrow> s \<le> length (ent_key (last es)) \<and> take s k = take s (ent_key (last es))"
  shows "shares_ok (es @ [(s, k, v)])"
proof -
  have "es ! (length es - 1) = last es" if "es \<noteq> []" using that by (simp add: last_conv_nth)
  with assms show ?thesis
    by (auto simp: shares_ok_def nth_append less_Suc_eq split: if_splits)
qed

lemma restarts_snoc:
  assumes "restarts_ok es rs"
  shows "ent_shared e = 0 \<Longrightarrow> es \<noteq> [] \<Longrightarrow> restarts_ok (es @ [e]) (rs @ [length es])"
    and "es \<noteq> [] \<or> ent_shared e = 0 \<Longrightarrow> restarts_ok (es @ [e]) rs"
  using assms by (auto simp: restarts_ok_def nth_append sorted_wrt_append)

lemma bb_add_ok:
  assumes "builder_at cmp es rs b" "bb_add b k v = Some b'"
  shows "\<exists>s rs'. builder_at cmp (es @ [(s, k, v)]) rs' b' \<and>
     (es \<noteq> [] \<longrightarrow> (\<exists>r. compare cmp k (ent_key (last es)) = Some r \<and> 0 < r))"
proof -
  have at: "bb_comparator b = cmp" "1 \<le> bb_restart_interval b" "bb_buffer b = entries_bytes es"
    "bb_restarts b = map (\<lambda>n. of_nat (entry_offset es n)) rs" "\<not> bb_finished b"
    "bb_last_key b = (if es = [] then [] else ent_key (last es))" "es = [] \<Longrightarrow> bb_counter b = 0"
    "shares_ok es" "restarts_ok es rs"
    using assms(1) by (simp_all add: builder_at_def)
  have empty: "bb_buffer b = [] \<longleftrightarrow> es = []"
  proof (cases es)
    case (Cons e es')
    then show ?thesis using entry_bytes_pos [of e] at(3) by auto
  qed (simp add: at(3))
  define last_key where "last_key = bb_last_key b"
  define m where "m = min (length last_key) (length k)"
  define s where "s = (if bb_counter b < bb_restart_interval b
    then common_prefix_loop last_key k m 0 else 0)"
  define rs' where "rs' = (if bb_counter b < bb_restart_interval b then rs else rs @ [length es])"
  have cp: "common_prefix_loop last_key k m 0 \<le> m"
    "take (common_prefix_loop last_key k m 0) last_key = take (common_prefix_loop last_key k m 0) k"
    using common_prefix_loop_spec [of 0 m last_key k] by (simp_all add: m_def Let_def)
  have s: "s \<le> length last_key" "s \<le> length k" "take s last_key = take s k"
    using cp by (simp_all add: s_def m_def)
  have off: "length (entries_bytes es) = entry_offset es (length es)" by (simp add: entry_offset_all)
  define b1 where "b1 = (if bb_counter b < bb_restart_interval b then b
    else b\<lparr>bb_restarts := bb_restarts b @ [of_nat (length (bb_buffer b))], bb_counter := 0\<rparr>)"
  have key: "take s last_key @ take (length k - s) (drop s k) = k"
    using s by simp
  have buf: "(put_varint32 (put_varint32 (put_varint32 (bb_buffer b) (of_nat s)) (of_nat (length k - s)))
      (of_nat (length v)) @ drop s k) @ v = entries_bytes (es @ [(s, k, v)])"
    by (simp add: put_varint32_def at(3) entry_bytes_def entry_head_def)
  have parts: "(if bb_counter b < bb_restart_interval b
      then (common_prefix_loop (bb_last_key b) k (min (length (bb_last_key b)) (length k)) 0, b)
      else (0, b\<lparr>bb_restarts := bb_restarts b @ [of_nat (length (bb_buffer b))], bb_counter := 0\<rparr>)) = (s, b1)"
    by (simp add: s_def b1_def m_def last_key_def)
  have b1: "bb_buffer b1 = bb_buffer b" "bb_last_key b1 = last_key"
    by (simp_all add: b1_def last_key_def)
  from assms(2) obtain ok where ok: "(if bb_buffer b = [] then Some True
      else map_option (\<lambda>r. r > 0) (compare (bb_comparator b) k (bb_last_key b))) = Some ok"
    by (auto simp: bb_add_def bind_eq_Some_conv split: if_splits)
  with assms(2) have "ok" and b': "b' = b1\<lparr>bb_buffer := entries_bytes (es @ [(s, k, v)]), bb_last_key := k,
      bb_counter := bb_counter b1 + 1\<rparr>"
    using key buf
    by (simp_all add: bb_add_def parts Let_def b1 del: append_assoc split: if_splits)
  from ok \<open>ok\<close> have "es \<noteq> [] \<longrightarrow> (\<exists>r. compare cmp k (ent_key (last es)) = Some r \<and> 0 < r)"
    using at(1,6) empty by (auto split: if_splits)
  moreover have "shares_ok (es @ [(s, k, v)])"
    using at(6,8) s by (intro shares_snoc) (auto simp: last_key_def)
  moreover have "restarts_ok (es @ [(s, k, v)]) rs'"
  proof (cases "bb_counter b < bb_restart_interval b")
    case True
    have "es \<noteq> [] \<or> s = 0" using s(1) at(6) by (auto simp: last_key_def)
    with True restarts_snoc(2) [OF at(9), of "(s, k, v)"] show ?thesis by (simp add: rs'_def)
  next
    case False
    then have "es \<noteq> []" "s = 0" using at(2,7) by (auto simp: s_def)
    with False restarts_snoc(1) [OF at(9), of "(s, k, v)"] show ?thesis by (simp add: rs'_def)
  qed
  moreover have "bb_restarts b1 = map (\<lambda>n. of_nat (entry_offset (es @ [(s, k, v)]) n)) rs'"
  proof -
    have "n \<le> length es" if "n \<in> set rs" for n
      using at(9) that by (cases "es = []") (auto simp: restarts_ok_def intro: less_imp_le)
    then have "map (\<lambda>n. of_nat (entry_offset (es @ [(s, k, v)]) n)) rs =
        map (\<lambda>n. of_nat (entry_offset es n) :: u32) rs"
      by (simp add: entry_offset_append)
    then show ?thesis
      by (simp add: b1_def rs'_def at(3,4) off entry_offset_append)
  qed
  ultimately show ?thesis
    using at(1,2,5) unfolding b'
    by (intro exI [of _ s] exI [of _ rs']) (auto simp: builder_at_def b1_def)
qed

lemma block_builder_at:
  "block_builder cmp n = Some b \<Longrightarrow> builder_at cmp [] [0] b"
  by (auto simp: block_builder_def builder_at_def shares_ok_def restarts_ok_def split: if_splits)

text \<open>The entries without their sharing.\<close>

definition key_values :: "entry list \<Rightarrow> (slice \<times> slice) list" where
  "key_values es = map snd es"

context comparator_laws
begin

lemma sorted_snoc:
  assumes "sorted_keys es" "valid k" "es \<noteq> [] \<longrightarrow> before (ent_key (last es)) k"
  shows "sorted_keys (es @ [(s, k, v)])"
proof -
  have "before (ent_key (es ! a)) k" if "a < length es" for a
  proof (cases "a = length es - 1")
    case True
    with that assms(3) show ?thesis by (auto simp: last_conv_nth)
  next
    case False
    from that have "es \<noteq> []" by auto
    then have lst: "length es - 1 < length es" "last es = es ! (length es - 1)"
      by (simp_all add: last_conv_nth)
    from False that have "a < length es - 1" by simp
    with assms(1) lst have "before (ent_key (es ! a)) (ent_key (last es))"
      "valid (ent_key (last es))"
      by (simp_all add: sorted_keys_def)
    moreover have "valid (ent_key (es ! a))" using assms(1) that by (simp add: sorted_keys_def)
    moreover have "before (ent_key (last es)) k" using assms(3) \<open>es \<noteq> []\<close> by blast
    ultimately show ?thesis using assms(2) by (blast intro: before_trans)
  qed
  with assms(1,2) show ?thesis
    by (auto simp: sorted_keys_def nth_append less_Suc_eq)
qed

lemma bb_add_all_ok:
  assumes "builder_at cmp es rs b" "sorted_keys es" "bb_add_all b kvs = Some b'"
    "\<forall>kv \<in> set kvs. valid (fst kv)"
  shows "\<exists>es' rs'. builder_at cmp (es @ es') rs' b' \<and> sorted_keys (es @ es') \<and> key_values es' = kvs"
  using assms
proof (induction kvs arbitrary: es rs b)
  case Nil
  then show ?case by (intro exI [of _ "[]"] exI [of _ rs]) (simp add: key_values_def)
next
  case (Cons kv kvs)
  from Cons.prems(3) obtain b1 where b1: "bb_add b (fst kv) (snd kv) = Some b1" "bb_add_all b1 kvs = Some b'"
    by (auto simp: bind_eq_Some_conv)
  from bb_add_ok [OF Cons.prems(1) b1(1)] obtain s rs1 where at:
    "builder_at cmp (es @ [(s, fst kv, snd kv)]) rs1 b1"
    "es \<noteq> [] \<longrightarrow> (\<exists>r. compare cmp (fst kv) (ent_key (last es)) = Some r \<and> 0 < r)" by blast
  have v: "valid (fst kv)" using Cons.prems(4) by simp
  have "es \<noteq> [] \<longrightarrow> before (ent_key (last es)) (fst kv)"
    using at(2) compare_pos [OF v, of "ent_key (last es)"] Cons.prems(2)
    by (auto simp: sorted_keys_def last_conv_nth)
  from Cons.IH [OF at(1) sorted_snoc [OF Cons.prems(2) v this] b1(2)] Cons.prems(4)
  obtain es' rs' where "builder_at cmp ((es @ [(s, fst kv, snd kv)]) @ es') rs' b'"
    "sorted_keys ((es @ [(s, fst kv, snd kv)]) @ es')" "key_values es' = kvs" by auto
  then show ?case
    by (intro exI [of _ "(s, fst kv, snd kv) # es'"] exI [of _ rs']) (simp add: key_values_def)
qed

end

subsection \<open>Opening a block\<close>

lemma open_block:
  assumes "block_ok es rs"
  shows "\<exists>blk i. make_block (block_bytes es rs) = Some blk \<and>
     new_iterator blk cmp = Some (BlockIterator i) \<and> iter_on cmp es rs i \<and> \<not> bi_valid i"
proof -
  let ?data = "block_bytes es rs"
  have len: "length ?data = length (entries_bytes es) + 4 * length rs + 4" by (rule block_bytes_length)
  have small: "length ?data < 2 ^ 32" "0 < length rs"
    using assms restart_0 [of es rs] by (auto simp: block_ok_def)
  have "drop (length ?data - 4) ?data = encode_fixed32 (of_nat (length rs))"
  proof -
    define x where "x = entries_bytes es @ concat (map (\<lambda>n. encode_fixed32 (of_nat (entry_offset es n))) rs)"
    have "?data = x @ encode_fixed32 (of_nat (length rs))" by (simp add: block_bytes_def x_def)
    then show ?thesis by simp
  qed
  moreover have "unat (of_nat (length rs) :: u32) = length rs"
    using len small by (intro unat_of_nat_u32) simp
  ultimately have num: "num_restarts ?data (length ?data) = Some (length rs)"
    using len by (simp add: num_restarts_def)
  have "u32_of (1 + length rs) = 1 + length rs" "u32_of (length (entries_bytes es)) = length (entries_bytes es)"
    using len small by (simp_all add: u32_of_def)
  then have mk: "make_block ?data = Some \<lparr>blk_data = ?data, blk_size = length ?data,
      blk_restart_offset = length (entries_bytes es)\<rparr>"
    using num len by (simp add: make_block_def Let_def)
  with num small len show ?thesis
    by (simp add: new_iterator_def block_iter_def iter_on_def bi_valid_def)
qed

end
