(* ===== verification/LdBlockWalk.thy ===== *)
theory LdBlockWalk
  imports LdBlockSeek
begin

text \<open>A block is read from either end or from a key on: the entries that were added come back.\<close>

text \<open>Up to \<open>n\<close> entries, from where the iterator is, moving with \<open>step\<close>.\<close>

primrec walk ::
    "(block_iter \<Rightarrow> block_iter option) \<Rightarrow> nat \<Rightarrow> block_iter \<Rightarrow> (slice \<times> slice) list option" where
  "walk step 0 i = (if bi_valid i then None else Some [])"
| "walk step (Suc n) i =
     (if \<not> bi_valid i then Some []
      else
        do {
          k \<leftarrow> bi_get_key i;
          v \<leftarrow> bi_get_value i;
          i \<leftarrow> step i;
          kvs \<leftarrow> walk step n i;
          Some ((k, v) # kvs)
        })"

lemma positioned_valid: "positioned cmp es rs i n \<Longrightarrow> bi_valid i \<longleftrightarrow> n < length es"
  using at_entry_valid by (auto simp: positioned_def split: if_splits)

lemma key_values_nth:
  "n < length es \<Longrightarrow> key_values es ! n = (ent_key (es ! n), ent_value (es ! n))"
  by (simp add: key_values_def)

lemma length_key_values [simp]: "length (key_values es) = length es"
  by (simp add: key_values_def)

lemma positioned_entry:
  assumes "positioned cmp es rs i n" "n < length es"
  shows "bi_get_key i = Some (ent_key (es ! n))" "bi_get_value i = Some (ent_value (es ! n))"
  using at_entry_value [of cmp es rs i n] assms by (simp_all add: positioned_def)

lemma walk_next:
  assumes "positioned cmp es rs i n" "block_ok es rs" "n \<le> length es" "length es - n \<le> k"
  shows "walk bi_next k i = Some (drop n (key_values es))"
  using assms(1,3,4)
proof (induction k arbitrary: i n)
  case 0
  then show ?case using positioned_valid by auto
next
  case (Suc k)
  show ?case
  proof (cases "n < length es")
    case True
    from next_ok [OF Suc.prems(1) assms(2) True] obtain j where
      j: "bi_next i = Some j" "positioned cmp es rs j (Suc n)" by blast
    from Suc.IH [OF j(2)] True Suc.prems(3)
    have "walk bi_next k j = Some (drop (Suc n) (key_values es))" by simp
    with j(1) True positioned_valid [OF Suc.prems(1)] positioned_entry [OF Suc.prems(1) True]
    show ?thesis
      using Cons_nth_drop_Suc [of n "key_values es"] by (simp add: key_values_nth)
  next
    case False
    then show ?thesis using positioned_valid [OF Suc.prems(1)] by simp
  qed
qed

lemma walk_end: "\<not> bi_valid i \<Longrightarrow> walk step k i = Some []"
  by (cases k) simp_all

lemma walk_prev:
  assumes "positioned cmp es rs i n" "block_ok es rs" "n < length es" "n < k"
  shows "walk bi_prev k i = Some (rev (take (Suc n) (key_values es)))"
  using assms(1,3,4)
proof (induction k arbitrary: i n)
  case (Suc k)
  from prev_ok [OF Suc.prems(1) assms(2) Suc.prems(2)] obtain j where
    j: "bi_prev i = Some j" "positioned cmp es rs j (if n = 0 then length es else n - 1)" by blast
  have "walk bi_prev k j = Some (rev (take n (key_values es)))"
  proof (cases n)
    case 0
    then show ?thesis using positioned_valid [OF j(2)] by (simp add: walk_end)
  next
    case (Suc m)
    with Suc.IH [of j m] Suc.prems j(2) show ?thesis by simp
  qed
  with j(1) Suc.prems(2) positioned_valid [OF Suc.prems(1)] positioned_entry [OF Suc.prems(1,2)]
  show ?case by (simp add: take_Suc_conv_app_nth key_values_nth)
qed simp

lemma key_values_append [simp]: "key_values (es @ es') = key_values es @ key_values es'"
  by (simp add: key_values_def)

text \<open>What is before \<open>target\<close> is left out by \<open>Seek\<close>.\<close>

definition key_before :: "comparator \<Rightarrow> slice \<Rightarrow> slice \<times> slice \<Rightarrow> bool" where
  "key_before cmp target kv \<longleftrightarrow> (case compare cmp (fst kv) target of None \<Rightarrow> False | Some r \<Rightarrow> r < 0)"

lemma drop_at_first:
  assumes "block_at_first cmp es target m"
  shows "drop m (key_values es) = dropWhile (key_before cmp target) (key_values es)"
proof -
  have m: "m \<le> length es" and less: "\<And>a. a < m \<Longrightarrow> key_before cmp target (key_values es ! a)"
    and geq: "m < length es \<Longrightarrow> \<not> key_before cmp target (key_values es ! m)"
    using assms by (force simp: block_at_first_def key_before_def key_values_nth)+
  have "key_before cmp target kv" if "kv \<in> set (take m (key_values es))" for kv
  proof -
    from that obtain a where "a < m" "kv = key_values es ! a"
      unfolding in_set_conv_nth by auto
    with less show ?thesis by simp
  qed
  then have "dropWhile (key_before cmp target) (take m (key_values es) @ drop m (key_values es)) =
      dropWhile (key_before cmp target) (drop m (key_values es))"
    by (rule dropWhile_append2)
  also have "\<dots> = drop m (key_values es)"
  proof (cases "m < length es")
    case True
    then show ?thesis using geq Cons_nth_drop_Suc [of m "key_values es"]
      by (metis dropWhile.simps(2) length_key_values)
  qed simp
  finally show ?thesis by simp
qed

context comparator_laws
begin

lemma block_written_read:
  assumes "block_builder cmp interval = Some b0" "bb_add_all b0 kvs = Some b"
    "\<forall>kv \<in> set kvs. valid (fst kv)" "length (fst (bb_finish b)) < 2 ^ 32"
  shows "\<exists>blk i. make_block (fst (bb_finish b)) = Some blk \<and>
     new_iterator blk cmp = Some (BlockIterator i) \<and>
     (\<exists>j. bi_seek_to_first i = Some j \<and> walk bi_next (length kvs) j = Some kvs) \<and>
     (kvs \<noteq> [] \<longrightarrow> (\<exists>j. bi_seek_to_last i = Some j \<and> walk bi_prev (length kvs) j = Some (rev kvs))) \<and>
     (\<forall>target. valid target \<longrightarrow> (\<exists>j. bi_seek i target = Some j \<and>
        walk bi_next (length kvs) j = Some (dropWhile (key_before cmp target) kvs)))"
proof -
  have "sorted_keys []" by (simp add: sorted_keys_def)
  from bb_add_all_ok [OF block_builder_at [OF assms(1)] this assms(2,3)] obtain es rs where
    es: "builder_at cmp es rs b" "sorted_keys es" "key_values es = kvs" by auto
  have len: "length kvs = length es" using es(3) by auto
  have bytes: "fst (bb_finish b) = block_bytes es rs" by (rule finish_bytes [OF es(1)])
  with es(1) assms(4) have ok: "block_ok es rs" by (simp add: builder_at_def block_ok_def)
  from open_block [OF ok, of cmp] obtain blk i where i: "make_block (block_bytes es rs) = Some blk"
    "new_iterator blk cmp = Some (BlockIterator i)" "iter_on cmp es rs i" by blast
  have "\<exists>j. bi_seek_to_first i = Some j \<and> walk bi_next (length kvs) j = Some kvs"
    using seek_to_first_ok [OF i(3) ok] walk_next [OF _ ok, of cmp _ 0 "length kvs"] es(3) len by auto
  moreover have "\<exists>j. bi_seek_to_last i = Some j \<and> walk bi_prev (length kvs) j = Some (rev kvs)"
    if "kvs \<noteq> []"
  proof -
    have ne: "es \<noteq> []" using that es(3) by (auto simp: key_values_def)
    from seek_to_last_ok [OF i(3) ok this] obtain j where
      j: "bi_seek_to_last i = Some j" "positioned cmp es rs j (length es - 1)" by blast
    from walk_prev [OF j(2) ok, of "length kvs"] ne have
      "walk bi_prev (length kvs) j = Some (rev (take (Suc (length es - 1)) kvs))"
      using len es(3) by simp
    with j(1) len ne show ?thesis by simp
  qed
  moreover have "\<exists>j. bi_seek i target = Some j \<and>
      walk bi_next (length kvs) j = Some (dropWhile (key_before cmp target) kvs)" if "valid target" for target
  proof -
    from seek_ok [OF i(3) ok es(2) that] obtain m j where
      j: "bi_seek i target = Some j" "positioned cmp es rs j m" "block_at_first cmp es target m" by blast
    then have "m \<le> length es" by (simp add: block_at_first_def)
    from walk_next [OF j(2) ok this, of "length kvs"] j(1) drop_at_first [OF j(3)] len es(3)
    show ?thesis by simp
  qed
  ultimately show ?thesis using i bytes by auto
qed

end

end
