(* ===== verification/LdStoreClaims.thy ===== *)
theory LdStoreClaims
  imports LdKeyClaims LdLogSafe LdBatch LdBlockWalk
begin

text \<open>
  The properties of what leveldb stores: logs, write batches and table blocks, from writing to
  reading back.
\<close>

subsection \<open>The log\<close>

text \<open>C33: A log survives a crash at any point.  Records written one after the other to a file with
  room for them all succeed; and from any initial part of what was written, the reader returns the
  records that are whole in it, in order and byte for byte, then \<open>false\<close>, and reports no
  corruption.  Writer and reader may run with different checksum code.\<close>

theorem log_survives_truncation:
  assumes "intrinsics_ok port" "intrinsics_ok port'" "po_data f = []" "po_flush_error f = None"
    "length (fst (log_bytes 0 ds)) \<le> po_room f"
  shows "\<exists>w. add_records (crc_extend port tw pw) posix_writable_file
         (log_writer (crc_extend port tw pw) f) ds = Some (StatusOK, w) \<and>
     (\<forall>m name reporter check. \<exists>k r.
        read_records \<lparr>lc_crc = crc_extend port' tr pr, lc_file = posix_sequential_file,
            lc_reporter = reporter, lc_checksum = check, lc_initial_offset = 0\<rparr> (Suc (length ds))
          (log_reader \<lparr>lc_crc = crc_extend port' tr pr, lc_file = posix_sequential_file,
              lc_reporter = reporter, lc_checksum = check, lc_initial_offset = 0\<rparr>
            \<lparr>pi_name = name, pi_ahead = take m (po_data (lw_dest w)), pi_error = None,
             pi_seek_error = None\<rparr>) = Some (take k ds, r) \<and>
        lr_reports r = [] \<and>
        (\<forall>j \<le> length ds. j \<le> k \<longleftrightarrow> length (fst (log_bytes 0 (take j ds))) \<le> m))"
proof -
  have crc: "crc_extend port tw pw = crc32c" "crc_extend port' tr pr = crc32c"
    using assms(1,2) by (simp_all add: fun_eq_iff crc_extend_eq)
  define w0 where "w0 = log_writer crc32c f"
  have "writer_ok w0" "lw_block_offset w0 = 0" "lw_dest w0 = f"
    by (simp_all add: w0_def log_writer_def writer_ok_def)
  with posix_out.add_records_ok [of w0 ds 0] assms(3-5)
  obtain w where w: "add_records crc32c posix_writable_file w0 ds = Some (StatusOK, w)"
    "po_data (lw_dest w) = fst (log_bytes 0 ds)"
    by (auto simp: posix_out_room_def)
  have "\<exists>k r. read_records cfg (Suc (length ds)) (log_reader cfg \<lparr>pi_name = name,
        pi_ahead = take m (po_data (lw_dest w)), pi_error = None, pi_seek_error = None\<rparr>) =
      Some (take k ds, r) \<and> lr_reports r = [] \<and>
      (\<forall>j \<le> length ds. j \<le> k \<longleftrightarrow> length (fst (log_bytes 0 (take j ds))) \<le> m)"
    if "posix_in.plain_config cfg" for cfg :: "posix_in log_reader_config" and m name
  proof -
    define f' where "f' = \<lparr>pi_name = name, pi_ahead = take m (po_data (lw_dest w)), pi_error = None,
      pi_seek_error = None\<rparr>"
    have "posix_in_good f'" by (simp add: f'_def posix_in_good_def)
    from posix_in.fresh_reader [OF this that]
    have "posix_in.reader_at kBlockSize (take m (fst (log_bytes kBlockSize ds))) (log_reader cfg f')"
      using w(2) log_start [of ds] by (cases "ds = []") (simp_all add: f'_def)
    from posix_in.read_records_ok [OF this that] obtain r where
      "read_records cfg (Suc (length ds)) (log_reader cfg f') =
         Some (take (whole_records 0 m ds) ds, r)" "lr_reports r = []"
      by (auto simp: whole_start log_reader_def)
    moreover have "j \<le> length ds \<Longrightarrow> j \<le> whole_records 0 m ds \<longleftrightarrow>
        length (fst (log_bytes 0 (take j ds))) \<le> m" for j
      by (rule whole_records_iff)
    ultimately show ?thesis unfolding f'_def by blast
  qed
  moreover have "posix_in.plain_config \<lparr>lc_crc = crc32c, lc_file = posix_sequential_file,
      lc_reporter = a, lc_checksum = b, lc_initial_offset = 0\<rparr>" for a b
    by (simp add: posix_in.plain_config_def)
  ultimately show ?thesis using w(1) unfolding crc w0_def by blast
qed

theorem log_survives_truncation_witness:
  "\<exists>w. add_records (crc_extend reference_port 0 3) posix_writable_file
       (log_writer (crc_extend reference_port 0 3)
         \<lparr>po_name = [], po_data = [], po_room = 100, po_write_error = [], po_flush_error = None\<rparr>)
       [[1, 2, 3], []] = Some (StatusOK, w)"
proof -
  let ?f = "\<lparr>po_name = [], po_data = [], po_room = 100, po_write_error = [], po_flush_error = None\<rparr>"
  have "length (fst (log_bytes 0 [[1, 2, 3], []])) \<le> po_room ?f"
    by (simp add: record_bytes_last frag_len_def frag_end_def frag_bytes_def block_defs)
  from log_survives_truncation [OF reference_port_ok reference_port_ok _ _ this, of 0 3]
  show ?thesis by (simp del: add_records.simps) blast
qed

text \<open>C34: The reader takes a record whose type byte is 5 for the end of the file, because \<open>kEof\<close>
  has that number: even with a correct checksum it returns \<open>false\<close>, reports nothing, and what
  follows in the file is lost.\<close>

theorem type_five_is_eof:
  assumes "intrinsics_ok port" "length d \<le> kBlockSize - kHeaderSize"
    "pi_ahead f = physical 5 d @ rest" "pi_error f = None" "pi_seek_error f = None"
    "cfg = \<lparr>lc_crc = crc_extend port tr pr, lc_file = posix_sequential_file, lc_reporter = reporter,
       lc_checksum = check, lc_initial_offset = 0\<rparr>"
  shows "\<exists>r. read_record cfg (log_reader cfg f) = Some (None, r) \<and> lr_reports r = []"
proof -
  have crc: "crc_extend port tr pr = crc32c" using assms(1) by (simp add: fun_eq_iff crc_extend_eq)
  have cfg: "posix_in.plain_config cfg" "lc_crc cfg = crc32c" "lc_initial_offset cfg = 0"
    "lc_file cfg = posix_sequential_file"
    by (simp_all add: assms(6) crc posix_in.plain_config_def)
  have good: "posix_in_good f" using assms(4,5) by (simp add: posix_in_good_def)
  from posix_in.fresh_reader [OF good cfg(1)]
  have at: "posix_in.reader_at kBlockSize (physical 5 d @ rest) (log_reader cfg f)"
    by (simp add: assms(3))
  have pad: "padding kBlockSize = []" "header_offset kBlockSize = 0" by (simp_all add: block_defs)
  from posix_in.read_physical_cases [OF at cfg(4)] obtain r1 where r1:
    "read_physical_record cfg (log_reader cfg f) = parse_physical_record cfg r1"
    "posix_in.reader_at 0 (physical 5 d @ rest) r1" "lr_reports r1 = []"
    by (auto simp: pad log_reader_def)
  have buf: "lr_buffer r1 = take kBlockSize (physical 5 d @ rest)"
    using r1(2) by (auto simp: posix_in.reader_at_def split: if_splits)
  have "parse_physical_record cfg r1 =
      (5, Some d, r1\<lparr>lr_buffer := drop (kHeaderSize + length d) (lr_buffer r1)\<rparr>)"
    using parse_physical [OF buf _ _ _ _ cfg(2,3)] assms(2)
    by (simp add: kHeaderSize_def kBlockSize_def kZeroType_def)
  then have "\<exists>v r. scan_step cfg v0 (log_reader cfg f) = ScanStop v r \<and> lr_reports r = []" for v0
    using r1 by (simp add: scan_step_def Let_def record_type_defs)
  then obtain v r where "scan_step cfg \<lparr>ls_scratch = [], ls_fragment = [], ls_in_fragmented = False,
      ls_prospective = 0\<rparr> (log_reader cfg f) = ScanStop v r" "lr_reports r = []" by blast
  then show ?thesis
    unfolding posix_in.read_record_plain [OF cfg(1)]
    by (intro exI [of _ r]) (subst scan_loop.simps, simp)
qed

theorem type_five_is_eof_witness:
  "\<exists>f r. pi_ahead f = physical 5 [1, 2] @ physical 1 [3] \<and>
     read_record \<lparr>lc_crc = crc_extend reference_port 0 0, lc_file = posix_sequential_file,
         lc_reporter = True, lc_checksum = True, lc_initial_offset = 0\<rparr>
       (log_reader \<lparr>lc_crc = crc_extend reference_port 0 0, lc_file = posix_sequential_file,
         lc_reporter = True, lc_checksum = True, lc_initial_offset = 0\<rparr> f) = Some (None, r) \<and>
     lr_reports r = []"
proof -
  let ?f = "\<lparr>pi_name = [], pi_ahead = physical 5 [1, 2] @ physical 1 [3], pi_error = None,
    pi_seek_error = None\<rparr>"
  from type_five_is_eof [OF reference_port_ok _ _ _ _ refl, of "[1, 2]" ?f "physical 1 [3]" 0 0 True True]
  show ?thesis by (intro exI [of _ ?f]) (simp add: block_defs)
qed

text \<open>C35: The reader is safe on any file.  Whatever the bytes are, and if it starts at offset 0 or
  has an empty buffer, \<open>ReadRecord\<close> returns; and with checksums on, a record it returns is the data of physical records that are in the unread part of
  the file in this order: one full one, or a first one, any number of middle ones and a last one.
  Each of them is there byte for byte as the writer writes it, with its length and checksum, and
  the reader goes on behind the last.\<close>

theorem read_record_intact:
  assumes "intrinsics_ok port" "initial = 0 \<or> lr_buffer r = []"
    "cfg = \<lparr>lc_crc = crc_extend port tr pr, lc_file = posix_sequential_file, lc_reporter = reporter,
       lc_checksum = check, lc_initial_offset = initial\<rparr>"
  shows "\<exists>result r'. read_record cfg r = Some (result, r') \<and>
     (check \<longrightarrow> (\<forall>d. result = Some d \<longrightarrow>
        (\<exists>fs. ((\<exists>x. fs = [(kFullType, x)]) \<or>
             (\<exists>a ms z. fs = (kFirstType, a) # map (Pair kMiddleType) ms @ [(kLastType, z)])) \<and>
           d = concat (map snd fs) \<and>
           found_in fs (lr_buffer r @ pi_ahead (lr_file r)) (lr_buffer r' @ pi_ahead (lr_file r')))))"
proof -
  have "crc_extend port tr pr = crc32c" using assms(1) by (simp add: fun_eq_iff crc_extend_eq)
  then have cfg: "lc_file cfg = posix_sequential_file" "lc_checksum cfg = check" "lc_crc cfg = crc32c"
    "lr_last_record_offset r < lc_initial_offset cfg \<longrightarrow> lr_buffer r = []"
    using assms(2) by (auto simp: assms(3))
  from read_record_total [OF cfg(1,4)] show ?thesis
    unfolding cfg(2,3) record_of_def unread_def by simp
qed

theorem read_record_intact_witness:
  "\<exists>result r'. read_record \<lparr>lc_crc = crc_extend reference_port 0 0, lc_file = posix_sequential_file,
       lc_reporter = True, lc_checksum = True, lc_initial_offset = 0\<rparr>
     \<lparr>lr_file = \<lparr>pi_name = [], pi_ahead = [1, 2, 3], pi_error = None, pi_seek_error = None\<rparr>,
      lr_buffer = [], lr_eof = False, lr_last_record_offset = 0, lr_end_of_buffer_offset = 0,
      lr_resyncing = False, lr_reports = []\<rparr> = Some (result, r')"
  using read_record_intact [OF reference_port_ok _ refl, of 0
      "\<lparr>lr_file = \<lparr>pi_name = [], pi_ahead = [1, 2, 3], pi_error = None, pi_seek_error = None\<rparr>,
        lr_buffer = [], lr_eof = False, lr_last_record_offset = 0, lr_end_of_buffer_offset = 0,
        lr_resyncing = False, lr_reports = []\<rparr>" 0 0 True True]
  by blast

subsection \<open>Write batches\<close>

text \<open>C36: A batch holds what was put into it.  Up to \<open>2^31 - 1\<close> operations \<open>Put\<close> and \<open>Delete\<close> on an
  empty batch succeed, \<open>Iterate\<close> then hands exactly these operations to its handler, in order, and
  returns OK; and appending a second batch gives the batch of both sequences of operations.\<close>

theorem batch_written_iterated:
  assumes "\<forall>x \<in> set (xs @ ys). op_small x" "length xs + length ys < 2 ^ 31"
  shows "\<exists>a b c. wb_apply_all xs wb_clear = Some a \<and> wb_apply_all ys wb_clear = Some b \<and>
     wb_append a b = Some c \<and> wb_apply_all (xs @ ys) wb_clear = Some c \<and>
     wb_iterate handler h a = Some (StatusOK, fold (run_op handler) xs h) \<and>
     wb_iterate handler h c = Some (StatusOK, fold (run_op handler) (xs @ ys) h)"
proof -
  have applied: "wb_apply_all zs wb_clear = Some (batch_bytes 0 zs)" if "length zs < 2 ^ 31" for zs
    using apply_all_bytes [of "[]" zs 0] that by (simp add: clear_bytes)
  have "wb_append (batch_bytes 0 xs) (batch_bytes 0 ys) = Some (batch_bytes 0 (xs @ ys))"
    using assms(2) by (rule append_bytes)
  moreover have small: "length xs < 2 ^ 31" "length ys < 2 ^ 31" "length (xs @ ys) < 2 ^ 31"
    using assms(2) by simp_all
  moreover have "\<forall>x \<in> set xs. op_small x" using assms(1) by simp
  ultimately show ?thesis
    using applied [of xs] applied [of ys] applied [of "xs @ ys"]
      iterate_bytes [of xs handler h 0] iterate_bytes [OF assms(1), of handler h 0]
    by blast
qed

theorem batch_written_iterated_witness:
  "\<exists>c. wb_apply_all [WPut [1] [2], WDelete [1]] wb_clear = Some c \<and>
     wb_iterate \<lparr>on_put = \<lambda>k v h. h(k \<mapsto> v), on_delete = \<lambda>k h. h(k := None)\<rparr> Map.empty c =
       Some (StatusOK, Map.empty)"
  using batch_written_iterated [of "[WPut [1] [2]]" "[WDelete [1]]"
      "\<lparr>on_put = \<lambda>k v h. h(k \<mapsto> v), on_delete = \<lambda>k h. h(k := None)\<rparr>" Map.empty]
  by (auto simp del: wb_apply_all.simps)

text \<open>\<open>InsertInto\<close> adds the operations of a batch to the memtable in order, with consecutive
  sequence numbers from the batch's own (modulo \<open>2^64\<close>), a deletion with an empty value.\<close>

theorem insert_into_numbers:
  assumes "\<forall>x \<in> set xs. op_small x" "length xs < 2 ^ 31"
  shows "\<exists>a b. wb_apply_all xs wb_clear = Some a \<and> wb_set_sequence a seq = Some b \<and>
     wb_insert_into mem_add b m = Some (StatusOK,
       fold (\<lambda>i. case xs ! i of
           WPut k v \<Rightarrow> mem_add (seq + of_nat i) KTypeValue k v
         | WDelete k \<Rightarrow> mem_add (seq + of_nat i) KTypeDeletion k []) [0..<length xs] m)"
proof -
  have "wb_apply_all xs wb_clear = Some (batch_bytes 0 xs)"
    using apply_all_bytes [of "[]" xs 0] assms(2) by (simp add: clear_bytes)
  moreover have "wb_set_sequence (batch_bytes 0 xs) seq = Some (batch_bytes seq xs)"
    by (simp add: wb_set_sequence_def batch_parts) (simp add: batch_bytes_def)
  moreover have "mem_ops mem_add seq xs m = fold (\<lambda>i. case xs ! i of
      WPut k v \<Rightarrow> mem_add (seq + of_nat i) KTypeValue k v
    | WDelete k \<Rightarrow> mem_add (seq + of_nat i) KTypeDeletion k []) [0..<length xs] m"
  proof (induction xs arbitrary: seq m)
    case (Cons x xs)
    show ?case
      by (simp add: Cons.IH upt_conv_Cons map_Suc_upt [symmetric] fold_map comp_def of_nat_Suc ac_simps
          del: upt_Suc cong: wb_op.case_cong split: wb_op.split)
  qed simp
  ultimately show ?thesis
    by (intro exI [of _ "batch_bytes 0 xs"] exI [of _ "batch_bytes seq xs"] conjI)
      (simp_all only: insert_into_bytes [OF assms])
qed

theorem insert_into_numbers_witness:
  "\<exists>b. wb_insert_into (\<lambda>s t k v m. m @ [(s, t, k, v)]) b [] =
     Some (StatusOK, [(7, KTypeValue, [1], [2]), (8, KTypeDeletion, [1], [])])"
proof -
  from insert_into_numbers [of "[WPut [1] [2], WDelete [1]]" 7 "\<lambda>s t k v m. m @ [(s, t, k, v)]" "[]"]
  show ?thesis by (auto simp: upt_conv_Cons)
qed

subsection \<open>Table blocks\<close>

text \<open>C39: A table block gives back what was added to it.  When the builder accepted the key/value
  pairs (with any restart interval) and the block stays below \<open>2^32\<close> bytes, it opens without an
  error, and an iterator over it finds the same pairs, in order from the first to the last with
  \<open>Next\<close> and in reverse order with \<open>Prev\<close>, and is not valid beyond.\<close>

theorem block_added_walked:
  assumes "block_builder bytewise_comparator interval = Some b0" "bb_add_all b0 kvs = Some b"
    "length (fst (bb_finish b)) < 2 ^ 32" "kvs \<noteq> []"
  shows "\<exists>blk i j j'. make_block (fst (bb_finish b)) = Some blk \<and>
     new_iterator blk bytewise_comparator = Some (BlockIterator i) \<and>
     bi_seek_to_first i = Some j \<and> walk bi_next (length kvs) j = Some kvs \<and>
     bi_seek_to_last i = Some j' \<and> walk bi_prev (length kvs) j' = Some (rev kvs)"
  using bytewise.block_written_read [OF assms(1,2) _ assms(3)] assms(4) by blast

theorem block_added_walked_witness:
  "\<exists>b0 b blk i j j'. block_builder bytewise_comparator 2 = Some b0 \<and>
     bb_add_all b0 [([1], [9]), ([1, 2], [])] = Some b \<and> make_block (fst (bb_finish b)) = Some blk \<and>
     new_iterator blk bytewise_comparator = Some (BlockIterator i) \<and>
     bi_seek_to_first i = Some j \<and> walk bi_next 2 j = Some [([1], [9]), ([1, 2], [])] \<and>
     bi_seek_to_last i = Some j' \<and> walk bi_prev 2 j' = Some [([1, 2], []), ([1], [9])]"
proof -
  have "case block_builder bytewise_comparator 2 of None \<Rightarrow> False | Some b0 \<Rightarrow>
    (case bb_add_all b0 [([1], [9]), ([1, 2], [])] of None \<Rightarrow> False
     | Some b \<Rightarrow> length (fst (bb_finish b)) < 100)"
    by code_simp
  then obtain b0 b where b: "block_builder bytewise_comparator 2 = Some b0"
    "bb_add_all b0 [([1], [9]), ([1, 2], [])] = Some b" "length (fst (bb_finish b)) < 100"
    by (auto split: option.splits)
  from b(3) have "length (fst (bb_finish b)) < 2 ^ 32" by simp
  from block_added_walked [OF b(1,2) this] show ?thesis
    by - (rule exI [of _ b0], rule exI [of _ b],
      simp add: b [unfolded numeral_2_eq_2] numeral_2_eq_2 del: walk.simps bb_add_all.simps)
qed

text \<open>C40: \<open>Seek\<close> in a table block of internal keys stops at the first key that is not before the
  target in the order of internal keys (user key, then newest first): what \<open>Next\<close> finds from there
  is the added pairs without those before the target, and nothing when all are before it.\<close>

theorem block_seek_correct:
  assumes "block_builder (internal_comparator bytewise_comparator) interval = Some b0"
    "bb_add_all b0 kvs = Some b" "\<forall>kv \<in> set kvs. 8 \<le> length (fst kv)"
    "length (fst (bb_finish b)) < 2 ^ 32" "8 \<le> length target"
  shows "\<exists>blk i j. make_block (fst (bb_finish b)) = Some blk \<and>
     new_iterator blk (internal_comparator bytewise_comparator) = Some (BlockIterator i) \<and>
     bi_seek i target = Some j \<and>
     walk bi_next (length kvs) j =
       Some (dropWhile (key_before (internal_comparator bytewise_comparator) target) kvs)"
  using internal.block_written_read [OF assms(1,2) _ assms(4)] assms(3,5)
  unfolding bytewise.internal_valid_def by blast

theorem block_seek_correct_witness:
  "\<exists>b0 b blk i j. block_builder (internal_comparator bytewise_comparator) 2 = Some b0 \<and>
     bb_add_all b0 [([1, 1, 5, 0, 0, 0, 0, 0, 0], [9]), ([2, 1, 1, 0, 0, 0, 0, 0, 0], [])] = Some b \<and>
     make_block (fst (bb_finish b)) = Some blk \<and>
     new_iterator blk (internal_comparator bytewise_comparator) = Some (BlockIterator i) \<and>
     bi_seek i [1, 1, 4, 0, 0, 0, 0, 0, 0] = Some j \<and>
     walk bi_next 2 j = Some [([2, 1, 1, 0, 0, 0, 0, 0, 0], [])]"
proof -
  let ?kvs = "[([1, 1, 5, 0, 0, 0, 0, 0, 0], [9]), ([2, 1, 1, 0, 0, 0, 0, 0, 0], [])] :: (slice \<times> slice) list"
  let ?cmp = "internal_comparator bytewise_comparator"
  have "case block_builder ?cmp 2 of None \<Rightarrow> False | Some b0 \<Rightarrow>
    (case bb_add_all b0 ?kvs of None \<Rightarrow> False | Some b \<Rightarrow> length (fst (bb_finish b)) < 100)"
    by code_simp
  then obtain b0 b where b: "block_builder ?cmp 2 = Some b0" "bb_add_all b0 ?kvs = Some b"
    "length (fst (bb_finish b)) < 100"
    by (auto split: option.splits)
  from b(3) have "length (fst (bb_finish b)) < 2 ^ 32" by simp
  moreover have "dropWhile (key_before ?cmp [1, 1, 4, 0, 0, 0, 0, 0, 0]) ?kvs =
      [([2, 1, 1, 0, 0, 0, 0, 0, 0], [])]" by code_simp
  ultimately show ?thesis
    using block_seek_correct [OF b(1,2), of "[1, 1, 4, 0, 0, 0, 0, 0, 0]"]
    by - (rule exI [of _ b0], rule exI [of _ b],
      simp add: b [unfolded numeral_2_eq_2] numeral_2_eq_2
        del: walk.simps bb_add_all.simps dropWhile.simps)
qed

end
