(* ===== verification/LdFilterBlock.thy ===== *)
theory LdFilterBlock
  imports LdBloom
begin

text \<open>
  The filter block of a table (\<open>table/filter_block.h\<close>, \<open>table/filter_block.cc\<close>): one filter for every
  2 KB of the file, behind each other, and an array of their offsets.

  Pointers into the block are offsets.  A read outside it, a shift by 64 or more and an \<open>assert\<close> that
  fails have no result (\<open>None\<close>).
\<close>

definition kFilterBaseLg :: nat where "kFilterBaseLg = 11"
definition kFilterBase :: u64 where "kFilterBase = push_bit kFilterBaseLg 1"

subsection \<open>Builder\<close>

record filter_block_builder =
  fb_policy :: filter_policy
  fb_keys :: "u8 list"
  fb_start :: "nat list"
  fb_result :: "u8 list"
  fb_filter_offsets :: "u32 list"

definition filter_block_builder :: "filter_policy \<Rightarrow> filter_block_builder" where
  "filter_block_builder policy =
     \<lparr>fb_policy = policy, fb_keys = [], fb_start = [], fb_result = [], fb_filter_offsets = []\<rparr>"

text \<open>The slices of the flattened keys: \<open>tmp_keys_\<close>.\<close>

definition fb_tmp_keys :: "u8 list \<Rightarrow> nat list \<Rightarrow> slice list" where
  "fb_tmp_keys keys start =
     (let starts = start @ [length keys] in
      map (\<lambda>i. take (starts ! (i + 1) - starts ! i) (drop (starts ! i) keys)) [0..<length start])"

definition fb_generate_filter :: "filter_block_builder \<Rightarrow> filter_block_builder option" where
  "fb_generate_filter b =
     (let offsets = fb_filter_offsets b @ [of_nat (length (fb_result b))] in
      if fb_start b = [] then Some (b\<lparr>fb_filter_offsets := offsets\<rparr>)
      else
        do {
          r \<leftarrow> create_filter (fb_policy b) (fb_tmp_keys (fb_keys b) (fb_start b)) (fb_result b);
          Some (b\<lparr>fb_filter_offsets := offsets, fb_result := r, fb_keys := [], fb_start := []\<rparr>)
        })"

text \<open>\<open>n\<close> calls of \<open>GenerateFilter\<close>: each adds one offset, so this is the loop of \<open>StartBlock\<close>.\<close>

primrec fb_generate_filters :: "nat \<Rightarrow> filter_block_builder \<Rightarrow> filter_block_builder option" where
  "fb_generate_filters 0 b = Some b"
| "fb_generate_filters (Suc n) b = do { b \<leftarrow> fb_generate_filter b; fb_generate_filters n b }"

definition fb_start_block :: "filter_block_builder \<Rightarrow> u64 \<Rightarrow> filter_block_builder option" where
  "fb_start_block b block_offset =
     (let filter_index = unat (block_offset div kFilterBase) in
      if filter_index < length (fb_filter_offsets b) then None
      else fb_generate_filters (filter_index - length (fb_filter_offsets b)) b)"

definition fb_add_key :: "filter_block_builder \<Rightarrow> slice \<Rightarrow> filter_block_builder" where
  "fb_add_key b key =
     b\<lparr>fb_start := fb_start b @ [length (fb_keys b)], fb_keys := fb_keys b @ key\<rparr>"

definition fb_finish :: "filter_block_builder \<Rightarrow> (slice \<times> filter_block_builder) option" where
  "fb_finish b =
     do {
       b \<leftarrow> (if fb_start b \<noteq> [] then fb_generate_filter b else Some b);
       let array_offset = (of_nat (length (fb_result b)) :: u32);
       let r = fold (\<lambda>offset r. put_fixed32 r offset) (fb_filter_offsets b) (fb_result b);
       let r = put_fixed32 r array_offset @ [of_nat kFilterBaseLg];
       Some (r, b\<lparr>fb_result := r\<rparr>)
     }"

subsection \<open>Reader\<close>

record filter_block_reader =
  fr_policy :: filter_policy
  fr_data :: "u8 list"
  fr_offset :: nat
  fr_num :: nat
  fr_base_lg :: u64

text \<open>\<open>base_lg_\<close> is a \<open>size_t\<close> that is set from a \<open>char\<close>.\<close>

definition filter_block_reader :: "filter_policy \<Rightarrow> slice \<Rightarrow> filter_block_reader option" where
  "filter_block_reader policy contents =
     (let n = length contents;
          r = \<lparr>fr_policy = policy, fr_data = [], fr_offset = 0, fr_num = 0, fr_base_lg = 0\<rparr> in
      if n < 5 then Some r
      else
        do {
          let r = r\<lparr>fr_base_lg := scast (contents ! (n - 1))\<rparr>;
          last_word \<leftarrow> decode_fixed32 (drop (n - 5) contents);
          if unat last_word > n - 5 then Some r
          else Some (r\<lparr>fr_data := contents, fr_offset := unat last_word,
                       fr_num := (n - 5 - unat last_word) div 4\<rparr>)
        })"

definition fr_key_may_match :: "filter_block_reader \<Rightarrow> u64 \<Rightarrow> slice \<Rightarrow> bool option" where
  "fr_key_may_match r block_offset key =
     (if fr_base_lg r \<ge> 64 then None
      else
        let index = unat (drop_bit (unat (fr_base_lg r)) block_offset) in
        if index < fr_num r then
          do {
            start \<leftarrow> decode_fixed32 (drop (fr_offset r + index * 4) (fr_data r));
            limit \<leftarrow> decode_fixed32 (drop (fr_offset r + index * 4 + 4) (fr_data r));
            if start \<le> limit \<and> unat limit \<le> fr_offset r then
              key_may_match (fr_policy r) key
                (take (unat limit - unat start) (drop (unat start) (fr_data r)))
            else if start = limit then Some False
            else Some True
          }
        else Some True)"

subsection \<open>The block that is built\<close>

text \<open>A filter with the keys it was made from.\<close>

type_synonym keyed_filter = "u8 list \<times> slice list"

definition filters_bytes :: "keyed_filter list \<Rightarrow> u8 list" where
  "filters_bytes fs = concat (map fst fs)"

definition filter_at :: "keyed_filter list \<Rightarrow> nat \<Rightarrow> nat" where
  "filter_at fs i = length (filters_bytes (take i fs))"

definition builder_holds :: "filter_policy \<Rightarrow> keyed_filter list \<Rightarrow> slice list \<Rightarrow> filter_block_builder \<Rightarrow> bool" where
  "builder_holds policy fs pending b \<longleftrightarrow>
     fb_policy b = policy \<and> fb_result b = filters_bytes fs \<and>
     fb_filter_offsets b = map (\<lambda>i. of_nat (filter_at fs i)) [0..<length fs] \<and>
     fb_keys b = concat pending \<and>
     fb_start b = map (\<lambda>i. length (concat (take i pending))) [0..<length pending] \<and>
     (\<forall>(f, ks) \<in> set fs. \<forall>k \<in> set ks. key_may_match policy k f = Some True)"

lemma tmp_keys:
  "fb_tmp_keys (concat ks) (map (\<lambda>i. length (concat (take i ks))) [0..<length ks]) = ks"
proof (rule nth_equalityI)
  let ?starts = "map (\<lambda>i. length (concat (take i ks))) [0..<length ks] @ [length (concat ks)]"
  fix i assume "i < length (fb_tmp_keys (concat ks) (map (\<lambda>i. length (concat (take i ks))) [0..<length ks]))"
  then have i: "i < length ks" by (simp add: fb_tmp_keys_def Let_def)
  have starts: "?starts ! j = length (concat (take j ks))" if "j \<le> length ks" for j
    using that by (cases "j = length ks") (simp_all add: nth_append)
  have "concat ks = concat (take i ks) @ ks ! i @ concat (drop (Suc i) ks)"
    using id_take_nth_drop [OF i] by (metis concat.simps(2) concat_append)
  moreover have "concat (take (Suc i) ks) = concat (take i ks) @ ks ! i"
    using i by (simp add: take_Suc_conv_app_nth)
  ultimately show "fb_tmp_keys (concat ks) (map (\<lambda>i. length (concat (take i ks))) [0..<length ks]) ! i = ks ! i"
    using i starts [of i] starts [of "Suc i"] by (simp add: fb_tmp_keys_def Let_def)
qed (simp add: fb_tmp_keys_def Let_def)

lemma filters_bytes_append [simp]: "filters_bytes (fs @ gs) = filters_bytes fs @ filters_bytes gs"
  by (simp add: filters_bytes_def)

lemma filter_at_append: "i \<le> length fs \<Longrightarrow> filter_at (fs @ gs) i = filter_at fs i"
  by (simp add: filter_at_def)

lemma offsets_snoc:
  "map (\<lambda>i. of_nat (filter_at (fs @ [f]) i)) [0..<Suc (length fs)] =
     map (\<lambda>i. of_nat (filter_at fs i)) [0..<length fs] @ [of_nat (length (filters_bytes fs)) :: u32]"
  by (simp add: filter_at_append) (simp add: filter_at_def)

lemma builder_new: "builder_holds policy [] [] (filter_block_builder policy)"
  by (simp add: builder_holds_def filter_block_builder_def filters_bytes_def)

lemma builder_add:
  assumes "builder_holds policy fs pending b"
  shows "builder_holds policy fs (pending @ [k]) (fb_add_key b k)"
proof -
  have "map (\<lambda>i. length (concat (take i (pending @ [k])))) [0..<length (pending @ [k])] =
      map (\<lambda>i. length (concat (take i pending))) [0..<length pending] @ [length (concat pending)]"
    by simp
  with assms show ?thesis by (simp add: builder_holds_def fb_add_key_def)
qed

context filter_policy_laws
begin

lemma builder_generate:
  assumes "builder_holds policy fs pending b" "fb_generate_filter b = Some b'"
  shows "\<exists>f. builder_holds policy (fs @ [(f, pending)]) [] b'"
proof (cases "pending = []")
  case True
  with assms have "b' = b\<lparr>fb_filter_offsets := fb_filter_offsets b @ [of_nat (length (filters_bytes fs))]\<rparr>"
    by (simp add: builder_holds_def fb_generate_filter_def Let_def)
  with assms(1) True have "builder_holds policy (fs @ [([], pending)]) [] b'"
    by (simp add: builder_holds_def offsets_snoc filters_bytes_def del: upt_Suc)
  then show ?thesis ..
next
  case False
  have b: "fb_policy b = policy" "fb_result b = filters_bytes fs" "fb_start b \<noteq> []"
    "fb_tmp_keys (fb_keys b) (fb_start b) = pending"
    using assms(1) False by (simp_all add: builder_holds_def tmp_keys)
  with assms(2) obtain r where r: "create_filter policy pending (filters_bytes fs) = Some r"
    "b' = b\<lparr>fb_filter_offsets := fb_filter_offsets b @ [of_nat (length (filters_bytes fs))],
       fb_result := r, fb_keys := [], fb_start := []\<rparr>"
    by (auto simp: fb_generate_filter_def Let_def bind_eq_Some_conv)
  from appends [OF r(1)] obtain f where f: "r = filters_bytes fs @ f" ..
  have "\<forall>k \<in> set pending. key_may_match policy k f = Some True" using matches r(1) f by blast
  then have "builder_holds policy (fs @ [(f, pending)]) [] b'"
    using assms(1) r(2) f by (simp add: builder_holds_def offsets_snoc filters_bytes_def del: upt_Suc)
  then show ?thesis ..
qed

lemma builder_generates:
  assumes "builder_holds policy fs pending b" "fb_generate_filters n b = Some b'"
  shows "\<exists>gs pending' rest. length gs = n \<and> builder_holds policy (fs @ gs) pending' b' \<and>
     map snd (fs @ gs) @ [pending'] = map snd fs @ [pending] @ rest"
  using assms
proof (induction n arbitrary: fs pending b)
  case 0
  then show ?case by (intro exI [of _ "[]"] exI [of _ pending]) simp
next
  case (Suc n)
  then obtain b1 where b1: "fb_generate_filter b = Some b1" "fb_generate_filters n b1 = Some b'"
    by (auto simp: bind_eq_Some_conv)
  from builder_generate [OF Suc.prems(1) b1(1)] obtain f where
    f: "builder_holds policy (fs @ [(f, pending)]) [] b1" ..
  from Suc.IH [OF f b1(2)] obtain gs pending' rest where "length gs = n"
    "builder_holds policy ((fs @ [(f, pending)]) @ gs) pending' b'"
    "map snd ((fs @ [(f, pending)]) @ gs) @ [pending'] = map snd (fs @ [(f, pending)]) @ [[]] @ rest"
    by blast
  then show ?case by (intro exI [of _ "(f, pending) # gs"] exI [of _ pending'] exI [of _ "[] # rest"]) simp
qed

end

subsection \<open>Every added key may match\<close>

text \<open>
  The calls the class comment allows, \<open>(StartBlock AddKey*)* Finish\<close>: for every data block its offset
  and the keys that are added to it.
\<close>

fun fb_build :: "(u64 \<times> slice list) list \<Rightarrow> filter_block_builder \<Rightarrow>
    (slice \<times> filter_block_builder) option" where
  "fb_build [] b = fb_finish b"
| "fb_build ((block_offset, keys) # blocks) b =
     do {
       b \<leftarrow> fb_start_block b block_offset;
       fb_build blocks (fold (\<lambda>key b. fb_add_key b key) keys b)
     }"

text \<open>\<open>sets ! i\<close> are the keys of filter \<open>i\<close>, the keys that wait for their filter last.\<close>

definition covers :: "slice list list \<Rightarrow> u64 \<times> slice list \<Rightarrow> bool" where
  "covers sets blk \<longleftrightarrow>
     unat (fst blk div kFilterBase) < length sets \<and>
     set (snd blk) \<subseteq> set (sets ! unat (fst blk div kFilterBase))"

lemma covers_append: "covers sets blk \<Longrightarrow> covers (sets @ rest) blk"
  by (simp add: covers_def nth_append)

lemma covers_more: "covers (sets @ [pending]) blk \<Longrightarrow> covers (sets @ [pending @ ks]) blk"
  by (auto simp: covers_def nth_append split: if_splits)

lemma builder_adds:
  "builder_holds policy fs pending b \<Longrightarrow>
     builder_holds policy fs (pending @ ks) (fold (\<lambda>key b. fb_add_key b key) ks b)"
proof (induction ks arbitrary: pending b)
  case (Cons k ks)
  from Cons.IH [OF builder_add [OF Cons.prems]] show ?case by simp
qed simp

text \<open>The contents of a finished block.\<close>

definition block_offsets :: "keyed_filter list \<Rightarrow> u32 list" where
  "block_offsets fs = map (\<lambda>i. of_nat (filter_at fs i)) [0..<Suc (length fs)]"

definition filter_block_bytes :: "keyed_filter list \<Rightarrow> slice" where
  "filter_block_bytes fs = filters_bytes fs @ concat (map encode_fixed32 (block_offsets fs)) @ [11]"

lemma length_block_offsets [simp]: "length (block_offsets fs) = Suc (length fs)"
  by (simp add: block_offsets_def)

lemma nth_block_offsets: "i \<le> length fs \<Longrightarrow> block_offsets fs ! i = of_nat (filter_at fs i)"
  unfolding block_offsets_def by (simp add: nth_map_upt del: upt_Suc)

lemma length_encoded_words [simp]: "length (concat (map encode_fixed32 ws)) = 4 * length ws"
  by (induction ws) simp_all

lemma drop_encoded_words:
  "i < length ws \<Longrightarrow>
     drop (i * 4) (concat (map encode_fixed32 ws)) = concat (map encode_fixed32 (drop i ws))"
proof (induction ws arbitrary: i)
  case (Cons w ws)
  then show ?case by (cases i) simp_all
qed simp

lemma decode_word_at:
  assumes "i < length ws"
  shows "decode_fixed32 (drop (i * 4) (concat (map encode_fixed32 ws) @ r)) = Some (ws ! i)"
proof -
  have "drop (i * 4) (concat (map encode_fixed32 ws) @ r) =
      encode_fixed32 (ws ! i) @ concat (map encode_fixed32 (drop (Suc i) ws)) @ r"
    using assms drop_encoded_words [OF assms] by (simp add: Cons_nth_drop_Suc [symmetric])
  then show ?thesis by simp
qed

lemma put_words: "fold (\<lambda>offset r. put_fixed32 r offset) ws r = r @ concat (map encode_fixed32 ws)"
  by (induction ws arbitrary: r) (simp_all add: put_fixed32_def)

lemma filter_finish_bytes:
  assumes "builder_holds policy fs [] b"
  shows "\<exists>b'. fb_finish b = Some (filter_block_bytes fs, b')"
proof -
  have "block_offsets fs = fb_filter_offsets b @ [of_nat (length (filters_bytes fs))]"
    using assms by (simp add: builder_holds_def block_offsets_def filter_at_def)
  then show ?thesis using assms
    by (simp add: builder_holds_def fb_finish_def filter_block_bytes_def put_words [unfolded put_fixed32_def]
        put_fixed32_def kFilterBaseLg_def comp_def Let_def)
qed

lemma filter_at_le: "i \<le> length fs \<Longrightarrow> filter_at fs i \<le> length (filters_bytes fs)"
proof -
  have "filters_bytes fs = filters_bytes (take i fs) @ filters_bytes (drop i fs)"
    by (simp flip: filters_bytes_append)
  then show ?thesis by (simp add: filter_at_def)
qed

lemma filter_between:
  assumes "i < length fs"
  shows "filter_at fs (Suc i) = filter_at fs i + length (fst (fs ! i))"
    "take (length (fst (fs ! i))) (drop (filter_at fs i) (filters_bytes fs @ r)) = fst (fs ! i)"
proof -
  show "filter_at fs (Suc i) = filter_at fs i + length (fst (fs ! i))"
    using assms by (simp add: filter_at_def take_Suc_conv_app_nth filters_bytes_def)
  have "filters_bytes fs =
      filters_bytes (take i fs) @ fst (fs ! i) @ filters_bytes (drop (Suc i) fs)"
    using id_take_nth_drop [OF assms] by (metis append.left_neutral append_Cons concat.simps(2)
        filters_bytes_append filters_bytes_def list.simps(9))
  then show "take (length (fst (fs ! i))) (drop (filter_at fs i) (filters_bytes fs @ r)) = fst (fs ! i)"
    by (simp add: filter_at_def)
qed

lemma reader_opens:
  assumes "length (filter_block_bytes fs) < 2 ^ 32"
  shows "filter_block_reader policy (filter_block_bytes fs) =
     Some \<lparr>fr_policy = policy, fr_data = filter_block_bytes fs,
       fr_offset = length (filters_bytes fs), fr_num = length fs, fr_base_lg = 11\<rparr>"
proof -
  let ?c = "filter_block_bytes fs" and ?fl = "length (filters_bytes fs)"
  have n: "length ?c = ?fl + 4 * length fs + 5" by (simp add: filter_block_bytes_def)
  define x where "x = filters_bytes fs @
      concat (map encode_fixed32 (map (\<lambda>i. of_nat (filter_at fs i)) [0..<length fs]))"
  have c: "?c = x @ encode_fixed32 (of_nat ?fl) @ [11]"
    by (simp add: x_def filter_block_bytes_def block_offsets_def filter_at_def)
  have "length x = ?fl + 4 * length fs"
    unfolding x_def length_append length_encoded_words by simp
  then have "drop (length ?c - 5) ?c = encode_fixed32 (of_nat ?fl) @ [11]"
    "?c ! (length ?c - 1) = 11"
    unfolding n by (simp_all add: c nth_append)
  moreover have "unat (of_nat ?fl :: u32) = ?fl" using assms n by (simp add: unsigned_of_nat take_bit_nat_eq_self)
  moreover have "scast (11 :: u8) = (11 :: u64)" by simp
  ultimately show ?thesis using n
    by (simp add: filter_block_reader_def Let_def del: One_nat_def)
qed

lemma reader_matches:
  assumes holds: "builder_holds policy fs [] b"
    and size: "length (filter_block_bytes fs) < 2 ^ 32"
    and i: "unat (block_offset div kFilterBase) < length fs"
    and k: "k \<in> set (snd (fs ! unat (block_offset div kFilterBase)))"
    and r: "filter_block_reader policy (filter_block_bytes fs) = Some r"
  shows "fr_key_may_match r block_offset k = Some True"
proof -
  let ?c = "filter_block_bytes fs" and ?fl = "length (filters_bytes fs)"
  define i where "i = unat (block_offset div kFilterBase)"
  have index: "unat (drop_bit 11 block_offset) = i"
    by (simp add: i_def kFilterBase_def kFilterBaseLg_def push_bit_eq_mult drop_bit_eq_div)
  have n: "length ?c = ?fl + 4 * length fs + 5" by (simp add: filter_block_bytes_def)
  have word: "decode_fixed32 (drop (?fl + j * 4) ?c) = Some (of_nat (filter_at fs j))"
    if "j \<le> length fs" for j
  proof -
    have "drop (?fl + j * 4) ?c =
        drop (j * 4) (concat (map encode_fixed32 (block_offsets fs)) @ [11])"
      unfolding filter_block_bytes_def by simp
    with that show ?thesis
      using decode_word_at [of j "block_offsets fs" "[11]"] by (simp add: nth_block_offsets)
  qed
  have small: "unat (of_nat (filter_at fs j) :: u32) = filter_at fs j" if "j \<le> length fs" for j
    using filter_at_le [OF that] size n by (simp add: unsigned_of_nat take_bit_nat_eq_self)
  have lt: "i < length fs" using assms(3) by (simp add: i_def)
  note between = filter_between [OF lt]
  have "\<forall>f \<in> set fs. \<forall>k \<in> set (snd f). key_may_match policy k (fst f) = Some True"
    using holds by (simp add: builder_holds_def case_prod_beta)
  with k have "key_may_match policy k (fst (fs ! i)) = Some True"
    using nth_mem [OF lt] unfolding i_def by blast
  moreover have "take (filter_at fs (Suc i) - filter_at fs i) (drop (filter_at fs i) ?c) = fst (fs ! i)"
    unfolding filter_block_bytes_def by (simp only: between add_diff_cancel_left')
  moreover have "filter_at fs (Suc i) \<le> ?fl" using lt by (intro filter_at_le) simp
  moreover have "r = \<lparr>fr_policy = policy, fr_data = ?c, fr_offset = ?fl, fr_num = length fs, fr_base_lg = 11\<rparr>"
    using r by (simp add: reader_opens [OF size])
  moreover have "decode_fixed32 (drop (?fl + i * 4 + 4) ?c) = Some (of_nat (filter_at fs (Suc i)))"
    using word [of "Suc i"] lt by (simp add: ac_simps)
  moreover have "filter_at fs i \<le> filter_at fs (Suc i)" using between(1) by simp
  ultimately show ?thesis
    using lt index small [of i] small [of "Suc i"] word [of i]
    by (simp add: fr_key_may_match_def Let_def word_le_nat_alt)
qed

context filter_policy_laws
begin

lemma finish_covers:
  assumes "builder_holds policy fs pending b" "fb_finish b = Some (contents, b')"
  shows "\<exists>gs b1 rest. builder_holds policy gs [] b1 \<and> contents = filter_block_bytes gs \<and>
     map snd gs @ [[]] = map snd fs @ [pending] @ rest"
proof (cases "pending = []")
  case True
  with assms filter_finish_bytes [of policy fs b] show ?thesis
    by (intro exI [of _ fs] exI [of _ b] exI [of _ "[]"]) auto
next
  case False
  then have start: "fb_start b \<noteq> []" using assms(1) by (simp add: builder_holds_def)
  with assms(2) obtain b1 where b1: "fb_generate_filter b = Some b1"
    by (auto simp: fb_finish_def bind_eq_Some_conv)
  with builder_generate [OF assms(1)] obtain f where
    f: "builder_holds policy (fs @ [(f, pending)]) [] b1" by blast
  then have "fb_start b1 = []" by (simp add: builder_holds_def)
  with start b1 have "fb_finish b = fb_finish b1" by (simp add: fb_finish_def)
  with assms(2) filter_finish_bytes [OF f] have "contents = filter_block_bytes (fs @ [(f, pending)])" by auto
  with f show ?thesis
    by (intro exI [of _ "fs @ [(f, pending)]"] exI [of _ b1] exI [of _ "[[]]"]) simp
qed

lemma start_block_covers:
  assumes "builder_holds policy fs pending b" "fb_start_block b block_offset = Some b1"
  shows "\<exists>gs pending' rest. builder_holds policy gs pending' b1 \<and>
    map snd gs @ [pending'] = (map snd fs @ [pending]) @ rest \<and>
    unat (block_offset div kFilterBase) = length gs"
proof -
  let ?i = "unat (block_offset div kFilterBase)"
  have "length (fb_filter_offsets b) = length fs"
    using assms(1) by (simp add: builder_holds_def)
  with assms(2) have gen: "fb_generate_filters (?i - length fs) b = Some b1" "length fs \<le> ?i"
    by (auto simp: fb_start_block_def Let_def split: if_splits)
  from builder_generates [OF assms(1) gen(1)] obtain gs pending' rest where
    "length gs = ?i - length fs" "builder_holds policy (fs @ gs) pending' b1"
    "map snd (fs @ gs) @ [pending'] = map snd fs @ [pending] @ rest" by blast
  with gen(2) show ?thesis
    by (intro exI [of _ "fs @ gs"] exI [of _ pending'] exI [of _ rest]) simp
qed

lemma build_covers:
  assumes "builder_holds policy fs pending b" "fb_build blocks b = Some (contents, b')"
  shows "\<exists>gs b1. builder_holds policy gs [] b1 \<and> contents = filter_block_bytes gs \<and>
     (\<forall>blk. covers (map snd fs @ [pending]) blk \<or> blk \<in> set blocks \<longrightarrow> covers (map snd gs @ [[]]) blk)"
  using assms
proof (induction blocks b arbitrary: fs pending rule: fb_build.induct)
  case (1 b)
  from "1.prems"(2) have "fb_finish b = Some (contents, b')" by simp
  from finish_covers [OF "1.prems"(1) this] obtain gs b1 rest where
    "builder_holds policy gs [] b1" "contents = filter_block_bytes gs"
    and sets: "map snd gs @ [[]] = (map snd fs @ [pending]) @ rest" by auto
  moreover have "covers (map snd fs @ [pending]) blk \<Longrightarrow> covers (map snd gs @ [[]]) blk" for blk
    unfolding sets by (rule covers_append)
  ultimately show ?case by auto
next
  case (2 block_offset keys blocks b)
  from "2.prems"(2) obtain b1 where b1: "fb_start_block b block_offset = Some b1"
    "fb_build blocks (fold (\<lambda>key b. fb_add_key b key) keys b1) = Some (contents, b')"
    by (auto simp: bind_eq_Some_conv)
  from start_block_covers [OF "2.prems"(1) b1(1)] obtain gs pending' rest where
    gs: "unat (block_offset div kFilterBase) = length gs" "builder_holds policy gs pending' b1"
    and sets: "map snd gs @ [pending'] = (map snd fs @ [pending]) @ rest" by blast
  from "2.IH" [OF b1(1) builder_adds [OF gs(2)] b1(2)] obtain hs b2 where
    hs: "builder_holds policy hs [] b2" "contents = filter_block_bytes hs"
    "\<And>blk. covers (map snd gs @ [pending' @ keys]) blk \<or> blk \<in> set blocks \<Longrightarrow>
       covers (map snd hs @ [[]]) blk" by blast
  have "covers (map snd gs @ [pending' @ keys]) blk"
    if "covers (map snd fs @ [pending]) blk" for blk
    using covers_append [OF that, of rest] unfolding sets [symmetric] by (rule covers_more)
  moreover have "covers (map snd gs @ [pending' @ keys]) (block_offset, keys)"
    using gs(1) by (simp add: covers_def nth_append)
  ultimately show ?case using hs by auto
qed

lemma build_no_false_negative:
  assumes "fb_build blocks (filter_block_builder policy) = Some (contents, b)"
    and "length contents < 2 ^ 32"
    and "(block_offset, keys) \<in> set blocks" "key \<in> set keys"
  shows "\<exists>r. filter_block_reader policy contents = Some r \<and>
    fr_key_may_match r block_offset key = Some True"
proof -
  from build_covers [OF builder_new assms(1)] obtain gs b1 where
    gs: "builder_holds policy gs [] b1" "contents = filter_block_bytes gs"
    "covers (map snd gs @ [[]]) (block_offset, keys)" using assms(3) by blast
  let ?i = "unat (block_offset div kFilterBase)"
  have "?i < length gs"
    using gs(3) assms(4) by (auto simp: covers_def nth_append split: if_splits)
  moreover from this have "key \<in> set (snd (gs ! ?i))"
    using gs(3) assms(4) by (auto simp: covers_def nth_append)
  ultimately show ?thesis
    using reader_matches [OF gs(1)] reader_opens [of gs policy] assms(2) gs(2) by auto
qed

end

text \<open>A key that was added to the filter block of a table after \<open>StartBlock(offset)\<close> may match at that
  offset, whatever was added before and after: a reader that trusts the filter misses no key.\<close>

theorem filter_block_no_false_negative:
  assumes "fb_build blocks (filter_block_builder (bloom_filter_policy bits_per_key)) = Some (contents, b)"
    and "length contents < 2 ^ 32"
    and "(block_offset, keys) \<in> set blocks" "key \<in> set keys"
  shows "\<exists>r. filter_block_reader (bloom_filter_policy bits_per_key) contents = Some r \<and>
    fr_key_may_match r block_offset key = Some True"
  using assms by (rule bloom.build_no_false_negative)

definition sample_filter_block :: slice where
  "sample_filter_block =
     fst (the (fb_build [(0, [[1], [2, 3]]), (100, [[4]]), (9000, [[5]])]
       (filter_block_builder (bloom_filter_policy 10))))"

lemma filter_block_no_false_negative_witness:
  "\<exists>r. filter_block_reader (bloom_filter_policy 10) sample_filter_block = Some r \<and>
    fr_key_may_match r 100 [4] = Some True"
proof -
  have "\<not> Option.is_none (fb_build [(0, [[1], [2, 3]]), (100, [[4]]), (9000, [[5]])]
      (filter_block_builder (bloom_filter_policy 10)))"
    by code_simp
  then obtain b where "fb_build [(0, [[1], [2, 3]]), (100, [[4]]), (9000, [[5]])]
      (filter_block_builder (bloom_filter_policy 10)) = Some (sample_filter_block, b)"
    unfolding sample_filter_block_def by (auto simp: Option.is_none_def)
  moreover have "length sample_filter_block = 43" by code_simp
  then have "length sample_filter_block < 2 ^ 32" by simp
  ultimately show ?thesis
    by (rule filter_block_no_false_negative [where block_offset = 100 and keys = "[[4]]"]) simp_all
qed

end
