(* ===== verification/LdFormat.thy ===== *)
theory LdFormat
  imports LdFile LdCrcOk
begin

text \<open>
  The format of a table file (\<open>table/format.h\<close>, \<open>table/format.cc\<close>): block handles, the footer and
  blocks with their trailer; the compression types and read options (\<open>include/leveldb/options.h\<close>);
  files for random access (\<open>include/leveldb/env.h\<close>, \<open>util/env_posix.cc\<close>).

  A \<open>size_t\<close> is a 64-bit word where sums of it can wrap.  A read outside a buffer and an \<open>assert\<close> that
  fails have no result (\<open>None\<close>).  \<open>crc\<close> is \<open>crc32c::Extend\<close>.  Allocation succeeds.
\<close>

subsection \<open>Handles and the footer\<close>

record block_handle =
  bh_offset :: u64
  bh_size :: u64

definition block_handle :: block_handle where
  "block_handle = \<lparr>bh_offset = NOT 0, bh_size = NOT 0\<rparr>"

definition kMaxEncodedLength :: nat where "kMaxEncodedLength = 10 + 10"

definition block_handle_encode_to :: "block_handle \<Rightarrow> u8 list \<Rightarrow> u8 list option" where
  "block_handle_encode_to h dst =
     (if bh_offset h \<noteq> NOT 0 \<and> bh_size h \<noteq> NOT 0
      then Some (put_varint64 (put_varint64 dst (bh_offset h)) (bh_size h))
      else None)"

definition block_handle_decode_from :: "block_handle \<Rightarrow> slice \<Rightarrow> status \<times> block_handle \<times> slice" where
  "block_handle_decode_from h input =
     (case get_varint64 input of
        (None, input) \<Rightarrow> (corruption ''bad block handle'', h, input)
      | (Some offset, input) \<Rightarrow>
          let h = h\<lparr>bh_offset := offset\<rparr> in
          (case get_varint64 input of
             (None, input) \<Rightarrow> (corruption ''bad block handle'', h, input)
           | (Some sz, input) \<Rightarrow> (StatusOK, h\<lparr>bh_size := sz\<rparr>, input)))"

record footer =
  ft_metaindex_handle :: block_handle
  ft_index_handle :: block_handle

definition kEncodedLength :: nat where "kEncodedLength = 2 * kMaxEncodedLength + 8"
definition kTableMagicNumber :: u64 where "kTableMagicNumber = 0xdb4775248b80fb57"
definition kBlockTrailerSize :: nat where "kBlockTrailerSize = 5"

text \<open>\<open>string::resize\<close>\<close>

definition resize :: "nat \<Rightarrow> u8 list \<Rightarrow> u8 list" where
  "resize n s = take n s @ replicate (n - length s) 0"

definition footer_encode_to :: "footer \<Rightarrow> u8 list \<Rightarrow> u8 list option" where
  "footer_encode_to f dst =
     do {
       let original_size = length dst;
       dst \<leftarrow> block_handle_encode_to (ft_metaindex_handle f) dst;
       dst \<leftarrow> block_handle_encode_to (ft_index_handle f) dst;
       let dst = resize (2 * kMaxEncodedLength) dst;
       let dst = put_fixed32 dst (ucast (kTableMagicNumber AND 0xffffffff));
       let dst = put_fixed32 dst (ucast (drop_bit 32 kTableMagicNumber));
       if length dst = original_size + kEncodedLength then Some dst else None
     }"

definition footer_decode_from :: "footer \<Rightarrow> slice \<Rightarrow> (status \<times> footer \<times> slice) option" where
  "footer_decode_from f input =
     do {
       let magic_ptr = drop (kEncodedLength - 8) input;
       magic_lo \<leftarrow> decode_fixed32 magic_ptr;
       magic_hi \<leftarrow> decode_fixed32 (drop 4 magic_ptr);
       let magic = (push_bit 32 (ucast magic_hi) OR ucast magic_lo :: u64);
       if magic \<noteq> kTableMagicNumber
       then Some (corruption ''not an sstable (bad magic number)'', f, input)
       else
         let (result, h, input) = block_handle_decode_from (ft_metaindex_handle f) input;
             f = f\<lparr>ft_metaindex_handle := h\<rparr> in
         if \<not> status_ok result then Some (result, f, input)
         else
           let (result, h, input) = block_handle_decode_from (ft_index_handle f) input;
               f = f\<lparr>ft_index_handle := h\<rparr> in
           Some (result, f, if status_ok result then drop 8 magic_ptr else input)
     }"

subsection \<open>Files for random access\<close>

text \<open>\<open>Read\<close> gives a status, the bytes, and whether they lie in the buffer of the caller.\<close>

record 'f random_access_file =
  ra_read :: "'f \<Rightarrow> u64 \<Rightarrow> u64 \<Rightarrow> (status \<times> slice \<times> bool) option"

text \<open>\<open>PosixRandomAccessFile\<close>: \<open>pread\<close> gives the bytes from the offset on, at most \<open>n\<close>, or fails; it
  fails for an offset that is not an \<open>off_t\<close>.\<close>

record posix_random =
  pr_name :: "u8 list"
  pr_contents :: "u8 list"
  pr_temporary_fd :: bool
  pr_open_error :: "u8 list option"
  pr_read_error :: "u8 list option"
  pr_invalid :: "u8 list"

definition posix_pread :: "posix_random \<Rightarrow> u64 \<Rightarrow> u64 \<Rightarrow> u8 list + slice" where
  "posix_pread f offset n =
     (case pr_read_error f of
        Some e \<Rightarrow> Inl e
      | None \<Rightarrow>
          if sint offset < 0 then Inl (pr_invalid f)
          else Inr (take (unat n) (drop (unat offset) (pr_contents f))))"

definition posix_random_read :: "posix_random \<Rightarrow> u64 \<Rightarrow> u64 \<Rightarrow> (status \<times> slice \<times> bool) option" where
  "posix_random_read f offset n =
     (case if pr_temporary_fd f then pr_open_error f else None of
        Some e \<Rightarrow> Some (io_error (pr_name f) e, [], False)
      | None \<Rightarrow>
          (case posix_pread f offset n of
             Inl e \<Rightarrow> Some (io_error (pr_name f) e, [], True)
           | Inr data \<Rightarrow> Some (StatusOK, data, True)))"

definition posix_random_access_file :: "posix_random random_access_file" where
  "posix_random_access_file = \<lparr>ra_read = posix_random_read\<rparr>"

record posix_mmap =
  pm_name :: "u8 list"
  pm_region :: "u8 list"
  pm_einval :: "u8 list"

definition posix_mmap_read :: "posix_mmap \<Rightarrow> u64 \<Rightarrow> u64 \<Rightarrow> (status \<times> slice \<times> bool) option" where
  "posix_mmap_read f offset n =
     (if offset + n > of_nat (length (pm_region f))
      then Some (io_error (pm_name f) (pm_einval f), [], False)
      else if unat offset + unat n > length (pm_region f) then None
      else Some (StatusOK, take (unat n) (drop (unat offset) (pm_region f)), False))"

definition posix_mmap_readable_file :: "posix_mmap random_access_file" where
  "posix_mmap_readable_file = \<lparr>ra_read = posix_mmap_read\<rparr>"

subsection \<open>Blocks\<close>

datatype compression_type = KNoCompression | KSnappyCompression

definition compression_byte :: "compression_type \<Rightarrow> u8" where
  "compression_byte t = (case t of KNoCompression \<Rightarrow> 0 | KSnappyCompression \<Rightarrow> 1)"

record read_options =
  ro_verify_checksums :: bool
  ro_fill_cache :: bool

definition read_options :: read_options where
  "read_options = \<lparr>ro_verify_checksums = False, ro_fill_cache = True\<rparr>"

record block_contents =
  bc_data :: slice
  bc_cachable :: bool
  bc_heap_allocated :: bool

text \<open>Without \<open>SNAPPY\<close> the functions of \<open>port/port_posix.h\<close> return false and leave their output.\<close>

definition snappy_compress :: "slice \<Rightarrow> u8 list option" where "snappy_compress input = None"
definition snappy_get_uncompressed_length :: "slice \<Rightarrow> nat option" where
  "snappy_get_uncompressed_length input = None"
definition snappy_uncompress :: "slice \<Rightarrow> u8 list option" where "snappy_uncompress input = None"

definition read_block :: "(u32 \<Rightarrow> u8 list \<Rightarrow> u32) \<Rightarrow> 'f random_access_file \<Rightarrow> 'f \<Rightarrow> read_options \<Rightarrow>
    block_handle \<Rightarrow> (status \<times> block_contents) option" where
  "read_block crc ops file options handle =
     do {
       let result = \<lparr>bc_data = [], bc_cachable = False, bc_heap_allocated = False\<rparr>;
       let n = bh_size handle;
       let total = n + of_nat kBlockTrailerSize;
       (s, contents, in_buf) \<leftarrow> ra_read ops file (bh_offset handle) total;
       if \<not> status_ok s then Some (s, result)
       else if length contents \<noteq> unat total then Some (corruption ''truncated block read'', result)
       else
         do {
           ok \<leftarrow> (if ro_verify_checksums options then
                   if unat (n + 1) > length contents then None
                   else
                     do {
                       stored \<leftarrow> decode_fixed32 (drop (unat (n + 1)) contents);
                       Some (crc 0 (take (unat (n + 1)) contents) = crc_unmask stored)
                     }
                 else Some True);
           if \<not> ok then Some (corruption ''block checksum mismatch'', result)
           else if unat n \<ge> length contents then None
           else if contents ! unat n = compression_byte KNoCompression then
             Some (StatusOK, \<lparr>bc_data = take (unat n) contents, bc_cachable = in_buf,
               bc_heap_allocated = in_buf\<rparr>)
           else if contents ! unat n = compression_byte KSnappyCompression then
             (case snappy_get_uncompressed_length (take (unat n) contents) of
                None \<Rightarrow> Some (corruption ''corrupted compressed block contents'', result)
              | Some ulength \<Rightarrow>
                  (case snappy_uncompress (take (unat n) contents) of
                     None \<Rightarrow> Some (corruption ''corrupted compressed block contents'', result)
                   | Some ubuf \<Rightarrow>
                       Some (StatusOK, \<lparr>bc_data = ubuf, bc_cachable = True, bc_heap_allocated = True\<rparr>)))
           else Some (corruption ''bad block type'', result)
         }
     }"

end
