(* ===== verification/LdFileName.thy ===== *)
theory LdFileName
  imports LdFile LdCompare
begin

text \<open>
  The names of the database's files (\<open>db/filename.h\<close>, \<open>db/filename.cc\<close>), and how \<open>CURRENT\<close> is made to
  point to a manifest (\<open>SetCurrentFile\<close>, \<open>util/env.cc\<close>) in the POSIX environment
  (\<open>util/env_posix.cc\<close>).  Names contain no NUL, so a name and its \<open>c_str\<close> are the same.

  An \<open>assert\<close> that fails has no result (\<open>None\<close>).
\<close>

datatype file_type =
    KLogFile | KDBLockFile | KTableFile | KDescriptorFile | KCurrentFile | KTempFile | KInfoLogFile

text \<open>\<open>%06llu\<close>\<close>

definition decimal6 :: "u64 \<Rightarrow> u8 list" where
  "decimal6 n = (let d = decimal (unat n) in replicate (6 - length d) 48 @ d)"

definition make_file_name :: "slice \<Rightarrow> u64 \<Rightarrow> string \<Rightarrow> slice" where
  "make_file_name name number suffix =
     name @ ascii ''/'' @ decimal6 number @ ascii ''.'' @ ascii suffix"

definition log_file_name :: "slice \<Rightarrow> u64 \<Rightarrow> slice option" where
  "log_file_name name number = (if number > 0 then Some (make_file_name name number ''log'') else None)"

definition table_file_name :: "slice \<Rightarrow> u64 \<Rightarrow> slice option" where
  "table_file_name name number = (if number > 0 then Some (make_file_name name number ''ldb'') else None)"

definition sst_table_file_name :: "slice \<Rightarrow> u64 \<Rightarrow> slice option" where
  "sst_table_file_name name number =
     (if number > 0 then Some (make_file_name name number ''sst'') else None)"

definition descriptor_file_name :: "slice \<Rightarrow> u64 \<Rightarrow> slice option" where
  "descriptor_file_name dbname number =
     (if number > 0 then Some (dbname @ ascii ''/MANIFEST-'' @ decimal6 number) else None)"

definition current_file_name :: "slice \<Rightarrow> slice" where
  "current_file_name dbname = dbname @ ascii ''/CURRENT''"

definition lock_file_name :: "slice \<Rightarrow> slice" where
  "lock_file_name dbname = dbname @ ascii ''/LOCK''"

definition temp_file_name :: "slice \<Rightarrow> u64 \<Rightarrow> slice option" where
  "temp_file_name dbname number =
     (if number > 0 then Some (make_file_name dbname number ''dbtmp'') else None)"

definition info_log_file_name :: "slice \<Rightarrow> slice" where
  "info_log_file_name dbname = dbname @ ascii ''/LOG''"

definition old_info_log_file_name :: "slice \<Rightarrow> slice" where
  "old_info_log_file_name dbname = dbname @ ascii ''/LOG.old''"

definition slice_is :: "slice \<Rightarrow> string \<Rightarrow> bool" where
  "slice_is s x = (slice_eq s (ascii x) = Some True)"

definition parse_file_name :: "slice \<Rightarrow> (u64 \<times> file_type) option" where
  "parse_file_name rest =
     (if slice_is rest ''CURRENT'' then Some (0, KCurrentFile)
      else if slice_is rest ''LOCK'' then Some (0, KDBLockFile)
      else if slice_is rest ''LOG'' \<or> slice_is rest ''LOG.old'' then Some (0, KInfoLogFile)
      else if slice_starts_with rest (ascii ''MANIFEST-'') = Some True then
        case consume_decimal_number (drop 9 rest) of
          (None, rest) \<Rightarrow> None
        | (Some num, rest) \<Rightarrow> if rest \<noteq> [] then None else Some (num, KDescriptorFile)
      else
        case consume_decimal_number rest of
          (None, rest) \<Rightarrow> None
        | (Some num, suffix) \<Rightarrow>
            if slice_is suffix ''.log'' then Some (num, KLogFile)
            else if slice_is suffix ''.sst'' \<or> slice_is suffix ''.ldb'' then Some (num, KTableFile)
            else if slice_is suffix ''.dbtmp'' then Some (num, KTempFile)
            else None)"

subsection \<open>Names are read back\<close>

lemma slice_is_iff: "slice_is s x \<longleftrightarrow> s = ascii x"
  by (simp add: slice_is_def slice_eq_iff)

lemma decimal6_digits: "c \<in> set (decimal6 n) \<Longrightarrow> is_digit c"
  using decimal_digits by (auto simp: decimal6_def Let_def is_digit_def)

lemma digits_value_zeros: "digits_value (replicate k 48 @ cs) 0 = digits_value cs 0"
  by (induction k) simp_all

lemma decimal6_value: "digits_value (decimal6 n) 0 = unat n"
  by (simp add: decimal6_def Let_def digits_value_zeros decimal_value)

lemma decimal6_not_Nil [simp]: "decimal6 n \<noteq> []"
  by (simp add: decimal6_def Let_def)

lemma consume_decimal6:
  assumes "r = [] \<or> \<not> is_digit (hd r)"
  shows "consume_decimal_number (decimal6 n @ r) = (Some n, r)"
  using consume_decimal_number_spec [of "decimal6 n" r] decimal6_digits assms unat_u64_less [of n]
  by (simp add: decimal6_value)

lemma decimal6_hd: "\<exists>c cs. decimal6 n = c # cs \<and> is_digit c"
  using decimal6_digits [of "hd (decimal6 n)" n] decimal6_not_Nil [of n]
  by (cases "decimal6 n") auto

lemma not_digit_ascii:
  "\<not> is_digit 46" "\<not> is_digit 77" "\<not> is_digit 67" "\<not> is_digit 76"
  by (simp_all add: is_digit_def)

lemma parse_number_name:
  assumes "\<not> is_digit (hd s)" "s \<noteq> []"
  shows "parse_file_name (decimal6 n @ s) =
     (if slice_is s ''.log'' then Some (n, KLogFile)
      else if slice_is s ''.sst'' \<or> slice_is s ''.ldb'' then Some (n, KTableFile)
      else if slice_is s ''.dbtmp'' then Some (n, KTempFile)
      else None)"
proof -
  obtain c cs where c: "decimal6 n = c # cs" "is_digit c" using decimal6_hd by blast
  then have "c \<noteq> 67" "c \<noteq> 76" "c \<noteq> 77" using not_digit_ascii by auto
  then have "\<not> slice_is (decimal6 n @ s) x" if "x \<in> {''CURRENT'', ''LOCK'', ''LOG'', ''LOG.old''}" for x
    using that c(1) by (auto simp: slice_is_iff ascii_def)
  moreover have "slice_starts_with (decimal6 n @ s) (ascii ''MANIFEST-'') \<noteq> Some True"
    using \<open>c \<noteq> 77\<close> c(1) by (auto simp: slice_starts_with_iff ascii_def)
  ultimately show ?thesis using consume_decimal6 [of s n] assms
    by (simp add: parse_file_name_def)
qed

lemma parse_numbered:
  "parse_file_name (decimal6 n @ ascii ''.log'') = Some (n, KLogFile)"
  "parse_file_name (decimal6 n @ ascii ''.ldb'') = Some (n, KTableFile)"
  "parse_file_name (decimal6 n @ ascii ''.sst'') = Some (n, KTableFile)"
  "parse_file_name (decimal6 n @ ascii ''.dbtmp'') = Some (n, KTempFile)"
  by (simp_all add: parse_number_name slice_is_iff ascii_def is_digit_def)

lemma parse_manifest: "parse_file_name (ascii ''MANIFEST-'' @ decimal6 n) = Some (n, KDescriptorFile)"
  using consume_decimal6 [of "[]" n]
  by (simp add: parse_file_name_def slice_is_iff slice_starts_with_iff) (simp add: ascii_def)

lemma parse_fixed:
  "parse_file_name (ascii ''CURRENT'') = Some (0, KCurrentFile)"
  "parse_file_name (ascii ''LOCK'') = Some (0, KDBLockFile)"
  "parse_file_name (ascii ''LOG'') = Some (0, KInfoLogFile)"
  "parse_file_name (ascii ''LOG.old'') = Some (0, KInfoLogFile)"
  by (simp_all add: parse_file_name_def slice_is_iff) (simp_all add: ascii_def)

subsection \<open>Environments\<close>

text \<open>The operations of an \<open>Env\<close> that \<open>SetCurrentFile\<close> uses, on a state of type \<open>'w\<close>; an open
  file is named by its name.\<close>

record 'w env =
  env_new_writable_file :: "slice \<Rightarrow> 'w \<Rightarrow> status \<times> 'w"
  env_append :: "slice \<Rightarrow> slice \<Rightarrow> 'w \<Rightarrow> status \<times> 'w"
  env_sync :: "slice \<Rightarrow> 'w \<Rightarrow> status \<times> 'w"
  env_close :: "slice \<Rightarrow> 'w \<Rightarrow> status \<times> 'w"
  env_destroy :: "slice \<Rightarrow> 'w \<Rightarrow> 'w"
  env_delete_file :: "slice \<Rightarrow> 'w \<Rightarrow> status \<times> 'w"
  env_rename_file :: "slice \<Rightarrow> slice \<Rightarrow> 'w \<Rightarrow> status \<times> 'w"

definition do_write_string_to_file ::
    "'w env \<Rightarrow> slice \<Rightarrow> slice \<Rightarrow> bool \<Rightarrow> 'w \<Rightarrow> status \<times> 'w" where
  "do_write_string_to_file env data fname should_sync w =
     (let (s, w) = env_new_writable_file env fname w in
      if \<not> status_ok s then (s, w)
      else
        let (s, w) = env_append env fname data w;
            (s, w) = (if status_ok s \<and> should_sync then env_sync env fname w else (s, w));
            (s, w) = (if status_ok s then env_close env fname w else (s, w));
            w = env_destroy env fname w;
            w = (if \<not> status_ok s then snd (env_delete_file env fname w) else w) in
        (s, w))"

definition write_string_to_file :: "'w env \<Rightarrow> slice \<Rightarrow> slice \<Rightarrow> 'w \<Rightarrow> status \<times> 'w" where
  "write_string_to_file env data fname = do_write_string_to_file env data fname False"

definition write_string_to_file_sync :: "'w env \<Rightarrow> slice \<Rightarrow> slice \<Rightarrow> 'w \<Rightarrow> status \<times> 'w" where
  "write_string_to_file_sync env data fname = do_write_string_to_file env data fname True"

definition set_current_file :: "'w env \<Rightarrow> slice \<Rightarrow> u64 \<Rightarrow> 'w \<Rightarrow> (status \<times> 'w) option" where
  "set_current_file env dbname descriptor_number w =
     do {
       manifest \<leftarrow> descriptor_file_name dbname descriptor_number;
       if slice_starts_with manifest (dbname @ ascii ''/'') \<noteq> Some True then None
       else
         do {
           let contents = drop (length dbname + 1) manifest;
           tmp \<leftarrow> temp_file_name dbname descriptor_number;
           let (s, w) = write_string_to_file_sync env (contents @ [10]) tmp w;
           let (s, w) = (if status_ok s
                         then env_rename_file env tmp (current_file_name dbname) w else (s, w));
           let w = (if \<not> status_ok s then snd (env_delete_file env tmp w) else w);
           Some (s, w)
         }
     }"

text \<open>What a file system does: an operation changes the file it names and no other, and what it
  reports as done is done.  \<open>files\<close> are the contents by name, \<open>opened\<close> tells which are open for
  writing.\<close>

locale file_system =
  fixes env :: "'w env" and files :: "'w \<Rightarrow> slice \<Rightarrow> u8 list option" and opened :: "'w \<Rightarrow> slice \<Rightarrow> bool"
  assumes new_file: "env_new_writable_file env f w = (s, w') \<Longrightarrow>
      (status_ok s \<longrightarrow> files w' f = Some []) \<and> (\<forall>g. g \<noteq> f \<longrightarrow> files w' g = files w g)"
    and append_file: "env_append env f d w = (s, w') \<Longrightarrow>
      (status_ok s \<longrightarrow> files w' f = map_option (\<lambda>c. c @ d) (files w f)) \<and>
      (\<forall>g. g \<noteq> f \<longrightarrow> files w' g = files w g)"
    and sync_file: "env_sync env f w = (s, w') \<Longrightarrow>
      (status_ok s \<longrightarrow> files w' f = files w f) \<and> (\<forall>g. g \<noteq> f \<longrightarrow> files w' g = files w g)"
    and close_file: "env_close env f w = (s, w') \<Longrightarrow>
      (status_ok s \<longrightarrow> files w' f = files w f) \<and> \<not> opened w' f \<and>
      (\<forall>g. g \<noteq> f \<longrightarrow> files w' g = files w g)"
    and destroy_file: "(\<not> opened w f \<longrightarrow> env_destroy env f w = w) \<and>
      (\<forall>g. g \<noteq> f \<longrightarrow> files (env_destroy env f w) g = files w g)"
    and delete_file: "env_delete_file env f w = (s, w') \<Longrightarrow> (\<forall>g. g \<noteq> f \<longrightarrow> files w' g = files w g)"
    and rename_file: "env_rename_file env f g w = (s, w') \<Longrightarrow> f \<noteq> g \<Longrightarrow>
      files w' = (if status_ok s then (files w)(f := None, g := files w f) else files w)"
begin

lemma written_file:
  assumes "do_write_string_to_file env data f sync w = (s, w')"
  shows "(status_ok s \<longrightarrow> files w' f = Some data) \<and> (\<forall>g. g \<noteq> f \<longrightarrow> files w' g = files w g)"
proof -
  obtain s1 w1 where 1: "env_new_writable_file env f w = (s1, w1)" by fastforce
  obtain s2 w2 where 2: "env_append env f data w1 = (s2, w2)" by fastforce
  obtain s3 w3 where 3: "(if status_ok s2 \<and> sync then env_sync env f w2 else (s2, w2)) = (s3, w3)"
    by fastforce
  obtain s4 w4 where 4: "(if status_ok s3 then env_close env f w3 else (s3, w3)) = (s4, w4)" by fastforce
  show ?thesis
  proof (cases "status_ok s1")
    case False
    with assms 1 new_file [OF 1] show ?thesis by (simp add: do_write_string_to_file_def)
  next
    case True
    define w5 where "w5 = env_destroy env f w4"
    have out: "s = s4" "w' = (if \<not> status_ok s4 then snd (env_delete_file env f w5) else w5)"
      using assms True 1 2 3 4 by (auto simp: do_write_string_to_file_def w5_def Let_def)
    have same: "files w1 g = files w g" "files w2 g = files w1 g" "files w3 g = files w2 g"
      "files w4 g = files w3 g" "files w5 g = files w4 g" if "g \<noteq> f" for g
      using that new_file [OF 1] append_file [OF 2] 3 4 sync_file [of f w2 s3 w3]
        close_file [of f w3 s4 w4] destroy_file [of w4 f]
      by (auto simp: w5_def split: if_splits)
    have "files w' g = files w g" if "g \<noteq> f" for g
      using same [OF that] out(2) that delete_file [of f w5] by (cases "env_delete_file env f w5") auto
    moreover have "files w' f = Some data" if "status_ok s"
    proof -
      from that out(1) have ok4: "status_ok s4" by simp
      with 4 have ok3: "status_ok s3" and c: "env_close env f w3 = (s4, w4)" by (auto split: if_splits)
      from 3 ok3 have ok2: "status_ok s2" by (auto split: if_splits)
      have "files w1 f = Some []" using new_file [OF 1] True by blast
      then have "files w2 f = Some data" using append_file [OF 2] ok2 by simp
      moreover have "files w3 f = files w2 f"
        using 3 ok3 sync_file [of f w2 s3 w3] by (auto split: if_splits)
      moreover have "files w4 f = files w3 f" "\<not> opened w4 f" using close_file [OF c] ok4 by blast+
      moreover from this(2) have "w5 = w4" using destroy_file by (simp add: w5_def)
      ultimately show ?thesis using out ok4 by simp
    qed
    ultimately show ?thesis by blast
  qed
qed

lemma name_distinct: "make_file_name db n ''dbtmp'' \<noteq> current_file_name db"
proof -
  obtain c cs where c: "decimal6 n = c # cs" "is_digit c" using decimal6_hd by blast
  then have "c \<noteq> 67" using not_digit_ascii by auto
  with c(1) show ?thesis by (simp add: make_file_name_def current_file_name_def ascii_def)
qed

text \<open>\<open>CURRENT\<close> is the old one, or it names the new manifest.\<close>

lemma set_current_ok:
  assumes "0 < n"
  shows "\<exists>s w'. set_current_file env db n w = Some (s, w') \<and>
     files w' (current_file_name db) =
       (if status_ok s then Some (ascii ''MANIFEST-'' @ decimal6 n @ [10])
        else files w (current_file_name db)) \<and>
     (\<forall>g. g \<noteq> current_file_name db \<and> g \<noteq> make_file_name db n ''dbtmp'' \<longrightarrow> files w' g = files w g)"
proof -
  let ?tmp = "make_file_name db n ''dbtmp''" and ?cur = "current_file_name db"
  let ?data = "ascii ''MANIFEST-'' @ decimal6 n @ [10]"
  obtain s1 w1 where 1: "write_string_to_file_sync env ?data ?tmp w = (s1, w1)" by fastforce
  obtain s2 w2 where 2: "(if status_ok s1 then env_rename_file env ?tmp ?cur w1 else (s1, w1)) = (s2, w2)"
    by fastforce
  define w3 where "w3 = (if \<not> status_ok s2 then snd (env_delete_file env ?tmp w2) else w2)"
  have "drop (length db + 1) (db @ ascii ''/MANIFEST-'' @ decimal6 n) @ [10] = ?data"
    by (simp add: ascii_def)
  moreover have "slice_starts_with (db @ ascii ''/MANIFEST-'' @ decimal6 n) (db @ ascii ''/'') = Some True"
    by (simp add: slice_starts_with_iff ascii_def)
  ultimately have run: "set_current_file env db n w = Some (s2, w3)"
    using assms 1 2 by (simp add: set_current_file_def descriptor_file_name_def temp_file_name_def w3_def Let_def)
  note written = written_file [OF 1 [unfolded write_string_to_file_sync_def]]
  have ren: "files w2 = (if status_ok s1 \<and> status_ok s2
      then (files w1)(?tmp := None, ?cur := files w1 ?tmp) else files w1)"
    using 2 rename_file [of ?tmp ?cur w1 s2 w2] name_distinct by (auto split: if_splits)
  have del: "files w3 g = files w2 g" if "g \<noteq> ?tmp" for g
    using that delete_file [of ?tmp w2] by (cases "env_delete_file env ?tmp w2") (auto simp: w3_def)
  have ok: "status_ok s2 \<longrightarrow> status_ok s1" using 2 by (auto split: if_splits)
  show ?thesis
    using run written ren del [of ?cur] del ok name_distinct [of db n]
    by (intro exI [of _ s2] exI [of _ w3]) auto
qed

end

subsection \<open>POSIX\<close>

text \<open>The file system the system calls work on: contents by name, the names that are open for
  writing, and for each system call to come whether it fails, with the text of its \<open>errno\<close> and, for
  one that writes, how many bytes the file keeps.  After the list no call fails.\<close>

record posix_world =
  pw_files :: "slice \<Rightarrow> u8 list option"
  pw_open :: "slice list"
  pw_faults :: "(nat \<times> u8 list) option list"

definition sys_call :: "posix_world \<Rightarrow> (nat \<times> u8 list) option \<times> posix_world" where
  "sys_call w =
     (case pw_faults w of [] \<Rightarrow> (None, w) | x # xs \<Rightarrow> (x, w\<lparr>pw_faults := xs\<rparr>))"

definition change_file :: "slice \<Rightarrow> (u8 list \<Rightarrow> u8 list) \<Rightarrow> posix_world \<Rightarrow> posix_world" where
  "change_file f k w = w\<lparr>pw_files := (pw_files w)(f := map_option k (pw_files w f))\<rparr>"

definition posix_new_writable_file :: "slice \<Rightarrow> posix_world \<Rightarrow> status \<times> posix_world" where
  "posix_new_writable_file f w =
     (case sys_call w of
        (Some (k, e), w) \<Rightarrow> (io_error f e, w)
      | (None, w) \<Rightarrow>
          (StatusOK, w\<lparr>pw_files := (pw_files w)(f := Some []), pw_open := f # pw_open w\<rparr>))"

definition posix_file_append :: "slice \<Rightarrow> slice \<Rightarrow> posix_world \<Rightarrow> status \<times> posix_world" where
  "posix_file_append f d w =
     (case sys_call w of
        (Some (k, e), w) \<Rightarrow> (io_error f e, change_file f (\<lambda>c. take (length c + k) (c @ d)) w)
      | (None, w) \<Rightarrow> (StatusOK, change_file f (\<lambda>c. c @ d) w))"

definition base_name :: "slice \<Rightarrow> slice" where
  "base_name f = rev (takeWhile (\<lambda>c. c \<noteq> 47) (rev f))"

definition dir_name :: "slice \<Rightarrow> slice" where
  "dir_name f = (if 47 \<in> set f then take (length f - length (base_name f) - 1) f else ascii ''.'')"

definition sync_dir_if_manifest :: "slice \<Rightarrow> posix_world \<Rightarrow> status \<times> posix_world" where
  "sync_dir_if_manifest f w =
     (if slice_starts_with (base_name f) (ascii ''MANIFEST'') = Some True then
        case sys_call w of
          (Some (k, e), w) \<Rightarrow> (io_error (dir_name f) e, w)
        | (None, w) \<Rightarrow>
            (case sys_call w of
               (Some (k, e), w) \<Rightarrow> (io_error (dir_name f) e, w)
             | (None, w) \<Rightarrow> (StatusOK, w))
      else (StatusOK, w))"

definition posix_file_sync :: "slice \<Rightarrow> posix_world \<Rightarrow> status \<times> posix_world" where
  "posix_file_sync f w =
     (let (s, w) = sync_dir_if_manifest f w in
      if \<not> status_ok s then (s, w)
      else
        case sys_call w of
          (Some (k, e), w) \<Rightarrow> (io_error f e, change_file f (take k) w)
        | (None, w) \<Rightarrow>
            (case sys_call w of
               (Some (k, e), w) \<Rightarrow> (io_error f e, w)
             | (None, w) \<Rightarrow> (StatusOK, w)))"

definition posix_file_close :: "slice \<Rightarrow> posix_world \<Rightarrow> status \<times> posix_world" where
  "posix_file_close f w =
     (case sys_call (w\<lparr>pw_open := removeAll f (pw_open w)\<rparr>) of
        (Some (k, e), w) \<Rightarrow> (io_error f e, change_file f (take k) w)
      | (None, w) \<Rightarrow> (StatusOK, w))"

definition posix_file_destroy :: "slice \<Rightarrow> posix_world \<Rightarrow> posix_world" where
  "posix_file_destroy f w = (if f \<in> set (pw_open w) then snd (posix_file_close f w) else w)"

definition posix_delete_file :: "slice \<Rightarrow> posix_world \<Rightarrow> status \<times> posix_world" where
  "posix_delete_file f w =
     (case sys_call w of
        (Some (k, e), w) \<Rightarrow> (io_error f e, w)
      | (None, w) \<Rightarrow>
          if pw_files w f = None then (io_error f (ascii ''No such file or directory''), w)
          else (StatusOK, w\<lparr>pw_files := (pw_files w)(f := None)\<rparr>))"

definition posix_rename_file :: "slice \<Rightarrow> slice \<Rightarrow> posix_world \<Rightarrow> status \<times> posix_world" where
  "posix_rename_file src target w =
     (case sys_call w of
        (Some (k, e), w) \<Rightarrow> (io_error src e, w)
      | (None, w) \<Rightarrow>
          if pw_files w src = None then (io_error src (ascii ''No such file or directory''), w)
          else (StatusOK, w\<lparr>pw_files := (pw_files w)(src := None, target := pw_files w src)\<rparr>))"

definition posix_env :: "posix_world env" where
  "posix_env =
     \<lparr>env_new_writable_file = posix_new_writable_file, env_append = posix_file_append,
      env_sync = posix_file_sync, env_close = posix_file_close, env_destroy = posix_file_destroy,
      env_delete_file = posix_delete_file, env_rename_file = posix_rename_file\<rparr>"

lemma sys_call_files: "sys_call w = (x, w') \<Longrightarrow> pw_files w' = pw_files w \<and> pw_open w' = pw_open w"
  by (auto simp: sys_call_def split: list.splits)

lemma change_file_simps [simp]:
  "pw_files (change_file f k w) = (pw_files w)(f := map_option k (pw_files w f))"
  "pw_open (change_file f k w) = pw_open w"
  by (simp_all add: change_file_def)

lemma sync_dir_files: "sync_dir_if_manifest f w = (s, w') \<Longrightarrow> pw_files w' = pw_files w"
  by (auto simp: sync_dir_if_manifest_def split: if_splits prod.splits option.splits dest!: sys_call_files)

lemma close_files:
  "posix_file_close f w = (s, w') \<Longrightarrow> (status_ok s \<longrightarrow> pw_files w' f = pw_files w f) \<and>
     f \<notin> set (pw_open w') \<and> (\<forall>g. g \<noteq> f \<longrightarrow> pw_files w' g = pw_files w g)"
  by (auto simp: posix_file_close_def split: prod.splits option.splits dest!: sys_call_files)

lemma rename_files:
  assumes "posix_rename_file f g w = (s, w')" "f \<noteq> g"
  shows "pw_files w' = (if status_ok s then (pw_files w)(f := None, g := pw_files w f) else pw_files w)"
  using assms
  by (auto simp: posix_rename_file_def split: prod.splits option.splits if_splits dest!: sys_call_files)

interpretation posix_fs: file_system posix_env pw_files "\<lambda>w f. f \<in> set (pw_open w)"
proof
  fix f g d s and w w' :: posix_world
  show "env_new_writable_file posix_env f w = (s, w') \<Longrightarrow>
      (status_ok s \<longrightarrow> pw_files w' f = Some []) \<and> (\<forall>g. g \<noteq> f \<longrightarrow> pw_files w' g = pw_files w g)"
    by (auto simp: posix_env_def posix_new_writable_file_def split: prod.splits option.splits
        dest!: sys_call_files)
  show "env_append posix_env f d w = (s, w') \<Longrightarrow>
      (status_ok s \<longrightarrow> pw_files w' f = map_option (\<lambda>c. c @ d) (pw_files w f)) \<and>
      (\<forall>g. g \<noteq> f \<longrightarrow> pw_files w' g = pw_files w g)"
    by (auto simp: posix_env_def posix_file_append_def split: prod.splits option.splits
        dest!: sys_call_files)
  show "env_sync posix_env f w = (s, w') \<Longrightarrow>
      (status_ok s \<longrightarrow> pw_files w' f = pw_files w f) \<and> (\<forall>g. g \<noteq> f \<longrightarrow> pw_files w' g = pw_files w g)"
    by (auto simp: posix_env_def posix_file_sync_def split: prod.splits option.splits if_splits
        dest!: sys_call_files sync_dir_files)
  show "env_close posix_env f w = (s, w') \<Longrightarrow>
      (status_ok s \<longrightarrow> pw_files w' f = pw_files w f) \<and> f \<notin> set (pw_open w') \<and>
      (\<forall>g. g \<noteq> f \<longrightarrow> pw_files w' g = pw_files w g)"
    by (simp add: posix_env_def close_files)
  show "(f \<notin> set (pw_open w) \<longrightarrow> env_destroy posix_env f w = w) \<and>
      (\<forall>g. g \<noteq> f \<longrightarrow> pw_files (env_destroy posix_env f w) g = pw_files w g)"
    using close_files [of f w "fst (posix_file_close f w)" "snd (posix_file_close f w)"]
    by (simp add: posix_env_def posix_file_destroy_def)
  show "env_delete_file posix_env f w = (s, w') \<Longrightarrow> \<forall>g. g \<noteq> f \<longrightarrow> pw_files w' g = pw_files w g"
    by (auto simp: posix_env_def posix_delete_file_def split: prod.splits option.splits if_splits
        dest!: sys_call_files)
  show "env_rename_file posix_env f g w = (s, w') \<Longrightarrow> f \<noteq> g \<Longrightarrow>
      pw_files w' = (if status_ok s then (pw_files w)(f := None, g := pw_files w f) else pw_files w)"
    using rename_files [of f g w s w'] by (simp add: posix_env_def)
qed

end
