(* ===== verification/LdOptions.thy ===== *)
theory LdOptions
  imports LdFilterBlock LdFormat LdFileName
begin

text \<open>
  The options of a database (\<open>include/leveldb/options.h\<close>, \<open>util/options.cc\<close>) and their adjustment
  when it is opened (\<open>SanitizeOptions\<close> in \<open>db/db_impl.cc\<close>).

  A pointer to a comparator is its address with the object behind it; the logger and the block cache
  are their addresses.  A \<open>size_t\<close> is a 64-bit word.  \<open>block_restart_interval\<close> is not negative.
\<close>

record options =
  op_comparator_address :: nat
  op_comparator :: comparator
  op_create_if_missing :: bool
  op_error_if_exists :: bool
  op_paranoid_checks :: bool
  op_info_log :: "nat option"
  op_write_buffer_size :: u64
  op_max_open_files :: "32 word"
  op_block_cache :: "nat option"
  op_block_size :: u64
  op_block_restart_interval :: nat
  op_max_file_size :: u64
  op_compression :: compression_type
  op_reuse_logs :: bool
  op_filter_policy :: "filter_policy option"

definition default_options :: options where
  "default_options =
     \<lparr>op_comparator_address = 0, op_comparator = bytewise_comparator, op_create_if_missing = False,
      op_error_if_exists = False, op_paranoid_checks = False, op_info_log = None,
      op_write_buffer_size = push_bit 20 4, op_max_open_files = 1000, op_block_cache = None,
      op_block_size = 4096, op_block_restart_interval = 16, op_max_file_size = push_bit 20 2,
      op_compression = KSnappyCompression, op_reuse_logs = False, op_filter_policy = None\<rparr>"

subsection \<open>Adjusting options\<close>

text \<open>\<open>ClipToRange\<close> with \<open>int\<close> limits, for an \<open>int\<close> and for a \<open>size_t\<close>: the value is converted to
  \<open>int\<close> for the comparison.\<close>

definition clip_int :: "32 word \<Rightarrow> 32 word \<Rightarrow> 32 word \<Rightarrow> 32 word" where
  "clip_int p minvalue maxvalue =
     (let p = if sint p > sint maxvalue then maxvalue else p in
      if sint p < sint minvalue then minvalue else p)"

definition clip_size :: "u64 \<Rightarrow> 32 word \<Rightarrow> 32 word \<Rightarrow> u64" where
  "clip_size p minvalue maxvalue =
     (let p = if sint (ucast p :: 32 word) > sint maxvalue then scast maxvalue else p in
      if sint (ucast p :: 32 word) < sint minvalue then scast minvalue else p)"

definition kNumNonTableCacheFiles :: "32 word" where "kNumNonTableCacheFiles = 10"

text \<open>What \<open>SanitizeOptions\<close> uses of the environment, and \<open>NewLRUCache\<close>: their effect on the
  world \<open>'w\<close>.  The file names are the ones of \<open>InfoLogFileName\<close> and \<open>OldInfoLogFileName\<close>.\<close>

record 'w options_env =
  oe_create_dir :: "'w \<Rightarrow> u8 list \<Rightarrow> status \<times> 'w"
  oe_rename_file :: "'w \<Rightarrow> u8 list \<Rightarrow> u8 list \<Rightarrow> status \<times> 'w"
  oe_new_logger :: "'w \<Rightarrow> u8 list \<Rightarrow> status \<times> nat \<times> 'w"
  oe_new_lru_cache :: "'w \<Rightarrow> nat \<Rightarrow> nat \<times> 'w"

definition sanitize_options :: "'w options_env \<Rightarrow> 'w \<Rightarrow> u8 list \<Rightarrow> nat \<Rightarrow> comparator \<Rightarrow> filter_policy \<Rightarrow>
    options \<Rightarrow> options \<times> 'w" where
  "sanitize_options env w dbname icmp_address icmp ipolicy src =
     (let result = src\<lparr>op_comparator_address := icmp_address, op_comparator := icmp,
            op_filter_policy := (if op_filter_policy src \<noteq> None then Some ipolicy else None),
            op_max_open_files := clip_int (op_max_open_files src) (64 + kNumNonTableCacheFiles) 50000,
            op_write_buffer_size := clip_size (op_write_buffer_size src) (push_bit 10 64) (push_bit 30 1),
            op_max_file_size := clip_size (op_max_file_size src) (push_bit 20 1) (push_bit 30 1),
            op_block_size := clip_size (op_block_size src) (push_bit 10 1) (push_bit 20 4)\<rparr>;
          (result, w) =
            (if op_info_log result = None then
               let (s, w) = oe_create_dir env w dbname;
                   (s, w) = oe_rename_file env w (info_log_file_name dbname) (old_info_log_file_name dbname);
                   (s, l, w) = oe_new_logger env w (info_log_file_name dbname) in
               (result\<lparr>op_info_log := (if status_ok s then Some l else None)\<rparr>, w)
             else (result, w)) in
      if op_block_cache result = None then
        let (c, w) = oe_new_lru_cache env w (push_bit 20 8) in (result\<lparr>op_block_cache := Some c\<rparr>, w)
      else (result, w))"

end
