(* ===== verification/LdTableBuilder.thy ===== *)
theory LdTableBuilder
  imports LdOptions LdBlockWalk
begin

text \<open>
  Building a table file: \<open>TableBuilder\<close> (\<open>table/table_builder.cc\<close>).

  The builder writes to a file of type \<open>'f\<close> through its operations.  The block builders point to the
  options they were made with; the model keeps their interval and comparator in step.  An \<open>assert\<close>
  that fails has no result (\<open>None\<close>).
\<close>

record 'f table_rep =
  tb_options :: options
  tb_index_block_options :: options
  tb_file :: 'f
  tb_offset :: u64
  tb_status :: status
  tb_data_block :: block_builder
  tb_index_block :: block_builder
  tb_last_key :: "u8 list"
  tb_num_entries :: u64
  tb_closed :: bool
  tb_filter_block :: "filter_block_builder option"
  tb_pending_index_entry :: bool
  tb_pending_handle :: block_handle
  tb_compressed_output :: "u8 list"

abbreviation tb_ok :: "'f table_rep \<Rightarrow> bool" where
  "tb_ok r \<equiv> status_ok (tb_status r)"

definition options_block_builder :: "options \<Rightarrow> block_builder option" where
  "options_block_builder opt = block_builder (op_comparator opt) (op_block_restart_interval opt)"

definition follow_options :: "options \<Rightarrow> block_builder \<Rightarrow> block_builder" where
  "follow_options opt b =
     b\<lparr>bb_comparator := op_comparator opt, bb_restart_interval := op_block_restart_interval opt\<rparr>"

definition table_builder :: "options \<Rightarrow> 'f \<Rightarrow> 'f table_rep option" where
  "table_builder opt f =
     do {
       data_block \<leftarrow> options_block_builder opt;
       index_block \<leftarrow> options_block_builder opt;
       let index_opt = opt\<lparr>op_block_restart_interval := 1\<rparr>;
       filter_block \<leftarrow>
         (case op_filter_policy opt of
            None \<Rightarrow> Some None
          | Some policy \<Rightarrow> map_option Some (fb_start_block (filter_block_builder policy) 0));
       Some \<lparr>tb_options = opt, tb_index_block_options = index_opt, tb_file = f, tb_offset = 0,
         tb_status = StatusOK, tb_data_block = data_block,
         tb_index_block = follow_options index_opt index_block, tb_last_key = [], tb_num_entries = 0,
         tb_closed = False, tb_filter_block = filter_block, tb_pending_index_entry = False,
         tb_pending_handle = block_handle, tb_compressed_output = []\<rparr>
     }"

definition tb_change_options :: "'f table_rep \<Rightarrow> options \<Rightarrow> status \<times> 'f table_rep" where
  "tb_change_options r opt =
     (if op_comparator_address opt \<noteq> op_comparator_address (tb_options r)
      then (make_status KInvalidArgument (ascii ''changing comparator while building table'') [], r)
      else
        let index_opt = opt\<lparr>op_block_restart_interval := 1\<rparr> in
        (StatusOK, r\<lparr>tb_options := opt, tb_index_block_options := index_opt,
           tb_data_block := follow_options opt (tb_data_block r),
           tb_index_block := follow_options index_opt (tb_index_block r)\<rparr>))"

subsection \<open>Writing blocks\<close>

definition tb_write_raw_block :: "(u32 \<Rightarrow> u8 list \<Rightarrow> u32) \<Rightarrow> 'f writable_file \<Rightarrow> 'f table_rep \<Rightarrow>
    slice \<Rightarrow> compression_type \<Rightarrow> block_handle \<times> 'f table_rep" where
  "tb_write_raw_block crc ops r contents type =
     (let handle = \<lparr>bh_offset = tb_offset r, bh_size = of_nat (length contents)\<rparr>;
          (s, f) = wf_append ops (tb_file r) contents;
          r = r\<lparr>tb_status := s, tb_file := f\<rparr> in
      if tb_ok r then
        let c = crc (crc 0 contents) [compression_byte type];
            trailer = compression_byte type # encode_fixed32 (crc_mask c);
            (s, f) = wf_append ops (tb_file r) trailer;
            r = r\<lparr>tb_status := s, tb_file := f\<rparr> in
        if tb_ok r
        then (handle, r\<lparr>tb_offset := tb_offset r + (of_nat (length contents) + of_nat kBlockTrailerSize)\<rparr>)
        else (handle, r)
      else (handle, r))"

definition tb_write_block :: "(u32 \<Rightarrow> u8 list \<Rightarrow> u32) \<Rightarrow> 'f writable_file \<Rightarrow> 'f table_rep \<Rightarrow>
    block_builder \<Rightarrow> (block_builder \<times> block_handle \<times> 'f table_rep) option" where
  "tb_write_block crc ops r block =
     (if \<not> tb_ok r then None
      else
        let (raw, block) = bb_finish block;
            (contents, type, r) =
              (case op_compression (tb_options r) of
                 KNoCompression \<Rightarrow> (raw, KNoCompression, r)
               | KSnappyCompression \<Rightarrow>
                   (case snappy_compress raw of
                      None \<Rightarrow> (raw, KNoCompression, r)
                    | Some compressed \<Rightarrow>
                        let r = r\<lparr>tb_compressed_output := compressed\<rparr> in
                        if length compressed < length raw - length raw div 8
                        then (compressed, KSnappyCompression, r)
                        else (raw, KNoCompression, r)));
            (handle, r) = tb_write_raw_block crc ops r contents type;
            r = r\<lparr>tb_compressed_output := []\<rparr> in
        Some (bb_reset block, handle, r))"

subsection \<open>\<open>Add\<close>, \<open>Flush\<close> and \<open>Finish\<close>\<close>

definition tb_start_filter :: "'f table_rep \<Rightarrow> 'f table_rep option" where
  "tb_start_filter r =
     (case tb_filter_block r of
        None \<Rightarrow> Some r
      | Some fb \<Rightarrow>
          map_option (\<lambda>fb. r\<lparr>tb_filter_block := Some fb\<rparr>) (fb_start_block fb (tb_offset r)))"

definition tb_flush :: "(u32 \<Rightarrow> u8 list \<Rightarrow> u32) \<Rightarrow> 'f writable_file \<Rightarrow> 'f table_rep \<Rightarrow>
    'f table_rep option" where
  "tb_flush crc ops r =
     (if tb_closed r then None
      else if \<not> tb_ok r then Some r
      else if bb_empty (tb_data_block r) then Some r
      else if tb_pending_index_entry r then None
      else
        do {
          (block, handle, r) \<leftarrow> tb_write_block crc ops r (tb_data_block r);
          let r = r\<lparr>tb_data_block := block, tb_pending_handle := handle\<rparr>;
          let r = (if tb_ok r then
                     let (s, f) = wf_flush ops (tb_file r) in
                     r\<lparr>tb_pending_index_entry := True, tb_status := s, tb_file := f\<rparr>
                   else r);
          tb_start_filter r
        })"

definition tb_add_index_entry :: "'f table_rep \<Rightarrow> u8 list \<Rightarrow> 'f table_rep option" where
  "tb_add_index_entry r last_key =
     do {
       handle_encoding \<leftarrow> block_handle_encode_to (tb_pending_handle r) [];
       index_block \<leftarrow> bb_add (tb_index_block r) last_key handle_encoding;
       Some (r\<lparr>tb_last_key := last_key, tb_index_block := index_block, tb_pending_index_entry := False\<rparr>)
     }"

definition tb_add :: "(u32 \<Rightarrow> u8 list \<Rightarrow> u32) \<Rightarrow> 'f writable_file \<Rightarrow> 'f table_rep \<Rightarrow>
    slice \<Rightarrow> slice \<Rightarrow> 'f table_rep option" where
  "tb_add crc ops r key v =
     (if tb_closed r then None
      else if \<not> tb_ok r then Some r
      else
        do {
          after \<leftarrow> (if sint (tb_num_entries r) > 0
                   then map_option (\<lambda>c. c > 0) (compare (op_comparator (tb_options r)) key (tb_last_key r))
                   else Some True);
          r \<leftarrow> (if \<not> after then None
               else if tb_pending_index_entry r then
                 if \<not> bb_empty (tb_data_block r) then None
                 else
                   Option.bind
                     (find_shortest_separator (op_comparator (tb_options r)) (tb_last_key r) key)
                     (tb_add_index_entry r)
               else Some r);
          let r = r\<lparr>tb_filter_block := map_option (\<lambda>fb. fb_add_key fb key) (tb_filter_block r),
                   tb_last_key := key, tb_num_entries := tb_num_entries r + 1\<rparr>;
          data_block \<leftarrow> bb_add (tb_data_block r) key v;
          let r = r\<lparr>tb_data_block := data_block\<rparr>;
          if bb_current_size_estimate data_block \<ge> unat (op_block_size (tb_options r))
          then tb_flush crc ops r
          else Some r
        })"

definition meta_index_block :: "'f table_rep \<Rightarrow> block_handle \<Rightarrow> block_builder option" where
  "meta_index_block r filter_handle =
     do {
       block \<leftarrow> options_block_builder (tb_options r);
       case (tb_filter_block r, op_filter_policy (tb_options r)) of
         (None, _) \<Rightarrow> Some block
       | (Some fb, None) \<Rightarrow> None
       | (Some fb, Some policy) \<Rightarrow>
           do {
             handle_encoding \<leftarrow> block_handle_encode_to filter_handle [];
             bb_add block (ascii ''filter.'' @ policy_name policy) handle_encoding
           }
     }"

text \<open>The four steps of \<open>Finish\<close> after \<open>Flush\<close>.\<close>

definition tb_finish_filter :: "(u32 \<Rightarrow> u8 list \<Rightarrow> u32) \<Rightarrow> 'f writable_file \<Rightarrow> 'f table_rep \<Rightarrow>
    (block_handle \<times> 'f table_rep) option" where
  "tb_finish_filter crc ops r =
     (if \<not> tb_ok r then Some (block_handle, r)
      else
        case tb_filter_block r of
          None \<Rightarrow> Some (block_handle, r)
        | Some fb \<Rightarrow>
            do {
              (contents, fb) \<leftarrow> fb_finish fb;
              Some (tb_write_raw_block crc ops (r\<lparr>tb_filter_block := Some fb\<rparr>) contents KNoCompression)
            })"

definition tb_finish_meta :: "(u32 \<Rightarrow> u8 list \<Rightarrow> u32) \<Rightarrow> 'f writable_file \<Rightarrow> 'f table_rep \<Rightarrow>
    block_handle \<Rightarrow> (block_handle \<times> 'f table_rep) option" where
  "tb_finish_meta crc ops r filter_handle =
     (if \<not> tb_ok r then Some (block_handle, r)
      else
        do {
          block \<leftarrow> meta_index_block r filter_handle;
          (block, handle, r) \<leftarrow> tb_write_block crc ops r block;
          Some (handle, r)
        })"

definition tb_finish_index :: "(u32 \<Rightarrow> u8 list \<Rightarrow> u32) \<Rightarrow> 'f writable_file \<Rightarrow> 'f table_rep \<Rightarrow>
    (block_handle \<times> 'f table_rep) option" where
  "tb_finish_index crc ops r =
     (if \<not> tb_ok r then Some (block_handle, r)
      else
        do {
          r \<leftarrow> (if tb_pending_index_entry r then
                 Option.bind
                   (find_short_successor (op_comparator (tb_options r)) (tb_last_key r))
                   (tb_add_index_entry r)
               else Some r);
          (block, handle, r) \<leftarrow> tb_write_block crc ops r (tb_index_block r);
          Some (handle, r\<lparr>tb_index_block := block\<rparr>)
        })"

definition tb_finish_footer :: "'f writable_file \<Rightarrow> 'f table_rep \<Rightarrow> block_handle \<Rightarrow> block_handle \<Rightarrow>
    'f table_rep option" where
  "tb_finish_footer ops r meta_handle index_handle =
     (if \<not> tb_ok r then Some r
      else
        do {
          footer_encoding \<leftarrow> footer_encode_to
            \<lparr>ft_metaindex_handle = meta_handle, ft_index_handle = index_handle\<rparr> [];
          let (s, f) = wf_append ops (tb_file r) footer_encoding;
          let r = r\<lparr>tb_status := s, tb_file := f\<rparr>;
          if tb_ok r
          then Some (r\<lparr>tb_offset := tb_offset r + of_nat (length footer_encoding)\<rparr>)
          else Some r
        })"

definition tb_finish :: "(u32 \<Rightarrow> u8 list \<Rightarrow> u32) \<Rightarrow> 'f writable_file \<Rightarrow> 'f table_rep \<Rightarrow>
    (status \<times> 'f table_rep) option" where
  "tb_finish crc ops r =
     do {
       r \<leftarrow> tb_flush crc ops r;
       r \<leftarrow> (if tb_closed r then None else Some (r\<lparr>tb_closed := True\<rparr>));
       (filter_handle, r) \<leftarrow> tb_finish_filter crc ops r;
       (meta_handle, r) \<leftarrow> tb_finish_meta crc ops r filter_handle;
       (index_handle, r) \<leftarrow> tb_finish_index crc ops r;
       r \<leftarrow> tb_finish_footer ops r meta_handle index_handle;
       Some (tb_status r, r)
     }"

definition tb_abandon :: "'f table_rep \<Rightarrow> 'f table_rep option" where
  "tb_abandon r = (if tb_closed r then None else Some (r\<lparr>tb_closed := True\<rparr>))"

definition tb_destroy :: "'f table_rep \<Rightarrow> unit option" where
  "tb_destroy r = (if tb_closed r then Some () else None)"

definition tb_num_entries_of :: "'f table_rep \<Rightarrow> u64" where "tb_num_entries_of r = tb_num_entries r"
definition tb_file_size :: "'f table_rep \<Rightarrow> u64" where "tb_file_size r = tb_offset r"

end
