(* ===== verification/LdTable.thy ===== *)
theory LdTable
  imports LdTableBuilder
begin

text \<open>
  Reading a table file: \<open>Table\<close> (\<open>table/table.cc\<close>) and the iterators that are empty or in an error
  state (\<open>table/iterator.cc\<close>).

  The file and the block cache are reached through their operations; \<open>None\<close> for the cache is a null
  \<open>block_cache\<close>.  An iterator that \<open>BlockReader\<close> returns comes with the cache handle its clean-up
  function releases.
\<close>

subsection \<open>Iterators over a block\<close>

definition ni_valid :: "new_iterator \<Rightarrow> bool" where
  "ni_valid i = (case i of EmptyIterator s \<Rightarrow> False | BlockIterator b \<Rightarrow> bi_valid b)"

definition ni_status :: "new_iterator \<Rightarrow> status" where
  "ni_status i = (case i of EmptyIterator s \<Rightarrow> s | BlockIterator b \<Rightarrow> bi_status b)"

definition ni_key :: "new_iterator \<Rightarrow> slice option" where
  "ni_key i = (case i of EmptyIterator s \<Rightarrow> None | BlockIterator b \<Rightarrow> bi_get_key b)"

definition ni_value :: "new_iterator \<Rightarrow> slice option" where
  "ni_value i = (case i of EmptyIterator s \<Rightarrow> None | BlockIterator b \<Rightarrow> bi_get_value b)"

definition ni_seek :: "new_iterator \<Rightarrow> slice \<Rightarrow> new_iterator option" where
  "ni_seek i target =
     (case i of EmptyIterator s \<Rightarrow> Some i | BlockIterator b \<Rightarrow> map_option BlockIterator (bi_seek b target))"

definition ni_seek_to_first :: "new_iterator \<Rightarrow> new_iterator option" where
  "ni_seek_to_first i =
     (case i of EmptyIterator s \<Rightarrow> Some i | BlockIterator b \<Rightarrow> map_option BlockIterator (bi_seek_to_first b))"

definition ni_seek_to_last :: "new_iterator \<Rightarrow> new_iterator option" where
  "ni_seek_to_last i =
     (case i of EmptyIterator s \<Rightarrow> Some i | BlockIterator b \<Rightarrow> map_option BlockIterator (bi_seek_to_last b))"

definition ni_next :: "new_iterator \<Rightarrow> new_iterator option" where
  "ni_next i =
     (case i of EmptyIterator s \<Rightarrow> None | BlockIterator b \<Rightarrow> map_option BlockIterator (bi_next b))"

definition ni_prev :: "new_iterator \<Rightarrow> new_iterator option" where
  "ni_prev i =
     (case i of EmptyIterator s \<Rightarrow> None | BlockIterator b \<Rightarrow> map_option BlockIterator (bi_prev b))"

definition new_error_iterator :: "status \<Rightarrow> new_iterator" where
  "new_error_iterator s = EmptyIterator s"

subsection \<open>The block cache\<close>

record ('c, 'h) block_cache =
  ca_lookup :: "'c \<Rightarrow> slice \<Rightarrow> 'h option \<times> 'c"
  ca_insert :: "'c \<Rightarrow> slice \<Rightarrow> block \<Rightarrow> nat \<Rightarrow> 'h \<times> 'c"
  ca_value :: "'c \<Rightarrow> 'h \<Rightarrow> block option"
  ca_release :: "'c \<Rightarrow> 'h \<Rightarrow> 'c"
  ca_new_id :: "'c \<Rightarrow> u64 \<times> 'c"

subsection \<open>The table\<close>

record 'f table =
  ta_options :: options
  ta_status :: status
  ta_file :: 'f
  ta_cache_id :: u64
  ta_filter :: "filter_block_reader option"
  ta_filter_data :: "slice option"
  ta_metaindex_handle :: block_handle
  ta_index_block :: block

definition checked_options :: "options \<Rightarrow> read_options" where
  "checked_options options =
     (if op_paranoid_checks options then read_options\<lparr>ro_verify_checksums := True\<rparr> else read_options)"

definition table_read_filter :: "(u32 \<Rightarrow> u8 list \<Rightarrow> u32) \<Rightarrow> 'f random_access_file \<Rightarrow> 'f table \<Rightarrow>
    slice \<Rightarrow> 'f table option" where
  "table_read_filter crc ops t filter_handle_value =
     (let (s, filter_handle, v) = block_handle_decode_from block_handle filter_handle_value in
      if \<not> status_ok s then Some t
      else
        do {
          (s, contents) \<leftarrow> read_block crc ops (ta_file t) (checked_options (ta_options t)) filter_handle;
          if \<not> status_ok s then Some t
          else
            do {
              let t = (if bc_heap_allocated contents then t\<lparr>ta_filter_data := Some (bc_data contents)\<rparr> else t);
              policy \<leftarrow> op_filter_policy (ta_options t);
              r \<leftarrow> filter_block_reader policy (bc_data contents);
              Some (t\<lparr>ta_filter := Some r\<rparr>)
            }
        })"

definition table_read_meta :: "(u32 \<Rightarrow> u8 list \<Rightarrow> u32) \<Rightarrow> 'f random_access_file \<Rightarrow> 'f table \<Rightarrow>
    footer \<Rightarrow> 'f table option" where
  "table_read_meta crc ops t ft =
     (case op_filter_policy (ta_options t) of
        None \<Rightarrow> Some t
      | Some policy \<Rightarrow>
          do {
            (s, contents) \<leftarrow> read_block crc ops (ta_file t) (checked_options (ta_options t))
              (ft_metaindex_handle ft);
            if \<not> status_ok s then Some t
            else
              do {
                meta \<leftarrow> make_block (bc_data contents);
                iter \<leftarrow> new_iterator meta bytewise_comparator;
                let key = ascii ''filter.'' @ policy_name policy;
                iter \<leftarrow> ni_seek iter key;
                if ni_valid iter then
                  do {
                    k \<leftarrow> ni_key iter;
                    same \<leftarrow> slice_eq k key;
                    if same then Option.bind (ni_value iter) (table_read_filter crc ops t) else Some t
                  }
                else Some t
              }
          })"

definition table_open :: "(u32 \<Rightarrow> u8 list \<Rightarrow> u32) \<Rightarrow> 'f random_access_file \<Rightarrow>
    ('c, 'h) block_cache option \<Rightarrow> 'c \<Rightarrow> options \<Rightarrow> 'f \<Rightarrow> u64 \<Rightarrow> (status \<times> 'f table option \<times> 'c) option" where
  "table_open crc ops cache c options file fsize =
     (if fsize < of_nat kEncodedLength
      then Some (corruption ''file is too short to be an sstable'', None, c)
      else
        do {
          (s, footer_input, _) \<leftarrow> ra_read ops file (fsize - of_nat kEncodedLength) (of_nat kEncodedLength);
          if \<not> status_ok s then Some (s, None, c)
          else
            do {
              (s, ft, _) \<leftarrow> footer_decode_from
                \<lparr>ft_metaindex_handle = block_handle, ft_index_handle = block_handle\<rparr> footer_input;
              if \<not> status_ok s then Some (s, None, c)
              else
                do {
                  (s, contents) \<leftarrow> read_block crc ops file (checked_options options) (ft_index_handle ft);
                  if \<not> status_ok s then Some (s, None, c)
                  else
                    do {
                      index_block \<leftarrow> make_block (bc_data contents);
                      let (cache_id, c) = (case cache of None \<Rightarrow> (0, c) | Some ca \<Rightarrow> ca_new_id ca c);
                      t \<leftarrow> table_read_meta crc ops
                        \<lparr>ta_options = options, ta_status = StatusOK, ta_file = file,
                         ta_cache_id = cache_id, ta_filter = None, ta_filter_data = None,
                         ta_metaindex_handle = ft_metaindex_handle ft, ta_index_block = index_block\<rparr> ft;
                      Some (s, Some t, c)
                    }
                }
            }
        })"

subsection \<open>Reading blocks through the cache\<close>

definition block_cache_key :: "'f table \<Rightarrow> block_handle \<Rightarrow> slice" where
  "block_cache_key t h = encode_fixed64 (ta_cache_id t) @ encode_fixed64 (bh_offset h)"

text \<open>The block behind a handle: the status, the block if there is one, and the handle of its cache
  entry.\<close>

definition table_find_block :: "(u32 \<Rightarrow> u8 list \<Rightarrow> u32) \<Rightarrow> 'f random_access_file \<Rightarrow>
    ('c, 'h) block_cache option \<Rightarrow> 'c \<Rightarrow> 'f table \<Rightarrow> read_options \<Rightarrow> block_handle \<Rightarrow>
    (status \<times> block option \<times> 'h option \<times> 'c) option" where
  "table_find_block crc ops cache c t options handle =
     (case cache of
        Some ca \<Rightarrow>
          let key = block_cache_key t handle; (h, c) = ca_lookup ca c key in
          (case h of
             Some h \<Rightarrow> do { b \<leftarrow> ca_value ca c h; Some (StatusOK, Some b, Some h, c) }
           | None \<Rightarrow>
               do {
                 (s, contents) \<leftarrow> read_block crc ops (ta_file t) options handle;
                 if status_ok s then
                   do {
                     b \<leftarrow> make_block (bc_data contents);
                     if bc_cachable contents \<and> ro_fill_cache options then
                       let (h, c) = ca_insert ca c key b (blk_size b) in Some (s, Some b, Some h, c)
                     else Some (s, Some b, None, c)
                   }
                 else Some (s, None, None, c)
               })
      | None \<Rightarrow>
          do {
            (s, contents) \<leftarrow> read_block crc ops (ta_file t) options handle;
            if status_ok s then
              do { b \<leftarrow> make_block (bc_data contents); Some (s, Some b, None, c) }
            else Some (s, None, None, c)
          })"

definition table_block_reader :: "(u32 \<Rightarrow> u8 list \<Rightarrow> u32) \<Rightarrow> 'f random_access_file \<Rightarrow>
    ('c, 'h) block_cache option \<Rightarrow> 'c \<Rightarrow> 'f table \<Rightarrow> read_options \<Rightarrow> slice \<Rightarrow>
    (new_iterator \<times> 'h option \<times> 'c) option" where
  "table_block_reader crc ops cache c t options index_value =
     (let (s, handle, input) = block_handle_decode_from block_handle index_value in
      if \<not> status_ok s then Some (new_error_iterator s, None, c)
      else
        do {
          (s, b, h, c) \<leftarrow> table_find_block crc ops cache c t options handle;
          case b of
            Some b \<Rightarrow> do { i \<leftarrow> new_iterator b (op_comparator (ta_options t)); Some (i, h, c) }
          | None \<Rightarrow> Some (new_error_iterator s, None, c)
        })"

text \<open>Deleting the iterator releases its block.\<close>

definition delete_block_iter :: "('c, 'h) block_cache option \<Rightarrow> 'c \<Rightarrow> 'h option \<Rightarrow> 'c" where
  "delete_block_iter cache c h =
     (case (cache, h) of (Some ca, Some h) \<Rightarrow> ca_release ca c h | _ \<Rightarrow> c)"

subsection \<open>\<open>InternalGet\<close>\<close>

definition table_filter_excludes :: "'f table \<Rightarrow> slice \<Rightarrow> slice \<Rightarrow> bool option" where
  "table_filter_excludes t handle_value k =
     (case ta_filter t of
        None \<Rightarrow> Some False
      | Some f \<Rightarrow>
          let (s, handle, v) = block_handle_decode_from block_handle handle_value in
          if status_ok s then map_option Not (fr_key_may_match f (bh_offset handle) k) else Some False)"

text \<open>The status, the entry \<open>saver\<close> is called with, and the cache.\<close>

definition table_internal_get :: "(u32 \<Rightarrow> u8 list \<Rightarrow> u32) \<Rightarrow> 'f random_access_file \<Rightarrow>
    ('c, 'h) block_cache option \<Rightarrow> 'c \<Rightarrow> 'f table \<Rightarrow> read_options \<Rightarrow> slice \<Rightarrow>
    (status \<times> (slice \<times> slice) option \<times> 'c) option" where
  "table_internal_get crc ops cache c t options k =
     do {
       iiter \<leftarrow> new_iterator (ta_index_block t) (op_comparator (ta_options t));
       iiter \<leftarrow> ni_seek iiter k;
       (s, saved, c) \<leftarrow>
         (if ni_valid iiter then
            do {
              handle_value \<leftarrow> ni_value iiter;
              excluded \<leftarrow> table_filter_excludes t handle_value k;
              if excluded then Some (StatusOK, None, c)
              else
                do {
                  (block_iter, h, c) \<leftarrow> table_block_reader crc ops cache c t options handle_value;
                  block_iter \<leftarrow> ni_seek block_iter k;
                  saved \<leftarrow>
                    (if ni_valid block_iter then
                       do { key \<leftarrow> ni_key block_iter; v \<leftarrow> ni_value block_iter; Some (Some (key, v)) }
                     else Some None);
                  Some (ni_status block_iter, saved, delete_block_iter cache c h)
                }
            }
          else Some (StatusOK, None, c));
       Some (if status_ok s then ni_status iiter else s, saved, c)
     }"

definition table_approximate_offset_of :: "'f table \<Rightarrow> slice \<Rightarrow> u64 option" where
  "table_approximate_offset_of t key =
     do {
       index_iter \<leftarrow> new_iterator (ta_index_block t) (op_comparator (ta_options t));
       index_iter \<leftarrow> ni_seek index_iter key;
       if ni_valid index_iter then
         do {
           input \<leftarrow> ni_value index_iter;
           let (s, handle, input) = block_handle_decode_from block_handle input;
           Some (if status_ok s then bh_offset handle else bh_offset (ta_metaindex_handle t))
         }
       else Some (bh_offset (ta_metaindex_handle t))
     }"

end
