(* ===== verification/LdFormatOk.thy ===== *)
theory LdFormatOk
  imports LdFormat
begin

text \<open>Handles, footers and blocks are read back as they were written.\<close>

subsection \<open>Handles and the footer\<close>

definition handle_set :: "block_handle \<Rightarrow> bool" where
  "handle_set h \<longleftrightarrow> bh_offset h \<noteq> NOT 0 \<and> bh_size h \<noteq> NOT 0"

definition handle_bytes :: "block_handle \<Rightarrow> u8 list" where
  "handle_bytes h = encode_varint64 (bh_offset h) @ encode_varint64 (bh_size h)"

lemma handle_encode:
  "block_handle_encode_to h dst = (if handle_set h then Some (dst @ handle_bytes h) else None)"
  by (simp add: block_handle_encode_to_def handle_set_def handle_bytes_def put_varint64_def)

lemma handle_decode [simp]:
  "block_handle_decode_from h0 (handle_bytes h @ r) = (StatusOK, h, r)"
  by (simp add: block_handle_decode_from_def handle_bytes_def)

lemma handle_bytes_length: "length (handle_bytes h) \<le> 20"
  by (simp add: handle_bytes_def length_encode_varint64 add_mono [of _ 10 _ 10, simplified])

lemma word_halves: "push_bit 32 (ucast (ucast (drop_bit 32 w) :: u32)) OR ucast (ucast (w AND 0xffffffff) :: u32) = (w :: u64)"
proof (rule bit_word_eqI)
  fix n assume "n < LENGTH(64)"
  moreover have "bit (0xffffffff :: u64) n \<longleftrightarrow> n < 32" if "n < 64"
  proof -
    have "(0xffffffff :: u64) = mask 32" by (simp add: mask_eq_exp_minus_1)
    then show ?thesis using that by (simp only: bit_mask_iff) simp
  qed
  ultimately show "bit (push_bit 32 (ucast (ucast (drop_bit 32 w) :: u32)) OR
      ucast (ucast (w AND 0xffffffff) :: u32) :: u64) n \<longleftrightarrow> bit w n"
    by (auto simp: bit_simps)
qed

definition footer_bytes :: "footer \<Rightarrow> u8 list" where
  "footer_bytes f =
     resize 40 (handle_bytes (ft_metaindex_handle f) @ handle_bytes (ft_index_handle f)) @
     encode_fixed32 (ucast (kTableMagicNumber AND 0xffffffff)) @
     encode_fixed32 (ucast (drop_bit 32 kTableMagicNumber))"

lemma resize_length [simp]: "length (resize n s) = n"
  by (simp add: resize_def)

lemma footer_bytes_length [simp]: "length (footer_bytes f) = 48"
  by (simp add: footer_bytes_def)

lemma footer_encode:
  "handle_set (ft_metaindex_handle f) \<Longrightarrow> handle_set (ft_index_handle f) \<Longrightarrow>
     footer_encode_to f [] = Some (footer_bytes f)"
  by (simp add: footer_encode_to_def handle_encode footer_bytes_def put_fixed32_def
      kMaxEncodedLength_def kEncodedLength_def Let_def)

lemma footer_decode:
  "footer_decode_from f0 (footer_bytes f @ r) = Some (StatusOK, f, r)"
proof -
  let ?h = "handle_bytes (ft_metaindex_handle f) @ handle_bytes (ft_index_handle f)"
  have "length ?h \<le> 40"
    using handle_bytes_length [of "ft_metaindex_handle f"] handle_bytes_length [of "ft_index_handle f"] by simp
  then have *: "resize 40 ?h = handle_bytes (ft_metaindex_handle f) @
      handle_bytes (ft_index_handle f) @ replicate (40 - length ?h) 0"
    by (simp add: resize_def)
  define input where "input = footer_bytes f @ r"
  define lo hi where "lo = (ucast (kTableMagicNumber AND 0xffffffff) :: u32)"
    and "hi = (ucast (drop_bit 32 kTableMagicNumber) :: u32)"
  have magic: "drop 40 input = encode_fixed32 lo @ encode_fixed32 hi @ r"
    by (simp add: input_def footer_bytes_def lo_def hi_def)
  have "input = handle_bytes (ft_metaindex_handle f) @ handle_bytes (ft_index_handle f) @
      replicate (40 - length ?h) 0 @ drop 40 input"
    unfolding magic by (simp add: input_def footer_bytes_def * lo_def hi_def)
  then obtain x where x: "input =
      handle_bytes (ft_metaindex_handle f) @ handle_bytes (ft_index_handle f) @ x" by blast
  have m: "push_bit 32 (ucast hi) OR ucast lo = kTableMagicNumber"
    unfolding hi_def lo_def by (rule word_halves)
  have "decode_fixed32 (drop 40 input) = Some lo" "decode_fixed32 (drop 4 (drop 40 input)) = Some hi"
    "drop 8 (drop 40 input) = r"
    unfolding magic by simp_all
  moreover have "block_handle_decode_from h input =
      (StatusOK, ft_metaindex_handle f, handle_bytes (ft_index_handle f) @ x)" for h
    unfolding x by simp
  ultimately show ?thesis
    unfolding input_def [symmetric] footer_decode_from_def
    by (simp add: kEncodedLength_def kMaxEncodedLength_def Let_def m del: drop_drop)
qed

subsection \<open>Blocks\<close>

text \<open>A file that reads what it contains.\<close>

locale random_file =
  fixes ops :: "'f random_access_file" and contents :: "'f \<Rightarrow> u8 list" and good :: "'f \<Rightarrow> bool"
  assumes read_ok: "good f \<Longrightarrow> off + n \<le> length (contents f) \<Longrightarrow>
      \<exists>b. ra_read ops f (of_nat off) (of_nat n) = Some (StatusOK, take n (drop off (contents f)), b)"
    and small: "good f \<Longrightarrow> length (contents f) < 2 ^ 63"

definition trailer_bytes :: "slice \<Rightarrow> u8 list" where
  "trailer_bytes data = 0 # encode_fixed32 (crc_mask (crc32c 0 (data @ [0])))"

lemma trailer_length [simp]: "length (trailer_bytes data) = 5"
  by (simp add: trailer_bytes_def)

definition handle_of :: "nat \<Rightarrow> slice \<Rightarrow> block_handle" where
  "handle_of off data = \<lparr>bh_offset = of_nat off, bh_size = of_nat (length data)\<rparr>"

context random_file
begin

lemma read_block_ok:
  assumes "good f" "contents f = pre @ data @ trailer_bytes data @ post"
  shows "\<exists>b. read_block crc32c ops f options (handle_of (length pre) data) =
    Some (StatusOK, \<lparr>bc_data = data, bc_cachable = b, bc_heap_allocated = b\<rparr>)"
proof -
  have len: "length pre + (length data + 5) \<le> length (contents f)" "length (contents f) < 2 ^ 63"
    using assms(2) small [OF assms(1)] by simp_all
  from read_ok [OF assms(1) len(1)] obtain b where
    "ra_read ops f (of_nat (length pre)) (of_nat (length data + 5)) =
       Some (StatusOK, data @ trailer_bytes data, b)"
    using assms(2) by auto
  moreover have "unat (of_nat n :: u64) = n" if "n \<le> length data + 5" for n
  proof (rule unat_of_nat_u64)
    from that len(1) have "n \<le> length (contents f)" by linarith
    with len(2) show "n < 2 ^ 64" by simp
  qed
  note this [of "length data + 5"] this [of "length data + 1"] this [of "length data"]
  ultimately show ?thesis
    by (simp add: read_block_def handle_of_def kBlockTrailerSize_def Let_def trailer_bytes_def
        unmask_mask nth_append compression_byte_def add.commute)
qed

end

definition posix_random_good :: "posix_random \<Rightarrow> bool" where
  "posix_random_good f \<longleftrightarrow> pr_read_error f = None \<and> (pr_temporary_fd f \<longrightarrow> pr_open_error f = None) \<and>
     length (pr_contents f) < 2 ^ 63"

definition posix_mmap_good :: "posix_mmap \<Rightarrow> bool" where
  "posix_mmap_good f \<longleftrightarrow> length (pm_region f) < 2 ^ 63"

lemma sint_of_nat_u64: "n < 2 ^ 63 \<Longrightarrow> 0 \<le> sint (of_nat n :: u64)"
  by (simp add: signed_of_nat signed_take_bit_int_eq_self)

interpretation posix_random: random_file posix_random_access_file pr_contents posix_random_good
proof unfold_locales
  fix f off n
  assume f: "posix_random_good f" "off + n \<le> length (pr_contents f)"
  then have "off < 2 ^ 63" "n < 2 ^ 64" by (simp_all add: posix_random_good_def)
  with f(1) show "\<exists>b. ra_read posix_random_access_file f (of_nat off) (of_nat n) =
      Some (StatusOK, take n (drop off (pr_contents f)), b)"
    using sint_of_nat_u64 [of off]
    by (auto simp: posix_random_access_file_def posix_random_read_def posix_pread_def
        posix_random_good_def unat_of_nat_u64 split: option.splits)
qed (simp add: posix_random_good_def)

interpretation posix_mmap: random_file posix_mmap_readable_file pm_region posix_mmap_good
proof unfold_locales
  fix f off n
  assume f: "posix_mmap_good f" "off + n \<le> length (pm_region f)"
  then have "\<not> (of_nat (length (pm_region f)) :: u64) < of_nat (off + n)" "off < 2 ^ 64" "n < 2 ^ 64"
    using unat_of_nat_u64 [of "off + n"] unat_of_nat_u64 [of "length (pm_region f)"]
    by (simp_all add: posix_mmap_good_def word_less_nat_alt del: of_nat_add)
  with f(2) show "\<exists>b. ra_read posix_mmap_readable_file f (of_nat off) (of_nat n) =
      Some (StatusOK, take n (drop off (pm_region f)), b)"
    by (simp add: posix_mmap_readable_file_def posix_mmap_read_def unat_of_nat_u64)
qed (simp add: posix_mmap_good_def)

subsection \<open>What a verified read returns\<close>

text \<open>A block that is read with its checksum verified stands in the file with its trailer.\<close>

lemma read_block_verified:
  assumes "read_block crc posix_random_access_file f options h = Some (s, c)" "status_ok s"
    and "ro_verify_checksums options" "unat (bh_size h) < 2 ^ 64 - 5"
  shows "\<exists>stored. length (bc_data c) = unat (bh_size h) \<and>
     take (unat (bh_size h) + 5) (drop (unat (bh_offset h)) (pr_contents f)) = bc_data c @ 0 # stored \<and>
     crc 0 (bc_data c @ [0]) = crc_unmask (word_of_bytes stored) \<and> length stored = 4"
proof -
  let ?n = "unat (bh_size h)"
  have sizes: "unat (bh_size h + 5) = ?n + 5" "unat (bh_size h + 1) = ?n + 1"
    using assms(4) by (simp_all add: unat_word_ariths)
  note rest = assms(1)
  obtain s0 contents b where read0:
    "ra_read posix_random_access_file f (bh_offset h) (bh_size h + 5) = Some (s0, contents, b)"
    using assms(1) by (cases "ra_read posix_random_access_file f (bh_offset h) (bh_size h + 5)")
      (auto simp: read_block_def Let_def kBlockTrailerSize_def)
  moreover have "s0 = StatusOK"
  proof (rule ccontr)
    assume "s0 \<noteq> StatusOK"
    then have "s = s0" using assms(1) read0
      by (simp add: read_block_def Let_def kBlockTrailerSize_def status_ok_def)
    with \<open>s0 \<noteq> StatusOK\<close> assms(2) show False by (simp add: status_ok_def)
  qed
  ultimately have read: "ra_read posix_random_access_file f (bh_offset h) (bh_size h + 5) =
      Some (StatusOK, contents, b)" by simp
  have data: "contents = take (?n + 5) (drop (unat (bh_offset h)) (pr_contents f))"
    using read sizes
    by (auto simp: posix_random_access_file_def posix_random_read_def posix_pread_def io_error_def make_status_def
        split: option.splits sum.splits if_splits)
  have bad: "\<not> status_ok (corruption m)" for m by simp
  have len: "length contents = ?n + 5"
  proof (rule ccontr)
    assume "length contents \<noteq> ?n + 5"
    then have "s = corruption ''truncated block read''"
      using rest read sizes by (simp add: read_block_def Let_def kBlockTrailerSize_def)
    with assms(2) bad show False by simp
  qed
  define stored where "stored = drop (Suc ?n) contents"
  have st: "length stored = 4" "decode_fixed32 stored = Some (word_of_bytes stored)"
    using len by (simp_all add: stored_def decode_fixed32_eq)
  have crc: "crc 0 (take (?n + 1) contents) = crc_unmask (word_of_bytes stored)"
  proof (rule ccontr)
    assume "\<not> ?thesis"
    then have "s = corruption ''block checksum mismatch''"
      using rest read sizes len st(2) assms(3)
      by (simp add: read_block_def Let_def kBlockTrailerSize_def stored_def [symmetric])
    with assms(2) bad show False by simp
  qed
  have "contents ! ?n = 0"
  proof (rule ccontr)
    assume "\<not> ?thesis"
    then have "s = corruption ''corrupted compressed block contents'' \<or> s = corruption ''bad block type''"
      using rest read sizes len st(2) assms(3) crc
      by (simp add: read_block_def Let_def kBlockTrailerSize_def stored_def [symmetric]
          compression_byte_def snappy_get_uncompressed_length_def split: if_splits)
    with assms(2) bad show False by auto
  qed
  then have c: "bc_data c = take ?n contents"
    using rest read sizes len st(2) assms(3) crc
    by (auto simp: read_block_def Let_def kBlockTrailerSize_def stored_def [symmetric] compression_byte_def)
  have start: "take (Suc ?n) contents = bc_data c @ [0]"
    using len \<open>contents ! ?n = 0\<close> by (simp add: take_Suc_conv_app_nth c)
  have "contents = take (Suc ?n) contents @ stored" by (simp add: stored_def)
  then have "contents = bc_data c @ 0 # stored" unfolding start by simp
  moreover have "crc 0 (bc_data c @ [0]) = crc_unmask (word_of_bytes stored)"
    using crc start by simp
  moreover have "length (bc_data c) = ?n" using len by (simp add: c)
  ultimately show ?thesis using data st(1) by (intro exI [of _ stored]) simp
qed

text \<open>A size near \<open>2 ^ 64\<close> wraps when the trailer is added: the buffer is shorter than the block.\<close>

lemma read_block_size_wraps:
  assumes "pr_read_error f = None" "pr_temporary_fd f = False" "2 \<le> length (pr_contents f)"
  shows "read_block crc posix_random_access_file f options \<lparr>bh_offset = 0, bh_size = -3\<rparr> = None"
proof -
  have "ra_read posix_random_access_file f 0 2 = Some (StatusOK, take 2 (pr_contents f), True)"
    using assms by (simp add: posix_random_access_file_def posix_random_read_def posix_pread_def)
  with assms(3) show ?thesis
    by (simp add: read_block_def kBlockTrailerSize_def Let_def)
qed

end
