(* ===== verification/LdTableOk.thy ===== *)
theory LdTableOk
  imports LdTable LdFormatOk
begin

text \<open>
  What \<open>TableBuilder\<close> writes: the data blocks with their trailers, the filter block, the metaindex
  block, an index block that points to the data blocks, and the footer.
\<close>

subsection \<open>Data blocks and the index\<close>

type_synonym data_block = "entry list \<times> nat list"

abbreviation data_block_bytes :: "data_block \<Rightarrow> u8 list" where
  "data_block_bytes b \<equiv> block_bytes (fst b) (snd b)"

definition stored_bytes :: "slice \<Rightarrow> u8 list" where
  "stored_bytes contents = contents @ trailer_bytes contents"

definition data_bytes :: "data_block list \<Rightarrow> u8 list" where
  "data_bytes bs = concat (map (\<lambda>b. stored_bytes (data_block_bytes b)) bs)"

definition handle_at :: "data_block list \<Rightarrow> nat \<Rightarrow> block_handle" where
  "handle_at bs i = handle_of (length (data_bytes (take i bs))) (data_block_bytes (bs ! i))"

definition all_entries :: "data_block list \<Rightarrow> entry list" where
  "all_entries bs = concat (map fst bs)"

lemma data_bytes_simps [simp]:
  "data_bytes [] = []" "data_bytes (bs @ cs) = data_bytes bs @ data_bytes cs"
  "data_bytes [b] = stored_bytes (data_block_bytes b)"
  by (simp_all add: data_bytes_def)

lemma all_entries_simps [simp]:
  "all_entries [] = []" "all_entries (bs @ cs) = all_entries bs @ all_entries cs" "all_entries [b] = fst b"
  by (simp_all add: all_entries_def)

lemma handle_at_append: "i < length bs \<Longrightarrow> handle_at (bs @ cs) i = handle_at bs i"
  by (simp add: handle_at_def nth_append)

definition keys_of :: "entry list \<Rightarrow> slice list" where
  "keys_of es = map ent_key es"

lemma keys_of_simps [simp]:
  "keys_of [] = []" "keys_of (e # es) = ent_key e # keys_of es" "keys_of (es @ fs) = keys_of es @ keys_of fs"
  by (simp_all add: keys_of_def)

text \<open>A finished block of the data.\<close>

definition data_block_ok :: "data_block \<Rightarrow> bool" where
  "data_block_ok b \<longleftrightarrow> fst b \<noteq> [] \<and> shares_ok (fst b) \<and> restarts_ok (fst b) (snd b)"

text \<open>A file whose appends write what they are given when they succeed.\<close>

locale append_file =
  fixes ops :: "'f writable_file" and written :: "'f \<Rightarrow> u8 list"
  assumes append_exact: "wf_append ops f d = (StatusOK, f') \<Longrightarrow> written f' = written f @ d"
    and flush_exact: "wf_flush ops f = (StatusOK, f') \<Longrightarrow> written f' = written f"

interpretation posix_append: append_file posix_writable_file po_data
  by unfold_locales
    (auto simp: posix_writable_file_def posix_append_def posix_flush_def io_error_def make_status_def Let_def
      split: if_splits option.splits)

context append_file
begin

lemma write_raw_block:
  assumes "tb_write_raw_block crc32c ops r contents KNoCompression = (h, r')" "tb_ok r'"
  shows "h = \<lparr>bh_offset = tb_offset r, bh_size = of_nat (length contents)\<rparr>"
    "written (tb_file r') = written (tb_file r) @ stored_bytes contents"
    "\<exists>f. r' = r\<lparr>tb_status := StatusOK, tb_file := f,
       tb_offset := tb_offset r + of_nat (length (stored_bytes contents))\<rparr>"
proof -
  obtain s f where f: "wf_append ops (tb_file r) contents = (s, f)" by (cases "wf_append ops (tb_file r) contents")
  define trailer where "trailer = trailer_bytes contents"
  have tr: "compression_byte KNoCompression #
      encode_fixed32 (crc_mask (crc32c (crc32c 0 contents) [compression_byte KNoCompression])) = trailer"
    by (simp add: trailer_def trailer_bytes_def compression_byte_def crc32c_append)
  obtain s' f' where f': "wf_append ops f trailer = (s', f')" by (cases "wf_append ops f trailer")
  have s: "s = StatusOK"
  proof (rule ccontr)
    assume "s \<noteq> StatusOK"
    then have "tb_status r' = s" using assms(1) f
      by (simp add: tb_write_raw_block_def Let_def status_ok_def split: prod.splits if_splits) auto
    with assms(2) \<open>s \<noteq> StatusOK\<close> show False by (simp add: status_ok_def)
  qed
  then have r': "h = \<lparr>bh_offset = tb_offset r, bh_size = of_nat (length contents)\<rparr> \<and>
      (if s' = StatusOK then r' = r\<lparr>tb_status := StatusOK, tb_file := f',
         tb_offset := tb_offset r + (of_nat (length contents) + of_nat kBlockTrailerSize)\<rparr>
       else tb_status r' = s')"
    using assms(1) f f' unfolding tb_write_raw_block_def Let_def tr
    by (auto simp: status_ok_def split: if_splits)
  then have s': "s' = StatusOK" using assms(2) by (auto simp: status_ok_def split: if_splits)
  have "written f' = written (tb_file r) @ stored_bytes contents"
    using append_exact [of "tb_file r" contents f] append_exact [of f trailer f'] f f' s s'
    by (simp add: stored_bytes_def trailer_def)
  with r' s' show "h = \<lparr>bh_offset = tb_offset r, bh_size = of_nat (length contents)\<rparr>"
    "written (tb_file r') = written (tb_file r) @ stored_bytes contents"
    "\<exists>f. r' = r\<lparr>tb_status := StatusOK, tb_file := f,
       tb_offset := tb_offset r + of_nat (length (stored_bytes contents))\<rparr>"
    by (auto simp: stored_bytes_def kBlockTrailerSize_def add.commute add.left_commute)
qed

lemma write_block:
  assumes "tb_write_block crc32c ops r block = Some (block', h, r')" "tb_ok r'"
  shows "block' = bb_reset (snd (bb_finish block))"
    "h = \<lparr>bh_offset = tb_offset r, bh_size = of_nat (length (fst (bb_finish block)))\<rparr>"
    "written (tb_file r') = written (tb_file r) @ stored_bytes (fst (bb_finish block))"
    "\<exists>f. r' = r\<lparr>tb_status := StatusOK, tb_file := f,
       tb_offset := tb_offset r + of_nat (length (stored_bytes (fst (bb_finish block)))),
       tb_compressed_output := []\<rparr>"
proof -
  let ?raw = "fst (bb_finish block)"
  obtain h1 r1 where w: "tb_write_raw_block crc32c ops r ?raw KNoCompression = (h1, r1)"
    by (cases "tb_write_raw_block crc32c ops r ?raw KNoCompression")
  have "block' = bb_reset (snd (bb_finish block))" "h = h1" "r' = r1\<lparr>tb_compressed_output := []\<rparr>"
    using assms(1) w
    by (auto simp: tb_write_block_def Let_def snappy_compress_def case_prod_unfold
        split: if_splits compression_type.splits)
  moreover from this assms(2) have "tb_ok r1" by simp
  note write_raw_block [OF w this]
  ultimately show "block' = bb_reset (snd (bb_finish block))"
    "h = \<lparr>bh_offset = tb_offset r, bh_size = of_nat (length ?raw)\<rparr>"
    "written (tb_file r') = written (tb_file r) @ stored_bytes ?raw"
    "\<exists>f. r' = r\<lparr>tb_status := StatusOK, tb_file := f,
       tb_offset := tb_offset r + of_nat (length (stored_bytes ?raw)), tb_compressed_output := []\<rparr>"
    by auto
qed

end

lemma builder_reset:
  assumes "builder_at cmp es rs b"
  shows "builder_at cmp [] [0] (bb_reset (snd (bb_finish b)))"
  using assms by (simp add: builder_at_def bb_reset_def bb_finish_def Let_def shares_ok_def restarts_ok_def)

subsection \<open>The builder's state\<close>

locale table_building = comparator_laws cmp valid + append_file ops written
  for cmp :: comparator and valid :: "slice \<Rightarrow> bool"
    and ops :: "'f writable_file" and written :: "'f \<Rightarrow> u8 list" +
  fixes fp :: "filter_policy option"
  assumes policy_laws: "fp = Some p \<Longrightarrow> filter_policy_laws p"
begin

text \<open>Entry \<open>i\<close> of the index: a key that is not before the keys of block \<open>i\<close>, and its handle.\<close>

definition index_ok :: "data_block list \<Rightarrow> nat \<Rightarrow> entry list \<Rightarrow> bool" where
  "index_ok bs n ies \<longleftrightarrow> length ies = n \<and> n \<le> length bs \<and> sorted_keys ies \<and>
     (\<forall>i < n. ent_value (ies ! i) = handle_bytes (handle_at bs i) \<and> handle_set (handle_at bs i) \<and>
       (\<forall>k \<in> set (keys_of (fst (bs ! i))). \<not> before (ent_key (ies ! i)) k))"

definition ahead_of :: "data_block list \<Rightarrow> entry list \<Rightarrow> entry list \<Rightarrow> bool" where
  "ahead_of bs cur ies \<longleftrightarrow> (\<forall>i < length ies. \<forall>k \<in> set (keys_of (all_entries (drop (Suc i) bs) @ cur)).
     before (ent_key (ies ! i)) k)"

text \<open>The filter block covers the keys of every block at the block's offset.\<close>

definition filter_covers :: "data_block list \<Rightarrow> slice list list \<Rightarrow> bool" where
  "filter_covers bs sets \<longleftrightarrow> (\<forall>i < length bs.
     covers sets (of_nat (length (data_bytes (take i bs))), keys_of (fst (bs ! i))))"

definition filter_inv :: "data_block list \<Rightarrow> entry list \<Rightarrow> 'f table_rep \<Rightarrow> bool" where
  "filter_inv bs cur r \<longleftrightarrow>
     (case fp of
        None \<Rightarrow> tb_filter_block r = None
      | Some p \<Rightarrow> \<exists>fb fs pending. tb_filter_block r = Some fb \<and> builder_holds p fs pending fb \<and>
          filter_covers bs (map snd fs @ [pending]) \<and>
          unat (tb_offset r div kFilterBase) = length fs \<and> set (keys_of cur) \<subseteq> set pending)"

definition table_inv :: "data_block list \<Rightarrow> entry list \<Rightarrow> nat list \<Rightarrow> entry list \<Rightarrow> nat list \<Rightarrow>
    'f table_rep \<Rightarrow> bool" where
  "table_inv bs cur crs ies irs r \<longleftrightarrow>
     op_comparator (tb_options r) = cmp \<and> op_filter_policy (tb_options r) = fp \<and>
     \<not> tb_closed r \<and> tb_ok r \<and>
     written (tb_file r) = data_bytes bs \<and> tb_offset r = of_nat (length (data_bytes bs)) \<and>
     builder_at cmp cur crs (tb_data_block r) \<and> builder_at cmp ies irs (tb_index_block r) \<and>
     (\<forall>b \<in> set bs. data_block_ok b) \<and> sorted_keys (all_entries bs @ cur) \<and>
     index_ok bs (if tb_pending_index_entry r then length bs - 1 else length bs) ies \<and>
     ahead_of bs cur ies \<and>
     (tb_pending_index_entry r \<longrightarrow> bs \<noteq> [] \<and> cur = [] \<and> tb_pending_handle r = handle_at bs (length bs - 1)) \<and>
     tb_num_entries r = of_nat (length (all_entries bs @ cur)) \<and>
     filter_inv bs cur r"

definition last_key_ok :: "data_block list \<Rightarrow> entry list \<Rightarrow> 'f table_rep \<Rightarrow> bool" where
  "last_key_ok bs cur r \<longleftrightarrow>
     (all_entries bs @ cur \<noteq> [] \<longrightarrow> tb_last_key r = ent_key (last (all_entries bs @ cur)))"

lemma last_block_entries:
  assumes "bs \<noteq> []" "data_block_ok (last bs)"
  shows "all_entries bs \<noteq> []" "last (all_entries bs) = last (fst (last bs))"
proof -
  have bs: "bs = butlast bs @ [last bs]" using assms(1) by simp
  have "all_entries bs = all_entries (butlast bs) @ fst (last bs)"
    by (subst bs) (simp only: all_entries_simps)
  then show "all_entries bs \<noteq> []" "last (all_entries bs) = last (fst (last bs))"
    using assms(2) by (simp_all add: data_block_ok_def)
qed

lemma sorted_keysD:
  assumes "sorted_keys es"
  shows "e \<in> set es \<Longrightarrow> valid (ent_key e)"
    and "e \<in> set es \<Longrightarrow> \<not> before (ent_key (last es)) (ent_key e)"
proof -
  assume "e \<in> set es"
  then obtain a where a: "a < length es" "e = es ! a" by (auto simp: in_set_conv_nth)
  show v: "valid (ent_key e)" using assms a by (simp add: sorted_keys_def)
  from a(1) have l: "last es = es ! (length es - 1)" "length es - 1 < length es"
    by (subst last_conv_nth, auto)
  then have vl: "valid (ent_key (last es))" using assms by (simp add: sorted_keys_def)
  show "\<not> before (ent_key (last es)) (ent_key e)"
  proof (cases "a = length es - 1")
    case True
    with a l before_irrefl [OF v] show ?thesis by simp
  next
    case False
    with a assms l have "before (ent_key e) (ent_key (last es))" by (simp add: sorted_keys_def)
    with before_asym [OF v vl] show ?thesis by blast
  qed
qed

lemma sorted_keys_append:
  assumes "sorted_keys (es @ fs)"
  shows "sorted_keys es" "sorted_keys fs"
    "e \<in> set es \<Longrightarrow> f \<in> set fs \<Longrightarrow> before (ent_key e) (ent_key f)"
proof -
  have lt: "before (ent_key ((es @ fs) ! a)) (ent_key ((es @ fs) ! b))" if "a < b" "b < length (es @ fs)" for a b
    using assms that unfolding sorted_keys_def by blast
  have v: "valid (ent_key ((es @ fs) ! a))" if "a < length (es @ fs)" for a
    using assms that unfolding sorted_keys_def by blast
  show "sorted_keys es" unfolding sorted_keys_def
  proof (intro conjI allI impI)
    fix a assume "a < length es" then show "valid (ent_key (es ! a))" using v [of a] by (simp add: nth_append)
  next
    fix a b assume "b < length es" "a < b"
    then show "before (ent_key (es ! a)) (ent_key (es ! b))" using lt [of a b] by (simp add: nth_append)
  qed
  show "sorted_keys fs" unfolding sorted_keys_def
  proof (intro conjI allI impI)
    fix a assume "a < length fs" then show "valid (ent_key (fs ! a))" using v [of "length es + a"] by simp
  next
    fix a b assume "b < length fs" "a < b"
    then show "before (ent_key (fs ! a)) (ent_key (fs ! b))"
      using lt [of "length es + a" "length es + b"] by simp
  qed
  assume "e \<in> set es" "f \<in> set fs"
  then obtain a b where "a < length es" "e = es ! a" "b < length fs" "f = fs ! b"
    by (auto simp: in_set_conv_nth)
  then show "before (ent_key e) (ent_key f)" using lt [of a "length es + b"] by (simp add: nth_append)
qed

subsection \<open>The steps keep the invariant\<close>

lemma filter_inv_None: "fp = None \<Longrightarrow> filter_inv bs cur r \<longleftrightarrow> tb_filter_block r = None"
  unfolding filter_inv_def by simp

lemma filter_inv_Some:
  "fp = Some p \<Longrightarrow> filter_inv bs cur r \<longleftrightarrow>
     (\<exists>fb fs pending. tb_filter_block r = Some fb \<and> builder_holds p fs pending fb \<and>
        filter_covers bs (map snd fs @ [pending]) \<and>
        unat (tb_offset r div kFilterBase) = length fs \<and> set (keys_of cur) \<subseteq> set pending)"
  unfolding filter_inv_def by simp

lemma filter_inv_cong:
  "tb_filter_block r' = tb_filter_block r \<Longrightarrow> tb_offset r' = tb_offset r \<Longrightarrow>
     filter_inv bs cur r' \<longleftrightarrow> filter_inv bs cur r"
  unfolding filter_inv_def by (simp cong: option.case_cong)

lemma index_step:
  assumes "table_inv bs cur crs ies irs r" "last_key_ok bs cur r" "tb_pending_index_entry r"
    and "tb_add_index_entry r sep = Some r'" "valid sep" "\<not> before sep (tb_last_key r)"
  shows "\<exists>s irs'. table_inv bs cur crs (ies @ [(s, sep, handle_bytes (handle_at bs (length bs - 1)))]) irs' r' \<and>
    \<not> tb_pending_index_entry r'"
proof -
  note inv = assms(1) [unfolded table_inv_def]
  have bs: "bs \<noteq> []" "cur = []" "tb_pending_handle r = handle_at bs (length bs - 1)"
    "index_ok bs (length bs - 1) ies" using inv assms(3) by auto
  let ?e = "handle_at bs (length bs - 1)"
  from assms(4) bs(3) obtain ib where ib: "handle_set ?e" "bb_add (tb_index_block r) sep (handle_bytes ?e) = Some ib"
    "r' = r\<lparr>tb_last_key := sep, tb_index_block := ib, tb_pending_index_entry := False\<rparr>"
    by (auto simp: tb_add_index_entry_def handle_encode bind_eq_Some_conv split: if_splits)
  have "builder_at cmp ies irs (tb_index_block r)" using inv by blast
  from bb_add_ok [OF this ib(2)] obtain s irs' where
    at: "builder_at cmp (ies @ [(s, sep, handle_bytes ?e)]) irs' ib" by blast
  have ok: "data_block_ok (last bs)" using inv bs(1) last_in_set by blast
  have lst: "bs ! (length bs - 1) = last bs" using bs(1) by (simp add: last_conv_nth)
  note lb = last_block_entries [OF bs(1) ok]
  have key: "tb_last_key r = ent_key (last (fst (last bs)))"
    using assms(2) lb bs(2) by (simp add: last_key_ok_def)
  have sorted: "sorted_keys (all_entries bs)" using inv bs(2) by simp
  have in_all: "set (fst (last bs)) \<subseteq> set (all_entries bs)"
    using bs(1) by (auto simp: all_entries_def intro!: bexI [of _ "last bs"])
  have last_in: "last (fst (last bs)) \<in> set (fst (last bs))"
    using ok by (auto simp: data_block_ok_def)
  have sep_ge: "\<not> before sep k" if "k \<in> set (keys_of (fst (last bs)))" for k
  proof -
    from that obtain e where e: "e \<in> set (fst (last bs))" "k = ent_key e" by (auto simp: keys_of_def)
    have v: "valid (ent_key e)" "valid (tb_last_key r)" "\<not> before (tb_last_key r) (ent_key e)"
      using sorted_keysD [OF sorted, of e] sorted_keysD(1) [OF sorted, of "last (fst (last bs))"]
        e(1) in_all last_in lb(2) key by auto
    then show ?thesis
      using before_trans [of sep k "tb_last_key r"] before_total [of k "tb_last_key r"]
        assms(5,6) e(2) by (metis before_trans)
  qed
  have "sorted_keys (ies @ [(s, sep, handle_bytes ?e)])"
  proof (rule sorted_snoc)
    show "sorted_keys ies" using bs(4) by (simp add: index_ok_def)
    show "ies \<noteq> [] \<longrightarrow> before (ent_key (last ies)) sep"
    proof
      assume ne: "ies \<noteq> []"
      have len: "length ies = length bs - 1" using bs(4) by (simp add: index_ok_def)
      have "drop (length bs - 1) bs = [last bs]"
        using bs(1) by (metis append_butlast_last_id append_eq_conv_conj length_butlast)
      moreover have "Suc (length ies - 1) = length bs - 1" using ne len by (cases ies) simp_all
      ultimately have "drop (Suc (length ies - 1)) bs = [last bs]" by simp
      moreover have "ahead_of bs cur ies" using inv by blast
      ultimately have "before (ent_key (ies ! (length ies - 1))) (tb_last_key r)"
        using ne last_in key unfolding ahead_of_def
        by (auto simp: keys_of_def bs(2))
      then have b: "before (ent_key (last ies)) (tb_last_key r)" using ne by (simp add: last_conv_nth)
      have v: "valid (ent_key (last ies))" "valid (tb_last_key r)"
        using sorted_keysD(1) [of ies "last ies"] bs(4) ne sorted_keysD(1) [OF sorted, of "last (fst (last bs))"]
          last_in in_all key by (auto simp: index_ok_def)
      show "before (ent_key (last ies)) sep"
        using before_total [OF v(2) assms(5)] b assms(6) before_trans [OF v assms(5)] by auto
    qed
  qed (fact assms(5))
  moreover have "ahead_of bs cur (ies @ [(s, sep, handle_bytes ?e)])"
    using inv bs(1,4) by (auto simp: ahead_of_def index_ok_def nth_append less_Suc_eq bs(2))
  moreover have "index_ok bs (length bs) (ies @ [(s, sep, handle_bytes ?e)])"
    unfolding index_ok_def
  proof (intro conjI allI impI)
    have len: "length ies = length bs - 1" "0 < length bs" using bs(1,4) by (simp_all add: index_ok_def)
    then show "length (ies @ [(s, sep, handle_bytes ?e)]) = length bs" by simp
    fix i assume i: "i < length bs"
    have last: "i = length bs - 1" if "\<not> i < length ies" using that i len by linarith
    let ?new = "ies @ [(s, sep, handle_bytes ?e)]"
    show "ent_value (?new ! i) = handle_bytes (handle_at bs i)" "handle_set (handle_at bs i)"
      "\<forall>k \<in> set (keys_of (fst (bs ! i))). \<not> before (ent_key (?new ! i)) k"
      using bs(4) len ib(1) sep_ge lst last by (cases "i < length ies"; simp add: index_ok_def nth_append)+
  qed (use calculation in auto)
  moreover have "filter_inv bs cur r'"
    using inv filter_inv_cong [of r' r bs cur] by (simp add: ib(3))
  ultimately have "table_inv bs cur crs (ies @ [(s, sep, handle_bytes ?e)]) irs' r' \<and> \<not> tb_pending_index_entry r'"
    using inv at by (simp add: table_inv_def ib(3))
  then show ?thesis by blast
qed

lemma filter_add:
  assumes "filter_inv bs cur r" "tb_filter_block r' = map_option (\<lambda>fb. fb_add_key fb key) (tb_filter_block r)"
    "tb_offset r' = tb_offset r"
  shows "filter_inv bs (cur @ [(s, key, v)]) r'"
proof (cases fp)
  case None
  then show ?thesis using assms filter_inv_None [OF None] by simp
next
  case (Some p)
  from assms(1) obtain fb fs pending where f: "tb_filter_block r = Some fb" "builder_holds p fs pending fb"
    "filter_covers bs (map snd fs @ [pending])" "unat (tb_offset r div kFilterBase) = length fs"
    "set (keys_of cur) \<subseteq> set pending" unfolding filter_inv_Some [OF Some] by blast
  have "filter_covers bs (map snd fs @ [pending @ [key]])"
    using f(3) by (auto simp: filter_covers_def intro: covers_more)
  with f builder_add [OF f(2), of key] assms(2,3) show ?thesis
    unfolding filter_inv_Some [OF Some] by (auto intro!: exI [of _ fs] exI [of _ "pending @ [key]"])
qed

lemma data_step:
  assumes "table_inv bs cur crs ies irs r" "\<not> tb_pending_index_entry r" "valid key"
    and "all_entries bs @ cur \<noteq> [] \<longrightarrow> before (ent_key (last (all_entries bs @ cur))) key"
    and "\<forall>i < length ies. before (ent_key (ies ! i)) key"
    and "bb_add (tb_data_block r) key v = Some d"
  shows "\<exists>s crs'. table_inv bs (cur @ [(s, key, v)]) crs' ies irs
      (r\<lparr>tb_filter_block := map_option (\<lambda>fb. fb_add_key fb key) (tb_filter_block r),
         tb_last_key := key, tb_num_entries := tb_num_entries r + 1, tb_data_block := d\<rparr>)"
proof -
  note inv = assms(1) [unfolded table_inv_def]
  have "builder_at cmp cur crs (tb_data_block r)" using inv by blast
  from bb_add_ok [OF this assms(6)] obtain s crs' where at: "builder_at cmp (cur @ [(s, key, v)]) crs' d" by blast
  have "sorted_keys ((all_entries bs @ cur) @ [(s, key, v)])"
    using inv assms(3,4) by (intro sorted_snoc) auto
  moreover have "ahead_of bs (cur @ [(s, key, v)]) ies"
    using inv assms(5) by (auto simp: ahead_of_def)
  moreover have "filter_inv bs (cur @ [(s, key, v)]) (r\<lparr>tb_filter_block :=
      map_option (\<lambda>fb. fb_add_key fb key) (tb_filter_block r),
      tb_last_key := key, tb_num_entries := tb_num_entries r + 1, tb_data_block := d\<rparr>)"
    using inv by (intro filter_add [of bs cur r]) auto
  ultimately have "table_inv bs (cur @ [(s, key, v)]) crs' ies irs
      (r\<lparr>tb_filter_block := map_option (\<lambda>fb. fb_add_key fb key) (tb_filter_block r),
         tb_last_key := key, tb_num_entries := tb_num_entries r + 1, tb_data_block := d\<rparr>)"
    using inv at assms(2) by (simp add: table_inv_def)
  then show ?thesis by blast
qed

lemma filter_start:
  assumes "filter_inv bs cur r" "tb_offset r = of_nat (length (data_bytes bs))"
    and "tb_filter_block r2 = Some fb2" "tb_filter_block r = Some fb"
    and "fb_start_block fb (tb_offset r2) = Some fb2"
  shows "filter_inv (bs @ [(cur, crs)]) [] r2"
proof -
  from assms(1,4) obtain p fs pending where p: "fp = Some p" "builder_holds p fs pending fb"
    "filter_covers bs (map snd fs @ [pending])" "unat (tb_offset r div kFilterBase) = length fs"
    "set (keys_of cur) \<subseteq> set pending" by (auto simp: filter_inv_def split: option.splits)
  from filter_policy_laws.start_block_covers [OF policy_laws [OF p(1)] p(2) assms(5)] obtain gs pending' rest where
    gs: "builder_holds p gs pending' fb2" "unat (tb_offset r2 div kFilterBase) = length gs"
    and sets: "map snd gs @ [pending'] = (map snd fs @ [pending]) @ rest" by blast
  have "covers (map snd fs @ [pending]) (of_nat (length (data_bytes bs)), keys_of cur)"
    using p(4,5) assms(2) by (simp add: covers_def nth_append)
  then have "filter_covers (bs @ [(cur, crs)]) (map snd fs @ [pending])"
    using p(3) by (auto simp: filter_covers_def nth_append less_Suc_eq)
  then have "filter_covers (bs @ [(cur, crs)]) (map snd gs @ [pending'])"
    unfolding sets filter_covers_def by (blast intro: covers_append)
  with gs assms(3) show ?thesis
    unfolding filter_inv_Some [OF p(1)] by (intro exI [of _ fb2] exI [of _ gs] exI [of _ pending']) simp
qed

lemma ahead_of_flush:
  assumes "ahead_of bs cur ies" "length ies \<le> length bs"
  shows "ahead_of (bs @ [(cur, crs)]) [] ies"
proof -
  have "drop (Suc i) (bs @ [(cur, crs)]) = drop (Suc i) bs @ [(cur, crs)]" if "i < length ies" for i
    using that assms(2) by simp
  with assms(1) show ?thesis by (simp add: ahead_of_def)
qed

lemma index_ok_flush: "index_ok bs (length bs) ies \<Longrightarrow> index_ok (bs @ [b]) (length bs) ies"
  by (simp add: index_ok_def handle_at_append nth_append)

lemma flush_step:
  assumes "table_inv bs cur crs ies irs r" "\<not> tb_pending_index_entry r" "cur \<noteq> []"
    and "tb_flush crc32c ops r = Some r'" "tb_ok r'"
  shows "table_inv (bs @ [(cur, crs)]) [] [0] ies irs r'" "tb_pending_index_entry r'"
    "tb_last_key r' = tb_last_key r"
proof -
  note inv = assms(1) [unfolded table_inv_def]
  have at: "builder_at cmp cur crs (tb_data_block r)" using inv by blast
  have bytes: "fst (bb_finish (tb_data_block r)) = block_bytes cur crs" by (rule finish_bytes [OF at])
  obtain e es where cur: "cur = e # es" using assms(3) by (cases cur) auto
  have "entry_bytes e \<noteq> []" using entry_head_length [of e] by (auto simp: entry_bytes_def)
  then have ne: "\<not> bb_empty (tb_data_block r)"
    using at by (simp add: bb_empty_def builder_at_def cur)
  from assms(4) inv ne assms(2) obtain block h r1 where w:
    "tb_write_block crc32c ops r (tb_data_block r) = Some (block, h, r1)"
    by (auto simp: tb_flush_def bind_eq_Some_conv)
  let ?r2 = "r1\<lparr>tb_data_block := block, tb_pending_handle := h\<rparr>"
  obtain s f where f: "wf_flush ops (tb_file r1) = (s, f)" by (cases "wf_flush ops (tb_file r1)")
  have r': "tb_start_filter r3 = Some r'"
    if "r3 = (if tb_ok r1 then ?r2\<lparr>tb_pending_index_entry := True, tb_status := s, tb_file := f\<rparr> else ?r2)" for r3
    using assms(2,4) inv ne w f by (cases "tb_ok r1") (simp_all add: tb_flush_def Let_def that)
  have ok1: "tb_ok r1"
  proof (rule ccontr)
    assume "\<not> tb_ok r1"
    with r' [of ?r2] have "tb_status r' = tb_status r1" by (auto simp: tb_start_filter_def split: option.splits)
    with assms(5) \<open>\<not> tb_ok r1\<close> show False by simp
  qed
  from write_block [OF w ok1] obtain g where g: "block = bb_reset (snd (bb_finish (tb_data_block r)))"
    "h = handle_at (bs @ [(cur, crs)]) (length bs)"
    "written (tb_file r1) = data_bytes (bs @ [(cur, crs)])"
    "r1 = r\<lparr>tb_status := StatusOK, tb_file := g, tb_compressed_output := [],
       tb_offset := of_nat (length (data_bytes (bs @ [(cur, crs)])))\<rparr>"
    using inv by (auto simp: bytes handle_at_def handle_of_def)
  define r3 where "r3 = r\<lparr>tb_status := s, tb_file := f, tb_compressed_output := [],
      tb_offset := of_nat (length (data_bytes (bs @ [(cur, crs)]))),
      tb_data_block := block, tb_pending_handle := h, tb_pending_index_entry := True\<rparr>"
  have r3: "tb_start_filter r3 = Some r'"
    using ok1 by (intro r') (simp add: r3_def g(4))
  have same: "\<exists>fb. r' = r3\<lparr>tb_filter_block := fb\<rparr>"
  proof (cases "tb_filter_block r3")
    case None
    have "r3 = r3\<lparr>tb_filter_block := x\<rparr>" if "x = tb_filter_block r3" for x using that by simp
    from this [of None] None r3 have "r' = r3\<lparr>tb_filter_block := None\<rparr>"
      by (simp add: tb_start_filter_def)
    then show ?thesis ..
  qed (use r3 in \<open>auto simp: tb_start_filter_def\<close>)
  then have s: "s = StatusOK" using assms(5) by (auto simp: r3_def status_ok_def)
  have written: "written f = data_bytes (bs @ [(cur, crs)])"
    using flush_exact [of "tb_file r1" f] f s g(3) by simp
  have filter: "filter_inv (bs @ [(cur, crs)]) [] r'"
  proof (cases "tb_filter_block r3")
    case None
    then have fp: "fp = None" using inv by (auto simp: filter_inv_def r3_def split: option.splits)
    show ?thesis using None r3 unfolding filter_inv_None [OF fp] by (simp add: tb_start_filter_def)
  next
    case (Some fb)
    with r3 obtain fb' where fb': "fb_start_block fb (tb_offset r3) = Some fb'" "r' = r3\<lparr>tb_filter_block := Some fb'\<rparr>"
      by (auto simp: tb_start_filter_def)
    with Some inv show ?thesis
      by (intro filter_start [of bs cur r r' fb' fb]) (auto simp: r3_def)
  qed
  have "builder_at cmp [] [0] block" unfolding g(1) by (rule builder_reset [OF at])
  moreover have "data_block_ok (cur, crs)"
    using at assms(3) by (simp add: data_block_ok_def builder_at_def)
  moreover have index: "index_ok bs (length bs) ies" using inv assms(2) by simp
  note index_ok_flush [OF index, of "(cur, crs)"]
  moreover have "ahead_of (bs @ [(cur, crs)]) [] ies"
    using inv index by (intro ahead_of_flush) (auto simp: index_ok_def)
  ultimately show "table_inv (bs @ [(cur, crs)]) [] [0] ies irs r'" "tb_pending_index_entry r'"
    "tb_last_key r' = tb_last_key r"
    using inv same s written filter g(2) by (auto simp: table_inv_def r3_def)
qed

text \<open>Between two additions, a block that was written waits for its index entry.\<close>

definition build_inv :: "(slice \<times> slice) list \<Rightarrow> data_block list \<Rightarrow> entry list \<Rightarrow> 'f table_rep \<Rightarrow> bool" where
  "build_inv kvs bs cur r \<longleftrightarrow>
     (\<exists>crs ies irs. table_inv bs cur crs ies irs r) \<and> last_key_ok bs cur r \<and>
     (bs = [] \<or> cur \<noteq> [] \<or> tb_pending_index_entry r) \<and> key_values (all_entries bs @ cur) = kvs"

lemma add_index:
  assumes "table_inv bs cur crs ies irs r" "last_key_ok bs cur r"
    and "bs = [] \<or> cur \<noteq> [] \<or> tb_pending_index_entry r"
    and "valid key" "all_entries bs @ cur \<noteq> [] \<longrightarrow> before (tb_last_key r) key"
    and "(if tb_pending_index_entry r then
           if \<not> bb_empty (tb_data_block r) then None
           else Option.bind (find_shortest_separator cmp (tb_last_key r) key) (tb_add_index_entry r)
         else Some r) = Some r'"
  shows "\<exists>ies irs. table_inv bs cur crs ies irs r' \<and> \<not> tb_pending_index_entry r' \<and>
    (\<forall>i < length ies. before (ent_key (ies ! i)) key)"
proof -
  note inv = assms(1) [unfolded table_inv_def]
  have sorted: "sorted_keys (all_entries bs @ cur)" using inv by blast
  have step: "before k key" if "valid k" "before k (tb_last_key r)" "all_entries bs @ cur \<noteq> []" for k
  proof -
    have "valid (tb_last_key r)"
      using sorted_keysD(1) [OF sorted last_in_set [OF that(3)]] that(3) assms(2)
      by (simp add: last_key_ok_def)
    with that assms(4,5) show ?thesis using before_trans by blast
  qed
  show ?thesis
  proof (cases "tb_pending_index_entry r")
    case False
    have "before (ent_key (ies ! i)) key" if i: "i < length ies" for i
    proof -
      have "cur \<noteq> []" using assms(3) False inv i by (auto simp: index_ok_def)
      then have "tb_last_key r = ent_key (last cur)" "ent_key (last cur) \<in> set (keys_of cur)"
        using assms(2) by (simp_all add: last_key_ok_def keys_of_def)
      moreover have "ahead_of bs cur ies" using inv by blast
      ultimately have "before (ent_key (ies ! i)) (tb_last_key r)"
        using i by (simp add: ahead_of_def)
      moreover have "valid (ent_key (ies ! i))" using inv i by (auto simp: index_ok_def sorted_keys_def)
      ultimately show ?thesis using step \<open>cur \<noteq> []\<close> by simp
    qed
    with False assms(1,6) show ?thesis by auto
  next
    case True
    have bs: "bs \<noteq> []" "cur = []" using inv True by auto
    have ok: "data_block_ok (last bs)" using inv bs(1) last_in_set by blast
    note ne = last_block_entries [OF bs(1) ok]
    have lastv: "valid (tb_last_key r)"
      using sorted_keysD(1) [OF sorted, of "last (all_entries bs)"] last_in_set [OF ne(1)] ne(1) assms(2) bs(2)
      by (simp add: last_key_ok_def)
    have "before (tb_last_key r) key" using assms(5) ne by simp
    then obtain c where "compare cmp (tb_last_key r) key = Some c" "c < 0" by (auto simp: before_def)
    from separator [OF lastv assms(4) this] obtain sep where sep:
      "find_shortest_separator cmp (tb_last_key r) key = Some sep" "valid sep"
      "\<exists>c. compare cmp (tb_last_key r) sep = Some c \<and> c \<le> 0" "before sep key"
      by (auto simp: before_def)
    have "tb_add_index_entry r sep = Some r'" using assms(6) True sep(1) by (simp split: if_splits)
    moreover have "\<not> before sep (tb_last_key r)"
      using sep(2,3) compare_pos [OF lastv sep(2)] by fastforce
    ultimately obtain s irs' where t: "table_inv bs cur crs
        (ies @ [(s, sep, handle_bytes (handle_at bs (length bs - 1)))]) irs' r'"
      "\<not> tb_pending_index_entry r'"
      using index_step [OF assms(1,2) True _ sep(2)] by blast
    have "before (ent_key (ies ! i)) key" if i: "i < length ies" for i
    proof -
      have "sorted_keys (ies @ [(s, sep, handle_bytes (handle_at bs (length bs - 1)))])"
        using t(1) by (auto simp: table_inv_def index_ok_def)
      from sorted_keys_append(3) [OF this, of "ies ! i"] i have "before (ent_key (ies ! i)) sep" by simp
      moreover have "valid (ent_key (ies ! i))" using inv i by (auto simp: index_ok_def sorted_keys_def)
      ultimately show ?thesis using before_trans sep(2,4) assms(4) by blast
    qed
    with sep(4) have "\<forall>i < length (ies @ [(s, sep, handle_bytes (handle_at bs (length bs - 1)))]).
        before (ent_key ((ies @ [(s, sep, handle_bytes (handle_at bs (length bs - 1)))]) ! i)) key"
      by (simp add: nth_append less_Suc_eq)
    with t show ?thesis by blast
  qed
qed

lemma sint_pos_of_nat: "0 < n \<Longrightarrow> n < 2 ^ 63 \<Longrightarrow> 0 < sint (of_nat n :: u64)"
  by (simp add: signed_of_nat signed_take_bit_int_eq_self)

lemma add_step:
  assumes "build_inv kvs bs cur r" "valid key" "tb_add crc32c ops r key v = Some r'" "tb_ok r'"
    and "length kvs < 2 ^ 63"
  shows "\<exists>bs' cur'. build_inv (kvs @ [(key, v)]) bs' cur' r'"
proof -
  from assms(1) obtain crs ies irs where t: "table_inv bs cur crs ies irs r" "last_key_ok bs cur r"
    "bs = [] \<or> cur \<noteq> [] \<or> tb_pending_index_entry r" "key_values (all_entries bs @ cur) = kvs"
    by (auto simp: build_inv_def)
  note inv = t(1) [unfolded table_inv_def]
  let ?es = "all_entries bs @ cur"
  have len: "length ?es = length kvs" using t(4) by (metis length_key_values)
  have sorted: "sorted_keys ?es" using inv by blast
  obtain after r1 where steps:
    "(if sint (tb_num_entries r) > 0
      then map_option (\<lambda>c. c > 0) (compare cmp key (tb_last_key r)) else Some True) = Some after"
    "after"
    "(if tb_pending_index_entry r then
        if \<not> bb_empty (tb_data_block r) then None
        else Option.bind (find_shortest_separator cmp (tb_last_key r) key) (tb_add_index_entry r)
      else Some r) = Some r1"
    and rest: "do {
          let r = r1\<lparr>tb_filter_block := map_option (\<lambda>fb. fb_add_key fb key) (tb_filter_block r1),
                   tb_last_key := key, tb_num_entries := tb_num_entries r1 + 1\<rparr>;
          data_block \<leftarrow> bb_add (tb_data_block r) key v;
          let r = r\<lparr>tb_data_block := data_block\<rparr>;
          if bb_current_size_estimate data_block \<ge> unat (op_block_size (tb_options r))
          then tb_flush crc32c ops r
          else Some r
        } = Some r'"
    using assms(3) inv unfolding tb_add_def by (auto simp: bind_eq_Some_conv split: if_splits)
  have before: "?es \<noteq> [] \<longrightarrow> before (tb_last_key r) key"
  proof
    assume ne: "?es \<noteq> []"
    have key: "tb_last_key r = ent_key (last ?es)" "valid (tb_last_key r)"
      using t(2) ne sorted_keysD(1) [OF sorted last_in_set [OF ne]] by (simp_all add: last_key_ok_def)
    have "0 < sint (tb_num_entries r)"
    proof -
      have "0 < length kvs" using ne len by (metis length_greater_0_conv)
      moreover have "tb_num_entries r = of_nat (length kvs)" using inv unfolding len by blast
      ultimately show ?thesis using sint_pos_of_nat [of "length kvs"] assms(5) by simp
    qed
    with steps(1,2) obtain c where "compare cmp key (tb_last_key r) = Some c" "0 < c" by auto
    then show "before (tb_last_key r) key" using compare_pos [OF assms(2) key(2)] by blast
  qed
  from add_index [OF t(1,2,3) assms(2) before steps(3)] obtain ies' irs' where
    t1: "table_inv bs cur crs ies' irs' r1" "\<not> tb_pending_index_entry r1"
      "\<forall>i < length ies'. before (ent_key (ies' ! i)) key" by blast
  from rest obtain d where d: "bb_add (tb_data_block r1) key v = Some d"
    by (auto simp: bind_eq_Some_conv Let_def)
  define r2 where "r2 = r1\<lparr>tb_filter_block := map_option (\<lambda>fb. fb_add_key fb key) (tb_filter_block r1),
      tb_last_key := key, tb_num_entries := tb_num_entries r1 + 1, tb_data_block := d\<rparr>"
  have "?es \<noteq> [] \<longrightarrow> before (ent_key (last ?es)) key" using before t(2) by (simp add: last_key_ok_def)
  from data_step [OF t1(1,2) assms(2) this t1(3) d] obtain s crs' where
    t2: "table_inv bs (cur @ [(s, key, v)]) crs' ies' irs' r2" unfolding r2_def by blast
  have p2: "\<not> tb_pending_index_entry r2" "last_key_ok bs (cur @ [(s, key, v)]) r2"
    using t1(2) by (simp_all add: r2_def last_key_ok_def)
  have kv: "key_values (all_entries bs @ cur @ [(s, key, v)]) = kvs @ [(key, v)]"
    using t(4) by (simp add: key_values_def)
  have r': "(if bb_current_size_estimate d \<ge> unat (op_block_size (tb_options r2))
      then tb_flush crc32c ops r2 else Some r2) = Some r'"
    using rest d by (simp add: r2_def Let_def split: if_splits)
  show ?thesis
  proof (cases "bb_current_size_estimate d \<ge> unat (op_block_size (tb_options r2))")
    case False
    with r' have "r' = r2" by simp
    with t2 p2 kv have "build_inv (kvs @ [(key, v)]) bs (cur @ [(s, key, v)]) r'"
      unfolding build_inv_def by auto
    then show ?thesis by blast
  next
    case True
    with r' have f: "tb_flush crc32c ops r2 = Some r'" by simp
    note flush = flush_step [OF t2 p2(1) _ f assms(4)]
    have "build_inv (kvs @ [(key, v)]) (bs @ [(cur @ [(s, key, v)], crs')]) [] r'"
      using flush p2(2) kv unfolding build_inv_def by (auto simp: last_key_ok_def)
    then show ?thesis by blast
  qed
qed

lemma flush_entries:
  assumes "build_inv kvs bs cur r" "tb_flush crc32c ops r = Some r'" "tb_ok r'"
  shows "\<exists>bs' ies irs. table_inv bs' [] [0] ies irs r' \<and> last_key_ok bs' [] r' \<and>
    (bs' = [] \<or> tb_pending_index_entry r') \<and> key_values (all_entries bs') = kvs"
proof -
  from assms(1) obtain crs ies irs where t: "table_inv bs cur crs ies irs r" "last_key_ok bs cur r"
    "bs = [] \<or> cur \<noteq> [] \<or> tb_pending_index_entry r" "key_values (all_entries bs @ cur) = kvs"
    by (auto simp: build_inv_def)
  note inv = t(1) [unfolded table_inv_def]
  show ?thesis
  proof (cases "cur = []")
    case True
    have at: "builder_at cmp cur crs (tb_data_block r)" using inv by blast
    then have "bb_empty (tb_data_block r)" using True by (simp add: bb_empty_def builder_at_def)
    with assms(2) inv have "r' = r" by (simp add: tb_flush_def)
    moreover have "crs = [0]" using at True by (simp add: builder_at_def restarts_ok_def)
    ultimately show ?thesis using t True by auto
  next
    case False
    then have "\<not> tb_pending_index_entry r" using inv by auto
    note flush = flush_step [OF t(1) this False assms(2,3)]
    with t(2,4) show ?thesis
      by (intro exI [of _ "bs @ [(cur, crs)]"] exI [of _ ies] exI [of _ irs]) (simp add: last_key_ok_def)
  qed
qed

lemma finish_index_entry:
  assumes "table_inv bs [] [0] ies irs r" "last_key_ok bs [] r" "bs = [] \<or> tb_pending_index_entry r"
    and "(if tb_pending_index_entry r
          then Option.bind (find_short_successor cmp (tb_last_key r)) (tb_add_index_entry r)
          else Some r) = Some r'"
  shows "\<exists>ies irs. table_inv bs [] [0] ies irs r' \<and> \<not> tb_pending_index_entry r'"
proof (cases "tb_pending_index_entry r")
  case False
  with assms show ?thesis by auto
next
  case True
  note inv = assms(1) [unfolded table_inv_def]
  have bs: "bs \<noteq> []" using inv True by auto
  have ok: "data_block_ok (last bs)" using inv bs last_in_set by blast
  note ne = last_block_entries [OF bs ok]
  have "sorted_keys (all_entries bs)" using inv by simp
  then have lastv: "valid (tb_last_key r)"
    using sorted_keysD(1) [of "all_entries bs" "last (all_entries bs)"] last_in_set [OF ne(1)] ne(1) assms(2)
    by (simp add: last_key_ok_def)
  from successor [OF lastv] obtain sep where sep: "find_short_successor cmp (tb_last_key r) = Some sep"
    "valid sep" "\<exists>c. compare cmp (tb_last_key r) sep = Some c \<and> c \<le> 0" by blast
  have "tb_add_index_entry r sep = Some r'" using assms(4) True sep(1) by simp
  moreover have "\<not> before sep (tb_last_key r)"
    using sep(2,3) compare_pos [OF lastv sep(2)] by fastforce
  ultimately show ?thesis using index_step [OF assms(1,2) True _ sep(2)] by blast
qed

subsection \<open>The finished file\<close>

definition filter_stored :: "data_block list \<Rightarrow> u8 list \<Rightarrow> block_handle \<Rightarrow> bool" where
  "filter_stored bs F h \<longleftrightarrow>
     (case fp of
        None \<Rightarrow> F = []
      | Some p \<Rightarrow> \<exists>fs b. F = stored_bytes (filter_block_bytes fs) \<and> builder_holds p fs [] b \<and>
          filter_covers bs (map snd fs @ [[]]) \<and>
          h = handle_of (length (data_bytes bs)) (filter_block_bytes fs) \<and> handle_set h)"

definition meta_entries :: "block_handle \<Rightarrow> (slice \<times> slice) list" where
  "meta_entries h = (case fp of None \<Rightarrow> [] | Some p \<Rightarrow> [(ascii ''filter.'' @ policy_name p, handle_bytes h)])"

lemma filter_stored_None: "fp = None \<Longrightarrow> filter_stored bs F h \<longleftrightarrow> F = []"
  unfolding filter_stored_def by simp

lemma filter_stored_Some:
  "fp = Some p \<Longrightarrow> filter_stored bs F h \<longleftrightarrow>
     (\<exists>fs b. F = stored_bytes (filter_block_bytes fs) \<and> builder_holds p fs [] b \<and>
        filter_covers bs (map snd fs @ [[]]) \<and>
        h = handle_of (length (data_bytes bs)) (filter_block_bytes fs) \<and> handle_set h)"
  unfolding filter_stored_def by simp

lemma meta_entries_cases:
  "fp = None \<Longrightarrow> meta_entries h = []"
  "fp = Some p \<Longrightarrow> meta_entries h = [(ascii ''filter.'' @ policy_name p, handle_bytes h)]"
  unfolding meta_entries_def by simp_all

definition table_file :: "(slice \<times> slice) list \<Rightarrow> u8 list \<Rightarrow> bool" where
  "table_file kvs bytes \<longleftrightarrow>
     (\<exists>bs F fh mes mrs ies irs.
        key_values (all_entries bs) = kvs \<and> sorted_keys (all_entries bs) \<and>
        (\<forall>b \<in> set bs. data_block_ok b) \<and> filter_stored bs F fh \<and>
        shares_ok mes \<and> restarts_ok mes mrs \<and> key_values mes = meta_entries fh \<and>
        shares_ok ies \<and> restarts_ok ies irs \<and> index_ok bs (length bs) ies \<and> ahead_of bs [] ies \<and>
        bytes = data_bytes bs @ F @ stored_bytes (block_bytes mes mrs) @ stored_bytes (block_bytes ies irs) @
          footer_bytes
            \<lparr>ft_metaindex_handle = handle_of (length (data_bytes bs @ F)) (block_bytes mes mrs),
             ft_index_handle = handle_of (length (data_bytes bs @ F @ stored_bytes (block_bytes mes mrs)))
               (block_bytes ies irs)\<rparr>)"

lemma filter_step:
  assumes "table_inv bs [] [0] ies irs r"
    and "tb_finish_filter crc32c ops (r\<lparr>tb_closed := True\<rparr>) = Some (h, r')" "tb_ok r'"
  shows "\<exists>F f fb. written f = data_bytes bs @ F \<and>
     r' = r\<lparr>tb_closed := True, tb_filter_block := fb, tb_status := StatusOK, tb_file := f,
       tb_offset := of_nat (length (data_bytes bs @ F))\<rparr> \<and>
     (fb = None \<longleftrightarrow> fp = None) \<and> (handle_set h \<or> fp = None \<longrightarrow> filter_stored bs F h)"
proof -
  note inv = assms(1) [unfolded table_inv_def]
  show ?thesis
  proof (cases fp)
    case None
    have fb: "tb_filter_block r = None" using inv unfolding filter_inv_None [OF None] by blast
    then have r': "r' = r\<lparr>tb_closed := True\<rparr>" using assms(2) inv by (simp add: tb_finish_filter_def)
    have "filter_stored bs [] h" unfolding filter_stored_None [OF None] by simp
    moreover have "r\<lparr>tb_closed := True\<rparr> = r\<lparr>tb_closed := True, tb_filter_block := None, tb_status := StatusOK,
        tb_file := tb_file r, tb_offset := of_nat (length (data_bytes bs @ []))\<rparr>"
      using inv fb by (intro table_rep.equality) (simp_all add: status_ok_def)
    ultimately show ?thesis using inv r' None
      by (intro exI [of _ "[]"] exI [of _ "tb_file r"] exI [of _ None]) simp
  next
    case (Some p)
    obtain fb fs pending where fb: "tb_filter_block r = Some fb" "builder_holds p fs pending fb"
      "filter_covers bs (map snd fs @ [pending])"
      using inv unfolding filter_inv_Some [OF Some] by blast
    obtain contents fb' where c: "fb_finish fb = Some (contents, fb')"
      "tb_write_raw_block crc32c ops (r\<lparr>tb_closed := True, tb_filter_block := Some fb'\<rparr>) contents KNoCompression = (h, r')"
      using assms(2) inv fb(1) by (auto simp: tb_finish_filter_def bind_eq_Some_conv)
    from filter_policy_laws.finish_covers [OF policy_laws [OF Some] fb(2) c(1)] obtain gs b1 rest where
      gs: "builder_holds p gs [] b1" "contents = filter_block_bytes gs"
      "map snd gs @ [[]] = (map snd fs @ [pending]) @ rest" by auto
    have "filter_covers bs (map snd gs @ [[]])"
      using fb(3) unfolding gs(3) filter_covers_def by (blast intro: covers_append)
    moreover note w = write_raw_block [OF c(2) assms(3)]
    have h: "h = handle_of (length (data_bytes bs)) (filter_block_bytes gs)"
      using w(1) inv gs(2) by (simp add: handle_of_def)
    ultimately have "handle_set h \<longrightarrow> filter_stored bs (stored_bytes contents) h"
      unfolding filter_stored_Some [OF Some] using gs by auto
    moreover from w(3) obtain f where f: "r' = r\<lparr>tb_closed := True, tb_filter_block := Some fb',
        tb_status := StatusOK, tb_file := f, tb_offset := tb_offset r + of_nat (length (stored_bytes contents))\<rparr>"
      by auto
    moreover have "written f = data_bytes bs @ stored_bytes contents" using w(2) f inv by simp
    ultimately show ?thesis using inv Some
      by (intro exI [of _ "stored_bytes contents"] exI [of _ f] exI [of _ "Some fb'"]) simp
  qed
qed

lemma meta_step:
  assumes "op_comparator (tb_options r) = cmp" "op_filter_policy (tb_options r) = fp"
    and "tb_filter_block r = None \<longleftrightarrow> fp = None" "tb_ok r"
    and "tb_finish_meta crc32c ops r fh = Some (h, r')" "tb_ok r'"
  shows "\<exists>mes mrs f. shares_ok mes \<and> restarts_ok mes mrs \<and> key_values mes = meta_entries fh \<and>
    (handle_set fh \<or> fp = None) \<and>
    h = \<lparr>bh_offset = tb_offset r, bh_size = of_nat (length (block_bytes mes mrs))\<rparr> \<and>
    written f = written (tb_file r) @ stored_bytes (block_bytes mes mrs) \<and>
    r' = r\<lparr>tb_status := StatusOK, tb_file := f, tb_compressed_output := [],
      tb_offset := tb_offset r + of_nat (length (stored_bytes (block_bytes mes mrs)))\<rparr>"
proof -
  from assms(4,5) obtain block b' where m: "meta_index_block r fh = Some block"
    "tb_write_block crc32c ops r block = Some (b', h, r')"
    by (auto simp: tb_finish_meta_def bind_eq_Some_conv)
  from m(1) obtain b0 where b0: "options_block_builder (tb_options r) = Some b0"
    by (auto simp: meta_index_block_def bind_eq_Some_conv)
  have at0: "builder_at cmp [] [0] b0"
    using b0 assms(1) block_builder_at by (auto simp: options_block_builder_def)
  have "\<exists>mes mrs. builder_at cmp mes mrs block \<and> key_values mes = meta_entries fh \<and>
      (handle_set fh \<or> fp = None)"
  proof (cases fp)
    case None
    have "block = b0" using m(1) b0 assms(3) None by (simp add: meta_index_block_def)
    with at0 show ?thesis unfolding meta_entries_cases(1) [OF None]
      by (intro exI [of _ "[]"] exI [of _ "[0]"]) (simp add: key_values_def None)
  next
    case (Some p)
    have "handle_set fh" "bb_add b0 (ascii ''filter.'' @ policy_name p) (handle_bytes fh) = Some block"
      using m(1) b0 assms(2,3) Some
      by (auto simp: meta_index_block_def handle_encode split: option.splits if_splits)
    with bb_add_ok [OF at0 this(2)] show ?thesis unfolding meta_entries_cases(2) [OF Some]
      by (auto simp: key_values_def)
  qed
  then obtain mes mrs where at: "builder_at cmp mes mrs block" "key_values mes = meta_entries fh"
    "handle_set fh \<or> fp = None" by blast
  note w = write_block [OF m(2) assms(6), unfolded finish_bytes [OF at(1)]]
  from w(4) obtain f where f: "r' = r\<lparr>tb_status := StatusOK, tb_file := f,
      tb_offset := tb_offset r + of_nat (length (stored_bytes (block_bytes mes mrs))), tb_compressed_output := []\<rparr>" ..
  have "shares_ok mes" "restarts_ok mes mrs" using at(1) by (simp_all add: builder_at_def)
  with at(2,3) w(2,3) f show ?thesis
    by (intro exI [of _ mes] exI [of _ mrs] exI [of _ f]) simp
qed

lemma add_index_entry_cong:
  assumes "tb_index_block r' = tb_index_block r" "tb_pending_handle r' = tb_pending_handle r"
    and "tb_add_index_entry r' k = Some s'"
  shows "\<exists>s. tb_add_index_entry r k = Some s \<and> tb_index_block s = tb_index_block s'"
  using assms by (auto simp: tb_add_index_entry_def bind_eq_Some_conv)

lemma add_index_entry_frame:
  assumes "tb_add_index_entry r k = Some r'"
  shows "\<exists>ib. r' = r\<lparr>tb_last_key := k, tb_index_block := ib, tb_pending_index_entry := False\<rparr>"
  using assms by (auto simp: tb_add_index_entry_def bind_eq_Some_conv)

lemma index_finish_step:
  assumes t: "table_inv bs [] [0] ies irs r" "last_key_ok bs [] r" "bs = [] \<or> tb_pending_index_entry r"
    and r2: "op_comparator (tb_options r2) = cmp" "tb_last_key r2 = tb_last_key r"
      "tb_index_block r2 = tb_index_block r" "tb_pending_handle r2 = tb_pending_handle r"
      "tb_pending_index_entry r2 = tb_pending_index_entry r" "tb_ok r2"
    and "tb_finish_index crc32c ops r2 = Some (h, r')" "tb_ok r'"
  shows "\<exists>ies irs. shares_ok ies \<and> restarts_ok ies irs \<and> index_ok bs (length bs) ies \<and> ahead_of bs [] ies \<and>
    h = \<lparr>bh_offset = tb_offset r2, bh_size = of_nat (length (block_bytes ies irs))\<rparr> \<and>
    written (tb_file r') = written (tb_file r2) @ stored_bytes (block_bytes ies irs)"
proof -
  from assms(10,11) r2(6) obtain r3 b' r4 where r3:
    "(if tb_pending_index_entry r2
      then Option.bind (find_short_successor cmp (tb_last_key r2)) (tb_add_index_entry r2)
      else Some r2) = Some r3"
    "tb_write_block crc32c ops r3 (tb_index_block r3) = Some (b', h, r4)" "r' = r4\<lparr>tb_index_block := b'\<rparr>"
    using r2(1) by (auto simp: tb_finish_index_def bind_eq_Some_conv)
  have frame: "tb_offset r3 = tb_offset r2" "tb_file r3 = tb_file r2"
    using r3(1) add_index_entry_frame by (fastforce split: if_splits bind_splits)+
  have "\<exists>r1. (if tb_pending_index_entry r
      then Option.bind (find_short_successor cmp (tb_last_key r)) (tb_add_index_entry r)
      else Some r) = Some r1 \<and> tb_index_block r1 = tb_index_block r3"
  proof (cases "tb_pending_index_entry r")
    case True
    with r3(1) r2(2,5) obtain k where k: "find_short_successor cmp (tb_last_key r) = Some k"
      "tb_add_index_entry r2 k = Some r3" by (auto simp: bind_eq_Some_conv)
    from add_index_entry_cong [OF r2(3,4) k(2)] True k(1) show ?thesis by auto
  qed (use r3(1) r2(3,5) in auto)
  then obtain r1 where r1: "tb_index_block r1 = tb_index_block r3"
    "(if tb_pending_index_entry r
      then Option.bind (find_short_successor cmp (tb_last_key r)) (tb_add_index_entry r)
      else Some r) = Some r1" by blast
  from finish_index_entry [OF t r1(2)] obtain ies' irs' where
    inv: "table_inv bs [] [0] ies' irs' r1" "\<not> tb_pending_index_entry r1" by blast
  have at: "builder_at cmp ies' irs' (tb_index_block r3)" using inv(1) r1(1) by (auto simp: table_inv_def)
  have "tb_ok r4" using assms(11) r3(3) by simp
  note w = write_block [OF r3(2) this, unfolded finish_bytes [OF at]]
  have "shares_ok ies'" "restarts_ok ies' irs'" using at by (simp_all add: builder_at_def)
  moreover have "index_ok bs (length bs) ies'" "ahead_of bs [] ies'"
    using inv by (simp_all add: table_inv_def)
  ultimately show ?thesis using w(2,3) frame r3(3)
    by (intro exI [of _ ies'] exI [of _ irs']) simp
qed

lemma finish_stops:
  assumes "\<not> tb_ok r"
  shows "tb_finish_filter crc ops r = Some (block_handle, r)"
    "tb_finish_meta crc ops r h = Some (block_handle, r)"
    "tb_finish_index crc ops r = Some (block_handle, r)"
    "tb_finish_footer ops r h h' = Some r"
  using assms by (simp_all add: tb_finish_filter_def tb_finish_meta_def tb_finish_index_def tb_finish_footer_def)

lemma finish_ok:
  assumes "build_inv kvs bs0 cur r0" "tb_finish crc32c ops r0 = Some (s, r5)" "status_ok s"
  shows "table_file kvs (written (tb_file r5))"
proof -
  from assms(2) obtain r fh r2 mh r3 ih r4 where steps: "tb_flush crc32c ops r0 = Some r"
    "tb_finish_filter crc32c ops (r\<lparr>tb_closed := True\<rparr>) = Some (fh, r2)"
    "tb_finish_meta crc32c ops r2 fh = Some (mh, r3)"
    "tb_finish_index crc32c ops r3 = Some (ih, r4)"
    "tb_finish_footer ops r4 mh ih = Some r5" "s = tb_status r5"
    by (auto simp: tb_finish_def bind_eq_Some_conv split: if_splits)
  have ok5: "tb_ok r5" using assms(3) steps(6) by simp
  have ok4: "tb_ok r4" using steps(5) ok5 by (cases "tb_ok r4") (simp_all add: finish_stops)
  have ok3: "tb_ok r3" using steps(4) ok4 by (cases "tb_ok r3") (simp_all add: finish_stops)
  have ok2: "tb_ok r2" using steps(3) ok3 by (cases "tb_ok r2") (simp_all add: finish_stops)
  have ok1: "tb_ok r"
    using steps(2) ok2 by (cases "tb_ok r") (auto simp: finish_stops)
  from flush_entries [OF assms(1) steps(1) ok1] obtain bs ies0 irs0 where
    t: "table_inv bs [] [0] ies0 irs0 r" "last_key_ok bs [] r" "bs = [] \<or> tb_pending_index_entry r"
    "key_values (all_entries bs) = kvs" by blast
  note inv = t(1) [unfolded table_inv_def]
  from filter_step [OF t(1) steps(2) ok2] obtain F f fb where
    f: "written f = data_bytes bs @ F"
    "r2 = r\<lparr>tb_closed := True, tb_filter_block := fb, tb_status := StatusOK, tb_file := f,
       tb_offset := of_nat (length (data_bytes bs @ F))\<rparr>"
    "fb = None \<longleftrightarrow> fp = None" "handle_set fh \<or> fp = None \<longrightarrow> filter_stored bs F fh" by blast
  have m: "op_comparator (tb_options r2) = cmp" "op_filter_policy (tb_options r2) = fp"
    "tb_filter_block r2 = None \<longleftrightarrow> fp = None" using inv f(2,3) by simp_all
  from meta_step [OF m ok2 steps(3) ok3] obtain mes mrs g where
    g: "shares_ok mes" "restarts_ok mes mrs" "key_values mes = meta_entries fh" "handle_set fh \<or> fp = None"
    "mh = handle_of (length (data_bytes bs @ F)) (block_bytes mes mrs)"
    "written g = data_bytes bs @ F @ stored_bytes (block_bytes mes mrs)"
    "r3 = r2\<lparr>tb_status := StatusOK, tb_file := g, tb_compressed_output := [],
       tb_offset := tb_offset r2 + of_nat (length (stored_bytes (block_bytes mes mrs)))\<rparr>"
    using f(1,2) by (auto simp: handle_of_def)
  have r3: "op_comparator (tb_options r3) = cmp" "tb_last_key r3 = tb_last_key r"
    "tb_index_block r3 = tb_index_block r" "tb_pending_handle r3 = tb_pending_handle r"
    "tb_pending_index_entry r3 = tb_pending_index_entry r" using m(1) f(2) g(7) by simp_all
  from index_finish_step [OF t(1-3) r3 ok3 steps(4) ok4] obtain ies irs where
    i: "shares_ok ies" "restarts_ok ies irs" "index_ok bs (length bs) ies" "ahead_of bs [] ies"
    "ih = \<lparr>bh_offset = tb_offset r3, bh_size = of_nat (length (block_bytes ies irs))\<rparr>"
    "written (tb_file r4) = written (tb_file r3) @ stored_bytes (block_bytes ies irs)" by blast
  have ih: "ih = handle_of (length (data_bytes bs @ F @ stored_bytes (block_bytes mes mrs))) (block_bytes ies irs)"
    using i(5) g(7) f(2) by (simp add: handle_of_def add.assoc)
  have ft: "footer_encode_to \<lparr>ft_metaindex_handle = mh, ft_index_handle = ih\<rparr> [] =
      (if handle_set mh \<and> handle_set ih
       then Some (footer_bytes \<lparr>ft_metaindex_handle = mh, ft_index_handle = ih\<rparr>) else None)"
    by (simp add: footer_encode) (simp add: footer_encode_to_def handle_encode)
  obtain s' f' where f': "wf_append ops (tb_file r4) (footer_bytes \<lparr>ft_metaindex_handle = mh, ft_index_handle = ih\<rparr>) = (s', f')"
    by (cases "wf_append ops (tb_file r4) (footer_bytes \<lparr>ft_metaindex_handle = mh, ft_index_handle = ih\<rparr>)")
  have "tb_file r5 = f' \<and> tb_status r5 = s'"
    using steps(5) ok4 f' ft by (auto simp: tb_finish_footer_def Let_def split: if_splits)
  then have "written (tb_file r5) = written (tb_file r4) @ footer_bytes \<lparr>ft_metaindex_handle = mh, ft_index_handle = ih\<rparr>"
    using append_exact f' ok5 by (simp add: status_ok_def)
  then have "written (tb_file r5) = data_bytes bs @ F @ stored_bytes (block_bytes mes mrs) @
      stored_bytes (block_bytes ies irs) @ footer_bytes \<lparr>ft_metaindex_handle = mh, ft_index_handle = ih\<rparr>"
    using i(6) g(6,7) by simp
  moreover have "filter_stored bs F fh" using f(4) g(4) by blast
  moreover have "\<forall>b \<in> set bs. data_block_ok b" "sorted_keys (all_entries bs)" using inv by simp_all
  ultimately show ?thesis unfolding table_file_def
    using t(4) g(1-3) i(1-4) unfolding g(5) ih by blast
qed

end

interpretation plain_building: table_building "internal_comparator bytewise_comparator" bytewise.internal_valid posix_writable_file po_data None
  by unfold_locales simp_all

end
