(* ===== verification/LdTableRead.thy ===== *)
theory LdTableRead
  imports LdTableOk
begin

text \<open>A table that was built is opened, and every entry that was added is found in it.\<close>

subsection \<open>Building\<close>

primrec tb_add_all :: "(u32 \<Rightarrow> u8 list \<Rightarrow> u32) \<Rightarrow> 'f writable_file \<Rightarrow> 'f table_rep \<Rightarrow>
    (slice \<times> slice) list \<Rightarrow> 'f table_rep option" where
  "tb_add_all crc ops r [] = Some r"
| "tb_add_all crc ops r (kv # kvs) =
     do { r \<leftarrow> tb_add crc ops r (fst kv) (snd kv); tb_add_all crc ops r kvs }"

definition build_table :: "(u32 \<Rightarrow> u8 list \<Rightarrow> u32) \<Rightarrow> 'f writable_file \<Rightarrow> options \<Rightarrow> 'f \<Rightarrow>
    (slice \<times> slice) list \<Rightarrow> (status \<times> 'f) option" where
  "build_table crc ops opt f kvs =
     do {
       r \<leftarrow> table_builder opt f;
       r \<leftarrow> tb_add_all crc ops r kvs;
       (s, r) \<leftarrow> tb_finish crc ops r;
       Some (s, tb_file r)
     }"

lemma add_stops: "\<not> tb_ok r \<Longrightarrow> tb_add_all crc ops r kvs = Some r' \<Longrightarrow> \<not> tb_ok r'"
proof (induction kvs arbitrary: r)
  case (Cons kv kvs)
  then show ?case by (auto simp: bind_eq_Some_conv tb_add_def split: if_splits)
qed simp

context table_building
begin

lemma add_all_ok:
  assumes "build_inv kvs0 bs cur r" "\<forall>kv \<in> set kvs. valid (fst kv)"
    and "tb_add_all crc32c ops r kvs = Some r'" "tb_ok r'" "length kvs0 + length kvs < 2 ^ 63"
  shows "\<exists>bs' cur'. build_inv (kvs0 @ kvs) bs' cur' r'"
  using assms
proof (induction kvs arbitrary: kvs0 bs cur r)
  case (Cons kv kvs)
  from Cons.prems(3) obtain r1 where r1: "tb_add crc32c ops r (fst kv) (snd kv) = Some r1"
    "tb_add_all crc32c ops r1 kvs = Some r'" by (auto simp: bind_eq_Some_conv)
  have "tb_ok r1" using add_stops [OF _ r1(2)] Cons.prems(4) by blast
  from add_step [OF Cons.prems(1) _ r1(1) this] Cons.prems(2,5) obtain bs1 cur1 where
    "build_inv (kvs0 @ [kv]) bs1 cur1 r1" by auto
  from Cons.IH [OF this _ r1(2) Cons.prems(4)] Cons.prems(2,5) show ?case by simp
qed auto

lemma new_builder:
  assumes "table_builder opt f = Some r" "op_comparator opt = cmp" "op_filter_policy opt = fp" "written f = []"
  shows "build_inv [] [] [] r"
proof -
  let ?iopt = "opt\<lparr>op_block_restart_interval := 1\<rparr>"
  from assms(1) obtain b fb where b: "options_block_builder opt = Some b"
    "(case op_filter_policy opt of None \<Rightarrow> Some None
      | Some policy \<Rightarrow> map_option Some (fb_start_block (filter_block_builder policy) 0)) = Some fb"
    "r = \<lparr>tb_options = opt, tb_index_block_options = ?iopt, tb_file = f, tb_offset = 0,
         tb_status = StatusOK, tb_data_block = b, tb_index_block = follow_options ?iopt b, tb_last_key = [],
         tb_num_entries = 0, tb_closed = False, tb_filter_block = fb, tb_pending_index_entry = False,
         tb_pending_handle = block_handle, tb_compressed_output = []\<rparr>"
    by (auto simp: table_builder_def Let_def bind_eq_Some_conv)
  have at: "builder_at cmp [] [0] b"
    using b(1) assms(2) block_builder_at by (auto simp: options_block_builder_def)
  then have at': "builder_at cmp [] [0] (follow_options ?iopt b)"
    using assms(2) by (simp add: builder_at_def follow_options_def)
  have "filter_inv [] [] r"
  proof (cases fp)
    case None
    then have "fb = None" using b(2) assms(3) by simp
    then show ?thesis unfolding filter_inv_None [OF None] by (simp add: b(3))
  next
    case (Some p)
    then obtain fb1 where fb1: "fb = Some fb1" "fb_start_block (filter_block_builder p) 0 = Some fb1"
      using b(2) assms(3) by auto
    from filter_policy_laws.start_block_covers [OF policy_laws [OF Some] builder_new fb1(2)]
    obtain gs pending where "builder_holds p gs pending fb1" "unat (0 div kFilterBase) = length gs" by blast
    then show ?thesis unfolding filter_inv_Some [OF Some]
      by (intro exI [of _ fb1] exI [of _ gs] exI [of _ pending]) (simp add: b(3) fb1(1) filter_covers_def)
  qed
  then have "table_inv [] [] [0] [] [0] r"
    using at at' assms(2,3,4)
    by (simp add: table_inv_def b(3) sorted_keys_def index_ok_def ahead_of_def)
  then show ?thesis by (auto simp: build_inv_def last_key_ok_def key_values_def)
qed

lemma table_built:
  assumes "build_table crc32c ops opt f kvs = Some (s, f')" "status_ok s"
    and "op_comparator opt = cmp" "op_filter_policy opt = fp" "written f = []"
    and "\<forall>kv \<in> set kvs. valid (fst kv)" "length kvs < 2 ^ 63"
  shows "table_file kvs (written f')"
proof -
  from assms(1) obtain r0 r1 r2 where r: "table_builder opt f = Some r0"
    "tb_add_all crc32c ops r0 kvs = Some r1" "tb_finish crc32c ops r1 = Some (s, r2)" "f' = tb_file r2"
    by (auto simp: build_table_def bind_eq_Some_conv)
  have "tb_ok r1"
  proof (rule ccontr)
    assume bad: "\<not> tb_ok r1"
    then have "s = tb_status r1" using r(3)
      by (auto simp: tb_finish_def tb_flush_def bind_eq_Some_conv finish_stops split: if_splits)
    with bad assms(2) show False by simp
  qed
  from add_all_ok [OF new_builder [OF r(1) assms(3-5)] assms(6) r(2) this] assms(7)
  obtain bs cur where "build_inv kvs bs cur r1" by auto
  from finish_ok [OF this r(3) assms(2)] r(4) show ?thesis by simp
qed

end

subsection \<open>Opening\<close>

lemma filter_block_reader_some: "\<exists>r. filter_block_reader policy contents = Some r"
  by (simp add: filter_block_reader_def Let_def decode_fixed32_eq)

lemma handle_decode' [simp]: "block_handle_decode_from h0 (handle_bytes h) = (StatusOK, h, [])"
  using handle_decode [of h0 h "[]"] by simp

locale table_reading = table_building cmp valid ops written fp + random_file rops contents good
  for cmp :: comparator and valid :: "slice \<Rightarrow> bool"
    and ops :: "'f writable_file" and written :: "'f \<Rightarrow> u8 list"
    and fp :: "filter_policy option"
    and rops :: "'r random_access_file" and contents :: "'r \<Rightarrow> u8 list" and good :: "'r \<Rightarrow> bool"
begin

lemma read_stored:
  assumes "good f" "contents f = pre @ stored_bytes data @ post"
  shows "\<exists>b. read_block crc32c rops f options (handle_of (length pre) data) =
    Some (StatusOK, \<lparr>bc_data = data, bc_cachable = b, bc_heap_allocated = b\<rparr>)"
  using assms by (intro read_block_ok [of f pre data post]) (simp_all add: stored_bytes_def)

text \<open>The reader of the table: the filter is the one that was written.\<close>

definition reader_ok :: "data_block list \<Rightarrow> 'r table \<Rightarrow> bool" where
  "reader_ok bs t \<longleftrightarrow>
     (case fp of
        None \<Rightarrow> ta_filter t = None
      | Some p \<Rightarrow> \<exists>fs b r. ta_filter t = Some r \<and> filter_block_reader p (filter_block_bytes fs) = Some r \<and>
          length (filter_block_bytes fs) < 2 ^ 32 \<and> builder_holds p fs [] b \<and>
          filter_covers bs (map snd fs @ [[]]))"

lemma reader_ok_None: "fp = None \<Longrightarrow> reader_ok bs t \<longleftrightarrow> ta_filter t = None"
  unfolding reader_ok_def by simp

lemma reader_ok_Some:
  "fp = Some p \<Longrightarrow> reader_ok bs t \<longleftrightarrow>
     (\<exists>fs b r. ta_filter t = Some r \<and> filter_block_reader p (filter_block_bytes fs) = Some r \<and>
        length (filter_block_bytes fs) < 2 ^ 32 \<and> builder_holds p fs [] b \<and>
        filter_covers bs (map snd fs @ [[]]))"
  unfolding reader_ok_def by simp

definition table_on :: "(slice \<times> slice) list \<Rightarrow> 'r \<Rightarrow> 'r table \<Rightarrow> bool" where
  "table_on kvs f t \<longleftrightarrow>
     (\<exists>bs rest ies irs. contents f = data_bytes bs @ rest \<and> length (contents f) < 2 ^ 32 \<and> good f \<and>
        key_values (all_entries bs) = kvs \<and> sorted_keys (all_entries bs) \<and>
        (\<forall>b \<in> set bs. data_block_ok b) \<and> block_ok ies irs \<and>
        index_ok bs (length bs) ies \<and> ahead_of bs [] ies \<and>
        ta_file t = f \<and> op_comparator (ta_options t) = cmp \<and>
        make_block (block_bytes ies irs) = Some (ta_index_block t) \<and> reader_ok bs t)"

lemma read_filter:
  assumes "fp = Some p" "op_filter_policy (ta_options t) = fp" "good (ta_file t)"
    and "contents (ta_file t) = data_bytes bs @ F @ rest" "length (contents (ta_file t)) < 2 ^ 32"
    and "filter_stored bs F fh"
  shows "\<exists>d r. table_read_filter crc32c rops t (handle_bytes fh) =
    Some (t\<lparr>ta_filter_data := d, ta_filter := Some r\<rparr>) \<and> reader_ok bs (t\<lparr>ta_filter_data := d, ta_filter := Some r\<rparr>)"
proof -
  from assms(6) obtain fs b where fs: "F = stored_bytes (filter_block_bytes fs)" "builder_holds p fs [] b"
    "filter_covers bs (map snd fs @ [[]])" "fh = handle_of (length (data_bytes bs)) (filter_block_bytes fs)"
    unfolding filter_stored_Some [OF assms(1)] by blast
  from read_stored [OF assms(3), of "data_bytes bs" "filter_block_bytes fs" rest "checked_options (ta_options t)"]
  obtain h where h: "read_block crc32c rops (ta_file t) (checked_options (ta_options t)) fh =
      Some (StatusOK, \<lparr>bc_data = filter_block_bytes fs, bc_cachable = h, bc_heap_allocated = h\<rparr>)"
    using assms(4) fs(1,4) by auto
  obtain r where r: "filter_block_reader p (filter_block_bytes fs) = Some r"
    using filter_block_reader_some by blast
  have small: "length (filter_block_bytes fs) < 2 ^ 32"
    using assms(4,5) fs(1) by (simp add: stored_bytes_def)
  have "table_read_filter crc32c rops t (handle_bytes fh) =
      Some (t\<lparr>ta_filter_data := (if h then Some (filter_block_bytes fs) else ta_filter_data t), ta_filter := Some r\<rparr>)"
    using h r assms(1,2) by (simp add: table_read_filter_def Let_def)
  moreover have "reader_ok bs (t\<lparr>ta_filter_data := d, ta_filter := Some r\<rparr>)" for d
    unfolding reader_ok_Some [OF assms(1)] using fs(2,3) r small by auto
  ultimately show ?thesis by blast
qed

lemma read_meta:
  assumes "op_filter_policy (ta_options t) = fp" "good (ta_file t)" "ta_filter t = None"
    and "contents (ta_file t) = data_bytes bs @ F @ stored_bytes (block_bytes mes mrs) @ rest"
    and "length (contents (ta_file t)) < 2 ^ 32" "filter_stored bs F fh"
    and "shares_ok mes" "restarts_ok mes mrs" "key_values mes = meta_entries fh"
    and "ft_metaindex_handle ft = handle_of (length (data_bytes bs @ F)) (block_bytes mes mrs)"
  shows "\<exists>d r. table_read_meta crc32c rops t ft = Some (t\<lparr>ta_filter_data := d, ta_filter := r\<rparr>) \<and>
    reader_ok bs (t\<lparr>ta_filter_data := d, ta_filter := r\<rparr>)"
proof (cases fp)
  case None
  have "t = t\<lparr>ta_filter_data := ta_filter_data t, ta_filter := None\<rparr>" using assms(3) by (intro table.equality) simp_all
  moreover have "reader_ok bs (t\<lparr>ta_filter_data := ta_filter_data t, ta_filter := None\<rparr>)"
    unfolding reader_ok_None [OF None] by simp
  ultimately show ?thesis using assms(1) None
    by (intro exI [of _ "ta_filter_data t"] exI [of _ None]) (simp add: table_read_meta_def)
next
  case (Some p)
  let ?key = "ascii ''filter.'' @ policy_name p"
  from read_stored [OF assms(2), of "data_bytes bs @ F" "block_bytes mes mrs" rest "checked_options (ta_options t)"]
  obtain h where h: "read_block crc32c rops (ta_file t) (checked_options (ta_options t)) (ft_metaindex_handle ft) =
      Some (StatusOK, \<lparr>bc_data = block_bytes mes mrs, bc_cachable = h, bc_heap_allocated = h\<rparr>)"
    using assms(4,10) by auto
  have bok: "block_ok mes mrs" using assms(4,5,7,8) by (simp add: block_ok_def stored_bytes_def)
  from open_block [OF bok, of bytewise_comparator] obtain blk i where i: "make_block (block_bytes mes mrs) = Some blk"
    "new_iterator blk bytewise_comparator = Some (BlockIterator i)" "iter_on bytewise_comparator mes mrs i" by blast
  obtain e where mes: "mes = [e]" "ent_key e = ?key" "ent_value e = handle_bytes fh"
    using assms(9) unfolding meta_entries_cases(2) [OF Some] by (cases mes) (auto simp: key_values_def)
  have "bytewise.sorted_keys mes" by (simp add: bytewise.sorted_keys_def mes(1))
  from bytewise.seek_ok [OF i(3) bok this, of ?key] obtain m j where
    j: "bi_seek i ?key = Some j" "positioned bytewise_comparator mes mrs j m"
    "block_at_first bytewise_comparator mes ?key m" by auto
  have "\<not> 0 < m"
  proof
    assume "0 < m"
    with j(3) have "bytewise.before ?key ?key"
      by (auto simp: block_at_first_def mes bytewise.before_def)
    then show False using bytewise.before_irrefl by blast
  qed
  then have m: "m = 0" by simp
  have at: "bi_valid j" "bi_get_key j = Some ?key" "bi_get_value j = Some (handle_bytes fh)"
    using positioned_valid [OF j(2)] positioned_entry [OF j(2)] m mes by auto
  have "table_read_meta crc32c rops t ft = table_read_filter crc32c rops t (handle_bytes fh)"
    using assms(1) Some h i j(1) at
    by (simp add: table_read_meta_def ni_seek_def ni_valid_def ni_key_def ni_value_def slice_eq_iff)
  with read_filter [OF Some assms(1,2) _ assms(5,6)] assms(4) show ?thesis by auto
qed

theorem open_built:
  assumes "good f" "table_file kvs (contents f)" "length (contents f) < 2 ^ 32"
    and "op_comparator opt = cmp" "op_filter_policy opt = fp"
  shows "\<exists>t c'. table_open crc32c rops cache c opt f (of_nat (length (contents f))) = Some (StatusOK, Some t, c') \<and>
    table_on kvs f t"
proof -
  let ?n = "length (contents f)"
  from assms(2) obtain bs F fh mes mrs ies irs where t:
    "key_values (all_entries bs) = kvs" "sorted_keys (all_entries bs)"
    "\<forall>b \<in> set bs. data_block_ok b" "filter_stored bs F fh"
    "shares_ok mes" "restarts_ok mes mrs" "key_values mes = meta_entries fh"
    "shares_ok ies" "restarts_ok ies irs" "index_ok bs (length bs) ies" "ahead_of bs [] ies"
    and c: "contents f = data_bytes bs @ F @ stored_bytes (block_bytes mes mrs) @ stored_bytes (block_bytes ies irs) @
          footer_bytes
            \<lparr>ft_metaindex_handle = handle_of (length (data_bytes bs @ F)) (block_bytes mes mrs),
             ft_index_handle = handle_of (length (data_bytes bs @ F @ stored_bytes (block_bytes mes mrs)))
               (block_bytes ies irs)\<rparr>"
    unfolding table_file_def by blast
  define ft where "ft = \<lparr>ft_metaindex_handle = handle_of (length (data_bytes bs @ F)) (block_bytes mes mrs),
             ft_index_handle = handle_of (length (data_bytes bs @ F @ stored_bytes (block_bytes mes mrs)))
               (block_bytes ies irs)\<rparr>"
  define pre where "pre = data_bytes bs @ F @ stored_bytes (block_bytes mes mrs) @ stored_bytes (block_bytes ies irs)"
  have cf: "contents f = pre @ footer_bytes ft" unfolding c pre_def ft_def by simp
  then have n: "?n = length pre + 48" by simp
  have "of_nat ?n - of_nat 48 = (of_nat (length pre) :: u64)" unfolding n by simp
  moreover from read_ok [OF assms(1), of "length pre" 48] n cf obtain b where
    "ra_read rops f (of_nat (length pre)) (of_nat 48) = Some (StatusOK, footer_bytes ft, b)" by auto
  ultimately have read: "ra_read rops f (of_nat ?n - of_nat 48) (of_nat 48) = Some (StatusOK, footer_bytes ft, b)"
    by (simp only:)
  have big: "\<not> (of_nat ?n :: u64) < of_nat 48"
    using n assms(3) unat_of_nat_u64 [of ?n] by (simp add: word_less_nat_alt)
  have dec: "footer_decode_from f0 (footer_bytes ft) = Some (StatusOK, ft, [])" for f0
    using footer_decode [of f0 ft "[]"] by simp
  from read_stored [OF assms(1), of "data_bytes bs @ F @ stored_bytes (block_bytes mes mrs)" "block_bytes ies irs"
      "footer_bytes ft" "checked_options opt"]
  obtain h where h: "read_block crc32c rops f (checked_options opt) (ft_index_handle ft) =
      Some (StatusOK, \<lparr>bc_data = block_bytes ies irs, bc_cachable = h, bc_heap_allocated = h\<rparr>)"
    unfolding c ft_def by auto
  have iok: "block_ok ies irs" using t(8,9) assms(3) c by (simp add: block_ok_def stored_bytes_def)
  from open_block [OF iok] obtain blk where blk: "make_block (block_bytes ies irs) = Some blk" by blast
  obtain cid c' where cid: "(case cache of None \<Rightarrow> (0, c) | Some ca \<Rightarrow> ca_new_id ca c) = (cid, c')"
    by (cases "case cache of None \<Rightarrow> (0, c) | Some ca \<Rightarrow> ca_new_id ca c")
  define t0 where "t0 = \<lparr>ta_options = opt, ta_status = StatusOK, ta_file = f,
      ta_cache_id = cid, ta_filter = None, ta_filter_data = None,
      ta_metaindex_handle = ft_metaindex_handle ft, ta_index_block = blk\<rparr>"
  have "\<exists>d r. table_read_meta crc32c rops t0 ft = Some (t0\<lparr>ta_filter_data := d, ta_filter := r\<rparr>) \<and>
      reader_ok bs (t0\<lparr>ta_filter_data := d, ta_filter := r\<rparr>)"
    using assms c t by (intro read_meta [of t0 bs F mes mrs _ fh]) (simp_all add: t0_def ft_def)
  then obtain d r where m: "table_read_meta crc32c rops t0 ft = Some (t0\<lparr>ta_filter_data := d, ta_filter := r\<rparr>)"
    "reader_ok bs (t0\<lparr>ta_filter_data := d, ta_filter := r\<rparr>)" by blast
  have k48: "kEncodedLength = 48" by (simp add: kEncodedLength_def kMaxEncodedLength_def)
  have "table_open crc32c rops cache c opt f (of_nat ?n) =
      Some (StatusOK, Some (t0\<lparr>ta_filter_data := d, ta_filter := r\<rparr>), c')"
    using big read dec h blk m(1) cid unfolding table_open_def k48 by (simp add: t0_def)
  moreover have "table_on kvs f (t0\<lparr>ta_filter_data := d, ta_filter := r\<rparr>)"
    unfolding table_on_def using t(1-3,10,11) iok blk m(2) assms(1,3,4) c by (simp add: t0_def) blast
  ultimately show ?thesis by blast
qed

subsection \<open>Looking up a key\<close>

lemma take_nth_drop: "m < length bs \<Longrightarrow> take m bs @ [bs ! m] @ drop (Suc m) bs = bs"
  using id_take_nth_drop [of m bs] by simp

lemma data_block_split:
  assumes "m < length bs"
  shows "data_bytes bs = data_bytes (take m bs) @ stored_bytes (data_block_bytes (bs ! m)) @
     data_bytes (drop (Suc m) bs)"
proof -
  have "data_bytes bs = data_bytes (take m bs @ [bs ! m] @ drop (Suc m) bs)"
    unfolding take_nth_drop [OF assms] ..
  then show ?thesis by (simp only: data_bytes_simps)
qed

lemma all_entries_split:
  assumes "m < length bs"
  shows "all_entries bs = all_entries (take m bs) @ fst (bs ! m) @ all_entries (drop (Suc m) bs)"
proof -
  have "all_entries bs = all_entries (take m bs @ [bs ! m] @ drop (Suc m) bs)"
    unfolding take_nth_drop [OF assms] ..
  then show ?thesis by (simp only: all_entries_simps)
qed

lemma read_data_block:
  assumes "contents f = data_bytes bs @ rest" "length (contents f) < 2 ^ 32" "good f"
    and "\<forall>b \<in> set bs. data_block_ok b" "ta_file t = f" "op_comparator (ta_options t) = cmp" "m < length bs"
  shows "\<exists>i. table_block_reader crc32c rops (None :: ('c, 'h) block_cache option) c t options (handle_bytes (handle_at bs m)) =
      Some (BlockIterator i, None, c) \<and> iter_on cmp (fst (bs ! m)) (snd (bs ! m)) i"
    and "block_ok (fst (bs ! m)) (snd (bs ! m))"
proof -
  have c: "contents f = data_bytes (take m bs) @ stored_bytes (data_block_bytes (bs ! m)) @
      data_bytes (drop (Suc m) bs) @ rest"
    unfolding assms(1) using data_block_split [OF assms(7)] by simp
  have "data_block_ok (bs ! m)" using assms(4,7) by simp
  then show ok: "block_ok (fst (bs ! m)) (snd (bs ! m))"
    using c assms(2) by (simp add: data_block_ok_def block_ok_def stored_bytes_def)
  from read_stored [OF assms(3) c] obtain h where
    "read_block crc32c rops f options (handle_at bs m) =
      Some (StatusOK, \<lparr>bc_data = data_block_bytes (bs ! m), bc_cachable = h, bc_heap_allocated = h\<rparr>)"
    unfolding handle_at_def by blast
  with open_block [OF ok, of cmp] assms(5,6)
  show "\<exists>i. table_block_reader crc32c rops (None :: ('c, 'h) block_cache option) c t options (handle_bytes (handle_at bs m)) =
      Some (BlockIterator i, None, c) \<and> iter_on cmp (fst (bs ! m)) (snd (bs ! m)) i"
    by (auto simp: table_block_reader_def table_find_block_def)
qed

text \<open>What \<open>InternalGet\<close> does when the index leads to block \<open>m\<close> and the filter does not exclude it.\<close>

lemma get_in_block:
  assumes "contents f = data_bytes bs @ rest" "length (contents f) < 2 ^ 32" "good f"
    and "\<forall>b \<in> set bs. data_block_ok b" "ta_file t = f" "op_comparator (ta_options t) = cmp" "m < length bs"
    and "sorted_keys (all_entries bs)" "valid k"
  shows "\<exists>i n j. table_block_reader crc32c rops (None :: ('c, 'h) block_cache option) c t options (handle_bytes (handle_at bs m)) =
      Some (BlockIterator i, None, c) \<and> bi_seek i k = Some j \<and> bi_status j = StatusOK \<and>
      block_at_first cmp (fst (bs ! m)) k n \<and> (bi_valid j \<longleftrightarrow> n < length (fst (bs ! m))) \<and>
      (n < length (fst (bs ! m)) \<longrightarrow> bi_get_key j = Some (ent_key (fst (bs ! m) ! n)) \<and>
         bi_get_value j = Some (ent_value (fst (bs ! m) ! n)))"
proof -
  let ?es = "fst (bs ! m)" and ?rs = "snd (bs ! m)"
  from read_data_block(1) [OF assms(1-7), of c options] obtain i where i:
    "table_block_reader crc32c rops (None :: ('c, 'h) block_cache option) c t options (handle_bytes (handle_at bs m)) = Some (BlockIterator i, None, c)"
    "iter_on cmp ?es ?rs i" by blast
  have sorted: "sorted_keys ?es"
    using assms(8) all_entries_split [OF assms(7)] sorted_keys_append(1,2) by metis
  from seek_ok [OF i(2) read_data_block(2) [OF assms(1-7)] sorted assms(9)] obtain n j where
    j: "bi_seek i k = Some j" "positioned cmp ?es ?rs j n" "block_at_first cmp ?es k n" by blast
  have "bi_status j = StatusOK" using j(2) by (simp add: positioned_def iter_on_def)
  with i(1) j positioned_valid [OF j(2)] positioned_entry [OF j(2)] show ?thesis
    by - (rule exI [of _ i], rule exI [of _ n], rule exI [of _ j], simp)
qed

lemma at_first_unique:
  assumes "block_at_first cmp es k n" "sorted_keys es" "a < length es" "k = ent_key (es ! a)"
  shows "n = a"
proof (rule linorder_cases [of n a])
  assume "n < a"
  then have "before (ent_key (es ! n)) k" "n < length es"
    using assms(2-4) by (auto simp: sorted_keys_def)
  with assms(1) show ?thesis by (auto simp: block_at_first_def before_def)
next
  assume "a < n"
  with assms(1,4) have "before k k" by (auto simp: block_at_first_def before_def)
  then show ?thesis using before_irrefl assms(2-4) by (auto simp: sorted_keys_def)
qed

text \<open>The index leads to the block that holds the key.\<close>

lemma index_at_block:
  assumes "index_ok bs (length bs) ies" "ahead_of bs [] ies" "block_at_first cmp ies k m"
    and "j < length bs" "k \<in> set (keys_of (fst (bs ! j)))"
  shows "m = j"
proof (rule linorder_cases [of m j])
  assume "m < j"
  then have "drop (Suc m) bs ! (j - Suc m) = bs ! j" "j - Suc m < length (drop (Suc m) bs)"
    using assms(4) by simp_all
  then have "bs ! j \<in> set (drop (Suc m) bs)" by (metis nth_mem)
  then have "set (fst (bs ! j)) \<subseteq> set (all_entries (drop (Suc m) bs))"
    by (auto simp: all_entries_def)
  then have "k \<in> set (keys_of (all_entries (drop (Suc m) bs) @ []))"
    using assms(5) by (auto simp: keys_of_def)
  moreover have "m < length ies" using assms(1,4) \<open>m < j\<close> by (simp add: index_ok_def)
  ultimately have "before (ent_key (ies ! m)) k" using assms(2) unfolding ahead_of_def by blast
  then show ?thesis using assms(1,3,4) \<open>m < j\<close> by (auto simp: block_at_first_def before_def index_ok_def)
next
  assume "j < m"
  with assms(3) have "before (ent_key (ies ! j)) k" by (auto simp: block_at_first_def before_def)
  with assms(1,4,5) show ?thesis by (auto simp: index_ok_def)
qed

lemma filter_keeps:
  assumes "reader_ok bs t" "j < length bs" "k \<in> set (keys_of (fst (bs ! j)))"
  shows "table_filter_excludes t (handle_bytes (handle_at bs j)) k = Some False"
proof (cases fp)
  case None
  with assms(1) have "ta_filter t = None" unfolding reader_ok_None [OF None] by simp
  then show ?thesis by (simp add: table_filter_excludes_def)
next
  case (Some p)
  from assms(1) obtain fs b r where r: "ta_filter t = Some r" "filter_block_reader p (filter_block_bytes fs) = Some r"
    "length (filter_block_bytes fs) < 2 ^ 32" "builder_holds p fs [] b" "filter_covers bs (map snd fs @ [[]])"
    unfolding reader_ok_Some [OF Some] by blast
  let ?off = "of_nat (length (data_bytes (take j bs))) :: u64"
  have cov: "covers (map snd fs @ [[]]) (?off, keys_of (fst (bs ! j)))"
    using r(5) assms(2) by (simp add: filter_covers_def)
  then have i: "unat (?off div kFilterBase) < length fs"
    using assms(3) by (auto simp: covers_def nth_append split: if_splits)
  with cov assms(3) have "k \<in> set (snd (fs ! unat (?off div kFilterBase)))"
    by (auto simp: covers_def nth_append)
  from reader_matches [OF r(4,3) i this r(2)] r(1) show ?thesis
    by (simp add: table_filter_excludes_def handle_at_def handle_of_def)
qed

theorem get_finds:
  assumes "table_on kvs f t" "(k, v) \<in> set kvs"
  shows "table_internal_get crc32c rops (None :: ('c, 'h) block_cache option) c t options k = Some (StatusOK, Some (k, v), c)"
proof -
  from assms(1) obtain bs rest ies irs where t: "contents f = data_bytes bs @ rest"
    "length (contents f) < 2 ^ 32" "good f" "\<forall>b \<in> set bs. data_block_ok b" "ta_file t = f"
    "op_comparator (ta_options t) = cmp"
    and kvs: "key_values (all_entries bs) = kvs" "sorted_keys (all_entries bs)"
    and idx: "block_ok ies irs" "index_ok bs (length bs) ies" "ahead_of bs [] ies"
    and blk: "make_block (block_bytes ies irs) = Some (ta_index_block t)" "reader_ok bs t"
    unfolding table_on_def by blast
  from assms(2) kvs(1) obtain e where e: "e \<in> set (all_entries bs)" "snd e = (k, v)"
    by (auto simp: key_values_def)
  from e(1) obtain b where "b \<in> set bs" "e \<in> set (fst b)" by (auto simp: all_entries_def)
  then obtain j where j: "j < length bs" "e \<in> set (fst (bs ! j))" by (metis in_set_conv_nth)
  then obtain a where a: "a < length (fst (bs ! j))" "fst (bs ! j) ! a = e" by (auto simp: in_set_conv_nth)
  have k: "k \<in> set (keys_of (fst (bs ! j)))" "k = ent_key e" "v = ent_value e"
    using j(2) e(2) by (force simp: keys_of_def)+
  have vk: "valid k" using sorted_keysD(1) [OF kvs(2) e(1)] k(2) by simp
  from open_block [OF idx(1), of cmp] blk(1) obtain i0 where i0:
    "new_iterator (ta_index_block t) cmp = Some (BlockIterator i0)" "iter_on cmp ies irs i0" by auto
  have "sorted_keys ies" using idx(2) by (simp add: index_ok_def)
  from seek_ok [OF i0(2) idx(1) this vk] obtain m i1 where i1: "bi_seek i0 k = Some i1"
    "positioned cmp ies irs i1 m" "block_at_first cmp ies k m" by blast
  have m: "m = j" by (rule index_at_block [OF idx(2,3) i1(3) j(1) k(1)])
  have st: "bi_status i1 = StatusOK" using i1(2) by (simp add: positioned_def iter_on_def)
  have lt: "m < length ies" using m j(1) idx(2) by (simp add: index_ok_def)
  have v1: "bi_valid i1" "bi_get_value i1 = Some (handle_bytes (handle_at bs j))"
    using positioned_valid [OF i1(2)] positioned_entry [OF i1(2) lt] lt idx(2) m j(1)
    by (simp_all add: index_ok_def)
  have ex: "table_filter_excludes t (handle_bytes (handle_at bs j)) k = Some False"
    by (rule filter_keeps [OF blk(2) j(1) k(1)])
  from get_in_block [OF t j(1) kvs(2) vk, of c options] obtain i n i2 where b:
    "table_block_reader crc32c rops (None :: ('c, 'h) block_cache option) c t options (handle_bytes (handle_at bs j)) = Some (BlockIterator i, None, c)"
    "bi_seek i k = Some i2" "bi_status i2 = StatusOK" "block_at_first cmp (fst (bs ! j)) k n"
    "bi_valid i2 \<longleftrightarrow> n < length (fst (bs ! j))"
    "n < length (fst (bs ! j)) \<longrightarrow> bi_get_key i2 = Some (ent_key (fst (bs ! j) ! n)) \<and>
       bi_get_value i2 = Some (ent_value (fst (bs ! j) ! n))" by blast
  have sorted: "sorted_keys (fst (bs ! j))"
    using kvs(2) all_entries_split [OF j(1)] sorted_keys_append(1,2) by metis
  have "n = a" by (rule at_first_unique [OF b(4) sorted a(1)]) (simp add: a(2) k(2))
  with b(5,6) a k(2,3) have "bi_valid i2" "bi_get_key i2 = Some k" "bi_get_value i2 = Some v" by auto
  with i0(1) i1(1) v1 ex b(1,2,3) st t(6) show ?thesis
    by (simp add: table_internal_get_def ni_seek_def ni_valid_def ni_value_def ni_key_def ni_status_def
        delete_block_iter_def)
qed

end

end
