(* ===== verification/LdTableClaims.thy ===== *)
theory LdTableClaims
  imports LdTableRead LdKeyClaims
begin

text \<open>The properties of table files, on POSIX files and with the keys of the database.\<close>

interpretation filtered_table: table_reading "internal_comparator bytewise_comparator" bytewise.internal_valid
  posix_writable_file po_data "Some (internal_filter_policy (bloom_filter_policy bits))"
  posix_random_access_file pr_contents posix_random_good
  for bits
  by unfold_locales (use internal_bloom.appends internal_bloom.matches in auto)

interpretation plain_table: table_reading "internal_comparator bytewise_comparator" bytewise.internal_valid
  posix_writable_file po_data None posix_random_access_file pr_contents posix_random_good
  by unfold_locales simp_all

interpretation mapped_table: table_reading "internal_comparator bytewise_comparator" bytewise.internal_valid
  posix_writable_file po_data "Some (internal_filter_policy (bloom_filter_policy bits))"
  posix_mmap_readable_file pm_region posix_mmap_good
  for bits
  by unfold_locales

subsection \<open>Every entry of a table is found\<close>

text \<open>C9: Whatever entries are added to a table in order, if \<open>Finish\<close> succeeds, then the file opens
  as a table and a lookup of the key of any entry calls the saver with exactly that entry; with or
  without a Bloom filter, for every block size, restart interval and compression option, and with
  different checksum code on either side.\<close>

theorem table_entries_found:
  fixes c :: 'c and options :: read_options
  assumes "intrinsics_ok port" "intrinsics_ok port'"
    and "build_table (crc_extend port tw pw) posix_writable_file opt f kvs = Some (StatusOK, f')"
    and "po_data f = []" "\<forall>kv \<in> set kvs. 8 \<le> length (fst kv)" "length kvs < 2 ^ 63"
    and "op_comparator opt = internal_comparator bytewise_comparator"
    and "op_filter_policy opt \<in> {None, Some (internal_filter_policy (bloom_filter_policy bits))}"
    and "op_comparator opt' = op_comparator opt" "op_filter_policy opt' = op_filter_policy opt"
    and "pr_contents g = po_data f'" "length (po_data f') < 2 ^ 32" "pr_read_error g = None"
    and "pr_temporary_fd g \<longrightarrow> pr_open_error g = None" "(k, v) \<in> set kvs"
  shows "\<exists>t. table_open (crc_extend port' tr pr) posix_random_access_file (None :: ('c, 'h) block_cache option) c
        opt' g (of_nat (length (po_data f'))) = Some (StatusOK, Some t, c) \<and>
      table_internal_get (crc_extend port' tr pr) posix_random_access_file (None :: ('c, 'h) block_cache option) c
        t options k = Some (StatusOK, Some (k, v), c)"
proof -
  have crc: "crc_extend port tw pw = crc32c" "crc_extend port' tr pr = crc32c"
    using assms(1,2) by (simp_all add: fun_eq_iff crc_extend_eq)
  have valid: "\<forall>kv \<in> set kvs. bytewise.internal_valid (fst kv)"
    using assms(5) by (simp add: bytewise.internal_valid_def)
  have good: "posix_random_good g" using assms(11-14) by (simp add: posix_random_good_def)
  have ok: "status_ok StatusOK" by simp
  have size: "length (pr_contents g) < 2 ^ 32" using assms(11,12) by simp
  have same: "c' = c" if "table_open crc posix_random_access_file (None :: ('c, 'h) block_cache option) c
      opt' g n = Some (s, Some t, c')" for crc n s t c'
    using that by (auto simp: table_open_def Let_def bind_eq_Some_conv split: if_splits)
  consider "op_filter_policy opt = None" |
    "op_filter_policy opt = Some (internal_filter_policy (bloom_filter_policy bits))" using assms(8) by auto
  then show ?thesis
  proof cases
    case 1
    note built = plain_building.table_built [OF assms(3) [unfolded crc] ok assms(7) 1 assms(4) valid assms(6)]
    have "op_filter_policy opt' = None" "op_comparator opt' = internal_comparator bytewise_comparator"
      using 1 assms(7,9,10) by simp_all
    from plain_table.open_built [OF good _ size this(2,1), of kvs "None :: ('c, 'h) block_cache option" c] built assms(11)
    obtain t c' where t: "table_open crc32c posix_random_access_file (None :: ('c, 'h) block_cache option) c opt' g
        (of_nat (length (pr_contents g))) = Some (StatusOK, Some t, c')" "plain_table.table_on kvs g t" by auto
    show ?thesis unfolding crc
      using t same [OF t(1)] plain_table.get_finds [OF t(2) assms(15), of c options] assms(11) by auto
  next
    case 2
    note built = filtered_table.table_built [OF assms(3) [unfolded crc] ok assms(7) 2 assms(4) valid assms(6)]
    have "op_filter_policy opt' = Some (internal_filter_policy (bloom_filter_policy bits))"
      "op_comparator opt' = internal_comparator bytewise_comparator"
      using 2 assms(7,9,10) by simp_all
    from filtered_table.open_built [OF good _ size this(2,1), of kvs "None :: ('c, 'h) block_cache option" c] built assms(11)
    obtain t c' where t: "table_open crc32c posix_random_access_file (None :: ('c, 'h) block_cache option) c opt' g
        (of_nat (length (pr_contents g))) = Some (StatusOK, Some t, c')" "filtered_table.table_on bits kvs g t" by auto
    show ?thesis unfolding crc
      using t same [OF t(1)] filtered_table.get_finds [OF t(2) assms(15), of c options] assms(11) by auto
  qed
qed

definition sample_options :: options where
  "sample_options = default_options\<lparr>op_comparator := internal_comparator bytewise_comparator,
     op_block_size := 20, op_filter_policy := Some (internal_filter_policy (bloom_filter_policy 10))\<rparr>"

definition sample_out :: posix_out where
  "sample_out = \<lparr>po_name = [], po_data = [], po_room = 400, po_write_error = [], po_flush_error = None\<rparr>"

definition sample_entries :: "(slice \<times> slice) list" where
  "sample_entries = [([1, 1, 5, 0, 0, 0, 0, 0, 0], [9]), ([2, 1, 1, 0, 0, 0, 0, 0, 0], []),
     ([3, 1, 1, 0, 0, 0, 0, 0, 0], [7])]"

lemma sample_table_built:
  "case build_table crc posix_writable_file sample_options sample_out sample_entries of
     None \<Rightarrow> False | Some (s, f) \<Rightarrow> status_ok s \<and> length (po_data f) < 400"
  by code_simp

theorem table_entries_found_witness:
  "\<exists>f' t. build_table (crc_extend reference_port 0 3) posix_writable_file sample_options sample_out sample_entries =
      Some (StatusOK, f') \<and>
    table_internal_get (crc_extend reference_port 0 3) posix_random_access_file
      (None :: (unit, unit) block_cache option) () t read_options [2, 1, 1, 0, 0, 0, 0, 0, 0] =
        Some (StatusOK, Some ([2, 1, 1, 0, 0, 0, 0, 0, 0], []), ())"
proof -
  from sample_table_built [of "crc_extend reference_port 0 3"] obtain f' where
    f': "build_table (crc_extend reference_port 0 3) posix_writable_file sample_options sample_out sample_entries =
      Some (StatusOK, f')" "length (po_data f') < 400"
    by (auto simp: status_ok_def split: option.splits)
  define g where "g = \<lparr>pr_name = [], pr_contents = po_data f', pr_temporary_fd = False, pr_open_error = None,
    pr_read_error = None, pr_invalid = []\<rparr>"
  have "po_data sample_out = []" "\<forall>kv \<in> set sample_entries. 8 \<le> length (fst kv)"
    "length sample_entries < 2 ^ 63" "op_comparator sample_options = internal_comparator bytewise_comparator"
    "op_filter_policy sample_options \<in> {None, Some (internal_filter_policy (bloom_filter_policy 10))}"
    "pr_contents g = po_data f'" "length (po_data f') < 2 ^ 32" "pr_read_error g = None"
    "pr_temporary_fd g \<longrightarrow> pr_open_error g = None" "([2, 1, 1, 0, 0, 0, 0, 0, 0], []) \<in> set sample_entries"
    using f'(2) by (simp_all add: sample_out_def sample_entries_def sample_options_def g_def)
  from table_entries_found [OF reference_port_ok reference_port_ok f'(1) this(1-5) refl refl this(6-10),
      where c = "()" and tr = 0 and pr = 3 and options = read_options] f'(1)
  show ?thesis by blast
qed

end
