(* ===== verification/LdVersionEdit.thy ===== *)
theory LdVersionEdit
  imports LdBatch "HOL-Library.Product_Lexorder"
begin

text \<open>
  The changes between two versions of the database, as they are written to the manifest
  (\<open>db/version_edit.h\<close>, \<open>db/version_edit.cc\<close>).

  An \<open>InternalKey\<close> is its \<open>rep_\<close>.  A \<open>std::set\<close> is the list of its elements in order; a level is an
  \<open>int\<close>.  \<open>Encode\<close> of an empty internal key fails an \<open>assert\<close> and has no result (\<open>None\<close>).
\<close>

definition kNumLevels :: u32 where "kNumLevels = 7"

definition kComparator :: u32 where "kComparator = 1"
definition kLogNumber :: u32 where "kLogNumber = 2"
definition kNextFileNumber :: u32 where "kNextFileNumber = 3"
definition kLastSequence :: u32 where "kLastSequence = 4"
definition kCompactPointer :: u32 where "kCompactPointer = 5"
definition kDeletedFile :: u32 where "kDeletedFile = 6"
definition kNewFile :: u32 where "kNewFile = 7"
definition kPrevLogNumber :: u32 where "kPrevLogNumber = 9"

lemmas ve_tag_defs = kComparator_def kLogNumber_def kNextFileNumber_def kLastSequence_def
  kCompactPointer_def kDeletedFile_def kNewFile_def kPrevLogNumber_def

record file_meta_data =
  fm_refs :: int
  fm_allowed_seeks :: int
  fm_number :: u64
  fm_file_size :: u64
  fm_smallest :: slice
  fm_largest :: slice

text \<open>A new \<open>FileMetaData\<close> with its last four fields set; its constructor leaves \<open>number\<close> as it is.\<close>

definition new_file_meta_data :: "u64 \<Rightarrow> u64 \<Rightarrow> slice \<Rightarrow> slice \<Rightarrow> file_meta_data" where
  "new_file_meta_data number file_size smallest largest =
     \<lparr>fm_refs = 0, fm_allowed_seeks = 2 ^ 30, fm_number = number, fm_file_size = file_size,
      fm_smallest = smallest, fm_largest = largest\<rparr>"

record version_edit =
  ve_comparator :: "u8 list"
  ve_log_number :: u64
  ve_prev_log_number :: u64
  ve_next_file_number :: u64
  ve_last_sequence :: u64
  ve_has_comparator :: bool
  ve_has_log_number :: bool
  ve_has_prev_log_number :: bool
  ve_has_next_file_number :: bool
  ve_has_last_sequence :: bool
  ve_compact_pointers :: "(int \<times> slice) list"
  ve_deleted_files :: "(int \<times> u64) list"
  ve_new_files :: "(int \<times> file_meta_data) list"

text \<open>\<open>compact_pointers_\<close> is not cleared.\<close>

definition ve_clear :: "version_edit \<Rightarrow> version_edit" where
  "ve_clear e =
     e\<lparr>ve_comparator := [], ve_log_number := 0, ve_prev_log_number := 0, ve_last_sequence := 0,
       ve_next_file_number := 0, ve_has_comparator := False, ve_has_log_number := False,
       ve_has_prev_log_number := False, ve_has_next_file_number := False,
       ve_has_last_sequence := False, ve_deleted_files := [], ve_new_files := []\<rparr>"

definition version_edit :: version_edit where
  "version_edit = ve_clear
     \<lparr>ve_comparator = [], ve_log_number = 0, ve_prev_log_number = 0, ve_next_file_number = 0,
      ve_last_sequence = 0, ve_has_comparator = False, ve_has_log_number = False,
      ve_has_prev_log_number = False, ve_has_next_file_number = False,
      ve_has_last_sequence = False, ve_compact_pointers = [], ve_deleted_files = [],
      ve_new_files = []\<rparr>"

definition ve_set_comparator_name :: "slice \<Rightarrow> version_edit \<Rightarrow> version_edit" where
  "ve_set_comparator_name name e = e\<lparr>ve_has_comparator := True, ve_comparator := name\<rparr>"

definition ve_set_log_number :: "u64 \<Rightarrow> version_edit \<Rightarrow> version_edit" where
  "ve_set_log_number num e = e\<lparr>ve_has_log_number := True, ve_log_number := num\<rparr>"

definition ve_set_prev_log_number :: "u64 \<Rightarrow> version_edit \<Rightarrow> version_edit" where
  "ve_set_prev_log_number num e = e\<lparr>ve_has_prev_log_number := True, ve_prev_log_number := num\<rparr>"

definition ve_set_next_file :: "u64 \<Rightarrow> version_edit \<Rightarrow> version_edit" where
  "ve_set_next_file num e = e\<lparr>ve_has_next_file_number := True, ve_next_file_number := num\<rparr>"

definition ve_set_last_sequence :: "u64 \<Rightarrow> version_edit \<Rightarrow> version_edit" where
  "ve_set_last_sequence seq e = e\<lparr>ve_has_last_sequence := True, ve_last_sequence := seq\<rparr>"

definition ve_set_compact_pointer :: "int \<Rightarrow> slice \<Rightarrow> version_edit \<Rightarrow> version_edit" where
  "ve_set_compact_pointer level key e =
     e\<lparr>ve_compact_pointers := ve_compact_pointers e @ [(level, key)]\<rparr>"

definition ve_add_file ::
    "int \<Rightarrow> u64 \<Rightarrow> u64 \<Rightarrow> slice \<Rightarrow> slice \<Rightarrow> version_edit \<Rightarrow> version_edit" where
  "ve_add_file level file file_size smallest largest e =
     e\<lparr>ve_new_files := ve_new_files e @ [(level, new_file_meta_data file file_size smallest largest)]\<rparr>"

definition ve_delete_file :: "int \<Rightarrow> u64 \<Rightarrow> version_edit \<Rightarrow> version_edit" where
  "ve_delete_file level file e =
     e\<lparr>ve_deleted_files := insort_insert (level, file) (ve_deleted_files e)\<rparr>"

subsection \<open>Encoding\<close>

definition ve_put_number :: "bool \<Rightarrow> u32 \<Rightarrow> u64 \<Rightarrow> u8 list \<Rightarrow> u8 list" where
  "ve_put_number has tag v dst = (if has then put_varint64 (put_varint32 dst tag) v else dst)"

definition ve_put_key :: "slice \<Rightarrow> u8 list \<Rightarrow> u8 list option" where
  "ve_put_key key dst = map_option (put_length_prefixed_slice dst) (internal_key_encode key)"

primrec ve_put_compact_pointers :: "(int \<times> slice) list \<Rightarrow> u8 list \<Rightarrow> u8 list option" where
  "ve_put_compact_pointers [] dst = Some dst"
| "ve_put_compact_pointers (p # ps) dst =
     do {
       dst \<leftarrow> ve_put_key (snd p) (put_varint32 (put_varint32 dst kCompactPointer) (of_int (fst p)));
       ve_put_compact_pointers ps dst
     }"

primrec ve_put_deleted_files :: "(int \<times> u64) list \<Rightarrow> u8 list \<Rightarrow> u8 list" where
  "ve_put_deleted_files [] dst = dst"
| "ve_put_deleted_files (p # ps) dst =
     ve_put_deleted_files ps
       (put_varint64 (put_varint32 (put_varint32 dst kDeletedFile) (of_int (fst p))) (snd p))"

primrec ve_put_new_files :: "(int \<times> file_meta_data) list \<Rightarrow> u8 list \<Rightarrow> u8 list option" where
  "ve_put_new_files [] dst = Some dst"
| "ve_put_new_files (p # ps) dst =
     (let f = snd p;
          dst = put_varint32 (put_varint32 dst kNewFile) (of_int (fst p));
          dst = put_varint64 (put_varint64 dst (fm_number f)) (fm_file_size f) in
      do {
        dst \<leftarrow> ve_put_key (fm_smallest f) dst;
        dst \<leftarrow> ve_put_key (fm_largest f) dst;
        ve_put_new_files ps dst
      })"

definition ve_encode_to :: "version_edit \<Rightarrow> u8 list \<Rightarrow> u8 list option" where
  "ve_encode_to e dst =
     (let dst = (if ve_has_comparator e
                 then put_length_prefixed_slice (put_varint32 dst kComparator) (ve_comparator e)
                 else dst);
          dst = ve_put_number (ve_has_log_number e) kLogNumber (ve_log_number e) dst;
          dst = ve_put_number (ve_has_prev_log_number e) kPrevLogNumber (ve_prev_log_number e) dst;
          dst = ve_put_number (ve_has_next_file_number e) kNextFileNumber (ve_next_file_number e) dst;
          dst = ve_put_number (ve_has_last_sequence e) kLastSequence (ve_last_sequence e) dst in
      do {
        dst \<leftarrow> ve_put_compact_pointers (ve_compact_pointers e) dst;
        ve_put_new_files (ve_new_files e) (ve_put_deleted_files (ve_deleted_files e) dst)
      })"

subsection \<open>Decoding\<close>

text \<open>\<open>a && b\<close> of two reads that advance the same slice.\<close>

definition and_then ::
    "'a option \<times> slice \<Rightarrow> ('a \<Rightarrow> slice \<Rightarrow> 'b option \<times> slice) \<Rightarrow> 'b option \<times> slice" where
  "and_then r k = (case r of (None, inp) \<Rightarrow> (None, inp) | (Some x, inp) \<Rightarrow> k x inp)"

definition get_internal_key :: "slice \<Rightarrow> slice option \<times> slice" where
  "get_internal_key inp =
     and_then (get_length_prefixed_slice inp) (\<lambda>str inp. (Some (internal_key_decode_from str), inp))"

definition get_level :: "slice \<Rightarrow> int option \<times> slice" where
  "get_level inp =
     and_then (get_varint32 inp) (\<lambda>v inp. (if v < kNumLevels then Some (sint v) else None, inp))"

text \<open>What a read that fills a part of the edit does to the loop's state: an error message, the edit
  and the input.\<close>

definition ve_item ::
    "string \<Rightarrow> 'a option \<times> slice \<Rightarrow> ('a \<Rightarrow> version_edit \<Rightarrow> version_edit) \<Rightarrow> version_edit \<Rightarrow>
     string option \<times> version_edit \<times> slice" where
  "ve_item msg r upd e =
     (case r of (None, inp) \<Rightarrow> (Some msg, e, inp) | (Some x, inp) \<Rightarrow> (None, upd x e, inp))"

definition ve_decode_tag ::
    "u32 \<Rightarrow> version_edit \<Rightarrow> slice \<Rightarrow> string option \<times> version_edit \<times> slice" where
  "ve_decode_tag tag e inp =
     (if tag = kComparator then
        ve_item ''comparator name'' (get_length_prefixed_slice inp)
          (\<lambda>str e. e\<lparr>ve_comparator := str, ve_has_comparator := True\<rparr>) e
      else if tag = kLogNumber then
        ve_item ''log number'' (get_varint64 inp)
          (\<lambda>n e. e\<lparr>ve_log_number := n, ve_has_log_number := True\<rparr>) e
      else if tag = kPrevLogNumber then
        ve_item ''previous log number'' (get_varint64 inp)
          (\<lambda>n e. e\<lparr>ve_prev_log_number := n, ve_has_prev_log_number := True\<rparr>) e
      else if tag = kNextFileNumber then
        ve_item ''next file number'' (get_varint64 inp)
          (\<lambda>n e. e\<lparr>ve_next_file_number := n, ve_has_next_file_number := True\<rparr>) e
      else if tag = kLastSequence then
        ve_item ''last sequence number'' (get_varint64 inp)
          (\<lambda>n e. e\<lparr>ve_last_sequence := n, ve_has_last_sequence := True\<rparr>) e
      else if tag = kCompactPointer then
        ve_item ''compaction pointer''
          (and_then (get_level inp) (\<lambda>level inp.
           and_then (get_internal_key inp) (\<lambda>key inp. (Some (level, key), inp))))
          (\<lambda>p e. e\<lparr>ve_compact_pointers := ve_compact_pointers e @ [p]\<rparr>) e
      else if tag = kDeletedFile then
        ve_item ''deleted file''
          (and_then (get_level inp) (\<lambda>level inp.
           and_then (get_varint64 inp) (\<lambda>number inp. (Some (level, number), inp))))
          (\<lambda>p e. e\<lparr>ve_deleted_files := insort_insert p (ve_deleted_files e)\<rparr>) e
      else if tag = kNewFile then
        ve_item ''new-file entry''
          (and_then (get_level inp) (\<lambda>level inp.
           and_then (get_varint64 inp) (\<lambda>number inp.
           and_then (get_varint64 inp) (\<lambda>file_size inp.
           and_then (get_internal_key inp) (\<lambda>smallest inp.
           and_then (get_internal_key inp) (\<lambda>largest inp.
             (Some (level, new_file_meta_data number file_size smallest largest), inp)))))))
          (\<lambda>p e. e\<lparr>ve_new_files := ve_new_files e @ [p]\<rparr>) e
      else (Some ''unknown tag'', e, inp))"

text \<open>No read puts anything back.\<close>

lemma get_varint32_le: "length (snd (get_varint32 inp)) \<le> length inp"
  by (auto simp: get_varint32_def split: option.splits dest!: get_varint32_ptr_suffix)

lemma get_varint32_less: "get_varint32 inp = (Some v, inp') \<Longrightarrow> length inp' < length inp"
  by (auto simp: get_varint32_def split: option.splits dest!: get_varint32_ptr_suffix)

lemma get_varint64_loop_le: "get_varint64_loop s v inp = Some (r, inp') \<Longrightarrow> length inp' \<le> length inp"
  by (induction s v inp rule: get_varint64_loop.induct) (auto simp: Let_def split: if_splits)

lemma get_varint64_le: "length (snd (get_varint64 inp)) \<le> length inp"
  by (auto simp: get_varint64_def get_varint64_ptr_def split: option.splits dest!: get_varint64_loop_le)

lemma get_length_prefixed_le: "length (snd (get_length_prefixed_slice inp)) \<le> length inp"
  using get_varint32_le [of inp]
  by (auto simp: get_length_prefixed_slice_def split: prod.splits option.splits)

lemma and_then_le:
  assumes "length (snd r) \<le> n" "\<And>y inp. length (snd (k y inp)) \<le> length inp"
  shows "length (snd (and_then r k)) \<le> n"
proof (cases r)
  case (Pair x inp)
  then show ?thesis
    using assms(1) order_trans [OF assms(2) [of "the x" inp]]
    by (cases x) (auto simp: and_then_def)
qed

lemma get_internal_key_le: "length (snd (get_internal_key inp)) \<le> length inp"
  unfolding get_internal_key_def by (rule and_then_le) (simp_all add: get_length_prefixed_le)

lemma get_level_le: "length (snd (get_level inp)) \<le> length inp"
  unfolding get_level_def by (rule and_then_le) (simp_all add: get_varint32_le)

lemmas read_le = get_varint64_le get_length_prefixed_le get_internal_key_le get_level_le

lemma le_sndD: "(a, b, c) = x \<Longrightarrow> length (snd (snd x)) \<le> n \<Longrightarrow> length c \<le> n"
  by auto

lemma ve_item_rest: "snd (snd (ve_item msg r upd e)) = snd r"
  by (simp add: ve_item_def split: prod.splits option.splits)

lemma ve_decode_tag_le: "length (snd (snd (ve_decode_tag tag e inp))) \<le> length inp"
  by (auto simp: ve_decode_tag_def ve_item_rest intro!: and_then_le read_le)

text \<open>The loop: the error message, the edit and the input it leaves.\<close>

function ve_decode_loop :: "version_edit \<Rightarrow> slice \<Rightarrow> string option \<times> version_edit \<times> slice" where
  "ve_decode_loop e inp =
     (case get_varint32 inp of
        (None, inp') \<Rightarrow> (None, e, inp')
      | (Some tag, inp') \<Rightarrow>
          (case ve_decode_tag tag e inp' of
             (Some msg, e', inp'') \<Rightarrow> (Some msg, e', inp'')
           | (None, e', inp'') \<Rightarrow> ve_decode_loop e' inp''))"
  by auto
termination
  by (relation "measure (\<lambda>(e, inp). length inp)")
    (auto dest!: get_varint32_less [OF sym] le_sndD [OF _ ve_decode_tag_le])

declare ve_decode_loop.simps [simp del]

definition ve_decode_from :: "version_edit \<Rightarrow> slice \<Rightarrow> status \<times> version_edit" where
  "ve_decode_from e src =
     (case ve_decode_loop (ve_clear e) src of
        (msg, e', inp) \<Rightarrow>
          let msg = (if msg = None \<and> inp \<noteq> [] then Some ''invalid tag'' else msg) in
          (case msg of
             None \<Rightarrow> StatusOK
           | Some m \<Rightarrow> make_status KCorruption (ascii ''VersionEdit'') (ascii m), e'))"

subsection \<open>An edit as a list of parts\<close>

datatype ve_part =
    PComparator slice | PLog u64 | PPrevLog u64 | PNextFile u64 | PLastSequence u64
  | PCompact int slice | PDeleted int u64 | PNew int u64 u64 slice slice

primrec part_bytes :: "ve_part \<Rightarrow> u8 list" where
  "part_bytes (PComparator n) = encode_varint32 kComparator @ length_prefixed n"
| "part_bytes (PLog v) = encode_varint32 kLogNumber @ encode_varint64 v"
| "part_bytes (PPrevLog v) = encode_varint32 kPrevLogNumber @ encode_varint64 v"
| "part_bytes (PNextFile v) = encode_varint32 kNextFileNumber @ encode_varint64 v"
| "part_bytes (PLastSequence v) = encode_varint32 kLastSequence @ encode_varint64 v"
| "part_bytes (PCompact l k) =
     encode_varint32 kCompactPointer @ encode_varint32 (of_int l) @ length_prefixed k"
| "part_bytes (PDeleted l n) =
     encode_varint32 kDeletedFile @ encode_varint32 (of_int l) @ encode_varint64 n"
| "part_bytes (PNew l n sz a b) =
     encode_varint32 kNewFile @ encode_varint32 (of_int l) @ encode_varint64 n @ encode_varint64 sz @
     length_prefixed a @ length_prefixed b"

definition level_ok :: "int \<Rightarrow> bool" where
  "level_ok l \<longleftrightarrow> 0 \<le> l \<and> l < 7"

definition key_ok :: "slice \<Rightarrow> bool" where
  "key_ok k \<longleftrightarrow> k \<noteq> [] \<and> length k < 2 ^ 32"

primrec part_ok :: "ve_part \<Rightarrow> bool" where
  "part_ok (PComparator n) \<longleftrightarrow> length n < 2 ^ 32"
| "part_ok (PLog v) \<longleftrightarrow> True"
| "part_ok (PPrevLog v) \<longleftrightarrow> True"
| "part_ok (PNextFile v) \<longleftrightarrow> True"
| "part_ok (PLastSequence v) \<longleftrightarrow> True"
| "part_ok (PCompact l k) \<longleftrightarrow> level_ok l \<and> key_ok k"
| "part_ok (PDeleted l n) \<longleftrightarrow> level_ok l"
| "part_ok (PNew l n sz a b) \<longleftrightarrow> level_ok l \<and> key_ok a \<and> key_ok b"

text \<open>A part is what the setter of its name does to an edit.\<close>

primrec part_apply :: "ve_part \<Rightarrow> version_edit \<Rightarrow> version_edit" where
  "part_apply (PComparator n) = ve_set_comparator_name n"
| "part_apply (PLog v) = ve_set_log_number v"
| "part_apply (PPrevLog v) = ve_set_prev_log_number v"
| "part_apply (PNextFile v) = ve_set_next_file v"
| "part_apply (PLastSequence v) = ve_set_last_sequence v"
| "part_apply (PCompact l k) = ve_set_compact_pointer l k"
| "part_apply (PDeleted l n) = ve_delete_file l n"
| "part_apply (PNew l n sz a b) = ve_add_file l n sz a b"

lemmas ve_setter_defs = ve_set_comparator_name_def ve_set_log_number_def ve_set_prev_log_number_def
  ve_set_next_file_def ve_set_last_sequence_def ve_set_compact_pointer_def ve_delete_file_def
  ve_add_file_def

lemma ve_update_swap:
  "e\<lparr>ve_has_comparator := True, ve_comparator := n\<rparr> = e\<lparr>ve_comparator := n, ve_has_comparator := True\<rparr>"
  "e\<lparr>ve_has_log_number := True, ve_log_number := v\<rparr> = e\<lparr>ve_log_number := v, ve_has_log_number := True\<rparr>"
  "e\<lparr>ve_has_prev_log_number := True, ve_prev_log_number := v\<rparr> =
     e\<lparr>ve_prev_log_number := v, ve_has_prev_log_number := True\<rparr>"
  "e\<lparr>ve_has_next_file_number := True, ve_next_file_number := v\<rparr> =
     e\<lparr>ve_next_file_number := v, ve_has_next_file_number := True\<rparr>"
  "e\<lparr>ve_has_last_sequence := True, ve_last_sequence := v\<rparr> =
     e\<lparr>ve_last_sequence := v, ve_has_last_sequence := True\<rparr>"
  by simp_all

lemma get_level_encoded:
  assumes "level_ok l"
  shows "get_level (encode_varint32 (of_int l) @ r) = (Some l, r)"
proof -
  have "l \<in> set [0, 1, 2, 3, 4, 5, 6]" using assms by (auto simp: level_ok_def)
  moreover have "\<forall>l \<in> set [0, 1, 2, 3, 4, 5, 6]. (of_int l :: u32) < kNumLevels \<and> sint (of_int l :: u32) = l"
    by code_simp
  ultimately have "(of_int l :: u32) < kNumLevels \<and> sint (of_int l :: u32) = l" by blast
  then show ?thesis by (simp add: get_level_def and_then_def)
qed

lemma get_key_encoded: "key_ok k \<Longrightarrow> get_internal_key (length_prefixed k @ r) = (Some k, r)"
  by (simp add: get_internal_key_def key_ok_def and_then_def internal_key_decode_from_def)

lemma decode_part:
  assumes "part_ok p"
  shows "ve_decode_loop e (part_bytes p @ r) = ve_decode_loop (part_apply p e) r"
  using assms
  by (cases p; subst ve_decode_loop.simps)
    (simp_all add: ve_decode_tag_def ve_tag_defs ve_item_def and_then_def ve_setter_defs ve_update_swap
      get_level_encoded get_key_encoded)

lemma decode_parts:
  "\<forall>p \<in> set ps. part_ok p \<Longrightarrow>
     ve_decode_loop e (concat (map part_bytes ps) @ r) = ve_decode_loop (fold part_apply ps e) r"
  by (induction ps arbitrary: e) (simp_all add: decode_part)

lemma decode_end: "ve_decode_loop e [] = (None, e, [])"
  by (subst ve_decode_loop.simps)
    (simp add: get_varint32_def get_varint32_ptr_def get_varint32_ptr_fallback_def)

subsection \<open>Encoding as parts\<close>

definition file_part :: "int \<times> file_meta_data \<Rightarrow> ve_part" where
  "file_part p = (let f = snd p in
     PNew (fst p) (fm_number f) (fm_file_size f) (fm_smallest f) (fm_largest f))"

definition ve_parts :: "version_edit \<Rightarrow> ve_part list" where
  "ve_parts e =
     (if ve_has_comparator e then [PComparator (ve_comparator e)] else []) @
     (if ve_has_log_number e then [PLog (ve_log_number e)] else []) @
     (if ve_has_prev_log_number e then [PPrevLog (ve_prev_log_number e)] else []) @
     (if ve_has_next_file_number e then [PNextFile (ve_next_file_number e)] else []) @
     (if ve_has_last_sequence e then [PLastSequence (ve_last_sequence e)] else []) @
     map (\<lambda>p. PCompact (fst p) (snd p)) (ve_compact_pointers e) @
     map (\<lambda>p. PDeleted (fst p) (snd p)) (ve_deleted_files e) @
     map file_part (ve_new_files e)"

lemma put_key_ok: "key_ok k \<Longrightarrow> ve_put_key k dst = Some (dst @ length_prefixed k)"
  by (simp add: ve_put_key_def key_ok_def internal_key_encode_def put_length_prefixed)

lemma put_compact_pointers_ok:
  "\<forall>p \<in> set ps. key_ok (snd p) \<Longrightarrow> ve_put_compact_pointers ps dst =
     Some (dst @ concat (map part_bytes (map (\<lambda>p. PCompact (fst p) (snd p)) ps)))"
  by (induction ps arbitrary: dst) (simp_all add: put_key_ok put_varint32_def)

lemma put_deleted_files_ok:
  "ve_put_deleted_files ps dst =
     dst @ concat (map part_bytes (map (\<lambda>p. PDeleted (fst p) (snd p)) ps))"
  by (induction ps arbitrary: dst) (simp_all add: put_varint32_def put_varint64_def)

lemma put_new_files_ok:
  "\<forall>p \<in> set ps. key_ok (fm_smallest (snd p)) \<and> key_ok (fm_largest (snd p)) \<Longrightarrow>
     ve_put_new_files ps dst = Some (dst @ concat (map part_bytes (map file_part ps)))"
  by (induction ps arbitrary: dst)
    (simp_all add: put_key_ok put_varint32_def put_varint64_def file_part_def Let_def)

definition ve_ok :: "version_edit \<Rightarrow> bool" where
  "ve_ok e \<longleftrightarrow> (\<forall>p \<in> set (ve_parts e). part_ok p) \<and> sorted (ve_deleted_files e) \<and>
     distinct (ve_deleted_files e)"

lemma encode_parts:
  assumes "ve_ok e"
  shows "ve_encode_to e dst = Some (dst @ concat (map part_bytes (ve_parts e)))"
proof -
  have "\<forall>p \<in> set (ve_compact_pointers e). key_ok (snd p)"
    "\<forall>p \<in> set (ve_new_files e). key_ok (fm_smallest (snd p)) \<and> key_ok (fm_largest (snd p))"
    using assms by (simp_all add: ve_ok_def ve_parts_def file_part_def Let_def ball_Un)
  then show ?thesis
    by (simp add: ve_encode_to_def ve_parts_def put_compact_pointers_ok put_deleted_files_ok
        put_new_files_ok ve_put_number_def put_varint32_def put_varint64_def put_length_prefixed)
qed

text \<open>What is left of an edit when it is written and read: numbers without their flag are 0.\<close>

definition ve_saved :: "(int \<times> slice) list \<Rightarrow> version_edit \<Rightarrow> version_edit" where
  "ve_saved pointers e =
     e\<lparr>ve_comparator := (if ve_has_comparator e then ve_comparator e else []),
       ve_log_number := (if ve_has_log_number e then ve_log_number e else 0),
       ve_prev_log_number := (if ve_has_prev_log_number e then ve_prev_log_number e else 0),
       ve_next_file_number := (if ve_has_next_file_number e then ve_next_file_number e else 0),
       ve_last_sequence := (if ve_has_last_sequence e then ve_last_sequence e else 0),
       ve_compact_pointers := pointers @ ve_compact_pointers e,
       ve_new_files := map (\<lambda>(l, f). (l, f\<lparr>fm_refs := 0, fm_allowed_seeks := 2 ^ 30\<rparr>)) (ve_new_files e)\<rparr>"

lemma insort_snoc:
  fixes x :: "int \<times> u64"
  shows "\<forall>y \<in> set ys. y < x \<Longrightarrow> insort_insert x ys = ys @ [x]"
proof -
  have "\<forall>y \<in> set ys. y < x \<Longrightarrow> insort x ys = ys @ [x]" by (induction ys) auto
  moreover assume "\<forall>y \<in> set ys. y < x"
  ultimately show ?thesis by (auto simp: insort_insert_key_def)
qed

lemma fold_deleted:
  assumes "sorted (ds @ ps)" "distinct (ds @ ps)" "ve_deleted_files e = ds"
  shows "fold part_apply (map (\<lambda>p. PDeleted (fst p) (snd p)) ps) e = e\<lparr>ve_deleted_files := ds @ ps\<rparr>"
  using assms
proof (induction ps arbitrary: ds e)
  case (Cons p ps)
  have "\<forall>y \<in> set ds. y < p" using Cons.prems by (auto simp: sorted_append less_le)
  then have "part_apply (PDeleted (fst p) (snd p)) e = e\<lparr>ve_deleted_files := ds @ [p]\<rparr>"
    using Cons.prems(3) by (simp add: ve_delete_file_def insort_snoc)
  then show ?case using Cons.IH [of "ds @ [p]" "e\<lparr>ve_deleted_files := ds @ [p]\<rparr>"] Cons.prems
    by simp
qed simp

lemma fold_compact:
  "fold part_apply (map (\<lambda>p. PCompact (fst p) (snd p)) ps) e =
     e\<lparr>ve_compact_pointers := ve_compact_pointers e @ ps\<rparr>"
  by (induction ps arbitrary: e) (simp_all add: ve_set_compact_pointer_def)

lemma fold_new:
  "fold part_apply (map file_part ps) e =
     e\<lparr>ve_new_files := ve_new_files e @
        map (\<lambda>(l, f). (l, f\<lparr>fm_refs := 0, fm_allowed_seeks := 2 ^ 30\<rparr>)) ps\<rparr>"
  by (induction ps arbitrary: e)
    (simp_all add: file_part_def ve_add_file_def new_file_meta_data_def Let_def case_prod_unfold)

lemma fold_parts:
  assumes "ve_ok e"
  shows "fold part_apply (ve_parts e) (ve_clear e0) = ve_saved (ve_compact_pointers e0) e"
  using assms fold_deleted [of "[]" "ve_deleted_files e"]
  by (simp add: ve_ok_def ve_parts_def fold_compact fold_new ve_clear_def ve_setter_defs ve_saved_def)

lemma version_edit_round_trip:
  assumes "ve_ok e"
  shows "\<exists>bs. ve_encode_to e dst = Some (dst @ bs) \<and>
     ve_decode_from e0 bs = (StatusOK, ve_saved (ve_compact_pointers e0) e)"
proof -
  have "\<forall>p \<in> set (ve_parts e). part_ok p" using assms by (simp add: ve_ok_def)
  from decode_parts [OF this, of "ve_clear e0" "[]"] fold_parts [OF assms, of e0]
    encode_parts [OF assms, of dst]
  show ?thesis by (auto simp: ve_decode_from_def decode_end)
qed

end
