(* ===== verification/LdFileClaims.thy ===== *)
theory LdFileClaims
  imports LdVersionEdit LdFileName LdFormatOk LdKeyClaims LdLogSafe
begin

text \<open>The properties of version edits, file names, the \<open>CURRENT\<close> file and blocks in a file.\<close>

text \<open>C16: A version edit is read back from its encoding: every number that was set, the deleted and
  new files and the compaction pointers, in order.  The edit it is read into keeps the compaction
  pointers it had before, because \<open>Clear\<close> does not remove them.\<close>

theorem version_edit_written_read:
  fixes e e0 :: version_edit
  assumes "ve_ok e"
  shows "\<exists>bs. ve_encode_to e dst = Some (dst @ bs) \<and>
     ve_decode_from e0 bs = (StatusOK, ve_saved (ve_compact_pointers e0) e)"
  using assms by (rule version_edit_round_trip)

definition sample_edit :: version_edit where
  "sample_edit = ve_set_log_number 12 (ve_set_last_sequence 300 (ve_delete_file 1 7
     (ve_add_file 2 8 4096 [97, 1, 0, 0, 0, 0, 0, 0, 0] [98, 1, 1, 0, 0, 0, 0, 0, 0] version_edit)))"

theorem version_edit_written_read_witness:
  "\<exists>bs. ve_encode_to sample_edit [] = Some bs \<and>
     ve_decode_from version_edit bs = (StatusOK, ve_saved [] sample_edit)"
proof -
  have "ve_ok sample_edit"
    by (simp add: ve_ok_def ve_parts_def sample_edit_def file_part_def Let_def ve_setter_defs
        version_edit_def ve_clear_def level_ok_def kNumLevels_def key_ok_def new_file_meta_data_def
        ve_delete_file_def ve_add_file_def insort_insert_key_def)
  from version_edit_written_read [OF this, of "[]" version_edit] show ?thesis
    by (simp add: version_edit_def ve_clear_def)
qed

text \<open>C23: \<open>SetCurrentFile\<close> is atomic: whatever system calls fail, and however much of a write a
  failing call keeps, \<open>CURRENT\<close> afterwards names the new manifest if the status is ok and is
  unchanged if it is not; no file but \<open>CURRENT\<close> and the temporary file changes.\<close>

theorem set_current_atomic:
  fixes w :: posix_world and db :: slice
  assumes "0 < n"
  shows "\<exists>s w'. set_current_file posix_env db n w = Some (s, w') \<and>
     pw_files w' (current_file_name db) =
       (if status_ok s then Some (ascii ''MANIFEST-'' @ decimal6 n @ [10])
        else pw_files w (current_file_name db)) \<and>
     (\<forall>g. g \<noteq> current_file_name db \<and> temp_file_name db n \<noteq> Some g \<longrightarrow> pw_files w' g = pw_files w g)"
proof -
  have "temp_file_name db n \<noteq> Some g \<longleftrightarrow> g \<noteq> make_file_name db n ''dbtmp''" for g
    using assms by (auto simp: temp_file_name_def)
  with posix_fs.set_current_ok [OF assms, of db w] show ?thesis by simp
qed

theorem set_current_atomic_witness:
  "\<exists>s w'. set_current_file posix_env (ascii ''db'') 5
       \<lparr>pw_files = [ascii ''db/CURRENT'' \<mapsto> ascii ''MANIFEST-000004''], pw_open = [],
        pw_faults = [None, Some (3, ascii ''ENOSPC'')]\<rparr> = Some (s, w') \<and>
     pw_files w' (ascii ''db/CURRENT'') =
       Some (if status_ok s then ascii ''MANIFEST-'' @ decimal6 5 @ [10] else ascii ''MANIFEST-000004'')"
proof -
  have "current_file_name (ascii ''db'') = ascii ''db/CURRENT''"
    by (simp add: current_file_name_def ascii_def)
  with set_current_atomic [of 5 "ascii ''db''"
    "\<lparr>pw_files = [ascii ''db/CURRENT'' \<mapsto> ascii ''MANIFEST-000004''], pw_open = [],
      pw_faults = [None, Some (3, ascii ''ENOSPC'')]\<rparr>"]
  show ?thesis by fastforce
qed

text \<open>C32: A block that \<open>ReadBlock\<close> returns with its checksum verified stands in the file at its handle,
  with the type byte 0 and a checksum that matches; so no byte of it was changed, cut off or read
  from elsewhere.\<close>

theorem verified_block_stored:
  fixes f :: posix_random and h :: block_handle
  assumes "intrinsics_ok port"
    and "read_block (crc_extend port tw pw) posix_random_access_file f options h = Some (StatusOK, c)"
    and "ro_verify_checksums options" "unat (bh_size h) < 2 ^ 64 - 5"
  shows "\<exists>stored. length (bc_data c) = unat (bh_size h) \<and>
     take (unat (bh_size h) + 5) (drop (unat (bh_offset h)) (pr_contents f)) = bc_data c @ 0 # stored \<and>
     stored = encode_fixed32 (crc_mask (crc32c 0 (bc_data c @ [0])))"
proof -
  have crc: "crc_extend port tw pw = crc32c" using assms(1) by (simp add: fun_eq_iff crc_extend_eq)
  have ok: "status_ok StatusOK" by simp
  from read_block_verified [OF assms(2) [unfolded crc] ok assms(3,4)] obtain stored where
    st: "length (bc_data c) = unat (bh_size h)"
    "take (unat (bh_size h) + 5) (drop (unat (bh_offset h)) (pr_contents f)) = bc_data c @ 0 # stored"
    "crc32c 0 (bc_data c @ [0]) = crc_unmask (word_of_bytes stored)" "length stored = 4" by blast
  have "encode_fixed32 (crc_mask (crc32c 0 (bc_data c @ [0]))) = stored"
    using st(3,4) by (simp add: mask_unmask encode_word_of_bytes)
  with st(1,2) show ?thesis by blast
qed

theorem verified_block_stored_witness:
  "\<exists>c. read_block (crc_extend reference_port 0 3) posix_random_access_file
       \<lparr>pr_name = [], pr_contents = [9, 1, 2] @ trailer_bytes [1, 2], pr_temporary_fd = False,
        pr_open_error = None, pr_read_error = None, pr_invalid = []\<rparr>
       (read_options\<lparr>ro_verify_checksums := True\<rparr>) \<lparr>bh_offset = 1, bh_size = 2\<rparr> = Some (StatusOK, c) \<and>
     bc_data c = [1, 2]"
proof -
  let ?f = "\<lparr>pr_name = [], pr_contents = [9, 1, 2] @ trailer_bytes [1, 2], pr_temporary_fd = False,
    pr_open_error = None, pr_read_error = None, pr_invalid = []\<rparr>"
  let ?o = "read_options\<lparr>ro_verify_checksums := True\<rparr>" and ?h = "\<lparr>bh_offset = 1, bh_size = 2\<rparr> :: block_handle"
  have good: "posix_random_good ?f" by (simp add: posix_random_good_def)
  have "handle_of (length [9 :: u8]) [1, 2] = ?h" by (simp add: handle_of_def)
  with posix_random.read_block_ok [OF good, of "[9]" "[1, 2]" "[]" ?o] obtain c where
    c: "read_block crc32c posix_random_access_file ?f ?o ?h = Some (StatusOK, c)" by auto
  then have run: "read_block (crc_extend reference_port 0 3) posix_random_access_file ?f ?o ?h = Some (StatusOK, c)"
    by (simp add: crc_extend_eq [OF reference_port_ok, abs_def] cong: if_cong)
  from verified_block_stored [OF reference_port_ok run] have "length (bc_data c) = 2"
    "\<exists>stored. [1, 2] @ trailer_bytes [1, 2] = bc_data c @ 0 # stored" by auto
  then have "bc_data c = [1, 2]" by (auto simp: length_Suc_conv numeral_2_eq_2)
  with run show ?thesis by blast
qed

text \<open>C38: The name of every kind of file, behind the directory of the database, is parsed back to its
  number and type.\<close>

theorem file_names_parsed:
  fixes n :: u64 and db :: slice
  assumes "0 < n"
  shows "map_option (\<lambda>f. parse_file_name (drop (length db + 1) f)) (log_file_name db n) = Some (Some (n, KLogFile)) \<and>
    map_option (\<lambda>f. parse_file_name (drop (length db + 1) f)) (table_file_name db n) = Some (Some (n, KTableFile)) \<and>
    map_option (\<lambda>f. parse_file_name (drop (length db + 1) f)) (sst_table_file_name db n) = Some (Some (n, KTableFile)) \<and>
    map_option (\<lambda>f. parse_file_name (drop (length db + 1) f)) (descriptor_file_name db n) = Some (Some (n, KDescriptorFile)) \<and>
    map_option (\<lambda>f. parse_file_name (drop (length db + 1) f)) (temp_file_name db n) = Some (Some (n, KTempFile)) \<and>
    parse_file_name (drop (length db + 1) (current_file_name db)) = Some (0, KCurrentFile) \<and>
    parse_file_name (drop (length db + 1) (lock_file_name db)) = Some (0, KDBLockFile) \<and>
    parse_file_name (drop (length db + 1) (info_log_file_name db)) = Some (0, KInfoLogFile) \<and>
    parse_file_name (drop (length db + 1) (old_info_log_file_name db)) = Some (0, KInfoLogFile)"
proof -
  have slash: "drop (length db + 1) (db @ ascii (CHR ''/'' # s) @ r) = ascii s @ r" for s r
    by (simp add: ascii_def)
  have slash': "drop (length db + 1) (db @ ascii (CHR ''/'' # s)) = ascii s" for s
    using slash [of s "[]"] by simp
  have make: "drop (length db + 1) (make_file_name db n s) = decimal6 n @ ascii (CHR ''.'' # s)" for s
    by (simp add: make_file_name_def ascii_def)
  show ?thesis using assms
    by (simp only: log_file_name_def table_file_name_def sst_table_file_name_def descriptor_file_name_def
        temp_file_name_def current_file_name_def lock_file_name_def info_log_file_name_def
        old_info_log_file_name_def option.map if_True make slash slash' parse_numbered parse_manifest
        parse_fixed)
qed

theorem file_names_parsed_witness:
  "map_option (\<lambda>f. parse_file_name (drop 3 f)) (table_file_name (ascii ''db'') 1234567) =
     Some (Some (1234567, KTableFile))"
proof -
  have "(0 :: u64) < 1234567" by simp
  from file_names_parsed [OF this, of "ascii ''db''"]
  have "map_option (\<lambda>f. parse_file_name (drop (length (ascii ''db'') + 1) f)) (table_file_name (ascii ''db'') 1234567) =
      Some (Some (1234567, KTableFile))" by blast
  then show ?thesis by (simp add: numeral_3_eq_3)
qed

end
