(* ===== verification/LdArena.thy ===== *)
theory LdArena
  imports LdBlock
begin

text \<open>
  The memory of a memtable: \<open>Arena\<close> (\<open>util/arena.h\<close>, \<open>util/arena.cc\<close>), and the random numbers of the
  skip list (\<open>util/random.h\<close>).

  An address is a block that \<open>new\<close> returned, by its number, and an offset in it.  Such a block starts
  at an aligned address.  The arena keeps the sizes of its blocks; what is in them is up to its users.
\<close>

datatype addr = Addr (ad_block: nat) (ad_offset: nat)

definition kArenaBlockSize :: u64 where "kArenaBlockSize = 4096"

record arena =
  ar_alloc_ptr :: "addr option"
  ar_remaining :: u64
  ar_blocks :: "nat list"
  ar_memory_usage :: u64

definition arena :: arena where
  "arena = \<lparr>ar_alloc_ptr = None, ar_remaining = 0, ar_blocks = [], ar_memory_usage = 0\<rparr>"

definition arena_allocate_new_block :: "arena \<Rightarrow> u64 \<Rightarrow> addr \<times> arena" where
  "arena_allocate_new_block a block_bytes =
     (let result = Addr (length (ar_blocks a)) 0 in
      (result, a\<lparr>ar_blocks := ar_blocks a @ [unat block_bytes],
        ar_memory_usage := ar_memory_usage a + block_bytes + 8\<rparr>))"

definition arena_bump :: "addr \<Rightarrow> u64 \<Rightarrow> arena \<Rightarrow> arena" where
  "arena_bump p bytes a =
     a\<lparr>ar_alloc_ptr := Some (Addr (ad_block p) (ad_offset p + unat bytes)), ar_remaining := ar_remaining a - bytes\<rparr>"

definition arena_allocate_fallback :: "arena \<Rightarrow> u64 \<Rightarrow> addr \<times> arena" where
  "arena_allocate_fallback a bytes =
     (if bytes > kArenaBlockSize div 4 then arena_allocate_new_block a bytes
      else
        let (result, a) = arena_allocate_new_block a kArenaBlockSize;
            a = a\<lparr>ar_alloc_ptr := Some result, ar_remaining := kArenaBlockSize\<rparr> in
        (result, arena_bump result bytes a))"

definition arena_allocate :: "arena \<Rightarrow> u64 \<Rightarrow> (addr \<times> arena) option" where
  "arena_allocate a bytes =
     (if bytes = 0 then None
      else if bytes \<le> ar_remaining a then
        map_option (\<lambda>result. (result, arena_bump result bytes a)) (ar_alloc_ptr a)
      else Some (arena_allocate_fallback a bytes))"

definition arena_align :: nat where "arena_align = 8"

definition arena_allocate_aligned :: "arena \<Rightarrow> u64 \<Rightarrow> (addr \<times> arena) option" where
  "arena_allocate_aligned a bytes =
     (let current_mod = (case ar_alloc_ptr a of None \<Rightarrow> 0 | Some p \<Rightarrow> ad_offset p mod arena_align);
          slop = (if current_mod = 0 then 0 else arena_align - current_mod);
          needed = bytes + of_nat slop in
      do {
        (result, a) \<leftarrow>
          (if needed \<le> ar_remaining a then
             map_option (\<lambda>p. (Addr (ad_block p) (ad_offset p + slop), arena_bump p needed a)) (ar_alloc_ptr a)
           else Some (arena_allocate_fallback a bytes));
        if ad_offset result mod arena_align = 0 then Some (result, a) else None
      })"

subsection \<open>Allocations do not overlap\<close>

text \<open>The free part of an arena is the end of one of its blocks.\<close>

definition arena_ok :: "arena \<Rightarrow> bool" where
  "arena_ok a \<longleftrightarrow>
     (case ar_alloc_ptr a of
        None \<Rightarrow> ar_remaining a = 0
      | Some (Addr b off) \<Rightarrow> b < length (ar_blocks a) \<and> off + unat (ar_remaining a) = ar_blocks a ! b)"

text \<open>A range in a block and before its free part is in use.\<close>

definition arena_used :: "arena \<Rightarrow> addr \<Rightarrow> nat \<Rightarrow> bool" where
  "arena_used a p n \<longleftrightarrow> ad_block p < length (ar_blocks a) \<and> ad_offset p + n \<le> ar_blocks a ! ad_block p \<and>
     (\<forall>q. ar_alloc_ptr a = Some q \<longrightarrow> ad_block q = ad_block p \<longrightarrow> ad_offset p + n \<le> ad_offset q)"

definition disjoint_ranges :: "addr \<Rightarrow> nat \<Rightarrow> addr \<Rightarrow> nat \<Rightarrow> bool" where
  "disjoint_ranges p n q m \<longleftrightarrow> ad_block p \<noteq> ad_block q \<or> ad_offset p + n \<le> ad_offset q \<or> ad_offset q + m \<le> ad_offset p"

text \<open>What a step from \<open>a\<close> to \<open>a'\<close> has allocated: \<open>n\<close> bytes at \<open>p\<close>, apart from all that was in use.\<close>

definition allocated :: "arena \<Rightarrow> addr \<Rightarrow> nat \<Rightarrow> arena \<Rightarrow> bool" where
  "allocated a p n a' \<longleftrightarrow> arena_ok a' \<and> arena_used a' p n \<and>
     (\<forall>q m. arena_used a q m \<longrightarrow> arena_used a' q m \<and> disjoint_ranges q m p n)"

lemma arena_ok_empty: "arena_ok arena"
  by (simp add: arena_ok_def arena_def)

lemma bump_allocated:
  assumes "arena_ok a" "ar_alloc_ptr a = Some (Addr b off)" "bytes \<le> ar_remaining a" "s + n \<le> unat bytes"
  shows "allocated a (Addr b (off + s)) n (arena_bump (Addr b off) bytes a)"
proof -
  have "unat bytes \<le> unat (ar_remaining a)" using assms(3) by (simp add: word_le_nat_alt)
  moreover have "unat (ar_remaining a - bytes) = unat (ar_remaining a) - unat bytes"
    using assms(3) by (simp add: unat_sub)
  ultimately show ?thesis
    using assms unfolding allocated_def
    by (auto simp: arena_ok_def arena_used_def arena_bump_def disjoint_ranges_def)
qed

lemma new_block_allocated:
  assumes "arena_ok a" "arena_allocate_new_block a bytes = (p, a')"
  shows "allocated a p (unat bytes) a' \<and> ad_offset p = 0 \<and> ar_alloc_ptr a' = ar_alloc_ptr a"
  using assms
  by (auto simp: arena_allocate_new_block_def Let_def allocated_def arena_ok_def arena_used_def
      disjoint_ranges_def nth_append split: option.splits addr.splits)

lemma fallback_allocated:
  assumes "arena_ok a" "arena_allocate_fallback a bytes = (p, a')"
  shows "allocated a p (unat bytes) a' \<and> ad_offset p = 0"
proof (cases "bytes > kArenaBlockSize div 4")
  case True
  then show ?thesis using assms new_block_allocated by (auto simp: arena_allocate_fallback_def)
next
  case False
  then have "unat bytes \<le> 1024" by (simp add: kArenaBlockSize_def word_le_nat_alt not_less)
  moreover from this have "unat (4096 - bytes) = 4096 - unat bytes"
    by (subst unat_sub) (simp_all add: word_le_nat_alt)
  ultimately show ?thesis using assms False
    by (auto simp: arena_allocate_fallback_def arena_allocate_new_block_def Let_def kArenaBlockSize_def
        arena_bump_def allocated_def arena_ok_def arena_used_def disjoint_ranges_def nth_append
        split: option.splits addr.splits)
qed

lemma allocate_allocated:
  assumes "arena_ok a" "bytes \<noteq> 0"
  shows "\<exists>p a'. arena_allocate a bytes = Some (p, a') \<and> allocated a p (unat bytes) a'"
proof (cases "bytes \<le> ar_remaining a")
  case True
  show ?thesis
  proof (cases "ar_alloc_ptr a")
    case None
    then show ?thesis using assms True by (simp add: arena_ok_def)
  next
    case (Some q)
    then show ?thesis
      using assms True bump_allocated [of a "ad_block q" "ad_offset q" bytes 0 "unat bytes"]
      by (simp add: arena_allocate_def)
  qed
next
  case False
  then show ?thesis
    using assms fallback_allocated [OF assms(1), of bytes]
    by (cases "arena_allocate_fallback a bytes") (auto simp: arena_allocate_def)
qed

lemma allocate_aligned_allocated:
  assumes "arena_ok a" "bytes \<noteq> 0" "unat bytes < 2 ^ 63"
  shows "\<exists>p a'. arena_allocate_aligned a bytes = Some (p, a') \<and> allocated a p (unat bytes) a' \<and>
     ad_offset p mod 8 = 0"
proof -
  define c where "c = (case ar_alloc_ptr a of None \<Rightarrow> 0 | Some p \<Rightarrow> ad_offset p mod arena_align)"
  define s where "s = (if c = 0 then 0 else arena_align - c)"
  have s: "s < 8" by (auto simp: s_def arena_align_def)
  have needed: "unat (bytes + of_nat s) = unat bytes + s"
    using s assms(3) by (simp add: unat_word_ariths unsigned_of_nat take_bit_nat_eq_self)
  have run: "arena_allocate_aligned a bytes =
      Option.bind
        (if bytes + of_nat s \<le> ar_remaining a then
           map_option (\<lambda>p. (Addr (ad_block p) (ad_offset p + s), arena_bump p (bytes + of_nat s) a)) (ar_alloc_ptr a)
         else Some (arena_allocate_fallback a bytes))
        (\<lambda>(result, a). if ad_offset result mod arena_align = 0 then Some (result, a) else None)"
    by (simp only: arena_allocate_aligned_def Let_def c_def s_def)
  show ?thesis
  proof (cases "bytes + of_nat s \<le> ar_remaining a")
    case True
    show ?thesis
    proof (cases "ar_alloc_ptr a")
      case None
      then have "s = 0" "ar_remaining a = 0" using assms(1) by (simp_all add: s_def c_def arena_ok_def)
      then have "bytes = 0" using True by simp
      then show ?thesis using assms(2) by simp
    next
      case (Some q)
      then have "(ad_offset q + s) mod 8 = 0"
        by (auto simp: s_def c_def arena_align_def) presburger
      then show ?thesis
        using assms True Some bump_allocated [of a "ad_block q" "ad_offset q" "bytes + of_nat s" s "unat bytes"] needed
        by (simp add: run arena_align_def)
    qed
  next
    case False
    then show ?thesis
      using fallback_allocated [OF assms(1), of bytes]
      by (cases "arena_allocate_fallback a bytes")
        (auto simp: run arena_align_def)
  qed
qed

subsection \<open>Random numbers\<close>

definition random_seed :: "u32 \<Rightarrow> u32" where
  "random_seed s = (let seed = s AND 0x7fffffff in if seed = 0 \<or> seed = 2147483647 then 1 else seed)"

definition random_next :: "u32 \<Rightarrow> u32" where
  "random_next seed =
     (let product = (ucast seed * 16807 :: u64);
          seed = (ucast (drop_bit 31 product + (product AND 2147483647)) :: u32) in
      if seed > 2147483647 then seed - 2147483647 else seed)"

text \<open>A seed stays between 1 and \<open>2 ^ 31 - 2\<close>, and the next one is the product modulo \<open>2 ^ 31 - 1\<close>.\<close>

definition seed_ok :: "u32 \<Rightarrow> bool" where
  "seed_ok s \<longleftrightarrow> 0 < unat s \<and> unat s < 2147483647"

lemma random_seed_ok: "seed_ok (random_seed s)"
proof -
  have "s AND 0x7fffffff = take_bit 31 s" by (simp add: take_bit_eq_mask mask_eq_exp_minus_1)
  then have "unat (s AND 0x7fffffff) < 2 ^ 31" by (simp only: unsigned_take_bit_eq take_bit_nat_less_exp)
  moreover have "unat (s AND 0x7fffffff) \<noteq> 2147483647" if "s AND 0x7fffffff \<noteq> 2147483647"
    using that by (simp add: word_unat_eq_iff)
  ultimately show ?thesis
    by (auto simp: random_seed_def seed_ok_def Let_def unat_gt_0)
qed

lemma random_next_product:
  assumes "seed_ok s"
  shows "unat (random_next s) = unat s * 16807 mod 2147483647 \<and> seed_ok (random_next s)"
proof -
  define n where "n = unat s * 16807"
  define p where "p = (ucast s * 16807 :: u64)"
  have n: "n < 2147483647 * 16807" using assms by (simp add: seed_ok_def n_def)
  have p: "unat p = n"
    using assms by (simp add: p_def n_def unat_word_ariths unsigned_ucast_eq take_bit_nat_eq_self seed_ok_def)
  have low: "p AND 2147483647 = take_bit 31 p" by (simp add: take_bit_eq_mask mask_eq_exp_minus_1)
  have parts: "unat (drop_bit 31 p) = n div 2147483648" "unat (p AND 2147483647) = n mod 2147483648"
    unfolding low unsigned_drop_bit_eq unsigned_take_bit_eq p
    using n by (simp_all add: drop_bit_eq_div take_bit_eq_mod)
  have q: "n div 2147483648 < 16807" using n by (simp add: div_less_iff_less_mult)
  define m where "m = n div 2147483648 + n mod 2147483648"
  have m: "m < 2147483648 + 16807" "n mod 2147483647 = m mod 2147483647"
  proof -
    show "m < 2147483648 + 16807" using q mod_less_divisor [of 2147483648 n] unfolding m_def by linarith
    have "n = n div 2147483648 * 2147483647 + m"
      using div_mult_mod_eq [of n 2147483648] by (simp add: m_def)
    then show "n mod 2147483647 = m mod 2147483647" by (metis mod_mult_self3)
  qed
  have sum: "unat (drop_bit 31 p + (p AND 2147483647)) = m"
    using m(1) by (simp add: unat_word_ariths parts m_def)
  then have cast: "unat (ucast (drop_bit 31 p + (p AND 2147483647)) :: u32) = m"
    using m(1) by (simp add: unsigned_ucast_eq take_bit_nat_eq_self)
  have nz: "n mod 2147483647 \<noteq> 0"
  proof
    assume "n mod 2147483647 = 0"
    then have "(2147483647 :: nat) dvd unat s * 16807" by (simp add: n_def mod_eq_0_iff_dvd)
    moreover have "coprime (2147483647 :: nat) 16807" by (simp add: coprime_iff_gcd_eq_1 gcd_non_0_nat)
    ultimately have "(2147483647 :: nat) dvd unat s" by (simp add: coprime_dvd_mult_left_iff)
    with assms show False by (auto simp: seed_ok_def dest: dvd_imp_le)
  qed
  have "unat (random_next s) = (if m > 2147483647 then m - 2147483647 else m)"
    using cast by (auto simp: random_next_def Let_def p_def [symmetric] word_less_nat_alt unat_sub word_le_nat_alt)
  moreover have "m \<noteq> 2147483647" using nz m(2) by auto
  ultimately have "unat (random_next s) = m mod 2147483647"
    using m(1) by (auto simp: mod_if [of m] not_less)
  then show ?thesis using m(2) nz by (simp add: n_def seed_ok_def)
qed

end
