(* ===== verification/LdSkipList.thy ===== *)
theory LdSkipList
  imports LdArena
begin

text \<open>
  The skip list of a memtable (\<open>db/skiplist.h\<close>).

  A node is a key with its array of links; a link that was not stored yet has no value (\<open>Garbage\<close>),
  and reading it, a null node, or past the array has no result (\<open>None\<close>).  \<open>Insert\<close> is composed of
  its single stores to shared memory, so that readers can be put between them.  The number of bytes
  of a node is the one of \<open>SkipList<const char*, ...>\<close> on a 64-bit machine.
\<close>

datatype link = Garbage | Null | Link addr

record 'k sl_node =
  sn_key :: 'k
  sn_next :: "link list"

record 'k skip_list =
  sl_head :: addr
  sl_max_height :: nat
  sl_rnd :: u32
  sl_nodes :: "addr \<Rightarrow> 'k sl_node option"

definition kMaxHeight :: nat where "kMaxHeight = 12"
definition kBranching :: u32 where "kBranching = 4"

subsection \<open>Nodes\<close>

text \<open>\<open>Next\<close> and \<open>NoBarrier_Next\<close>, \<open>SetNext\<close> and \<open>NoBarrier_SetNext\<close>: the barriers order the stores
  for other threads, which the steps of \<open>LdSkipListConc\<close> see in this order.\<close>

definition node_next :: "'k skip_list \<Rightarrow> addr \<Rightarrow> nat \<Rightarrow> addr option option" where
  "node_next sl x n =
     do {
       nd \<leftarrow> sl_nodes sl x;
       if n < length (sn_next nd) then
         (case sn_next nd ! n of Garbage \<Rightarrow> None | Null \<Rightarrow> Some None | Link y \<Rightarrow> Some (Some y))
       else None
     }"

definition link_of :: "addr option \<Rightarrow> link" where
  "link_of p = (case p of None \<Rightarrow> Null | Some y \<Rightarrow> Link y)"

definition node_set_next :: "'k skip_list \<Rightarrow> addr \<Rightarrow> nat \<Rightarrow> addr option \<Rightarrow> 'k skip_list option" where
  "node_set_next sl x n p =
     do {
       nd \<leftarrow> sl_nodes sl x;
       if n < length (sn_next nd)
       then Some (sl\<lparr>sl_nodes := (sl_nodes sl)(x \<mapsto> nd\<lparr>sn_next := (sn_next nd)[n := link_of p]\<rparr>)\<rparr>)
       else None
     }"

definition node_bytes :: "nat \<Rightarrow> u64" where
  "node_bytes height = 16 + 8 * (of_nat height - 1)"

definition new_node :: "arena \<Rightarrow> 'k skip_list \<Rightarrow> 'k \<Rightarrow> nat \<Rightarrow> (addr \<times> arena \<times> 'k skip_list) option" where
  "new_node ar sl key height =
     do {
       (mem, ar) \<leftarrow> arena_allocate_aligned ar (node_bytes height);
       Some (mem, ar, sl\<lparr>sl_nodes := (sl_nodes sl)(mem \<mapsto> \<lparr>sn_key = key, sn_next = replicate height Garbage\<rparr>)\<rparr>)
     }"

primrec clear_head :: "nat \<Rightarrow> 'k skip_list \<Rightarrow> 'k skip_list option" where
  "clear_head 0 sl = Some sl"
| "clear_head (Suc n) sl = Option.bind (clear_head n sl) (\<lambda>sl. node_set_next sl (sl_head sl) n None)"

text \<open>The constructor, with the key the head is given.\<close>

definition skip_list :: "'k \<Rightarrow> arena \<Rightarrow> (arena \<times> 'k skip_list) option" where
  "skip_list zero ar =
     do {
       let sl = \<lparr>sl_head = Addr 0 0, sl_max_height = 1, sl_rnd = random_seed 0xdeadbeef, sl_nodes = Map.empty\<rparr>;
       (head, ar, sl) \<leftarrow> new_node ar sl zero kMaxHeight;
       sl \<leftarrow> clear_head kMaxHeight (sl\<lparr>sl_head := head\<rparr>);
       Some (ar, sl)
     }"

function random_height_loop :: "u32 \<Rightarrow> nat \<Rightarrow> nat \<times> u32" where
  "random_height_loop rnd height =
     (if height < kMaxHeight then
        let rnd = random_next rnd in
        if rnd mod kBranching = 0 then random_height_loop rnd (height + 1) else (height, rnd)
      else (height, rnd))"
  by auto
termination by (relation "measure (\<lambda>(rnd, height). kMaxHeight - height)") auto

declare random_height_loop.simps [simp del]

definition random_height :: "u32 \<Rightarrow> nat \<times> u32" where
  "random_height rnd = random_height_loop rnd 1"

subsection \<open>Searching\<close>

definition node_key :: "'k skip_list \<Rightarrow> addr \<Rightarrow> 'k option" where
  "node_key sl x = map_option sn_key (sl_nodes sl x)"

definition key_is_after_node ::
    "('k \<Rightarrow> 'k \<Rightarrow> int option) \<Rightarrow> 'k skip_list \<Rightarrow> 'k \<Rightarrow> addr option \<Rightarrow> bool option" where
  "key_is_after_node cmp sl key n =
     (case n of
        None \<Rightarrow> Some False
      | Some x \<Rightarrow> do { k \<leftarrow> node_key sl x; r \<leftarrow> cmp k key; Some (r < 0) })"

text \<open>The read and the test of a round of \<open>FindGreaterOrEqual\<close>.\<close>

definition find_ge_read ::
    "('k \<Rightarrow> 'k \<Rightarrow> int option) \<Rightarrow> 'k skip_list \<Rightarrow> 'k \<Rightarrow> addr \<Rightarrow> nat \<Rightarrow> (bool \<times> addr option) option" where
  "find_ge_read cmp sl key x level =
     do {
       nxt \<leftarrow> node_next sl x level;
       after \<leftarrow> key_is_after_node cmp sl key nxt;
       Some (after, nxt)
     }"

text \<open>\<open>prev\<close> is \<open>None\<close> for a null pointer; an entry that was not stored is \<open>None\<close>.\<close>

definition store_prev :: "addr option list option \<Rightarrow> nat \<Rightarrow> addr \<Rightarrow> addr option list option option" where
  "store_prev prev level x =
     (case prev of
        None \<Rightarrow> Some None
      | Some p \<Rightarrow> if level < length p then Some (Some (p[level := Some x])) else None)"

partial_function (option) find_ge_loop ::
    "('k \<Rightarrow> 'k \<Rightarrow> int option) \<Rightarrow> 'k skip_list \<Rightarrow> 'k \<Rightarrow> addr \<Rightarrow> nat \<Rightarrow> addr option list option \<Rightarrow>
     (addr option \<times> addr option list option) option" where
  "find_ge_loop cmp sl key x level prev =
     do {
       (after, nxt) \<leftarrow> find_ge_read cmp sl key x level;
       if after then
         (case nxt of Some y \<Rightarrow> find_ge_loop cmp sl key y level prev | None \<Rightarrow> None)
       else
         do {
           prev \<leftarrow> store_prev prev level x;
           if level = 0 then Some (nxt, prev) else find_ge_loop cmp sl key x (level - 1) prev
         }
     }"

definition find_greater_or_equal ::
    "('k \<Rightarrow> 'k \<Rightarrow> int option) \<Rightarrow> 'k skip_list \<Rightarrow> 'k \<Rightarrow> addr option list option \<Rightarrow>
     (addr option \<times> addr option list option) option" where
  "find_greater_or_equal cmp sl key prev =
     (if sl_max_height sl = 0 then None
      else find_ge_loop cmp sl key (sl_head sl) (sl_max_height sl - 1) prev)"

definition node_before_key ::
    "('k \<Rightarrow> 'k \<Rightarrow> int option) \<Rightarrow> 'k skip_list \<Rightarrow> 'k \<Rightarrow> addr \<Rightarrow> bool option" where
  "node_before_key cmp sl key x =
     (if x = sl_head sl then Some True else do { k \<leftarrow> node_key sl x; r \<leftarrow> cmp k key; Some (r < 0) })"

partial_function (option) find_lt_loop ::
    "('k \<Rightarrow> 'k \<Rightarrow> int option) \<Rightarrow> 'k skip_list \<Rightarrow> 'k \<Rightarrow> addr \<Rightarrow> nat \<Rightarrow> addr option" where
  "find_lt_loop cmp sl key x level =
     do {
       ok \<leftarrow> node_before_key cmp sl key x;
       if \<not> ok then None
       else
         do {
           nxt \<leftarrow> node_next sl x level;
           stop \<leftarrow> (case nxt of
               None \<Rightarrow> Some True
             | Some y \<Rightarrow> do { k \<leftarrow> node_key sl y; r \<leftarrow> cmp k key; Some (r \<ge> 0) });
           if stop then
             (if level = 0 then Some x else find_lt_loop cmp sl key x (level - 1))
           else
             (case nxt of Some y \<Rightarrow> find_lt_loop cmp sl key y level | None \<Rightarrow> None)
         }
     }"

definition find_less_than :: "('k \<Rightarrow> 'k \<Rightarrow> int option) \<Rightarrow> 'k skip_list \<Rightarrow> 'k \<Rightarrow> addr option" where
  "find_less_than cmp sl key =
     (if sl_max_height sl = 0 then None
      else find_lt_loop cmp sl key (sl_head sl) (sl_max_height sl - 1))"

partial_function (option) find_last_loop :: "'k skip_list \<Rightarrow> addr \<Rightarrow> nat \<Rightarrow> addr option" where
  "find_last_loop sl x level =
     do {
       nxt \<leftarrow> node_next sl x level;
       (case nxt of
          None \<Rightarrow> if level = 0 then Some x else find_last_loop sl x (level - 1)
        | Some y \<Rightarrow> find_last_loop sl y level)
     }"

definition find_last :: "'k skip_list \<Rightarrow> addr option" where
  "find_last sl =
     (if sl_max_height sl = 0 then None else find_last_loop sl (sl_head sl) (sl_max_height sl - 1))"

subsection \<open>\<open>Insert\<close>\<close>

text \<open>The search, the check for a duplicate and the random height: what \<open>Insert\<close> does before it
  changes the list.  Only \<open>Insert\<close> uses \<open>rnd_\<close>.\<close>

definition insert_prepare ::
    "('k \<Rightarrow> 'k \<Rightarrow> int option) \<Rightarrow> 'k skip_list \<Rightarrow> 'k \<Rightarrow> (addr option list \<times> nat \<times> 'k skip_list) option" where
  "insert_prepare cmp sl key =
     do {
       (x, prev) \<leftarrow> find_greater_or_equal cmp sl key (Some (replicate kMaxHeight None));
       prev \<leftarrow> prev;
       new \<leftarrow> (case x of
           None \<Rightarrow> Some True
         | Some y \<Rightarrow> do { k \<leftarrow> node_key sl y; r \<leftarrow> cmp key k; Some (r \<noteq> 0) });
       if \<not> new then None
       else
         let (height, rnd) = random_height (sl_rnd sl);
             sl = sl\<lparr>sl_rnd := rnd\<rparr> in
         Some (map (\<lambda>i. if sl_max_height sl \<le> i \<and> i < height then Some (sl_head sl) else prev ! i)
             [0..<kMaxHeight], height, sl)
     }"

definition raise_height :: "'k skip_list \<Rightarrow> nat \<Rightarrow> 'k skip_list" where
  "raise_height sl height = (if height > sl_max_height sl then sl\<lparr>sl_max_height := height\<rparr> else sl)"

text \<open>The two stores of a round of the last loop.\<close>

definition link_self :: "'k skip_list \<Rightarrow> addr \<Rightarrow> addr option list \<Rightarrow> nat \<Rightarrow> 'k skip_list option" where
  "link_self sl x prev i =
     do { p \<leftarrow> prev ! i; nxt \<leftarrow> node_next sl p i; node_set_next sl x i nxt }"

definition link_prev :: "'k skip_list \<Rightarrow> addr \<Rightarrow> addr option list \<Rightarrow> nat \<Rightarrow> 'k skip_list option" where
  "link_prev sl x prev i = do { p \<leftarrow> prev ! i; node_set_next sl p i (Some x) }"

function link_levels :: "'k skip_list \<Rightarrow> addr \<Rightarrow> addr option list \<Rightarrow> nat \<Rightarrow> nat \<Rightarrow> 'k skip_list option" where
  "link_levels sl x prev i height =
     (if i < height then
        do {
          sl \<leftarrow> link_self sl x prev i;
          sl \<leftarrow> link_prev sl x prev i;
          link_levels sl x prev (i + 1) height
        }
      else Some sl)"
  by auto
termination by (relation "measure (\<lambda>(sl, x, prev, i, height). height - i)") auto

declare link_levels.simps [simp del]

definition sl_insert ::
    "('k \<Rightarrow> 'k \<Rightarrow> int option) \<Rightarrow> arena \<Rightarrow> 'k skip_list \<Rightarrow> 'k \<Rightarrow> (arena \<times> 'k skip_list) option" where
  "sl_insert cmp ar sl key =
     do {
       (prev, height, sl) \<leftarrow> insert_prepare cmp sl key;
       (x, ar, sl) \<leftarrow> new_node ar (raise_height sl height) key height;
       sl \<leftarrow> link_levels sl x prev 0 height;
       Some (ar, sl)
     }"

definition sl_contains :: "('k \<Rightarrow> 'k \<Rightarrow> int option) \<Rightarrow> 'k skip_list \<Rightarrow> 'k \<Rightarrow> bool option" where
  "sl_contains cmp sl key =
     do {
       (x, prev) \<leftarrow> find_greater_or_equal cmp sl key None;
       (case x of
          None \<Rightarrow> Some False
        | Some y \<Rightarrow> do { k \<leftarrow> node_key sl y; r \<leftarrow> cmp key k; Some (r = 0) })
     }"

subsection \<open>\<open>Iterator\<close>\<close>

text \<open>The position of an iterator; the list it belongs to is an argument of its operations.\<close>

type_synonym sl_iter = "addr option"

definition it_valid :: "sl_iter \<Rightarrow> bool" where "it_valid node = (node \<noteq> None)"

definition it_key :: "'k skip_list \<Rightarrow> sl_iter \<Rightarrow> 'k option" where
  "it_key sl node = Option.bind node (node_key sl)"

definition it_next :: "'k skip_list \<Rightarrow> sl_iter \<Rightarrow> sl_iter option" where
  "it_next sl node = Option.bind node (\<lambda>x. node_next sl x 0)"

definition not_head :: "'k skip_list \<Rightarrow> addr \<Rightarrow> sl_iter" where
  "not_head sl x = (if x = sl_head sl then None else Some x)"

definition it_prev :: "('k \<Rightarrow> 'k \<Rightarrow> int option) \<Rightarrow> 'k skip_list \<Rightarrow> sl_iter \<Rightarrow> sl_iter option" where
  "it_prev cmp sl node =
     do { k \<leftarrow> it_key sl node; x \<leftarrow> find_less_than cmp sl k; Some (not_head sl x) }"

definition it_seek :: "('k \<Rightarrow> 'k \<Rightarrow> int option) \<Rightarrow> 'k skip_list \<Rightarrow> 'k \<Rightarrow> sl_iter option" where
  "it_seek cmp sl target = map_option fst (find_greater_or_equal cmp sl target None)"

definition it_seek_to_first :: "'k skip_list \<Rightarrow> sl_iter option" where
  "it_seek_to_first sl = node_next sl (sl_head sl) 0"

definition it_seek_to_last :: "'k skip_list \<Rightarrow> sl_iter option" where
  "it_seek_to_last sl = map_option (not_head sl) (find_last sl)"

end
