(* ===== verification/LdSkipListOk.thy ===== *)
theory LdSkipListOk
  imports LdSkipList
begin

text \<open>
  What the skip list keeps: on every level the links go through the nodes of that level in the order
  of the keys, and each level is a part of the one below.  The searches find the place of a key,
  \<open>Insert\<close> puts a node there, and after each of its stores the list is well formed again.
\<close>

subsection \<open>Chains of links\<close>

text \<open>The nodes \<open>xs\<close> follow \<open>a\<close> on level \<open>i\<close>, and the last of them is the last of the level.\<close>

primrec chain :: "'k skip_list \<Rightarrow> nat \<Rightarrow> addr \<Rightarrow> addr list \<Rightarrow> bool" where
  "chain sl i a [] \<longleftrightarrow> node_next sl a i = Some None"
| "chain sl i a (b # bs) \<longleftrightarrow> node_next sl a i = Some (Some b) \<and> chain sl i b bs"

lemma chain_append: "chain sl i a (us @ vs) \<Longrightarrow> chain sl i (last (a # us)) vs"
  by (induction us arbitrary: a) (auto split: if_splits)

lemma chain_next: "chain sl i a xs \<Longrightarrow>
    node_next sl a i = Some (case xs of [] \<Rightarrow> None | x # _ \<Rightarrow> Some x)"
  by (cases xs) auto

lemma chain_cong:
  assumes "\<And>y. y \<in> set (a # xs) \<Longrightarrow> node_next sl' y i = node_next sl y i"
  shows "chain sl' i a xs = chain sl i a xs"
  using assms by (induction xs arbitrary: a) auto

text \<open>A node \<open>x\<close> goes between \<open>us\<close> and \<open>vs\<close>.\<close>

lemma chain_splice:
  assumes "chain sl i a (us @ vs)" "distinct (a # us @ vs)" "x \<notin> set (a # us @ vs)"
    and "node_next sl' x i = node_next sl (last (a # us)) i"
    and "node_next sl' (last (a # us)) i = Some (Some x)"
    and "\<And>y. y \<noteq> x \<Longrightarrow> y \<noteq> last (a # us) \<Longrightarrow> node_next sl' y i = node_next sl y i"
  shows "chain sl' i a (us @ x # vs)"
  using assms
proof (induction us arbitrary: a)
  case Nil
  have "chain sl' i x vs"
  proof (cases vs)
    case Nil
    then show ?thesis using Nil.prems(1,4) by simp
  next
    case (Cons v vs')
    then have "chain sl' i v vs' = chain sl i v vs'"
      using Nil.prems(2,3) by (intro chain_cong Nil.prems(6)) auto
    then show ?thesis using Nil.prems Cons by auto
  qed
  then show ?case using Nil.prems by simp
next
  case (Cons u us)
  have last: "last (a # u # us) = last (u # us)" by simp
  have "chain sl' i u (us @ x # vs)"
    using Cons.prems unfolding last by (intro Cons.IH) auto
  moreover have "last (u # us) \<in> set (u # us)" by (rule last_in_set) simp
  then have "a \<noteq> last (u # us)" using Cons.prems(2) by auto
  ultimately show ?case using Cons.prems by auto
qed

subsection \<open>Stores\<close>

definition next_len :: "'k skip_list \<Rightarrow> addr \<Rightarrow> nat" where
  "next_len sl x = (case sl_nodes sl x of None \<Rightarrow> 0 | Some nd \<Rightarrow> length (sn_next nd))"

text \<open>\<open>sl'\<close> is \<open>sl\<close> with the link \<open>n\<close> of \<open>x\<close> set to \<open>p\<close>.\<close>

definition stored :: "'k skip_list \<Rightarrow> addr \<Rightarrow> nat \<Rightarrow> addr option \<Rightarrow> 'k skip_list \<Rightarrow> bool" where
  "stored sl x n p sl' \<longleftrightarrow>
     (\<forall>y j. node_next sl' y j = (if y = x \<and> j = n then Some p else node_next sl y j)) \<and>
     node_key sl' = node_key sl \<and> next_len sl' = next_len sl \<and> sl_head sl' = sl_head sl \<and>
     sl_max_height sl' = sl_max_height sl \<and> sl_rnd sl' = sl_rnd sl"

lemma node_next_len: "node_next sl x n = Some v \<Longrightarrow> n < next_len sl x"
  by (auto simp: node_next_def next_len_def bind_eq_Some_conv split: if_splits)

lemma node_set_next_stored:
  assumes "n < next_len sl x"
  shows "\<exists>sl'. node_set_next sl x n p = Some sl' \<and> stored sl x n p sl'"
  using assms
  by (auto simp: next_len_def stored_def node_set_next_def node_next_def node_key_def link_of_def fun_eq_iff
      nth_list_update split: option.splits link.splits)

subsection \<open>The order of the keys\<close>

text \<open>A comparison function that compares the slices \<open>key_of\<close> of its arguments.\<close>

locale skip_list_keys = comparator_laws c valid
  for c :: comparator and valid :: "slice \<Rightarrow> bool" +
  fixes cmp :: "'k \<Rightarrow> 'k \<Rightarrow> int option" and good :: "'k \<Rightarrow> bool" and key_of :: "'k \<Rightarrow> slice"
  assumes good_valid: "good a \<Longrightarrow> valid (key_of a)"
    and cmp_keys: "good a \<Longrightarrow> good b \<Longrightarrow> cmp a b = compare c (key_of a) (key_of b)"
begin

definition less :: "'k \<Rightarrow> 'k \<Rightarrow> bool" where
  "less a b \<longleftrightarrow> before (key_of a) (key_of b)"

lemma less_trans: "good a \<Longrightarrow> good b \<Longrightarrow> good d \<Longrightarrow> less a b \<Longrightarrow> less b d \<Longrightarrow> less a d"
  unfolding less_def using before_trans good_valid by blast

lemma less_irrefl: "good a \<Longrightarrow> \<not> less a a"
  unfolding less_def using before_irrefl good_valid by blast

lemma less_total: "good a \<Longrightarrow> good b \<Longrightarrow> less a b \<or> key_of a = key_of b \<or> less b a"
  unfolding less_def using before_total good_valid by blast

lemma cmp_cases:
  assumes "good a" "good b"
  obtains r where "cmp a b = Some r" "r < 0 \<longleftrightarrow> less a b" "0 < r \<longleftrightarrow> less b a"
    "r = 0 \<longleftrightarrow> key_of a = key_of b"
proof -
  note v = good_valid [OF assms(1)] good_valid [OF assms(2)]
  from compare_defined [OF v] obtain r where r: "compare c (key_of a) (key_of b) = Some r" ..
  show thesis
    using cmp_keys [OF assms] r compare_neg [OF v r] compare_pos [OF v r] compare_zero [OF v]
    by (intro that [of r]) (auto simp: less_def)
qed

text \<open>The invariant: \<open>xs\<close> are the nodes of the list in order, and \<open>h\<close> tells on how many levels a node
  is linked.\<close>

definition key_at :: "'k skip_list \<Rightarrow> addr \<Rightarrow> 'k" where
  "key_at sl x = the (node_key sl x)"

definition has_key :: "'k skip_list \<Rightarrow> addr \<Rightarrow> bool" where
  "has_key sl x \<longleftrightarrow> (\<exists>k. node_key sl x = Some k \<and> good k)"

definition level :: "(addr \<Rightarrow> nat) \<Rightarrow> nat \<Rightarrow> addr list \<Rightarrow> addr list" where
  "level h i xs = filter (\<lambda>x. i < h x) xs"

definition sl_ok :: "'k skip_list \<Rightarrow> addr list \<Rightarrow> (addr \<Rightarrow> nat) \<Rightarrow> bool" where
  "sl_ok sl xs h \<longleftrightarrow> distinct (sl_head sl # xs) \<and> 1 \<le> sl_max_height sl \<and> sl_max_height sl \<le> kMaxHeight \<and>
     (\<forall>x \<in> set xs. has_key sl x \<and> 1 \<le> h x \<and> h x \<le> sl_max_height sl) \<and>
     sorted_wrt (\<lambda>x y. less (key_at sl x) (key_at sl y)) xs \<and>
     (\<forall>i < kMaxHeight. chain sl i (sl_head sl) (level h i xs))"

lemma key_at: "has_key sl x \<Longrightarrow> node_key sl x = Some (key_at sl x) \<and> good (key_at sl x)"
  by (auto simp: has_key_def key_at_def)

lemma level_simps [simp]:
  "level h i [] = []" "level h i (x # xs) = (if i < h x then x # level h i xs else level h i xs)"
  "level h i (xs @ ys) = level h i xs @ level h i ys"
  by (simp_all add: level_def)

lemma set_level [simp]: "set (level h i xs) = {x \<in> set xs. i < h x}"
  by (auto simp: level_def)

lemma distinct_level: "distinct xs \<Longrightarrow> distinct (level h i xs)"
  by (simp add: level_def)

text \<open>The nodes before a key, and the rest.\<close>

definition nodes_before :: "'k skip_list \<Rightarrow> 'k \<Rightarrow> addr list \<Rightarrow> addr list" where
  "nodes_before sl key xs = takeWhile (\<lambda>x. less (key_at sl x) key) xs"

definition nodes_from :: "'k skip_list \<Rightarrow> 'k \<Rightarrow> addr list \<Rightarrow> addr list" where
  "nodes_from sl key xs = dropWhile (\<lambda>x. less (key_at sl x) key) xs"

definition first :: "addr list \<Rightarrow> addr option" where
  "first xs = (case xs of [] \<Rightarrow> None | x # _ \<Rightarrow> Some x)"

lemma nodes_split: "nodes_before sl key xs @ nodes_from sl key xs = xs"
  by (simp add: nodes_before_def nodes_from_def)

lemma nodes_before_less: "x \<in> set (nodes_before sl key xs) \<Longrightarrow> less (key_at sl x) key"
  by (auto simp: nodes_before_def dest: set_takeWhileD)

lemma nodes_from_not_less:
  assumes "sl_ok sl xs h" "good key" "x \<in> set (nodes_from sl key xs)"
  shows "\<not> less (key_at sl x) key"
proof -
  obtain y ys where ys: "nodes_from sl key xs = y # ys" "\<not> less (key_at sl y) key"
    using assms(3) unfolding nodes_from_def by (metis dropWhile_eq_Cons_conv list.set_cases)
  have "sorted_wrt (\<lambda>x y. less (key_at sl x) (key_at sl y)) (nodes_before sl key xs @ y # ys)"
    using assms(1) nodes_split [of sl key xs] ys(1) by (simp add: sl_ok_def)
  then have s: "\<forall>z \<in> set ys. less (key_at sl y) (key_at sl z)" by (simp add: sorted_wrt_append)
  have "set (y # ys) \<subseteq> set xs" using nodes_split [of sl key xs] ys(1) by (metis Un_upper2 set_append)
  then have g: "z \<in> set (y # ys) \<Longrightarrow> good (key_at sl z)" for z
    using assms(1) key_at by (auto simp: sl_ok_def)
  show ?thesis
  proof (cases "x = y")
    case False
    then have "x \<in> set ys" using assms(3) ys(1) by simp
    with s have "less (key_at sl y) (key_at sl x)" by blast
    with ys(2) less_trans [of "key_at sl y" "key_at sl x" key] g [of y] g [of x] assms(2) \<open>x \<in> set ys\<close>
    show ?thesis by auto
  qed (use ys in simp)
qed

text \<open>A prefix of the list whose nodes are before a key is a prefix of the nodes before the key.\<close>

lemma prefix_before:
  assumes "xs = us @ vs" "\<forall>u \<in> set us. less (key_at sl u) key"
  shows "nodes_before sl key xs = us @ nodes_before sl key vs"
    and "nodes_from sl key xs = nodes_from sl key vs"
  using assms unfolding nodes_before_def nodes_from_def
  by (simp_all add: takeWhile_append2 dropWhile_append2)

subsection \<open>Searching\<close>

text \<open>A search stands at the last node of a prefix of the list, on a level this node is linked on.\<close>

definition search_at :: "'k skip_list \<Rightarrow> (addr \<Rightarrow> nat) \<Rightarrow> addr list \<Rightarrow> addr \<Rightarrow> nat \<Rightarrow> bool" where
  "search_at sl h us x i \<longleftrightarrow> x = last (sl_head sl # us) \<and> (us \<noteq> [] \<longrightarrow> i < h x)"

lemma last_level:
  assumes "search_at sl h us x i"
  shows "last (sl_head sl # level h i us) = x"
proof (cases us rule: rev_cases)
  case (snoc us' u)
  with assms have "x = u" "i < h u" by (auto simp: search_at_def)
  then show ?thesis by (simp add: snoc)
qed (use assms in \<open>simp add: search_at_def\<close>)

lemma search_chain:
  assumes "sl_ok sl (us @ vs) h" "search_at sl h us x i" "i < kMaxHeight"
  shows "chain sl i x (level h i vs)"
proof -
  have "chain sl i (sl_head sl) (level h i us @ level h i vs)" using assms(1,3) by (simp add: sl_ok_def)
  from chain_append [OF this] last_level [OF assms(2)] show ?thesis by simp
qed

lemma search_next:
  assumes "sl_ok sl (us @ vs) h" "search_at sl h us x i" "i < kMaxHeight"
  shows "node_next sl x i = Some (first (level h i vs))"
  using chain_next [OF search_chain [OF assms]] by (simp add: first_def)

lemma level_Cons:
  assumes "level h i vs = y # ys"
  obtains cs ds where "vs = cs @ y # ds" "level h i cs = []" "i < h y"
  using assms unfolding level_def filter_eq_Cons_iff by (fastforce simp: filter_empty_conv)

lemma search_down: "search_at sl h us x i \<Longrightarrow> j \<le> i \<Longrightarrow> search_at sl h us x j"
  by (auto simp: search_at_def)

lemma search_right: "i < h y \<Longrightarrow> search_at sl h (us @ cs @ [y]) y i"
  by (simp add: search_at_def)

lemma search_start: "search_at sl h [] (sl_head sl) i"
  by (simp add: search_at_def)

lemma ok_keys: "sl_ok sl xs h \<Longrightarrow> x \<in> set xs \<Longrightarrow> has_key sl x"
  by (simp add: sl_ok_def)

lemma before_extend:
  assumes "sl_ok sl (us @ cs @ y # ds) h" "good key" "less (key_at sl y) key"
    "\<forall>u \<in> set us. less (key_at sl u) key"
  shows "\<forall>u \<in> set (us @ cs @ [y]). less (key_at sl u) key"
proof -
  have "\<forall>u \<in> set cs. less (key_at sl u) (key_at sl y)"
    using assms(1) by (simp add: sl_ok_def sorted_wrt_append)
  then show ?thesis
    using assms(2-4) ok_keys [OF assms(1)] less_trans [of "key_at sl _" "key_at sl y" key] key_at by auto
qed

lemma level0: "sl_ok sl (us @ vs) h \<Longrightarrow> level h 0 vs = vs"
  unfolding sl_ok_def level_def filter_id_conv by (force simp: Suc_le_eq)

text \<open>The read of a round: either the search moves on to a later node before the key, or the nodes
  before the key on this level are behind it.\<close>

lemma find_ge_read_cases:
  assumes ok: "sl_ok sl (us @ vs) h" and at: "search_at sl h us x i" and i: "i < kMaxHeight" and key: "good key"
    and before: "\<forall>u \<in> set us. less (key_at sl u) key"
  obtains (right) cs y ds where "find_ge_read cmp sl key x i = Some (True, Some y)" "vs = cs @ y # ds" "i < h y"
      "\<forall>u \<in> set (us @ cs @ [y]). less (key_at sl u) key"
  | (down) "find_ge_read cmp sl key x i = Some (False, first (level h i vs))"
      "level h i (nodes_before sl key vs) = []"
proof (cases "level h i vs")
  case Nil
  have "set (nodes_before sl key vs) \<subseteq> set vs" unfolding nodes_before_def by (auto dest: set_takeWhileD)
  with Nil have "level h i (nodes_before sl key vs) = []" by (auto simp: level_def filter_empty_conv)
  with search_next [OF ok at i] Nil show ?thesis
    by (intro down) (simp_all add: find_ge_read_def first_def key_is_after_node_def)
next
  case (Cons y ys)
  then obtain cs ds where vs: "vs = cs @ y # ds" "level h i cs = []" "i < h y" by (rule level_Cons)
  have y: "node_key sl y = Some (key_at sl y)" "good (key_at sl y)"
    using ok_keys [OF ok, of y] vs(1) key_at by auto
  obtain r where r: "cmp (key_at sl y) key = Some r" "r < 0 \<longleftrightarrow> less (key_at sl y) key"
    using cmp_cases [OF y(2) key] by metis
  have read: "find_ge_read cmp sl key x i = Some (less (key_at sl y) key, Some y)"
    using search_next [OF ok at i] Cons y r by (simp add: find_ge_read_def first_def key_is_after_node_def)
  show ?thesis
  proof (cases "less (key_at sl y) key")
    case True
    with before_extend [of sl us cs y ds h key] ok key before vs have
      "\<forall>u \<in> set (us @ cs @ [y]). less (key_at sl u) key" by simp
    with right [of y cs ds] read True vs show ?thesis by simp
  next
    case False
    have "nodes_before sl key vs = nodes_before sl key cs"
      unfolding nodes_before_def vs(1) using False
      by (simp add: takeWhile_append) (metis takeWhile_eq_all_conv)
    moreover have "set (nodes_before sl key cs) \<subseteq> set cs"
      unfolding nodes_before_def by (auto dest: set_takeWhileD)
    ultimately have "level h i (nodes_before sl key vs) = []"
      using vs(2) by (auto simp: level_def filter_empty_conv)
    with down read False Cons show ?thesis by (simp add: first_def)
  qed
qed

text \<open>What a search leaves in \<open>prev\<close>: on every level up to the one it started on, the last node before
  the key.\<close>

definition last_before :: "'k skip_list \<Rightarrow> (addr \<Rightarrow> nat) \<Rightarrow> 'k \<Rightarrow> addr list \<Rightarrow> nat \<Rightarrow> addr" where
  "last_before sl h key xs i = last (sl_head sl # level h i (nodes_before sl key xs))"

definition prev_filled ::
    "'k skip_list \<Rightarrow> (addr \<Rightarrow> nat) \<Rightarrow> 'k \<Rightarrow> addr list \<Rightarrow> nat \<Rightarrow> addr option list \<Rightarrow> addr option list \<Rightarrow> bool" where
  "prev_filled sl h key xs i p p' \<longleftrightarrow> length p' = length p \<and>
     (\<forall>j < length p. p' ! j = (if j \<le> i then Some (last_before sl h key xs j) else p ! j))"

lemma prev_filled_down:
  assumes "prev_filled sl h key xs i (p[Suc i := Some (last_before sl h key xs (Suc i))]) p'"
  shows "prev_filled sl h key xs (Suc i) p p'"
  using assms by (auto simp: prev_filled_def nth_list_update le_Suc_eq)

lemma find_ge_loop_ok:
  assumes "sl_ok sl xs h" "xs = us @ vs" "search_at sl h us x i" "i < kMaxHeight" "good key"
    and "\<forall>u \<in> set us. less (key_at sl u) key" "\<forall>p. prev = Some p \<longrightarrow> length p = kMaxHeight"
  shows "\<exists>prev'. find_ge_loop cmp sl key x i prev = Some (first (nodes_from sl key xs), prev') \<and>
     (prev = None \<longrightarrow> prev' = None) \<and>
     (\<forall>p. prev = Some p \<longrightarrow> (\<exists>p'. prev' = Some p' \<and> prev_filled sl h key xs i p p'))"
  using assms(2-7)
proof (induction "i + length vs" arbitrary: us vs x i prev rule: less_induct)
  case less
  note ok = assms(1) [unfolded less.prems(1)]
  from ok less.prems(2,3,4,5) show ?case
  proof (cases rule: find_ge_read_cases)
    case (right cs y ds)
    have "\<exists>prev'. find_ge_loop cmp sl key y i prev = Some (first (nodes_from sl key xs), prev') \<and>
       (prev = None \<longrightarrow> prev' = None) \<and>
       (\<forall>p. prev = Some p \<longrightarrow> (\<exists>p'. prev' = Some p' \<and> prev_filled sl h key xs i p p'))"
      using right less.prems search_right [of i h y sl us cs]
      by (intro less.hyps [of i ds "us @ cs @ [y]" y prev]) simp_all
    then show ?thesis using right(1) by (subst find_ge_loop.simps) simp
  next
    case down
    have split: "nodes_before sl key xs = us @ nodes_before sl key vs" "nodes_from sl key xs = nodes_from sl key vs"
      using prefix_before [OF less.prems(1,5)] by simp_all
    have x: "last_before sl h key xs i = x"
      using last_level [OF less.prems(2)] down(2) by (simp add: last_before_def split)
    obtain prev1 where prev1: "store_prev prev i x = Some prev1" "prev = None \<longrightarrow> prev1 = None"
      "\<And>p. prev = Some p \<Longrightarrow> prev1 = Some (p[i := Some x])"
      using less.prems(3,6) by (cases prev) (auto simp: store_prev_def)
    show ?thesis
    proof (cases i)
      case 0
      have "first (level h 0 vs) = first (nodes_from sl key vs)"
        using level0 [OF ok] down(2) nodes_split [of sl key vs] 0
        by (metis (no_types, lifting) append_Nil level0 nodes_split ok append_assoc level_simps(3) )
      then show ?thesis using down(1) prev1 x 0
        by (subst find_ge_loop.simps) (auto simp: split prev_filled_def nth_list_update)
    next
      case (Suc j)
      obtain prev' where IH: "find_ge_loop cmp sl key x j prev1 = Some (first (nodes_from sl key xs), prev')"
        "prev1 = None \<longrightarrow> prev' = None"
        "\<forall>p. prev1 = Some p \<longrightarrow> (\<exists>p'. prev' = Some p' \<and> prev_filled sl h key xs j p p')"
        using less.hyps [of j vs us x prev1] less.prems search_down [OF less.prems(2), of j] prev1 Suc
        by (cases prev) auto
      then show ?thesis using down(1) prev1 x Suc
        by (subst find_ge_loop.simps) (auto intro!: prev_filled_down)
    qed
  qed
qed

lemma find_greater_or_equal_ok:
  assumes "sl_ok sl xs h" "good key" "\<forall>p. prev = Some p \<longrightarrow> length p = kMaxHeight"
  shows "\<exists>prev'. find_greater_or_equal cmp sl key prev = Some (first (nodes_from sl key xs), prev') \<and>
     (\<forall>p. prev = Some p \<longrightarrow> (\<exists>p'. prev' = Some p' \<and>
        prev_filled sl h key xs (sl_max_height sl - 1) p p'))"
proof -
  have "sl_max_height sl - 1 < kMaxHeight" "sl_max_height sl \<noteq> 0" using assms(1) by (auto simp: sl_ok_def)
  then show ?thesis
    using find_ge_loop_ok [OF assms(1), of "[]" xs "sl_head sl" "sl_max_height sl - 1" key prev]
      assms(2,3) search_start [of sl h] by (auto simp: find_greater_or_equal_def)
qed

subsection \<open>\<open>Insert\<close>\<close>

text \<open>A node \<open>x\<close> that is being linked: it is in the list when its level 0 is done.  \<open>nb\<close> are the nodes
  before its key and \<open>rest\<close> those behind; \<open>own\<close> tells that its own link on level \<open>i\<close> is stored.\<close>

definition with_node :: "addr list \<Rightarrow> addr \<Rightarrow> addr list \<Rightarrow> nat \<Rightarrow> addr list" where
  "with_node nb x rest i = nb @ (if i = 0 then [] else [x]) @ rest"

definition linking ::
    "'k skip_list \<Rightarrow> addr list \<Rightarrow> addr list \<Rightarrow> (addr \<Rightarrow> nat) \<Rightarrow> 'k \<Rightarrow> addr \<Rightarrow> addr option list \<Rightarrow> nat \<Rightarrow>
     nat \<Rightarrow> bool \<Rightarrow> bool" where
  "linking sl nb rest h key x prev i height own \<longleftrightarrow>
     sl_ok sl (with_node nb x rest i) h \<and> h x = i \<and> good key \<and> node_key sl x = Some key \<and>
     next_len sl x = height \<and> height \<le> sl_max_height sl \<and> i \<le> height \<and>
     x \<notin> set (sl_head sl # nb @ rest) \<and>
     (\<forall>y \<in> set nb. less (key_at sl y) key) \<and> (\<forall>y \<in> set rest. less key (key_at sl y)) \<and>
     (\<forall>j. i \<le> j \<longrightarrow> j < height \<longrightarrow> prev ! j = Some (last (sl_head sl # level h j nb))) \<and>
     (own \<longrightarrow> node_next sl x i = Some (first (level h i rest)))"

lemma stored_frame:
  assumes "stored sl x n p sl'"
  shows "key_at sl' = key_at sl" "has_key sl' = has_key sl" "sl_head sl' = sl_head sl"
    "sl_max_height sl' = sl_max_height sl" "next_len sl' = next_len sl" "node_key sl' = node_key sl"
    "nodes_before sl' = nodes_before sl" "nodes_from sl' = nodes_from sl"
  using assms by (simp_all add: stored_def key_at_def has_key_def fun_eq_iff nodes_before_def nodes_from_def)

text \<open>A store to a node that is not on the level leaves the list as it is.\<close>

lemma stored_ok:
  assumes "sl_ok sl xs h" "stored sl x n p sl'" "x \<notin> set (sl_head sl # level h n xs)"
  shows "sl_ok sl' xs h"
proof -
  have "chain sl' i (sl_head sl) (level h i xs) = chain sl i (sl_head sl) (level h i xs)" for i
    using assms(2,3) by (intro chain_cong) (auto simp: stored_def)
  then show ?thesis using assms(1) stored_frame [OF assms(2)] by (simp add: sl_ok_def)
qed

lemma linking_level: "x \<notin> set nb \<Longrightarrow> x \<notin> set rest \<Longrightarrow> h x = i \<Longrightarrow>
    level h i (with_node nb x rest i) = level h i nb @ level h i rest"
  by (simp add: with_node_def)

lemma linking_chain:
  assumes "linking sl nb rest h key x prev i height own" "i < kMaxHeight"
  shows "chain sl i (sl_head sl) (level h i nb @ level h i rest)"
proof -
  have "chain sl i (sl_head sl) (level h i (with_node nb x rest i))" "x \<notin> set nb" "x \<notin> set rest" "h x = i"
    using assms by (simp_all add: linking_def sl_ok_def)
  then show ?thesis using linking_level [of x nb rest h i] by simp
qed

lemma linking_prev_next:
  assumes "linking sl nb rest h key x prev i height own" "i < height"
  shows "node_next sl (last (sl_head sl # level h i nb)) i = Some (first (level h i rest))"
proof -
  have "i < kMaxHeight" using assms by (auto simp: linking_def sl_ok_def)
  then have "chain sl i (sl_head sl) (level h i nb @ level h i rest)"
    using assms(1) by (intro linking_chain)
  from chain_next [OF chain_append [OF this]] show ?thesis by (simp add: first_def)
qed

lemma link_self_ok:
  assumes "linking sl nb rest h key x prev i height own" "i < height"
  shows "\<exists>sl'. link_self sl x prev i = Some sl' \<and> linking sl' nb rest h key x prev i height True \<and>
     stored sl x i (first (level h i rest)) sl'"
proof -
  note L = assms(1) [unfolded linking_def]
  obtain sl' where sl': "node_set_next sl x i (first (level h i rest)) = Some sl'"
    "stored sl x i (first (level h i rest)) sl'"
    using node_set_next_stored [of i sl x] L assms(2) by blast
  have x: "x \<notin> set (sl_head sl # nb @ rest)" "h x = i" using L by simp_all
  have "x \<notin> set (sl_head sl # level h i (with_node nb x rest i))"
    using x linking_level [of x nb rest h i] by simp
  then have ok: "sl_ok sl' (with_node nb x rest i) h"
    using L stored_ok [OF _ sl'(2)] by blast
  have "node_next sl' x i = Some (first (level h i rest))" using sl'(2) by (simp add: stored_def)
  then have "linking sl' nb rest h key x prev i height True"
    unfolding linking_def stored_frame [OF sl'(2)] using L ok by (intro conjI) (elim conjE; assumption | simp)+
  moreover have "prev ! i = Some (last (sl_head sl # level h i nb))" using L assms(2) by simp
  then have "link_self sl x prev i = Some sl'"
    using sl'(1) linking_prev_next [OF assms] by (simp add: link_self_def)
  ultimately show ?thesis using sl'(2) by blast
qed

lemma last_level_in: "last (a # level h i nb) \<in> set (a # nb)"
  using last_in_set [of "a # level h i nb"] by auto

lemma link_prev_ok:
  assumes "linking sl nb rest h key x prev i height True" "i < height"
  defines "h' \<equiv> h(x := Suc i)"
  shows "\<exists>sl'. link_prev sl x prev i = Some sl' \<and> linking sl' nb rest h' key x prev (Suc i) height False \<and>
     stored sl (last (sl_head sl # level h i nb)) i (Some x) sl'"
proof -
  note L = assms(1) [unfolded linking_def]
  define p where "p = last (sl_head sl # level h i nb)"
  note next_p = linking_prev_next [OF assms(1,2), folded p_def]
  obtain sl' where sl': "node_set_next sl p i (Some x) = Some sl'" "stored sl p i (Some x) sl'"
    using node_set_next_stored [OF node_next_len [OF next_p]] by blast
  have x: "x \<notin> set (sl_head sl # nb @ rest)" "h x = i" using L by simp_all
  have px: "p \<noteq> x" using last_level_in [of "sl_head sl" h i nb] x(1) by (auto simp: p_def)
  have own: "node_next sl x i = Some (first (level h i rest))" using L by simp
  have ok: "sl_ok sl (with_node nb x rest i) h" using L by simp
  have other: "level h' j nb = level h j nb" "level h' j rest = level h j rest" for j
    using x by (auto simp: level_def h'_def intro!: filter_cong)
  have "chain sl' j (sl_head sl) (level h' j (nb @ x # rest))" if j: "j < kMaxHeight" for j
  proof (cases "j = i")
    case True
    have c: "chain sl i (sl_head sl) (level h i nb @ level h i rest)"
      using assms(1) j True by (intro linking_chain) simp_all
    have "distinct (sl_head sl # level h i nb @ level h i rest)"
      using ok by (auto simp: sl_ok_def with_node_def intro: distinct_level)
    then have "chain sl' i (sl_head sl) (level h i nb @ x # level h i rest)"
      using x sl'(2) next_p own px
      by (intro chain_splice [OF c]) (simp_all add: stored_def p_def)
    then show ?thesis using True other x by (simp add: h'_def)
  next
    case False
    have "chain sl' j (sl_head sl) (level h j (with_node nb x rest i)) =
        chain sl j (sl_head sl) (level h j (with_node nb x rest i))"
      using sl'(2) False by (intro chain_cong) (auto simp: stored_def)
    moreover have "level h' j (nb @ x # rest) = level h j (with_node nb x rest i)"
      using False x by (auto simp: other with_node_def) (auto simp: h'_def)
    ultimately show ?thesis using ok j by (simp add: sl_ok_def)
  qed
  moreover have "sorted_wrt (\<lambda>y z. less (key_at sl y) (key_at sl z)) (nb @ x # rest)"
  proof -
    have "key_at sl x = key" using L by (simp add: key_at_def)
    then show ?thesis using L by (auto simp: sl_ok_def with_node_def sorted_wrt_append split: if_splits)
  qed
  moreover have "\<forall>y \<in> set (nb @ x # rest). has_key sl y \<and> 1 \<le> h' y \<and> h' y \<le> sl_max_height sl"
    using L x assms(2) by (auto simp: sl_ok_def with_node_def h'_def has_key_def split: if_splits)
  moreover have "distinct (sl_head sl # nb @ x # rest)"
    using ok x by (auto simp: sl_ok_def with_node_def split: if_splits)
  ultimately have "sl_ok sl' (nb @ x # rest) h'"
    using ok stored_frame [OF sl'(2)] by (simp add: sl_ok_def)
  moreover have "link_prev sl x prev i = Some sl'" using L sl'(1) assms(2) by (simp add: link_prev_def p_def)
  ultimately show ?thesis
    using L x sl'(2) stored_frame [OF sl'(2)] assms(2) other
    unfolding linking_def p_def [symmetric] by (simp add: h'_def with_node_def)
qed

lemma link_levels_ok:
  assumes "linking sl nb rest h key x prev i height False"
  shows "\<exists>sl' h'. link_levels sl x prev i height = Some sl' \<and>
     linking sl' nb rest h' key x prev height height False \<and> node_key sl' = node_key sl"
  using assms
proof (induction "height - i" arbitrary: sl h i)
  case 0
  then have "i = height" by (simp add: linking_def)
  then show ?case using 0 by (subst link_levels.simps) auto
next
  case (Suc n)
  then have i: "i < height" by simp
  from link_self_ok [OF Suc.prems i] obtain sl1 v where 1: "link_self sl x prev i = Some sl1"
    "linking sl1 nb rest h key x prev i height True" "stored sl x i v sl1" by blast
  from link_prev_ok [OF 1(2) i] obtain sl2 q v' where 2: "link_prev sl1 x prev i = Some sl2"
    "linking sl2 nb rest (h(x := Suc i)) key x prev (Suc i) height False" "stored sl1 q i v' sl2" by blast
  have "node_key sl2 = node_key sl"
    using stored_frame [OF 1(3)] stored_frame [OF 2(3)] by simp_all
  then show ?case
    using Suc.hyps(1) [OF _ 2(2)] Suc.hyps(2) 1(1) 2(1) i by (subst link_levels.simps) auto
qed

text \<open>The random height, and the state before the first store.\<close>

lemma random_height_loop_bounds:
  "1 \<le> height \<Longrightarrow> height \<le> kMaxHeight \<Longrightarrow>
     1 \<le> fst (random_height_loop rnd height) \<and> fst (random_height_loop rnd height) \<le> kMaxHeight"
  by (induction rnd height rule: random_height_loop.induct)
    (subst (1 2) random_height_loop.simps, auto simp: Let_def)

lemma random_height_bounds:
  "random_height rnd = (height, rnd') \<Longrightarrow> 1 \<le> height \<and> height \<le> kMaxHeight"
  using random_height_loop_bounds [of 1 rnd] by (auto simp: random_height_def kMaxHeight_def)

definition prev_for :: "'k skip_list \<Rightarrow> (addr \<Rightarrow> nat) \<Rightarrow> addr list \<Rightarrow> nat \<Rightarrow> addr option list \<Rightarrow> bool" where
  "prev_for sl h nb height prev \<longleftrightarrow> length prev = kMaxHeight \<and>
     (\<forall>j < height. prev ! j = Some (last (sl_head sl # level h j nb)))"

lemma level_above: "sl_ok sl xs h \<Longrightarrow> set ys \<subseteq> set xs \<Longrightarrow> sl_max_height sl \<le> j \<Longrightarrow> level h j ys = []"
  by (fastforce simp: sl_ok_def level_def filter_empty_conv)

lemma insert_prepare_ok:
  assumes "sl_ok sl xs h" "good key" "\<forall>x \<in> set xs. key_of (key_at sl x) \<noteq> key_of key"
  shows "\<exists>prev height rnd. insert_prepare cmp sl key = Some (prev, height, sl\<lparr>sl_rnd := rnd\<rparr>) \<and>
     1 \<le> height \<and> height \<le> kMaxHeight \<and> prev_for sl h (nodes_before sl key xs) height prev"
proof -
  let ?p = "replicate kMaxHeight None :: addr option list"
  from find_greater_or_equal_ok [OF assms(1,2), of "Some ?p"] obtain p' where
    p': "find_greater_or_equal cmp sl key (Some ?p) = Some (first (nodes_from sl key xs), Some p')"
    "prev_filled sl h key xs (sl_max_height sl - 1) ?p p'" by auto
  obtain height rnd where rh: "random_height (sl_rnd sl) = (height, rnd)" by fastforce
  have new: "(case first (nodes_from sl key xs) of None \<Rightarrow> Some True
      | Some y \<Rightarrow> do { k \<leftarrow> node_key sl y; r \<leftarrow> cmp key k; Some (r \<noteq> 0) }) = Some True"
  proof (cases "nodes_from sl key xs")
    case (Cons y ys)
    then have "y \<in> set xs" using nodes_split [of sl key xs] by (metis in_set_conv_decomp)
    then have y: "node_key sl y = Some (key_at sl y)" "good (key_at sl y)" "key_of (key_at sl y) \<noteq> key_of key"
      using assms(1,3) ok_keys key_at by blast+
    show ?thesis using Cons y by (cases rule: cmp_cases [OF assms(2) y(2)]) (auto simp: first_def)
  qed (simp add: first_def)
  define prev where "prev = map (\<lambda>i. if sl_max_height sl \<le> i \<and> i < height then Some (sl_head sl) else p' ! i)
      [0..<kMaxHeight]"
  have "prev ! j = Some (last (sl_head sl # level h j (nodes_before sl key xs)))" if "j < height" for j
  proof (cases "sl_max_height sl \<le> j")
    case True
    then have "level h j (nodes_before sl key xs) = []"
      using level_above [OF assms(1)] nodes_split [of sl key xs] by (metis Un_upper1 set_append)
    then show ?thesis using True that random_height_bounds [OF rh] by (simp add: prev_def)
  next
    case False
    then have "j \<le> sl_max_height sl - 1" by simp
    then show ?thesis using False that random_height_bounds [OF rh] p'(2)
      by (simp add: prev_def prev_filled_def last_before_def del: last.simps)
  qed
  then have "prev_for sl h (nodes_before sl key xs) height prev" by (simp add: prev_for_def prev_def del: last.simps)
  moreover have "insert_prepare cmp sl key = Some (prev, height, sl\<lparr>sl_rnd := rnd\<rparr>)"
    using p'(1) new rh by (simp add: insert_prepare_def prev_def Let_def)
  ultimately show ?thesis using random_height_bounds [OF rh] by blast
qed

text \<open>The nodes are in the arena.\<close>

definition in_arena :: "arena \<Rightarrow> 'k skip_list \<Rightarrow> bool" where
  "in_arena ar sl \<longleftrightarrow> arena_ok ar \<and> (\<forall>x. sl_nodes sl x \<noteq> None \<longrightarrow> arena_used ar x 1)"

lemma node_bytes_value: "1 \<le> n \<Longrightarrow> n \<le> kMaxHeight \<Longrightarrow> unat (node_bytes n) = 8 + 8 * n"
proof -
  assume n: "1 \<le> n" "n \<le> kMaxHeight"
  have "node_bytes n = of_nat (8 + 8 * n)"
    using n by (simp add: node_bytes_def algebra_simps)
  moreover have "8 + 8 * n < 2 ^ 64" using n by (simp add: kMaxHeight_def)
  ultimately show ?thesis by (simp only: unat_of_nat_u64)
qed

lemma allocated_in_arena:
  assumes "in_arena ar sl" "allocated ar p n ar'" "1 \<le> n"
  shows "in_arena ar' sl" "sl_nodes sl p = None" "arena_used ar' p 1"
proof -
  have mono: "arena_used ar q m \<Longrightarrow> arena_used ar' q m" for q m using assms(2) by (simp add: allocated_def)
  show "in_arena ar' sl" unfolding in_arena_def
  proof (intro conjI allI impI)
    show "arena_ok ar'" using assms(2) by (simp add: allocated_def)
    show "arena_used ar' x 1" if "sl_nodes sl x \<noteq> None" for x
      by (rule mono) (rule assms(1) [unfolded in_arena_def, THEN conjunct2, rule_format, OF that])
  qed
  have "arena_used ar' p n" using assms(2) unfolding allocated_def by blast
  then show "arena_used ar' p 1" using assms(3) by (auto simp: arena_used_def)
  show "sl_nodes sl p = None"
  proof (rule ccontr)
    assume "sl_nodes sl p \<noteq> None"
    then have "arena_used ar p 1" using assms(1) by (simp add: in_arena_def)
    then have "disjoint_ranges p 1 p n" using assms(2) unfolding allocated_def by blast
    then show False using assms(3) by (simp add: disjoint_ranges_def)
  qed
qed

lemma new_node_ok:
  assumes "in_arena ar sl" "1 \<le> height" "height \<le> kMaxHeight"
  shows "\<exists>x ar' sl'. new_node ar sl key height = Some (x, ar', sl') \<and> in_arena ar' sl' \<and>
     sl_nodes sl x = None \<and> sl' = sl\<lparr>sl_nodes := (sl_nodes sl)(x \<mapsto> \<lparr>sn_key = key, sn_next = replicate height Garbage\<rparr>)\<rparr>"
proof -
  note b = node_bytes_value [OF assms(2,3)]
  have "arena_ok ar" "node_bytes height \<noteq> 0" "unat (node_bytes height) < 2 ^ 63"
    using assms b by (auto simp: in_arena_def kMaxHeight_def)
  from allocate_aligned_allocated [OF this] obtain x ar' where
    x: "arena_allocate_aligned ar (node_bytes height) = Some (x, ar')"
    "allocated ar x (unat (node_bytes height)) ar'" by blast
  from b have "1 \<le> unat (node_bytes height)" by simp
  from allocated_in_arena [OF assms(1) x(2) this] x(1) show ?thesis
    by (auto simp: new_node_def in_arena_def)
qed

lemma fresh_node_ok:
  assumes "sl_ok sl xs h" "sl_nodes sl x = None"
  shows "x \<notin> set (sl_head sl # xs)"
    and "sl_ok (sl\<lparr>sl_nodes := (sl_nodes sl)(x \<mapsto> nd)\<rparr>) xs h"
    and "y \<noteq> x \<Longrightarrow> key_at (sl\<lparr>sl_nodes := (sl_nodes sl)(x \<mapsto> nd)\<rparr>) y = key_at sl y"
proof -
  let ?sl = "sl\<lparr>sl_nodes := (sl_nodes sl)(x \<mapsto> nd)\<rparr>"
  have "node_next sl (sl_head sl) 0 \<noteq> None"
    using chain_next [of sl 0 "sl_head sl" "level h 0 xs"] assms(1) by (simp add: sl_ok_def kMaxHeight_def)
  then have "sl_nodes sl (sl_head sl) \<noteq> None" by (cases "sl_nodes sl (sl_head sl)") (simp_all add: node_next_def)
  moreover have "\<forall>y \<in> set xs. sl_nodes sl y \<noteq> None"
    using assms(1) by (auto simp: sl_ok_def has_key_def node_key_def)
  ultimately show x: "x \<notin> set (sl_head sl # xs)" using assms(2) by auto
  have key: "node_key ?sl y = node_key sl y" "node_next ?sl y = node_next sl y" if "y \<noteq> x" for y
    using that by (auto simp: node_key_def node_next_def fun_eq_iff)
  show "key_at ?sl y = key_at sl y" if "y \<noteq> x" for y using key(1) [OF that] by (simp add: key_at_def)
  then have ka: "y \<in> set xs \<Longrightarrow> key_at ?sl y = key_at sl y" for y using x by (metis list.set_intros(2))
  have "sorted_wrt (\<lambda>y z. less (key_at ?sl y) (key_at ?sl z)) xs"
    if "sorted_wrt (\<lambda>y z. less (key_at sl y) (key_at sl z)) xs"
    using sorted_wrt_mono_rel [OF _ that] ka by simp
  moreover have "chain ?sl i (sl_head sl) (level h i xs) = chain sl i (sl_head sl) (level h i xs)" for i
    using x key(2) by (intro chain_cong) (auto, metis)
  moreover have "y \<in> set xs \<Longrightarrow> has_key ?sl y = has_key sl y" for y using x key(1) [of y] by (metis has_key_def list.set_intros(2))
  ultimately show "sl_ok ?sl xs h" using assms(1) by (simp add: sl_ok_def)
qed

lemma raise_height_ok:
  assumes "sl_ok sl xs h" "height \<le> kMaxHeight"
  shows "sl_ok (raise_height (sl\<lparr>sl_rnd := rnd\<rparr>) height) xs h"
proof -
  let ?sl = "raise_height (sl\<lparr>sl_rnd := rnd\<rparr>) height"
  have "node_next ?sl = node_next sl" "node_key ?sl = node_key sl"
    by (auto simp: raise_height_def node_next_def node_key_def fun_eq_iff)
  then have "key_at ?sl = key_at sl" "has_key ?sl = has_key sl" "chain ?sl i a ys = chain sl i a ys" for i a ys
    by (simp_all add: key_at_def has_key_def fun_eq_iff) (rule chain_cong, simp)
  then show ?thesis using assms by (auto simp: sl_ok_def raise_height_def)
qed

text \<open>What a list holds: the keys in order.\<close>

definition holds :: "arena \<Rightarrow> 'k skip_list \<Rightarrow> addr list \<Rightarrow> 'k list \<Rightarrow> bool" where
  "holds ar sl xs ks \<longleftrightarrow> in_arena ar sl \<and> (\<exists>h. sl_ok sl xs h) \<and> map (key_at sl) xs = ks"

text \<open>Where \<open>Insert\<close> starts to link: after the search, the new height and the new node.\<close>

definition keys_before :: "'k \<Rightarrow> 'k list \<Rightarrow> 'k list" where
  "keys_before key ks = takeWhile (\<lambda>k. less k key) ks"

definition keys_from :: "'k \<Rightarrow> 'k list \<Rightarrow> 'k list" where
  "keys_from key ks = dropWhile (\<lambda>k. less k key) ks"

lemma map_before_from:
  "map (key_at sl) (nodes_before sl key xs) = keys_before key (map (key_at sl) xs)"
  "map (key_at sl) (nodes_from sl key xs) = keys_from key (map (key_at sl) xs)"
  by (simp_all add: nodes_before_def nodes_from_def keys_before_def keys_from_def takeWhile_map dropWhile_map comp_def)

lemma new_node_linking:
  assumes ok: "sl_ok sl xs h" and ar: "in_arena ar sl" and key: "good key"
    and new: "\<forall>x \<in> set xs. key_of (key_at sl x) \<noteq> key_of key"
    and height: "1 \<le> height" "height \<le> sl_max_height sl"
    and prev: "prev_for sl h (nodes_before sl key xs) height prev"
  shows "\<exists>x ar' sl'. new_node ar sl key height = Some (x, ar', sl') \<and> in_arena ar' sl' \<and>
     (\<forall>y \<in> set xs. key_at sl' y = key_at sl y) \<and> sl_head sl' = sl_head sl \<and> x \<notin> set xs \<and>
     linking sl' (nodes_before sl key xs) (nodes_from sl key xs) (h(x := 0)) key x prev 0 height False"
proof -
  have "height \<le> kMaxHeight" using ok height(2) by (simp add: sl_ok_def)
  from new_node_ok [OF ar height(1) this, of key] obtain x ar' sl' where
    n: "new_node ar sl key height = Some (x, ar', sl')" "in_arena ar' sl'" "sl_nodes sl x = None"
    "sl' = sl\<lparr>sl_nodes := (sl_nodes sl)(x \<mapsto> \<lparr>sn_key = key, sn_next = replicate height Garbage\<rparr>)\<rparr>" by blast
  note f = fresh_node_ok(1) [OF ok n(3)] fresh_node_ok(2,3) [OF ok n(3),
      where nd = "\<lparr>sn_key = key, sn_next = replicate height Garbage\<rparr>", folded n(4)]
  have ks: "key_at sl' y = key_at sl y" if "y \<in> set xs" for y
    using f(3) [of y] f(1) that by (metis list.set_intros(2))
  let ?nb = "nodes_before sl key xs" and ?rest = "nodes_from sl key xs"
  have sub: "set ?nb \<subseteq> set xs" "set ?rest \<subseteq> set xs"
    using nodes_split [of sl key xs] by (metis Un_upper1 Un_upper2 set_append)+
  have head: "sl_head sl' = sl_head sl" by (simp add: n(4))
  have x: "x \<notin> set (sl_head sl' # ?nb @ ?rest)" using f(1) sub head by auto
  have lev: "level (h(x := 0)) j ys = level h j ys" if "set ys \<subseteq> set xs" for j ys
    unfolding level_def using f(1) that by (intro filter_cong) auto
  have "sl_ok sl' xs (h(x := 0))"
    using f(1,2) lev unfolding sl_ok_def by (auto simp: n(4))
  moreover have "\<forall>y \<in> set ?nb. less (key_at sl' y) key" using nodes_before_less sub ks by auto
  moreover have "\<forall>y \<in> set ?rest. less key (key_at sl' y)"
  proof
    fix y assume y: "y \<in> set ?rest"
    with sub have "y \<in> set xs" by auto
    then show "less key (key_at sl' y)"
      using nodes_from_not_less [OF ok key y] less_total [OF key, of "key_at sl y"] new ks [of y]
        ok_keys [OF ok, of y] key_at by metis
  qed
  moreover have "node_key sl' x = Some key" "next_len sl' x = height" "height \<le> sl_max_height sl'"
    using height(2) n(4) by (simp_all add: node_key_def next_len_def)
  moreover have "\<forall>j. 0 \<le> j \<longrightarrow> j < height \<longrightarrow> prev ! j = Some (last (sl_head sl' # level (h(x := 0)) j ?nb))"
    using prev lev [OF sub(1)] head by (simp add: prev_for_def del: last.simps)
  ultimately have "linking sl' ?nb ?rest (h(x := 0)) key x prev 0 height False"
    using x key by (simp add: linking_def with_node_def nodes_split del: last.simps)
  with n ks f(1) head show ?thesis by auto
qed

text \<open>The search and the new height before it; they change no node.\<close>

lemma raised_height: "height \<le> sl_max_height (raise_height sl height)"
  by (simp add: raise_height_def)

lemma raised_same:
  "sl_nodes (raise_height (sl\<lparr>sl_rnd := rnd\<rparr>) height) = sl_nodes sl"
  "sl_head (raise_height (sl\<lparr>sl_rnd := rnd\<rparr>) height) = sl_head sl"
  "key_at (raise_height (sl\<lparr>sl_rnd := rnd\<rparr>) height) = key_at sl"
  "nodes_before (raise_height (sl\<lparr>sl_rnd := rnd\<rparr>) height) = nodes_before sl"
  "nodes_from (raise_height (sl\<lparr>sl_rnd := rnd\<rparr>) height) = nodes_from sl"
  "prev_for (raise_height (sl\<lparr>sl_rnd := rnd\<rparr>) height) = prev_for sl"
  "in_arena ar (raise_height (sl\<lparr>sl_rnd := rnd\<rparr>) height) = in_arena ar sl"
  by (simp_all add: raise_height_def key_at_def node_key_def fun_eq_iff nodes_before_def nodes_from_def
      prev_for_def in_arena_def)

lemma start_linking:
  assumes ok: "sl_ok sl xs h" and ar: "in_arena ar sl" and key: "good key"
    and new: "\<forall>x \<in> set xs. key_of (key_at sl x) \<noteq> key_of key"
  shows "\<exists>prev height rnd x ar' sl'. 1 \<le> height \<and>
     insert_prepare cmp sl key = Some (prev, height, sl\<lparr>sl_rnd := rnd\<rparr>) \<and>
     new_node ar (raise_height (sl\<lparr>sl_rnd := rnd\<rparr>) height) key height = Some (x, ar', sl') \<and>
     in_arena ar' sl' \<and> (\<forall>y \<in> set xs. key_at sl' y = key_at sl y) \<and>
     linking sl' (nodes_before sl key xs) (nodes_from sl key xs) (h(x := 0)) key x prev 0 height False"
proof -
  from insert_prepare_ok [OF ok key new] obtain prev height rnd where
    p: "insert_prepare cmp sl key = Some (prev, height, sl\<lparr>sl_rnd := rnd\<rparr>)" "1 \<le> height" "height \<le> kMaxHeight"
    "prev_for sl h (nodes_before sl key xs) height prev" by blast
  from new_node_linking [of "raise_height (sl\<lparr>sl_rnd := rnd\<rparr>) height" xs h ar key height prev,
      OF raise_height_ok [OF ok p(3)]] p ar key new raised_height
  show ?thesis unfolding raised_same by blast
qed

theorem insert_ok:
  assumes "holds ar sl xs ks" "good key" "\<forall>k \<in> set ks. key_of k \<noteq> key_of key"
  shows "\<exists>ar' sl' xs'. sl_insert cmp ar sl key = Some (ar', sl') \<and>
     holds ar' sl' xs' (keys_before key ks @ key # keys_from key ks)"
proof -
  from assms(1) obtain h where h: "sl_ok sl xs h" "in_arena ar sl" "map (key_at sl) xs = ks"
    by (auto simp: holds_def)
  have "\<forall>x \<in> set xs. key_of (key_at sl x) \<noteq> key_of key" using assms(3) h(3) by auto
  from start_linking [OF h(1,2) assms(2) this] obtain prev height rnd x ar' sl1 where
    "1 \<le> height" and s: "insert_prepare cmp sl key = Some (prev, height, sl\<lparr>sl_rnd := rnd\<rparr>)"
    "new_node ar (raise_height (sl\<lparr>sl_rnd := rnd\<rparr>) height) key height = Some (x, ar', sl1)"
    "in_arena ar' sl1" "\<forall>y \<in> set xs. key_at sl1 y = key_at sl y"
    "linking sl1 (nodes_before sl key xs) (nodes_from sl key xs) (h(x := 0)) key x prev 0 height False" by blast
  from link_levels_ok [OF s(5)] obtain sl' h' where
    l: "link_levels sl1 x prev 0 height = Some sl'" "node_key sl' = node_key sl1"
    "linking sl' (nodes_before sl key xs) (nodes_from sl key xs) h' key x prev height height False" by blast
  have "height \<noteq> 0" using \<open>1 \<le> height\<close> by simp
  let ?xs = "nodes_before sl key xs @ x # nodes_from sl key xs"
  have ok: "sl_ok sl' ?xs h'" using l(3) \<open>height \<noteq> 0\<close> by (simp add: linking_def with_node_def)
  have "node_key sl' x = Some key" using l(3) by (simp add: linking_def)
  then have "key_at sl' x = key" by (simp add: key_at_def)
  moreover have "\<forall>y \<in> set xs. key_at sl' y = key_at sl y" using s(4) l(2) by (simp add: key_at_def)
  then have "map (key_at sl') (nodes_before sl key xs) = map (key_at sl) (nodes_before sl key xs)"
    "map (key_at sl') (nodes_from sl key xs) = map (key_at sl) (nodes_from sl key xs)"
    by (auto simp: nodes_before_def nodes_from_def dest: set_takeWhileD set_dropWhileD)
  ultimately have "map (key_at sl') ?xs = keys_before key ks @ key # keys_from key ks"
    using h(3) by (simp add: map_before_from)
  moreover have "sl_nodes sl' y \<noteq> None \<longrightarrow> sl_nodes sl1 y \<noteq> None" for y
    using fun_cong [OF l(2), of y] by (cases "sl_nodes sl1 y") (auto simp: node_key_def)
  then have "in_arena ar' sl'" using s(3) unfolding in_arena_def by blast
  ultimately show ?thesis using s(1,2) l(1) ok by (auto simp: sl_insert_def holds_def)
qed

end

end
