(* ===== verification/LdSkipListIter.thy ===== *)
theory LdSkipListIter
  imports LdSkipListOk
begin

text \<open>The other searches of the skip list, its iterator and its constructor.\<close>

context skip_list_keys
begin

subsection \<open>\<open>FindLessThan\<close> and \<open>FindLast\<close>\<close>

lemma search_key:
  assumes "sl_ok sl (us @ vs) h" "search_at sl h us x i" "\<forall>u \<in> set us. less (key_at sl u) key" "good key"
  shows "node_before_key cmp sl key x = Some True"
proof (cases "x = sl_head sl")
  case False
  then have "us \<noteq> []" using assms(2) by (auto simp: search_at_def)
  then have x: "x \<in> set us" using assms(2) by (simp add: search_at_def)
  then have "has_key sl x" using ok_keys [OF assms(1)] by simp
  then have k: "node_key sl x = Some (key_at sl x)" "good (key_at sl x)" using key_at by blast+
  obtain r where "cmp (key_at sl x) key = Some r" "r < 0 \<longleftrightarrow> less (key_at sl x) key"
    using cmp_cases [OF k(2) assms(4)] by metis
  then show ?thesis using k(1) assms(3) x False by (simp add: node_before_key_def)
qed (simp add: node_before_key_def)

lemma find_lt_round:
  assumes "find_ge_read cmp sl key x i = Some (after, nxt)" "node_before_key cmp sl key x = Some True"
  shows "find_lt_loop cmp sl key x i =
     (if after then case nxt of Some y \<Rightarrow> find_lt_loop cmp sl key y i | None \<Rightarrow> None
      else if i = 0 then Some x else find_lt_loop cmp sl key x (i - 1))"
proof (cases nxt)
  case None
  then show ?thesis using assms
    by (subst find_lt_loop.simps) (auto simp: find_ge_read_def key_is_after_node_def bind_eq_Some_conv)
next
  case (Some y)
  then obtain k r where "node_next sl x i = Some (Some y)" "node_key sl y = Some k" "cmp k key = Some r"
    "after = (r < 0)"
    using assms(1) by (auto simp: find_ge_read_def key_is_after_node_def bind_eq_Some_conv)
  then show ?thesis using assms(2) Some by (subst find_lt_loop.simps) auto
qed

lemma level0_part: "sl_ok sl xs h \<Longrightarrow> set ys \<subseteq> set xs \<Longrightarrow> level h 0 ys = ys"
  unfolding sl_ok_def level_def filter_id_conv by (force simp: Suc_le_eq)

lemma find_lt_loop_ok:
  assumes "sl_ok sl xs h" "xs = us @ vs" "search_at sl h us x i" "i < kMaxHeight" "good key"
    and "\<forall>u \<in> set us. less (key_at sl u) key"
  shows "find_lt_loop cmp sl key x i = Some (last (sl_head sl # nodes_before sl key xs))"
  using assms(2-6)
proof (induction "i + length vs" arbitrary: us vs x i rule: less_induct)
  case less
  note ok = assms(1) [unfolded less.prems(1)]
  note key = search_key [OF ok less.prems(2,5,4)]
  from ok less.prems(2,3,4,5) show ?case
  proof (cases rule: find_ge_read_cases)
    case (right cs y ds)
    then show ?thesis
      using less.prems search_right [of i h y sl us cs] less.hyps [of i ds "us @ cs @ [y]" y]
      by (simp add: find_lt_round [OF right(1) key])
  next
    case down
    show ?thesis
    proof (cases i)
      case 0
      have "set (nodes_before sl key vs) \<subseteq> set (us @ vs)"
        by (auto simp: nodes_before_def dest: set_takeWhileD)
      then have "nodes_before sl key vs = []" using level0_part [OF ok] down(2) 0 by simp
      then show ?thesis
        using find_lt_round [OF down(1) key] 0 less.prems(2) prefix_before [OF less.prems(1,5)]
        by (simp add: search_at_def)
    next
      case (Suc j)
      then show ?thesis
        using find_lt_round [OF down(1) key] less.prems less.hyps [of j vs us x] search_down [OF less.prems(2), of j]
        by simp
    qed
  qed
qed

lemma find_less_than_ok:
  assumes "sl_ok sl xs h" "good key"
  shows "find_less_than cmp sl key = Some (last (sl_head sl # nodes_before sl key xs))"
proof -
  have "sl_max_height sl - 1 < kMaxHeight" "sl_max_height sl \<noteq> 0" using assms(1) by (auto simp: sl_ok_def)
  then show ?thesis
    using find_lt_loop_ok [OF assms(1) _ search_start _ assms(2), of xs "sl_max_height sl - 1"]
    by (simp add: find_less_than_def del: last.simps)
qed

lemma find_last_loop_ok:
  assumes "sl_ok sl xs h" "xs = us @ vs" "search_at sl h us x i" "i < kMaxHeight"
  shows "find_last_loop sl x i = Some (last (sl_head sl # xs))"
  using assms(2-4)
proof (induction "i + length vs" arbitrary: us vs x i rule: less_induct)
  case less
  note ok = assms(1) [unfolded less.prems(1)]
  note nxt = search_next [OF ok less.prems(2,3)]
  show ?case
  proof (cases "level h i vs")
    case Nil
    show ?thesis
    proof (cases i)
      case 0
      then have "vs = []" using Nil level0 [OF ok] by simp
      then show ?thesis
        using nxt less.prems 0 by (subst find_last_loop.simps) (simp add: first_def search_at_def)
    next
      case (Suc j)
      then show ?thesis
        using nxt Nil less.prems less.hyps [of j vs us x] search_down [OF less.prems(2), of j]
        by (subst find_last_loop.simps) (simp add: first_def)
    qed
  next
    case (Cons y ys)
    then obtain cs ds where vs: "vs = cs @ y # ds" "i < h y" by (rule level_Cons)
    then show ?thesis
      using nxt Cons less.prems less.hyps [of i ds "us @ cs @ [y]" y] search_right [of i h y sl us cs]
      by (subst find_last_loop.simps) (simp add: first_def)
  qed
qed

lemma find_last_ok:
  assumes "sl_ok sl xs h"
  shows "find_last sl = Some (last (sl_head sl # xs))"
proof -
  have "sl_max_height sl - 1 < kMaxHeight" "sl_max_height sl \<noteq> 0" using assms by (auto simp: sl_ok_def)
  then show ?thesis
    using find_last_loop_ok [OF assms _ search_start, of xs "sl_max_height sl - 1"]
    by (simp add: find_last_def del: last.simps)
qed

subsection \<open>The iterator\<close>

lemma not_head_last:
  assumes "sl_ok sl xs h" "set ys \<subseteq> set xs"
  shows "not_head sl (last (sl_head sl # ys)) = (if ys = [] then None else Some (last ys))"
proof (cases "ys = []")
  case False
  then have "last ys \<in> set xs" using assms(2) last_in_set [of ys] by blast
  then show ?thesis using assms(1) False by (auto simp: not_head_def sl_ok_def)
qed (simp add: not_head_def)

lemma it_seek_ok:
  "sl_ok sl xs h \<Longrightarrow> good key \<Longrightarrow> it_seek cmp sl key = Some (first (nodes_from sl key xs))"
  using find_greater_or_equal_ok [of sl xs h key None] by (auto simp: it_seek_def)

lemma it_seek_to_first_ok: "sl_ok sl xs h \<Longrightarrow> it_seek_to_first sl = Some (first xs)"
  using search_next [OF _ search_start, of sl xs h 0] level0 [of sl "[]" xs h]
  by (simp add: it_seek_to_first_def kMaxHeight_def)

lemma it_seek_to_last_ok:
  "sl_ok sl xs h \<Longrightarrow> it_seek_to_last sl = Some (if xs = [] then None else Some (last xs))"
  using not_head_last [of sl xs h xs] find_last_ok [of sl xs h]
  by (simp add: it_seek_to_last_def del: last.simps)

lemma node_pos: "sl_ok sl (us @ x # vs) h \<Longrightarrow> search_at sl h (us @ [x]) x 0"
  by (auto simp: search_at_def sl_ok_def Suc_le_eq)

lemma it_next_ok: "sl_ok sl (us @ x # vs) h \<Longrightarrow> it_next sl (Some x) = Some (first vs)"
  using search_next [of sl "us @ [x]" vs h x 0] node_pos [of sl us x vs h] level0 [of sl "us @ [x]" vs h]
  by (simp add: it_next_def kMaxHeight_def)

lemma key_ok: "sl_ok sl xs h \<Longrightarrow> x \<in> set xs \<Longrightarrow> it_key sl (Some x) = Some (key_at sl x)"
  using ok_keys key_at by (auto simp: it_key_def)

lemma it_prev_ok:
  assumes "sl_ok sl (us @ x # vs) h"
  shows "it_prev cmp sl (Some x) = Some (if us = [] then None else Some (last us))"
proof -
  have x: "has_key sl x" "node_key sl x = Some (key_at sl x)" "good (key_at sl x)"
    using ok_keys [OF assms, of x] key_at by auto
  have "\<forall>u \<in> set us. less (key_at sl u) (key_at sl x)" "\<not> less (key_at sl x) (key_at sl x)"
    using assms less_irrefl [OF x(3)] by (simp_all add: sl_ok_def sorted_wrt_append)
  then have "nodes_before sl (key_at sl x) (us @ x # vs) = us"
    by (simp add: nodes_before_def takeWhile_append2)
  then show ?thesis
    using find_less_than_ok [OF assms x(3)] x(2) not_head_last [OF assms, of us, OF subset_trans [OF _ subset_refl]]
    by (simp add: it_prev_def it_key_def subset_insertI2 del: last.simps)
qed

lemma contains_ok:
  assumes "sl_ok sl xs h" "good key"
  shows "sl_contains cmp sl key = Some (\<exists>x \<in> set xs. key_of (key_at sl x) = key_of key)"
proof -
  from find_greater_or_equal_ok [OF assms, of None]
  have find: "find_greater_or_equal cmp sl key None = Some (first (nodes_from sl key xs), None)
    \<or> (\<exists>p. find_greater_or_equal cmp sl key None = Some (first (nodes_from sl key xs), p))" by auto
  have before: "key_of (key_at sl x) \<noteq> key_of key" if "x \<in> set (nodes_before sl key xs)" for x
  proof
    assume eq: "key_of (key_at sl x) = key_of key"
    from that have "x \<in> set xs" using set_takeWhileD unfolding nodes_before_def by metis
    then have "good (key_at sl x)" using ok_keys [OF assms(1)] key_at by blast
    with nodes_before_less [OF that] eq show False
      using before_irrefl good_valid unfolding less_def by metis
  qed
  show ?thesis
  proof (cases "nodes_from sl key xs")
    case Nil
    then have "nodes_before sl key xs = xs" using nodes_split [of sl key xs] by simp
    then show ?thesis using find before Nil by (auto simp: sl_contains_def first_def)
  next
    case (Cons y ys)
    have xs: "xs = nodes_before sl key xs @ y # ys" using Cons nodes_split [of sl key xs] by simp
    then have "y \<in> set xs" by (metis in_set_conv_decomp)
    then have y: "node_key sl y = Some (key_at sl y)" "good (key_at sl y)"
      using ok_keys [OF assms(1)] key_at by blast+
    obtain r where r: "cmp key (key_at sl y) = Some r" "r = 0 \<longleftrightarrow> key_of key = key_of (key_at sl y)"
      using cmp_cases [OF assms(2) y(2)] by metis
    have "key_of (key_at sl z) \<noteq> key_of key" if "z \<in> set ys" for z
    proof
      assume eq: "key_of (key_at sl z) = key_of key"
      have "sorted_wrt (\<lambda>x y. less (key_at sl x) (key_at sl y)) (nodes_before sl key xs @ y # ys)"
        using assms(1) xs by (metis sl_ok_def)
      then have "less (key_at sl y) (key_at sl z)" using that by (simp add: sorted_wrt_append)
      then have "less (key_at sl y) key" using eq by (simp add: less_def)
      then show False using nodes_from_not_less [OF assms, of y] Cons by simp
    qed
    then have "(\<exists>x \<in> set xs. key_of (key_at sl x) = key_of key) \<longleftrightarrow> r = 0"
      using before r(2) by (subst xs) auto
    then show ?thesis using find Cons y r(1) by (auto simp: sl_contains_def first_def)
  qed
qed

subsection \<open>The empty list\<close>

lemma clear_head_ok:
  "n \<le> next_len sl (sl_head sl) \<Longrightarrow> \<exists>sl'. clear_head n sl = Some sl' \<and>
     (\<forall>j < n. node_next sl' (sl_head sl) j = Some None) \<and> node_key sl' = node_key sl \<and>
     next_len sl' = next_len sl \<and> sl_head sl' = sl_head sl \<and> sl_max_height sl' = sl_max_height sl"
proof (induction n)
  case (Suc n)
  then obtain sl1 where 1: "clear_head n sl = Some sl1" "\<forall>j < n. node_next sl1 (sl_head sl) j = Some None"
    "node_key sl1 = node_key sl" "next_len sl1 = next_len sl" "sl_head sl1 = sl_head sl"
    "sl_max_height sl1 = sl_max_height sl" by auto
  from Suc.prems 1 node_set_next_stored [of n sl1 "sl_head sl" None] obtain sl2 where
    2: "node_set_next sl1 (sl_head sl) n None = Some sl2" "stored sl1 (sl_head sl) n None sl2" by auto
  show ?case
    using 1 2 by (intro exI [of _ sl2]) (auto simp: stored_def less_Suc_eq)
qed simp

lemma skip_list_ok:
  assumes "arena_ok ar"
  shows "\<exists>ar' sl. skip_list zero ar = Some (ar', sl) \<and> holds ar' sl [] []"
proof -
  let ?sl = "\<lparr>sl_head = Addr 0 0, sl_max_height = 1, sl_rnd = random_seed 0xdeadbeef, sl_nodes = Map.empty\<rparr>"
  have "in_arena ar ?sl" using assms by (simp add: in_arena_def)
  from new_node_ok [OF this, of kMaxHeight zero] obtain x ar' sl1 where
    1: "new_node ar ?sl zero kMaxHeight = Some (x, ar', sl1)" "in_arena ar' sl1"
    "sl1 = ?sl\<lparr>sl_nodes := [x \<mapsto> \<lparr>sn_key = zero, sn_next = replicate kMaxHeight Garbage\<rparr>]\<rparr>"
    by (auto simp: kMaxHeight_def)
  let ?sl1 = "sl1\<lparr>sl_head := x\<rparr>"
  have "kMaxHeight \<le> next_len ?sl1 (sl_head ?sl1)" using 1(3) by (simp add: next_len_def)
  from clear_head_ok [OF this] obtain sl2 where
    2: "clear_head kMaxHeight ?sl1 = Some sl2" "\<forall>j < kMaxHeight. node_next sl2 x j = Some None"
    "node_key sl2 = node_key ?sl1" "sl_head sl2 = x" "sl_max_height sl2 = 1"
    using 1(3) by auto
  have "sl_nodes sl2 y \<noteq> None \<longrightarrow> sl_nodes sl1 y \<noteq> None" for y
    using fun_cong [OF 2(3), of y] by (cases "sl_nodes sl1 y") (auto simp: node_key_def)
  then have "in_arena ar' sl2" using 1(2) unfolding in_arena_def by blast
  moreover have "sl_ok sl2 [] (\<lambda>_. 0)" using 2 by (simp add: sl_ok_def kMaxHeight_def)
  ultimately show ?thesis using 1(1) 2(1) by (auto simp: skip_list_def Let_def holds_def)
qed

end

end
