(* ===== verification/LdSkipListConc.thy ===== *)
theory LdSkipListConc
  imports LdSkipListIter
begin

text \<open>
  Readers of a skip list while it is written (\<open>db/skiplist.h\<close>, "Thread safety").

  One thread inserts, and any number of threads search and iterate without a lock.  A step of the
  system is one load or store of shared memory by one of them: the writer's steps are those of
  \<open>sl_insert\<close> in its order, where the search (it reads only what the writer wrote itself) is one step;
  a reader's are the load of \<open>max_height_\<close> and the loads of links.  The keys of nodes never change.
  Steps are in one order for all threads, as the release stores and acquire loads of the links
  provide.
\<close>

datatype 'k sl_writer =
    WriterIdle
  | WriterRaise 'k "addr option list" nat
  | WriterNew 'k "addr option list" nat
  | WriterLink 'k addr "addr option list" nat nat bool

datatype 'k sl_reader =
    ReaderIdle
  | ReaderSeek 'k addr nat
  | ReaderAt sl_iter

record 'k sl_system =
  sy_arena :: arena
  sy_list :: "'k skip_list"
  sy_writer :: "'k sl_writer"
  sy_readers :: "nat \<Rightarrow> 'k sl_reader"

definition sy_reader_at :: "'k sl_system \<Rightarrow> nat \<Rightarrow> 'k sl_reader \<Rightarrow> 'k sl_system" where
  "sy_reader_at s r x = s\<lparr>sy_readers := (sy_readers s)(r := x)\<rparr>"

text \<open>\<open>WriterLink key x prev i height own\<close> is the last loop of \<open>Insert\<close> before round \<open>i\<close>, or between its
  two stores when \<open>own\<close> holds.  \<open>ReaderSeek key x level\<close> is the loop of \<open>FindGreaterOrEqual\<close>.\<close>

inductive sl_step :: "('k \<Rightarrow> 'k \<Rightarrow> int option) \<Rightarrow> ('k \<Rightarrow> bool) \<Rightarrow> 'k sl_system \<Rightarrow> 'k sl_system \<Rightarrow> bool"
  for cmp :: "'k \<Rightarrow> 'k \<Rightarrow> int option" and good :: "'k \<Rightarrow> bool"
where
  insert_begin: "sy_writer s = WriterIdle \<Longrightarrow> good key \<Longrightarrow>
     insert_prepare cmp (sy_list s) key = Some (prev, height, sl) \<Longrightarrow>
     sl_step cmp good s (s\<lparr>sy_list := sl, sy_writer := WriterRaise key prev height\<rparr>)"
| insert_raise: "sy_writer s = WriterRaise key prev height \<Longrightarrow>
     sl_step cmp good s (s\<lparr>sy_list := raise_height (sy_list s) height, sy_writer := WriterNew key prev height\<rparr>)"
| insert_new: "sy_writer s = WriterNew key prev height \<Longrightarrow>
     new_node (sy_arena s) (sy_list s) key height = Some (x, ar, sl) \<Longrightarrow>
     sl_step cmp good s
       (s\<lparr>sy_arena := ar, sy_list := sl, sy_writer := WriterLink key x prev 0 height False\<rparr>)"
| insert_self: "sy_writer s = WriterLink key x prev i height False \<Longrightarrow> i < height \<Longrightarrow>
     link_self (sy_list s) x prev i = Some sl \<Longrightarrow>
     sl_step cmp good s (s\<lparr>sy_list := sl, sy_writer := WriterLink key x prev i height True\<rparr>)"
| insert_prev: "sy_writer s = WriterLink key x prev i height True \<Longrightarrow> i < height \<Longrightarrow>
     link_prev (sy_list s) x prev i = Some sl \<Longrightarrow>
     sl_step cmp good s (s\<lparr>sy_list := sl, sy_writer := WriterLink key x prev (Suc i) height False\<rparr>)"
| insert_end: "sy_writer s = WriterLink key x prev height height False \<Longrightarrow>
     sl_step cmp good s (s\<lparr>sy_writer := WriterIdle\<rparr>)"
| seek_begin: "sy_readers s r = ReaderIdle \<or> sy_readers s r = ReaderAt n \<Longrightarrow> good key \<Longrightarrow>
     sl_step cmp good s (sy_reader_at s r
       (ReaderSeek key (sl_head (sy_list s)) (sl_max_height (sy_list s) - 1)))"
| seek_right: "sy_readers s r = ReaderSeek key x level \<Longrightarrow>
     find_ge_read cmp (sy_list s) key x level = Some (True, Some y) \<Longrightarrow>
     sl_step cmp good s (sy_reader_at s r (ReaderSeek key y level))"
| seek_down: "sy_readers s r = ReaderSeek key x level \<Longrightarrow>
     find_ge_read cmp (sy_list s) key x level = Some (False, n) \<Longrightarrow> level \<noteq> 0 \<Longrightarrow>
     sl_step cmp good s (sy_reader_at s r (ReaderSeek key x (level - 1)))"
| seek_end: "sy_readers s r = ReaderSeek key x 0 \<Longrightarrow>
     find_ge_read cmp (sy_list s) key x 0 = Some (False, n) \<Longrightarrow>
     sl_step cmp good s (sy_reader_at s r (ReaderAt n))"
| first_step: "sy_readers s r = ReaderIdle \<or> sy_readers s r = ReaderAt m \<Longrightarrow>
     it_seek_to_first (sy_list s) = Some n \<Longrightarrow>
     sl_step cmp good s (sy_reader_at s r (ReaderAt n))"
| next_step: "sy_readers s r = ReaderAt (Some x) \<Longrightarrow> it_next (sy_list s) (Some x) = Some n \<Longrightarrow>
     sl_step cmp good s (sy_reader_at s r (ReaderAt n))"

inductive_cases sl_stepE: "sl_step cmp good s s'"

definition sl_system :: "arena \<Rightarrow> 'k skip_list \<Rightarrow> 'k sl_system" where
  "sl_system ar sl = \<lparr>sy_arena = ar, sy_list = sl, sy_writer = WriterIdle, sy_readers = (\<lambda>_. ReaderIdle)\<rparr>"

inductive sl_reachable ::
    "('k \<Rightarrow> 'k \<Rightarrow> int option) \<Rightarrow> ('k \<Rightarrow> bool) \<Rightarrow> 'k sl_system \<Rightarrow> 'k sl_system \<Rightarrow> bool"
  for cmp :: "'k \<Rightarrow> 'k \<Rightarrow> int option" and good :: "'k \<Rightarrow> bool" and s0 :: "'k sl_system"
where
  reach_start: "sl_reachable cmp good s0 s0"
| reach_step: "sl_reachable cmp good s0 s \<Longrightarrow> sl_step cmp good s s' \<Longrightarrow> sl_reachable cmp good s0 s'"

lemma reach_trans:
  "sl_reachable cmp good s1 s2 \<Longrightarrow> sl_reachable cmp good s0 s1 \<Longrightarrow> sl_reachable cmp good s0 s2"
  by (induction rule: sl_reachable.induct) (blast intro: sl_reachable.intros)+

context skip_list_keys
begin

subsection \<open>What a reader may rely on\<close>

text \<open>The writer only adds nodes, and links nodes on more levels.\<close>

definition grows ::
    "'k skip_list \<Rightarrow> addr list \<Rightarrow> (addr \<Rightarrow> nat) \<Rightarrow> 'k skip_list \<Rightarrow> addr list \<Rightarrow> (addr \<Rightarrow> nat) \<Rightarrow> bool" where
  "grows sl xs h sl' xs' h' \<longleftrightarrow> sl_head sl' = sl_head sl \<and> set xs \<subseteq> set xs' \<and>
     (\<forall>y \<in> set xs. h y \<le> h' y \<and> key_at sl' y = key_at sl y)"

definition reader_ok :: "'k skip_list \<Rightarrow> addr list \<Rightarrow> (addr \<Rightarrow> nat) \<Rightarrow> 'k sl_reader \<Rightarrow> bool" where
  "reader_ok sl xs h rd \<longleftrightarrow>
     (case rd of
        ReaderIdle \<Rightarrow> True
      | ReaderSeek key x i \<Rightarrow> good key \<and> i < kMaxHeight \<and>
          (x = sl_head sl \<or> x \<in> set xs \<and> i < h x \<and> less (key_at sl x) key)
      | ReaderAt n \<Rightarrow> (\<forall>x. n = Some x \<longrightarrow> x \<in> set xs))"

lemma reader_grows: "reader_ok sl xs h rd \<Longrightarrow> grows sl xs h sl' xs' h' \<Longrightarrow> reader_ok sl' xs' h' rd"
  by (auto simp: reader_ok_def grows_def split: sl_reader.splits intro: less_le_trans)

text \<open>Where a searching reader stands in the list as it is now.\<close>

lemma reader_position:
  assumes "sl_ok sl xs h" "reader_ok sl xs h (ReaderSeek key x i)"
  obtains us vs where "xs = us @ vs" "search_at sl h us x i" "i < kMaxHeight" "good key"
    "\<forall>u \<in> set us. less (key_at sl u) key"
proof (cases "x = sl_head sl")
  case True
  then show thesis using assms(2) search_start [of sl h i] by (intro that [of "[]" xs]) (simp_all add: reader_ok_def)
next
  case False
  then have x: "x \<in> set xs" "i < h x" "less (key_at sl x) key" "i < kMaxHeight" "good key"
    using assms(2) by (simp_all add: reader_ok_def)
  then obtain us vs where xs: "xs = us @ x # vs" by (meson split_list)
  have "\<forall>u \<in> set ([] @ us @ [x]). less (key_at sl u) key"
    using assms(1) x xs by (intro before_extend [of sl "[]" us x vs h key]) auto
  then show thesis using x xs search_right [of i h x sl us "[]"] by (intro that [of "us @ [x]" vs]) auto
qed

text \<open>A search never stops: its load is of a link that was stored, and its test of a key that is
  there.  At its last load it finds the first node from the key on in the list of that moment.\<close>

lemma reader_cases:
  assumes "sl_ok sl xs h" "reader_ok sl xs h (ReaderSeek key x i)"
  obtains (right) y where "find_ge_read cmp sl key x i = Some (True, Some y)"
      "reader_ok sl xs h (ReaderSeek key y i)"
  | (down) n where "find_ge_read cmp sl key x i = Some (False, n)" "\<And>j. j \<le> i \<Longrightarrow> reader_ok sl xs h (ReaderSeek key x j)"
      "i = 0 \<Longrightarrow> n = first (nodes_from sl key xs)"
proof -
  from reader_position [OF assms] obtain us vs where
    p: "xs = us @ vs" "search_at sl h us x i" "i < kMaxHeight" "good key" "\<forall>u \<in> set us. less (key_at sl u) key" .
  note ok = assms(1) [unfolded p(1)]
  from ok p(2-5) show thesis
  proof (cases rule: find_ge_read_cases)
    case (right cs y ds)
    with p show thesis by (intro that(1) [of y]) (simp_all add: reader_ok_def)
  next
    case down
    show thesis
    proof (rule that(2) [OF down(1)])
      show "reader_ok sl xs h (ReaderSeek key x j)" if "j \<le> i" for j
        using assms(2) that by (auto simp: reader_ok_def)
      assume "i = 0"
      moreover have "set (nodes_before sl key vs) \<subseteq> set (us @ vs)"
        by (auto simp: nodes_before_def dest: set_takeWhileD)
      ultimately have "nodes_before sl key vs = []" using level0_part [OF ok] down(2) by simp
      then have "nodes_from sl key vs = vs" using nodes_split [of sl key vs] by simp
      then show "first (level h i vs) = first (nodes_from sl key xs)"
        using prefix_before(2) [OF p(1,5)] level0 [OF ok] \<open>i = 0\<close> by simp
    qed
  qed
qed

subsection \<open>The invariant of the system\<close>

definition fresh_key :: "'k skip_list \<Rightarrow> addr list \<Rightarrow> 'k \<Rightarrow> bool" where
  "fresh_key sl xs key \<longleftrightarrow> good key \<and> (\<forall>x \<in> set xs. key_of (key_at sl x) \<noteq> key_of key)"

definition writer_ok :: "'k skip_list \<Rightarrow> addr list \<Rightarrow> (addr \<Rightarrow> nat) \<Rightarrow> 'k sl_writer \<Rightarrow> bool" where
  "writer_ok sl xs h w \<longleftrightarrow>
     (case w of
        WriterIdle \<Rightarrow> True
      | WriterRaise key prev height \<Rightarrow> fresh_key sl xs key \<and> 1 \<le> height \<and> height \<le> kMaxHeight \<and>
          prev_for sl h (nodes_before sl key xs) height prev
      | WriterNew key prev height \<Rightarrow> fresh_key sl xs key \<and> 1 \<le> height \<and> height \<le> sl_max_height sl \<and>
          prev_for sl h (nodes_before sl key xs) height prev
      | WriterLink key x prev i height own \<Rightarrow>
          (\<exists>nb rest. xs = with_node nb x rest i \<and> linking sl nb rest h key x prev i height own))"

definition system_ok :: "'k sl_system \<Rightarrow> addr list \<Rightarrow> (addr \<Rightarrow> nat) \<Rightarrow> bool" where
  "system_ok s xs h \<longleftrightarrow> sl_ok (sy_list s) xs h \<and> in_arena (sy_arena s) (sy_list s) \<and>
     writer_ok (sy_list s) xs h (sy_writer s) \<and> (\<forall>r. reader_ok (sy_list s) xs h (sy_readers s r))"

text \<open>A step keeps the invariant and only lets the list grow.\<close>

definition keeps_ok ::
    "'k sl_system \<Rightarrow> addr list \<Rightarrow> (addr \<Rightarrow> nat) \<Rightarrow> 'k sl_system \<Rightarrow> addr list \<Rightarrow> (addr \<Rightarrow> nat) \<Rightarrow> bool" where
  "keeps_ok s xs h s' xs' h' \<longleftrightarrow> system_ok s' xs' h' \<and> grows (sy_list s) xs h (sy_list s') xs' h'"

lemma keeps_system_ok: "keeps_ok s xs h s' xs' h' \<Longrightarrow> system_ok s' xs' h'"
  by (simp add: keeps_ok_def)

lemma grows_refl: "grows sl xs h sl xs h"
  by (simp add: grows_def)

lemma grows_trans:
  assumes "grows sl xs h sl1 xs1 h1" "grows sl1 xs1 h1 sl2 xs2 h2"
  shows "grows sl xs h sl2 xs2 h2"
  unfolding grows_def
proof (intro conjI ballI)
  show "sl_head sl2 = sl_head sl" using assms unfolding grows_def by simp
  show "set xs \<subseteq> set xs2" using assms unfolding grows_def by blast
  fix y
  assume y: "y \<in> set xs"
  then have "y \<in> set xs1" using assms(1) unfolding grows_def by blast
  with y assms have "h y \<le> h1 y" "h1 y \<le> h2 y" "key_at sl1 y = key_at sl y" "key_at sl2 y = key_at sl1 y"
    unfolding grows_def by blast+
  then show "h y \<le> h2 y" "key_at sl2 y = key_at sl y" by simp_all
qed

lemma writer_step_ok:
  assumes "system_ok s xs h" "sy_readers s' = sy_readers s" "sl_ok (sy_list s') xs' h'"
    "in_arena (sy_arena s') (sy_list s')" "writer_ok (sy_list s') xs' h' (sy_writer s')"
    "grows (sy_list s) xs h (sy_list s') xs' h'"
  shows "keeps_ok s xs h s' xs' h'"
  using assms reader_grows unfolding keeps_ok_def system_ok_def by metis

lemma reader_step_ok:
  assumes "system_ok s xs h" "reader_ok (sy_list s) xs h rd"
  shows "keeps_ok s xs h (sy_reader_at s r rd) xs h"
  using assms by (auto simp: keeps_ok_def system_ok_def sy_reader_at_def grows_refl)

lemma prepared_fresh:
  assumes "sl_ok sl xs h" "good key" "insert_prepare cmp sl key = Some p"
  shows "fresh_key sl xs key"
proof (rule ccontr)
  assume "\<not> fresh_key sl xs key"
  then obtain x where x: "x \<in> set xs" "key_of (key_at sl x) = key_of key" using assms(2) by (auto simp: fresh_key_def)
  let ?p = "replicate kMaxHeight None :: addr option list"
  from contains_ok [OF assms(1,2)] x have c: "sl_contains cmp sl key = Some True" by auto
  from find_greater_or_equal_ok [OF assms(1,2), of "Some ?p"] find_greater_or_equal_ok [OF assms(1,2), of None]
  obtain p' q where "find_greater_or_equal cmp sl key (Some ?p) = Some (first (nodes_from sl key xs), p')"
    "find_greater_or_equal cmp sl key None = Some (first (nodes_from sl key xs), q)" by auto
  then show False using c assms(3)
    by (auto simp: sl_contains_def insert_prepare_def bind_eq_Some_conv split: option.splits)
qed

lemma rnd_ok: "sl_ok sl xs h \<Longrightarrow> sl_ok (sl\<lparr>sl_rnd := rnd\<rparr>) xs h"
  using raise_height_ok [of sl xs h 0 rnd] by (simp add: raise_height_def)

lemma same_frame:
  assumes "node_key sl' = node_key sl" "sl_head sl' = sl_head sl"
  shows "key_at sl' = key_at sl" "nodes_before sl' = nodes_before sl" "prev_for sl' = prev_for sl"
    "fresh_key sl' = fresh_key sl" "grows sl xs h sl' xs h"
  using assms by (simp_all add: key_at_def nodes_before_def prev_for_def fresh_key_def grows_def fun_eq_iff)

subsection \<open>Every step keeps it\<close>

lemma insert_begin_ok:
  assumes "system_ok s xs h" "good key" "insert_prepare cmp (sy_list s) key = Some (prev, height, sl)"
  shows "keeps_ok s xs h (s\<lparr>sy_list := sl, sy_writer := WriterRaise key prev height\<rparr>) xs h"
proof -
  from assms(1) have ok: "sl_ok (sy_list s) xs h" "in_arena (sy_arena s) (sy_list s)" by (simp_all add: system_ok_def)
  note fresh = prepared_fresh [OF ok(1) assms(2,3)]
  from insert_prepare_ok [OF ok(1) assms(2)] fresh assms(3) obtain rnd where
    p: "sl = (sy_list s)\<lparr>sl_rnd := rnd\<rparr>" "1 \<le> height" "height \<le> kMaxHeight"
    "prev_for (sy_list s) h (nodes_before (sy_list s) key xs) height prev" by (auto simp: fresh_key_def)
  have "node_key sl = node_key (sy_list s)" "sl_head sl = sl_head (sy_list s)"
    by (simp_all add: p(1) node_key_def fun_eq_iff)
  note same = same_frame [OF this]
  have "in_arena (sy_arena s) sl" using ok(2) by (simp add: p(1) in_arena_def)
  then show ?thesis
    using rnd_ok [OF ok(1), of rnd] fresh p same by (intro writer_step_ok [OF assms(1)]) (simp_all add: writer_ok_def)
qed

lemma insert_raise_ok:
  assumes "system_ok s xs h" "sy_writer s = WriterRaise key prev height"
  shows "keeps_ok s xs h (s\<lparr>sy_list := raise_height (sy_list s) height, sy_writer := WriterNew key prev height\<rparr>) xs h"
proof -
  from assms have ok: "sl_ok (sy_list s) xs h" "in_arena (sy_arena s) (sy_list s)"
    and w: "fresh_key (sy_list s) xs key" "1 \<le> height" "height \<le> kMaxHeight"
    "prev_for (sy_list s) h (nodes_before (sy_list s) key xs) height prev"
    by (simp_all add: system_ok_def writer_ok_def)
  let ?sl = "raise_height (sy_list s) height"
  have "node_key ?sl = node_key (sy_list s)" "sl_head ?sl = sl_head (sy_list s)"
    by (simp_all add: raise_height_def node_key_def fun_eq_iff)
  note same = same_frame [OF this]
  have "(sy_list s)\<lparr>sl_rnd := sl_rnd (sy_list s)\<rparr> = sy_list s" by simp
  then have "sl_ok ?sl xs h" using raise_height_ok [OF ok(1) w(3), of "sl_rnd (sy_list s)"] by simp
  moreover have "in_arena (sy_arena s) ?sl" using ok(2) by (simp add: raise_height_def in_arena_def)
  ultimately show ?thesis
    using w same raised_height by (intro writer_step_ok [OF assms(1)]) (simp_all add: writer_ok_def)
qed

lemma insert_new_ok:
  assumes "system_ok s xs h" "sy_writer s = WriterNew key prev height"
    and "new_node (sy_arena s) (sy_list s) key height = Some (x, ar, sl)"
  shows "\<exists>h'. keeps_ok s xs h (s\<lparr>sy_arena := ar, sy_list := sl, sy_writer := WriterLink key x prev 0 height False\<rparr>) xs h'"
proof -
  from assms(1,2) have ok: "sl_ok (sy_list s) xs h" "in_arena (sy_arena s) (sy_list s)"
    and w: "fresh_key (sy_list s) xs key" "1 \<le> height" "height \<le> sl_max_height (sy_list s)"
    "prev_for (sy_list s) h (nodes_before (sy_list s) key xs) height prev"
    by (simp_all add: system_ok_def writer_ok_def)
  from new_node_linking [OF ok _ _ w(2-4)] w(1) assms(3) have
    n: "in_arena ar sl" "\<forall>y \<in> set xs. key_at sl y = key_at (sy_list s) y" "sl_head sl = sl_head (sy_list s)"
    "x \<notin> set xs" "linking sl (nodes_before (sy_list s) key xs) (nodes_from (sy_list s) key xs)
       (h(x := 0)) key x prev 0 height False"
    by (auto simp: fresh_key_def)
  have "xs = with_node (nodes_before (sy_list s) key xs) x (nodes_from (sy_list s) key xs) 0"
    by (simp add: with_node_def nodes_split)
  then have "writer_ok sl xs (h(x := 0)) (WriterLink key x prev 0 height False)" using n(5) by (auto simp: writer_ok_def)
  moreover have "sl_ok sl xs (h(x := 0))" using n(5) by (simp add: linking_def with_node_def nodes_split)
  moreover have "grows (sy_list s) xs h sl xs (h(x := 0))" using n by (auto simp: grows_def)
  ultimately show ?thesis using n(1) by (intro exI writer_step_ok [OF assms(1)]) simp_all
qed

lemma stored_in_arena: "in_arena ar sl \<Longrightarrow> stored sl x n p sl' \<Longrightarrow> in_arena ar sl'"
proof -
  assume ar: "in_arena ar sl" and st: "stored sl x n p sl'"
  have "sl_nodes sl' y \<noteq> None \<longrightarrow> sl_nodes sl y \<noteq> None" for y
    using fun_cong [OF stored_frame(6) [OF st], of y] by (cases "sl_nodes sl y") (auto simp: node_key_def)
  then show "in_arena ar sl'" using ar unfolding in_arena_def by blast
qed

lemma insert_self_ok:
  assumes "system_ok s xs h" "sy_writer s = WriterLink key x prev i height False" "i < height"
    and "link_self (sy_list s) x prev i = Some sl"
  shows "keeps_ok s xs h (s\<lparr>sy_list := sl, sy_writer := WriterLink key x prev i height True\<rparr>) xs h"
proof -
  from assms(1,2) obtain nb rest where l: "xs = with_node nb x rest i"
    "linking (sy_list s) nb rest h key x prev i height False" "in_arena (sy_arena s) (sy_list s)"
    by (auto simp: system_ok_def writer_ok_def)
  from link_self_ok [OF l(2) assms(3)] assms(4) have n: "linking sl nb rest h key x prev i height True"
    "stored (sy_list s) x i (first (level h i rest)) sl" by auto
  note same = same_frame(5) [OF stored_frame(6,3) [OF n(2)]]
  show ?thesis
  proof (rule writer_step_ok [OF assms(1), where xs' = xs and h' = h])
    show "writer_ok (sy_list (s\<lparr>sy_list := sl, sy_writer := WriterLink key x prev i height True\<rparr>)) xs h
      (sy_writer (s\<lparr>sy_list := sl, sy_writer := WriterLink key x prev i height True\<rparr>))"
      using l(1) n(1) by (auto simp: writer_ok_def)
  qed (use l n same stored_in_arena in \<open>auto simp: linking_def\<close>)
qed

lemma with_node_subset: "set (with_node nb x rest i) \<subseteq> set (with_node nb x rest (Suc i))"
  by (auto simp: with_node_def)

lemma insert_prev_ok:
  assumes "system_ok s xs h" "sy_writer s = WriterLink key x prev i height True" "i < height"
    and "link_prev (sy_list s) x prev i = Some sl"
  shows "\<exists>xs' h'. keeps_ok s xs h (s\<lparr>sy_list := sl, sy_writer := WriterLink key x prev (Suc i) height False\<rparr>) xs' h'"
proof -
  from assms(1,2) obtain nb rest where l: "xs = with_node nb x rest i"
    "linking (sy_list s) nb rest h key x prev i height True" "in_arena (sy_arena s) (sy_list s)"
    by (auto simp: system_ok_def writer_ok_def)
  let ?h = "h(x := Suc i)" and ?xs = "with_node nb x rest (Suc i)"
  from link_prev_ok [OF l(2) assms(3)] assms(4) obtain q where
    n: "linking sl nb rest ?h key x prev (Suc i) height False" "stored (sy_list s) q i (Some x) sl" by auto
  have "h x = i" using l(2) by (simp add: linking_def)
  then have "grows (sy_list s) xs h sl ?xs ?h"
    using stored_frame [OF n(2)] with_node_subset [of nb x rest i] l(1) by (auto simp: grows_def)
  moreover have "writer_ok sl ?xs ?h (WriterLink key x prev (Suc i) height False)" using n(1) by (auto simp: writer_ok_def)
  moreover have "sl_ok sl ?xs ?h" using n(1) by (simp add: linking_def)
  ultimately show ?thesis using stored_in_arena [OF l(3) n(2)]
    by (intro exI [of _ ?xs] exI [of _ ?h] writer_step_ok [OF assms(1)]) simp_all
qed

lemma position_ok: "sl_ok sl xs h \<Longrightarrow> x \<in> set xs \<Longrightarrow> it_next sl (Some x) = Some n \<Longrightarrow> reader_ok sl xs h (ReaderAt n)"
  using it_next_ok [of sl _ x] by (fastforce simp: reader_ok_def first_def dest!: split_list split: list.splits)

lemma step_ok:
  assumes "sl_step cmp good s s'" "system_ok s xs h"
  shows "\<exists>xs' h'. keeps_ok s xs h s' xs' h'"
  using assms(1)
proof (cases rule: sl_stepE [consumes 1, case_names insert_begin insert_raise insert_new insert_self
      insert_prev insert_end seek_begin seek_right seek_down seek_end first_step next_step])
  case (insert_begin key prev height sl)
  then show ?thesis using insert_begin_ok [OF assms(2)] by blast
next
  case (insert_raise key prev height)
  then show ?thesis using insert_raise_ok [OF assms(2)] by blast
next
  case (insert_new key prev height x ar sl)
  then show ?thesis using insert_new_ok [OF assms(2)] by blast
next
  case (insert_self key x prev i height sl)
  then show ?thesis using insert_self_ok [OF assms(2)] by blast
next
  case (insert_prev key x prev i height sl)
  then show ?thesis using insert_prev_ok [OF assms(2)] by blast
next
  case (insert_end key x prev height)
  have "keeps_ok s xs h s' xs h"
    using assms(2) insert_end by (intro writer_step_ok [OF assms(2)])
      (simp_all add: system_ok_def writer_ok_def grows_def)
  then show ?thesis by blast
next
  case (seek_begin r n key)
  have "sl_max_height (sy_list s) - 1 < kMaxHeight" using assms(2) by (auto simp: system_ok_def sl_ok_def)
  then have "reader_ok (sy_list s) xs h (ReaderSeek key (sl_head (sy_list s)) (sl_max_height (sy_list s) - 1))"
    using seek_begin by (simp add: reader_ok_def)
  from reader_step_ok [OF assms(2) this] seek_begin(1) show ?thesis by auto
next
  case (seek_right r key x level y)
  have "sl_ok (sy_list s) xs h" "reader_ok (sy_list s) xs h (ReaderSeek key x level)"
    using assms(2) seek_right(2) by (auto simp: system_ok_def simp del: all_simps dest: spec [of _ r])
  then have "reader_ok (sy_list s) xs h (ReaderSeek key y level)"
    by (cases rule: reader_cases) (use seek_right in auto)
  then show ?thesis using reader_step_ok [OF assms(2)] seek_right(1) by blast
next
  case (seek_down r key x level n)
  have "sl_ok (sy_list s) xs h" "reader_ok (sy_list s) xs h (ReaderSeek key x level)"
    using assms(2) seek_down(2) by (auto simp: system_ok_def simp del: all_simps dest: spec [of _ r])
  then have "reader_ok (sy_list s) xs h (ReaderSeek key x (level - 1))"
    by (cases rule: reader_cases) (use seek_down in auto)
  from reader_step_ok [OF assms(2) this] seek_down(1) show ?thesis by auto
next
  case (seek_end r key x n)
  have ok: "sl_ok (sy_list s) xs h" "reader_ok (sy_list s) xs h (ReaderSeek key x 0)"
    using assms(2) seek_end(2) by (auto simp: system_ok_def simp del: all_simps dest: spec [of _ r])
  then have "n = first (nodes_from (sy_list s) key xs)"
    by (cases rule: reader_cases) (use seek_end in auto)
  moreover have "set (nodes_from (sy_list s) key xs) \<subseteq> set xs"
    by (auto simp: nodes_from_def dest: set_dropWhileD)
  ultimately have "reader_ok (sy_list s) xs h (ReaderAt n)"
    by (auto simp: reader_ok_def first_def split: list.splits)
  then show ?thesis using reader_step_ok [OF assms(2)] seek_end(1) by blast
next
  case (first_step r m n)
  have "sl_ok (sy_list s) xs h" using assms(2) by (simp add: system_ok_def)
  from it_seek_to_first_ok [OF this] first_step have "reader_ok (sy_list s) xs h (ReaderAt n)"
    by (auto simp: reader_ok_def first_def split: list.splits)
  then show ?thesis using reader_step_ok [OF assms(2)] first_step(1) by blast
next
  case (next_step r x n)
  have "sl_ok (sy_list s) xs h" "reader_ok (sy_list s) xs h (ReaderAt (Some x))"
    using assms(2) next_step(2) by (auto simp: system_ok_def simp del: all_simps dest: spec [of _ r])
  then have "reader_ok (sy_list s) xs h (ReaderAt n)"
    using position_ok next_step(3) by (simp add: reader_ok_def)
  then show ?thesis using reader_step_ok [OF assms(2)] next_step(1) by blast
qed

lemma reachable_ok:
  assumes "sl_reachable cmp good s0 s" "system_ok s0 xs0 h0"
  shows "\<exists>xs h. keeps_ok s0 xs0 h0 s xs h"
  using assms
proof (induction rule: sl_reachable.induct)
  case reach_start
  then show ?case unfolding keeps_ok_def using grows_refl by blast
next
  case (reach_step s s')
  then obtain xs h where 1: "system_ok s xs h" "grows (sy_list s0) xs0 h0 (sy_list s) xs h" by (auto simp: keeps_ok_def)
  from step_ok [OF reach_step.hyps(2) 1(1)] show ?case using grows_trans [OF 1(2)] by (fastforce simp: keeps_ok_def)
qed

lemma start_ok: "holds ar sl xs ks \<Longrightarrow> \<exists>h. system_ok (sl_system ar sl) xs h"
  by (auto simp: holds_def system_ok_def sl_system_def writer_ok_def reader_ok_def)

subsection \<open>What the readers get\<close>

lemma system_reader:
  "system_ok s xs h \<Longrightarrow> sl_ok (sy_list s) xs h \<and> reader_ok (sy_list s) xs h (sy_readers s r)"
  by (simp add: system_ok_def)

text \<open>The nodes of the list at a moment, by its links on level 0.\<close>

lemma ok_chain:
  assumes "sl_ok sl xs h"
  shows "chain sl 0 (sl_head sl) xs"
proof -
  have "chain sl 0 (sl_head sl) (level h 0 xs)" using assms by (simp add: sl_ok_def kMaxHeight_def)
  then show ?thesis using level0_part [OF assms] by simp
qed

lemma ok_sorted: "sl_ok sl xs h \<Longrightarrow>
    (\<forall>x \<in> set xs. has_key sl x) \<and> sorted_wrt (\<lambda>x y. less (key_at sl x) (key_at sl y)) xs"
  by (simp add: sl_ok_def)

lemma seek_result:
  assumes "system_ok s xs h" "sl_step cmp good s s'"
    and "sy_readers s r = ReaderSeek key x i" "sy_readers s' r = ReaderAt n"
  shows "n = first (nodes_from (sy_list s) key xs)"
proof -
  have read: "find_ge_read cmp (sy_list s) key x i = Some (False, n) \<and> i = 0"
    using assms(2-4) by (cases rule: sl_step.cases) (auto simp: sy_reader_at_def split: if_splits)
  from system_reader [OF assms(1), of r] assms(3)
  have "sl_ok (sy_list s) xs h" "reader_ok (sy_list s) xs h (ReaderSeek key x i)" by simp_all
  then show ?thesis by (cases rule: reader_cases) (use read in auto)
qed

text \<open>A reader can finish its search by its own steps, whatever the other threads are at.\<close>

lemma seek_ends:
  assumes "system_ok s xs h" "sy_readers s r = ReaderSeek key x i"
  shows "sl_reachable cmp good s (sy_reader_at s r (ReaderAt (first (nodes_from (sy_list s) key xs))))"
proof -
  have ok: "sl_ok (sy_list s) xs h" using assms(1) by (simp add: system_ok_def)
  have "reader_ok (sy_list s) xs h (ReaderSeek key x i)" using system_reader [OF assms(1), of r] assms(2) by simp
  from reader_position [OF ok this] obtain us vs where
    "xs = us @ vs" "search_at (sy_list s) h us x i" "i < kMaxHeight" "good key"
    "\<forall>u \<in> set us. less (key_at (sy_list s) u) key" .
  then have "sl_reachable cmp good (sy_reader_at s r (ReaderSeek key x i))
      (sy_reader_at s r (ReaderAt (first (nodes_from (sy_list s) key xs))))"
  proof (induction "i + length vs" arbitrary: us vs x i rule: less_induct)
    case less
    let ?s = "sy_reader_at s r (ReaderSeek key x i)"
    have same: "sy_list ?s = sy_list s" "sy_readers ?s r = ReaderSeek key x i"
      "sy_reader_at ?s r y = sy_reader_at s r y" for y
      by (simp_all add: sy_reader_at_def)
    have step: "sl_reachable cmp good ?s t" if "sl_step cmp good ?s s1" "sl_reachable cmp good s1 t" for s1 t
      using that by (blast intro: sl_reachable.intros reach_trans)
    note ok' = ok [unfolded less.prems(1)]
    from ok' less.prems(2-5) show ?case
    proof (cases rule: find_ge_read_cases)
      case (right cs y ds)
      have "sl_reachable cmp good (sy_reader_at s r (ReaderSeek key y i))
        (sy_reader_at s r (ReaderAt (first (nodes_from (sy_list s) key xs))))"
        using right less.prems search_right [of i h y "sy_list s" us cs]
        by (intro less.hyps [of i ds "us @ cs @ [y]" y]) simp_all
      then show ?thesis
        using step sl_step.seek_right [of ?s r key x i cmp y good] right(1) same by simp
    next
      case down
      show ?thesis
      proof (cases i)
        case 0
        have "reader_ok (sy_list s) xs h (ReaderSeek key x 0)"
          using system_reader [OF assms(1), of r] less.prems 0 ok'
          by (auto simp: reader_ok_def search_at_def sl_ok_def Suc_le_eq)
        from ok this have "first (level h i vs) = first (nodes_from (sy_list s) key xs)"
          by (cases rule: reader_cases) (use down(1) 0 in auto)
        then show ?thesis
          using step [of "sy_reader_at s r (ReaderAt (first (level h i vs)))"]
            sl_step.seek_end [of ?s r key x cmp "first (level h i vs)" good] down(1) same 0
          by (auto intro: sl_reachable.intros)
      next
        case (Suc j)
        have "sl_reachable cmp good (sy_reader_at s r (ReaderSeek key x j))
          (sy_reader_at s r (ReaderAt (first (nodes_from (sy_list s) key xs))))"
          using Suc less.prems search_down [OF less.prems(2), of j] by (intro less.hyps [of j vs us x]) simp_all
        then show ?thesis
          using step sl_step.seek_down [of ?s r key x i cmp "first (level h i vs)" good] down(1) same Suc by simp
      qed
    qed
  qed
  moreover have "sy_reader_at s r (ReaderSeek key x i) = s" using assms(2) by (simp add: sy_reader_at_def fun_upd_idem)
  ultimately show ?thesis by simp
qed

end

end
