(* ===== verification/LdSkipListLive.thy ===== *)
theory LdSkipListLive
  imports LdSkipListConc
begin

text \<open>Progress of the threads of \<open>LdSkipListConc\<close>: no thread of a reachable state is stuck, and each
  can finish what it is at by its own steps.\<close>

context skip_list_keys
begin

lemma link_ends:
  assumes "system_ok s xs h" "sy_writer s = WriterLink key x prev i height False"
  shows "\<exists>s'. sl_reachable cmp good s s' \<and> sy_writer s' = WriterIdle \<and> sy_readers s' = sy_readers s"
  using assms
proof (induction "height - i" arbitrary: s xs h i)
  case 0
  from "0.prems" have "i \<le> height" by (auto simp: system_ok_def writer_ok_def linking_def)
  with 0 have "sl_step cmp good s (s\<lparr>sy_writer := WriterIdle\<rparr>)" by (intro insert_end) simp_all
  then show ?case by (intro exI [of _ "s\<lparr>sy_writer := WriterIdle\<rparr>"]) (auto intro: sl_reachable.intros)
next
  case (Suc n)
  then have i: "i < height" by simp
  from Suc.prems obtain nb rest where "linking (sy_list s) nb rest h key x prev i height False"
    by (auto simp: system_ok_def writer_ok_def)
  from link_self_ok [OF this i] obtain sl1 where 1: "link_self (sy_list s) x prev i = Some sl1" by blast
  let ?s1 = "s\<lparr>sy_list := sl1, sy_writer := WriterLink key x prev i height True\<rparr>"
  have step1: "sl_step cmp good s ?s1" using Suc.prems(2) i 1 by (rule insert_self)
  have ok1: "system_ok ?s1 xs h" using insert_self_ok [OF Suc.prems(1,2) i 1] by (rule keeps_system_ok)
  then obtain nb rest where "linking sl1 nb rest h key x prev i height True"
    by (auto simp: system_ok_def writer_ok_def)
  from link_prev_ok [OF this i] obtain sl2 where 2: "link_prev sl1 x prev i = Some sl2" by blast
  let ?s2 = "?s1\<lparr>sy_list := sl2, sy_writer := WriterLink key x prev (Suc i) height False\<rparr>"
  have step2: "sl_step cmp good ?s1 ?s2" using i 2 by (intro insert_prev) simp_all
  have "sy_writer ?s1 = WriterLink key x prev i height True" "link_prev (sy_list ?s1) x prev i = Some sl2"
    using 2 by simp_all
  from insert_prev_ok [OF ok1 this(1) i this(2)] obtain xs' h' where ok2: "system_ok ?s2 xs' h'" by (blast dest: keeps_system_ok)
  have n: "n = height - Suc i" using Suc.hyps(2) by simp
  obtain s' where s': "sl_reachable cmp good ?s2 s'" "sy_writer s' = WriterIdle" "sy_readers s' = sy_readers ?s2"
    using Suc.hyps(1) [OF n ok2] by auto
  have "sl_reachable cmp good s ?s2" using step1 step2 by (blast intro: sl_reachable.intros)
  from reach_trans [OF s'(1) this] s'(2,3) show ?case by auto
qed

lemma insert_ends:
  assumes "system_ok s xs h"
  shows "\<exists>s'. sl_reachable cmp good s s' \<and> sy_writer s' = WriterIdle \<and> sy_readers s' = sy_readers s"
proof -
  have new: "\<exists>s'. sl_reachable cmp good s s' \<and> sy_writer s' = WriterIdle \<and> sy_readers s' = sy_readers s"
    if ok: "system_ok s xs h" and w: "sy_writer s = WriterNew key prev height" for s key prev height
  proof -
    from ok w obtain x ar sl where n: "new_node (sy_arena s) (sy_list s) key height = Some (x, ar, sl)"
      using new_node_linking [of "sy_list s" xs h "sy_arena s" key height prev]
      by (auto simp: system_ok_def writer_ok_def fresh_key_def)
    let ?s1 = "s\<lparr>sy_arena := ar, sy_list := sl, sy_writer := WriterLink key x prev 0 height False\<rparr>"
    have step: "sl_step cmp good s ?s1" using w n by (rule insert_new)
    from insert_new_ok [OF ok w n] obtain h' where "system_ok ?s1 xs h'" by (blast dest: keeps_system_ok)
    from link_ends [OF this] obtain s' where "sl_reachable cmp good ?s1 s'" "sy_writer s' = WriterIdle"
      "sy_readers s' = sy_readers s" by auto
    moreover have "sl_reachable cmp good s ?s1" using step by (blast intro: sl_reachable.intros)
    ultimately show ?thesis using reach_trans by blast
  qed
  have link: "\<exists>s'. sl_reachable cmp good s s' \<and> sy_writer s' = WriterIdle \<and> sy_readers s' = sy_readers s"
    if w: "sy_writer s = WriterLink key x prev i height True" for key x prev i height
  proof -
    from assms w obtain nb rest where l: "linking (sy_list s) nb rest h key x prev i height True"
      by (auto simp: system_ok_def writer_ok_def)
    show ?thesis
    proof (cases "i < height")
      case True
      from link_prev_ok [OF l True] obtain sl where sl: "link_prev (sy_list s) x prev i = Some sl" by blast
      let ?s1 = "s\<lparr>sy_list := sl, sy_writer := WriterLink key x prev (Suc i) height False\<rparr>"
      have step: "sl_step cmp good s ?s1" using w True sl by (rule insert_prev)
      from insert_prev_ok [OF assms w True sl] obtain xs' h' where "system_ok ?s1 xs' h'" by (blast dest: keeps_system_ok)
      from link_ends [OF this] obtain s' where "sl_reachable cmp good ?s1 s'" "sy_writer s' = WriterIdle"
        "sy_readers s' = sy_readers s" by auto
      moreover have "sl_reachable cmp good s ?s1" using step by (blast intro: sl_reachable.intros)
      ultimately show ?thesis using reach_trans by blast
    next
      case False
      then have "node_next (sy_list s) x i = Some (first (level h i rest))" "next_len (sy_list s) x \<le> i"
        using l unfolding linking_def by auto
      then show ?thesis using node_next_len by fastforce
    qed
  qed
  show ?thesis
  proof (cases "sy_writer s")
    case WriterIdle
    then show ?thesis by (blast intro: sl_reachable.intros)
  next
    case (WriterRaise key prev height)
    let ?s1 = "s\<lparr>sy_list := raise_height (sy_list s) height, sy_writer := WriterNew key prev height\<rparr>"
    have step: "sl_step cmp good s ?s1" using WriterRaise by (rule insert_raise)
    from new [OF insert_raise_ok [OF assms WriterRaise, THEN keeps_system_ok]] obtain s' where "sl_reachable cmp good ?s1 s'"
      "sy_writer s' = WriterIdle" "sy_readers s' = sy_readers s" by auto
    moreover have "sl_reachable cmp good s ?s1" using step by (blast intro: sl_reachable.intros)
    ultimately show ?thesis using reach_trans by blast
  next
    case (WriterNew key prev height)
    with new assms show ?thesis by blast
  next
    case (WriterLink key x prev i height own)
    then show ?thesis using link link_ends [OF assms] by (cases own) auto
  qed
qed

end

end
