(* ===== verification/LdMemTable.thy ===== *)
theory LdMemTable
  imports LdSkipListLive LdDbFormatOk LdStatus
begin

text \<open>
  \<open>MemTable\<close> (\<open>db/memtable.h\<close>, \<open>db/memtable.cc\<close>): a skip list of entries in an arena.

  A pointer to an entry is the bytes from there to the end of its buffer.  The null key of the head
  is the empty list, which no search looks at.
\<close>

text \<open>\<open>GetVarint32Ptr(p, p + 5, &len)\<close>: the number and the bytes behind it.\<close>

definition entry_varint32 :: "u8 list \<Rightarrow> (u32 \<times> u8 list) option" where
  "entry_varint32 p =
     do {
       (len, rest) \<leftarrow> get_varint32_ptr (take 5 p);
       Some (len, drop (length (take 5 p) - length rest) p)
     }"

text \<open>\<open>GetLengthPrefixedSlice(data)\<close>: the slice and the bytes behind it.\<close>

definition entry_slice :: "u8 list \<Rightarrow> (slice \<times> u8 list) option" where
  "entry_slice data =
     do {
       (len, p) \<leftarrow> entry_varint32 data;
       if unat len \<le> length p then Some (take (unat len) p, drop (unat len) p) else None
     }"

definition entry_compare :: "comparator \<Rightarrow> u8 list \<Rightarrow> u8 list \<Rightarrow> int option" where
  "entry_compare icmp aptr bptr =
     do {
       (a, _) \<leftarrow> entry_slice aptr;
       (b, _) \<leftarrow> entry_slice bptr;
       compare icmp a b
     }"

definition encode_key :: "slice \<Rightarrow> u8 list" where
  "encode_key target = put_varint32 [] (of_nat (length target)) @ target"

record mem_table =
  mt_user :: comparator
  mt_refs :: int
  mt_arena :: arena
  mt_table :: "u8 list skip_list"

text \<open>The comparison function of the table, over the comparator of the user's keys.\<close>

definition mt_compare :: "comparator \<Rightarrow> u8 list \<Rightarrow> u8 list \<Rightarrow> int option" where
  "mt_compare user = entry_compare (internal_comparator user)"

definition mem_table :: "comparator \<Rightarrow> mem_table option" where
  "mem_table user =
     map_option (\<lambda>(ar, sl). \<lparr>mt_user = user, mt_refs = 0, mt_arena = ar, mt_table = sl\<rparr>)
       (skip_list [] arena)"

definition mt_ref :: "mem_table \<Rightarrow> mem_table" where
  "mt_ref mt = mt\<lparr>mt_refs := mt_refs mt + 1\<rparr>"

text \<open>\<open>Unref\<close>: the memtable, or \<open>None\<close> inside when it was deleted.\<close>

definition mt_unref :: "mem_table \<Rightarrow> mem_table option option" where
  "mt_unref mt =
     (let refs = mt_refs mt - 1 in
      if refs < 0 then None else if refs \<le> 0 then Some None else Some (Some (mt\<lparr>mt_refs := refs\<rparr>)))"

definition mt_approximate_memory_usage :: "mem_table \<Rightarrow> u64" where
  "mt_approximate_memory_usage mt = ar_memory_usage (mt_arena mt)"

definition entry_bytes :: "u64 \<Rightarrow> value_type \<Rightarrow> slice \<Rightarrow> slice \<Rightarrow> u8 list" where
  "entry_bytes s t key v =
     encode_varint32 (of_nat (length key + 8)) @ key @
     encode_fixed64 (push_bit 8 s OR ucast (value_type_code t)) @
     encode_varint32 (of_nat (length v)) @ v"

definition mt_add :: "u64 \<Rightarrow> value_type \<Rightarrow> slice \<Rightarrow> slice \<Rightarrow> mem_table \<Rightarrow> mem_table option" where
  "mt_add s t key v mt =
     (let encoded_len = of_int (varint_length (of_nat (length key + 8))) + of_nat (length key + 8) +
          of_int (varint_length (of_nat (length v))) + of_nat (length v);
          buf = entry_bytes s t key v in
      do {
        (_, ar) \<leftarrow> arena_allocate (mt_arena mt) encoded_len;
        if of_nat (length buf) \<noteq> encoded_len then None
        else
          do {
            (ar, sl) \<leftarrow> sl_insert (mt_compare (mt_user mt)) ar (mt_table mt) buf;
            Some (mt\<lparr>mt_arena := ar, mt_table := sl\<rparr>)
          }
      })"

text \<open>\<open>Get\<close> returns false (\<open>None\<close>), or true with the value or the status it sets.\<close>

definition mt_get :: "mem_table \<Rightarrow> lookup_key \<Rightarrow> (slice + status) option option" where
  "mt_get mt key =
     do {
       iter \<leftarrow> it_seek (mt_compare (mt_user mt)) (mt_table mt) (drop (lk_start key) (lk_buf key));
       if \<not> it_valid iter then Some None
       else
         do {
           entry \<leftarrow> it_key (mt_table mt) iter;
           (key_length, key_ptr) \<leftarrow> entry_varint32 entry;
           let n = unat (key_length - 8);
           if n > length key_ptr then None
           else
             do {
               r \<leftarrow> compare (mt_user mt) (take n key_ptr) (lk_user_key key);
               if r = 0 then
                 do {
                   tag \<leftarrow> decode_fixed64 (drop n key_ptr);
                   (case value_type_of (ucast (tag AND 0xff)) of
                      Some KTypeValue \<Rightarrow>
                        do {
                          (v, _) \<leftarrow> entry_slice (drop (unat key_length) key_ptr);
                          Some (Some (Inl v))
                        }
                    | Some KTypeDeletion \<Rightarrow> Some (Some (Inr (make_status KNotFound [] [])))
                    | None \<Rightarrow> Some None)
                 }
               else Some None
             }
         }
     }"

subsection \<open>\<open>MemTableIterator\<close>\<close>

definition mi_seek :: "mem_table \<Rightarrow> slice \<Rightarrow> sl_iter option" where
  "mi_seek mt k = it_seek (mt_compare (mt_user mt)) (mt_table mt) (encode_key k)"

definition mi_seek_to_first :: "mem_table \<Rightarrow> sl_iter option" where
  "mi_seek_to_first mt = it_seek_to_first (mt_table mt)"

definition mi_seek_to_last :: "mem_table \<Rightarrow> sl_iter option" where
  "mi_seek_to_last mt = it_seek_to_last (mt_table mt)"

definition mi_next :: "mem_table \<Rightarrow> sl_iter \<Rightarrow> sl_iter option" where
  "mi_next mt i = it_next (mt_table mt) i"

definition mi_prev :: "mem_table \<Rightarrow> sl_iter \<Rightarrow> sl_iter option" where
  "mi_prev mt i = it_prev (mt_compare (mt_user mt)) (mt_table mt) i"

definition mi_key :: "mem_table \<Rightarrow> sl_iter \<Rightarrow> slice option" where
  "mi_key mt i = do { e \<leftarrow> it_key (mt_table mt) i; (k, _) \<leftarrow> entry_slice e; Some k }"

definition mi_value :: "mem_table \<Rightarrow> sl_iter \<Rightarrow> slice option" where
  "mi_value mt i =
     do { e \<leftarrow> it_key (mt_table mt) i; (k, rest) \<leftarrow> entry_slice e; (v, _) \<leftarrow> entry_slice rest; Some v }"

end
