(* ===== verification/LdMemTableOk.thy ===== *)
theory LdMemTableOk
  imports LdMemTable
begin

text \<open>
  A memtable is the sequence of its entries in the order of internal keys: \<open>Add\<close> puts an entry in its
  place, and \<open>Get\<close> finds the newest entry of a key that is not newer than the sequence number it is
  given.
\<close>

subsection \<open>Entries\<close>

record mt_entry =
  me_seq :: u64
  me_type :: value_type
  me_key :: slice
  me_value :: slice

definition me_tag :: "mt_entry \<Rightarrow> u64" where
  "me_tag e = push_bit 8 (me_seq e) OR ucast (value_type_code (me_type e))"

definition me_ikey :: "mt_entry \<Rightarrow> slice" where
  "me_ikey e = me_key e @ encode_fixed64 (me_tag e)"

definition me_bytes :: "mt_entry \<Rightarrow> u8 list" where
  "me_bytes e = entry_bytes (me_seq e) (me_type e) (me_key e) (me_value e)"

definition me_small :: "mt_entry \<Rightarrow> bool" where
  "me_small e \<longleftrightarrow> me_seq e \<le> kMaxSequenceNumber \<and> length (me_key e) + 8 < 2 ^ 32 \<and> length (me_value e) < 2 ^ 32"

lemma entry_varint32_encode: "entry_varint32 (encode_varint32 n @ r) = Some (n, r)"
proof -
  have "length (encode_varint32 n) \<le> 5" by (rule length_encode_varint32)
  then have "take 5 (encode_varint32 n @ r) = encode_varint32 n @ take (5 - length (encode_varint32 n)) r"
    by simp
  then show ?thesis by (simp add: entry_varint32_def)
qed

lemma unat_u32_of_nat: "n < 2 ^ 32 \<Longrightarrow> unat (of_nat n :: u32) = n"
  by (simp add: unsigned_of_nat take_bit_nat_eq_self)

lemma entry_slice_encode:
  "length k < 2 ^ 32 \<Longrightarrow> entry_slice (encode_varint32 (of_nat (length k)) @ k @ r) = Some (k, r)"
  by (simp add: entry_slice_def entry_varint32_encode unat_u32_of_nat)

lemma me_bytes_eq:
  "me_bytes e = encode_varint32 (of_nat (length (me_ikey e))) @ me_ikey e @
     encode_varint32 (of_nat (length (me_value e))) @ me_value e"
  by (simp add: me_bytes_def entry_bytes_def me_ikey_def me_tag_def add.commute)

lemma me_slice:
  "me_small e \<Longrightarrow> entry_slice (me_bytes e) =
     Some (me_ikey e, encode_varint32 (of_nat (length (me_value e))) @ me_value e)"
  unfolding me_bytes_eq by (rule entry_slice_encode) (simp add: me_small_def me_ikey_def)

text \<open>Tags are ordered by sequence number and then by type.\<close>

lemma tag_value:
  assumes "unat seq < 2 ^ 56"
  shows "unat (push_bit 8 seq OR ucast (c :: u8) :: u64) = unat seq * 256 + unat c"
proof -
  have "push_bit 8 seq OR ucast c = push_bit 8 seq + (ucast c :: u64)"
    by (rule disjunctive_add_eq_or [symmetric], rule bit_word_eqI) (auto simp: bit_simps dest: bit_imp_le_length)
  moreover have "unat (push_bit 8 seq) = unat seq * 256"
    using assms by (simp add: push_bit_eq_mult unat_word_ariths)
  moreover have "unat (ucast c :: u64) = unat c"
    using unat_u8_less [of c] by (simp add: unsigned_ucast_eq take_bit_nat_eq_self del: unat_u8_less)
  moreover have "unat seq * 256 + unat c < 2 ^ 64"
    using assms unat_u8_less [of c] by (simp del: unat_u8_less)
  ultimately show ?thesis by (simp add: unat_word_ariths)
qed

lemma code_less: "unat (value_type_code t) \<le> 1"
  by (cases t) (simp_all add: value_type_code_def)

lemma me_tag_value: "me_small e \<Longrightarrow> unat (me_tag e) = unat (me_seq e) * 256 + unat (value_type_code (me_type e))"
  unfolding me_tag_def by (rule tag_value) (simp only: me_small_def max_sequence)

definition seek_tag :: "u64 \<Rightarrow> u64" where
  "seek_tag s = push_bit 8 s OR ucast (value_type_code kValueTypeForSeek)"

lemma me_tag_le_seek:
  assumes "me_small e" "s \<le> kMaxSequenceNumber"
  shows "me_tag e \<le> seek_tag s \<longleftrightarrow> me_seq e \<le> s"
proof -
  have "unat (seek_tag s) = unat s * 256 + 1"
    unfolding seek_tag_def using assms(2)
    by (subst tag_value) (simp_all add: max_sequence kValueTypeForSeek_def value_type_code_def)
  then show ?thesis
    using me_tag_value [OF assms(1)] code_less [of "me_type e"] by (auto simp: word_le_nat_alt)
qed

lemma me_tag_mono: "me_small e \<Longrightarrow> me_small e' \<Longrightarrow> me_tag e \<le> me_tag e' \<Longrightarrow> me_seq e \<le> me_seq e'"
  using code_less [of "me_type e'"] code_less [of "me_type e"] by (simp add: word_le_nat_alt me_tag_value)

lemma me_tag_type: "ucast (me_tag e AND 0xff) = value_type_code (me_type e)"
  unfolding me_tag_def by (rule tag_type)

lemma entry_length:
  assumes "me_small e"
  shows "(of_int (varint_length (of_nat (length (me_key e) + 8))) + of_nat (length (me_key e) + 8) +
     of_int (varint_length (of_nat (length (me_value e)))) + of_nat (length (me_value e)) :: u64) =
     of_nat (length (me_bytes e))"
    and "0 < length (me_bytes e)" "length (me_bytes e) < 2 ^ 64"
proof -
  have v: "varint_length (of_nat n) = int (length (encode_varint32 (of_nat n)))" if "n < 2 ^ 32" for n
    using that by (simp add: varint_length_eq encode_varint64_eq encode_varint32_eq unat_u32_of_nat unat_of_nat_u64)
  have small: "length (me_key e) + 8 < 2 ^ 32" "length (me_value e) < 2 ^ 32" using assms by (simp_all add: me_small_def)
  have len: "length (me_bytes e) = length (encode_varint32 (of_nat (length (me_key e) + 8))) + (length (me_key e) + 8) +
      length (encode_varint32 (of_nat (length (me_value e)))) + length (me_value e)"
    by (simp add: me_bytes_def entry_bytes_def)
  show "(of_int (varint_length (of_nat (length (me_key e) + 8))) + of_nat (length (me_key e) + 8) +
     of_int (varint_length (of_nat (length (me_value e)))) + of_nat (length (me_value e)) :: u64) =
     of_nat (length (me_bytes e))"
    unfolding v [OF small(1)] v [OF small(2)] len by (simp only: of_int_of_nat_eq of_nat_add)
  show "0 < length (me_bytes e)" unfolding len by simp
  show "length (me_bytes e) < 2 ^ 64"
    using small length_encode_varint32 [of "of_nat (length (me_key e) + 8)"]
      length_encode_varint32 [of "of_nat (length (me_value e))"] unfolding len by simp
qed

subsection \<open>What a lookup is to find\<close>

text \<open>What \<open>Get\<close> reports of an entry.\<close>

definition me_result :: "mt_entry \<Rightarrow> slice + status" where
  "me_result e = (case me_type e of KTypeValue \<Rightarrow> Inl (me_value e) | KTypeDeletion \<Rightarrow> Inr (make_status KNotFound [] []))"

text \<open>The entries of a key that a lookup may see, and the newest of them.\<close>

definition visible :: "slice \<Rightarrow> u64 \<Rightarrow> mt_entry \<Rightarrow> bool" where
  "visible k s e \<longleftrightarrow> me_key e = k \<and> me_seq e \<le> s"

definition newest_result :: "mt_entry set \<Rightarrow> slice \<Rightarrow> u64 \<Rightarrow> (slice + status) option \<Rightarrow> bool" where
  "newest_result E k s r \<longleftrightarrow>
     (case r of
        None \<Rightarrow> \<forall>e \<in> E. \<not> visible k s e
      | Some x \<Rightarrow> \<exists>e \<in> E. visible k s e \<and> x = me_result e \<and> (\<forall>e' \<in> E. visible k s e' \<longrightarrow> me_tag e' \<le> me_tag e))"

text \<open>Entries added one after the other.\<close>

primrec mt_add_all :: "mt_entry list \<Rightarrow> mem_table \<Rightarrow> mem_table option" where
  "mt_add_all [] mt = Some mt"
| "mt_add_all (e # es) mt =
     Option.bind (mt_add (me_seq e) (me_type e) (me_key e) (me_value e) mt) (mt_add_all es)"

subsection \<open>The order of the table\<close>

definition entry_key :: "u8 list \<Rightarrow> slice" where
  "entry_key e = fst (the (entry_slice e))"

locale mem_table_keys = comparator_laws user valid
  for user :: comparator and valid :: "slice \<Rightarrow> bool"
begin

definition good_entry :: "u8 list \<Rightarrow> bool" where
  "good_entry e \<longleftrightarrow> (\<exists>k r. entry_slice e = Some (k, r) \<and> internal_valid k)"

end

sublocale mem_table_keys \<subseteq>
  mem: skip_list_keys "internal_comparator user" internal_valid "mt_compare user" good_entry entry_key
  by (intro skip_list_keys.intro internal_laws skip_list_keys_axioms.intro)
    (auto simp: good_entry_def entry_key_def mt_compare_def entry_compare_def)

context mem_table_keys
begin

subsection \<open>\<open>Add\<close>\<close>

definition entry_ok :: "mt_entry \<Rightarrow> bool" where
  "entry_ok e \<longleftrightarrow> me_small e \<and> valid (me_key e)"

definition mt_holds :: "mem_table \<Rightarrow> mt_entry list \<Rightarrow> bool" where
  "mt_holds mt es \<longleftrightarrow> mt_user mt = user \<and> (\<forall>e \<in> set es. entry_ok e) \<and>
     (\<exists>xs. mem.holds (mt_arena mt) (mt_table mt) xs (map me_bytes es))"

lemma entry_good: "entry_ok e \<Longrightarrow> good_entry (me_bytes e) \<and> entry_key (me_bytes e) = me_ikey e"
  by (auto simp: good_entry_def entry_key_def entry_ok_def me_slice me_ikey_def)

lemma less_entry: "mem.less a b \<longleftrightarrow> mem.before (entry_key a) (entry_key b)"
  by (simp add: mem.less_def)

lemma mem_before: "internal_valid a \<Longrightarrow> internal_valid b \<Longrightarrow> mem.before a b \<longleftrightarrow> internal_before a b"
  unfolding mem.before_def using internal_compare_sign [of a b] by (auto simp: internal_comparator_def)

lemma mem_table_ok: "\<exists>mt. mem_table user = Some mt \<and> mt_holds mt []"
  using mem.skip_list_ok [OF arena_ok_empty, of "[]"] by (auto simp: mem_table_def mt_holds_def)

lemma mt_add_ok:
  assumes "mt_holds mt es" "entry_ok e" "\<forall>e' \<in> set es. me_ikey e' \<noteq> me_ikey e"
  shows "\<exists>mt' es'. mt_add (me_seq e) (me_type e) (me_key e) (me_value e) mt = Some mt' \<and>
     mt_holds mt' es' \<and> set es' = insert e (set es)"
proof -
  from assms(1) obtain xs where h: "mt_user mt = user" "\<forall>e \<in> set es. entry_ok e"
    "mem.holds (mt_arena mt) (mt_table mt) xs (map me_bytes es)" by (auto simp: mt_holds_def)
  have small: "me_small e" using assms(2) by (simp add: entry_ok_def)
  let ?n = "of_nat (length (me_bytes e)) :: u64"
  have n: "unat ?n = length (me_bytes e)" using entry_length(3) [OF small] by (rule unat_of_nat_u64)
  have "?n \<noteq> 0" using n entry_length(2) [OF small] by (metis less_irrefl unat_0)
  have ar: "mem.in_arena (mt_arena mt) (mt_table mt)" using h(3) by (simp add: mem.holds_def)
  then have "arena_ok (mt_arena mt)" by (simp add: mem.in_arena_def)
  from allocate_allocated [OF this \<open>?n \<noteq> 0\<close>] obtain p ar where
    a: "arena_allocate (mt_arena mt) ?n = Some (p, ar)" "allocated (mt_arena mt) p (unat ?n) ar" by blast
  have "mem.in_arena ar (mt_table mt)"
    using mem.allocated_in_arena(1) [OF ar a(2)] n entry_length(2) [OF small] by simp
  then have held: "mem.holds ar (mt_table mt) xs (map me_bytes es)" using h(3) by (simp add: mem.holds_def)
  have new: "\<forall>k \<in> set (map me_bytes es). entry_key k \<noteq> entry_key (me_bytes e)"
    using assms(3) h(2) entry_good assms(2) by auto
  from mem.insert_ok [OF held _ new] entry_good [OF assms(2)] obtain ar' sl' xs' where
    i: "sl_insert (mt_compare user) ar (mt_table mt) (me_bytes e) = Some (ar', sl')"
    "mem.holds ar' sl' xs' (mem.keys_before (me_bytes e) (map me_bytes es) @ me_bytes e #
       mem.keys_from (me_bytes e) (map me_bytes es))" by blast
  let ?P = "\<lambda>e'. mem.less (me_bytes e') (me_bytes e)"
  let ?es = "takeWhile ?P es @ e # dropWhile ?P es"
  have "map me_bytes ?es = mem.keys_before (me_bytes e) (map me_bytes es) @ me_bytes e #
       mem.keys_from (me_bytes e) (map me_bytes es)"
    by (simp add: mem.keys_before_def mem.keys_from_def takeWhile_map dropWhile_map comp_def)
  moreover have set: "set ?es = insert e (set es)"
  proof -
    have "set (takeWhile ?P es) \<union> set (dropWhile ?P es) = set es" by (metis set_append takeWhile_dropWhile_id)
    then show ?thesis by simp
  qed
  moreover have "mt_add (me_seq e) (me_type e) (me_key e) (me_value e) mt = Some (mt\<lparr>mt_arena := ar', mt_table := sl'\<rparr>)"
    unfolding mt_add_def Let_def entry_length(1) [OF small] using a(1) i(1) h(1) by (simp add: me_bytes_def)
  moreover have "\<forall>e' \<in> set ?es. entry_ok e'" using h(2) assms(2) set by auto
  ultimately show ?thesis using h(1) i(2) by (intro exI [of _ ?es] exI conjI) (auto simp: mt_holds_def)
qed

subsection \<open>\<open>Get\<close>\<close>

lemma seek_key:
  assumes "make_lookup_key k s = Some lk" "length k + 8 < 2 ^ 32" "valid k"
  defines "t \<equiv> drop (lk_start lk) (lk_buf lk)"
  shows "good_entry t" "entry_key t = k @ encode_fixed64 (seek_tag s)" "lk_user_key lk = k" "s \<le> kMaxSequenceNumber"
proof -
  have s: "s \<le> kMaxSequenceNumber" and t: "t = encode_varint32 (of_nat (length (k @ encode_fixed64 (seek_tag s)))) @
      (k @ encode_fixed64 (seek_tag s)) @ []"
    using assms(1) unfolding t_def
    by (auto simp: make_lookup_key_def pack_sequence_and_type_def seek_tag_def Let_def split: if_splits)
  have "entry_slice t = Some (k @ encode_fixed64 (seek_tag s), [])"
    unfolding t by (rule entry_slice_encode) (use assms(2) in simp)
  then show "good_entry t" "entry_key t = k @ encode_fixed64 (seek_tag s)"
    using assms(3) by (auto simp: good_entry_def entry_key_def)
  show "s \<le> kMaxSequenceNumber" by (rule s)
  show "lk_user_key lk = k"
    using assms(1) by (auto simp: make_lookup_key_def pack_sequence_and_type_def Let_def lk_user_key_def split: if_splits)
qed

text \<open>What \<open>Get\<close> makes of the entry that the search stops at.\<close>

lemma mt_get_entry:
  assumes "it_seek (mt_compare user) (mt_table mt) (drop (lk_start lk) (lk_buf lk)) = Some (Some x)"
    and "it_key (mt_table mt) (Some x) = Some (me_bytes e)" "mt_user mt = user"
    and "entry_ok e" "valid (lk_user_key lk)"
  shows "mt_get mt lk = Some (if me_key e = lk_user_key lk then Some (me_result e) else None)"
proof -
  have small: "length (me_key e) + 8 < 2 ^ 32" "length (me_value e) < 2 ^ 32"
    using assms(4) by (simp_all add: entry_ok_def me_small_def)
  define rest where "rest = encode_varint32 (of_nat (length (me_value e))) @ me_value e"
  define L where "L = (of_nat (length (me_key e) + 8) :: u32)"
  define ptr where "ptr = me_key e @ encode_fixed64 (me_tag e) @ rest"
  have e: "entry_varint32 (me_bytes e) = Some (L, ptr)"
    unfolding me_bytes_def entry_bytes_def L_def ptr_def rest_def by (simp only: entry_varint32_encode me_tag_def)
  have n8: "unat L = length (me_key e) + 8" unfolding L_def by (rule unat_u32_of_nat [OF small(1)])
  have "L - 8 = of_nat (length (me_key e))" by (simp add: L_def)
  then have n: "unat (L - 8) = length (me_key e)" using small(1) by (simp only: unat_u32_of_nat)
  obtain r where r: "compare user (me_key e) (lk_user_key lk) = Some r" "r = 0 \<longleftrightarrow> me_key e = lk_user_key lk"
    using compare_defined [of "me_key e" "lk_user_key lk"] compare_zero [of "me_key e" "lk_user_key lk"] assms(4,5)
    by (auto simp: entry_ok_def)
  have v: "entry_slice rest = Some (me_value e, [])"
    using entry_slice_encode [of "me_value e" "[]"] small(2) by (simp add: rest_def)
  have parts: "take (length (me_key e)) ptr = me_key e" "drop (length (me_key e) + 8) ptr = rest"
    "decode_fixed64 (drop (length (me_key e)) ptr) = Some (me_tag e)" "length (me_key e) \<le> length ptr"
    by (simp_all add: ptr_def)
  have run: "mt_get mt lk = (if r = 0 then
      (case value_type_of (ucast (me_tag e AND 0xff)) of
         Some KTypeValue \<Rightarrow> Some (Some (Inl (me_value e)))
       | Some KTypeDeletion \<Rightarrow> Some (Some (Inr (make_status KNotFound [] [])))
       | None \<Rightarrow> Some None) else Some None)"
    using assms(1-3) e parts r(1) v
    by (simp add: mt_get_def it_valid_def Let_def n n8 cong: option.case_cong value_type.case_cong)
  show ?thesis
    unfolding run me_tag_type value_type_code_inverse using r(2) by (cases "me_type e") (simp_all add: me_result_def)
qed

lemma before_seek:
  assumes "entry_ok e" "s \<le> kMaxSequenceNumber" "valid k"
  shows "internal_before (me_ikey e) (k @ encode_fixed64 (seek_tag s)) \<longleftrightarrow>
     before (me_key e) k \<or> me_key e = k \<and> s < me_seq e"
proof -
  have "seek_tag s < me_tag e \<longleftrightarrow> s < me_seq e"
    using me_tag_le_seek [of e s] assms(1,2) by (auto simp: entry_ok_def not_le [symmetric])
  then show ?thesis by (simp add: internal_before_def me_ikey_def)
qed

lemma mt_get_ok:
  assumes "mt_holds mt es" "make_lookup_key k s = Some lk" "length k + 8 < 2 ^ 32" "valid k"
  shows "\<exists>r. mt_get mt lk = Some r \<and> newest_result (set es) k s r"
proof -
  define t where "t = drop (lk_start lk) (lk_buf lk)"
  note sk = seek_key [OF assms(2-4), folded t_def]
  let ?t = "k @ encode_fixed64 (seek_tag s)"
  from assms(1) obtain xs h where h: "mt_user mt = user" "\<forall>e \<in> set es. entry_ok e"
    "mem.sl_ok (mt_table mt) xs h" "map (mem.key_at (mt_table mt)) xs = map me_bytes es"
    by (auto simp: mt_holds_def mem.holds_def)
  have iv: "internal_valid (me_ikey e)" if "entry_ok e" for e using that by (simp add: me_ikey_def entry_ok_def)
  have lt: "mem.less (me_bytes e) t \<longleftrightarrow> before (me_key e) k \<or> me_key e = k \<and> s < me_seq e" if "entry_ok e" for e
    using entry_good [OF that] sk mem_before [OF iv [OF that], of ?t] assms(4) before_seek [OF that sk(4) assms(4)]
    by (simp add: mem.less_def)
  have ll: "mem.less (me_bytes e) (me_bytes e') \<longleftrightarrow> before (me_key e) (me_key e') \<or> me_key e = me_key e' \<and> me_tag e' < me_tag e"
    if "entry_ok e" "entry_ok e'" for e e'
    using entry_good that mem_before [OF iv iv] by (auto simp: mem.less_def internal_before_def me_ikey_def)
  have sorted: "sorted_wrt (\<lambda>e e'. mem.less (me_bytes e) (me_bytes e')) es"
  proof -
    have "sorted_wrt mem.less (map (mem.key_at (mt_table mt)) xs)"
      using mem.sl_ok_def h(3) by (simp add: sorted_wrt_map)
    then show ?thesis by (simp add: h(4) sorted_wrt_map)
  qed
  have seek: "it_seek (mt_compare user) (mt_table mt) t = Some (mem.first (mem.nodes_from (mt_table mt) t xs))"
    by (rule mem.it_seek_ok [OF h(3) sk(1)])
  have from_map: "map (mem.key_at (mt_table mt)) (mem.nodes_from (mt_table mt) t xs) =
      map me_bytes (dropWhile (\<lambda>e. mem.less (me_bytes e) t) es)"
    unfolding mem.map_before_from h(4) by (simp add: mem.keys_from_def dropWhile_map comp_def)
  show ?thesis
  proof (cases "dropWhile (\<lambda>e. mem.less (me_bytes e) t) es")
    case Nil
    have "map (mem.key_at (mt_table mt)) (mem.nodes_from (mt_table mt) t xs) = []" unfolding from_map Nil by simp
    then have "mem.nodes_from (mt_table mt) t xs = []" by simp
    then have "mt_get mt lk = Some None" using seek h(1) by (simp add: mt_get_def t_def [symmetric] mem.first_def it_valid_def)
    moreover have "\<not> visible k s e" if "e \<in> set es" for e
      using Nil that lt h(2) before_irrefl [OF assms(4)] by (auto simp: dropWhile_eq_Nil_conv visible_def)
    ultimately show ?thesis by (auto simp: newest_result_def)
  next
    case (Cons e es')
    then have es: "es = takeWhile (\<lambda>e. mem.less (me_bytes e) t) es @ e # es'"
      by (metis takeWhile_dropWhile_id)
    then have mem: "e \<in> set es" by (metis in_set_conv_decomp)
    have nl: "\<not> mem.less (me_bytes e) t" using Cons by (simp add: dropWhile_eq_Cons_conv)
    obtain x ys where x: "mem.nodes_from (mt_table mt) t xs = x # ys" "mem.key_at (mt_table mt) x = me_bytes e"
      using from_map Cons by auto
    have "x \<in> set xs" using mem.nodes_split [of "mt_table mt" t xs] x(1) by (metis in_set_conv_decomp)
    then have "it_key (mt_table mt) (Some x) = Some (me_bytes e)" using mem.key_ok [OF h(3)] x(2) by simp
    moreover have "it_seek (mt_compare user) (mt_table mt) t = Some (Some x)" using seek x(1) by (simp add: mem.first_def)
    ultimately have get: "mt_get mt lk = Some (if me_key e = k then Some (me_result e) else None)"
      using mt_get_entry [of mt lk x e] h(1,2) mem sk(3) assms(4) by (simp add: t_def)
    have ok: "entry_ok e'" if "e' \<in> set es" for e' using h(2) that by blast
    have later: "e' = e \<or> mem.less (me_bytes e) (me_bytes e')" if "e' \<in> set es" "visible k s e'" for e'
    proof -
      have "\<not> mem.less (me_bytes e') t" using that lt [OF ok [OF that(1)]] before_irrefl [OF assms(4)] by (auto simp: visible_def)
      then have "e' \<notin> set (takeWhile (\<lambda>e. mem.less (me_bytes e) t) es)" by (auto dest: set_takeWhileD)
      with that(1) es have "e' \<in> set (e # es')" by (metis Un_iff set_append)
      moreover have "sorted_wrt (\<lambda>e e'. mem.less (me_bytes e) (me_bytes e')) (e # es')"
        using sorted es by (metis sorted_wrt_append)
      ultimately show ?thesis by auto
    qed
    show ?thesis
    proof (cases "me_key e = k")
      case True
      then have "visible k s e" using nl lt [OF ok [OF mem]] by (auto simp: visible_def)
      moreover have "me_tag e' \<le> me_tag e" if "e' \<in> set es" "visible k s e'" for e'
        using later [OF that] ll [OF ok [OF mem] ok [OF that(1)]] that(2) True before_irrefl [OF assms(4)]
        by (auto simp: visible_def)
      ultimately show ?thesis using get True mem by (auto simp: newest_result_def)
    next
      case False
      have "\<not> visible k s e'" if "e' \<in> set es" for e'
      proof
        assume v: "visible k s e'"
        with later [OF that v] False have "before (me_key e) k"
          using ll [OF ok [OF mem] ok [OF that]] by (auto simp: visible_def)
        then show False using nl lt [OF ok [OF mem]] by blast
      qed
      then show ?thesis using get False by (auto simp: newest_result_def)
    qed
  qed
qed

lemma mt_add_all_ok:
  assumes "mt_holds mt es" "\<forall>e \<in> set fs. entry_ok e" "distinct (map me_ikey fs)"
    "me_ikey ` set es \<inter> me_ikey ` set fs = {}"
  shows "\<exists>mt' es'. mt_add_all fs mt = Some mt' \<and> mt_holds mt' es' \<and> set es' = set es \<union> set fs"
  using assms
proof (induction fs arbitrary: mt es)
  case (Cons f fs)
  have "\<forall>e' \<in> set es. me_ikey e' \<noteq> me_ikey f"
    using Cons.prems(4) by (metis IntI emptyE imageI list.set_intros(1))
  from mt_add_ok [OF Cons.prems(1) _ this] Cons.prems(2) obtain mt1 es1 where
    1: "mt_add (me_seq f) (me_type f) (me_key f) (me_value f) mt = Some mt1" "mt_holds mt1 es1"
    "set es1 = insert f (set es)" by auto
  from Cons.IH [OF 1(2)] Cons.prems 1(3) obtain mt2 es2 where
    "mt_add_all fs mt1 = Some mt2" "mt_holds mt2 es2" "set es2 = set es1 \<union> set fs" by auto
  with 1 show ?case by auto
qed auto

end

interpretation bytewise_mem: mem_table_keys bytewise_comparator "\<lambda>_. True"
  by (rule mem_table_keys.intro) (rule bytewise.comparator_laws_axioms)

end
