(* ===== verification/LdMemClaims.thy ===== *)
theory LdMemClaims
  imports LdMemTableOk LdBatch
begin

text \<open>The properties of memtables and of the skip list with its readers.\<close>

subsection \<open>\<open>Get\<close> finds the newest entry\<close>

text \<open>C10: Entries may be added to a memtable in any order; none of the calls fails, and \<open>Get\<close> with a
  key and a sequence number finds the newest entry of the key that is not newer than this number: its
  value, or not-found when it is a deletion; it returns false exactly when there is no such entry.\<close>

theorem memtable_get_newest:
  assumes "\<forall>e \<in> set es. me_small e" "distinct (map me_ikey es)"
    and "make_lookup_key k s = Some lk" "length k + 8 < 2 ^ 32"
  shows "\<exists>mt r. Option.bind (mem_table bytewise_comparator) (mt_add_all es) = Some mt \<and>
     mt_get mt lk = Some r \<and> newest_result (set es) k s r"
proof -
  obtain mt0 where 0: "mem_table bytewise_comparator = Some mt0" "bytewise_mem.mt_holds mt0 []"
    using bytewise_mem.mem_table_ok by blast
  have "\<forall>e \<in> set es. bytewise_mem.entry_ok e" using assms(1) by (simp add: bytewise_mem.entry_ok_def)
  from bytewise_mem.mt_add_all_ok [OF 0(2) this assms(2)] obtain mt es' where
    1: "mt_add_all es mt0 = Some mt" "bytewise_mem.mt_holds mt es'" "set es' = set es" by auto
  from bytewise_mem.mt_get_ok [OF 1(2) assms(3,4)] 0(1) 1 show ?thesis by auto
qed

definition sample_mt_entries :: "mt_entry list" where
  "sample_mt_entries =
     [\<lparr>me_seq = 5, me_type = KTypeValue, me_key = [97], me_value = [1]\<rparr>,
      \<lparr>me_seq = 9, me_type = KTypeDeletion, me_key = [97], me_value = []\<rparr>,
      \<lparr>me_seq = 7, me_type = KTypeValue, me_key = [97], me_value = [2]\<rparr>,
      \<lparr>me_seq = 6, me_type = KTypeValue, me_key = [98], me_value = [3]\<rparr>]"

theorem memtable_get_newest_witness:
  "\<exists>mt lk. Option.bind (mem_table bytewise_comparator) (mt_add_all sample_mt_entries) = Some mt \<and>
     make_lookup_key [97] 8 = Some lk \<and> mt_get mt lk = Some (Some (Inl [2]))"
proof -
  have small: "\<forall>e \<in> set sample_mt_entries. me_small e"
    by (simp add: sample_mt_entries_def me_small_def kMaxSequenceNumber_def)
  have dist: "distinct (map me_ikey sample_mt_entries)" by code_simp
  obtain lk where lk: "make_lookup_key [97] 8 = Some lk"
    by (auto simp: make_lookup_key_def pack_sequence_and_type_def kMaxSequenceNumber_def Let_def)
  from memtable_get_newest [OF small dist lk] obtain mt r where r:
    "Option.bind (mem_table bytewise_comparator) (mt_add_all sample_mt_entries) = Some mt" "mt_get mt lk = Some r"
    "newest_result (set sample_mt_entries) [97] 8 r" by auto
  have "r = Some (Inl [2])"
    using r(3) by (auto simp: newest_result_def sample_mt_entries_def visible_def me_result_def me_tag_def
        value_type_code_def split: option.splits)
  with r lk show ?thesis by blast
qed

subsection \<open>Batches are read back\<close>

primrec op_key :: "wb_op \<Rightarrow> slice" where
  "op_key (WPut k v) = k"
| "op_key (WDelete k) = k"

primrec op_entry :: "u64 \<Rightarrow> wb_op \<Rightarrow> mt_entry" where
  "op_entry s (WPut k v) = \<lparr>me_seq = s, me_type = KTypeValue, me_key = k, me_value = v\<rparr>"
| "op_entry s (WDelete k) = \<lparr>me_seq = s, me_type = KTypeDeletion, me_key = k, me_value = []\<rparr>"

definition op_entries :: "u64 \<Rightarrow> wb_op list \<Rightarrow> mt_entry list" where
  "op_entries seq ops = map (\<lambda>i. op_entry (seq + of_nat i) (ops ! i)) [0..<length ops]"

lemma op_entries_Cons: "op_entries seq (x # xs) = op_entry seq x # op_entries (seq + 1) xs"
  by (simp add: op_entries_def upt_conv_Cons map_Suc_upt [symmetric] comp_def of_nat_Suc ac_simps del: upt_Suc)

lemma op_entry_simps [simp]:
  "me_seq (op_entry s x) = s" "me_key (op_entry s x) = op_key x"
  by (cases x; simp)+

lemma mem_ops_add_all:
  "mem_ops (\<lambda>s t k v m. Option.bind m (mt_add s t k v)) seq ops m = Option.bind m (mt_add_all (op_entries seq ops))"
proof (induction ops arbitrary: seq m)
  case Nil
  then show ?case by (cases m) (simp_all add: op_entries_def)
next
  case (Cons x ops)
  then show ?case by (cases x; cases m) (simp_all add: op_entries_Cons)
qed

text \<open>The sequence numbers of a batch.\<close>

lemma batch_seq:
  "unat seq + i < 2 ^ 56 \<Longrightarrow> unat (seq + of_nat i :: u64) = unat seq + i"
  by (simp add: unat_word_ariths unsigned_of_nat take_bit_nat_eq_self)

lemma batch_entry_small:
  assumes "op_small x" "length (op_key x) + 8 < 2 ^ 32" "unat seq + i < 2 ^ 56"
  shows "me_small (op_entry (seq + of_nat i) x)"
  using assms batch_seq [OF assms(3)] by (cases x) (simp_all add: me_small_def max_sequence)

lemma ikey_tag: "me_ikey a = me_ikey b \<Longrightarrow> me_tag a = me_tag b"
  unfolding me_ikey_def by (metis bytewise.key_of_parts(2))

lemma small_seq: "me_small a \<Longrightarrow> me_small b \<Longrightarrow> me_ikey a = me_ikey b \<Longrightarrow> me_seq a = me_seq b"
  using ikey_tag [of a b] me_tag_mono [of a b] me_tag_mono [of b a] by simp

lemma op_entries_mem: "e \<in> set (op_entries seq ops) \<longleftrightarrow> (\<exists>i < length ops. e = op_entry (seq + of_nat i) (ops ! i))"
  by (auto simp: op_entries_def)

lemma op_entries_small:
  assumes "\<forall>x \<in> set ops. op_small x \<and> length (op_key x) + 8 < 2 ^ 32" "unat seq + length ops \<le> 2 ^ 56"
  shows "\<forall>e \<in> set (op_entries seq ops). me_small e"
proof
  fix e
  assume "e \<in> set (op_entries seq ops)"
  then obtain i where i: "i < length ops" "e = op_entry (seq + of_nat i) (ops ! i)"
    unfolding op_entries_mem by blast
  have "unat seq + i < 2 ^ 56" using i(1) assms(2) by linarith
  moreover have "op_small (ops ! i)" "length (op_key (ops ! i)) + 8 < 2 ^ 32" using assms(1) i(1) nth_mem by blast+
  ultimately show "me_small e" unfolding i(2) using batch_entry_small by blast
qed

lemma op_entries_distinct:
  assumes "\<forall>x \<in> set ops. op_small x \<and> length (op_key x) + 8 < 2 ^ 32" "unat seq + length ops \<le> 2 ^ 56"
  shows "distinct (map me_ikey (op_entries seq ops))"
proof -
  have "inj_on (\<lambda>i. me_ikey (op_entry (seq + of_nat i) (ops ! i))) {0..<length ops}"
  proof (rule inj_onI)
    fix i j
    assume ij: "i \<in> {0..<length ops}" "j \<in> {0..<length ops}"
      "me_ikey (op_entry (seq + of_nat i) (ops ! i)) = me_ikey (op_entry (seq + of_nat j) (ops ! j))"
    let ?e = "\<lambda>i. op_entry (seq + of_nat i) (ops ! i)"
    have "?e i \<in> set (op_entries seq ops)" "?e j \<in> set (op_entries seq ops)"
      unfolding op_entries_mem using ij(1,2) by auto
    then have "me_small (?e i)" "me_small (?e j)" using op_entries_small [OF assms] by blast+
    from small_seq [OF this ij(3)] have "seq + of_nat i = seq + of_nat j" by simp
    moreover have "unat seq + i < 2 ^ 56" "unat seq + j < 2 ^ 56" using ij(1,2) assms(2) by simp_all
    then have "unat (seq + of_nat i) = unat seq + i" "unat (seq + of_nat j) = unat seq + j"
      by (simp_all only: batch_seq)
    ultimately show "i = j" by (metis add_left_cancel)
  qed
  then show ?thesis by (simp add: op_entries_def comp_def distinct_map)
qed

definition op_result :: "wb_op \<Rightarrow> slice + status" where
  "op_result x = (case x of WPut k v \<Rightarrow> Inl v | WDelete k \<Rightarrow> Inr (make_status KNotFound [] []))"

lemma op_entry_result: "me_result (op_entry s x) = op_result x"
  by (cases x) (simp_all add: me_result_def op_result_def)

text \<open>C37: A batch is read back from the memtable: after \<open>InsertInto\<close> with a sequence number above all
  that are there, \<open>Get\<close> at the last number of the batch finds for every key the last operation of the
  batch on this key, and what was there before for the keys the batch does not touch.\<close>

theorem batch_read_back:
  assumes es: "\<forall>e \<in> set es. me_small e \<and> me_seq e < seq" "distinct (map me_ikey es)"
    and ops: "\<forall>x \<in> set ops. op_small x \<and> length (op_key x) + 8 < 2 ^ 32" "ops \<noteq> []" "length ops < 2 ^ 31"
      "unat seq + length ops \<le> 2 ^ 56"
    and lk: "make_lookup_key k (seq + of_nat (length ops - 1)) = Some lk" "length k + 8 < 2 ^ 32"
  shows "\<exists>mt0 rep mt r. Option.bind (mem_table bytewise_comparator) (mt_add_all es) = Some mt0 \<and>
     Option.bind (wb_apply_all ops wb_clear) (\<lambda>b. wb_set_sequence b seq) = Some rep \<and>
     wb_insert_into (\<lambda>s t k v m. Option.bind m (mt_add s t k v)) rep (Some mt0) = Some (StatusOK, Some mt) \<and>
     mt_get mt lk = Some r \<and>
     (\<forall>i < length ops. op_key (ops ! i) = k \<longrightarrow> (\<forall>j. i < j \<longrightarrow> j < length ops \<longrightarrow> op_key (ops ! j) \<noteq> k) \<longrightarrow>
        r = Some (op_result (ops ! i))) \<and>
     ((\<forall>x \<in> set ops. op_key x \<noteq> k) \<longrightarrow> newest_result (set es) k (seq - 1) r)"
proof -
  let ?fs = "op_entries seq ops" and ?s = "seq + of_nat (length ops - 1) :: u64"
  have seqs: "unat (seq + of_nat i) = unat seq + i" if "i < length ops" for i
    using that ops(4) by (intro batch_seq) simp
  have fs: "\<forall>e \<in> set ?fs. bytewise_mem.entry_ok e" "distinct (map me_ikey ?fs)"
    using op_entries_small [OF ops(1,4)] op_entries_distinct [OF ops(1,4)]
    by (simp_all add: bytewise_mem.entry_ok_def)
  have es': "\<forall>e \<in> set es. bytewise_mem.entry_ok e" using es(1) by (simp add: bytewise_mem.entry_ok_def)
  obtain mt00 where 0: "mem_table bytewise_comparator = Some mt00" "bytewise_mem.mt_holds mt00 []"
    using bytewise_mem.mem_table_ok by blast
  from bytewise_mem.mt_add_all_ok [OF 0(2) es' es(2)] obtain mt0 es0 where
    1: "mt_add_all es mt00 = Some mt0" "bytewise_mem.mt_holds mt0 es0" "set es0 = set es" by auto
  have later: "me_seq e < me_seq f" if "e \<in> set es" "f \<in> set ?fs" for e f
    using that es(1) seqs by (fastforce simp: op_entries_mem word_less_nat_alt)
  have "me_ikey ` set es0 \<inter> me_ikey ` set ?fs = {}"
  proof -
    have "me_ikey e \<noteq> me_ikey f" if "e \<in> set es" "f \<in> set ?fs" for e f
      using later [OF that] small_seq [of e f] that es(1) op_entries_small [OF ops(1,4)] by auto
    then show ?thesis using 1(3) by blast
  qed
  from bytewise_mem.mt_add_all_ok [OF 1(2) fs this] obtain mt es2 where
    2: "mt_add_all ?fs mt0 = Some mt" "bytewise_mem.mt_holds mt es2" "set es2 = set es \<union> set ?fs"
    using 1(3) by auto
  from bytewise_mem.mt_get_ok [OF 2(2) lk] obtain r where
    r: "mt_get mt lk = Some r" "newest_result (set es \<union> set ?fs) k ?s r" using 2(3) by auto
  have rep: "Option.bind (wb_apply_all ops wb_clear) (\<lambda>b. wb_set_sequence b seq) = Some (batch_bytes seq ops)"
    using apply_all_bytes [of "[]" ops 0] ops(3) by (simp add: clear_bytes wb_set_sequence_def batch_parts)
      (simp add: batch_bytes_def)
  have ins: "wb_insert_into (\<lambda>s t k v m. Option.bind m (mt_add s t k v)) (batch_bytes seq ops) (Some mt0) =
      Some (StatusOK, Some mt)"
    using ops(1,3) 2(1) by (subst insert_into_bytes) (simp_all add: mem_ops_add_all)
  have last: "r = Some (op_result (ops ! i))"
    if i: "i < length ops" "op_key (ops ! i) = k" "\<forall>j. i < j \<longrightarrow> j < length ops \<longrightarrow> op_key (ops ! j) \<noteq> k" for i
  proof -
    let ?e = "op_entry (seq + of_nat i) (ops ! i)"
    have e: "?e \<in> set ?fs" "visible k ?s ?e"
      using i seqs [of i] seqs [of "length ops - 1"] by (auto simp: op_entries_mem visible_def word_le_nat_alt)
    then obtain f where f: "f \<in> set es \<union> set ?fs" "visible k ?s f" "r = Some (me_result f)" "me_tag ?e \<le> me_tag f"
      using r(2) by (auto simp: newest_result_def split: option.splits)
    have "me_small f" "me_small ?e" using f(1) e(1) es(1) op_entries_small [OF ops(1,4)] by auto
    with f(4) have le: "seq + of_nat i \<le> me_seq f" using me_tag_mono [of ?e f] by simp
    then have "f \<notin> set es" using later [OF _ e(1)] by (auto simp: not_less [symmetric])
    with f(1) obtain j where j: "j < length ops" "f = op_entry (seq + of_nat j) (ops ! j)" by (auto simp: op_entries_mem)
    with le seqs [OF i(1)] seqs [OF j(1)] have "i \<le> j" by (simp add: word_le_nat_alt)
    moreover have "op_key (ops ! j) = k" using f(2) j(2) by (simp add: visible_def)
    ultimately have "j = i" using i(3) j(1) by (cases "i = j") auto
    then show ?thesis using f(3) j(2) by (simp add: op_entry_result)
  qed
  have old: "newest_result (set es) k (seq - 1) r" if "\<forall>x \<in> set ops. op_key x \<noteq> k"
  proof -
    have "\<not> visible k ?s f" if "f \<in> set ?fs" for f
      using that \<open>\<forall>x \<in> set ops. op_key x \<noteq> k\<close> by (auto simp: op_entries_mem visible_def)
    moreover have "visible k ?s e \<longleftrightarrow> visible k (seq - 1) e" if "e \<in> set es" for e
    proof -
      have "me_seq e < seq" using es(1) that by blast
      then have "me_seq e \<le> seq - 1" "me_seq e \<le> ?s"
        using seqs [of "length ops - 1"] ops(2) by (auto simp: word_le_nat_alt word_less_nat_alt unat_sub_if_size)
      then show ?thesis by (simp add: visible_def)
    qed
    ultimately show ?thesis using r(2) by (auto simp: newest_result_def split: option.splits) 
  qed
  show ?thesis using 0(1) 1(1) rep ins r(1) last old by auto
qed

theorem batch_read_back_witness:
  "\<exists>mt0 rep mt lk. Option.bind (mem_table bytewise_comparator) (mt_add_all (take 1 sample_mt_entries)) = Some mt0 \<and>
     wb_insert_into (\<lambda>s t k v m. Option.bind m (mt_add s t k v)) rep (Some mt0) = Some (StatusOK, Some mt) \<and>
     make_lookup_key [97] 11 = Some lk \<and> mt_get mt lk = Some (Some (Inl [4]))"
proof -
  let ?ops = "[WDelete [97], WPut [97] [4]]"
  have es: "\<forall>e \<in> set (take 1 sample_mt_entries). me_small e \<and> me_seq e < 10" "distinct (map me_ikey (take 1 sample_mt_entries))"
    by (simp_all add: sample_mt_entries_def me_small_def kMaxSequenceNumber_def)
  have ops: "\<forall>x \<in> set ?ops. op_small x \<and> length (op_key x) + 8 < 2 ^ 32" "?ops \<noteq> []" "length ?ops < 2 ^ 31"
    "unat (10 :: u64) + length ?ops \<le> 2 ^ 56" by simp_all
  obtain lk where lk: "make_lookup_key [97] (10 + of_nat (length ?ops - 1)) = Some lk"
    by (auto simp: make_lookup_key_def pack_sequence_and_type_def kMaxSequenceNumber_def Let_def)
  have small: "length [97 :: u8] + 8 < 2 ^ 32" by simp
  from batch_read_back [OF es ops lk small] obtain mt0 rep mt r where b:
    "Option.bind (mem_table bytewise_comparator) (mt_add_all (take 1 sample_mt_entries)) = Some mt0"
    "wb_insert_into (\<lambda>s t k v m. Option.bind m (mt_add s t k v)) rep (Some mt0) = Some (StatusOK, Some mt)"
    "mt_get mt lk = Some r" "\<forall>i < length ?ops. op_key (?ops ! i) = [97] \<longrightarrow>
       (\<forall>j. i < j \<longrightarrow> j < length ?ops \<longrightarrow> op_key (?ops ! j) \<noteq> [97]) \<longrightarrow> r = Some (op_result (?ops ! i))"
    by blast
  from b(4) [rule_format, of 1] have "r = Some (Inl [4])" by (simp add: op_result_def)
  moreover have "make_lookup_key [97] 11 = Some lk" using lk by simp
  ultimately show ?thesis using b(1-3) by blast
qed

end
