(* ===== verification/LdConcClaims.thy ===== *)
theory LdConcClaims
  imports LdSkipListLive LdMemTableOk
begin

text \<open>
  The properties of a memtable that is read while it is written: the threads of
  \<open>LdSkipListConc\<close> on the skip list of a new memtable.
\<close>

subsection \<open>The threads of a memtable\<close>

text \<open>The entries that threads may insert and look for start with an internal key.\<close>

definition entry_wf :: "u8 list \<Rightarrow> bool" where
  "entry_wf e \<longleftrightarrow> (case entry_slice e of None \<Rightarrow> False | Some (k, _) \<Rightarrow> 8 \<le> length k)"

lemma entry_wf_good: "entry_wf = bytewise_mem.good_entry"
  by (auto simp: entry_wf_def bytewise_mem.good_entry_def bytewise.internal_valid_def fun_eq_iff split: option.splits)

definition entry_before :: "u8 list \<Rightarrow> u8 list \<Rightarrow> bool" where
  "entry_before a b \<longleftrightarrow> (case mt_compare bytewise_comparator a b of None \<Rightarrow> False | Some r \<Rightarrow> r < 0)"

lemma entry_before_less:
  assumes "entry_wf a" "entry_wf b"
  shows "entry_before a b = bytewise_mem.mem.less a b"
  using assms [unfolded entry_wf_good]
  by (rule bytewise_mem.mem.cmp_cases) (simp add: entry_before_def)

definition mt_start :: "mem_table \<Rightarrow> u8 list sl_system" where
  "mt_start mt = sl_system (mt_arena mt) (mt_table mt)"

definition mt_step :: "u8 list sl_system \<Rightarrow> u8 list sl_system \<Rightarrow> bool" where
  "mt_step = sl_step (mt_compare bytewise_comparator) entry_wf"

definition mt_reachable :: "u8 list sl_system \<Rightarrow> u8 list sl_system \<Rightarrow> bool" where
  "mt_reachable = sl_reachable (mt_compare bytewise_comparator) entry_wf"

text \<open>\<open>ks\<close> are the entries of the list at a moment, by its links on level 0.\<close>

definition list_entries :: "u8 list sl_system \<Rightarrow> addr list \<Rightarrow> u8 list list \<Rightarrow> bool" where
  "list_entries s xs ks \<longleftrightarrow> chain (sy_list s) 0 (sl_head (sy_list s)) xs \<and>
     map (node_key (sy_list s)) xs = map Some ks"

text \<open>What is reachable is well formed.\<close>

lemma mt_reachable_ok:
  assumes "mem_table bytewise_comparator = Some mt" "mt_reachable (mt_start mt) s"
  obtains xs h where "bytewise_mem.mem.system_ok s xs h"
proof -
  obtain mt' where "mem_table bytewise_comparator = Some mt'" "bytewise_mem.mt_holds mt' []"
    using bytewise_mem.mem_table_ok by blast
  with assms(1) obtain xs where "bytewise_mem.mem.holds (mt_arena mt) (mt_table mt) xs []"
    by (auto simp: bytewise_mem.mt_holds_def)
  from bytewise_mem.mem.start_ok [OF this] obtain h where "bytewise_mem.mem.system_ok (mt_start mt) xs h"
    by (auto simp: mt_start_def)
  from bytewise_mem.mem.reachable_ok [OF _ this] assms(2) show thesis
    using that bytewise_mem.mem.keeps_system_ok unfolding mt_reachable_def entry_wf_good by blast
qed

lemma system_entries:
  assumes "bytewise_mem.mem.system_ok s xs h"
  defines "ks \<equiv> map (bytewise_mem.mem.key_at (sy_list s)) xs"
  shows "list_entries s xs ks" "\<forall>k \<in> set ks. entry_wf k" "sorted_wrt entry_before ks"
proof -
  have ok: "bytewise_mem.mem.sl_ok (sy_list s) xs h" using assms(1) by (simp add: bytewise_mem.mem.system_ok_def)
  note sorted = bytewise_mem.mem.ok_sorted [OF ok]
  then show wf: "\<forall>k \<in> set ks. entry_wf k"
    by (auto simp: ks_def entry_wf_good bytewise_mem.mem.has_key_def bytewise_mem.mem.key_at_def)
  show "list_entries s xs ks"
    using bytewise_mem.mem.ok_chain [OF ok] sorted
    by (auto simp: list_entries_def ks_def bytewise_mem.mem.has_key_def bytewise_mem.mem.key_at_def)
  have "sorted_wrt (bytewise_mem.mem.less) ks" using sorted by (simp add: ks_def sorted_wrt_map)
  then show "sorted_wrt entry_before ks"
    by (rule sorted_wrt_mono_rel [rotated]) (use wf entry_before_less in blast)
qed

text \<open>The node that a search for \<open>key\<close> is to find.\<close>

definition seek_node :: "u8 list sl_system \<Rightarrow> addr list \<Rightarrow> u8 list \<Rightarrow> addr option" where
  "seek_node s xs key =
     find (\<lambda>x. \<not> (case node_key (sy_list s) x of None \<Rightarrow> False | Some k \<Rightarrow> entry_before k key)) xs"

lemma find_first: "find (\<lambda>x. \<not> P x) xs = (case dropWhile P xs of [] \<Rightarrow> None | x # _ \<Rightarrow> Some x)"
  by (induction xs) auto

lemma seek_node_first:
  assumes "bytewise_mem.mem.system_ok s xs h" "entry_wf key"
  shows "seek_node s xs key = bytewise_mem.mem.first (bytewise_mem.mem.nodes_from (sy_list s) key xs)"
proof -
  let ?P = "\<lambda>x. case node_key (sy_list s) x of None \<Rightarrow> False | Some k \<Rightarrow> entry_before k key"
  have "?P x = bytewise_mem.mem.less (bytewise_mem.mem.key_at (sy_list s) x) key" if "x \<in> set xs" for x
  proof -
    have "list_entries s xs (map (bytewise_mem.mem.key_at (sy_list s)) xs)"
      "entry_wf (bytewise_mem.mem.key_at (sy_list s) x)"
      using system_entries [OF assms(1)] that by auto
    with that show ?thesis using entry_before_less [OF _ assms(2)] by (auto simp: list_entries_def)
  qed
  then have "dropWhile ?P xs = bytewise_mem.mem.nodes_from (sy_list s) key xs"
    unfolding bytewise_mem.mem.nodes_from_def by (intro dropWhile_cong) auto
  then show ?thesis unfolding seek_node_def find_first bytewise_mem.mem.first_def by simp
qed

subsection \<open>A schedule\<close>

text \<open>The next step of the writer in an insertion, and of a reader in a search.\<close>

definition run_writer :: "'k sl_system \<Rightarrow> 'k sl_system option" where
  "run_writer s =
     (case sy_writer s of
        WriterIdle \<Rightarrow> None
      | WriterRaise key prev height \<Rightarrow>
          Some (s\<lparr>sy_list := raise_height (sy_list s) height, sy_writer := WriterNew key prev height\<rparr>)
      | WriterNew key prev height \<Rightarrow>
          (case new_node (sy_arena s) (sy_list s) key height of
             None \<Rightarrow> None
           | Some (x, ar, sl) \<Rightarrow> Some (s\<lparr>sy_arena := ar, sy_list := sl, sy_writer := WriterLink key x prev 0 height False\<rparr>))
      | WriterLink key x prev i height own \<Rightarrow>
          if i < height then
            (if own then map_option (\<lambda>sl. s\<lparr>sy_list := sl, sy_writer := WriterLink key x prev (Suc i) height False\<rparr>)
                (link_prev (sy_list s) x prev i)
             else map_option (\<lambda>sl. s\<lparr>sy_list := sl, sy_writer := WriterLink key x prev i height True\<rparr>)
                (link_self (sy_list s) x prev i))
          else if i = height \<and> \<not> own then Some (s\<lparr>sy_writer := WriterIdle\<rparr>) else None)"

lemma run_writer_step: "run_writer s = Some s' \<Longrightarrow> sl_step cmp good s s'"
  by (auto simp: run_writer_def intro: sl_step.intros split: sl_writer.splits option.splits if_splits)

definition run_reader :: "('k \<Rightarrow> 'k \<Rightarrow> int option) \<Rightarrow> nat \<Rightarrow> 'k sl_system \<Rightarrow> 'k sl_system option" where
  "run_reader cmp r s =
     (case sy_readers s r of
        ReaderSeek key x level \<Rightarrow>
          (case find_ge_read cmp (sy_list s) key x level of
             None \<Rightarrow> None
           | Some (True, n) \<Rightarrow> map_option (\<lambda>y. sy_reader_at s r (ReaderSeek key y level)) n
           | Some (False, n) \<Rightarrow> Some (sy_reader_at s r
               (if level = 0 then ReaderAt n else ReaderSeek key x (level - 1))))
      | _ \<Rightarrow> None)"

lemma run_reader_step:
  assumes "run_reader cmp r s = Some s'"
  shows "sl_step cmp good s s'"
proof -
  from assms obtain key x level after n where
    rd: "sy_readers s r = ReaderSeek key x level" "find_ge_read cmp (sy_list s) key x level = Some (after, n)"
    by (auto simp: run_reader_def split: sl_reader.splits option.splits)
  show ?thesis
  proof (cases after)
    case True
    with assms rd obtain y where "n = Some y" "s' = sy_reader_at s r (ReaderSeek key y level)"
      by (auto simp: run_reader_def)
    with rd True show ?thesis using seek_right by simp
  next
    case False
    with assms rd have "s' = sy_reader_at s r (if level = 0 then ReaderAt n else ReaderSeek key x (level - 1))"
      by (simp add: run_reader_def)
    with rd False show ?thesis
      using seek_end [of s r key x cmp n good] seek_down [of s r key x level cmp n good] by auto
  qed
qed

text \<open>A moment in such a schedule: the writer inserts \<open>sample_entry\<close>, which has two levels, and
  has linked it on the lower one, and reader 0, which has begun in between, is at its last load.\<close>

definition sample_mt :: mem_table where "sample_mt = the (mem_table bytewise_comparator)"
definition sample_entry :: "u8 list" where "sample_entry = [9, 97, 1, 5, 0, 0, 0, 0, 0, 0, 1, 1]"
definition sample_target :: "u8 list" where "sample_target = [9, 97, 1, 7, 0, 0, 0, 0, 0, 0]"

definition sample_begin :: "u8 list sl_system" where
  "sample_begin = (mt_start sample_mt)\<lparr>sy_list := (mt_table sample_mt)\<lparr>sl_rnd := 386994929\<rparr>,
     sy_writer := WriterRaise sample_entry (map (\<lambda>i. if i < 2 then Some (Addr 0 0) else None) [0..<12]) 2\<rparr>"

definition sample_seek :: "u8 list sl_system \<Rightarrow> u8 list sl_system" where
  "sample_seek s = sy_reader_at s 0 (ReaderSeek sample_target (sl_head (sy_list s)) (sl_max_height (sy_list s) - 1))"

definition sample_run :: "u8 list sl_system option" where
  "sample_run =
     Option.bind (run_writer sample_begin) (\<lambda>s.
     Option.bind (run_writer s) (\<lambda>s.
     Option.bind (run_writer (sample_seek s)) (\<lambda>s.
     Option.bind (run_writer s) (run_reader (mt_compare bytewise_comparator) 0))))"

lemma sample_mt_some: "mem_table bytewise_comparator = Some sample_mt"
proof -
  have "mem_table bytewise_comparator \<noteq> None" by code_simp
  then show ?thesis by (simp add: sample_mt_def)
qed

lemma prepare_empty:
  assumes "sl_max_height sl = 1" "node_next sl (sl_head sl) 0 = Some None"
  shows "insert_prepare cmp sl key =
    (let (height, rnd) = random_height (sl_rnd sl) in
     Some (map (\<lambda>i. if i < max 1 height then Some (sl_head sl) else None) [0..<kMaxHeight], height, sl\<lparr>sl_rnd := rnd\<rparr>))"
proof -
  have "find_greater_or_equal cmp sl key (Some p) = Some (None, Some (p[0 := Some (sl_head sl)]))" if "0 < length p" for p
    using assms that
    by (simp add: find_greater_or_equal_def find_ge_loop.simps find_ge_read_def key_is_after_node_def store_prev_def)
  then show ?thesis
    using assms(1) by (auto simp: insert_prepare_def kMaxHeight_def nth_list_update Let_def split: prod.splits)
qed

lemma sample_start: "mt_step (mt_start sample_mt) sample_begin"
proof -
  let ?sl = "mt_table sample_mt"
  have facts: "sl_max_height ?sl = 1" "node_next ?sl (sl_head ?sl) 0 = Some None"
    "random_height (sl_rnd ?sl) = (2, 386994929)" "sl_head ?sl = Addr 0 0" by code_simp+
  have wf: "entry_wf sample_entry" by code_simp
  have "insert_prepare (mt_compare bytewise_comparator) ?sl sample_entry =
      Some (map (\<lambda>i. if i < 2 then Some (Addr 0 0) else None) [0..<12], 2, ?sl\<lparr>sl_rnd := 386994929\<rparr>)"
    unfolding prepare_empty [OF facts(1,2)] facts(3,4) by (simp add: kMaxHeight_def)
  then show ?thesis
    unfolding mt_step_def sample_begin_def using wf by (intro insert_begin) (simp_all add: mt_start_def sl_system_def)
qed

lemma mt_reach_step: "mt_reachable s0 s \<Longrightarrow> mt_step s s' \<Longrightarrow> mt_reachable s0 s'"
  unfolding mt_reachable_def mt_step_def by (rule reach_step)

lemma mt_run_steps:
  "run_writer s = Some s' \<Longrightarrow> mt_step s s'"
  "run_reader (mt_compare bytewise_comparator) r s = Some s' \<Longrightarrow> mt_step s s'"
  unfolding mt_step_def by (simp_all add: run_writer_step run_reader_step)

lemma sample_reached:
  obtains s s' where "mt_reachable (mt_start sample_mt) s" "mt_step s s'"
    "sy_readers s 0 = ReaderSeek sample_target (Addr 0 0) 0" "sy_readers s' 0 = ReaderAt (Some (Addr 0 104))"
    "node_key (sy_list s) (Addr 0 104) = Some sample_entry" "sy_writer s \<noteq> WriterIdle"
proof -
  have "map_option (\<lambda>s. (sy_readers s 0, node_key (sy_list s) (Addr 0 104), sy_writer s \<noteq> WriterIdle,
      map_option (\<lambda>s. sy_readers s 0) (run_reader (mt_compare bytewise_comparator) 0 s))) sample_run =
    Some (ReaderSeek sample_target (Addr 0 0) 0, Some sample_entry, True, Some (ReaderAt (Some (Addr 0 104))))"
    by code_simp
  then obtain s s' where s: "sample_run = Some s" "sy_readers s 0 = ReaderSeek sample_target (Addr 0 0) 0"
    "node_key (sy_list s) (Addr 0 104) = Some sample_entry" "sy_writer s \<noteq> WriterIdle"
    "run_reader (mt_compare bytewise_comparator) 0 s = Some s'" "sy_readers s' 0 = ReaderAt (Some (Addr 0 104))"
    by auto
  from s(1) obtain s2 s3 s4 s5 where run: "run_writer sample_begin = Some s2" "run_writer s2 = Some s3"
    "run_writer (sample_seek s3) = Some s4" "run_writer s4 = Some s5"
    "run_reader (mt_compare bytewise_comparator) 0 s5 = Some s"
    by (auto simp: sample_run_def bind_eq_Some_conv)
  have idle: "sy_readers s3 0 = ReaderIdle"
    using run(1,2) by (auto simp: run_writer_def sample_begin_def mt_start_def sl_system_def split: option.splits)
  have wf: "entry_wf sample_target" by code_simp
  have "mt_step s3 (sample_seek s3)"
    unfolding mt_step_def sample_seek_def using idle wf by (intro seek_begin) simp_all
  then have "mt_reachable (mt_start sample_mt) s"
    using run(1-4) [THEN mt_run_steps(1)] mt_run_steps(2) [OF run(5)] sample_start mt_reach_step
      reach_start [of "mt_compare bytewise_comparator" entry_wf "mt_start sample_mt"] unfolding mt_reachable_def [symmetric]
    by meson
  then show thesis using that s mt_run_steps(2) by blast
qed

subsection \<open>Readers\<close>

text \<open>C22: While a thread inserts entries, other threads read without a lock.  At every moment the links
  of level 0 lead through entries in strictly ascending order, each reader is at one of them, and a
  search that ends gives the first entry not before its key among those that are in the list at this
  moment.\<close>

theorem concurrent_seek_correct:
  assumes "mem_table bytewise_comparator = Some mt" "mt_reachable (mt_start mt) s"
  shows "\<exists>xs ks. list_entries s xs ks \<and> (\<forall>k \<in> set ks. entry_wf k) \<and> sorted_wrt entry_before ks \<and>
     (\<forall>r x. sy_readers s r = ReaderAt (Some x) \<longrightarrow> x \<in> set xs) \<and>
     (\<forall>s' r key x i n. mt_step s s' \<longrightarrow> sy_readers s r = ReaderSeek key x i \<longrightarrow> sy_readers s' r = ReaderAt n \<longrightarrow>
        n = seek_node s xs key)"
proof -
  from assms obtain xs h where ok: "bytewise_mem.mem.system_ok s xs h" by (rule mt_reachable_ok)
  note rd = bytewise_mem.mem.system_reader [OF ok, THEN conjunct2]
  have "x \<in> set xs" if "sy_readers s r = ReaderAt (Some x)" for r x
    using rd [of r] that by (simp add: bytewise_mem.mem.reader_ok_def)
  moreover have "n = seek_node s xs key"
    if "mt_step s s'" "sy_readers s r = ReaderSeek key x i" "sy_readers s' r = ReaderAt n" for s' r key x i n
  proof -
    have "entry_wf key" using rd [of r] that(2) by (simp add: bytewise_mem.mem.reader_ok_def entry_wf_good)
    with that show ?thesis
      using bytewise_mem.mem.seek_result [OF ok] seek_node_first [OF ok] unfolding mt_step_def entry_wf_good by metis
  qed
  ultimately show ?thesis using system_entries [OF ok] by blast
qed

theorem concurrent_seek_correct_witness:
  "\<exists>s s' xs. mt_reachable (mt_start sample_mt) s \<and> mt_step s s' \<and> sy_writer s \<noteq> WriterIdle \<and>
     sy_readers s' 0 = ReaderAt (Some (Addr 0 104)) \<and> node_key (sy_list s) (Addr 0 104) = Some sample_entry \<and>
     chain (sy_list s) 0 (sl_head (sy_list s)) xs \<and> Some (Addr 0 104) = seek_node s xs sample_target"
proof -
  obtain s s' where s: "mt_reachable (mt_start sample_mt) s" "mt_step s s'"
    "sy_readers s 0 = ReaderSeek sample_target (Addr 0 0) 0" "sy_readers s' 0 = ReaderAt (Some (Addr 0 104))"
    "node_key (sy_list s) (Addr 0 104) = Some sample_entry" "sy_writer s \<noteq> WriterIdle" by (rule sample_reached)
  from concurrent_seek_correct [OF sample_mt_some s(1)] s show ?thesis unfolding list_entries_def by metis
qed

text \<open>C20: A reader never loses an entry: what is in the list at one moment is there, at the same
  node and with the same bytes, at every later one.\<close>

theorem entries_stay:
  assumes "mem_table bytewise_comparator = Some mt" "mt_reachable (mt_start mt) s" "mt_reachable s s'"
  shows "\<exists>xs ks xs' ks'. list_entries s xs ks \<and> list_entries s' xs' ks' \<and> set (zip xs ks) \<subseteq> set (zip xs' ks')"
proof -
  from assms(1,2) obtain xs h where ok: "bytewise_mem.mem.system_ok s xs h" by (rule mt_reachable_ok)
  from bytewise_mem.mem.reachable_ok [OF _ ok] assms(3) obtain xs' h' where
    ok': "bytewise_mem.mem.system_ok s' xs' h'" and
    g: "bytewise_mem.mem.grows (sy_list s) xs h (sy_list s') xs' h'"
    unfolding mt_reachable_def entry_wf_good bytewise_mem.mem.keeps_ok_def by blast
  have zip: "set (zip ys (map f ys)) = (\<lambda>y. (y, f y)) ` set ys" for f :: "addr \<Rightarrow> u8 list" and ys
    by (induction ys) auto
  have "set (zip xs (map (bytewise_mem.mem.key_at (sy_list s)) xs)) \<subseteq>
      set (zip xs' (map (bytewise_mem.mem.key_at (sy_list s')) xs'))"
    using g unfolding zip bytewise_mem.mem.grows_def by auto
  with system_entries(1) [OF ok] system_entries(1) [OF ok'] show ?thesis by blast
qed

theorem entries_stay_witness:
  "\<exists>s s' xs ks xs' ks'. mt_step s s' \<and> sy_writer s \<noteq> WriterIdle \<and> list_entries s xs ks \<and> list_entries s' xs' ks' \<and>
     set (zip xs ks) \<subseteq> set (zip xs' ks')"
proof -
  obtain s s' where s: "mt_reachable (mt_start sample_mt) s" "mt_step s s'" "sy_writer s \<noteq> WriterIdle"
    by (rule sample_reached)
  have "mt_reachable s s'" using s(2) mt_reach_step [of s s s'] reach_start unfolding mt_reachable_def by metis
  from entries_stay [OF sample_mt_some s(1) this] s show ?thesis by blast
qed

text \<open>C28: No thread waits for another: from every state that is reachable, a search can be brought to
  its end with the list, the writer and all other readers left as they are, and an insertion that has
  begun can be brought to its end with all readers left where they are.\<close>

theorem threads_finish:
  assumes "mem_table bytewise_comparator = Some mt" "mt_reachable (mt_start mt) s"
  shows "(\<exists>s'. mt_reachable s s' \<and> sy_writer s' = WriterIdle \<and> sy_readers s' = sy_readers s) \<and>
     (\<forall>r key x i. sy_readers s r = ReaderSeek key x i \<longrightarrow>
        (\<exists>n. mt_reachable s (sy_reader_at s r (ReaderAt n))))"
proof -
  from assms obtain xs h where ok: "bytewise_mem.mem.system_ok s xs h" by (rule mt_reachable_ok)
  show ?thesis
    using bytewise_mem.mem.insert_ends [OF ok] bytewise_mem.mem.seek_ends [OF ok]
    unfolding mt_reachable_def entry_wf_good by blast
qed

theorem threads_finish_witness:
  "\<exists>s s' n. mt_reachable (mt_start sample_mt) s \<and> sy_writer s \<noteq> WriterIdle \<and>
     mt_reachable s s' \<and> sy_writer s' = WriterIdle \<and> mt_reachable s (sy_reader_at s 0 (ReaderAt n))"
proof -
  obtain s where s: "mt_reachable (mt_start sample_mt) s"
    "sy_readers s 0 = ReaderSeek sample_target (Addr 0 0) 0" "sy_writer s \<noteq> WriterIdle" by (rule sample_reached)
  from threads_finish [OF sample_mt_some s(1)] s show ?thesis by blast
qed

end
