(* ===== verification/Spec2Isabelle.thy ===== *)
theory Spec2Isabelle
  imports PbWireClaims Base64Ok LdStoreClaims LdTableClaims LdFileClaims LdMemClaims
    LdConcClaims
begin

text \<open>
  Verification library for the C and C++ code of the pincushion repository.

  \<^bold>\<open>The program.\<close>  pincushion is an iOS application in Swift.  Its C and C++ code comes with its
  pods, and what carries logic of its own there are two libraries and a file, all under
  \<open>src/pincushion/Pods/\<close>: nanopb (\<open>nanopb/\<close>), the protocol buffer codec with which Firebase reads
  and writes its messages; leveldb (\<open>leveldb-library/\<close>), the key/value store in which the Firebase
  database keeps its offline cache; and the base64 codec \<open>fbase64.c\<close> of the Firebase database.  The
  application calls nanopb with message descriptors and memory it owns, and leveldb through its
  database interface; below that interface a write goes as a batch into a log and into a memtable,
  and later into tables of sorted blocks.

  \<^bold>\<open>Conventions.\<close>  A C function is a HOL function that returns \<open>Some\<close> of its result and of the state
  it leaves, and \<open>None\<close> where the C function has no defined result: an access outside an object, a
  failed \<open>assert\<close>, signed overflow, or a loop that does not end.  So a theorem that says
  \<open>f x = Some y\<close> also says that the call returns and is defined.  Fixed-width integers are words and
  wrap; \<open>bool\<close> results with an error message stay as they are in the code; a leveldb \<open>Status\<close> is a
  datatype of its own.

  \<^bold>\<open>Parts and theories.\<close>

  \<^item> \<^bold>\<open>Common.\<close>  \<open>Prelude\<close>: types, result conventions, lemma collections.  \<open>CMemory\<close>: byte-addressed
    memory with a heap, for the structs that nanopb fills in through offsets.

  \<^item> \<^bold>\<open>nanopb, descriptors and streams\<close> (\<open>pb.h\<close>, \<open>pb_common.c\<close>).  \<open>PbTypes\<close>: field types and
    descriptors.  \<open>PbIter\<close>: the field iterator.  \<open>PbIstream\<close>, \<open>PbOstream\<close>: streams over buffers and
    user callbacks.  The locale \<open>byte_source\<close>, a source with a fixed content, is the contract for what
    the readers return; it is interpreted on the memory buffer (\<open>buf\<close>).  The locale \<open>input_source\<close>, of
    which \<open>byte_source\<close> is a case, is the weaker one for memory safety, a source that may fail or end
    at any call; it is interpreted on every user callback that keeps its rules (\<open>user\<close>).  The locale
    \<open>byte_sink\<close> is the contract of the writers, interpreted on the buffer (\<open>bufw\<close>) and on a callback
    (\<open>userw\<close>).
    \<open>PbEnv\<close>: what descriptors and messages refer to by pointer.

  \<^item> \<^bold>\<open>nanopb, decoding\<close> (\<open>pb_decode.c\<close>).  \<open>PbVarint\<close>: varints, fixed values, tags, skipping,
    substreams.  \<open>PbFieldDec\<close>: the decoders of the single field types.  \<open>PbDefaults\<close>, \<open>PbRelease\<close>:
    defaults and release.  \<open>PbDecode\<close>: field dispatch, arrays, oneofs, pointers, callbacks, extensions
    and the loop \<open>pb_decode_noinit\<close>.  \<open>PbReadSafe\<close>, \<open>PbLayout\<close>, \<open>PbStaticOk\<close>, \<open>PbDecodeOk\<close> and
    \<open>PbDecodeSafe\<close> prove over \<open>input_source\<close> that decoding returns and stays inside the message;
    \<open>PbVarintOk\<close> and \<open>PbVarintSpec\<close> say over \<open>byte_source\<close> what the primitives return.

  \<^item> \<^bold>\<open>nanopb, encoding\<close> (\<open>pb_encode.c\<close>).  \<open>PbEncPrim\<close> and \<open>PbEncode\<close> hold the encoder, \<open>PbEncodeOk\<close>
    proves that what it emits is a function of the message and no longer than \<open>encoded_max\<close>, a bound
    computed from the message type.  \<open>PbWire\<close> is the wire format by itself; \<open>PbVarintSpec\<close> relates the
    decoders to it.

  \<^item> \<^bold>\<open>base64\<close> (\<open>fbase64.c\<close>).  \<open>Base64\<close>, and its correctness in \<open>Base64Ok\<close>.

  \<^item> \<^bold>\<open>leveldb, bytes and keys\<close>.  \<open>LdCoding\<close> (\<open>util/coding\<close>), \<open>LdCompare\<close> (\<open>slice.h\<close>,
    \<open>util/comparator.cc\<close>), \<open>LdDbFormat\<close> (\<open>db/dbformat\<close>: internal keys), \<open>LdBloom\<close> (\<open>util/hash.cc\<close>,
    \<open>util/bloom.cc\<close>), \<open>LdCrcTables\<close>, \<open>LdCrc\<close> (\<open>util/crc32c.cc\<close>, \<open>port/port_posix_sse.cc\<close>), \<open>LdStatus\<close>
    (\<open>util/status.cc\<close>, \<open>util/logging.cc\<close>), \<open>LdOptions\<close> (\<open>util/options.cc\<close> and \<open>SanitizeOptions\<close>).  A \<open>Comparator\<close> and a \<open>FilterPolicy\<close> are records of their
    methods; what their documentation promises are the locales \<open>comparator_laws\<close> and
    \<open>filter_policy_laws\<close>, interpreted on the byte-wise comparator (\<open>bytewise\<close>), on the comparator of
    internal keys (\<open>internal\<close>) and on the Bloom filter, by itself (\<open>bloom\<close>) and below
    \<open>InternalFilterPolicy\<close> (\<open>internal_bloom\<close>).

  \<^item> \<^bold>\<open>leveldb, logs\<close>.  \<open>LdFile\<close> (\<open>env.h\<close>, the stdio files of \<open>util/env_posix.cc\<close>) with the locales
    \<open>readable_file\<close> and \<open>file_with_room\<close>; \<open>LdLog\<close> (\<open>db/log_writer.cc\<close>, \<open>db/log_reader.cc\<close>).  \<open>LdLogOk\<close>
    defines the format and proves the writer, \<open>LdLogRead\<close> and \<open>LdLogScan\<close> the reader on such a file,
    also when it is cut off, \<open>LdLogSafe\<close> the reader on any file.

  \<^item> \<^bold>\<open>leveldb, batches\<close>.  \<open>LdBatch\<close> (\<open>db/write_batch.cc\<close>).

  \<^item> \<^bold>\<open>leveldb, memtables\<close>.  \<open>LdArena\<close> (\<open>util/arena\<close>, \<open>util/random.h\<close>), \<open>LdSkipList\<close>
    (\<open>db/skiplist.h\<close>), \<open>LdMemTable\<close> (\<open>db/memtable\<close>).  A node of the skip list is at an address of the
    arena; \<open>Insert\<close> is composed of its single stores.  \<open>LdSkipListOk\<close> states in the locale
    \<open>skip_list_keys\<close> what the list keeps, also between these stores, and proves the searches and
    \<open>Insert\<close>, \<open>LdSkipListIter\<close> the iterator.  \<open>LdSkipListConc\<close> puts readers without a lock between the
    stores of the writer, as a step relation; all loads and stores are in one order there, which the
    release stores and acquire loads of the links stand for.  \<open>LdSkipListLive\<close> proves their progress.
    \<open>LdMemTableOk\<close> proves in the locale \<open>mem_table_keys\<close>, of which \<open>skip_list_keys\<close> is a part, that a
    memtable is the set of its entries; it is interpreted on the byte-wise comparator
    (\<open>bytewise_mem\<close>).  \<open>LdMemClaims\<close> joins it with \<open>InsertInto\<close> of \<open>LdBatch\<close>, \<open>LdConcClaims\<close> with the
    readers.

  \<^item> \<^bold>\<open>leveldb, table blocks\<close>.  \<open>LdBlock\<close> (\<open>table/block_builder.cc\<close>, \<open>table/block.cc\<close>); \<open>LdBlockOk\<close>
    defines the bytes of a block, \<open>LdBlockIter\<close>, \<open>LdBlockSeek\<close> and \<open>LdBlockWalk\<close> prove the iterator and
    the builder, the last two for every comparator that keeps the contract.

  \<^item> \<^bold>\<open>leveldb, tables\<close>.  \<open>LdFilterBlock\<close> (\<open>table/filter_block.cc\<close>); \<open>LdFormat\<close> (\<open>table/format.cc\<close>, the
    random access files of \<open>util/env_posix.cc\<close>), with the locale \<open>random_file\<close> and its lemmas in
    \<open>LdFormatOk\<close>; \<open>LdTableBuilder\<close> (\<open>table/table_builder.cc\<close>), \<open>LdTable\<close> (\<open>table/table.cc\<close>).
    \<open>LdTableOk\<close> proves what file the builder leaves (locale \<open>table_building\<close>), \<open>LdTableRead\<close> that a
    reader finds every entry in it (locale \<open>table_reading\<close>, which joins the contracts of comparator,
    filter policy, written file and random access file); \<open>LdTableClaims\<close> interprets it on the POSIX
    files and the database's comparator, with and without the Bloom filter.

  \<^item> \<^bold>\<open>leveldb, manifest and file names\<close>.  \<open>LdVersionEdit\<close> (\<open>db/version_edit.cc\<close>); \<open>LdFileName\<close>
    (\<open>db/filename.cc\<close>, \<open>util/env.cc\<close>) with the locale \<open>file_system\<close>, interpreted on a POSIX file system
    in which any system call may fail.

  The numbered properties are in \<open>PbMessageClaims\<close> (C1 to C4, C13 to C15), \<open>PbWireClaims\<close> (C5 to C8,
  C11, C12), \<open>Base64Ok\<close> (C17 to C19), \<open>LdKeyClaims\<close> (C21, C24 to C27, C29 to C31),
  \<open>LdStoreClaims\<close> (C33 to C36, C39, C40), \<open>LdMemClaims\<close> (C10, C37), \<open>LdConcClaims\<close> (C20, C22, C28), \<open>LdTableClaims\<close> (C9) and \<open>LdFileClaims\<close> (C16, C23, C32, C38).

  \<^bold>\<open>Bounds and fuel.\<close>  The nanopb coders call themselves for submessages through a table of function
  pointers; their models take a number \<open>n\<close> that bounds this nesting (and the length of extension
  lists), and the theorems ask for \<open>d < n\<close>, where \<open>d\<close> is the depth of the descriptor, a bound that
  \<open>static_msg\<close> computes.  The decoding loop needs no bound: each round consumes input.  The loops
  of leveldb are recursions with a measure, or partial functions where their end depends on the
  file, on the block or on links in memory (\<open>find_ge_loop\<close> and the like, \<open>scan_loop\<close>, \<open>parse_until\<close>, \<open>seek_binary\<close>, \<open>seek_linear\<close>), and the properties
  about them prove that they end.

  \<^bold>\<open>Not modelled.\<close>  The macros with which nanopb's generator writes descriptors: a descriptor is
  data here.  Memory that Objective-C and C++ own and release.  Of leveldb the LRU cache (an argument of the table
  reader), the iterators over several blocks, and the database itself with its locks, versions and background work (\<open>db/db_impl.cc\<close>,
  \<open>db/version_set.cc\<close>) and its C wrapper; of \<open>util/env_posix.cc\<close> directories, locks and threads.  Of
  the other pods there are only the Objective-C headers, which declare classes and have no code.
  The Swift application is not C.
\<close>

end
